(* ===== verification/Prelude.thy ===== *)
theory Prelude
  imports Main "HOL-Library.Char_ord" "HOL-Library.List_Lexorder"
begin

text \<open>
  The prelude of the development: the Go conventions the component theories share.

  A Go \<open>string\<close> or \<open>[]byte\<close> is an Isabelle \<open>string\<close>, a list of 8-bit characters, so that
  indices and lengths count bytes as they do in Go. A Go \<open>int\<close> that holds an offset, a length
  or a line number is an \<open>int\<close> where the code compares it with negative values and a \<open>nat\<close>
  where it only ever counts up from zero; such values are bounded by the size of memory and
  do not overflow. Integers whose width matters are words, in the theories that need them.
  The functions of Go's \<open>strings\<close> package which the sources call are defined here on byte
  lists, with the lemmas about them that more than one component uses.
\<close>

named_theorems go_simps \<open>evaluation rules for the models of Go library functions\<close>
named_theorems prefix_simps \<open>rules about prefixes and the rest after a prefix\<close>

section \<open>Bytes\<close>

abbreviation (input) ch_bs :: char where "ch_bs \<equiv> CHR 0x08"
abbreviation (input) ch_tab :: char where "ch_tab \<equiv> CHR 0x09"
abbreviation (input) ch_nl :: char where "ch_nl \<equiv> CHR 0x0A"
abbreviation (input) ch_ff :: char where "ch_ff \<equiv> CHR 0x0C"
abbreviation (input) ch_cr :: char where "ch_cr \<equiv> CHR 0x0D"
abbreviation (input) ch_quote :: char where "ch_quote \<equiv> CHR 0x22"
abbreviation (input) ch_apos :: char where "ch_apos \<equiv> CHR 0x27"
abbreviation (input) ch_backslash :: char where "ch_backslash \<equiv> CHR 0x5C"

text \<open>\<open>c \<ge> lo && c \<le> hi\<close> on bytes.\<close>

definition in_range :: "char \<Rightarrow> char \<Rightarrow> char \<Rightarrow> bool" where
  "in_range lo hi c = (lo \<le> c \<and> c \<le> hi)"

definition is_digit :: "char \<Rightarrow> bool" where
  "is_digit c = in_range (CHR ''0'') (CHR ''9'') c"

section \<open>Lists\<close>

lemma takeWhile_dropWhile_append [prefix_simps]:
  "takeWhile P xs @ dropWhile P xs = xs"
  by simp

lemma takeWhile_all: "list_all P xs \<Longrightarrow> takeWhile P xs = xs"
  by (simp add: list_all_iff)

lemma dropWhile_all: "list_all P xs \<Longrightarrow> dropWhile P xs = []"
  by (simp add: list_all_iff)

lemma takeWhile_append_stop:
  "list_all P xs \<Longrightarrow> ys = [] \<or> \<not> P (hd ys) \<Longrightarrow> takeWhile P (xs @ ys) = xs"
  by (cases ys) (auto simp: takeWhile_append list_all_iff)

lemma dropWhile_append_stop:
  "list_all P xs \<Longrightarrow> ys = [] \<or> \<not> P (hd ys) \<Longrightarrow> dropWhile P (xs @ ys) = ys"
  by (cases ys) (auto simp: dropWhile_append list_all_iff)

lemma hd_dropWhile_not: "dropWhile P xs \<noteq> [] \<Longrightarrow> \<not> P (hd (dropWhile P xs))"
  by (rule hd_dropWhile)

lemma nth_append_here [simp]: "(xs @ y # ys) ! length xs = y"
  by simp

lemma drop_eq_Cons_nth: "i < length xs \<Longrightarrow> drop i xs = xs ! i # drop (Suc i) xs"
  by (rule Cons_nth_drop_Suc [symmetric])

section \<open>Prefixes and suffixes: strings.HasPrefix, TrimPrefix, CutPrefix, HasSuffix, TrimSuffix\<close>

fun has_prefix :: "'a list \<Rightarrow> 'a list \<Rightarrow> bool" where
  "has_prefix s [] = True"
| "has_prefix [] (p # ps) = False"
| "has_prefix (c # s) (p # ps) = (c = p \<and> has_prefix s ps)"

lemma has_prefix_iff: "has_prefix s p \<longleftrightarrow> (\<exists>r. s = p @ r)"
  by (induction s p rule: has_prefix.induct) auto

lemma has_prefix_append [simp, prefix_simps]: "has_prefix (p @ r) p"
  by (auto simp: has_prefix_iff)

lemma has_prefix_take: "has_prefix s p \<longleftrightarrow> take (length p) s = p"
  by (metis append_eq_conv_conj append_take_drop_id has_prefix_iff)

definition has_suffix :: "'a list \<Rightarrow> 'a list \<Rightarrow> bool" where
  "has_suffix s p = has_prefix (rev s) (rev p)"

lemma has_suffix_iff: "has_suffix s p \<longleftrightarrow> (\<exists>r. s = r @ p)"
  unfolding has_suffix_def has_prefix_iff by (metis rev_append rev_rev_ident)

lemma has_suffix_append [simp, prefix_simps]: "has_suffix (r @ p) p"
  by (auto simp: has_suffix_iff)

definition trim_prefix :: "'a list \<Rightarrow> 'a list \<Rightarrow> 'a list" where
  "trim_prefix s p = (if has_prefix s p then drop (length p) s else s)"

definition cut_prefix :: "'a list \<Rightarrow> 'a list \<Rightarrow> 'a list option" where
  "cut_prefix s p = (if has_prefix s p then Some (drop (length p) s) else None)"

definition trim_suffix :: "'a list \<Rightarrow> 'a list \<Rightarrow> 'a list" where
  "trim_suffix s p = (if has_suffix s p then take (length s - length p) s else s)"

lemma trim_prefix_append [simp, prefix_simps]: "trim_prefix (p @ r) p = r"
  by (simp add: trim_prefix_def)

lemma cut_prefix_append [simp, prefix_simps]: "cut_prefix (p @ r) p = Some r"
  by (simp add: cut_prefix_def)

lemma cut_prefix_Some_iff: "cut_prefix s p = Some r \<longleftrightarrow> s = p @ r"
  by (auto simp: cut_prefix_def has_prefix_iff)

lemma trim_suffix_append [simp, prefix_simps]: "trim_suffix (r @ p) p = r"
  by (simp add: trim_suffix_def)

section \<open>Searching: strings.Index, Contains, LastIndex, IndexByte\<close>

text \<open>\<open>strings.Index\<close> with its \<open>-1\<close> as \<open>None\<close>.\<close>

fun index_of :: "'a list \<Rightarrow> 'a list \<Rightarrow> nat option" where
  "index_of [] p = (if p = [] then Some 0 else None)"
| "index_of (c # s) p = (if has_prefix (c # s) p then Some 0 else map_option Suc (index_of s p))"

definition contains_sub :: "'a list \<Rightarrow> 'a list \<Rightarrow> bool" where
  "contains_sub s p = (index_of s p \<noteq> None)"

lemma has_prefix_Nil_left [simp]: "has_prefix [] p \<longleftrightarrow> p = []"
  by (cases p) auto

lemma index_of_Some:
  "index_of s p = Some i \<Longrightarrow> take i s @ p @ drop (i + length p) s = s \<and> i + length p \<le> length s"
proof (induction s p arbitrary: i rule: index_of.induct)
  case (2 c s p)
  show ?case
  proof (cases "has_prefix (c # s) p")
    case True
    then obtain r where r: "c # s = p @ r" by (auto simp: has_prefix_iff)
    moreover from r have "length (c # s) = length p + length r" by (metis length_append)
    moreover from True "2.prems" have "i = 0" by simp
    ultimately show ?thesis by simp
  next
    case False
    with "2.prems" obtain j where "i = Suc j" "index_of s p = Some j" by auto
    with "2.IH" [OF False] show ?thesis by simp
  qed
qed (auto split: if_splits)

lemma index_of_None_iff: "index_of s p = None \<longleftrightarrow> (\<forall>a b. s \<noteq> a @ p @ b)"
proof (induction s p rule: index_of.induct)
  case (2 c s p)
  have "(\<forall>a b. c # s \<noteq> a @ p @ b) \<longleftrightarrow> \<not> has_prefix (c # s) p \<and> (\<forall>a b. s \<noteq> a @ p @ b)"
    by (auto simp: has_prefix_iff append_eq_Cons_conv Cons_eq_append_conv)
  then show ?case using 2 by auto
qed auto

lemma contains_sub_iff: "contains_sub s p \<longleftrightarrow> (\<exists>a b. s = a @ p @ b)"
  by (simp add: contains_sub_def index_of_None_iff)

lemma not_contains_sub_append:
  "\<not> contains_sub (a @ b) p \<Longrightarrow> \<not> contains_sub a p \<and> \<not> contains_sub b p"
  unfolding contains_sub_iff by (metis append.assoc)

section \<open>Splitting and joining: strings.Split with a one-byte or longer separator, strings.Join\<close>

text \<open>\<open>strings.Split(s, sep)\<close> for a separator that is not empty, which is how the sources call it.\<close>

function split_on :: "'a list \<Rightarrow> 'a list \<Rightarrow> 'a list list" where
  "split_on sep s =
     (if sep = [] then [s]
      else case index_of s sep of
        None \<Rightarrow> [s]
      | Some i \<Rightarrow> take i s # split_on sep (drop (i + length sep) s))"
  by pat_completeness auto
termination
proof (relation "measure (\<lambda>(sep, s). length s)", simp)
  fix sep s :: "'a list" and i
  assume "sep \<noteq> []" "index_of s sep = Some i"
  then show "((sep, drop (i + length sep) s), sep, s) \<in> measure (\<lambda>(sep, s). length s)"
    using index_of_Some [of s sep i] by (cases sep) auto
qed

declare split_on.simps [simp del]

fun join :: "'a list \<Rightarrow> 'a list list \<Rightarrow> 'a list" where
  "join sep [] = []"
| "join sep [x] = x"
| "join sep (x # y # zs) = x @ sep @ join sep (y # zs)"

lemma split_on_not_Nil: "split_on sep s \<noteq> []"
  by (subst split_on.simps) (auto split: option.split)

lemma join_Cons: "xs \<noteq> [] \<Longrightarrow> join sep (x # xs) = x @ sep @ join sep xs"
  by (cases xs) auto

lemma join_split_on: "sep \<noteq> [] \<Longrightarrow> join sep (split_on sep s) = s"
proof (induction sep s rule: split_on.induct)
  case (1 sep s)
  show ?case
  proof (cases "index_of s sep")
    case None
    with "1.prems" show ?thesis by (simp add: split_on.simps [of sep s])
  next
    case (Some i)
    then have "join sep (split_on sep s) = take i s @ sep @ join sep (split_on sep (drop (i + length sep) s))"
      using "1.prems" by (simp add: split_on.simps [of sep s] join_Cons split_on_not_Nil)
    also have "\<dots> = s"
      using Some "1.prems" "1.IH" index_of_Some [OF Some] by simp
    finally show ?thesis .
  qed
qed

text \<open>A one-byte separator: the pieces hold no separator, and joining such pieces splits back.\<close>

lemma index_of_single: "index_of s [c] = (if c \<in> set s then Some (length (takeWhile (\<lambda>x. x \<noteq> c) s)) else None)"
  by (induction s) auto

lemma split_on_single_absent: "c \<notin> set s \<Longrightarrow> split_on [c] s = [s]"
  by (simp add: split_on.simps index_of_single)

lemma split_on_single_Cons: "c \<notin> set a \<Longrightarrow> split_on [c] (a @ c # s) = a # split_on [c] s"
proof -
  assume "c \<notin> set a"
  then have "takeWhile (\<lambda>x. x \<noteq> c) (a @ c # s) = a"
    by (simp add: takeWhile_append2 takeWhile_tail) (metis (mono_tags, lifting) append_Nil2 takeWhile.simps(2) takeWhile_append2)
  then show ?thesis by (simp add: split_on.simps [of "[c]" "a @ c # s"] index_of_single)
qed

lemma split_on_join_single:
  "xs \<noteq> [] \<Longrightarrow> \<forall>x \<in> set xs. c \<notin> set x \<Longrightarrow> split_on [c] (join [c] xs) = xs"
proof (induction "[c]" xs rule: join.induct)
  case (3 x y zs)
  then show ?case by (simp add: split_on_single_Cons)
qed (auto simp: split_on_single_absent)

lemma split_on_single_pieces: "x \<in> set (split_on [c] s) \<Longrightarrow> c \<notin> set x"
proof (induction "[c]" s rule: split_on.induct)
  case (1 s)
  show ?case
  proof (cases "c \<in> set s")
    case False
    with "1.prems" show ?thesis by (simp add: split_on_single_absent)
  next
    case True
    let ?a = "takeWhile (\<lambda>x. x \<noteq> c) s"
    have i: "index_of s [c] = Some (length ?a)" using True by (simp add: index_of_single)
    then have "split_on [c] s = take (length ?a) s # split_on [c] (drop (length ?a + length [c]) s)"
      by (simp add: split_on.simps [of "[c]" s])
    moreover have "c \<notin> set (take (length ?a) s)"
      by (auto simp: takeWhile_eq_take [symmetric] dest: set_takeWhileD)
    ultimately show ?thesis using "1.prems" "1.hyps" i by auto
  qed
qed

section \<open>Trimming: strings.TrimLeft with a cutset of bytes\<close>

definition trim_left :: "'a list \<Rightarrow> 'a list \<Rightarrow> 'a list" where
  "trim_left s cutset = dropWhile (\<lambda>c. c \<in> set cutset) s"

section \<open>Codecs\<close>

text \<open>
  The interface of a writer and the reader that takes its text back: \<open>enc\<close> writes a value
  of \<open>dom\<close>, \<open>dec\<close> reads it. The components interpret it for string literals, quoted names,
  qualified names, member paths and comments; what a client needs of it (no two values
  share a text) is proved once here.
\<close>

locale codec =
  fixes enc :: "'v \<Rightarrow> 't" and dec :: "'t \<Rightarrow> 'v option" and valid :: "'v \<Rightarrow> bool"
  assumes dec_enc: "valid v \<Longrightarrow> dec (enc v) = Some v"
begin

lemma enc_inj: "valid v \<Longrightarrow> valid w \<Longrightarrow> enc v = enc w \<Longrightarrow> v = w"
  by (metis dec_enc option.inject)

lemma enc_inj_on: "inj_on enc {v. valid v}"
  by (auto intro!: inj_onI enc_inj)

lemma enc_list_inj: "list_all valid vs \<Longrightarrow> list_all valid ws \<Longrightarrow> map enc vs = map enc ws \<Longrightarrow> vs = ws"
proof (induction vs arbitrary: ws)
  case (Cons v vs)
  then obtain w ws' where "ws = w # ws'" by (cases ws) auto
  then show ?case using Cons.IH [of ws'] Cons.prems enc_inj [of v w] by auto
qed simp

end

end
