(* ===== verification/Source_Text.thy ===== *)
theory Source_Text
  imports Prelude
begin

text \<open>
  Source text: \<open>internal/syntax/source/source.go\<close> (spans and the text they cover),
  \<open>lineindex.go\<close> (byte offsets against line and column) and \<open>kind.go\<close> (the language of a
  file by its extension). Offsets and columns are \<open>int\<close>, as the code's are: \<open>PosAt\<close> and
  \<open>OffsetAt\<close> answer for any value, and \<open>-1\<close> is an answer of \<open>OffsetAt\<close>.
\<close>

section \<open>Spans\<close>

record span =
  Offset :: int
  Len :: int

definition span_End :: "span \<Rightarrow> int" where
  "span_End s = Offset s + Len s"

definition span_Contains :: "span \<Rightarrow> span \<Rightarrow> bool" where
  "span_Contains s other = (Offset other \<ge> Offset s \<and> span_End other \<le> span_End s)"

lemma span_Contains_refl [simp]: "span_Contains s s"
  by (simp add: span_Contains_def)

lemma span_Contains_trans [trans]: "span_Contains a b \<Longrightarrow> span_Contains b c \<Longrightarrow> span_Contains a c"
  by (simp add: span_Contains_def)

text \<open>\<open>SourceFile.Text\<close>: the slice \<open>whole[Offset:End]\<close>, which panics (\<open>None\<close>) outside the text.\<close>

definition source_Text :: "string \<Rightarrow> span \<Rightarrow> string option" where
  "source_Text whole sp =
     (if 0 \<le> Offset sp \<and> Offset sp \<le> span_End sp \<and> span_End sp \<le> int (length whole)
      then Some (take (nat (Len sp)) (drop (nat (Offset sp)) whole)) else None)"

text \<open>
  \<open>TextOf\<close>: the text a span of a named document covers, from a map of files by name that
  shadows a next lookup; \<open>None\<close> for next is Go's \<open>nil\<close>.
\<close>

type_synonym lookup = "string \<Rightarrow> span \<Rightarrow> string option"

definition TextOf :: "(string \<rightharpoonup> string) \<Rightarrow> lookup option \<Rightarrow> lookup" where
  "TextOf files next doc span =
     (case files doc of
        Some sf \<Rightarrow> source_Text sf span
      | None \<Rightarrow> (case next of None \<Rightarrow> Some '''' | Some f \<Rightarrow> f doc span))"

definition IsFile :: "string \<Rightarrow> bool" where
  "IsFile name = (name \<noteq> '''' \<and> \<not> has_prefix name ''<'' \<and> \<not> contains_sub name ''://'')"

definition FileNamed :: "string \<Rightarrow> span \<Rightarrow> string" where
  "FileNamed doc _ = (if \<not> IsFile doc then '''' else doc)"

lemma source_Text_length: "source_Text w sp = Some t \<Longrightarrow> int (length t) = Len sp"
  by (auto simp: source_Text_def span_End_def split: if_splits)

lemma source_Text_contains:
  "span_Contains sp sub \<Longrightarrow> source_Text w sp = Some t \<Longrightarrow> 0 \<le> Len sub \<Longrightarrow>
   source_Text w sub = Some (take (nat (Len sub)) (drop (nat (Offset sub - Offset sp)) t))"
  by (auto simp: source_Text_def span_Contains_def span_End_def nat_diff_distrib take_take min_def
      drop_take split: if_splits)

section \<open>The language of a file: kind.go\<close>

datatype lang_kind = KindUnknown | KindSysML | KindKerML

definition lang_kind_String :: "lang_kind \<Rightarrow> string" where
  "lang_kind_String k = (case k of KindSysML \<Rightarrow> ''SysML'' | KindKerML \<Rightarrow> ''KerML'' | KindUnknown \<Rightarrow> ''unknown'')"

text \<open>
  \<open>filepath.Ext\<close> of Go's standard library on a system whose path separator is the slash:
  the suffix from the last dot of the last path element, empty without one.
\<close>

definition filepath_Ext :: "string \<Rightarrow> string" where
  "filepath_Ext path =
     (let base = rev (takeWhile (\<lambda>c. c \<noteq> CHR ''/'') (rev path));
          ext = rev (takeWhile (\<lambda>c. c \<noteq> CHR ''.'') (rev base))
      in if CHR ''.'' \<in> set base then CHR ''.'' # ext else [])"

definition KindOf :: "string \<Rightarrow> lang_kind" where
  "KindOf name =
     (if filepath_Ext name = ''.sysml'' then KindSysML
      else if filepath_Ext name = ''.kerml'' then KindKerML
      else KindUnknown)"

lemma filepath_Ext_append: "CHR ''.'' \<notin> set e \<Longrightarrow> CHR ''/'' \<notin> set e \<Longrightarrow> filepath_Ext (p @ CHR ''.'' # e) = CHR ''.'' # e"
proof -
  assume e: "CHR ''.'' \<notin> set e" "CHR ''/'' \<notin> set e"
  let ?b = "rev (takeWhile (\<lambda>c. c \<noteq> CHR ''/'') (rev (p @ CHR ''.'' # e)))"
  have "takeWhile (\<lambda>c. c \<noteq> CHR ''/'') (rev (p @ CHR ''.'' # e))
      = rev e @ CHR ''.'' # takeWhile (\<lambda>c. c \<noteq> CHR ''/'') (rev p)"
    using e by (simp add: takeWhile_append)
  then have b: "?b = rev (takeWhile (\<lambda>c. c \<noteq> CHR ''/'') (rev p)) @ CHR ''.'' # e" by simp
  moreover have "takeWhile (\<lambda>c. c \<noteq> CHR ''.'') (rev ?b) = rev e"
    using e unfolding b by (simp add: takeWhile_append)
  ultimately show ?thesis by (simp add: filepath_Ext_def Let_def)
qed

lemma KindOf_sysml: "KindOf (p @ ''.sysml'') = KindSysML"
  using filepath_Ext_append [of "''sysml''" p] by (simp add: KindOf_def)

lemma KindOf_kerml: "KindOf (p @ ''.kerml'') = KindKerML"
  using filepath_Ext_append [of "''kerml''" p] by (simp add: KindOf_def)

section \<open>Positions\<close>

text \<open>A 1-based line and column; positions are ordered by line, then column.\<close>

datatype pos = Pos (pos_Line: int) (pos_Col: int)

instantiation pos :: linorder
begin

definition less_eq_pos :: "pos \<Rightarrow> pos \<Rightarrow> bool" where
  "less_eq_pos p q = (pos_Line p < pos_Line q \<or> pos_Line p = pos_Line q \<and> pos_Col p \<le> pos_Col q)"

definition less_pos :: "pos \<Rightarrow> pos \<Rightarrow> bool" where
  "less_pos p q = (pos_Line p < pos_Line q \<or> pos_Line p = pos_Line q \<and> pos_Col p < pos_Col q)"

instance
  by standard (auto simp: less_eq_pos_def less_pos_def pos.expand)

end

section \<open>The line index: lineindex.go\<close>

record LineIndex =
  li_content :: string
  lineStarts :: "int list"

definition NewLineIndex :: "string \<Rightarrow> LineIndex" where
  "NewLineIndex content =
     \<lparr>li_content = content,
      lineStarts = 0 # map (\<lambda>i. int i + 1) (filter (\<lambda>i. content ! i = CHR 0x0A) [0..<length content])\<rparr>"

text \<open>The binary search of \<open>PosAt\<close> for the greatest line start at or before the offset.\<close>

function posSearch :: "int list \<Rightarrow> int \<Rightarrow> nat \<Rightarrow> nat \<Rightarrow> nat" where
  "posSearch starts offset lo hi =
     (if lo < hi then
        let mid = (lo + hi + 1) div 2 in
        if starts ! mid \<le> offset then posSearch starts offset mid hi
        else posSearch starts offset lo (mid - 1)
      else lo)"
  by pat_completeness auto
termination
  by (relation "measure (\<lambda>(starts, offset, lo, hi). hi - lo)") auto

declare posSearch.simps [simp del]

definition PosAt :: "LineIndex \<Rightarrow> int \<Rightarrow> pos" where
  "PosAt li offset =
     (let lo = posSearch (lineStarts li) offset 0 (length (lineStarts li) - 1)
      in Pos (int lo + 1) (offset - lineStarts li ! lo + 1))"

definition OffsetAt :: "LineIndex \<Rightarrow> pos \<Rightarrow> int" where
  "OffsetAt li p =
     (if pos_Line p < 1 \<or> pos_Line p > int (length (lineStarts li)) then -1
      else lineStarts li ! nat (pos_Line p - 1) + (pos_Col p - 1))"

text \<open>The invariant of a line index: it starts at 0 and its line starts ascend.\<close>

definition line_index_ok :: "LineIndex \<Rightarrow> bool" where
  "line_index_ok li = (lineStarts li \<noteq> [] \<and> hd (lineStarts li) = 0 \<and> sorted_wrt (<) (lineStarts li))"

lemma sorted_wrt_filter_upt: "sorted_wrt (<) (map (\<lambda>i. int i + 1) (filter P [0..<n]))"
  by (induction n) (auto simp: sorted_wrt_append)

lemma NewLineIndex_ok: "line_index_ok (NewLineIndex content)"
  using sorted_wrt_filter_upt by (auto simp: line_index_ok_def NewLineIndex_def)

lemma posSearch_stop: "\<not> lo < hi \<Longrightarrow> posSearch s off lo hi = lo"
  by (simp add: posSearch.simps [of s off lo hi])

lemma posSearch_up:
  "lo < hi \<Longrightarrow> s ! ((lo + hi + 1) div 2) \<le> off \<Longrightarrow> posSearch s off lo hi = posSearch s off ((lo + hi + 1) div 2) hi"
  by (simp add: posSearch.simps [of s off lo hi] Let_def)

lemma posSearch_down:
  "lo < hi \<Longrightarrow> \<not> s ! ((lo + hi + 1) div 2) \<le> off \<Longrightarrow>
   posSearch s off lo hi = posSearch s off lo ((lo + hi + 1) div 2 - 1)"
  by (simp add: posSearch.simps [of s off lo hi] Let_def)

text \<open>
  What the search finds: the last index whose start is at or before the offset, or \<open>lo\<close> when
  there is none.
\<close>

lemma posSearch_greatest:
  assumes "lo \<le> hi" "hi < length s" "hi + 1 < length s \<longrightarrow> off < s ! (hi + 1)"
  shows "lo \<le> posSearch s off lo hi \<and> posSearch s off lo hi \<le> hi \<and>
         (s ! lo \<le> off \<longrightarrow> s ! posSearch s off lo hi \<le> off) \<and>
         (posSearch s off lo hi + 1 < length s \<longrightarrow> off < s ! (posSearch s off lo hi + 1))"
  using assms
proof (induction s off lo hi rule: posSearch.induct)
  case (1 s off lo hi)
  define m where "m = (lo + hi + 1) div 2"
  show ?case
  proof (cases "lo < hi")
    case False
    with "1.prems" show ?thesis by (simp add: posSearch_stop)
  next
    case True
    then have mid: "lo < m" "m \<le> hi" by (auto simp: m_def)
    show ?thesis
    proof (cases "s ! m \<le> off")
      case up: True
      have "m \<le> posSearch s off m hi \<and> posSearch s off m hi \<le> hi \<and> s ! posSearch s off m hi \<le> off \<and>
            (posSearch s off m hi + 1 < length s \<longrightarrow> off < s ! (posSearch s off m hi + 1))"
        using "1.IH"(1) [OF True m_def up mid(2)] "1.prems" up by blast
      with up mid True show ?thesis by (auto simp: posSearch_up m_def)
    next
      case False
      then have *: "m - 1 + 1 < length s \<longrightarrow> off < s ! (m - 1 + 1)" "lo \<le> m - 1" "m - 1 < length s" "m - 1 \<le> hi"
        using mid "1.prems" by auto
      have "posSearch s off lo hi = posSearch s off lo (m - 1)"
        using True False by (simp add: posSearch_down m_def)
      with "1.IH"(2) [OF True m_def False *(2,3,1)] *(4) show ?thesis by simp
    qed
  qed
qed

lemma PosAt_line:
  assumes "line_index_ok li"
  obtains k where "k < length (lineStarts li)" "PosAt li off = Pos (int k + 1) (off - lineStarts li ! k + 1)"
    "0 \<le> off \<longrightarrow> lineStarts li ! k \<le> off"
    "k + 1 < length (lineStarts li) \<longrightarrow> off < lineStarts li ! (k + 1)"
proof -
  let ?s = "lineStarts li"
  let ?k = "posSearch ?s off 0 (length ?s - 1)"
  have ne: "?s \<noteq> []" "?s ! 0 = 0" using assms by (auto simp: line_index_ok_def hd_conv_nth)
  then have "length ?s - 1 < length ?s" by (cases ?s) auto
  from posSearch_greatest [of 0 "length ?s - 1" ?s off] this ne
  have "?k \<le> length ?s - 1" "0 \<le> off \<longrightarrow> ?s ! ?k \<le> off" "?k + 1 < length ?s \<longrightarrow> off < ?s ! (?k + 1)"
    by auto
  moreover have "?k < length ?s" using \<open>?k \<le> length ?s - 1\<close> ne by (cases ?s) auto
  ultimately show ?thesis using that [of ?k] by (simp add: PosAt_def Let_def)
qed

lemma OffsetAt_PosAt_ok: "line_index_ok li \<Longrightarrow> OffsetAt li (PosAt li off) = off"
  by (erule PosAt_line [of _ off]) (auto simp: OffsetAt_def)

lemma lineStarts_mono:
  "line_index_ok li \<Longrightarrow> i \<le> j \<Longrightarrow> j < length (lineStarts li) \<Longrightarrow> lineStarts li ! i \<le> lineStarts li ! j"
  by (cases "i = j") (auto simp: line_index_ok_def sorted_wrt_iff_nth_less le_less)

text \<open>A position is on the text when its line exists and its column stops short of the next line.\<close>

definition pos_valid :: "LineIndex \<Rightarrow> pos \<Rightarrow> bool" where
  "pos_valid li p =
     (1 \<le> pos_Line p \<and> pos_Line p \<le> int (length (lineStarts li)) \<and> 1 \<le> pos_Col p \<and>
      (pos_Line p < int (length (lineStarts li)) \<longrightarrow>
         pos_Col p \<le> lineStarts li ! nat (pos_Line p) - lineStarts li ! nat (pos_Line p - 1)))"

lemma PosAt_valid: "line_index_ok li \<Longrightarrow> 0 \<le> off \<Longrightarrow> pos_valid li (PosAt li off)"
  by (erule PosAt_line [of _ off]) (auto simp: pos_valid_def nat_add_distrib)

lemma PosAt_OffsetAt_ok:
  assumes ok: "line_index_ok li" and v: "pos_valid li p"
  shows "PosAt li (OffsetAt li p) = p"
proof -
  let ?s = "lineStarts li"
  define j where "j = nat (pos_Line p - 1)"
  define off where "off = OffsetAt li p"
  have j: "j < length ?s" "pos_Line p = int j + 1" using v by (auto simp: j_def pos_valid_def)
  have off: "off = ?s ! j + (pos_Col p - 1)" using v by (simp add: off_def OffsetAt_def j_def pos_valid_def)
  have col: "1 \<le> pos_Col p" "j + 1 < length ?s \<longrightarrow> off < ?s ! (j + 1)"
    using v j off by (auto simp: pos_valid_def nat_add_distrib)
  have "?s ! 0 \<le> ?s ! j" using lineStarts_mono [OF ok, of 0 j] j by simp
  then have "0 \<le> off" using ok off col by (auto simp: line_index_ok_def hd_conv_nth)
  from ok obtain k where k: "k < length ?s" "PosAt li off = Pos (int k + 1) (off - ?s ! k + 1)"
    "0 \<le> off \<longrightarrow> ?s ! k \<le> off" "k + 1 < length ?s \<longrightarrow> off < ?s ! (k + 1)"
    by (rule PosAt_line)
  have "k = j"
  proof (rule ccontr)
    assume "k \<noteq> j"
    then consider "k + 1 \<le> j" | "j + 1 \<le> k" by linarith
    then show False
    proof cases
      case 1
      with lineStarts_mono [OF ok, of "k + 1" j] j k off col show False by simp
    next
      case 2
      with lineStarts_mono [OF ok, of "j + 1" k] k off col \<open>0 \<le> off\<close> show False by simp
    qed
  qed
  with k off j show ?thesis by (simp add: off_def [symmetric] pos.expand)
qed

lemma PosAt_strict_mono:
  assumes ok: "line_index_ok li" and less: "a < b" and nonneg: "0 \<le> a"
  shows "PosAt li a < PosAt li b"
proof -
  let ?s = "lineStarts li"
  from ok obtain k where k: "k < length ?s" "PosAt li a = Pos (int k + 1) (a - ?s ! k + 1)"
    "0 \<le> a \<longrightarrow> ?s ! k \<le> a" "k + 1 < length ?s \<longrightarrow> a < ?s ! (k + 1)" by (rule PosAt_line)
  from ok obtain l where l: "l < length ?s" "PosAt li b = Pos (int l + 1) (b - ?s ! l + 1)"
    "0 \<le> b \<longrightarrow> ?s ! l \<le> b" "l + 1 < length ?s \<longrightarrow> b < ?s ! (l + 1)" by (rule PosAt_line)
  have "\<not> l < k" using lineStarts_mono [OF ok, of "l + 1" k] k(1,3) l(3,4) less nonneg by auto
  then consider "k = l" | "k < l" by linarith
  then show ?thesis
    by cases (use k(2) l(2) less in \<open>auto simp: less_pos_def\<close>)
qed

section \<open>Coordinates\<close>

text \<open>
  The interface the callers of the line index rely on: a map of offsets to coordinates with an
  inverse that keeps their order. Diagnostics sorted by offset are then sorted by coordinate,
  and two offsets never share one.
\<close>

locale coordinates =
  fixes to_pos :: "int \<Rightarrow> 'p::linorder" and from_pos :: "'p \<Rightarrow> int"
  assumes from_to: "from_pos (to_pos off) = off"
    and strict: "0 \<le> a \<Longrightarrow> a < b \<Longrightarrow> to_pos a < to_pos b"
begin

lemma to_pos_inj: "to_pos a = to_pos b \<longleftrightarrow> a = b"
  by (metis from_to)

lemma to_pos_less_iff: "0 \<le> a \<Longrightarrow> 0 \<le> b \<Longrightarrow> to_pos a < to_pos b \<longleftrightarrow> a < b"
  using strict [of a b] strict [of b a] by (cases a b rule: linorder_cases) (auto dest: less_asym)

lemma to_pos_sorted: "\<forall>x \<in> set xs. 0 \<le> x \<Longrightarrow> sorted (map to_pos xs) \<longleftrightarrow> sorted xs"
  by (induction xs) (auto simp: not_less [symmetric] to_pos_less_iff)

end

interpretation line_coords: coordinates "PosAt (NewLineIndex content)" "OffsetAt (NewLineIndex content)"
  for content
  by unfold_locales (auto simp: OffsetAt_PosAt_ok PosAt_strict_mono NewLineIndex_ok)

section \<open>What a line index answers about the text\<close>

text \<open>
  The reference definition of a position: walk the text before the offset, a newline opening
  the next line and any other byte advancing the column.
\<close>

definition pos_step :: "char \<Rightarrow> pos \<Rightarrow> pos" where
  "pos_step b p = (if b = CHR 0x0A then Pos (pos_Line p + 1) 1 else Pos (pos_Line p) (pos_Col p + 1))"

definition pos_walk :: "string \<Rightarrow> pos" where
  "pos_walk s = fold pos_step s (Pos 1 1)"

abbreviation newlines_before :: "string \<Rightarrow> nat \<Rightarrow> nat list" where
  "newlines_before content n \<equiv> filter (\<lambda>i. content ! i = CHR 0x0A) [0..<n]"

lemma filter_upt_split:
  "n \<le> m \<Longrightarrow> filter P [0..<m] = filter P [0..<n] @ filter P [n..<m]"
  by (metis filter_append le_add_diff_inverse upt_add_eq_append zero_le)

lemma newlines_nth:
  assumes "n \<le> length content" "length (newlines_before content n) < length (newlines_before content (length content))"
  shows "n \<le> newlines_before content (length content) ! length (newlines_before content n)"
proof -
  let ?r = "filter (\<lambda>i. content ! i = CHR 0x0A) [n..<length content]"
  have *: "newlines_before content (length content) = newlines_before content n @ ?r"
    using assms(1) by (rule filter_upt_split)
  then have "?r \<noteq> []" using assms(2) by auto
  then have "hd ?r \<in> set ?r" by (rule hd_in_set)
  then have "n \<le> hd ?r" by simp
  moreover have "newlines_before content (length content) ! length (newlines_before content n) = ?r ! 0"
    unfolding * by (simp add: nth_append)
  ultimately show ?thesis using \<open>?r \<noteq> []\<close> by (simp add: hd_conv_nth)
qed

lemma newlines_nth_here:
  assumes "n < length content" "content ! n = CHR 0x0A"
  shows "newlines_before content (length content) ! length (newlines_before content n) = n"
    "length (newlines_before content n) < length (newlines_before content (length content))"
proof -
  have "newlines_before content (length content) =
      newlines_before content n @ n # filter (\<lambda>i. content ! i = CHR 0x0A) [Suc n..<length content]"
    using assms filter_upt_split [of n "length content" "\<lambda>i. content ! i = CHR 0x0A"] by (simp add: upt_conv_Cons)
  then show "newlines_before content (length content) ! length (newlines_before content n) = n"
    "length (newlines_before content n) < length (newlines_before content (length content))"
    by (simp_all add: nth_append)
qed

lemma lineStarts_Suc:
  "k < length (newlines_before content (length content)) \<Longrightarrow>
   lineStarts (NewLineIndex content) ! Suc k = int (newlines_before content (length content) ! k) + 1"
  by (simp add: NewLineIndex_def)

lemma length_lineStarts:
  "length (lineStarts (NewLineIndex content)) = Suc (length (newlines_before content (length content)))"
  by (simp add: NewLineIndex_def)

lemma pos_walk_start:
  "n \<le> length content \<Longrightarrow>
   pos_walk (take n content) =
     Pos (1 + int (length (newlines_before content n)))
         (int n - lineStarts (NewLineIndex content) ! length (newlines_before content n) + 1)"
proof (induction n)
  case 0
  then show ?case by (simp add: pos_walk_def NewLineIndex_def)
next
  case (Suc n)
  then have step: "pos_walk (take (Suc n) content) = pos_step (content ! n) (pos_walk (take n content))"
    by (simp add: pos_walk_def take_Suc_conv_app_nth)
  show ?case
  proof (cases "content ! n = CHR 0x0A")
    case True
    with Suc have "lineStarts (NewLineIndex content) ! Suc (length (newlines_before content n)) = int n + 1"
      using newlines_nth_here [of n content] by (simp add: lineStarts_Suc)
    then show ?thesis using True Suc unfolding step by (simp add: pos_step_def)
  next
    case False
    then show ?thesis using Suc unfolding step by (simp add: pos_step_def)
  qed
qed

lemma pos_walk_col: "pos_Col (pos_walk s) \<ge> 1"
  unfolding pos_walk_def by (rule fold_invariant [where Q = "\<lambda>_. True"]) (auto simp: pos_step_def)

lemma pos_walk_valid:
  assumes "n \<le> length content"
  shows "pos_valid (NewLineIndex content) (pos_walk (take n content))"
proof -
  let ?k = "length (newlines_before content n)" and ?s = "lineStarts (NewLineIndex content)"
  have "?k \<le> length (newlines_before content (length content))"
    using filter_upt_split [OF assms, of "\<lambda>i. content ! i = CHR 0x0A"] by simp
  moreover have "int n < ?s ! Suc ?k" if "?k < length (newlines_before content (length content))"
    using newlines_nth [OF assms that] that by (simp add: lineStarts_Suc)
  ultimately show ?thesis
    using pos_walk_start [OF assms] pos_walk_col [of "take n content"]
    by (auto simp: pos_valid_def length_lineStarts nat_add_distrib)
qed

lemma PosAt_walk:
  assumes "0 \<le> off" "off \<le> int (length content)"
  shows "PosAt (NewLineIndex content) off = pos_walk (take (nat off) content)"
proof -
  have n: "nat off \<le> length content" using assms by simp
  have "OffsetAt (NewLineIndex content) (pos_walk (take (nat off) content)) = off"
    using pos_walk_start [OF n] pos_walk_valid [OF n] assms by (simp add: OffsetAt_def pos_valid_def)
  then show ?thesis
    using PosAt_OffsetAt_ok [OF NewLineIndex_ok pos_walk_valid [OF n]] by simp
qed

text \<open>
  C34: the position a line index gives an offset of the text is the one a walk over the text before it
  reaches; it gives offsets coordinates they can be read back from, in their order, and the coordinates
  of a place on the text read back from its offset.
\<close>

theorem LineIndex_roundtrip:
  assumes "0 \<le> a" and "0 \<le> b" and "pos_valid (NewLineIndex content) p"
  shows "(a \<le> int (length content) \<longrightarrow> PosAt (NewLineIndex content) a = pos_walk (take (nat a) content)) \<and>
    OffsetAt (NewLineIndex content) (PosAt (NewLineIndex content) a) = a \<and>
    (PosAt (NewLineIndex content) a < PosAt (NewLineIndex content) b \<longleftrightarrow> a < b) \<and>
    pos_valid (NewLineIndex content) (PosAt (NewLineIndex content) a) \<and>
    PosAt (NewLineIndex content) (OffsetAt (NewLineIndex content) p) = p"
  using PosAt_walk [OF assms(1)] line_coords.from_to line_coords.to_pos_less_iff [OF assms(1,2)]
    PosAt_valid [OF NewLineIndex_ok assms(1)] PosAt_OffsetAt_ok [OF NewLineIndex_ok assms(3)]
  by simp

theorem LineIndex_roundtrip_witness:
  "PosAt (NewLineIndex (''ab'' @ [CHR 0x0A] @ ''c'')) 4 = Pos 2 2 \<and>
   PosAt (NewLineIndex [CHR 0x0A]) 0 < PosAt (NewLineIndex [CHR 0x0A]) 1 \<and>
   PosAt (NewLineIndex [CHR 0x0A]) (OffsetAt (NewLineIndex [CHR 0x0A]) (Pos 2 1)) = Pos 2 1"
proof -
  let ?t = "''ab'' @ [CHR 0x0A] @ ''c''"
  have "pos_valid (NewLineIndex ?t) (Pos 2 1)" by code_simp
  then have "PosAt (NewLineIndex ?t) 4 = pos_walk (take (nat 4) ?t)"
    using LineIndex_roundtrip [of 4 4 ?t "Pos 2 1"] by simp
  moreover have "pos_walk (take (nat 4) ?t) = Pos 2 2" by code_simp
  moreover have "pos_valid (NewLineIndex [CHR 0x0A]) (Pos 2 1)" by code_simp
  ultimately show ?thesis
    using LineIndex_roundtrip [of 0 1 "[CHR 0x0A]" "Pos 2 1"] by (metis order_refl zero_le_one zero_less_one)
qed

end
