(* ===== verification/Source_Names.thy ===== *)
theory Source_Names
  imports Prelude Source_Text
begin

text \<open>
  Names and string literals of the notation: \<open>internal/syntax/source/keywords.go\<close> (reserved
  words and basic names), \<open>string.go\<close> (escapes of quoted literals) and \<open>name.go\<close> (writing and
  reading names, qualified names, member paths and reference lists). The readers that
  return a name, the rest and a success flag answer \<open>Some (name, rest)\<close> or \<open>None\<close>.
\<close>

section \<open>Keywords: keywords.go\<close>

definition keywordList :: "string list" where
  "keywordList = [
    ''about'', ''abstract'', ''accept'', ''action'', ''actor'', ''after'', ''alias'', ''all'',
    ''allocate'', ''allocation'', ''analysis'', ''and'', ''as'', ''assert'', ''assign'',
    ''assoc'', ''assume'', ''at'', ''attribute'', ''behavior'', ''bind'', ''binding'', ''bool'',
    ''by'', ''calc'', ''case'', ''chains'', ''class'', ''classifier'', ''comment'', ''composite'',
    ''concern'', ''conjugate'', ''conjugates'', ''conjugation'', ''connect'', ''connection'',
    ''connector'', ''const'', ''constant'', ''constraint'', ''crosses'', ''datatype'', ''decide'',
    ''def'', ''default'', ''defined'', ''dependency'', ''derived'', ''differences'',
    ''disjoining'', ''disjoint'', ''do'', ''doc'', ''else'', ''end'', ''entry'', ''enum'',
    ''event'', ''exhibit'', ''exit'', ''expose'', ''expr'', ''false'', ''feature'', ''featured'',
    ''featuring'', ''filter'', ''first'', ''flow'', ''for'', ''fork'', ''frame'', ''from'',
    ''function'', ''hastype'', ''if'', ''implies'', ''import'', ''in'', ''include'',
    ''individual'', ''inout'', ''interaction'', ''interface'', ''intersects'', ''inv'',
    ''inverse'', ''inverting'', ''istype'', ''item'', ''join'', ''language'', ''library'',
    ''locale'', ''loop'', ''member'', ''merge'', ''message'', ''meta'', ''metaclass'',
    ''metadata'', ''multiplicity'', ''namespace'', ''new'', ''nonunique'', ''not'', ''null'',
    ''objective'', ''occurrence'', ''of'', ''or'', ''ordered'', ''out'', ''package'',
    ''parallel'', ''part'', ''perform'', ''port'', ''portion'', ''predicate'', ''private'',
    ''protected'', ''public'', ''redefines'', ''redefinition'', ''ref'', ''references'',
    ''render'', ''rendering'', ''rep'', ''require'', ''requirement'', ''return'', ''satisfy'',
    ''send'', ''snapshot'', ''specialization'', ''specializes'', ''stakeholder'', ''standard'',
    ''state'', ''step'', ''struct'', ''subclassifier'', ''subject'', ''subset'', ''subsets'',
    ''subtype'', ''succession'', ''terminate'', ''then'', ''timeslice'', ''to'', ''transition'',
    ''true'', ''type'', ''typed'', ''typing'', ''unions'', ''until'', ''use'', ''variant'',
    ''variation'', ''verification'', ''verify'', ''via'', ''view'', ''viewpoint'', ''when'',
    ''while'', ''xor'']"

definition keywordListKerML :: "string list" where
  "keywordListKerML = [
    ''about'', ''abstract'', ''alias'', ''all'', ''and'', ''as'', ''assoc'', ''behavior'',
    ''binding'', ''bool'', ''by'', ''chains'', ''class'', ''classifier'', ''comment'',
    ''composite'', ''conjugate'', ''conjugates'', ''conjugation'', ''connector'', ''const'',
    ''crosses'', ''datatype'', ''default'', ''dependency'', ''derived'', ''differences'',
    ''disjoining'', ''disjoint'', ''doc'', ''else'', ''end'', ''expr'', ''false'', ''feature'',
    ''featured'', ''featuring'', ''filter'', ''first'', ''flow'', ''for'', ''from'', ''function'',
    ''hastype'', ''if'', ''implies'', ''import'', ''in'', ''inout'', ''interaction'',
    ''intersects'', ''inv'', ''inverse'', ''inverting'', ''istype'', ''language'', ''library'',
    ''locale'', ''member'', ''meta'', ''metaclass'', ''metadata'', ''multiplicity'',
    ''namespace'', ''new'', ''nonunique'', ''not'', ''null'', ''of'', ''or'', ''ordered'',
    ''out'', ''package'', ''portion'', ''predicate'', ''private'', ''protected'', ''public'',
    ''redefines'', ''redefinition'', ''references'', ''rep'', ''return'', ''specialization'',
    ''specializes'', ''standard'', ''step'', ''struct'', ''subclassifier'', ''subset'',
    ''subsets'', ''subtype'', ''succession'', ''then'', ''to'', ''true'', ''type'', ''typed'',
    ''typing'', ''unions'', ''var'', ''xor'']"

definition keywordListSysML :: "string list" where
  "keywordListSysML = [
    ''about'', ''abstract'', ''accept'', ''action'', ''actor'', ''after'', ''alias'', ''all'',
    ''allocate'', ''allocation'', ''analysis'', ''and'', ''as'', ''assert'', ''assign'',
    ''assume'', ''at'', ''attribute'', ''bind'', ''binding'', ''by'', ''calc'', ''case'',
    ''comment'', ''concern'', ''connect'', ''connection'', ''constant'', ''constraint'',
    ''crosses'', ''decide'', ''def'', ''default'', ''defined'', ''dependency'', ''derived'',
    ''do'', ''doc'', ''else'', ''end'', ''entry'', ''enum'', ''event'', ''exhibit'', ''exit'',
    ''expose'', ''false'', ''filter'', ''first'', ''flow'', ''for'', ''fork'', ''frame'',
    ''from'', ''hastype'', ''if'', ''implies'', ''import'', ''in'', ''include'', ''individual'',
    ''inout'', ''interface'', ''istype'', ''item'', ''join'', ''language'', ''library'',
    ''locale'', ''loop'', ''merge'', ''message'', ''meta'', ''metadata'', ''new'', ''nonunique'',
    ''not'', ''null'', ''objective'', ''occurrence'', ''of'', ''or'', ''ordered'', ''out'',
    ''package'', ''parallel'', ''part'', ''perform'', ''port'', ''private'', ''protected'',
    ''public'', ''redefines'', ''ref'', ''references'', ''render'', ''rendering'', ''rep'',
    ''require'', ''requirement'', ''return'', ''satisfy'', ''send'', ''snapshot'',
    ''specializes'', ''stakeholder'', ''standard'', ''state'', ''subject'', ''subsets'',
    ''succession'', ''terminate'', ''then'', ''timeslice'', ''to'', ''transition'', ''true'',
    ''until'', ''use'', ''variant'', ''variation'', ''verification'', ''verify'', ''via'',
    ''view'', ''viewpoint'', ''when'', ''while'', ''xor'']"

definition keywordSet :: "lang_kind \<Rightarrow> string list" where
  "keywordSet k =
     (case k of KindKerML \<Rightarrow> keywordListKerML | KindSysML \<Rightarrow> keywordListSysML | KindUnknown \<Rightarrow> keywordList)"

definition IsKeyword :: "string \<Rightarrow> bool" where
  "IsKeyword s = (s \<in> set keywordList)"

definition IsKeywordIn :: "string \<Rightarrow> lang_kind \<Rightarrow> bool" where
  "IsKeywordIn s k = (s \<in> set (keywordSet k))"

definition Keywords :: "string list" where
  "Keywords = keywordList"

definition IsIdentStart :: "char \<Rightarrow> bool" where
  "IsIdentStart c = (c = CHR ''_'' \<or> in_range (CHR ''a'') (CHR ''z'') c \<or> in_range (CHR ''A'') (CHR ''Z'') c)"

definition IsIdentCont :: "char \<Rightarrow> bool" where
  "IsIdentCont c = (IsIdentStart c \<or> in_range (CHR ''0'') (CHR ''9'') c)"

definition IsIdentifier :: "string \<Rightarrow> bool" where
  "IsIdentifier s = (case s of [] \<Rightarrow> False | c # cs \<Rightarrow> IsIdentStart c \<and> list_all IsIdentCont cs)"

lemma IsIdentStart_Cont: "IsIdentStart c \<Longrightarrow> IsIdentCont c"
  by (simp add: IsIdentCont_def)

lemma IsIdentifier_all: "IsIdentifier s \<Longrightarrow> list_all IsIdentCont s"
  by (auto simp: IsIdentifier_def IsIdentStart_Cont split: list.splits)

text \<open>Bytes of punctuation never belong to a basic name.\<close>

lemma not_IsIdentCont [simp]:
  "\<not> IsIdentCont ch_apos" "\<not> IsIdentCont ch_quote" "\<not> IsIdentCont (CHR '':'')" "\<not> IsIdentCont (CHR ''.'')"
  "\<not> IsIdentCont (CHR '','')" "\<not> IsIdentCont (CHR '' '')" "\<not> IsIdentCont (CHR ''~'')" "\<not> IsIdentCont (CHR ''$'')"
  by (simp_all add: IsIdentCont_def IsIdentStart_def in_range_def less_eq_char_def)

lemma IsIdentifier_excludes: "IsIdentifier s \<Longrightarrow> \<not> IsIdentCont c \<Longrightarrow> c \<notin> set s"
  using IsIdentifier_all by (auto simp: list_all_iff)

section \<open>Escapes and quoted literals: string.go\<close>

definition IsEscapeChar :: "char \<Rightarrow> bool" where
  "IsEscapeChar c = (c \<in> {CHR ''b'', CHR ''t'', CHR ''n'', CHR ''f'', CHR ''r'', ch_quote, ch_apos, ch_backslash})"

definition escape_value :: "char \<Rightarrow> char" where
  "escape_value c =
     (if c = CHR ''b'' then ch_bs else if c = CHR ''t'' then ch_tab else if c = CHR ''n'' then ch_nl
      else if c = CHR ''f'' then ch_ff else if c = CHR ''r'' then ch_cr else c)"

text \<open>The loop of \<open>Unescape\<close>: a backslash that ends the text stands for itself.\<close>

fun unescape_loop :: "string \<Rightarrow> string" where
  "unescape_loop [] = []"
| "unescape_loop [c] = [c]"
| "unescape_loop (c # d # s) =
     (if c \<noteq> ch_backslash then c # unescape_loop (d # s) else escape_value d # unescape_loop s)"

definition Unescape :: "string \<Rightarrow> string" where
  "Unescape raw = (if ch_backslash \<notin> set raw then raw else unescape_loop raw)"

definition StringValue :: "string \<Rightarrow> string" where
  "StringValue raw =
     Unescape
       (if length raw \<ge> 1 \<and> (hd raw = ch_quote \<or> hd raw = ch_apos) then
          (if length raw \<ge> 2 \<and> last raw = hd raw then butlast (tl raw) else tl raw)
        else raw)"

definition quoted_byte :: "char \<Rightarrow> char \<Rightarrow> string" where
  "quoted_byte quote c =
     (if c = quote \<or> c = ch_backslash then [ch_backslash, c]
      else if c = ch_bs then [ch_backslash, CHR ''b'']
      else if c = ch_tab then [ch_backslash, CHR ''t'']
      else if c = ch_nl then [ch_backslash, CHR ''n'']
      else if c = ch_ff then [ch_backslash, CHR ''f'']
      else if c = ch_cr then [ch_backslash, CHR ''r'']
      else [c])"

definition quotedText :: "string \<Rightarrow> char \<Rightarrow> string" where
  "quotedText value quote = quote # concat (map (quoted_byte quote) value) @ [quote]"

definition StringText :: "string \<Rightarrow> string" where
  "StringText value = quotedText value ch_quote"

definition UnrestrictedNameText :: "string \<Rightarrow> string" where
  "UnrestrictedNameText value = quotedText value ch_apos"

lemma Unescape_loop: "Unescape raw = unescape_loop raw"
proof -
  have "ch_backslash \<notin> set raw \<Longrightarrow> unescape_loop raw = raw"
    by (induction raw rule: unescape_loop.induct) auto
  then show ?thesis by (simp add: Unescape_def)
qed

lemma unescape_loop_quoted_byte:
  assumes "q = ch_quote \<or> q = ch_apos"
  shows "unescape_loop (quoted_byte q c @ s) = c # unescape_loop s"
  using assms by (cases s) (auto simp: quoted_byte_def escape_value_def)

lemma unescape_quoted:
  "q = ch_quote \<or> q = ch_apos \<Longrightarrow> unescape_loop (concat (map (quoted_byte q) v)) = v"
  by (induction v) (simp_all add: unescape_loop_quoted_byte)

lemma StringValue_quotedText_ok: "q = ch_quote \<or> q = ch_apos \<Longrightarrow> StringValue (quotedText v q) = v"
  by (auto simp: StringValue_def quotedText_def Unescape_loop unescape_quoted)

text \<open>String literals and quoted names are codecs whose reader never fails.\<close>

interpretation string_literal: codec StringText "\<lambda>raw. Some (StringValue raw)" "\<lambda>_. True"
  by unfold_locales (simp add: StringText_def StringValue_quotedText_ok)

interpretation quoted_name: codec UnrestrictedNameText "\<lambda>raw. Some (StringValue raw)" "\<lambda>_. True"
  by unfold_locales (simp add: UnrestrictedNameText_def StringValue_quotedText_ok)

section \<open>Writing names: name.go\<close>

definition NameText :: "string \<Rightarrow> string" where
  "NameText name =
     (if IsIdentifier name \<and> \<not> IsKeyword name then name else ch_apos # name @ [ch_apos])"

definition QualifiedNameOf :: "string list \<Rightarrow> string" where
  "QualifiedNameOf names = join ''::'' (map NameText names)"

definition QualifiedNameText :: "string \<Rightarrow> string" where
  "QualifiedNameText fqn = (if fqn = '''' then fqn else QualifiedNameOf (split_on ''::'' fqn))"

definition MemberPathOf :: "string list \<Rightarrow> string" where
  "MemberPathOf names = join ''.'' (map NameText names)"

section \<open>Reading names: name.go\<close>

text \<open>
  The scan of \<open>readQuotedName\<close> after the opening quote: the text up to the closing quote and
  the rest after it, a backslash taking the byte behind it along.
\<close>

fun quoted_scan :: "string \<Rightarrow> (string \<times> string) option" where
  "quoted_scan [] = None"
| "quoted_scan [c] = (if c = ch_apos then Some ([], []) else None)"
| "quoted_scan (c # d # s) =
     (if c = ch_backslash then map_option (\<lambda>(b, r). (c # d # b, r)) (quoted_scan s)
      else if c = ch_apos then Some ([], d # s)
      else map_option (\<lambda>(b, r). (c # b, r)) (quoted_scan (d # s)))"

definition readQuotedName :: "string \<Rightarrow> (string \<times> string) option" where
  "readQuotedName text =
     (if text = '''' \<or> hd text \<noteq> ch_apos then None
      else case quoted_scan (tl text) of
        None \<Rightarrow> None
      | Some (name, rest) \<Rightarrow> if name \<noteq> [] then Some (name, rest) else None)"

definition readName :: "string \<Rightarrow> (string \<times> string) option" where
  "readName text =
     (if text = '''' \<or> hd text = ch_apos then readQuotedName text
      else
        let name_end = (case index_of text ''::'' of None \<Rightarrow> length text | Some i \<Rightarrow> i);
            name = take name_end text
        in if name \<noteq> '''' \<and> ch_apos \<notin> set name then Some (name, drop name_end text) else None)"

definition readBasicOrQuotedName :: "string \<Rightarrow> (string \<times> string) option" where
  "readBasicOrQuotedName text =
     (if text = '''' \<or> hd text = ch_apos then readQuotedName text
      else
        let name = takeWhile IsIdentCont text
        in if IsIdentifier name then Some (name, dropWhile IsIdentCont text) else None)"

lemma quoted_scan_text: "quoted_scan s = Some (b, r) \<Longrightarrow> s = b @ ch_apos # r"
  by (induction s arbitrary: b r rule: quoted_scan.induct) (auto split: if_splits)

lemma readQuotedName_text: "readQuotedName s = Some (n, r) \<Longrightarrow> s = ch_apos # n @ ch_apos # r \<and> n \<noteq> []"
  by (cases s) (auto simp: readQuotedName_def dest!: quoted_scan_text split: if_splits option.splits)

lemma readName_rest: "readName s = Some (n, r) \<Longrightarrow> length r < length s"
  using readQuotedName_text [of s n r]
  by (auto simp: readName_def Let_def split: if_splits option.splits)

lemma readBasicOrQuotedName_rest: "readBasicOrQuotedName s = Some (n, r) \<Longrightarrow> length r < length s"
proof -
  assume *: "readBasicOrQuotedName s = Some (n, r)"
  show ?thesis
  proof (cases "s = [] \<or> hd s = ch_apos")
    case True
    with * readQuotedName_text [of s n r] show ?thesis by (auto simp: readBasicOrQuotedName_def)
  next
    case False
    with * have n: "n = takeWhile IsIdentCont s" "r = dropWhile IsIdentCont s" "n \<noteq> []"
      by (auto simp: readBasicOrQuotedName_def Let_def IsIdentifier_def split: if_splits)
    then have "length s = length n + length r" by (metis length_append takeWhile_dropWhile_id)
    with n show ?thesis by (cases n) auto
  qed
qed

text \<open>\<open>QualifiedNameSegments\<close>: the loop over names separated by \<open>::\<close>.\<close>

function QualifiedNameSegments :: "string \<Rightarrow> string list option" where
  "QualifiedNameSegments text =
     (case readName text of
        None \<Rightarrow> None
      | Some (name, rest) \<Rightarrow>
          if rest = '''' then Some [name]
          else if \<not> has_prefix rest ''::'' then None
          else map_option (\<lambda>names. name # names) (QualifiedNameSegments (drop 2 rest)))"
  by pat_completeness auto
termination
  by (relation "measure length") (auto dest!: readName_rest)

declare QualifiedNameSegments.simps [simp del]

text \<open>\<open>MemberPathSegments\<close>: the loop over names separated by a dot.\<close>

function MemberPathSegments :: "string \<Rightarrow> string list option" where
  "MemberPathSegments text =
     (case readBasicOrQuotedName text of
        None \<Rightarrow> None
      | Some (name, rest) \<Rightarrow>
          if rest = '''' then Some [name]
          else if \<not> has_prefix rest ''.'' \<or> rest = ''.'' then None
          else map_option (\<lambda>names. name # names) (MemberPathSegments (drop 1 rest)))"
  by pat_completeness auto
termination
  by (relation "measure length") (auto dest!: readBasicOrQuotedName_rest)

declare MemberPathSegments.simps [simp del]

text \<open>\<open>strings.LastIndex\<close> with its \<open>-1\<close> as \<open>None\<close>.\<close>

definition last_index_of :: "string \<Rightarrow> string \<Rightarrow> nat option" where
  "last_index_of s p = map_option (\<lambda>i. length s - length p - i) (index_of (rev s) (rev p))"

definition MetadataPathSegments :: "string \<Rightarrow> (string list \<times> string) option" where
  "MetadataPathSegments path =
     (let fallback =
            (case last_index_of path ''::'' of
               None \<Rightarrow> None
             | Some separator \<Rightarrow>
                 if separator = 0 \<or> separator + 2 \<ge> length path then None
                 else case QualifiedNameSegments (take separator path) of
                   None \<Rightarrow> None
                 | Some segments \<Rightarrow>
                     if segments = [] then None
                     else
                       let feature = drop (separator + 2) path
                       in Some (segments,
                            (case MemberPathSegments feature of
                               Some [segment] \<Rightarrow> segment
                             | _ \<Rightarrow> feature)))
      in case QualifiedNameSegments path of
           Some segments \<Rightarrow>
             if length segments \<ge> 2 then Some (butlast segments, last segments) else fallback
         | None \<Rightarrow> fallback)"

text \<open>
  The inner loop of \<open>ReferenceEndNames\<close> and \<open>ReferenceQualifiedNames\<close>: the names of one
  reference, whether a dot joins any of them, and the text after it.
\<close>

function readReference :: "string \<Rightarrow> (string list \<times> bool \<times> string) option" where
  "readReference text =
     (case readBasicOrQuotedName text of
        None \<Rightarrow> None
      | Some (name, after) \<Rightarrow>
          if has_prefix after ''::'' then
            map_option (\<lambda>(names, chain, rest). (name # names, chain, rest)) (readReference (drop 2 after))
          else if has_prefix after ''.'' then
            map_option (\<lambda>(names, chain, rest). (name # names, True, rest)) (readReference (drop 1 after))
          else Some ([name], False, after))"
  by pat_completeness auto
termination
  by (relation "measure length") (auto dest!: readBasicOrQuotedName_rest)

declare readReference.simps [simp del]

lemma readReference_rest: "readReference s = Some (ns, ch, r) \<Longrightarrow> length r < length s \<and> ns \<noteq> []"
proof (induction s arbitrary: ns ch r rule: readReference.induct)
  case (1 s)
  from "1.prems" obtain n a where a: "readBasicOrQuotedName s = Some (n, a)"
    by (auto simp: readReference.simps [of s] split: option.splits)
  note len = readBasicOrQuotedName_rest [OF a]
  consider "has_prefix a ''::''" | "\<not> has_prefix a ''::''" "has_prefix a ''.''"
    | "\<not> has_prefix a ''::''" "\<not> has_prefix a ''.''" by blast
  then show ?case
  proof cases
    case 1
    with "1.prems" a "1.IH"(1) [OF a refl 1] len show ?thesis
      by (fastforce simp: readReference.simps [of s])
  next
    case 2
    with "1.prems" a "1.IH"(2) [OF a refl 2] len show ?thesis
      by (fastforce simp: readReference.simps [of s])
  next
    case 3
    with "1.prems" a len show ?thesis by (auto simp: readReference.simps [of s])
  qed
qed

definition referenceStart :: "string \<Rightarrow> string" where
  "referenceStart rest = trim_prefix (trim_prefix rest ''~'') ''$::''"

lemma referenceStart_length: "length (referenceStart s) \<le> length s"
  by (auto simp: referenceStart_def trim_prefix_def)

lemma readReference_start_rest:
  "readReference (referenceStart s) = Some (ns, ch, r) \<Longrightarrow> length r < length s"
  using readReference_rest referenceStart_length [of s] by fastforce

text \<open>
  The outer loop of \<open>ReferenceEndNames\<close>: the end name of each reference in notation, \<open>None\<close>
  where the text does not read as references, upon which the code returns the text as it is.
\<close>

function referenceEnds :: "string \<Rightarrow> string list option" where
  "referenceEnds rest =
     (case readReference (referenceStart rest) of
        None \<Rightarrow> None
      | Some (names, chain, after) \<Rightarrow>
          let last_name = (if has_prefix rest ''~'' then ''~'' else '''') @ NameText (last names) in
          if after = '''' then Some [last_name]
          else if \<not> has_prefix after '', '' then None
          else map_option (\<lambda>ends. last_name # ends) (referenceEnds (drop 2 after)))"
  by pat_completeness auto
termination
  by (relation "measure length") (auto dest!: readReference_start_rest)

declare referenceEnds.simps [simp del]

definition ReferenceEndNames :: "string \<Rightarrow> string" where
  "ReferenceEndNames text =
     (case referenceEnds text of None \<Rightarrow> text | Some ends \<Rightarrow> join '', '' ends)"

text \<open>\<open>ReferenceQualifiedNames\<close>: a chain contributes no names, malformed text none at all.\<close>

function referenceNames :: "string \<Rightarrow> string list list option" where
  "referenceNames rest =
     (case readReference (referenceStart rest) of
        None \<Rightarrow> None
      | Some (names, chain, after) \<Rightarrow>
          let here = (if \<not> chain then [names] else []) in
          if after = '''' then Some here
          else if \<not> has_prefix after '', '' then None
          else map_option (\<lambda>refs. here @ refs) (referenceNames (drop 2 after)))"
  by pat_completeness auto
termination
  by (relation "measure length") (auto dest!: readReference_start_rest)

declare referenceNames.simps [simp del]

definition ReferenceQualifiedNames :: "string \<Rightarrow> string list list" where
  "ReferenceQualifiedNames text = (case referenceNames text of None \<Rightarrow> [] | Some refs \<Rightarrow> refs)"

section \<open>Names read back as they were written\<close>

text \<open>
  Raw name text: what the notation can carry between quotes, not empty, every backslash
  followed by a byte it escapes and every apostrophe behind a backslash.
\<close>

fun raw_quotable :: "string \<Rightarrow> bool" where
  "raw_quotable [] = True"
| "raw_quotable [c] = (c \<noteq> ch_apos \<and> c \<noteq> ch_backslash)"
| "raw_quotable (c # d # s) =
     (if c = ch_backslash then raw_quotable s else c \<noteq> ch_apos \<and> raw_quotable (d # s))"

definition raw_name :: "string \<Rightarrow> bool" where
  "raw_name n = (n \<noteq> [] \<and> raw_quotable n)"

lemma quoted_scan_raw: "raw_quotable n \<Longrightarrow> quoted_scan (n @ ch_apos # r) = Some (n, r)"
proof (induction n rule: raw_quotable.induct)
  case 1
  show ?case by (cases r) auto
next
  case (2 c)
  then show ?case by (cases r) auto
qed (auto split: if_splits)

lemma readQuotedName_raw: "raw_name n \<Longrightarrow> readQuotedName (ch_apos # n @ ch_apos # r) = Some (n, r)"
  by (simp add: readQuotedName_def raw_name_def quoted_scan_raw)

lemma raw_quotable_plain: "ch_apos \<notin> set n \<Longrightarrow> ch_backslash \<notin> set n \<Longrightarrow> raw_quotable n"
  by (induction n rule: raw_quotable.induct) auto

lemma raw_quotable_quoted_byte: "raw_quotable s \<Longrightarrow> raw_quotable (quoted_byte ch_apos c @ s)"
  by (cases s) (auto simp: quoted_byte_def)

text \<open>The quoted form of any text but the empty one is a raw name.\<close>

lemma raw_name_escaped: "v \<noteq> [] \<Longrightarrow> raw_name (concat (map (quoted_byte ch_apos) v))"
proof -
  have "raw_quotable (concat (map (quoted_byte ch_apos) v))"
    by (induction v) (auto intro: raw_quotable_quoted_byte)
  moreover have "v \<noteq> [] \<Longrightarrow> concat (map (quoted_byte ch_apos) v) \<noteq> []"
    by (cases v) (auto simp: quoted_byte_def)
  ultimately show "v \<noteq> [] \<Longrightarrow> ?thesis" by (simp add: raw_name_def)
qed

lemma IsIdentifier_not_quote: "IsIdentifier n \<Longrightarrow> n \<noteq> [] \<and> hd n \<noteq> ch_apos"
  using not_IsIdentCont(1) IsIdentStart_Cont [of ch_apos] by (cases n) (auto simp: IsIdentifier_def)

lemma index_of_double_colon:
  assumes "CHR '':'' \<notin> set n"
  shows "index_of (n @ r) ''::'' = map_option (\<lambda>i. length n + i) (index_of r ''::'')"
  using assms by (induction n) (cases "index_of r ''::''"; auto)+

text \<open>Both readers take back a written name when what follows cannot belong to it.\<close>

lemma readName_NameText:
  assumes "raw_name n" "r = [] \<or> has_prefix r ''::''"
  shows "readName (NameText n @ r) = Some (n, r)"
proof (cases "IsIdentifier n \<and> \<not> IsKeyword n")
  case False
  then show ?thesis using readQuotedName_raw [OF assms(1)] by (auto simp: NameText_def readName_def)
next
  case True
  then have n: "n \<noteq> []" "hd n \<noteq> ch_apos" "CHR '':'' \<notin> set n" "ch_apos \<notin> set n"
    using IsIdentifier_not_quote [of n] IsIdentifier_excludes [of n] by auto
  then have "index_of (n @ r) ''::'' = (if r = [] then None else Some (length n))"
    using assms(2) index_of_double_colon [of n r] by (cases r) auto
  with n True show ?thesis by (auto simp: NameText_def readName_def)
qed

lemma readBasicOrQuotedName_NameText:
  assumes "raw_name n" "r = [] \<or> \<not> IsIdentCont (hd r)"
  shows "readBasicOrQuotedName (NameText n @ r) = Some (n, r)"
proof (cases "IsIdentifier n \<and> \<not> IsKeyword n")
  case False
  then show ?thesis
    using readQuotedName_raw [OF assms(1)] by (auto simp: NameText_def readBasicOrQuotedName_def)
next
  case True
  then have "takeWhile IsIdentCont (n @ r) = n" "dropWhile IsIdentCont (n @ r) = r"
    using assms(2) IsIdentifier_all takeWhile_append_stop dropWhile_append_stop by metis+
  with True IsIdentifier_not_quote [of n] show ?thesis
    by (auto simp: NameText_def readBasicOrQuotedName_def)
qed

lemma QualifiedNameSegments_QualifiedNameOf:
  "names \<noteq> [] \<Longrightarrow> list_all raw_name names \<Longrightarrow> QualifiedNameSegments (QualifiedNameOf names) = Some names"
proof (induction names rule: induct_list012)
  case (2 n)
  then show ?case
    using readName_NameText [of n "[]"] by (simp add: QualifiedNameOf_def QualifiedNameSegments.simps [of "NameText n"])
next
  case (3 n m ns)
  let ?r = "QualifiedNameOf (m # ns)"
  have eq: "QualifiedNameOf (n # m # ns) = NameText n @ ''::'' @ ?r" by (simp add: QualifiedNameOf_def)
  have "readName (QualifiedNameOf (n # m # ns)) = Some (n, ''::'' @ ?r)"
    unfolding eq using "3.prems" by (intro readName_NameText) auto
  then show ?case using 3 by (simp add: QualifiedNameSegments.simps [of "QualifiedNameOf (n # m # ns)"])
qed simp

lemma NameText_not_Nil: "NameText n \<noteq> []"
  by (auto simp: NameText_def IsIdentifier_def)

lemma MemberPathOf_not_Nil: "names \<noteq> [] \<Longrightarrow> MemberPathOf names \<noteq> []"
  by (cases names rule: remdups_adj.cases) (auto simp: MemberPathOf_def NameText_not_Nil)

lemma MemberPathSegments_MemberPathOf:
  "names \<noteq> [] \<Longrightarrow> list_all raw_name names \<Longrightarrow> MemberPathSegments (MemberPathOf names) = Some names"
proof (induction names rule: induct_list012)
  case (2 n)
  then show ?case
    using readBasicOrQuotedName_NameText [of n "[]"]
    by (simp add: MemberPathOf_def MemberPathSegments.simps [of "NameText n"])
next
  case (3 n m ns)
  let ?r = "MemberPathOf (m # ns)"
  have eq: "MemberPathOf (n # m # ns) = NameText n @ ''.'' @ ?r" by (simp add: MemberPathOf_def)
  have "readBasicOrQuotedName (MemberPathOf (n # m # ns)) = Some (n, ''.'' @ ?r)"
    unfolding eq using "3.prems" by (intro readBasicOrQuotedName_NameText) auto
  then show ?case using 3 MemberPathOf_not_Nil [of "m # ns"]
    by (simp add: MemberPathSegments.simps [of "MemberPathOf (n # m # ns)"])
qed simp

interpretation qualified_name: codec QualifiedNameOf QualifiedNameSegments "\<lambda>ns. ns \<noteq> [] \<and> list_all raw_name ns"
  by unfold_locales (simp add: QualifiedNameSegments_QualifiedNameOf)

interpretation member_path: codec MemberPathOf MemberPathSegments "\<lambda>ns. ns \<noteq> [] \<and> list_all raw_name ns"
  by unfold_locales (simp add: MemberPathSegments_MemberPathOf)

section \<open>What names and literals promise\<close>

text \<open>
  C33: qualified names and member paths of raw names read back segment by segment, whatever the
  names hold (separators, blanks, reserved words, escapes), and no two lists share a text; a string literal and
  a quoted name hold any value: the text written for it, in either quote, reads back as the value.
\<close>

theorem names_roundtrip:
  assumes "names \<noteq> []" and "list_all raw_name names" and "others \<noteq> []" and "list_all raw_name others"
  shows "QualifiedNameSegments (QualifiedNameOf names) = Some names \<and>
    MemberPathSegments (MemberPathOf names) = Some names \<and>
    (QualifiedNameOf names = QualifiedNameOf others \<longleftrightarrow> names = others) \<and>
    StringValue (StringText v) = v \<and> StringValue (UnrestrictedNameText v) = v"
  using qualified_name.dec_enc [of names] member_path.dec_enc [of names]
    qualified_name.enc_inj [of names others] assms string_literal.dec_enc [of v] quoted_name.dec_enc [of v] by auto

theorem names_roundtrip_witness:
  "QualifiedNameSegments (QualifiedNameOf [''a::b'', ''part'']) = Some [''a::b'', ''part''] \<and>
   QualifiedNameOf [''a::b'', ''part''] \<noteq> QualifiedNameOf [''a'', ''b'', ''part'']"
proof -
  have "list_all raw_name [''a::b'', ''part'']" "list_all raw_name [''a'', ''b'', ''part'']" by code_simp+
  then show ?thesis
    using names_roundtrip [of "[''a::b'', ''part'']" "[''a'', ''b'', ''part'']" "[]"] by simp
qed

text \<open>The lists are in alphabetical order: one pass tells whether a list merges two others.\<close>

fun merges :: "string list \<Rightarrow> string list \<Rightarrow> string list \<Rightarrow> bool" where
  "merges [] as bs = (as = [] \<and> bs = [])"
| "merges (k # ks) as bs =
     (let in_a = as \<noteq> [] \<and> hd as = k; in_b = bs \<noteq> [] \<and> hd bs = k
      in (in_a \<or> in_b) \<and> merges ks (if in_a then tl as else as) (if in_b then tl bs else bs))"

lemma merges_set: "merges ks as bs \<Longrightarrow> set ks = set as \<union> set bs"
proof (induction ks as bs rule: merges.induct)
  case (2 k ks as bs)
  let ?a = "as \<noteq> [] \<and> hd as = k" and ?b = "bs \<noteq> [] \<and> hd bs = k"
  have "set ks = set (if ?a then tl as else as) \<union> set (if ?b then tl bs else bs)" "?a \<or> ?b"
    using 2 by (auto simp: Let_def)
  then show ?case by (cases as; cases bs) (auto split: if_splits)
qed simp

lemma keyword_lists_merge:
  "merges (take 162 keywordList @ ''var'' # drop 162 keywordList) keywordListSysML keywordListKerML"
  by code_simp

text \<open>
  The reserved words: every word of the list for no language in particular is a word of
  SysML or of KerML, and the only word those have beside it is KerML's \<open>var\<close>.
\<close>

theorem keywords_of_languages:
  "IsKeywordIn w KindSysML \<or> IsKeywordIn w KindKerML \<longleftrightarrow> IsKeyword w \<or> w = ''var''"
proof -
  have "set (take 162 keywordList @ ''var'' # drop 162 keywordList) = insert ''var'' (set keywordList)"
    by (metis Un_insert_right append_take_drop_id list.simps(15) set_append)
  with merges_set [OF keyword_lists_merge] show ?thesis
    by (auto simp: IsKeywordIn_def keywordSet_def IsKeyword_def)
qed

end
