(* ===== verification/Source_Comments.thy ===== *)
theory Source_Comments
  imports Prelude
begin

text \<open>
  Comments of the notation: \<open>internal/syntax/source/comment.go\<close>. \<open>CommentBodyOffsets\<close> reads
  the body of a regular comment together with the raw index of every body byte,
  \<open>CommentText\<close> writes a body back as a comment, \<open>CommentProse\<close> reads a comment for display.
  The code's slices of \<open>mappedByte\<close> are lists of that record.
\<close>

section \<open>Reading a body\<close>

record mappedByte =
  mb_b :: char
  mb_at :: nat

definition commentSpace :: string where
  "commentSpace = [CHR '' '', ch_tab, ch_ff]"

text \<open>The bytes of \<open>raw[start:end]\<close>, each with its index in raw.\<close>

definition mapped_slice :: "string \<Rightarrow> nat \<Rightarrow> nat \<Rightarrow> mappedByte list" where
  "mapped_slice raw start stop = map (\<lambda>i. \<lparr>mb_b = raw ! i, mb_at = i\<rparr>) [start..<stop]"

text \<open>The loop cutting the bytes into lines at \<open>\r\n\<close>, \<open>\r\<close> and \<open>\n\<close>, \<open>line\<close> the line so far.\<close>

fun split_mapped :: "mappedByte list \<Rightarrow> mappedByte list \<Rightarrow> mappedByte list list" where
  "split_mapped line [] = [line]"
| "split_mapped line [m] =
     (if mb_b m = ch_cr \<or> mb_b m = ch_nl then [line, []] else [line @ [m]])"
| "split_mapped line (m # m2 # ms) =
     (if mb_b m = ch_cr then
        (if mb_b m2 = ch_nl then line # split_mapped [] ms else line # split_mapped [] (m2 # ms))
      else if mb_b m = ch_nl then line # split_mapped [] (m2 # ms)
      else split_mapped (line @ [m]) (m2 # ms))"

definition trimLeftMapped :: "mappedByte list \<Rightarrow> string \<Rightarrow> mappedByte list" where
  "trimLeftMapped line cutset = dropWhile (\<lambda>m. mb_b m \<in> set cutset) line"

text \<open>What a later line loses: its white space, then a \<open>*\<close>, then one space.\<close>

definition strip_margin :: "mappedByte list \<Rightarrow> mappedByte list" where
  "strip_margin line =
     (case trimLeftMapped line commentSpace of
        [] \<Rightarrow> []
      | m # ms \<Rightarrow>
          if mb_b m = CHR ''*'' then
            (case ms of [] \<Rightarrow> [] | m2 # ms2 \<Rightarrow> if mb_b m2 = CHR '' '' then ms2 else ms)
          else m # ms)"

definition body_lines :: "mappedByte list list \<Rightarrow> mappedByte list list" where
  "body_lines lines =
     (let stripped = trimLeftMapped (hd lines) commentSpace # map strip_margin (tl lines)
      in if hd stripped = [] \<and> length stripped > 1 then tl stripped else stripped)"

text \<open>\<open>lineBreakOffset\<close>: the first line break of raw from the byte after the last offset on.\<close>

function find_break :: "string \<Rightarrow> nat \<Rightarrow> nat \<Rightarrow> nat option" where
  "find_break raw i limit =
     (if i < limit then
        if raw ! i = ch_nl \<or> raw ! i = ch_cr then Some i else find_break raw (Suc i) limit
      else None)"
  by pat_completeness auto
termination
  by (relation "measure (\<lambda>(raw, i, limit). limit - i)") auto

declare find_break.simps [simp del]

definition lineBreakOffset :: "string \<Rightarrow> nat \<Rightarrow> nat \<Rightarrow> nat list \<Rightarrow> mappedByte list \<Rightarrow> nat" where
  "lineBreakOffset raw start stop offsets next =
     (let begin_at = (if length offsets > 0 then last offsets + 1 else start);
          limit = (if length next > 0 then mb_at (hd next) else stop)
      in case find_break raw begin_at limit of Some i \<Rightarrow> i | None \<Rightarrow> begin_at)"

text \<open>The loop joining the lines, a newline before every line but the first.\<close>

fun join_lines :: "string \<Rightarrow> nat \<Rightarrow> nat \<Rightarrow> bool \<Rightarrow> mappedByte list list \<Rightarrow> string \<times> nat list \<Rightarrow> string \<times> nat list" where
  "join_lines raw start stop first [] acc = acc"
| "join_lines raw start stop first (line # lines) (b, offsets) =
     (let (b, offsets) =
            (if first then (b, offsets)
             else (b @ [ch_nl], offsets @ [lineBreakOffset raw start stop offsets line]))
      in join_lines raw start stop False lines (b @ map mb_b line, offsets @ map mb_at line))"

definition body_range :: "string \<Rightarrow> nat \<times> nat" where
  "body_range raw =
     (let start = (if has_prefix raw ''/*'' then 2 else 0);
          stop = (if length raw - start \<ge> 2 \<and> has_suffix raw ''*/'' then length raw - 2 else length raw)
      in (start, stop))"

definition CommentBodyOffsets :: "string \<Rightarrow> string \<times> nat list" where
  "CommentBodyOffsets raw =
     (let (start, stop) = body_range raw;
          lines = body_lines (split_mapped [] (mapped_slice raw start stop));
          (b, offsets) = join_lines raw start stop True lines ([], [])
      in (b, offsets @ [stop]))"

definition CommentBody :: "string \<Rightarrow> string" where
  "CommentBody raw = fst (CommentBodyOffsets raw)"

section \<open>Writing a body\<close>

fun comment_lines :: "string \<Rightarrow> string list \<Rightarrow> string" where
  "comment_lines indent [] = []"
| "comment_lines indent [line] =
     (if line = '''' then ch_nl # indent @ '' '' else ch_nl # indent @ '' * '' @ line)"
| "comment_lines indent (line # l2 # ls) =
     (if line = '''' then ch_nl # indent @ '' *'' else ch_nl # indent @ '' * '' @ line)
      @ comment_lines indent (l2 # ls)"

definition CommentText :: "string \<Rightarrow> string \<Rightarrow> string option" where
  "CommentText body indent =
     (if contains_sub body ''*/'' \<or> contains_sub body [ch_cr] then None
      else if body = '''' then Some ''/* */''
      else
        let lines = split_on [ch_nl] body;
            line0 = hd lines
        in Some (''/*'' @
             (if line0 \<noteq> '''' \<and> trim_left line0 commentSpace = line0
              then '' '' @ line0 @ comment_lines indent (tl lines)
              else comment_lines indent lines) @ ''*/''))"

section \<open>The bytes of a body\<close>

text \<open>The reader on plain bytes: what is left of the mapped functions without the indices.\<close>

fun split_bytes :: "string \<Rightarrow> string \<Rightarrow> string list" where
  "split_bytes line [] = [line]"
| "split_bytes line [c] = (if c = ch_cr \<or> c = ch_nl then [line, []] else [line @ [c]])"
| "split_bytes line (c # c2 # cs) =
     (if c = ch_cr then
        (if c2 = ch_nl then line # split_bytes [] cs else line # split_bytes [] (c2 # cs))
      else if c = ch_nl then line # split_bytes [] (c2 # cs)
      else split_bytes (line @ [c]) (c2 # cs))"

definition strip_bytes :: "string \<Rightarrow> string" where
  "strip_bytes line =
     (case trim_left line commentSpace of
        [] \<Rightarrow> []
      | c # cs \<Rightarrow>
          if c = CHR ''*'' then (case cs of [] \<Rightarrow> [] | c2 # cs2 \<Rightarrow> if c2 = CHR '' '' then cs2 else cs)
          else c # cs)"

lemma map_trimLeftMapped: "map mb_b (trimLeftMapped l cs) = trim_left (map mb_b l) cs"
  by (simp add: trimLeftMapped_def trim_left_def dropWhile_map comp_def)

lemma map_strip_margin: "map mb_b (strip_margin l) = strip_bytes (map mb_b l)"
  unfolding strip_margin_def strip_bytes_def map_trimLeftMapped [symmetric]
  by (auto split: list.split)

lemma map_split_mapped: "map (map mb_b) (split_mapped l ms) = split_bytes (map mb_b l) (map mb_b ms)"
  by (induction l ms rule: split_mapped.induct) auto

lemma map_mapped_slice: "stop \<le> length raw \<Longrightarrow> map mb_b (mapped_slice raw start stop) = take (stop - start) (drop start raw)"
  by (auto simp: mapped_slice_def comp_def intro!: nth_equalityI)

lemma split_mapped_not_Nil: "split_mapped l ms \<noteq> []"
  by (induction l ms rule: split_mapped.induct) auto

lemma split_bytes_no_cr: "ch_cr \<notin> set cs \<Longrightarrow> ch_nl \<notin> set l \<Longrightarrow> split_bytes l cs = split_on [ch_nl] (l @ cs)"
proof (induction l cs rule: split_bytes.induct)
  case (2 l c)
  then show ?case using split_on_single_Cons [of ch_nl l "[]"]
    by (auto simp: split_on_single_absent)
next
  case (3 l c c2 cs)
  then show ?case using split_on_single_Cons [of ch_nl l "c2 # cs"] by auto
qed (simp add: split_on_single_absent)

lemma fst_join_lines:
  "fst (join_lines raw start stop first lines (b, offs)) =
     b @ (if lines = [] then [] else (if first then [] else [ch_nl]) @ join [ch_nl] (map (map mb_b) lines))"
proof (induction lines arbitrary: first b offs)
  case (Cons l ls)
  show ?case by (cases "ls = []") (simp_all add: Let_def Cons.IH join_Cons)
qed simp

lemma map_body_lines:
  assumes "lines \<noteq> []"
  shows "map (map mb_b) (body_lines lines) =
     (let stripped = trim_left (map mb_b (hd lines)) commentSpace # map (strip_bytes \<circ> map mb_b) (tl lines)
      in if hd stripped = [] \<and> length stripped > 1 then tl stripped else stripped)"
  using assms map_trimLeftMapped [of "hd lines" commentSpace]
  by (auto simp: body_lines_def Let_def map_strip_margin)

lemma CommentBody_bytes:
  assumes "stop \<le> length raw" "body_range raw = (start, stop)" "split_bytes [] (take (stop - start) (drop start raw)) = l0 # ls"
  shows "CommentBody raw =
     join [ch_nl]
       (if trim_left l0 commentSpace = [] \<and> ls \<noteq> [] then map strip_bytes ls
        else trim_left l0 commentSpace # map strip_bytes ls)"
proof -
  let ?lines = "split_mapped [] (mapped_slice raw start stop)"
  have m: "map (map mb_b) ?lines = l0 # ls"
    using assms by (simp add: map_split_mapped map_mapped_slice)
  then obtain m0 ms where lines: "?lines = m0 # ms" "map mb_b m0 = l0" "map (map mb_b) ms = ls" by auto
  then have "map (map mb_b) (body_lines ?lines) =
      (if trim_left l0 commentSpace = [] \<and> ls \<noteq> [] then map strip_bytes ls
        else trim_left l0 commentSpace # map strip_bytes ls)"
    using map_body_lines [of ?lines] by (auto simp: Let_def)
  moreover have "CommentBody raw = join [ch_nl] (map (map mb_b) (body_lines ?lines))"
    using fst_join_lines [of raw start stop True "body_lines ?lines" "[]" "[]"]
    by (auto simp: CommentBody_def CommentBodyOffsets_def assms(2) split: prod.splits)
  ultimately show ?thesis by simp
qed

section \<open>A written body reads back\<close>

definition margin_line :: "string \<Rightarrow> bool \<Rightarrow> string \<Rightarrow> string" where
  "margin_line indent is_last line =
     (if line = '''' then indent @ (if is_last then '' '' else '' *'') else indent @ '' * '' @ line)"

fun margin_lines :: "string \<Rightarrow> string list \<Rightarrow> string list" where
  "margin_lines indent [] = []"
| "margin_lines indent (l # ls) = margin_line indent (ls = []) l # margin_lines indent ls"

lemma split_comment_lines:
  "ch_nl \<notin> set a \<Longrightarrow> ch_nl \<notin> set indent \<Longrightarrow> \<forall>l \<in> set ls. ch_nl \<notin> set l \<Longrightarrow>
   split_on [ch_nl] (a @ comment_lines indent ls) = a # margin_lines indent ls"
proof (induction indent ls arbitrary: a rule: comment_lines.induct)
  case (2 indent l)
  then show ?case using split_on_single_Cons [of ch_nl a "margin_line indent True l"]
    by (auto simp: margin_line_def split_on_single_absent)
next
  case (3 indent l l2 ls)
  have "a @ comment_lines indent (l # l2 # ls) =
      a @ ch_nl # margin_line indent False l @ comment_lines indent (l2 # ls)"
    by (simp add: margin_line_def)
  moreover have "ch_nl \<notin> set (margin_line indent False l)" using 3 by (auto simp: margin_line_def)
  ultimately show ?case
    using 3 split_on_single_Cons [of ch_nl a "margin_line indent False l @ comment_lines indent (l2 # ls)"]
    by simp
qed (simp add: split_on_single_absent)

lemma strip_margin_line: "set indent \<subseteq> set commentSpace \<Longrightarrow> strip_bytes (margin_line indent b l) = l"
proof -
  assume "set indent \<subseteq> set commentSpace"
  then have "dropWhile (\<lambda>c. c \<in> set commentSpace) (indent @ r) = dropWhile (\<lambda>c. c \<in> set commentSpace) r" for r
    by (induction indent) auto
  then show ?thesis
    by (auto simp: strip_bytes_def margin_line_def trim_left_def commentSpace_def)
qed

lemma map_strip_margin_lines: "set indent \<subseteq> set commentSpace \<Longrightarrow> map strip_bytes (margin_lines indent ls) = ls"
  by (induction ls) (auto simp: strip_margin_line)

lemma margin_lines_Nil_iff [simp]: "margin_lines indent ls = [] \<longleftrightarrow> ls = []"
  by (cases ls) auto

lemma no_cr_comment_lines:
  "ch_cr \<notin> set indent \<Longrightarrow> \<forall>l \<in> set ls. ch_cr \<notin> set l \<Longrightarrow> ch_cr \<notin> set (comment_lines indent ls)"
  by (induction indent ls rule: comment_lines.induct) auto

lemma split_on_subset: "x \<in> set (split_on [c] s) \<Longrightarrow> set x \<subseteq> set s"
proof -
  have sub: "x \<in> set xs \<Longrightarrow> set x \<subseteq> set (join [c] xs)" for xs
    by (induction "[c]" xs rule: join.induct) auto
  assume "x \<in> set (split_on [c] s)"
  from sub [OF this] show ?thesis by (simp add: join_split_on)
qed

lemma contains_single: "contains_sub s [c] \<longleftrightarrow> c \<in> set s"
  by (simp add: contains_sub_def index_of_single)

lemma body_range_comment: "body_range (''/*'' @ inner @ ''*/'') = (2, 2 + length inner)"
proof -
  have "has_prefix (''/*'' @ inner @ ''*/'') ''/*''" by simp
  moreover have "has_suffix (''/*'' @ inner @ ''*/'') ''*/''"
    using has_suffix_append [of "''/*'' @ inner" "''*/''"] by simp
  ultimately show ?thesis unfolding body_range_def by (simp add: Let_def)
qed

lemma CommentBody_lines:
  assumes "ch_cr \<notin> set inner" "split_on [ch_nl] inner = l0 # ls"
  shows "CommentBody (''/*'' @ inner @ ''*/'') =
     join [ch_nl]
       (if trim_left l0 commentSpace = [] \<and> ls \<noteq> [] then map strip_bytes ls
        else trim_left l0 commentSpace # map strip_bytes ls)"
  by (rule CommentBody_bytes [OF _ body_range_comment]) (use assms split_bytes_no_cr [of inner "[]"] in auto)

lemma CommentBody_CommentText:
  assumes t: "CommentText body indent = Some t" and ind: "set indent \<subseteq> set commentSpace"
  shows "CommentBody t = body"
proof (cases "body = []")
  case True
  with t have "t = ''/*'' @ '' '' @ ''*/''" by (auto simp: CommentText_def split: if_splits)
  then show ?thesis using CommentBody_lines [of "'' ''" "'' ''" "[]"] True
    by (simp add: split_on_single_absent trim_left_def commentSpace_def)
next
  case False
  define lines where "lines = split_on [ch_nl] body"
  obtain l0 ls where lines_eq: "lines = l0 # ls"
    using split_on_not_Nil [of "[ch_nl]" body] by (cases lines) (auto simp: lines_def)
  have body: "join [ch_nl] lines = body" by (simp add: lines_def join_split_on)
  have cr: "ch_cr \<notin> set body" using t by (auto simp: CommentText_def contains_single split: if_splits)
  have pieces: "\<forall>l \<in> set lines. ch_nl \<notin> set l \<and> ch_cr \<notin> set l"
    using split_on_single_pieces [of _ ch_nl body] split_on_subset [of _ ch_nl body] cr
    by (auto simp: lines_def)
  have indent: "ch_nl \<notin> set indent" "ch_cr \<notin> set indent" using ind by (auto simp: commentSpace_def)
  show ?thesis
  proof (cases "l0 \<noteq> [] \<and> trim_left l0 commentSpace = l0")
    case inline: True
    let ?inner = "('' '' @ l0) @ comment_lines indent ls"
    have "t = ''/*'' @ ?inner @ ''*/''"
      using t False inline lines_eq by (auto simp: CommentText_def lines_def [symmetric] split: if_splits)
    moreover have "split_on [ch_nl] ?inner = ('' '' @ l0) # margin_lines indent ls"
      using pieces indent lines_eq by (intro split_comment_lines) auto
    moreover have "ch_cr \<notin> set ?inner"
      using pieces indent lines_eq no_cr_comment_lines [of indent ls] by auto
    moreover have "trim_left ('' '' @ l0) commentSpace = l0"
      using inline by (simp add: trim_left_def commentSpace_def)
    ultimately show ?thesis
      using CommentBody_lines [of ?inner] inline map_strip_margin_lines [OF ind, of ls] body lines_eq by simp
  next
    case below: False
    let ?inner = "[] @ comment_lines indent lines"
    have "t = ''/*'' @ ?inner @ ''*/''"
      using t False below lines_eq by (auto simp: CommentText_def lines_def [symmetric] split: if_splits)
    moreover have "split_on [ch_nl] ?inner = [] # margin_lines indent lines"
      using pieces indent by (intro split_comment_lines) auto
    moreover have "ch_cr \<notin> set ?inner" using pieces indent no_cr_comment_lines [of indent lines] by auto
    ultimately show ?thesis
      using CommentBody_lines [of ?inner] map_strip_margin_lines [OF ind, of lines] body lines_eq
      by (simp add: trim_left_def)
  qed
qed

text \<open>The bodies a comment carries are the ones written; they form a codec under each indent.\<close>

interpretation comment: codec "\<lambda>body. the (CommentText body indent)" "\<lambda>raw. Some (CommentBody raw)"
    "\<lambda>body. CommentText body indent \<noteq> None \<and> set indent \<subseteq> set commentSpace"
  for indent
  by unfold_locales (auto simp: CommentBody_CommentText)

section \<open>Where a body byte came from\<close>

text \<open>
  A line of mapped bytes lies in a range when its indices ascend inside it and every byte is
  the raw byte of its index; consecutive lines are separated by a line break of the raw text.
\<close>

definition line_in :: "string \<Rightarrow> nat \<Rightarrow> nat \<Rightarrow> mappedByte list \<Rightarrow> bool" where
  "line_in raw lo hi l =
     (sorted_wrt (<) (map mb_at l) \<and> (\<forall>m \<in> set l. lo \<le> mb_at m \<and> mb_at m < hi \<and> mb_b m = raw ! mb_at m))"

definition is_break :: "char \<Rightarrow> bool" where
  "is_break c = (c = ch_nl \<or> c = ch_cr)"

fun lines_in :: "string \<Rightarrow> nat \<Rightarrow> nat \<Rightarrow> mappedByte list list \<Rightarrow> bool" where
  "lines_in raw stop lo [] = True"
| "lines_in raw stop lo [l] = line_in raw lo stop l"
| "lines_in raw stop lo (l # l2 # ls) =
     (\<exists>t. lo \<le> t \<and> t < stop \<and> is_break (raw ! t) \<and> line_in raw lo t l \<and> lines_in raw stop (Suc t) (l2 # ls))"

lemma line_in_mono: "line_in raw lo hi l \<Longrightarrow> lo' \<le> lo \<Longrightarrow> hi \<le> hi' \<Longrightarrow> line_in raw lo' hi' l"
  by (fastforce simp: line_in_def)

lemma lines_in_mono: "lines_in raw stop lo ls \<Longrightarrow> lo' \<le> lo \<Longrightarrow> lines_in raw stop lo' ls"
proof (induction ls rule: remdups_adj.induct)
  case (3 l l2 ls)
  then obtain t where "lo \<le> t" "t < stop" "is_break (raw ! t)" "line_in raw lo t l" "lines_in raw stop (Suc t) (l2 # ls)"
    by auto
  with 3 show ?case by (auto intro!: exI [of _ t] line_in_mono [of raw lo t l])
qed (auto intro: line_in_mono)

lemma line_in_Nil [simp]: "line_in raw lo hi []"
  by (simp add: line_in_def)

lemma line_in_tl: "line_in raw lo hi (m # l) \<Longrightarrow> line_in raw lo hi l"
  by (simp add: line_in_def)

lemma line_in_trim: "line_in raw lo hi l \<Longrightarrow> line_in raw lo hi (trimLeftMapped l cs)"
  unfolding trimLeftMapped_def by (induction l) (auto dest: line_in_tl)

lemma line_in_strip:
  assumes "line_in raw lo hi l"
  shows "line_in raw lo hi (strip_margin l)"
proof (cases "trimLeftMapped l commentSpace")
  case (Cons m ms)
  then have "line_in raw lo hi (m # ms)" using line_in_trim [OF assms, of commentSpace] by simp
  from line_in_tl [OF this] this show ?thesis
    using Cons by (cases ms) (auto simp: strip_margin_def dest: line_in_tl)
qed (simp add: strip_margin_def)

lemma lines_in_strip: "lines_in raw stop lo ls \<Longrightarrow> lines_in raw stop lo (map strip_margin ls)"
proof (induction ls arbitrary: lo rule: remdups_adj.induct)
  case (3 l l2 ls)
  then show ?case by (fastforce intro: line_in_strip)
qed (auto intro: line_in_strip)

lemma lines_in_body: "lines_in raw stop lo ls \<Longrightarrow> ls \<noteq> [] \<Longrightarrow> lines_in raw stop lo (body_lines ls)"
proof -
  assume *: "lines_in raw stop lo ls" "ls \<noteq> []"
  then obtain l ls' where ls: "ls = l # ls'" by (cases ls) auto
  show ?thesis
  proof (cases ls')
    case Nil
    with * ls show ?thesis by (auto simp: body_lines_def Let_def line_in_trim)
  next
    case (Cons l2 ls2)
    with * ls obtain t where t: "lo \<le> t" "t < stop" "is_break (raw ! t)" "line_in raw lo t l" "lines_in raw stop (Suc t) ls'"
      by auto
    from lines_in_strip [OF t(5)] t(1) have "lines_in raw stop lo (map strip_margin ls')" by (auto intro: lines_in_mono)
    with t lines_in_strip [OF t(5)] ls Cons show ?thesis
      by (auto simp: body_lines_def Let_def intro!: exI [of _ t] line_in_trim)
  qed
qed

lemma line_in_snoc: "line_in raw lo i l \<Longrightarrow> lo \<le> i \<Longrightarrow> line_in raw lo (Suc i) (l @ [\<lparr>mb_b = raw ! i, mb_at = i\<rparr>])"
  by (fastforce simp: line_in_def sorted_wrt_append)

lemma mapped_slice_Cons:
  "i < stop \<Longrightarrow> mapped_slice raw i stop = \<lparr>mb_b = raw ! i, mb_at = i\<rparr> # mapped_slice raw (Suc i) stop"
  by (simp add: mapped_slice_def upt_conv_Cons)

lemma mapped_slice_end: "\<not> i < stop \<Longrightarrow> mapped_slice raw i stop = []"
  by (simp add: mapped_slice_def)

lemma split_mapped_stop: "is_break (mb_b m) \<Longrightarrow> ms \<noteq> [] \<Longrightarrow>
   split_mapped l (m # ms) = l # split_mapped [] (if mb_b m = ch_cr \<and> mb_b (hd ms) = ch_nl then tl ms else ms)"
  by (cases ms) (auto simp: is_break_def)

lemma split_mapped_go: "\<not> is_break (mb_b m) \<Longrightarrow> split_mapped l (m # ms) = split_mapped (l @ [m]) ms"
  by (cases ms) (auto simp: is_break_def)

lemma lines_in_Cons:
  "lo \<le> t \<Longrightarrow> t < stop \<Longrightarrow> is_break (raw ! t) \<Longrightarrow> line_in raw lo t l \<Longrightarrow> lines_in raw stop (Suc t) ls \<Longrightarrow>
   ls \<noteq> [] \<Longrightarrow> lines_in raw stop lo (l # ls)"
  by (cases ls) auto

lemma lines_in_split:
  "line_in raw lo i l \<Longrightarrow> lo \<le> i \<Longrightarrow> i \<le> stop \<Longrightarrow> lines_in raw stop lo (split_mapped l (mapped_slice raw i stop))"
proof (induction "stop - i" arbitrary: i lo l rule: less_induct)
  case less
  show ?case
  proof (cases "i < stop")
    case False
    with less.prems show ?thesis by (simp add: mapped_slice_end)
  next
    case True
    let ?m = "\<lparr>mb_b = raw ! i, mb_at = i\<rparr>" and ?ms = "mapped_slice raw (Suc i) stop"
    have next_line: "lines_in raw stop lo (l # split_mapped [] (mapped_slice raw j stop))"
      if "is_break (raw ! i)" "i < j" "j \<le> stop" for j
      using less.hyps [of j j "[]"] that less.prems True
      by (intro lines_in_Cons [of _ i] lines_in_mono [of raw stop j _ "Suc i"]) (auto simp: split_mapped_not_Nil)
    show ?thesis
    proof (cases "is_break (raw ! i)")
      case False
      then have "split_mapped l (mapped_slice raw i stop) = split_mapped (l @ [?m]) ?ms"
        using True by (simp add: mapped_slice_Cons split_mapped_go)
      with less.hyps [of "Suc i" lo "l @ [?m]"] less.prems True show ?thesis by (simp add: line_in_snoc)
    next
      case brk: True
      show ?thesis
      proof (cases "Suc i < stop")
        case False
        with True brk have "mapped_slice raw i stop = [?m]" by (simp add: mapped_slice_Cons mapped_slice_end)
        with next_line [of "Suc i"] brk True False show ?thesis
          by (auto simp: mapped_slice_end is_break_def)
      next
        case more: True
        then have "?ms = \<lparr>mb_b = raw ! Suc i, mb_at = Suc i\<rparr> # mapped_slice raw (Suc (Suc i)) stop"
          by (rule mapped_slice_Cons)
        then have "split_mapped l (mapped_slice raw i stop) =
            l # split_mapped [] (mapped_slice raw (if raw ! i = ch_cr \<and> raw ! Suc i = ch_nl then Suc (Suc i) else Suc i) stop)"
          using True brk split_mapped_stop [of ?m ?ms l] by (auto simp: mapped_slice_Cons [of i])
        with next_line [of "Suc i"] next_line [of "Suc (Suc i)"] brk more show ?thesis by auto
      qed
    qed
  qed
qed

text \<open>The search for a line break finds the first one, when there is one in range.\<close>

lemma find_break_first:
  "begin_at \<le> t \<Longrightarrow> t < limit \<Longrightarrow> is_break (raw ! t) \<Longrightarrow>
   \<exists>i. find_break raw begin_at limit = Some i \<and> begin_at \<le> i \<and> i \<le> t \<and> is_break (raw ! i)"
proof (induction "t - begin_at" arbitrary: begin_at)
  case 0
  then show ?case by (simp add: find_break.simps [of raw begin_at limit] is_break_def)
next
  case (Suc n)
  show ?case
  proof (cases "is_break (raw ! begin_at)")
    case True
    with Suc show ?thesis by (simp add: find_break.simps [of raw begin_at limit] is_break_def)
  next
    case False
    then have "find_break raw begin_at limit = find_break raw (Suc begin_at) limit"
      using Suc.prems by (simp add: find_break.simps [of raw begin_at limit] is_break_def)
    moreover have "n = t - Suc begin_at" "Suc begin_at \<le> t" using Suc.hyps(2) by arith+
    from Suc.hyps(1) [OF this Suc.prems(2,3)] obtain i where
      "find_break raw (Suc begin_at) limit = Some i" "Suc begin_at \<le> i" "i \<le> t" "is_break (raw ! i)" by blast
    ultimately show ?thesis by auto
  qed
qed

text \<open>The body so far with its offsets: ascending indices below a bound, each the index of its byte.\<close>

definition offsets_ok :: "string \<Rightarrow> nat \<Rightarrow> nat \<Rightarrow> string \<times> nat list \<Rightarrow> bool" where
  "offsets_ok raw start hi acc =
     (sorted_wrt (<) (snd acc) \<and>
      list_all2 (\<lambda>c i. start \<le> i \<and> i < hi \<and> (c = raw ! i \<or> c = ch_nl \<and> raw ! i = ch_cr)) (fst acc) (snd acc))"

lemma offsets_ok_mono: "offsets_ok raw start hi acc \<Longrightarrow> hi \<le> hi' \<Longrightarrow> offsets_ok raw start hi' acc"
  by (auto simp: offsets_ok_def elim!: list_all2_mono)

lemma offsets_ok_bound: "offsets_ok raw start hi (b, offs) \<Longrightarrow> i \<in> set offs \<Longrightarrow> start \<le> i \<and> i < hi"
  by (auto simp: offsets_ok_def list_all2_conv_all_nth in_set_conv_nth)

lemma offsets_ok_line:
  assumes "offsets_ok raw start lo (b, offs)" "line_in raw lo hi l" "start \<le> lo" "lo \<le> hi"
  shows "offsets_ok raw start hi (b @ map mb_b l, offs @ map mb_at l)"
proof -
  have "offsets_ok raw start hi (b, offs)" using offsets_ok_mono [OF assms(1,4)] .
  moreover have "list_all2 (\<lambda>c i. start \<le> i \<and> i < hi \<and> (c = raw ! i \<or> c = ch_nl \<and> raw ! i = ch_cr)) (map mb_b l) (map mb_at l)"
    using assms(2,3) by (fastforce simp: list_all2_map1 list_all2_map2 line_in_def list_all2_same)
  moreover have "\<forall>x \<in> set offs. \<forall>m \<in> set l. x < mb_at m"
    using offsets_ok_bound [OF assms(1)] assms(2) by (fastforce simp: line_in_def)
  ultimately show ?thesis
    using assms(2) by (auto simp: offsets_ok_def line_in_def sorted_wrt_append intro: list_all2_appendI)
qed

lemma sorted_last: "sorted_wrt (<) xs \<Longrightarrow> x \<in> set xs \<Longrightarrow> x \<le> last xs" for x :: nat
  by (induction xs rule: rev_induct) (auto simp: sorted_wrt_append less_imp_le)

lemma offsets_ok_break:
  assumes ok: "offsets_ok raw start t (b, offs)" and t: "start \<le> t" "t < stop" "is_break (raw ! t)"
    and next_line: "line_in raw (Suc t) hi l"
  shows "offsets_ok raw start (Suc t) (b @ [ch_nl], offs @ [lineBreakOffset raw start stop offs l])"
proof -
  let ?from = "if length offs > 0 then last offs + 1 else start"
  let ?limit = "if length l > 0 then mb_at (hd l) else stop"
  have from_t: "?from \<le> t" "offs \<noteq> [] \<Longrightarrow> last offs < ?from" "start \<le> ?from"
    using offsets_ok_bound [OF ok, of "last offs"] t by auto
  have "t < ?limit" using next_line t(2) by (cases l) (auto simp: line_in_def)
  from find_break_first [OF from_t(1) this t(3)] obtain i where
    i: "find_break raw ?from ?limit = Some i" "?from \<le> i" "i \<le> t" "is_break (raw ! i)" by blast
  then have "lineBreakOffset raw start stop offs l = i" by (simp add: lineBreakOffset_def Let_def)
  moreover have "\<forall>x \<in> set offs. x < i"
  proof
    fix x assume x: "x \<in> set offs"
    with ok have "x \<le> last offs" by (auto simp: offsets_ok_def intro: sorted_last)
    with x i(2) show "x < i" by (auto split: if_splits)
  qed
  ultimately show ?thesis
    using offsets_ok_mono [OF ok, of "Suc t"] i from_t(3)
    by (auto simp: offsets_ok_def is_break_def sorted_wrt_append intro!: list_all2_appendI)
qed

lemma join_lines_ok:
  assumes "lines_in raw stop lo (l # ls)" "start \<le> lo" "lo \<le> stop" "offsets_ok raw start lo (b, offs)"
  shows "offsets_ok raw start stop (join_lines raw start stop False ls (b @ map mb_b l, offs @ map mb_at l))"
  using assms
proof (induction ls arbitrary: l lo b offs)
  case Nil
  then show ?case using offsets_ok_line [of raw start lo b offs stop l] by simp
next
  case (Cons l2 ls)
  then obtain t where t: "lo \<le> t" "t < stop" "is_break (raw ! t)" "line_in raw lo t l" "lines_in raw stop (Suc t) (l2 # ls)"
    by auto
  let ?b = "b @ map mb_b l" and ?offs = "offs @ map mb_at l"
  have "offsets_ok raw start t (?b, ?offs)" using Cons.prems t by (intro offsets_ok_line) auto
  moreover obtain hi where "line_in raw (Suc t) hi l2" using t(5) by (cases ls) auto
  ultimately have "offsets_ok raw start (Suc t) (?b @ [ch_nl], ?offs @ [lineBreakOffset raw start stop ?offs l2])"
    using offsets_ok_break [of raw start t ?b ?offs stop hi l2] t Cons.prems by auto
  from Cons.IH [OF t(5) _ _ this] t Cons.prems show ?case by simp
qed

lemma body_lines_not_Nil: "ls \<noteq> [] \<Longrightarrow> body_lines ls \<noteq> []"
  by (cases ls) (auto simp: body_lines_def Let_def)

lemma body_range_le: "body_range raw = (start, stop) \<Longrightarrow> start \<le> stop \<and> stop \<le> length raw"
  using has_prefix_iff [of raw "''/*''"] by (auto simp: body_range_def Let_def split: if_splits)

lemma CommentBodyOffsets_ok:
  assumes "CommentBodyOffsets raw = (b, offs)" "body_range raw = (start, stop)"
  shows "\<exists>os. offs = os @ [stop] \<and> offsets_ok raw start stop (b, os)"
proof -
  let ?lines = "body_lines (split_mapped [] (mapped_slice raw start stop))"
  have range: "start \<le> stop" using body_range_le [OF assms(2)] by simp
  have "lines_in raw stop start ?lines"
    using range by (intro lines_in_body lines_in_split) (auto simp: split_mapped_not_Nil)
  moreover obtain l ls where lines: "?lines = l # ls"
    using body_lines_not_Nil [OF split_mapped_not_Nil] by (metis list.exhaust)
  ultimately have "offsets_ok raw start stop (join_lines raw start stop True ?lines ([], []))"
    using join_lines_ok [of raw stop start l ls start "[]" "[]"] range by (simp add: offsets_ok_def)
  then show ?thesis using assms by (auto simp: CommentBodyOffsets_def split: prod.splits)
qed

text \<open>
  The offsets of a comment body have one entry more than the body; they ascend strictly, the
  last is the end of the body in the comment, and each names a byte between the delimiters that is
  the body's byte, or a carriage return the body reads as a newline.
\<close>

lemma CommentBodyOffsets_provenance:
  assumes "CommentBodyOffsets raw = (body, offsets)" and "body_range raw = (start, stop)"
  shows "length offsets = length body + 1 \<and> last offsets = stop \<and> sorted_wrt (<) offsets \<and>
    (\<forall>i < length body. start \<le> offsets ! i \<and> offsets ! i < stop \<and> stop \<le> length raw \<and>
       (raw ! (offsets ! i) = body ! i \<or> body ! i = ch_nl \<and> raw ! (offsets ! i) = ch_cr))"
proof -
  obtain os where os: "offsets = os @ [stop]" "offsets_ok raw start stop (body, os)"
    using CommentBodyOffsets_ok [OF assms] by blast
  then have all: "list_all2 (\<lambda>c i. start \<le> i \<and> i < stop \<and> (c = raw ! i \<or> c = ch_nl \<and> raw ! i = ch_cr)) body os"
    by (simp add: offsets_ok_def)
  then have "length body = length os" by (rule list_all2_lengthD)
  with os all body_range_le [OF assms(2)] offsets_ok_bound [OF os(2)] show ?thesis
    by (auto simp: offsets_ok_def sorted_wrt_append nth_append list_all2_conv_all_nth)
qed

text \<open>
  C32: a body written as a comment, under an indent of blanks, tabs and form feeds, reads back
  unchanged, and it is refused exactly when it holds the closing delimiter or a carriage return. Of the
  body read from any comment, the offsets are one more than its bytes and ascend strictly; the last is the
  end of the body in the comment, and each other names the byte between the delimiters that is the body's
  byte, or a carriage return the body reads as a newline.
\<close>

theorem CommentText_roundtrip:
  assumes "set indent \<subseteq> set commentSpace"
    and "CommentBodyOffsets raw = (read, offsets)" and "body_range raw = (start, stop)"
  shows "(case CommentText body indent of
      None \<Rightarrow> contains_sub body ''*/'' \<or> ch_cr \<in> set body
    | Some t \<Rightarrow> CommentBody t = body \<and> \<not> contains_sub body ''*/'' \<and> ch_cr \<notin> set body) \<and>
    length offsets = length read + 1 \<and> last offsets = stop \<and> sorted_wrt (<) offsets \<and>
    (\<forall>i < length read. start \<le> offsets ! i \<and> offsets ! i < stop \<and> stop \<le> length raw \<and>
       (raw ! (offsets ! i) = read ! i \<or> read ! i = ch_nl \<and> raw ! (offsets ! i) = ch_cr))"
proof -
  have refused: "CommentText body indent = None \<longleftrightarrow> contains_sub body ''*/'' \<or> ch_cr \<in> set body"
    by (auto simp: CommentText_def contains_single Let_def)
  then have "case CommentText body indent of
      None \<Rightarrow> contains_sub body ''*/'' \<or> ch_cr \<in> set body
    | Some t \<Rightarrow> CommentBody t = body \<and> \<not> contains_sub body ''*/'' \<and> ch_cr \<notin> set body"
    using comment.dec_enc [of body indent] assms(1) by (cases "CommentText body indent") auto
  then show ?thesis using CommentBodyOffsets_provenance [OF assms(2,3)] by blast
qed

theorem CommentText_roundtrip_witness:
  "CommentBody (the (CommentText ''a'' ''  '')) = ''a'' \<and> length [3::nat, 4] = length ''a'' + 1"
proof -
  have h: "CommentText ''a'' ''  '' = Some ''/* a*/''" "set ''  '' \<subseteq> set commentSpace"
    "CommentBodyOffsets ''/* a*/'' = (''a'', [3, 4])" "body_range ''/* a*/'' = (2, 4)"
    by code_simp+
  show ?thesis using CommentText_roundtrip [OF h(2-4), of "''a''"] h(1) by simp
qed

end
