(* ===== verification/Lexer.thy ===== *)
theory Lexer
  imports Source_Text Source_Names Source_Comments
begin

text \<open>
  The scanner: \<open>internal/syntax/lexer\<close>. \<open>token.go\<close> is \<open>Kind\<close> and \<open>Token\<close>, \<open>lexer.go\<close> is the
  record \<open>Lexer\<close> with one definition per method, each returning the token and the lexer it
  leaves, \<open>number.go\<close> and \<open>name.go\<close> are the questions asked of one token, \<open>keywords.go\<close>
  locates invalid escapes and \<open>contextual.go\<close> lists the contextual words.
\<close>

section \<open>Tokens: token.go\<close>

datatype (plugins only: code size) Kind =
    Invalid | EOF
  | Identifier | UnrestrictedName | String | Decimal | Real
  | Whitespace | SLNote | MLNote | RegularComment
  | Question | QuestionQ | Pipe | Amp | EqEq | NotEq | EqEqEq | NotEqEq | At | AtAt | Lt | Gt
  | Le | Ge | DotDot | Plus | Minus | Star | Slash | Percent | StarStar | Caret | Tilde | Dot
  | Hash | LParen | RParen | LBracket | RBracket | Arrow | DotQuestion | Comma | ColonColon
  | Dollar | Eq | LBrace | RBrace | Semicolon | Colon | ColonEq
  | ColonGt | ColonGtGt | ColonColonGt | EqGt
  | Keyword
  | Error

fun Kind_String :: "Kind \<Rightarrow> string" where
  "Kind_String Invalid = ''Invalid''" | "Kind_String EOF = ''EOF''"
| "Kind_String Identifier = ''Identifier''" | "Kind_String UnrestrictedName = ''UnrestrictedName''"
| "Kind_String String = ''String''" | "Kind_String Decimal = ''Decimal''" | "Kind_String Real = ''Real''"
| "Kind_String Whitespace = ''Whitespace''" | "Kind_String SLNote = ''SLNote''"
| "Kind_String MLNote = ''MLNote''" | "Kind_String RegularComment = ''RegularComment''"
| "Kind_String Question = ''?''" | "Kind_String QuestionQ = ''??''" | "Kind_String Pipe = ''|''"
| "Kind_String Amp = ''&''" | "Kind_String EqEq = ''==''" | "Kind_String NotEq = ''!=''"
| "Kind_String EqEqEq = ''===''" | "Kind_String NotEqEq = ''!==''"
| "Kind_String At = ''@''" | "Kind_String AtAt = ''@@''" | "Kind_String Lt = ''<''"
| "Kind_String Gt = ''>''" | "Kind_String Le = ''<=''" | "Kind_String Ge = ''>=''"
| "Kind_String DotDot = ''..''" | "Kind_String Plus = ''+''" | "Kind_String Minus = ''-''"
| "Kind_String Star = ''*''" | "Kind_String Slash = ''/''" | "Kind_String Percent = ''%''"
| "Kind_String StarStar = ''**''" | "Kind_String Caret = ''^''" | "Kind_String Tilde = ''~''"
| "Kind_String Dot = ''.''" | "Kind_String Hash = ''#''" | "Kind_String LParen = ''(''"
| "Kind_String RParen = '')''" | "Kind_String LBracket = ''[''" | "Kind_String RBracket = '']''"
| "Kind_String Arrow = ''->''" | "Kind_String DotQuestion = ''.?''" | "Kind_String Comma = '',''"
| "Kind_String ColonColon = ''::''" | "Kind_String Dollar = ''$''" | "Kind_String Eq = ''=''"
| "Kind_String LBrace = ''{''" | "Kind_String RBrace = ''}''" | "Kind_String Semicolon = '';''"
| "Kind_String Colon = '':''" | "Kind_String ColonEq = '':=''" | "Kind_String ColonGt = '':>''"
| "Kind_String ColonGtGt = '':>>''" | "Kind_String ColonColonGt = ''::>''" | "Kind_String EqGt = ''=>''"
| "Kind_String Keyword = ''Keyword''" | "Kind_String Error = ''Error''"

record Token =
  tok_Kind :: Kind
  tok_Span :: span
  tok_KeywordID :: string
  tok_Unterminated :: bool
  tok_BadEscape :: bool

definition IsTrivia :: "Token \<Rightarrow> bool" where
  "IsTrivia t = (case tok_Kind t of Whitespace \<Rightarrow> True | SLNote \<Rightarrow> True | MLNote \<Rightarrow> True | _ \<Rightarrow> False)"

text \<open>\<open>Token{Kind: k, Span: sp}\<close>, the other fields zero.\<close>

definition plain_token :: "Kind \<Rightarrow> span \<Rightarrow> Token" where
  "plain_token k sp = \<lparr>tok_Kind = k, tok_Span = sp, tok_KeywordID = '''', tok_Unterminated = False, tok_BadEscape = False\<rparr>"

section \<open>The lexer: lexer.go\<close>

text \<open>The source file the code keeps beside the bytes serves only later diagnostics.\<close>

record Lexer =
  lx_src :: string
  lx_pos :: nat

definition New :: "string \<Rightarrow> Lexer" where
  "New src = \<lparr>lx_src = src, lx_pos = 0\<rparr>"

definition skip :: "nat \<Rightarrow> Lexer \<Rightarrow> Lexer" where
  "skip n lx = lx\<lparr>lx_pos := lx_pos lx + n\<rparr>"

definition peek :: "Lexer \<Rightarrow> nat \<Rightarrow> char" where
  "peek lx n = (let i = lx_pos lx + n in if i \<ge> length (lx_src lx) then CHR 0x00 else lx_src lx ! i)"

definition lx_span :: "Lexer \<Rightarrow> nat \<Rightarrow> span" where
  "lx_span lx start = \<lparr>Offset = int start, Len = int (lx_pos lx) - int start\<rparr>"

definition emit :: "Kind \<Rightarrow> nat \<Rightarrow> Lexer \<Rightarrow> Token \<times> Lexer" where
  "emit k start lx = (plain_token k (lx_span lx start), lx)"

text \<open>The loops \<open>for lx.pos < len(lx.src) && P(lx.src[lx.pos]) { lx.pos++ }\<close>.\<close>

function advance :: "(char \<Rightarrow> bool) \<Rightarrow> Lexer \<Rightarrow> Lexer" where
  "advance P lx =
     (if lx_pos lx < length (lx_src lx) \<and> P (lx_src lx ! lx_pos lx) then advance P (skip 1 lx) else lx)"
  by pat_completeness auto
termination
  by (relation "measure (\<lambda>(P, lx). length (lx_src lx) - lx_pos lx)") (auto simp: skip_def)

declare advance.simps [simp del]

definition is_space :: "char \<Rightarrow> bool" where
  "is_space c = (c = CHR '' '' \<or> c = ch_tab \<or> c = ch_cr \<or> c = ch_nl)"

definition isDigit :: "char \<Rightarrow> bool" where
  "isDigit c = in_range (CHR ''0'') (CHR ''9'') c"

definition canStartToken :: "char \<Rightarrow> bool" where
  "canStartToken c =
     (is_space c \<or> IsIdentStart c \<or> isDigit c \<or> c = ch_apos \<or> c = ch_quote \<or>
      c \<in> set '':-.*=!<>?@/|&+%^~#()[]{},$;'')"

definition singleCharKind :: "char \<Rightarrow> Kind option" where
  "singleCharKind =
     map_of [(CHR ''|'', Pipe), (CHR ''&'', Amp), (CHR ''+'', Plus), (CHR ''%'', Percent),
       (CHR ''^'', Caret), (CHR ''~'', Tilde), (CHR ''#'', Hash), (CHR ''('', LParen),
       (CHR '')'', RParen), (CHR ''['', LBracket), (CHR '']'', RBracket), (CHR ''{'', LBrace),
       (CHR ''}'', RBrace), (CHR '','', Comma), (CHR ''$'', Dollar), (CHR '';'', Semicolon)]"

definition scanError :: "nat \<Rightarrow> Lexer \<Rightarrow> Token \<times> Lexer" where
  "scanError start lx = emit Error start (advance (\<lambda>c. \<not> canStartToken c) (skip 1 lx))"

definition scanWhitespace :: "nat \<Rightarrow> Lexer \<Rightarrow> Token \<times> Lexer" where
  "scanWhitespace start lx = emit Whitespace start (advance is_space lx)"

text \<open>One byte consumed when it is there and is the one asked for.\<close>

definition skip_if :: "char \<Rightarrow> Lexer \<Rightarrow> Lexer" where
  "skip_if c lx = (if lx_pos lx < length (lx_src lx) \<and> lx_src lx ! lx_pos lx = c then skip 1 lx else lx)"

definition scanSLNote :: "nat \<Rightarrow> Lexer \<Rightarrow> Token \<times> Lexer" where
  "scanSLNote start lx =
     emit SLNote start
       (skip_if ch_nl (skip_if ch_cr (advance (\<lambda>c. c \<noteq> ch_nl \<and> c \<noteq> ch_cr) (skip 2 lx))))"

function consumeUntilStarSlash :: "Lexer \<Rightarrow> bool \<times> Lexer" where
  "consumeUntilStarSlash lx =
     (if lx_pos lx < length (lx_src lx) then
        if lx_src lx ! lx_pos lx = CHR ''*'' \<and> peek lx 1 = CHR ''/'' then (True, skip 2 lx)
        else consumeUntilStarSlash (skip 1 lx)
      else (False, lx))"
  by pat_completeness auto
termination
  by (relation "measure (\<lambda>lx. length (lx_src lx) - lx_pos lx)") (auto simp: skip_def)

declare consumeUntilStarSlash.simps [simp del]

definition scanMLNote :: "nat \<Rightarrow> Lexer \<Rightarrow> Token \<times> Lexer" where
  "scanMLNote start lx =
     (let (closed, lx) = consumeUntilStarSlash (skip 3 lx)
      in ((plain_token MLNote (lx_span lx start)) \<lparr>tok_Unterminated := \<not> closed\<rparr>, lx))"

definition scanBlockComment :: "nat \<Rightarrow> Lexer \<Rightarrow> Token \<times> Lexer" where
  "scanBlockComment start lx =
     (let (closed, lx) = consumeUntilStarSlash (skip 2 lx)
      in ((plain_token RegularComment (lx_span lx start)) \<lparr>tok_Unterminated := \<not> closed\<rparr>, lx))"

text \<open>
  The loop of \<open>scanQuoted\<close>: \<open>lineEnd\<close> is the first line break met with the bad-escape flag as
  it was there, \<open>None\<close> for \<open>-1\<close>. The answer tells whether the closing quote was met.
\<close>

definition note_line_end :: "char \<Rightarrow> Lexer \<Rightarrow> bool \<Rightarrow> (nat \<times> bool) option \<Rightarrow> (nat \<times> bool) option" where
  "note_line_end c lx badEscape lineEnd =
     (if lineEnd = None \<and> (c = ch_nl \<or> c = ch_cr) then Some (lx_pos lx, badEscape) else lineEnd)"

function quoted_loop :: "char \<Rightarrow> bool \<Rightarrow> (nat \<times> bool) option \<Rightarrow> Lexer \<Rightarrow> bool \<times> bool \<times> (nat \<times> bool) option \<times> Lexer" where
  "quoted_loop quote badEscape lineEnd lx =
     (if lx_pos lx < length (lx_src lx) then
        let c = lx_src lx ! lx_pos lx in
        if c = ch_backslash then
          let lx = skip 1 lx in
          if lx_pos lx < length (lx_src lx) then
            let next = lx_src lx ! lx_pos lx
            in quoted_loop quote (badEscape \<or> \<not> IsEscapeChar next) (note_line_end next lx badEscape lineEnd) (skip 1 lx)
          else quoted_loop quote badEscape lineEnd lx
        else if c = quote then (True, badEscape, lineEnd, skip 1 lx)
        else quoted_loop quote badEscape (note_line_end c lx badEscape lineEnd) (skip 1 lx)
      else (False, badEscape, lineEnd, lx))"
  by pat_completeness auto
termination
  by (relation "measure (\<lambda>(q, b, e, lx). length (lx_src lx) - lx_pos lx)") (auto simp: skip_def)

declare quoted_loop.simps [simp del]

definition scanQuoted :: "nat \<Rightarrow> char \<Rightarrow> Kind \<Rightarrow> Lexer \<Rightarrow> Token \<times> Lexer" where
  "scanQuoted start quote kind lx =
     (let (closed, badEscape, lineEnd, lx) = quoted_loop quote False None (skip 1 lx)
      in if closed then ((plain_token kind (lx_span lx start)) \<lparr>tok_BadEscape := badEscape\<rparr>, lx)
         else
           let (lx, badEscape) =
                 (case lineEnd of None \<Rightarrow> (lx, badEscape) | Some (p, b) \<Rightarrow> (lx\<lparr>lx_pos := p\<rparr>, b))
           in ((plain_token kind (lx_span lx start)) \<lparr>tok_Unterminated := True, tok_BadEscape := badEscape\<rparr>, lx))"

text \<open>The map \<open>keywords\<close>, which \<open>init\<close> fills from \<open>source.Keywords\<close>.\<close>

definition keyword_map :: "string \<Rightarrow> string option" where
  "keyword_map s = (if s \<in> set Keywords then Some s else None)"

definition scanIdentOrKeyword :: "nat \<Rightarrow> Lexer \<Rightarrow> Token \<times> Lexer" where
  "scanIdentOrKeyword start lx =
     (let lx = advance IsIdentCont (skip 1 lx);
          sp = lx_span lx start
      in case keyword_map (take (lx_pos lx - start) (drop start (lx_src lx))) of
           Some kw \<Rightarrow> ((plain_token Keyword sp) \<lparr>tok_KeywordID := kw\<rparr>, lx)
         | None \<Rightarrow> (plain_token Identifier sp, lx))"

definition consumeDigits :: "Lexer \<Rightarrow> Lexer" where
  "consumeDigits lx = advance isDigit lx"

definition consumeExponent :: "bool \<Rightarrow> Lexer \<Rightarrow> bool \<times> Lexer" where
  "consumeExponent isReal lx =
     (if lx_pos lx \<ge> length (lx_src lx) then (isReal, lx)
      else
        let c = lx_src lx ! lx_pos lx in
        if c \<noteq> CHR ''e'' \<and> c \<noteq> CHR ''E'' then (isReal, lx)
        else
          let i = lx_pos lx + 1;
              i = (if i < length (lx_src lx) \<and> (lx_src lx ! i = CHR ''+'' \<or> lx_src lx ! i = CHR ''-'') then i + 1 else i)
          in if i \<ge> length (lx_src lx) \<or> \<not> isDigit (lx_src lx ! i) then (isReal, lx)
             else (True, consumeDigits (lx\<lparr>lx_pos := i\<rparr>)))"

definition scanNumber :: "nat \<Rightarrow> Lexer \<Rightarrow> Token \<times> Lexer" where
  "scanNumber start lx =
     (if lx_src lx ! lx_pos lx = CHR ''.'' then
        let (isReal, lx) = consumeExponent True (consumeDigits (skip 1 lx))
        in emit Real start lx
      else
        let lx = consumeDigits lx;
            (isReal, lx) =
              (if lx_pos lx < length (lx_src lx) \<and> lx_src lx ! lx_pos lx = CHR ''.'' \<and>
                  lx_pos lx + 1 < length (lx_src lx) \<and> isDigit (lx_src lx ! (lx_pos lx + 1))
               then (True, consumeDigits (skip 1 lx)) else (False, lx));
            (isReal, lx) = consumeExponent isReal lx
        in emit (if isReal then Real else Decimal) start lx)"

text \<open>The second switch of \<open>Next\<close>: operators and punctuation, the longest match first.\<close>

definition scanOperator :: "nat \<Rightarrow> Lexer \<Rightarrow> Token \<times> Lexer" where
  "scanOperator start lx =
     (let c = lx_src lx ! lx_pos lx;
          p1 = peek lx 1;
          p2 = peek lx 2;
          tk = (\<lambda>n k. emit k start (skip n lx))
      in if c = CHR '':'' then
           if p1 = CHR '':'' then (if p2 = CHR ''>'' then tk 3 ColonColonGt else tk 2 ColonColon)
           else if p1 = CHR ''='' then tk 2 ColonEq
           else if p1 = CHR ''>'' then (if p2 = CHR ''>'' then tk 3 ColonGtGt else tk 2 ColonGt)
           else tk 1 Colon
         else if c = CHR ''-'' then (if p1 = CHR ''>'' then tk 2 Arrow else tk 1 Minus)
         else if c = CHR ''.'' then
           (if p1 = CHR ''?'' then tk 2 DotQuestion else if p1 = CHR ''.'' then tk 2 DotDot else tk 1 Dot)
         else if c = CHR ''*'' then (if p1 = CHR ''*'' then tk 2 StarStar else tk 1 Star)
         else if c = CHR ''='' then
           (if p1 = CHR ''='' \<and> p2 = CHR ''='' then tk 3 EqEqEq
            else if p1 = CHR ''='' then tk 2 EqEq
            else if p1 = CHR ''>'' then tk 2 EqGt
            else tk 1 Eq)
         else if c = CHR ''!'' then
           (if p1 = CHR ''='' \<and> p2 = CHR ''='' then tk 3 NotEqEq
            else if p1 = CHR ''='' then tk 2 NotEq
            else tk 1 Error)
         else if c = CHR ''<'' then (if p1 = CHR ''='' then tk 2 Le else tk 1 Lt)
         else if c = CHR ''>'' then (if p1 = CHR ''='' then tk 2 Ge else tk 1 Gt)
         else if c = CHR ''?'' then (if p1 = CHR ''?'' then tk 2 QuestionQ else tk 1 Question)
         else if c = CHR ''@'' then (if p1 = CHR ''@'' then tk 2 AtAt else tk 1 At)
         else if c = CHR ''/'' then tk 1 Slash
         else (case singleCharKind c of Some k \<Rightarrow> tk 1 k | None \<Rightarrow> scanError start lx))"

definition Next :: "Lexer \<Rightarrow> Token \<times> Lexer" where
  "Next lx =
     (if lx_pos lx \<ge> length (lx_src lx) then
        (plain_token EOF \<lparr>Offset = int (length (lx_src lx)), Len = 0\<rparr>, lx)
      else
        let start = lx_pos lx;
            c = lx_src lx ! lx_pos lx
        in if c = CHR '' '' \<or> c = ch_tab \<or> c = ch_cr \<or> c = ch_nl then scanWhitespace start lx
           else if c = CHR ''/'' \<and> peek lx 1 = CHR ''/'' \<and> peek lx 2 = CHR ''*'' then scanMLNote start lx
           else if c = CHR ''/'' \<and> peek lx 1 = CHR ''/'' then scanSLNote start lx
           else if c = CHR ''/'' \<and> peek lx 1 = CHR ''*'' then scanBlockComment start lx
           else if IsIdentStart c then scanIdentOrKeyword start lx
           else if c = ch_apos then scanQuoted start ch_apos UnrestrictedName lx
           else if in_range (CHR ''0'') (CHR ''9'') c then scanNumber start lx
           else if c = CHR ''.'' \<and> in_range (CHR ''0'') (CHR ''9'') (peek lx 1) then scanNumber start lx
           else if c = ch_quote then scanQuoted start ch_quote String lx
           else scanOperator start lx)"

section \<open>Numbers: number.go\<close>

definition isNumberToken :: "string \<Rightarrow> Kind \<Rightarrow> bool" where
  "isNumberToken s kind =
     (let tok = fst (Next (New s)) in tok_Kind tok = kind \<and> Len (tok_Span tok) = int (length s))"

definition IsDecimalValue :: "string \<Rightarrow> bool" where
  "IsDecimalValue s = isNumberToken s Decimal"

definition IsRealValue :: "string \<Rightarrow> bool" where
  "IsRealValue s = isNumberToken s Real"

section \<open>Names: name.go\<close>

definition NotASingleName :: string where
  "NotASingleName = ''is not a single name''"

definition NameProblem :: "string \<Rightarrow> string" where
  "NameProblem name =
     (if name = '''' then ''is empty''
      else if IsKeyword name then ''is a keyword''
      else
        let tok = fst (Next (New name))
        in if tok_Kind tok \<noteq> Identifier \<and> tok_Kind tok \<noteq> UnrestrictedName then ''is not an identifier''
           else if tok_Unterminated tok then ''is an unterminated quoted name''
           else if Len (tok_Span tok) \<noteq> int (length name) then NotASingleName
           else '''')"

section \<open>Invalid escapes: keywords.go\<close>

text \<open>The loop over the indices of raw, \<open>i\<close> the next one.\<close>

function invalid_escapes :: "span \<Rightarrow> string \<Rightarrow> nat \<Rightarrow> span list" where
  "invalid_escapes tok raw i =
     (if i + 1 < length raw then
        if raw ! i \<noteq> ch_backslash then invalid_escapes tok raw (i + 1)
        else (if \<not> IsEscapeChar (raw ! (i + 1)) then [\<lparr>Offset = Offset tok + int i, Len = 2\<rparr>] else [])
             @ invalid_escapes tok raw (i + 2)
      else [])"
  by pat_completeness auto
termination
  by (relation "measure (\<lambda>(tok, raw, i). length raw - i)") auto

declare invalid_escapes.simps [simp del]

definition InvalidEscapes :: "span \<Rightarrow> string \<Rightarrow> span list" where
  "InvalidEscapes tok raw = invalid_escapes tok raw 0"

section \<open>Contextual words: contextual.go\<close>

definition contextualWords :: "string list" where
  "contextualWords =
     [''chain'', ''choice'', ''deep'', ''done'', ''history'', ''junction'', ''shallow'']"

definition contextualKerMLWords :: "string list" where
  "contextualKerMLWords = [''var'']"

definition ContextualWords :: "lang_kind \<Rightarrow> string list" where
  "ContextualWords kind =
     (let out = contextualWords in
      sort (if kind \<noteq> KindSysML then out @ contextualKerMLWords else out))"

end
