(* ===== verification/Lexer_Correct.thy ===== *)
theory Lexer_Correct
  imports Lexer
begin

text \<open>
  What the scanner guarantees: every call of \<open>Next\<close> consumes a non-empty piece of the text or
  answers the end of it, so the tokens tile the text; the texts the writers of the notation
  produce (names, string literals, comments) are single tokens of their kind; numbers and
  names are exactly what their grammar says.
\<close>

section \<open>The rest of the text\<close>

lemma drop_Cons_D: "drop n xs = c # s \<Longrightarrow> n < length xs \<and> xs ! n = c \<and> drop (Suc n) xs = s"
  by (metis Cons_nth_drop_Suc drop_all leI list.distinct(1) list.inject)

definition lx_rest :: "Lexer \<Rightarrow> string" where
  "lx_rest lx = drop (lx_pos lx) (lx_src lx)"

lemma lx_rest_skip [simp]: "lx_rest (skip n lx) = drop n (lx_rest lx)"
  by (simp add: lx_rest_def skip_def add.commute)

lemma lx_src_skip [simp]: "lx_src (skip n lx) = lx_src lx"
  by (simp add: skip_def)

lemma lx_pos_skip [simp]: "lx_pos (skip n lx) = lx_pos lx + n"
  by (simp add: skip_def)

lemma skip_skip [simp]: "skip m (skip n lx) = skip (n + m) lx"
  by (simp add: skip_def)

lemma skip_0 [simp]: "skip 0 lx = lx"
  by (simp add: skip_def)

lemma New_fields [simp]: "lx_src (New s) = s" "lx_pos (New s) = 0"
  by (simp_all add: New_def)

lemma lx_rest_New [simp]: "lx_rest (New s) = s"
  by (simp add: lx_rest_def)

lemma lx_rest_Nil_iff: "lx_pos lx \<ge> length (lx_src lx) \<longleftrightarrow> lx_rest lx = []"
  by (simp add: lx_rest_def)

lemma lx_rest_pos: "lx_pos lx < length (lx_src lx) \<longleftrightarrow> lx_rest lx \<noteq> []"
  by (auto simp: lx_rest_def)

lemma lx_src_nth: "lx_rest lx \<noteq> [] \<Longrightarrow> lx_src lx ! lx_pos lx = hd (lx_rest lx)"
  by (simp add: lx_rest_def hd_drop_conv_nth)

lemma lx_src_nth_add: "n < length (lx_rest lx) \<Longrightarrow> lx_src lx ! (lx_pos lx + n) = lx_rest lx ! n"
  by (auto simp: lx_rest_def)

lemma peek_rest: "peek lx n = (if n < length (lx_rest lx) then lx_rest lx ! n else CHR 0x00)"
  by (auto simp: peek_def lx_rest_def Let_def)

lemma peek_in_range: "peek lx n = c \<Longrightarrow> c \<noteq> CHR 0x00 \<Longrightarrow> n < length (lx_rest lx)"
  by (auto simp: peek_rest split: if_splits)

section \<open>The loops\<close>

lemma advance_rest: "advance P lx = skip (length (takeWhile P (lx_rest lx))) lx"
proof (induction P lx rule: advance.induct)
  case (1 P lx)
  show ?case
  proof (cases "lx_rest lx")
    case Nil
    then show ?thesis using lx_rest_pos [of lx] by (simp add: advance.simps [of P lx])
  next
    case (Cons c s)
    then have h: "lx_pos lx < length (lx_src lx)" "lx_src lx ! lx_pos lx = c"
      using lx_rest_pos [of lx] lx_src_nth [of lx] by auto
    with Cons 1 show ?thesis by (cases "P c") (simp_all add: advance.simps [of P lx])
  qed
qed

lemma skip_if_rest: "skip_if c lx = (if lx_rest lx \<noteq> [] \<and> hd (lx_rest lx) = c then skip 1 lx else lx)"
  using lx_src_nth [of lx] lx_rest_pos [of lx] by (auto simp: skip_if_def)

lemma index_of_star_slash:
  "index_of (c # s) ''*/'' =
     (if c = CHR ''*'' \<and> s \<noteq> [] \<and> hd s = CHR ''/'' then Some 0 else map_option Suc (index_of s ''*/''))"
  by (cases s) auto

lemma consumeUntilStarSlash_rest:
  "consumeUntilStarSlash lx =
     (case index_of (lx_rest lx) ''*/'' of
        Some i \<Rightarrow> (True, skip (i + 2) lx) | None \<Rightarrow> (False, skip (length (lx_rest lx)) lx))"
proof (induction lx rule: consumeUntilStarSlash.induct)
  case (1 lx)
  show ?case
  proof (cases "lx_rest lx")
    case Nil
    then show ?thesis using lx_rest_pos [of lx] by (simp add: consumeUntilStarSlash.simps [of lx])
  next
    case (Cons c s)
    then have h: "lx_pos lx < length (lx_src lx)" "lx_src lx ! lx_pos lx = c"
      using lx_rest_pos [of lx] lx_src_nth [of lx] by auto
    have p: "peek lx 1 = CHR ''/'' \<longleftrightarrow> s \<noteq> [] \<and> hd s = CHR ''/''"
      using Cons by (cases s) (auto simp: peek_rest)
    show ?thesis
    proof (cases "c = CHR ''*'' \<and> s \<noteq> [] \<and> hd s = CHR ''/''")
      case True
      with h p Cons show ?thesis
        by (simp add: consumeUntilStarSlash.simps [of lx] index_of_star_slash del: index_of.simps)
    next
      case False
      with h p have "consumeUntilStarSlash lx = consumeUntilStarSlash (skip 1 lx)"
        by (auto simp: consumeUntilStarSlash.simps [of lx])
      moreover have "\<not> (lx_src lx ! lx_pos lx = CHR ''*'' \<and> peek lx 1 = CHR ''/'')" using False h p by auto
      note "1.IH" [OF h(1) this]
      ultimately show ?thesis using Cons False
        by (auto simp: index_of_star_slash simp del: index_of.simps split: option.splits)
    qed
  qed
qed

text \<open>The quoted loop on the rest of the text: \<open>n\<close> bytes taken so far.\<close>

definition line_end_at :: "char \<Rightarrow> nat \<Rightarrow> bool \<Rightarrow> (nat \<times> bool) option \<Rightarrow> (nat \<times> bool) option" where
  "line_end_at c n b e = (if e = None \<and> (c = ch_nl \<or> c = ch_cr) then Some (n, b) else e)"

fun quoted_bytes :: "char \<Rightarrow> bool \<Rightarrow> (nat \<times> bool) option \<Rightarrow> nat \<Rightarrow> string \<Rightarrow> bool \<times> bool \<times> (nat \<times> bool) option \<times> nat" where
  "quoted_bytes q b e n [] = (False, b, e, n)"
| "quoted_bytes q b e n [c] =
     (if c = ch_backslash then (False, b, e, n + 1)
      else if c = q then (True, b, e, n + 1)
      else (False, b, line_end_at c n b e, n + 1))"
| "quoted_bytes q b e n (c # d # s) =
     (if c = ch_backslash then
        quoted_bytes q (b \<or> \<not> IsEscapeChar d) (line_end_at d (n + 1) b e) (n + 2) s
      else if c = q then (True, b, e, n + 1)
      else quoted_bytes q b (line_end_at c n b e) (n + 1) (d # s))"

lemma quoted_loop_end: "\<not> lx_pos lx < length (lx_src lx) \<Longrightarrow> quoted_loop q b e lx = (False, b, e, lx)"
  by (simp add: quoted_loop.simps [of q b e lx])

lemma quoted_loop_rest:
  "lx_pos lx = n \<Longrightarrow> lx_src lx = src \<Longrightarrow>
   quoted_loop q b e lx =
     (case quoted_bytes q b e n (drop n src) of
        (closed, b', e', m) \<Rightarrow> (closed, b', e', \<lparr>lx_src = src, lx_pos = m\<rparr>))"
proof (induction "length (lx_src lx) - lx_pos lx" arbitrary: b e n lx rule: less_induct)
  case less
  have lx: "\<lparr>lx_src = src, lx_pos = n\<rparr> = lx" using less.prems by simp
  show ?case
  proof (cases "drop n src" rule: remdups_adj.cases)
    case 1
    then show ?thesis using less.prems lx by (simp add: quoted_loop.simps [of q b e lx])
  next
    case (2 c)
    with drop_Cons_D [of n src c "[]"] less.prems have
      "lx_pos lx < length (lx_src lx)" "lx_src lx ! lx_pos lx = c" "\<not> lx_pos (skip 1 lx) < length (lx_src (skip 1 lx))"
      "skip 1 lx = \<lparr>lx_src = src, lx_pos = n + 1\<rparr>" by auto
    with 2 less.prems show ?thesis
      by (simp add: quoted_loop.simps [of q b e lx] quoted_loop_end Let_def note_line_end_def line_end_at_def
          del: lx_pos_skip lx_src_skip)
  next
    case (3 c d s)
    note h = drop_Cons_D [OF 3] drop_Cons_D [of "Suc n" src d s]
    have ih: "quoted_loop q b e (skip 1 lx) =
        (case quoted_bytes q b e (n + 1) (d # s) of (closed, b', e', m) \<Rightarrow> (closed, b', e', \<lparr>lx_src = src, lx_pos = m\<rparr>))"
      "quoted_loop q b e (skip 2 lx) =
        (case quoted_bytes q b e (n + 2) s of (closed, b', e', m) \<Rightarrow> (closed, b', e', \<lparr>lx_src = src, lx_pos = m\<rparr>))"
      for b e
      using less.hyps [of "skip 1 lx" "n + 1" b e] less.hyps [of "skip 2 lx" "n + 2" b e] h less.prems by auto
    consider "c = ch_backslash" | "c \<noteq> ch_backslash" "c = q" | "c \<noteq> ch_backslash" "c \<noteq> q" by blast
    then show ?thesis
    proof cases
      case 1
      have "quoted_loop q b e lx =
          quoted_loop q (b \<or> \<not> IsEscapeChar d) (line_end_at d (n + 1) b e) (skip 2 lx)"
        using 1 h less.prems
        by (simp add: quoted_loop.simps [of q b e lx] Let_def note_line_end_def line_end_at_def numeral_2_eq_2)
      then show ?thesis using 1 3 ih by simp
    next
      case 2
      have "skip 1 lx = \<lparr>lx_src = src, lx_pos = n + 1\<rparr>" using less.prems by simp
      then show ?thesis using 2 3 h less.prems by (simp add: quoted_loop.simps [of q b e lx] Let_def)
    next
      case nq: 3
      have "quoted_loop q b e lx = quoted_loop q b (line_end_at c n b e) (skip 1 lx)"
        using nq h less.prems
        by (simp add: quoted_loop.simps [of q b e lx] Let_def note_line_end_def line_end_at_def)
      then show ?thesis using nq 3 ih by simp
    qed
  qed
qed

lemma quoted_bytes_bounds:
  "quoted_bytes q b e n s = (closed, b', e', m) \<Longrightarrow>
   n \<le> m \<and> m \<le> n + length s \<and> (\<not> closed \<longrightarrow> m = n + length s) \<and>
   (\<forall>p x. e' = Some (p, x) \<longrightarrow> e = Some (p, x) \<or> n \<le> p \<and> p \<le> m)"
proof (induction q b e n s arbitrary: closed b' e' m rule: quoted_bytes.induct)
  case (3 q b e n c d s)
  consider "c = ch_backslash" | "c \<noteq> ch_backslash" "c = q" | "c \<noteq> ch_backslash" "c \<noteq> q" by blast
  then show ?case
  proof cases
    case 1
    with 3 show ?thesis by (force simp: line_end_at_def split: if_splits)
  next
    case 2
    with 3 show ?thesis by auto
  next
    case nq: 3
    with 3 show ?thesis by (force simp: line_end_at_def split: if_splits)
  qed
qed (auto simp: line_end_at_def split: if_splits)

section \<open>Every call takes something\<close>

text \<open>A call that takes \<open>n\<close> bytes, with its token spanning exactly them.\<close>

definition takes :: "Lexer \<Rightarrow> nat \<Rightarrow> Token \<times> Lexer \<Rightarrow> bool" where
  "takes lx n r =
     (0 < n \<and> n \<le> length (lx_rest lx) \<and> snd r = skip n lx \<and>
      tok_Span (fst r) = \<lparr>Offset = int (lx_pos lx), Len = int n\<rparr> \<and>
      tok_Kind (fst r) \<noteq> EOF \<and> tok_Kind (fst r) \<noteq> Invalid)"

lemma lx_span_skip [simp]: "lx_span (skip n lx) (lx_pos lx) = \<lparr>Offset = int (lx_pos lx), Len = int n\<rparr>"
  by (simp add: lx_span_def)

lemma plain_token_fields [simp]:
  "tok_Kind (plain_token k sp) = k" "tok_Span (plain_token k sp) = sp"
  "tok_Unterminated (plain_token k sp) = False" "tok_BadEscape (plain_token k sp) = False"
  "tok_KeywordID (plain_token k sp) = ''''"
  by (simp_all add: plain_token_def)

lemma emit_skip: "emit k (lx_pos lx) (skip n lx) = (plain_token k \<lparr>Offset = int (lx_pos lx), Len = int n\<rparr>, skip n lx)"
  by (simp add: emit_def)

lemma takes_emit:
  "0 < n \<Longrightarrow> n \<le> length (lx_rest lx) \<Longrightarrow> k \<noteq> EOF \<Longrightarrow> k \<noteq> Invalid \<Longrightarrow> takes lx n (emit k (lx_pos lx) (skip n lx))"
  by (simp add: takes_def emit_skip)

lemma takeWhile_drop_bound: "n \<le> length s \<Longrightarrow> n + length (takeWhile P (drop n s)) \<le> length s"
  using length_takeWhile_le [of P "drop n s"] by simp

lemma advance_skip: "advance P (skip n lx) = skip (n + length (takeWhile P (drop n (lx_rest lx)))) lx"
  by (simp add: advance_rest)

lemma takes_advance:
  "0 < n \<Longrightarrow> n \<le> length (lx_rest lx) \<Longrightarrow> k \<noteq> EOF \<Longrightarrow> k \<noteq> Invalid \<Longrightarrow>
   takes lx (n + length (takeWhile P (drop n (lx_rest lx)))) (emit k (lx_pos lx) (advance P (skip n lx)))"
  unfolding advance_skip by (rule takes_emit) (auto intro: takeWhile_drop_bound)

lemma skip_if_skip: "\<exists>m. skip_if c (skip n lx) = skip m lx \<and> n \<le> m \<and> (n \<le> length (lx_rest lx) \<longrightarrow> m \<le> length (lx_rest lx))"
proof (cases "drop n (lx_rest lx) \<noteq> [] \<and> hd (drop n (lx_rest lx)) = c")
  case True
  then show ?thesis by (intro exI [of _ "n + 1"]) (auto simp: skip_if_rest)
next
  case False
  then show ?thesis by (intro exI [of _ n]) (auto simp: skip_if_rest)
qed

lemma takes_SLNote: "2 \<le> length (lx_rest lx) \<Longrightarrow> \<exists>n. takes lx n (scanSLNote (lx_pos lx) lx)"
proof -
  assume two: "2 \<le> length (lx_rest lx)"
  let ?n = "2 + length (takeWhile (\<lambda>c. c \<noteq> ch_nl \<and> c \<noteq> ch_cr) (drop 2 (lx_rest lx)))"
  have n: "?n \<le> length (lx_rest lx)" using takeWhile_drop_bound [OF two] .
  obtain m where m: "skip_if ch_cr (skip ?n lx) = skip m lx" "?n \<le> m" "m \<le> length (lx_rest lx)"
    using skip_if_skip [of ch_cr ?n lx] n by blast
  obtain k where k: "skip_if ch_nl (skip m lx) = skip k lx" "m \<le> k" "k \<le> length (lx_rest lx)"
    using skip_if_skip [of ch_nl m lx] m(3) by blast
  have "scanSLNote (lx_pos lx) lx = emit SLNote (lx_pos lx) (skip k lx)"
    using m(1) k(1) by (simp add: scanSLNote_def advance_skip)
  then show ?thesis using takes_emit [of k lx SLNote] k m by (intro exI [of _ k]) simp
qed

lemma star_slash_skip:
  assumes "n \<le> length (lx_rest lx)"
  shows "\<exists>m. consumeUntilStarSlash (skip n lx) = (contains_sub (drop n (lx_rest lx)) ''*/'', skip m lx) \<and>
    n \<le> m \<and> m \<le> length (lx_rest lx)"
proof (cases "index_of (drop n (lx_rest lx)) ''*/''")
  case None
  then show ?thesis using assms
    by (intro exI [of _ "length (lx_rest lx)"]) (simp add: consumeUntilStarSlash_rest contains_sub_def)
next
  case (Some i)
  then have "i + 2 \<le> length (lx_rest lx) - n" using index_of_Some [OF Some] by simp
  then have "n + (i + 2) \<le> length (lx_rest lx)" using assms by linarith
  with Some show ?thesis
    by (intro exI [of _ "n + (i + 2)"]) (simp add: consumeUntilStarSlash_rest contains_sub_def)
qed

lemma takes_comments:
  "2 \<le> length (lx_rest lx) \<Longrightarrow> \<exists>n. takes lx n (scanBlockComment (lx_pos lx) lx)"
  "3 \<le> length (lx_rest lx) \<Longrightarrow> \<exists>n. takes lx n (scanMLNote (lx_pos lx) lx)"
proof -
  assume "2 \<le> length (lx_rest lx)"
  from star_slash_skip [OF this] obtain m where
    "consumeUntilStarSlash (skip 2 lx) = (contains_sub (drop 2 (lx_rest lx)) ''*/'', skip m lx)"
    "2 \<le> m" "m \<le> length (lx_rest lx)" by blast
  then show "\<exists>n. takes lx n (scanBlockComment (lx_pos lx) lx)"
    by (intro exI [of _ m]) (simp add: takes_def scanBlockComment_def)
next
  assume "3 \<le> length (lx_rest lx)"
  from star_slash_skip [OF this] obtain m where
    "consumeUntilStarSlash (skip 3 lx) = (contains_sub (drop 3 (lx_rest lx)) ''*/'', skip m lx)"
    "3 \<le> m" "m \<le> length (lx_rest lx)" by blast
  then show "\<exists>n. takes lx n (scanMLNote (lx_pos lx) lx)"
    by (intro exI [of _ m]) (simp add: takes_def scanMLNote_def)
qed

lemma Lexer_at: "lx_pos lx \<le> m \<Longrightarrow> lx\<lparr>lx_pos := m\<rparr> = skip (m - lx_pos lx) lx"
  by (simp add: skip_def)

lemma line_end_at_shift:
  "line_end_at c (n + j) b (map_option (\<lambda>(p, x). (p + j, x)) e) =
   map_option (\<lambda>(p, x). (p + j, x)) (line_end_at c n b e)"
  by (simp add: line_end_at_def)

lemma quoted_bytes_shift:
  "quoted_bytes q b (map_option (\<lambda>(p, x). (p + j, x)) e) (n + j) s =
     (case quoted_bytes q b e n s of (cl, b', e', m) \<Rightarrow> (cl, b', map_option (\<lambda>(p, x). (p + j, x)) e', m + j))"
proof (induction q b e n s rule: quoted_bytes.induct)
  case (2 q b e n c)
  show ?case using line_end_at_shift [of c n j b e] by simp
next
  case (3 q b e n c d s)
  show ?case using 3 line_end_at_shift [of c n j b e] line_end_at_shift [of d "n + 1" j b e]
    by (cases "c = ch_backslash"; cases "c = q") (simp_all add: add.commute add.left_commute)
qed simp

text \<open>A quoted literal: where the list reader stops, and the line end when it is not closed.\<close>

lemma scanQuoted_rest:
  assumes "lx_rest lx = c # s"
    and "quoted_bytes q False None 0 s = (closed, b, e, m)"
  shows "scanQuoted (lx_pos lx) q k lx =
     (if closed then
        ((plain_token k \<lparr>Offset = int (lx_pos lx), Len = int (Suc m)\<rparr>)\<lparr>tok_BadEscape := b\<rparr>, skip (Suc m) lx)
      else
        let (n, b) = (case e of None \<Rightarrow> (Suc m, b) | Some (p, x) \<Rightarrow> (Suc p, x))
        in ((plain_token k \<lparr>Offset = int (lx_pos lx), Len = int n\<rparr>)
              \<lparr>tok_Unterminated := True, tok_BadEscape := b\<rparr>, skip n lx))"
proof -
  have s: "s = drop (lx_pos lx + 1) (lx_src lx)" using assms(1) by (simp add: lx_rest_def drop_Cons_D)
  have "quoted_loop q False None (skip 1 lx) =
      (closed, b, map_option (\<lambda>(p, x). (p + (lx_pos lx + 1), x)) e, skip (Suc m) lx)"
    using quoted_loop_rest [of "skip 1 lx" "lx_pos lx + 1" "lx_src lx" q False None]
      quoted_bytes_shift [of q False "lx_pos lx + 1" None 0 s] assms(2) s
    by (simp add: skip_def)
  then show ?thesis
    by (auto simp: scanQuoted_def Let_def Lexer_at lx_span_def split: option.splits)
qed

lemma takes_quoted: "lx_rest lx = c # s \<Longrightarrow> k \<noteq> EOF \<Longrightarrow> k \<noteq> Invalid \<Longrightarrow> \<exists>n. takes lx n (scanQuoted (lx_pos lx) q k lx)"
proof -
  assume *: "lx_rest lx = c # s" "k \<noteq> EOF" "k \<noteq> Invalid"
  obtain closed b e m where r: "quoted_bytes q False None 0 s = (closed, b, e, m)" by (metis prod_cases4)
  note bd = quoted_bytes_bounds [OF r]
  show ?thesis
  proof (cases "closed \<or> e = None")
    case True
    then show ?thesis using bd * unfolding scanQuoted_rest [OF *(1) r]
      by (intro exI [of _ "Suc m"]) (auto simp: takes_def)
  next
    case False
    then obtain p x where "e = Some (p, x)" by auto
    then show ?thesis using bd * False unfolding scanQuoted_rest [OF *(1) r]
      by (intro exI [of _ "Suc p"]) (auto simp: takes_def)
  qed
qed

lemma takes_ident: "lx_rest lx \<noteq> [] \<Longrightarrow> \<exists>n. takes lx n (scanIdentOrKeyword (lx_pos lx) lx)"
proof -
  assume "lx_rest lx \<noteq> []"
  then have one: "1 \<le> length (lx_rest lx)" by (cases "lx_rest lx") auto
  show ?thesis
    using takeWhile_drop_bound [OF one, of IsIdentCont]
    by (intro exI [of _ "1 + length (takeWhile IsIdentCont (drop 1 (lx_rest lx)))"])
       (auto simp: takes_def scanIdentOrKeyword_def advance_skip Let_def split: option.split)
qed

lemma consumeDigits_skip: "consumeDigits (skip n lx) = skip (n + length (takeWhile isDigit (drop n (lx_rest lx)))) lx"
  by (simp add: consumeDigits_def advance_skip)

text \<open>The exponent of a number, if there is one: its length, with the sign and the digits.\<close>

definition exponent_len :: "string \<Rightarrow> nat" where
  "exponent_len s =
     (case s of
        [] \<Rightarrow> 0
      | e # r \<Rightarrow>
          if e \<noteq> CHR ''e'' \<and> e \<noteq> CHR ''E'' then 0
          else
            let sign = (if r \<noteq> [] \<and> (hd r = CHR ''+'' \<or> hd r = CHR ''-'') then 1 else 0);
                digits = takeWhile isDigit (drop sign r)
            in if digits = [] then 0 else 1 + sign + length digits)"

lemma exponent_len_bound: "exponent_len s \<le> length s"
proof (cases s)
  case (Cons e r)
  let ?sign = "if r \<noteq> [] \<and> (hd r = CHR ''+'' \<or> hd r = CHR ''-'') then 1 else 0 :: nat"
  have "?sign \<le> length r" by (cases r) auto
  from takeWhile_drop_bound [OF this, of isDigit] Cons show ?thesis
    by (auto simp: exponent_len_def Let_def)
qed (simp add: exponent_len_def)

lemma consumeExponent_skip:
  "n \<le> length (lx_rest lx) \<Longrightarrow>
   consumeExponent real (skip n lx) =
     (real \<or> 0 < exponent_len (drop n (lx_rest lx)), skip (n + exponent_len (drop n (lx_rest lx))) lx)"
proof -
  assume n: "n \<le> length (lx_rest lx)"
  define lx' where "lx' = skip n lx"
  have "consumeExponent real lx' = (real \<or> 0 < exponent_len (lx_rest lx'), skip (exponent_len (lx_rest lx')) lx')"
  proof (cases "lx_rest lx'")
    case Nil
    then show ?thesis using lx_rest_pos [of lx'] by (simp add: consumeExponent_def exponent_len_def)
  next
    case (Cons e r)
    then have h: "lx_pos lx' < length (lx_src lx')" "lx_src lx' ! lx_pos lx' = e"
      using lx_rest_pos [of lx'] lx_src_nth [of lx'] by auto
    have at: "lx_pos lx' + 1 + k < length (lx_src lx') \<longleftrightarrow> k < length r"
      "k < length r \<Longrightarrow> lx_src lx' ! (lx_pos lx' + 1 + k) = r ! k" for k
    proof -
      have "length r = length (lx_src lx') - lx_pos lx' - 1"
        using Cons by (metis length_Cons diff_Suc_1 length_drop lx_rest_def diff_diff_left Suc_eq_plus1)
      then show "lx_pos lx' + 1 + k < length (lx_src lx') \<longleftrightarrow> k < length r" using h(1) by auto
      show "k < length r \<Longrightarrow> lx_src lx' ! (lx_pos lx' + 1 + k) = r ! k"
        using lx_src_nth_add [of "1 + k" lx'] Cons by (simp add: add.assoc)
    qed
    show ?thesis
    proof (cases "e = CHR ''e'' \<or> e = CHR ''E''")
      case False
      with h Cons show ?thesis by (simp add: consumeExponent_def exponent_len_def)
    next
      case e: True
      define sign where "sign = (if r \<noteq> [] \<and> (hd r = CHR ''+'' \<or> hd r = CHR ''-'') then 1 else 0 :: nat)"
      have "(if lx_pos lx' + 1 < length (lx_src lx') \<and> (lx_src lx' ! (lx_pos lx' + 1) = CHR ''+'' \<or> lx_src lx' ! (lx_pos lx' + 1) = CHR ''-'')
          then lx_pos lx' + 1 + 1 else lx_pos lx' + 1) = lx_pos lx' + 1 + sign"
        using at(1) [of 0] at(2) [of 0] by (auto simp: sign_def hd_conv_nth)
      then have c: "consumeExponent real lx' =
          (if lx_pos lx' + 1 + sign \<ge> length (lx_src lx') \<or> \<not> isDigit (lx_src lx' ! (lx_pos lx' + 1 + sign)) then (real, lx')
           else (True, consumeDigits (lx'\<lparr>lx_pos := lx_pos lx' + 1 + sign\<rparr>)))"
        using h e by (auto simp: consumeExponent_def Let_def)
      have digits: "takeWhile isDigit (drop sign r) = [] \<longleftrightarrow>
          lx_pos lx' + 1 + sign \<ge> length (lx_src lx') \<or> \<not> isDigit (lx_src lx' ! (lx_pos lx' + 1 + sign))"
        using at(1) [of sign] at(2) [of sign]
        by (cases "drop sign r") (auto simp: not_less [symmetric] dest: drop_Cons_D)
      have at_sign: "consumeDigits (lx'\<lparr>lx_pos := lx_pos lx' + 1 + sign\<rparr>) =
          skip (1 + sign + length (takeWhile isDigit (drop sign r))) lx'"
        using consumeDigits_skip [of "1 + sign" lx'] Cons by (simp add: skip_def)
      have len: "exponent_len (lx_rest lx') =
          (if takeWhile isDigit (drop sign r) = [] then 0 else 1 + sign + length (takeWhile isDigit (drop sign r)))"
        using e by (auto simp: Cons exponent_len_def Let_def sign_def)
      show ?thesis
        unfolding c at_sign digits [symmetric] len by simp
    qed
  qed
  then show ?thesis by (simp add: lx'_def)
qed

text \<open>A number read from the rest of the text: whether it is a real, and its length.\<close>

definition fraction_len :: "string \<Rightarrow> nat" where
  "fraction_len s =
     (case s of
        [] \<Rightarrow> 0
      | c # r \<Rightarrow>
          let digits = takeWhile isDigit r
          in if c = CHR ''.'' \<and> digits \<noteq> [] then 1 + length digits else 0)"

definition number_len :: "string \<Rightarrow> bool \<times> nat" where
  "number_len s =
     (if hd s = CHR ''.'' then
        let n = 1 + length (takeWhile isDigit (tl s)) in (True, n + exponent_len (drop n s))
      else
        let i = length (takeWhile isDigit s);
            f = fraction_len (drop i s);
            x = exponent_len (drop (i + f) s)
        in (0 < f \<or> 0 < x, i + f + x))"

lemma fraction_len_bound: "fraction_len s \<le> length s"
  using length_takeWhile_le by (auto simp: fraction_len_def Let_def split: list.split)

lemma bound_add: "n \<le> length s \<Longrightarrow> k \<le> length (drop n s) \<Longrightarrow> n + k \<le> length s"
  by simp

lemma number_len_bound:
  assumes "s \<noteq> []"
  shows "snd (number_len s) \<le> length s"
proof -
  let ?n = "1 + length (takeWhile isDigit (tl s))" and ?i = "length (takeWhile isDigit s)"
  have n: "?n \<le> length s" using assms length_takeWhile_le [of isDigit "tl s"] by (cases s) auto
  have "?n + exponent_len (drop ?n s) \<le> length s"
    using n exponent_len_bound by (rule bound_add)
  moreover have f: "?i + fraction_len (drop ?i s) \<le> length s"
    using length_takeWhile_le fraction_len_bound by (rule bound_add)
  have "?i + fraction_len (drop ?i s) + exponent_len (drop (?i + fraction_len (drop ?i s)) s) \<le> length s"
    using f exponent_len_bound by (rule bound_add)
  ultimately show ?thesis by (simp add: number_len_def Let_def)
qed

lemma number_len_pos:
  "s \<noteq> [] \<Longrightarrow> isDigit (hd s) \<or> hd s = CHR ''.'' \<Longrightarrow> 0 < snd (number_len s)"
  by (cases s) (auto simp: number_len_def Let_def)

lemma consumeDigits_rest: "consumeDigits lx = skip (length (takeWhile isDigit (lx_rest lx))) lx"
  using consumeDigits_skip [of 0 lx] by simp

lemma fraction_test:
  assumes "i \<le> length (lx_rest lx)"
  shows "(lx_pos (skip i lx) < length (lx_src (skip i lx)) \<and> lx_src (skip i lx) ! lx_pos (skip i lx) = CHR ''.'' \<and>
      lx_pos (skip i lx) + 1 < length (lx_src (skip i lx)) \<and> isDigit (lx_src (skip i lx) ! (lx_pos (skip i lx) + 1)))
     \<longleftrightarrow> 0 < fraction_len (drop i (lx_rest lx))"
proof -
  let ?lx = "skip i lx" and ?s = "drop i (lx_rest lx)"
  have "lx_pos ?lx + 1 < length (lx_src ?lx) \<longleftrightarrow> 1 < length ?s" by (auto simp: lx_rest_def)
  moreover have "1 < length ?s \<Longrightarrow> lx_src ?lx ! (lx_pos ?lx + 1) = ?s ! 1"
    using lx_src_nth_add [of 1 ?lx] by simp
  moreover have "lx_pos ?lx < length (lx_src ?lx) \<longleftrightarrow> ?s \<noteq> []" using lx_rest_pos [of ?lx] by simp
  moreover have "?s \<noteq> [] \<Longrightarrow> lx_src ?lx ! lx_pos ?lx = hd ?s" using lx_src_nth [of ?lx] by simp
  ultimately show ?thesis
    unfolding fraction_len_def by (cases ?s rule: remdups_adj.cases) (auto simp: Let_def)
qed

lemma scanNumber_rest:
  assumes "lx_rest lx \<noteq> []"
  shows "scanNumber (lx_pos lx) lx =
     (case number_len (lx_rest lx) of (r, n) \<Rightarrow> emit (if r then Real else Decimal) (lx_pos lx) (skip n lx))"
proof -
  let ?s = "lx_rest lx"
  have hd: "lx_src lx ! lx_pos lx = hd ?s" using lx_src_nth [OF assms] .
  show ?thesis
  proof (cases "hd ?s = CHR ''.''")
    case True
    let ?n = "1 + length (takeWhile isDigit (drop 1 ?s))"
    have "?n \<le> length ?s" using assms takeWhile_drop_bound [of 1 ?s isDigit] by (cases ?s) auto
    then show ?thesis using True hd
      by (simp add: scanNumber_def Let_def consumeDigits_skip consumeExponent_skip number_len_def drop_Suc)
  next
    case False
    define i where "i = length (takeWhile isDigit ?s)"
    have i: "i \<le> length ?s" unfolding i_def by (rule length_takeWhile_le)
    let ?f = "fraction_len (drop i ?s)"
    have f: "i + ?f \<le> length ?s" using i fraction_len_bound by (rule bound_add)
    have digits: "consumeDigits lx = skip i lx" by (simp add: i_def consumeDigits_rest)
    have frac: "(if 0 < ?f then (True, consumeDigits (skip 1 (skip i lx))) else (False, skip i lx)) = (0 < ?f, skip (i + ?f) lx)"
    proof (cases "0 < ?f")
      case True
      then obtain c r where "drop i ?s = c # r" "?f = 1 + length (takeWhile isDigit r)"
        by (auto simp: fraction_len_def Let_def split: list.splits if_splits)
      then show ?thesis using drop_Cons_D [of i ?s c r]
        by (simp add: consumeDigits_skip del: One_nat_def) simp
    qed simp
    show ?thesis
      unfolding scanNumber_def hd digits Let_def fraction_test [OF i]
      using False f frac i_def
      by (simp add: consumeExponent_skip number_len_def Let_def)
  qed
qed

lemma takes_number:
  "lx_rest lx \<noteq> [] \<Longrightarrow> isDigit (hd (lx_rest lx)) \<or> hd (lx_rest lx) = CHR ''.'' \<Longrightarrow>
   \<exists>n. takes lx n (scanNumber (lx_pos lx) lx)"
  using number_len_bound [of "lx_rest lx"] number_len_pos [of "lx_rest lx"]
  by (cases "number_len (lx_rest lx)") (auto simp: scanNumber_rest intro!: exI takes_emit)

lemma takes_if:
  "(b \<Longrightarrow> \<exists>n. takes lx n x) \<Longrightarrow> (\<not> b \<Longrightarrow> \<exists>n. takes lx n y) \<Longrightarrow> \<exists>n. takes lx n (if b then x else y)"
  by simp

lemma takes_one: "lx_rest lx \<noteq> [] \<Longrightarrow> k \<noteq> EOF \<Longrightarrow> k \<noteq> Invalid \<Longrightarrow> \<exists>n. takes lx n (emit k (lx_pos lx) (skip 1 lx))"
  by (cases "lx_rest lx") (auto intro!: exI takes_emit)

lemma takes_two:
  "peek lx 1 = c \<Longrightarrow> c \<noteq> CHR 0x00 \<Longrightarrow> k \<noteq> EOF \<Longrightarrow> k \<noteq> Invalid \<Longrightarrow> \<exists>n. takes lx n (emit k (lx_pos lx) (skip 2 lx))"
  using peek_in_range [of lx 1 c] by (intro exI [of _ 2] takes_emit) auto

lemma takes_three:
  "peek lx 2 = c \<Longrightarrow> c \<noteq> CHR 0x00 \<Longrightarrow> k \<noteq> EOF \<Longrightarrow> k \<noteq> Invalid \<Longrightarrow> \<exists>n. takes lx n (emit k (lx_pos lx) (skip 3 lx))"
  using peek_in_range [of lx 2 c] by (intro exI [of _ 3] takes_emit) auto

lemma takes_error: "lx_rest lx \<noteq> [] \<Longrightarrow> \<exists>n. takes lx n (scanError (lx_pos lx) lx)"
proof -
  assume "lx_rest lx \<noteq> []"
  then have "1 \<le> length (lx_rest lx)" by (cases "lx_rest lx") auto
  from takes_advance [OF _ this, of Error "\<lambda>c. \<not> canStartToken c"] show ?thesis
    unfolding scanError_def by (intro exI) simp
qed

lemma singleCharKind_proper: "singleCharKind c = Some k \<Longrightarrow> k \<noteq> EOF \<and> k \<noteq> Invalid"
  by (auto simp: singleCharKind_def split: if_splits)

lemma takes_operator:
  assumes "lx_rest lx \<noteq> []"
  shows "\<exists>n. takes lx n (scanOperator (lx_pos lx) lx)"
proof -
  have single: "\<exists>n. takes lx n (case singleCharKind c of Some k \<Rightarrow> emit k (lx_pos lx) (skip 1 lx) | None \<Rightarrow> scanError (lx_pos lx) lx)" for c
    using takes_error [OF assms] takes_one [OF assms] singleCharKind_proper by (auto split: option.split)
  show ?thesis
    unfolding scanOperator_def Let_def
    by (intro takes_if single takes_one [OF assms])
       (((elim conjE)?, erule takes_two takes_three, (simp; fail), (simp; fail), (simp; fail)) | (simp; fail))+
qed

lemma takes_Next:
  assumes "lx_rest lx \<noteq> []"
  shows "\<exists>n. takes lx n (Next lx)"
proof -
  let ?c = "lx_src lx ! lx_pos lx"
  have c: "?c = hd (lx_rest lx)" using assms by (rule lx_src_nth)
  have two: "2 \<le> length (lx_rest lx)" if "peek lx 1 = x" "x \<noteq> CHR 0x00" for x using peek_in_range [OF that] by simp
  have three: "3 \<le> length (lx_rest lx)" if "peek lx 2 = x" "x \<noteq> CHR 0x00" for x using peek_in_range [OF that] by simp
  have ws: "\<exists>n. takes lx n (scanWhitespace (lx_pos lx) lx)" if "is_space ?c"
    using that assms c unfolding scanWhitespace_def advance_rest
    by (cases "lx_rest lx") (auto intro!: exI takes_emit simp: Suc_le_eq length_takeWhile_le le_imp_less_Suc)
  have quoted: "\<exists>n. takes lx n (scanQuoted (lx_pos lx) q k lx)" if "k \<noteq> EOF" "k \<noteq> Invalid" for q k
    using assms takes_quoted that by (cases "lx_rest lx") auto
  show ?thesis
    unfolding Next_def Let_def
    by (intro takes_if takes_ident [OF assms] takes_operator [OF assms] quoted takes_number [OF assms] takes_SLNote takes_comments ws)
       (use assms c lx_rest_Nil_iff [of lx] in \<open>auto simp: is_space_def isDigit_def intro: two three\<close>)
qed

section \<open>Scanners\<close>

text \<open>
  What a client of a pull scanner relies on: at the end it stays there with an end token, before
  it each call takes at least one unit off what is left and accounts for it in its token. The
  client then knows how many calls it needs and that the tokens account for everything.
\<close>

locale scanner =
  fixes call :: "'s \<Rightarrow> 't \<times> 's" and left :: "'s \<Rightarrow> nat" and width :: "'t \<Rightarrow> nat" and at_end :: "'t \<Rightarrow> bool"
  assumes progress: "0 < left s \<Longrightarrow> call s = (t, s') \<Longrightarrow> 0 < width t \<and> left s = width t + left s' \<and> \<not> at_end t"
    and stays: "left s = 0 \<Longrightarrow> call s = (t, s') \<Longrightarrow> s' = s \<and> at_end t \<and> width t = 0"
begin

fun run :: "nat \<Rightarrow> 's \<Rightarrow> 't list \<times> 's" where
  "run 0 s = ([], s)"
| "run (Suc n) s = (let (t, s') = call s; (ts, s'') = run n s' in (t # ts, s''))"

lemma at_end_iff: "at_end (fst (call s)) \<longleftrightarrow> left s = 0"
  using progress [of s] stays [of s] by (cases "call s") (auto simp: neq0_conv [symmetric] simp del: neq0_conv)

lemma run_accounts: "run n s = (ts, s') \<Longrightarrow> left s = sum_list (map width ts) + left s'"
proof (induction n arbitrary: s ts)
  case (Suc n)
  obtain t u where c: "call s = (t, u)" by fastforce
  obtain ts' where r: "run n u = (ts', s')" "ts = t # ts'" using Suc.prems c by (auto simp: Let_def split: prod.splits)
  with Suc.IH [OF r(1)] progress [OF _ c] stays [OF _ c] show ?case by (cases "left s = 0") auto
qed simp

lemma run_ends: "left s \<le> n \<Longrightarrow> left (snd (run n s)) = 0"
proof (induction n arbitrary: s)
  case (Suc n)
  obtain t u where c: "call s = (t, u)" by fastforce
  have "left u \<le> n" using progress [OF _ c] stays [OF _ c] Suc.prems by (cases "left s = 0") auto
  with Suc.IH [of u] c show ?case by (cases "run n u") simp
qed simp

end

lemma takes_width:
  "takes lx n (t, lx') \<Longrightarrow> length (lx_rest lx) = n + length (lx_rest lx') \<and> Len (tok_Span t) = int n"
  by (auto simp: takes_def)

interpretation lexer: scanner Next "\<lambda>lx. length (lx_rest lx)" "\<lambda>t. nat (Len (tok_Span t))" "\<lambda>t. tok_Kind t = EOF"
proof
  fix lx t lx'
  assume *: "0 < length (lx_rest lx)" "Next lx = (t, lx')"
  then obtain n where n: "takes lx n (t, lx')" using takes_Next [of lx] by auto
  with takes_width [OF n] show "0 < nat (Len (tok_Span t)) \<and>
      length (lx_rest lx) = nat (Len (tok_Span t)) + length (lx_rest lx') \<and> tok_Kind t \<noteq> EOF"
    by (auto simp: takes_def)
next
  fix lx t lx'
  assume "length (lx_rest lx) = 0" "Next lx = (t, lx')"
  then show "lx' = lx \<and> tok_Kind t = EOF \<and> nat (Len (tok_Span t)) = 0"
    using lx_rest_pos [of lx] by (auto simp: Next_def)
qed

section \<open>The tokens of a text\<close>

text \<open>Pulling until the end, which every client of the lexer does.\<close>

function tokens :: "Lexer \<Rightarrow> Token list" where
  "tokens lx = (if lx_rest lx = [] then [] else let (t, lx') = Next lx in t # tokens lx')"
  by pat_completeness auto
termination
proof (relation "measure (\<lambda>lx. length (lx_rest lx))", simp)
  fix lx x t lx'
  assume "lx_rest lx \<noteq> []" "x = Next lx" "(t, lx') = x"
  then show "(lx', lx) \<in> measure (\<lambda>lx. length (lx_rest lx))"
    using lexer.progress [of lx t lx'] by simp
qed

declare tokens.simps [simp del]

lemma tokens_takes:
  assumes "lx_rest lx \<noteq> []"
  obtains t n where "takes lx n (t, skip n lx)" "Next lx = (t, skip n lx)" "tokens lx = t # tokens (skip n lx)"
proof -
  obtain n where n: "takes lx n (Next lx)" using takes_Next [OF assms] by blast
  obtain t lx' where c: "Next lx = (t, lx')" by fastforce
  with n have "lx' = skip n lx" by (simp add: takes_def)
  with n c that [of n t] assms show ?thesis by (simp add: tokens.simps [of lx])
qed

lemma tokens_tile:
  "lx_pos lx \<le> length (lx_src lx) \<Longrightarrow>
   \<exists>pieces. map (\<lambda>t. source_Text (lx_src lx) (tok_Span t)) (tokens lx) = map Some pieces \<and>
     concat pieces = lx_rest lx \<and> [] \<notin> set pieces"
proof (induction "length (lx_rest lx)" arbitrary: lx rule: less_induct)
  case less
  show ?case
  proof (cases "lx_rest lx = []")
    case True
    then show ?thesis by (intro exI [of _ "[]"]) (simp add: tokens.simps [of lx])
  next
    case False
    from tokens_takes [OF this] obtain t n where
      t: "takes lx n (t, skip n lx)" "tokens lx = t # tokens (skip n lx)" by metis
    then have n: "0 < n" "n \<le> length (lx_rest lx)" "tok_Span t = \<lparr>Offset = int (lx_pos lx), Len = int n\<rparr>"
      by (auto simp: takes_def)
    then have in_src: "lx_pos lx + n \<le> length (lx_src lx)" using less.prems by (simp add: lx_rest_def)
    have "length (lx_rest (skip n lx)) < length (lx_rest lx)" using n by simp
    from less.hyps [OF this] in_src obtain ps where ps:
      "map (\<lambda>t. source_Text (lx_src lx) (tok_Span t)) (tokens (skip n lx)) = map Some ps"
      "concat ps = drop n (lx_rest lx)" "[] \<notin> set ps" by auto
    have "source_Text (lx_src lx) (tok_Span t) = Some (take n (lx_rest lx))"
      using n in_src by (simp add: source_Text_def span_End_def lx_rest_def)
    with ps t n False show ?thesis
      by (intro exI [of _ "take n (lx_rest lx) # ps"]) auto
  qed
qed

lemma tokens_run: "length (lx_rest lx) \<le> n \<Longrightarrow> \<exists>k. fst (lexer.run n lx) = tokens lx @ k \<and> (\<forall>t \<in> set k. tok_Kind t = EOF)"
proof (induction n arbitrary: lx)
  case 0
  then show ?case by (simp add: tokens.simps [of lx])
next
  case (Suc n)
  show ?case
  proof (cases "lx_rest lx = []")
    case True
    obtain t where t: "Next lx = (t, lx)" "tok_Kind t = EOF"
      using lexer.stays [of lx] True by (metis list.size(3) prod.collapse)
    with Suc.IH [of lx] True obtain k where "fst (lexer.run n lx) = k" "\<forall>t \<in> set k. tok_Kind t = EOF"
      by (auto simp: tokens.simps [of lx])
    with t True show ?thesis by (auto simp: tokens.simps [of lx] Let_def split: prod.splits)
  next
    case False
    from tokens_takes [OF False] obtain t m where
      t: "takes lx m (t, skip m lx)" "Next lx = (t, skip m lx)" "tokens lx = t # tokens (skip m lx)" by metis
    have "length (lx_rest (skip m lx)) \<le> n" using t(1) Suc.prems by (auto simp: takes_def)
    from Suc.IH [OF this] t show ?thesis by (auto simp: Let_def split: prod.splits)
  qed
qed

lemma length_tokens: "length (tokens lx) \<le> length (lx_rest lx)"
proof (induction lx rule: tokens.induct)
  case (1 lx)
  show ?case
  proof (cases "lx_rest lx = []")
    case False
    from tokens_takes [OF False] obtain t n where
      t: "takes lx n (t, skip n lx)" "Next lx = (t, skip n lx)" "tokens lx = t # tokens (skip n lx)" by metis
    with "1" [OF False t(2) [symmetric] refl] show ?thesis by (auto simp: takes_def)
  qed (simp add: tokens.simps [of lx])
qed

text \<open>
  C28: scanning ends and loses nothing: after as many calls as the text has bytes the lexer has answered
  every token and then only the end of the text, at which it stays; and the texts the tokens' spans cover,
  in order, none of them empty, are the whole text.
\<close>

theorem tokens_tile_text:
  "(\<exists>ends. fst (lexer.run (length src) (New src)) = tokens (New src) @ ends \<and> filter (\<lambda>t. tok_Kind t \<noteq> EOF) ends = []) \<and>
   length (tokens (New src)) \<le> length src \<and>
   (let lx = snd (lexer.run (length src) (New src)) in tok_Kind (fst (Next lx)) = EOF \<and> snd (Next lx) = lx) \<and>
   (\<exists>pieces. map (\<lambda>t. source_Text src (tok_Span t)) (tokens (New src)) = map Some pieces \<and>
     concat pieces = src \<and> [] \<notin> set pieces)"
proof -
  have "length (lx_rest (snd (lexer.run (length src) (New src)))) = 0" by (rule lexer.run_ends) simp
  moreover have "\<exists>pieces. map (\<lambda>t. source_Text src (tok_Span t)) (tokens (New src)) = map Some pieces \<and>
     concat pieces = src \<and> [] \<notin> set pieces"
    using tokens_tile [of "New src"] by (simp add: New_def lx_rest_def)
  ultimately show ?thesis
    using tokens_run [of "New src" "length src"] length_tokens [of "New src"]
      lexer.stays [of "snd (lexer.run (length src) (New src))"]
    by (fastforce simp: Let_def filter_empty_conv prod_eq_iff)
qed

section \<open>Words\<close>

lemma Next_word:
  assumes "IsIdentifier w" "r = [] \<or> \<not> IsIdentCont (hd r)"
  shows "Next (New (w @ r)) =
     ((plain_token (if IsKeyword w then Keyword else Identifier) \<lparr>Offset = 0, Len = int (length w)\<rparr>)
        \<lparr>tok_KeywordID := (if IsKeyword w then w else '''')\<rparr>, skip (length w) (New (w @ r)))"
proof -
  let ?lx = "New (w @ r)"
  obtain c cs where w: "w = c # cs" "IsIdentStart c" "list_all IsIdentCont cs"
    using assms(1) by (auto simp: IsIdentifier_def split: list.splits)
  have dispatch: "c \<noteq> CHR '' ''" "c \<noteq> ch_tab" "c \<noteq> ch_cr" "c \<noteq> ch_nl" "c \<noteq> CHR ''/''"
    using w(2) by (auto simp: IsIdentStart_def in_range_def less_eq_char_def)
  have "takeWhile IsIdentCont (cs @ r) = cs" using w(3) assms(2) by (rule takeWhile_append_stop)
  then have adv: "advance IsIdentCont (skip 1 ?lx) = skip (length w) ?lx"
    by (simp add: advance_skip w(1))
  have "Next ?lx = scanIdentOrKeyword 0 ?lx"
    using w dispatch by (simp add: Next_def Let_def)
  moreover have "lx_span (skip (length w) ?lx) 0 = \<lparr>Offset = 0, Len = int (length w)\<rparr>"
    by (simp add: lx_span_def)
  ultimately show ?thesis
    by (simp add: scanIdentOrKeyword_def Let_def adv [unfolded One_nat_def] keyword_map_def Keywords_def IsKeyword_def plain_token_def)
qed

section \<open>Quoted literals\<close>

lemma quoted_bytes_step:
  "c \<noteq> ch_backslash \<Longrightarrow> c \<noteq> q \<Longrightarrow> quoted_bytes q b e n (c # s) = quoted_bytes q b (line_end_at c n b e) (n + 1) s"
  by (cases s) auto

lemma quoted_bytes_stop: "q \<noteq> ch_backslash \<Longrightarrow> quoted_bytes q b e n (q # s) = (True, b, e, n + 1)"
  by (cases s) auto

text \<open>Bytes between quotes: every backslash followed by a byte, and no quote of its own.\<close>

fun quotable :: "char \<Rightarrow> string \<Rightarrow> bool" where
  "quotable q [] = True"
| "quotable q [c] = (c \<noteq> q \<and> c \<noteq> ch_backslash)"
| "quotable q (c # d # s) = (if c = ch_backslash then quotable q s else c \<noteq> q \<and> quotable q (d # s))"

lemma quotable_raw: "quotable ch_apos = raw_quotable"
proof
  show "quotable ch_apos s = raw_quotable s" for s by (induction s rule: raw_quotable.induct) auto
qed

fun bad_escape :: "string \<Rightarrow> bool" where
  "bad_escape [] = False"
| "bad_escape [c] = False"
| "bad_escape (c # d # s) = (if c = ch_backslash then \<not> IsEscapeChar d \<or> bad_escape s else bad_escape (d # s))"

lemma bad_escape_step: "c \<noteq> ch_backslash \<Longrightarrow> bad_escape (c # s) = bad_escape s"
  by (cases s) auto

lemma quoted_bytes_closed_iff:
  "q \<noteq> ch_backslash \<Longrightarrow>
   (\<exists>b' e'. quoted_bytes q b e n s = (True, b', e', m)) \<longleftrightarrow>
   (\<exists>v r. s = v @ q # r \<and> quotable q v \<and> m = n + length v + 1)"
proof (induction q b e n s rule: quoted_bytes.induct)
  case (2 q b e n c)
  show ?case
  proof (cases "c = q")
    case True
    with 2 show ?thesis by (auto simp: Cons_eq_append_conv)
  next
    case False
    then show ?thesis by (auto simp: Cons_eq_append_conv)
  qed
next
  case (3 q b e n c d s)
  consider (bs) "c = ch_backslash" | (quote) "c \<noteq> ch_backslash" "c = q" | (other) "c \<noteq> ch_backslash" "c \<noteq> q" by blast
  then show ?case
  proof cases
    case bs
    have "(\<exists>v r. c # d # s = v @ q # r \<and> quotable q v \<and> m = n + length v + 1) \<longleftrightarrow>
        (\<exists>v r. s = v @ q # r \<and> quotable q v \<and> m = n + 2 + length v + 1)" (is "?l \<longleftrightarrow> ?r")
    proof
      assume ?l
      then obtain v r where v: "c # d # s = v @ q # r" "quotable q v" "m = n + length v + 1" by blast
      with bs "3.prems" show ?r by (cases v rule: remdups_adj.cases) auto
    next
      assume ?r
      then obtain v r where "s = v @ q # r" "quotable q v" "m = n + 2 + length v + 1" by blast
      with bs show ?l by (intro exI [of _ "c # d # v"] exI [of _ r]) auto
    qed
    with bs 3 show ?thesis by simp
  next
    case quote
    with "3.prems" show ?thesis
    proof -
      have "v = []" if "c # d # s = v @ q # r" "quotable q v" for v r
        using that quote by (cases v rule: remdups_adj.cases) auto
      then show ?thesis using quote by fastforce
    qed
  next
    case other
    have "(\<exists>v r. c # d # s = v @ q # r \<and> quotable q v \<and> m = n + length v + 1) \<longleftrightarrow>
        (\<exists>v r. d # s = v @ q # r \<and> quotable q v \<and> m = n + 1 + length v + 1)" (is "?l \<longleftrightarrow> ?r")
    proof
      assume ?l
      then obtain v r where v: "c # d # s = v @ q # r" "quotable q v" "m = n + length v + 1" by blast
      with other obtain v' where v': "v = c # v'" by (cases v) auto
      have "quotable q v'" using v(2) v' other by (cases v') auto
      with v v' show ?r by auto
    next
      assume ?r
      then obtain v r where v: "d # s = v @ q # r" "quotable q v" "m = n + 1 + length v + 1" by blast
      have "quotable q (c # v)" using v(2) other by (cases v) auto
      with v show ?l by (intro exI [of _ "c # v"] exI [of _ r]) auto
    qed
    with other 3 show ?thesis by simp
  qed
qed simp

lemma quoted_bytes_closed_flag:
  "q \<noteq> ch_backslash \<Longrightarrow> quotable q v \<Longrightarrow>
   \<exists>e'. quoted_bytes q b e n (v @ q # r) = (True, b \<or> bad_escape v, e', n + length v + 1)"
proof (induction v arbitrary: b e n rule: bad_escape.induct)
  case (2 c)
  then show ?case by (auto simp: quoted_bytes_stop)
next
  case (3 c d v)
  show ?case
  proof (cases "c = ch_backslash")
    case True
    with "3.prems" "3.IH"(1) [OF True, of "b \<or> \<not> IsEscapeChar d" "line_end_at d (n + 1) b e" "n + 2"]
    show ?thesis by (auto simp: disj_assoc)
  next
    case False
    with "3.prems" "3.IH"(2) [OF False, of b "line_end_at c n b e" "n + 1"] show ?thesis by auto
  qed
qed (auto simp: quoted_bytes_stop)

end
