(* ===== verification/Lexer_Texts.thy ===== *)
theory Lexer_Texts
  imports Lexer_Correct
begin

text \<open>
  The texts of the notation as tokens: quoted names, string literals and comments as the writers
  of \<open>internal/syntax/source\<close> produce them, words, numbers, and the two questions
  \<open>name.go\<close> and \<open>number.go\<close> answer by scanning one token.
\<close>

section \<open>Quoted tokens\<close>

definition quoted_token :: "Kind \<Rightarrow> nat \<Rightarrow> bool \<Rightarrow> Token" where
  "quoted_token k n bad = (plain_token k \<lparr>Offset = 0, Len = int n\<rparr>)\<lparr>tok_BadEscape := bad\<rparr>"

lemma Next_quote:
  "Next (New (ch_apos # s)) = scanQuoted 0 ch_apos UnrestrictedName (New (ch_apos # s))"
  "Next (New (ch_quote # s)) = scanQuoted 0 ch_quote String (New (ch_quote # s))"
  by (simp_all add: Next_def Let_def IsIdentStart_def in_range_def less_eq_char_def)

lemma Next_quoted_closed:
  assumes "(q, k) = (ch_apos, UnrestrictedName) \<or> (q, k) = (ch_quote, String)" and "quotable q v"
  shows "Next (New (q # v @ q # r)) =
    (quoted_token k (length v + 2) (bad_escape v), skip (length v + 2) (New (q # v @ q # r)))"
proof -
  have q: "q \<noteq> ch_backslash" using assms(1) by auto
  obtain e where "quoted_bytes q False None 0 (v @ q # r) = (True, bad_escape v, e, length v + 1)"
    using quoted_bytes_closed_flag [OF q assms(2), of False None 0 r] by auto
  from scanQuoted_rest [OF _ this, of "New (q # v @ q # r)"]
  have "scanQuoted 0 q k (New (q # v @ q # r)) =
      (quoted_token k (length v + 2) (bad_escape v), skip (length v + 2) (New (q # v @ q # r)))"
    by (simp add: quoted_token_def)
  then show ?thesis using assms(1) Next_quote by auto
qed

lemma quotable_byte: "q = ch_quote \<or> q = ch_apos \<Longrightarrow> quotable q s \<Longrightarrow> quotable q (quoted_byte q c @ s)"
  by (cases s) (auto simp: quoted_byte_def)

lemma quotable_text: "q = ch_quote \<or> q = ch_apos \<Longrightarrow> quotable q (concat (map (quoted_byte q) v))"
  by (induction v) (simp_all add: quotable_byte)

lemma bad_escape_byte: "q = ch_quote \<or> q = ch_apos \<Longrightarrow> bad_escape (quoted_byte q c @ s) = bad_escape s"
  by (auto simp: quoted_byte_def IsEscapeChar_def bad_escape_step)

lemma bad_escape_text: "q = ch_quote \<or> q = ch_apos \<Longrightarrow> \<not> bad_escape (concat (map (quoted_byte q) v))"
  by (induction v) (simp_all add: bad_escape_byte)

text \<open>
  The text written for a string literal or a quoted name, whatever follows it, is scanned as
  one token of its kind, closed and without an invalid escape.
\<close>

lemma quotedText_one_token:
  "Next (New (StringText v @ r)) =
     (plain_token String \<lparr>Offset = 0, Len = int (length (StringText v))\<rparr>,
      \<lparr>lx_src = StringText v @ r, lx_pos = length (StringText v)\<rparr>) \<and>
   Next (New (UnrestrictedNameText v @ r)) =
     (plain_token UnrestrictedName \<lparr>Offset = 0, Len = int (length (UnrestrictedNameText v))\<rparr>,
      \<lparr>lx_src = UnrestrictedNameText v @ r, lx_pos = length (UnrestrictedNameText v)\<rparr>)"
  using Next_quoted_closed [of ch_quote String "concat (map (quoted_byte ch_quote) v)" r]
    Next_quoted_closed [of ch_apos UnrestrictedName "concat (map (quoted_byte ch_apos) v)" r]
    quotable_text [of ch_quote v] quotable_text [of ch_apos v]
    bad_escape_text [of ch_quote v] bad_escape_text [of ch_apos v]
  by (simp add: StringText_def UnrestrictedNameText_def quotedText_def quoted_token_def skip_def New_def plain_token_def)

section \<open>Invalid escapes\<close>

lemma invalid_escapes_bad: "i \<le> length raw \<Longrightarrow> invalid_escapes sp raw i \<noteq> [] \<longleftrightarrow> bad_escape (drop i raw)"
proof (induction "length raw - i" arbitrary: i rule: less_induct)
  case less
  show ?case
  proof (cases "drop i raw" rule: remdups_adj.cases)
    case 1
    then show ?thesis by (simp add: invalid_escapes.simps [of sp raw i])
  next
    case (2 c)
    with drop_Cons_D [of i raw c "[]"] show ?thesis by (simp add: invalid_escapes.simps [of sp raw i])
  next
    case (3 c d s)
    note h = drop_Cons_D [OF 3] drop_Cons_D [of "Suc i" raw d s]
    then have "length raw - (i + 1) < length raw - i" "i + 1 \<le> length raw"
      "length raw - (i + 2) < length raw - i" "i + 2 \<le> length raw" by auto
    with h less.hyps [of "i + 1"] less.hyps [of "i + 2"]
    have "invalid_escapes sp raw (i + 1) \<noteq> [] \<longleftrightarrow> bad_escape (d # s)"
      "invalid_escapes sp raw (i + 2) \<noteq> [] \<longleftrightarrow> bad_escape s" by simp_all
    with h 3 show ?thesis by (simp add: invalid_escapes.simps [of sp raw i])
  qed
qed

lemma InvalidEscapes_bad: "InvalidEscapes sp raw \<noteq> [] \<longleftrightarrow> bad_escape raw"
  using invalid_escapes_bad [of 0 raw sp] by (simp add: InvalidEscapes_def)

text \<open>What the quoted loop knows when it meets no closing quote: the flag, and the flag at the first line end.\<close>

lemma bad_escape_snoc_quote: "q \<noteq> ch_backslash \<Longrightarrow> quotable q v \<Longrightarrow> bad_escape (v @ [q]) = bad_escape v"
proof (induction v rule: bad_escape.induct)
  case (3 c d s)
  then show ?case by (auto split: if_splits)
qed auto

lemma take_two: "n + 2 \<le> p \<Longrightarrow> take (p - n) (c # d # s) = c # d # take (p - (n + 2)) s"
  by (simp add: take_Cons' Suc_diff_Suc)

lemma take_one: "n + 1 \<le> p \<Longrightarrow> take (p - n) (c # s) = c # take (p - (n + 1)) s"
  by (simp add: take_Cons')

lemma quoted_bytes_open_flag:
  "quoted_bytes q b e n s = (False, b', e', m) \<Longrightarrow>
   b' = (b \<or> bad_escape s) \<and> (e \<noteq> None \<longrightarrow> e' = e) \<and>
   (\<forall>p x. e = None \<and> e' = Some (p, x) \<longrightarrow> n \<le> p \<and> p < n + length s \<and> x = (b \<or> bad_escape (take (p - n) s)))"
proof (induction q b e n s arbitrary: b' e' m rule: quoted_bytes.induct)
  case (2 q b e n c)
  then show ?case by (auto simp: line_end_at_def split: if_splits)
next
  case (3 q b e n c d s)
  show ?case
  proof (cases "c = ch_backslash")
    case True
    from "3.IH"(1) [OF True, of b' e' m] "3.prems" True
    have ih: "b' = (b \<or> \<not> IsEscapeChar d \<or> bad_escape s)"
      "line_end_at d (n + 1) b e \<noteq> None \<Longrightarrow> e' = line_end_at d (n + 1) b e"
      "\<And>p x. line_end_at d (n + 1) b e = None \<Longrightarrow> e' = Some (p, x) \<Longrightarrow> n + 2 \<le> p \<and> p < n + 2 + length s \<and>
         x = (b \<or> \<not> IsEscapeChar d \<or> bad_escape (take (p - (n + 2)) s))"
      by (simp_all add: disj_assoc)
    have "n \<le> p \<and> p < n + length (c # d # s) \<and> x = (b \<or> bad_escape (take (p - n) (c # d # s)))"
      if "e = None" "e' = Some (p, x)" for p x
    proof (cases "line_end_at d (n + 1) b e = None")
      case None: True
      with ih(3) [OF this that(2)] True show ?thesis by (auto simp: take_two)
    next
      case False
      with ih(2) that show ?thesis by (auto simp: line_end_at_def split: if_splits)
    qed
    moreover have "e \<noteq> None \<Longrightarrow> e' = e" using ih(2) by (auto simp: line_end_at_def)
    ultimately show ?thesis using ih(1) True by auto
  next
    case False
    with "3.prems" have cq: "c \<noteq> q" by auto
    from "3.IH"(2) [OF False cq, of b' e' m] "3.prems" False cq
    have ih: "b' = (b \<or> bad_escape (d # s))"
      "line_end_at c n b e \<noteq> None \<Longrightarrow> e' = line_end_at c n b e"
      "\<And>p x. line_end_at c n b e = None \<Longrightarrow> e' = Some (p, x) \<Longrightarrow> n + 1 \<le> p \<and> p < n + 1 + length (d # s) \<and>
         x = (b \<or> bad_escape (take (p - (n + 1)) (d # s)))"
      by simp_all
    have "n \<le> p \<and> p < n + length (c # d # s) \<and> x = (b \<or> bad_escape (take (p - n) (c # d # s)))"
      if "e = None" "e' = Some (p, x)" for p x
    proof (cases "line_end_at c n b e = None")
      case True
      with ih(3) [OF this that(2)] False show ?thesis by (auto simp: take_one bad_escape_step)
    next
      case some: False
      with ih(2) that show ?thesis by (auto simp: line_end_at_def split: if_splits)
    qed
    moreover have "e \<noteq> None \<Longrightarrow> e' = e" using ih(2) by (auto simp: line_end_at_def)
    ultimately show ?thesis using ih(1) False by (auto simp: bad_escape_step)
  qed
qed auto

lemma source_Text_rest:
  "lx_pos lx + n \<le> length (lx_src lx) \<Longrightarrow>
   source_Text (lx_src lx) \<lparr>Offset = int (lx_pos lx), Len = int n\<rparr> = Some (take n (lx_rest lx))"
  by (simp add: source_Text_def span_End_def lx_rest_def)

lemma Next_at_quote:
  "lx_rest lx = q # s \<Longrightarrow> q = ch_apos \<or> q = ch_quote \<Longrightarrow>
   Next lx = scanQuoted (lx_pos lx) q (if q = ch_apos then UnrestrictedName else String) lx"
proof -
  assume *: "lx_rest lx = q # s" "q = ch_apos \<or> q = ch_quote"
  then have "lx_src lx ! lx_pos lx = q" "\<not> lx_pos lx \<ge> length (lx_src lx)"
    using lx_src_nth [of lx] lx_rest_Nil_iff [of lx] by auto
  with *(2) show ?thesis
    by (auto simp: Next_def Let_def IsIdentStart_def in_range_def less_eq_char_def)
qed

lemma bad_escape_quote: "q = ch_apos \<or> q = ch_quote \<Longrightarrow> bad_escape (q # s) = bad_escape s"
  by (auto simp: bad_escape_step)

lemma quoted_flag:
  assumes at: "lx_rest lx = q # s" "q = ch_apos \<or> q = ch_quote"
    and t: "scanQuoted (lx_pos lx) q k lx = (t, lx')" "tok_Span t = \<lparr>Offset = int (lx_pos lx), Len = int n\<rparr>"
  shows "tok_BadEscape t \<longleftrightarrow> bad_escape (take n (lx_rest lx))"
proof -
  obtain closed b e m where r: "quoted_bytes q False None 0 s = (closed, b, e, m)" by (metis prod_cases4)
  have q: "q \<noteq> ch_backslash" using at(2) by auto
  show ?thesis
  proof (cases closed)
    case True
    with r quoted_bytes_closed_iff [OF q, of False None 0 s m] obtain v r' where
      v: "s = v @ q # r'" "quotable q v" "m = length v + 1" by auto
    with quoted_bytes_closed_flag [OF q v(2), of False None 0 r'] r
    have "b = bad_escape v" by auto
    moreover have "n = Suc m" "tok_BadEscape t = b"
      using t True scanQuoted_rest [OF at(1) r, of k] by auto
    ultimately show ?thesis
      using at v bad_escape_snoc_quote [OF q v(2)] by (simp add: bad_escape_quote)
  next
    case False
    with r have open_flag: "b = bad_escape s" "\<And>p x. e = Some (p, x) \<Longrightarrow> x = bad_escape (take p s)"
      using quoted_bytes_open_flag [of q False None 0 s b e m] by auto
    have m: "m = length s" using quoted_bytes_bounds [OF r] False by auto
    show ?thesis
    proof (cases e)
      case None
      then have "n = Suc m" "tok_BadEscape t = b"
        using t False scanQuoted_rest [OF at(1) r, of k] by auto
      with open_flag m at show ?thesis by (simp add: bad_escape_quote)
    next
      case (Some px)
      obtain p x where px: "px = (p, x)" by fastforce
      with Some have "n = Suc p" "tok_BadEscape t = x"
        using t False scanQuoted_rest [OF at(1) r, of k] by auto
      with open_flag Some px at show ?thesis by (simp add: bad_escape_quote)
    qed
  qed
qed

text \<open>
  C29: a token scanned at a quote is flagged for a bad escape exactly when the search for invalid
  escapes in its text finds one to report, also when it is cut for want of a closing quote.
\<close>

theorem BadEscape_InvalidEscapes:
  assumes "lx_rest lx = q # s" and "q = ch_apos \<or> q = ch_quote"
    and "Next lx = (t, lx')" and "source_Text (lx_src lx) (tok_Span t) = Some raw"
  shows "tok_Kind t = (if q = ch_apos then UnrestrictedName else String) \<and>
    (tok_BadEscape t \<longleftrightarrow> InvalidEscapes (tok_Span t) raw \<noteq> [])"
proof -
  let ?k = "if q = ch_apos then UnrestrictedName else String"
  have scan: "scanQuoted (lx_pos lx) q ?k lx = (t, lx')" using Next_at_quote [OF assms(1,2)] assms(3) by simp
  obtain n where n: "takes lx n (t, lx')" using takes_Next [of lx] assms(1,3) by auto
  then have sp: "tok_Span t = \<lparr>Offset = int (lx_pos lx), Len = int n\<rparr>" "n \<le> length (lx_rest lx)"
    by (auto simp: takes_def)
  have "lx_pos lx + n \<le> length (lx_src lx)" using n by (auto simp: takes_def lx_rest_def)
  then have raw: "raw = take n (lx_rest lx)"
    using assms(4) sp source_Text_rest [of lx n] by simp
  obtain closed b e m where r: "quoted_bytes q False None 0 s = (closed, b, e, m)" by (metis prod_cases4)
  have "tok_Kind t = ?k"
    using scan scanQuoted_rest [OF assms(1) r, of ?k] by (auto simp: Let_def split: if_splits prod.splits)
  then show ?thesis
    using quoted_flag [OF assms(1,2) scan sp(1)] raw by (simp add: InvalidEscapes_bad)
qed

theorem BadEscape_InvalidEscapes_witness:
  "let (t, lx) = Next (New [ch_quote, CHR ''a'', ch_backslash, CHR ''q'', ch_quote])
   in tok_BadEscape t \<and> InvalidEscapes (tok_Span t) [ch_quote, CHR ''a'', ch_backslash, CHR ''q'', ch_quote] \<noteq> []"
proof -
  let ?s = "[CHR ''a'', ch_backslash, CHR ''q'', ch_quote]"
  let ?lx = "New (ch_quote # ?s)"
  have t: "Next ?lx = (quoted_token String 5 True, skip 5 ?lx)" by code_simp
  have raw: "source_Text (lx_src ?lx) (tok_Span (quoted_token String 5 True)) = Some (ch_quote # ?s)" by code_simp
  have "tok_BadEscape (quoted_token String 5 True)" by (simp add: quoted_token_def)
  then show ?thesis using BadEscape_InvalidEscapes [OF _ _ t raw, of ch_quote ?s] t by simp
qed

section \<open>Names\<close>

text \<open>The kinds the operator switch can answer with are never those of words and literals.\<close>

definition is_operator :: "Token \<times> Lexer \<Rightarrow> bool" where
  "is_operator r =
     (tok_Kind (fst r) \<notin> {Identifier, UnrestrictedName, String, Decimal, Real, Keyword, EOF, Whitespace, SLNote, MLNote, RegularComment})"

lemma is_operator_if: "is_operator x \<Longrightarrow> is_operator y \<Longrightarrow> is_operator (if b then x else y)"
  by simp

lemma is_operator_emit: "k \<notin> {Identifier, UnrestrictedName, String, Decimal, Real, Keyword, EOF, Whitespace, SLNote, MLNote, RegularComment} \<Longrightarrow> is_operator (emit k start lx)"
  by (simp add: is_operator_def emit_def)

lemma is_operator_single: "is_operator (case singleCharKind c of Some k \<Rightarrow> emit k start lx | None \<Rightarrow> scanError start lx')"
  by (auto simp: singleCharKind_def scanError_def intro!: is_operator_emit split: option.split if_splits)

lemma is_operator_scan: "is_operator (scanOperator start lx)"
  unfolding scanOperator_def Let_def
  by (intro is_operator_if is_operator_single is_operator_emit; simp)

lemma emit_kind [simp]: "tok_Kind (fst (emit k start lx)) = k"
  by (simp add: emit_def)

lemma Next_other_kind:
  assumes "lx_rest lx = c # s" "\<not> IsIdentStart c" "c \<noteq> ch_apos"
  shows "tok_Kind (fst (Next lx)) \<noteq> Identifier \<and> tok_Kind (fst (Next lx)) \<noteq> UnrestrictedName"
proof -
  have at: "lx_src lx ! lx_pos lx = c" "\<not> lx_pos lx \<ge> length (lx_src lx)"
    using assms(1) lx_src_nth [of lx] lx_rest_Nil_iff [of lx] by auto
  obtain r n where num: "number_len (lx_rest lx) = (r, n)" by fastforce
  obtain closed b e m where r: "quoted_bytes ch_quote False None 0 s = (closed, b, e, m)" by (metis prod_cases4)
  have kinds: "tok_Kind (fst (scanWhitespace (lx_pos lx) lx)) = Whitespace"
    "tok_Kind (fst (scanSLNote (lx_pos lx) lx)) = SLNote"
    "tok_Kind (fst (scanMLNote (lx_pos lx) lx)) = MLNote"
    "tok_Kind (fst (scanBlockComment (lx_pos lx) lx)) = RegularComment"
    "tok_Kind (fst (scanNumber (lx_pos lx) lx)) \<noteq> Identifier"
    "tok_Kind (fst (scanNumber (lx_pos lx) lx)) \<noteq> UnrestrictedName"
    "c = ch_quote \<Longrightarrow> tok_Kind (fst (scanQuoted (lx_pos lx) ch_quote String lx)) = String"
    "tok_Kind (fst (scanOperator (lx_pos lx) lx)) \<noteq> Identifier"
    "tok_Kind (fst (scanOperator (lx_pos lx) lx)) \<noteq> UnrestrictedName"
    using assms(1) num scanQuoted_rest [OF _ r, of lx] is_operator_scan [of "lx_pos lx" lx]
    by (auto simp: scanWhitespace_def scanSLNote_def scanMLNote_def scanBlockComment_def scanNumber_rest
        is_operator_def Let_def split: prod.splits option.splits)
  show ?thesis
    unfolding Next_def Let_def at(1) if_not_P [OF at(2)] using assms(2,3) by (simp add: kinds)
qed

lemma IsIdentifier_takeWhile:
  "IsIdentStart c \<Longrightarrow> IsIdentifier (c # takeWhile IsIdentCont s) \<and>
   (dropWhile IsIdentCont s = [] \<or> \<not> IsIdentCont (hd (dropWhile IsIdentCont s)))"
  using hd_dropWhile_not [of IsIdentCont s] by (auto simp: IsIdentifier_def list_all_iff dest: set_takeWhileD)

lemma NameProblem_word:
  assumes "IsIdentStart c"
  shows "NameProblem (c # s) = '''' \<longleftrightarrow> IsIdentifier (c # s) \<and> \<not> IsKeyword (c # s)"
proof -
  let ?r = "dropWhile IsIdentCont s"
  define w where "w = c # takeWhile IsIdentCont s"
  have nx: "Next (New (c # s)) =
      ((plain_token (if IsKeyword w then Keyword else Identifier) \<lparr>Offset = 0, Len = int (length w)\<rparr>)
        \<lparr>tok_KeywordID := (if IsKeyword w then w else '''')\<rparr>, skip (length w) (New (c # s)))"
    using Next_word [of w ?r] IsIdentifier_takeWhile [OF assms, of s] by (simp add: w_def)
  have len: "length w = length (c # s) \<longleftrightarrow> w = c # s"
    unfolding w_def using takeWhile_dropWhile_id [of IsIdentCont s]
    by (metis append.right_neutral append_eq_append_conv list.inject length_Cons nat.inject)
  have ident: "w = c # s \<longleftrightarrow> IsIdentifier (c # s)"
    using assms by (auto simp: w_def IsIdentifier_def list_all_iff takeWhile_eq_all_conv)
  show ?thesis
  proof (cases "w = c # s")
    case True
    with ident nx show ?thesis by (auto simp: NameProblem_def Let_def)
  next
    case False
    with ident len nx show ?thesis by (simp add: NameProblem_def Let_def NotASingleName_def)
  qed
qed

lemma quoted_once_open:
  "quoted_bytes ch_apos False None 0 s = (closed, b, e, m) \<Longrightarrow> \<not> closed \<Longrightarrow>
   tok_Unterminated (fst (Next (New (ch_apos # s))))"
  using scanQuoted_rest [of "New (ch_apos # s)" ch_apos s ch_apos closed b e m UnrestrictedName]
  by (auto simp: Next_quote split: option.splits)

lemma NameProblem_quote:
  "NameProblem (ch_apos # s) = '''' \<longleftrightarrow> (\<exists>v. s = v @ [ch_apos] \<and> raw_quotable v)"
proof -
  obtain closed b e m where r: "quoted_bytes ch_apos False None 0 s = (closed, b, e, m)" by (metis prod_cases4)
  have kw: "\<not> IsKeyword (ch_apos # s)"
  proof
    assume "IsKeyword (ch_apos # s)"
    moreover have "list_all (\<lambda>w. w \<noteq> [] \<and> hd w \<noteq> ch_apos) keywordList" by (simp add: keywordList_def)
    ultimately show False by (auto simp: IsKeyword_def list_all_iff)
  qed
  show ?thesis
  proof (cases closed)
    case True
    with r quoted_bytes_closed_iff [of ch_apos False None 0 s m] obtain v r' where
      v: "s = v @ ch_apos # r'" "quotable ch_apos v" "m = length v + 1" by auto
    have "Next (New (ch_apos # s)) = (quoted_token UnrestrictedName (length v + 2) (bad_escape v), skip (length v + 2) (New (ch_apos # s)))"
      using Next_quoted_closed [of ch_apos UnrestrictedName v r'] v by simp
    then have "NameProblem (ch_apos # s) = '''' \<longleftrightarrow> r' = []"
      using kw v(1) by (simp add: NameProblem_def Let_def quoted_token_def NotASingleName_def)
    moreover have "r' = []" if "s = w @ [ch_apos]" "raw_quotable w" for w
    proof -
      have "quotable ch_apos w" using that by (simp add: quotable_raw)
      with quoted_bytes_closed_flag [of ch_apos w False None 0 "[]"] r that have "m = length w + 1" by auto
      then have "length s = length v + 1" using v(3) that(1) by simp
      then show ?thesis using v(1) by simp
    qed
    moreover have "r' = [] \<Longrightarrow> \<exists>v. s = v @ [ch_apos] \<and> raw_quotable v" using v by (auto simp: quotable_raw)
    ultimately show ?thesis by blast
  next
    case False
    have "tok_Kind (fst (Next (New (ch_apos # s)))) = UnrestrictedName"
      using scanQuoted_rest [OF _ r, of "New (ch_apos # s)" ch_apos UnrestrictedName] False
      by (auto simp: Next_quote split: option.splits)
    then have "NameProblem (ch_apos # s) \<noteq> ''''"
      using quoted_once_open [OF r False] kw by (simp add: NameProblem_def Let_def)
    moreover have "\<not> (\<exists>v. s = v @ [ch_apos] \<and> raw_quotable v)"
      using quoted_bytes_closed_flag [of ch_apos _ False None 0 "[]"] r False by (fastforce simp: quotable_raw [symmetric])
    ultimately show ?thesis by simp
  qed
qed

lemma NameProblem_ok:
  "NameProblem n = '''' \<longleftrightarrow>
     IsIdentifier n \<and> \<not> IsKeyword n \<or> (\<exists>v. n = ch_apos # v @ [ch_apos] \<and> raw_quotable v)"
proof (cases n)
  case Nil
  then show ?thesis by (simp add: NameProblem_def IsIdentifier_def)
next
  case (Cons c s)
  consider "IsIdentStart c" | "c = ch_apos" | "\<not> IsIdentStart c" "c \<noteq> ch_apos" by blast
  then show ?thesis
  proof cases
    case 1
    then have "c \<noteq> ch_apos" by (auto simp: IsIdentStart_def in_range_def less_eq_char_def)
    with NameProblem_word [OF 1, of s] Cons show ?thesis by simp
  next
    case 2
    then have "\<not> IsIdentifier n" using Cons by (auto simp: IsIdentifier_def IsIdentStart_def in_range_def less_eq_char_def)
    with NameProblem_quote [of s] 2 Cons show ?thesis by simp
  next
    case 3
    with Next_other_kind [of "New n" c s] Cons have "NameProblem n \<noteq> ''''"
      by (auto simp: NameProblem_def Let_def)
    with 3 Cons show ?thesis by (auto simp: IsIdentifier_def)
  qed
qed

text \<open>
  C30: a text is accepted as one name exactly when it is a basic identifier that is not reserved or
  quoted text with its quotes and nothing after them, so that every name the writer produces for
  raw name text is accepted.
\<close>

theorem NameProblem_characterized:
  "(NameProblem n = '''' \<longleftrightarrow>
      IsIdentifier n \<and> \<not> IsKeyword n \<or> (\<exists>v. n = ch_apos # v @ [ch_apos] \<and> raw_quotable v)) \<and>
   NameProblem (UnrestrictedNameText v) = '''' \<and>
   (raw_name v \<longrightarrow> NameProblem (NameText v) = '''')"
proof -
  have "raw_quotable (concat (map (quoted_byte ch_apos) v))"
    using quotable_text [of ch_apos v] by (simp add: quotable_raw)
  then show ?thesis
    using NameProblem_ok [of n] NameProblem_ok [of "UnrestrictedNameText v"] NameProblem_ok [of "NameText v"]
    by (auto simp: UnrestrictedNameText_def quotedText_def NameText_def raw_name_def)
qed

theorem NameProblem_characterized_witness:
  "NameProblem (NameText ''part'') = '''' \<and> NameProblem ''part'' \<noteq> ''''"
proof -
  have "raw_name ''part''" by code_simp
  moreover have "\<not> (IsIdentifier ''part'' \<and> \<not> IsKeyword ''part'')" by code_simp
  ultimately show ?thesis
    using NameProblem_characterized [of "''part''" "''part''"] by (auto simp: Cons_eq_append_conv)
qed

section \<open>Numbers\<close>

text \<open>The texts of real values: digits, a fraction and an exponent, one of the last two at least.\<close>

definition digits_text :: "string \<Rightarrow> bool" where
  "digits_text s = (s \<noteq> [] \<and> list_all isDigit s)"

definition exponent_text :: "string \<Rightarrow> bool" where
  "exponent_text s =
     (case s of
        [] \<Rightarrow> False
      | e # r \<Rightarrow> (e = CHR ''e'' \<or> e = CHR ''E'') \<and>
          (digits_text r \<or> (case r of [] \<Rightarrow> False | sg # ds \<Rightarrow> (sg = CHR ''+'' \<or> sg = CHR ''-'') \<and> digits_text ds)))"

definition fraction_text :: "string \<Rightarrow> bool" where
  "fraction_text s = (case s of [] \<Rightarrow> False | c # r \<Rightarrow> c = CHR ''.'' \<and> digits_text r)"

definition real_text :: "string \<Rightarrow> bool" where
  "real_text s =
     (\<exists>i f x. s = i @ f @ x \<and> list_all isDigit i \<and> (f = [] \<or> fraction_text f) \<and> (x = [] \<or> exponent_text x) \<and>
        (if i = [] then f \<noteq> [] else f \<noteq> [] \<or> x \<noteq> []))"

lemma not_isDigit [simp]: "\<not> isDigit (CHR ''.'')" "\<not> isDigit (CHR ''e'')" "\<not> isDigit (CHR ''E'')"
  "\<not> isDigit (CHR ''+'')" "\<not> isDigit (CHR ''-'')"
  by (simp_all add: isDigit_def in_range_def less_eq_char_def)

lemma takeWhile_all_length: "length (takeWhile P s) = length s \<longleftrightarrow> list_all P s"
  by (metis list_all_iff takeWhile_eq_all_conv takeWhile_dropWhile_id append_eq_append_conv append.right_neutral)

lemma exponent_len_text: "0 < length s \<Longrightarrow> exponent_len s = length s \<longleftrightarrow> exponent_text s"
proof (cases s)
  case (Cons e r)
  then show ?thesis
  proof (cases r)
    case Nil
    with Cons show ?thesis by (simp add: exponent_len_def exponent_text_def digits_text_def)
  next
    case (Cons sg ds)
    with \<open>s = e # r\<close> show ?thesis
      by (cases ds) (auto simp: exponent_len_def exponent_text_def digits_text_def Let_def takeWhile_all_length)
  qed
qed simp

lemma exponent_len_Nil [simp]: "exponent_len [] = 0" "fraction_len [] = 0"
  by (simp_all add: exponent_len_def fraction_len_def)

lemma exponent_part: "exponent_len s = length s \<longleftrightarrow> s = [] \<or> exponent_text s"
  using exponent_len_text [of s] by (cases "s = []") auto

lemma exponent_text_start: "exponent_text x \<Longrightarrow> x \<noteq> [] \<and> \<not> isDigit (hd x) \<and> hd x \<noteq> CHR ''.''"
  by (auto simp: exponent_text_def split: list.splits)

lemma digits_stop:
  "list_all isDigit d \<Longrightarrow> x = [] \<or> \<not> isDigit (hd x) \<Longrightarrow>
   takeWhile isDigit (d @ x) = d \<and> drop (length d) (d @ x) = x"
  by (simp add: takeWhile_append_stop)

lemma fraction_len_text:
  "fraction_text f \<Longrightarrow> x = [] \<or> exponent_text x \<Longrightarrow> fraction_len (f @ x) = length f"
proof -
  assume f: "fraction_text f" and x: "x = [] \<or> exponent_text x"
  then obtain d where d: "f = CHR ''.'' # d" "d \<noteq> []" "list_all isDigit d"
    by (auto simp: fraction_text_def digits_text_def split: list.splits)
  then have "takeWhile isDigit (d @ x) = d"
    using x exponent_text_start [of x] by (intro takeWhile_append_stop) auto
  with d show ?thesis by (simp add: fraction_len_def Let_def)
qed

lemma fraction_len_no: "x = [] \<or> exponent_text x \<Longrightarrow> fraction_len x = 0"
  using exponent_text_start [of x] by (auto simp: fraction_len_def Let_def split: list.splits)

lemma fraction_text_start: "fraction_text f \<Longrightarrow> f \<noteq> [] \<and> hd f = CHR ''.'' \<and> digits_text (tl f)"
  by (auto simp: fraction_text_def split: list.splits)

lemma fraction_len_take: "fraction_len r = 0 \<or> fraction_text (take (fraction_len r) r)"
proof (cases r)
  case (Cons c s)
  have "take (length (takeWhile isDigit s)) s = takeWhile isDigit s" by (simp add: takeWhile_eq_take [symmetric])
  with Cons show ?thesis
    by (auto simp: fraction_len_def fraction_text_def digits_text_def list_all_iff Let_def dest: set_takeWhileD)
qed simp

text \<open>A text that is read to its end splits into its parts, and its parts are read back.\<close>

lemma number_len_parts:
  assumes "s \<noteq> []" "isDigit (hd s) \<or> hd s = CHR ''.'' \<and> digits_text (takeWhile isDigit (tl s))"
    and "snd (number_len s) = length s"
  shows "fst (number_len s) = (\<not> list_all isDigit s) \<and> (list_all isDigit s \<or> real_text s)"
proof (cases "hd s = CHR ''.''")
  case True
  define d where "d = takeWhile isDigit (tl s)"
  define x where "x = dropWhile isDigit (tl s)"
  have s: "s = (CHR ''.'' # d) @ x" using True assms(1) by (cases s) (simp_all add: d_def x_def)
  have n: "number_len s = (True, 1 + length d + exponent_len x)"
  proof -
    have "drop (1 + length d) s = x" using s by simp
    with True show ?thesis by (simp add: number_len_def Let_def d_def [symmetric])
  qed
  with assms(3) s have x: "x = [] \<or> exponent_text x" using exponent_part [of x] by simp
  have "fraction_text (CHR ''.'' # d)" using assms(2) True by (auto simp: fraction_text_def d_def)
  then have "real_text s" unfolding real_text_def
    using s x by (intro exI [of _ "[]"] exI [of _ "CHR ''.'' # d"] exI [of _ x]) auto
  with n s show ?thesis by simp
next
  case False
  define i where "i = takeWhile isDigit s"
  define r where "r = dropWhile isDigit s"
  define f where "f = take (fraction_len r) r"
  define x where "x = drop (fraction_len r) r"
  have s: "s = i @ r" "r = f @ x" "list_all isDigit i"
    by (auto simp: i_def r_def f_def x_def list_all_iff dest: set_takeWhileD)
  have flen: "fraction_len r = length f" using fraction_len_bound [of r] by (simp add: f_def)
  have i: "i \<noteq> []" using assms(1,2) False by (cases s) (auto simp: i_def)
  have n: "number_len s = (0 < length f \<or> 0 < exponent_len x, length i + length f + exponent_len x)"
  proof -
    have "drop (length i) s = r" "drop (length i + length f) s = x" using s(1,2) by simp_all
    with False flen show ?thesis by (simp add: number_len_def Let_def i_def [symmetric])
  qed
  with assms(3) s have x: "x = [] \<or> exponent_text x" using exponent_part [of x] by simp
  have f: "f = [] \<or> fraction_text f"
    using fraction_len_take [of r] by (auto simp: f_def)
  have digits: "list_all isDigit s \<longleftrightarrow> r = []"
  proof
    assume "list_all isDigit s"
    then show "r = []" by (simp add: r_def list_all_iff)
  next
    assume "r = []"
    with s show "list_all isDigit s" by simp
  qed
  have "real_text s" if "r \<noteq> []"
    unfolding real_text_def using that s i f x
    by (intro exI [of _ i] exI [of _ f] exI [of _ x]) simp
  moreover have "0 < length f \<or> 0 < exponent_len x \<longleftrightarrow> r \<noteq> []"
    using s(2) x exponent_part [of x] by (cases "x = []") auto
  ultimately show ?thesis using n digits by (cases "r = []") simp_all
qed

lemma number_len_real:
  assumes "real_text s"
  shows "number_len s = (True, length s) \<and> s \<noteq> [] \<and> \<not> list_all isDigit s \<and>
    (isDigit (hd s) \<or> hd s = CHR ''.'' \<and> digits_text (takeWhile isDigit (tl s)))"
proof -
  from assms obtain i f x where p: "s = i @ f @ x" "list_all isDigit i" "f = [] \<or> fraction_text f"
    "x = [] \<or> exponent_text x" "if i = [] then f \<noteq> [] else f \<noteq> [] \<or> x \<noteq> []"
    by (auto simp: real_text_def)
  have xl: "exponent_len x = length x" using p(4) exponent_part [of x] by simp
  have fx: "fraction_len (f @ x) = length f" "f @ x = [] \<or> \<not> isDigit (hd (f @ x))"
    using p(3,4) fraction_len_text [of f x] fraction_len_no [of x] fraction_text_start [of f] exponent_text_start [of x]
    by auto
  show ?thesis
  proof (cases "i = []")
    case True
    with p obtain d where d: "f = CHR ''.'' # d" "digits_text d" using fraction_text_start [of f] by (cases f) auto
    then have "takeWhile isDigit (d @ x) = d"
      using p(4) exponent_text_start [of x] by (intro takeWhile_append_stop) (auto simp: digits_text_def)
    with True d p(1) xl show ?thesis by (simp add: number_len_def Let_def)
  next
    case False
    have tw: "takeWhile isDigit s = i" using p(1,2) fx(2) by (simp add: takeWhile_append_stop)
    have hd: "isDigit (hd s)" using False p(1,2) by (cases i) auto
    then have "hd s \<noteq> CHR ''.''" by auto
    then have "number_len s = (0 < length f \<or> 0 < length x, length s)"
      using tw fx(1) xl p(1) by (simp add: number_len_def Let_def)
    moreover have "f @ x \<noteq> []" using p(5) False by auto
    ultimately show ?thesis using hd False p(1) fx(2) by (cases "f @ x") (auto simp: list_all_iff)
  qed
qed

lemma number_len_digits:
  "digits_text s \<Longrightarrow> number_len s = (False, length s) \<and> isDigit (hd s)"
proof -
  assume d: "digits_text s"
  then have hd: "isDigit (hd s)" by (auto simp: digits_text_def list_all_iff)
  have tw: "takeWhile isDigit s = s" using d by (simp add: digits_text_def takeWhile_all)
  from hd have "hd s \<noteq> CHR ''.''" by auto
  with hd show ?thesis unfolding number_len_def tw by (simp add: Let_def)
qed

lemma Next_number:
  "s \<noteq> [] \<Longrightarrow> isDigit (hd s) \<or> hd s = CHR ''.'' \<and> digits_text (takeWhile isDigit (tl s)) \<Longrightarrow>
   Next (New s) =
     (case number_len s of (r, n) \<Rightarrow> emit (if r then Real else Decimal) 0 (skip n (New s)))"
proof -
  assume s: "s \<noteq> []" and start: "isDigit (hd s) \<or> hd s = CHR ''.'' \<and> digits_text (takeWhile isDigit (tl s))"
  have "Next (New s) = scanNumber 0 (New s)"
  proof (cases "isDigit (hd s)")
    case True
    then have "hd s \<noteq> CHR '' ''" "hd s \<noteq> ch_tab" "hd s \<noteq> ch_cr" "hd s \<noteq> ch_nl" "hd s \<noteq> CHR ''/''" "hd s \<noteq> ch_apos"
      "\<not> IsIdentStart (hd s)" "in_range (CHR ''0'') (CHR ''9'') (hd s)"
      by (auto simp: isDigit_def in_range_def IsIdentStart_def less_eq_char_def)
    with s show ?thesis by (simp add: Next_def Let_def hd_conv_nth)
  next
    case False
    with start have dot: "hd s = CHR ''.''" "tl s \<noteq> []" "isDigit (hd (tl s))"
      by (auto simp: digits_text_def takeWhile_eq_Nil_iff)
    then have "peek (New s) 1 = hd (tl s)" using s by (cases s; cases "tl s") (auto simp: peek_rest)
    with s dot show ?thesis
      by (simp add: Next_def Let_def hd_conv_nth [symmetric] isDigit_def)
         (simp add: IsIdentStart_def in_range_def less_eq_char_def)
  qed
  with scanNumber_rest [of "New s"] s show ?thesis by simp
qed

lemma Next_not_number:
  assumes "lx_rest lx = c # s" "\<not> isDigit c" "c = CHR ''.'' \<Longrightarrow> \<not> digits_text (takeWhile isDigit s)"
  shows "tok_Kind (fst (Next lx)) \<noteq> Decimal \<and> tok_Kind (fst (Next lx)) \<noteq> Real"
proof -
  have at: "lx_src lx ! lx_pos lx = c" "\<not> lx_pos lx \<ge> length (lx_src lx)"
    using assms(1) lx_src_nth [of lx] lx_rest_Nil_iff [of lx] by auto
  have dot: "\<not> (c = CHR ''.'' \<and> in_range (CHR ''0'') (CHR ''9'') (peek lx 1))"
  proof
    assume "c = CHR ''.'' \<and> in_range (CHR ''0'') (CHR ''9'') (peek lx 1)"
    then have "c = CHR ''.''" "isDigit (peek lx 1)" by (auto simp: isDigit_def)
    moreover have "\<not> isDigit (CHR 0x00)" by (simp add: isDigit_def in_range_def less_eq_char_def)
    ultimately have "s \<noteq> []" "isDigit (hd s)" using assms(1) by (auto simp: peek_rest hd_conv_nth split: if_splits)
    with assms(3) \<open>c = CHR ''.''\<close> show False
      by (auto simp: digits_text_def takeWhile_eq_Nil_iff list_all_iff dest: set_takeWhileD)
  qed
  obtain b e m closed where q: "quoted_bytes ch_quote False None 0 s = (closed, b, e, m)" by (metis prod_cases4)
  obtain b' e' m' closed' where a: "quoted_bytes ch_apos False None 0 s = (closed', b', e', m')" by (metis prod_cases4)
  have kinds: "tok_Kind (fst (scanWhitespace (lx_pos lx) lx)) = Whitespace"
    "tok_Kind (fst (scanSLNote (lx_pos lx) lx)) = SLNote"
    "tok_Kind (fst (scanMLNote (lx_pos lx) lx)) = MLNote"
    "tok_Kind (fst (scanBlockComment (lx_pos lx) lx)) = RegularComment"
    "tok_Kind (fst (scanIdentOrKeyword (lx_pos lx) lx)) \<noteq> Decimal"
    "tok_Kind (fst (scanIdentOrKeyword (lx_pos lx) lx)) \<noteq> Real"
    "tok_Kind (fst (scanQuoted (lx_pos lx) ch_quote String lx)) = String"
    "tok_Kind (fst (scanQuoted (lx_pos lx) ch_apos UnrestrictedName lx)) = UnrestrictedName"
    "tok_Kind (fst (scanOperator (lx_pos lx) lx)) \<noteq> Decimal"
    "tok_Kind (fst (scanOperator (lx_pos lx) lx)) \<noteq> Real"
    using scanQuoted_rest [OF assms(1) q] scanQuoted_rest [OF assms(1) a] is_operator_scan [of "lx_pos lx" lx]
    by (auto simp: scanWhitespace_def scanSLNote_def scanMLNote_def scanBlockComment_def scanIdentOrKeyword_def
        is_operator_def Let_def split: prod.splits option.splits)
  have "\<not> in_range (CHR ''0'') (CHR ''9'') c" using assms(2) by (simp add: isDigit_def)
  then show ?thesis
    unfolding Next_def Let_def at(1) if_not_P [OF at(2)] if_not_P [OF dot] by (simp add: kinds)
qed

lemma number_token_ok:
  "IsDecimalValue s \<longleftrightarrow> digits_text s"
  "IsRealValue s \<longleftrightarrow> real_text s"
proof -
  have *: "isNumberToken s k \<longleftrightarrow> number_len s = (k = Real, length s)"
    if "k = Decimal \<or> k = Real" "s \<noteq> []" "isDigit (hd s) \<or> hd s = CHR ''.'' \<and> digits_text (takeWhile isDigit (tl s))" for k
    using that Next_number [of s]
    by (cases "number_len s") (auto simp: isNumberToken_def emit_def lx_span_def)
  have no: "\<not> isNumberToken s k" if "k = Decimal \<or> k = Real" "s = [] \<or> \<not> (isDigit (hd s) \<or> hd s = CHR ''.'' \<and> digits_text (takeWhile isDigit (tl s)))" for k
  proof (cases s)
    case Nil
    with that(1) show ?thesis by (auto simp: isNumberToken_def Next_def)
  next
    case (Cons c r)
    with that Next_not_number [of "New s" c r] show ?thesis by (auto simp: isNumberToken_def)
  qed
  have "IsDecimalValue s \<longleftrightarrow> digits_text s" "IsRealValue s \<longleftrightarrow> real_text s"
    if s: "s \<noteq> []" and start: "isDigit (hd s) \<or> hd s = CHR ''.'' \<and> digits_text (takeWhile isDigit (tl s))"
    using * [of Decimal, OF _ s start] * [of Real, OF _ s start] number_len_parts [OF s start]
      number_len_real [of s] number_len_digits [of s] s
    by (auto simp: IsDecimalValue_def IsRealValue_def digits_text_def)
  moreover have "\<not> digits_text s" "\<not> real_text s"
    if "s = [] \<or> \<not> (isDigit (hd s) \<or> hd s = CHR ''.'' \<and> digits_text (takeWhile isDigit (tl s)))"
    using that number_len_real [of s] number_len_digits [of s] by (auto simp: digits_text_def)
  ultimately show "IsDecimalValue s \<longleftrightarrow> digits_text s" "IsRealValue s \<longleftrightarrow> real_text s"
    using no [of Decimal] no [of Real] unfolding IsDecimalValue_def IsRealValue_def by blast+
qed

text \<open>
  The decimal values are exactly the non-empty runs of digits, the real values exactly digits
  with a fraction, an exponent or both, or a fraction alone with an optional exponent.
\<close>

theorem number_values:
  "(IsDecimalValue s \<longleftrightarrow> digits_text s) \<and> (IsRealValue s \<longleftrightarrow> real_text s)"
  using number_token_ok by simp

section \<open>Comments\<close>

abbreviation star_slash :: "string \<Rightarrow> bool" where
  "star_slash s \<equiv> contains_sub s ''*/''"

lemma star_slash_Nil [simp]: "\<not> star_slash []"
  by (simp add: contains_sub_def)

lemma star_slash_Cons: "star_slash (c # s) \<longleftrightarrow> c = CHR ''*'' \<and> s \<noteq> [] \<and> hd s = CHR ''/'' \<or> star_slash s"
  by (auto simp: contains_sub_def index_of_star_slash simp del: index_of.simps)

lemma star_slash_append:
  "\<not> star_slash a \<Longrightarrow> \<not> star_slash b \<Longrightarrow> b = [] \<or> hd b \<noteq> CHR ''/'' \<Longrightarrow> \<not> star_slash (a @ b)"
  by (induction a) (auto simp: star_slash_Cons hd_append)

lemma index_star_slash: "\<not> star_slash a \<Longrightarrow> index_of (a @ ''*/'' @ r) ''*/'' = Some (length a)"
proof (induction a)
  case (Cons c a)
  then have "\<not> star_slash a" "\<not> (c = CHR ''*'' \<and> a \<noteq> [] \<and> hd a = CHR ''/'')" by (auto simp: star_slash_Cons)
  with Cons.IH show ?case
    by (auto simp: index_of_star_slash hd_append simp del: index_of.simps)
qed (simp add: index_of_star_slash del: index_of.simps)

lemma Next_comment:
  assumes "\<not> star_slash inner"
  shows "Next (New (''/*'' @ inner @ ''*/'' @ r)) =
    (plain_token RegularComment \<lparr>Offset = 0, Len = int (length inner + 4)\<rparr>, skip (length inner + 4) (New (''/*'' @ inner @ ''*/'' @ r)))"
proof -
  let ?lx = "New (''/*'' @ inner @ ''*/'' @ r)"
  have "consumeUntilStarSlash (skip 2 ?lx) = (True, skip (2 + (length inner + 2)) ?lx)"
    using index_star_slash [OF assms, of r] by (simp add: consumeUntilStarSlash_rest)
  then have "scanBlockComment 0 ?lx = (plain_token RegularComment \<lparr>Offset = 0, Len = int (length inner + 4)\<rparr>, skip (length inner + 4) ?lx)"
    by (simp add: scanBlockComment_def lx_span_def plain_token_def)
  moreover have "Next ?lx = scanBlockComment 0 ?lx"
    by (simp add: Next_def Let_def peek_def)
  ultimately show ?thesis by simp
qed

lemma no_star_indent: "set indent \<subseteq> set commentSpace \<Longrightarrow> \<not> star_slash b \<Longrightarrow> \<not> star_slash (indent @ b)"
  by (induction indent) (auto simp: commentSpace_def star_slash_Cons)

lemma comment_lines_start: "comment_lines indent ls = [] \<or> hd (comment_lines indent ls) = ch_nl"
  by (induction indent ls rule: comment_lines.induct) auto

lemma star_slash_line:
  "\<not> star_slash l \<Longrightarrow> set indent \<subseteq> set commentSpace \<Longrightarrow> \<not> star_slash (ch_nl # indent @ '' * '' @ l)"
  using no_star_indent [of indent "'' * '' @ l"] by (simp add: star_slash_Cons)

lemma star_slash_lines:
  "\<forall>l \<in> set ls. \<not> star_slash l \<Longrightarrow> set indent \<subseteq> set commentSpace \<Longrightarrow> \<not> star_slash (comment_lines indent ls)"
proof (induction indent ls rule: comment_lines.induct)
  case (2 indent l)
  then show ?case using star_slash_line [of l indent] no_star_indent [of indent "'' ''"] by (auto simp: star_slash_Cons)
next
  case (3 indent l l2 ls)
  let ?first = "if l = '''' then ch_nl # indent @ '' *'' else ch_nl # indent @ '' * '' @ l"
  have "\<not> star_slash ?first"
    using 3 star_slash_line [of l indent] no_star_indent [of indent "'' *''"] by (auto simp: star_slash_Cons)
  moreover have "\<not> star_slash (comment_lines indent (l2 # ls))" using 3 by simp
  ultimately have "\<not> star_slash (?first @ comment_lines indent (l2 # ls))"
    using comment_lines_start [of indent "l2 # ls"] by (intro star_slash_append) auto
  then show ?case by simp
qed simp

lemma join_piece: "x \<in> set xs \<Longrightarrow> \<exists>a b. join sep xs = a @ x @ b"
proof (induction sep xs rule: join.induct)
  case (3 sep y z zs)
  then consider "x = y" | "x \<in> set (z # zs)" by auto
  then show ?case
  proof cases
    case 1
    then show ?thesis by (intro exI [of _ "[]"] exI [of _ "sep @ join sep (z # zs)"]) simp
  next
    case 2
    with 3 obtain a b where "join sep (z # zs) = a @ x @ b" by auto
    then show ?thesis by (intro exI [of _ "y @ sep @ a"] exI [of _ b]) simp
  qed
qed (auto intro: exI [of _ "[]"])

lemma split_piece_star_slash: "\<not> star_slash s \<Longrightarrow> l \<in> set (split_on [ch_nl] s) \<Longrightarrow> \<not> star_slash l"
proof -
  assume *: "\<not> star_slash s" "l \<in> set (split_on [ch_nl] s)"
  from join_piece [OF *(2), of "[ch_nl]"] obtain a b where "s = a @ l @ b" by (auto simp: join_split_on)
  with *(1) show ?thesis using not_contains_sub_append by metis
qed

lemma CommentText_inner:
  assumes "CommentText body indent = Some t" "set indent \<subseteq> set commentSpace"
  shows "\<exists>inner. t = ''/*'' @ inner @ ''*/'' \<and> \<not> star_slash inner"
proof (cases "body = []")
  case True
  with assms(1) have "t = ''/*'' @ '' '' @ ''*/''" by (auto simp: CommentText_def split: if_splits)
  then show ?thesis by (intro exI [of _ "'' ''"]) (simp add: star_slash_Cons)
next
  case False
  let ?lines = "split_on [ch_nl] body"
  have body: "\<not> star_slash body" using assms(1) by (auto simp: CommentText_def split: if_splits)
  obtain l ls where lines: "?lines = l # ls" using split_on_not_Nil [of "[ch_nl]" body] by (cases ?lines) auto
  have pieces: "\<forall>x \<in> set ?lines. \<not> star_slash x" using split_piece_star_slash [OF body] by blast
  have "\<not> star_slash (comment_lines indent ?lines)" using star_slash_lines [OF pieces assms(2)] .
  moreover have "\<not> star_slash ('' '' @ l @ comment_lines indent ls)"
  proof -
    have "\<not> star_slash (l @ comment_lines indent ls)"
      using pieces lines star_slash_lines [of ls indent] assms(2) comment_lines_start [of indent ls]
      by (intro star_slash_append) auto
    then show ?thesis by (simp add: star_slash_Cons)
  qed
  ultimately show ?thesis
    using assms(1) False lines by (auto simp: CommentText_def Let_def split: if_splits)
qed

lemma CommentText_one_token:
  assumes "CommentText body indent = Some t" and "set indent \<subseteq> set commentSpace"
  shows "Next (New (t @ r)) =
    (plain_token RegularComment \<lparr>Offset = 0, Len = int (length t)\<rparr>, \<lparr>lx_src = t @ r, lx_pos = length t\<rparr>)"
proof -
  from CommentText_inner [OF assms] obtain inner where "t = ''/*'' @ inner @ ''*/''" "\<not> star_slash inner" by blast
  with Next_comment [of inner r] show ?thesis by (simp add: skip_def New_def)
qed

text \<open>
  C31: what the writers write becomes exactly one token of its kind, closed and without an invalid escape,
  whatever follows it: a string literal, a quoted name, and a comment body the writer accepts.
\<close>

theorem written_texts_one_token:
  assumes "CommentText body indent = Some t" and "set indent \<subseteq> set commentSpace"
  shows "Next (New (StringText v @ r)) =
      (plain_token String \<lparr>Offset = 0, Len = int (length (StringText v))\<rparr>,
       \<lparr>lx_src = StringText v @ r, lx_pos = length (StringText v)\<rparr>) \<and>
    Next (New (UnrestrictedNameText v @ r)) =
      (plain_token UnrestrictedName \<lparr>Offset = 0, Len = int (length (UnrestrictedNameText v))\<rparr>,
       \<lparr>lx_src = UnrestrictedNameText v @ r, lx_pos = length (UnrestrictedNameText v)\<rparr>) \<and>
    Next (New (t @ r)) =
      (plain_token RegularComment \<lparr>Offset = 0, Len = int (length t)\<rparr>, \<lparr>lx_src = t @ r, lx_pos = length t\<rparr>)"
  using quotedText_one_token CommentText_one_token [OF assms] by blast

theorem written_texts_one_token_witness:
  "tok_Kind (fst (Next (New (the (CommentText (''a*'' @ [ch_nl] @ ''/b'') '' '') @ ''part'')))) = RegularComment \<and>
   tok_Kind (fst (Next (New (StringText [ch_quote] @ ''part'')))) = String"
proof -
  have "CommentText (''a*'' @ [ch_nl] @ ''/b'') '' '' = Some (''/* a*'' @ [ch_nl] @ ''  * /b*/'')"
    "set '' '' \<subseteq> set commentSpace" by code_simp+
  from written_texts_one_token [OF this, of "[ch_quote]" "''part''"] this show ?thesis by simp
qed

end
