(* ===== verification/Go_Numbers.thy ===== *)
theory Go_Numbers
  imports Prelude
begin

text \<open>
  Decimal numbers as Go's standard library writes and reads them: \<open>strconv.Itoa\<close>,
  \<open>FormatUint\<close> and the verb \<open>%d\<close> (\<open>int_text\<close>, \<open>nat_text\<close>), and \<open>strconv.ParseUint(s, 10, bits)\<close>
  (\<open>ParseUint\<close>), whose two errors, syntax and range, are one \<open>None\<close> here because the sources
  treat them alike.
\<close>

definition digit_char :: "nat \<Rightarrow> char" where
  "digit_char d = char_of (48 + d)"

definition digit_value :: "char \<Rightarrow> nat" where
  "digit_value c = of_char c - 48"

function nat_text :: "nat \<Rightarrow> string" where
  "nat_text n = (if n < 10 then [digit_char n] else nat_text (n div 10) @ [digit_char (n mod 10)])"
  by pat_completeness auto
termination
  by (relation "measure id") auto

declare nat_text.simps [simp del]

definition int_text :: "int \<Rightarrow> string" where
  "int_text i = (if i < 0 then CHR ''-'' # nat_text (nat (- i)) else nat_text (nat i))"

definition digits_value :: "string \<Rightarrow> nat" where
  "digits_value s = foldl (\<lambda>n c. n * 10 + digit_value c) 0 s"

definition ParseUint :: "nat \<Rightarrow> string \<Rightarrow> nat option" where
  "ParseUint bits s =
     (if s \<noteq> '''' \<and> list_all is_digit s \<and> digits_value s < 2 ^ bits then Some (digits_value s) else None)"

lemma digit_lt_10: "d < 10 \<Longrightarrow> is_digit (digit_char d) \<and> digit_value (digit_char d) = d"
proof -
  assume "d < 10"
  then have "d \<in> {0, 1, 2, 3, 4, 5, 6, 7, 8, 9}" by auto
  then show ?thesis
    by (auto simp: is_digit_def in_range_def less_eq_char_def digit_char_def digit_value_def)
qed

lemma digits_value_snoc: "digits_value (s @ [c]) = digits_value s * 10 + digit_value c"
  by (simp add: digits_value_def)

lemma digits_value_nat_text: "digits_value (nat_text n) = n"
proof (induction n rule: nat_text.induct)
  case (1 n)
  show ?case
  proof (cases "n < 10")
    case True
    then show ?thesis by (simp add: nat_text.simps [of n] digits_value_def digit_lt_10)
  next
    case False
    with 1 show ?thesis by (simp add: nat_text.simps [of n] digits_value_snoc digit_lt_10)
  qed
qed

lemma nat_text_digits: "nat_text n \<noteq> [] \<and> list_all is_digit (nat_text n)"
proof (induction n rule: nat_text.induct)
  case (1 n)
  then show ?case by (cases "n < 10") (simp_all add: nat_text.simps [of n] digit_lt_10)
qed

lemma ParseUint_nat_text: "n < 2 ^ bits \<Longrightarrow> ParseUint bits (nat_text n) = Some n"
  using nat_text_digits [of n] by (simp add: ParseUint_def digits_value_nat_text)

lemma int_text_nat [simp]: "int_text (int n) = nat_text n"
  by (simp add: int_text_def)

lemma nat_text_no: "\<not> is_digit c \<Longrightarrow> c \<notin> set (nat_text n)"
  using nat_text_digits [of n] by (auto simp: list_all_iff)

interpretation decimal: codec nat_text "ParseUint bits" "\<lambda>n. n < 2 ^ bits" for bits
  by unfold_locales (rule ParseUint_nat_text)

end
