(* ===== verification/Explore_Run.thy ===== *)
theory Explore_Run
  imports Go_Numbers
begin

text \<open>
  One run of an exploration: \<open>internal/exec/runtime/explore.go\<close>. A run follows a planned prefix
  of choices and takes the first alternative past it; it records the slot of every choice it
  made. \<open>exploreRun\<close> is the plan and the record, \<open>pick\<close> resolves a choice among alternatives,
  \<open>exploreStep\<close> hands a step of an action flow its tokens one at a time, and \<open>unexplored\<close> lists
  the choices the run leaves to vary. The weights of probabilistic decisions, which are
  floating-point numbers no run depends on, are left out of the records.

  The methods that write to the run through a pointer return the run; a slice index the code
  does not check is an answer \<open>None\<close>, its panic.
\<close>

section \<open>Budgets, choices and slots\<close>

record ExploreBudget =
  Runs :: int
  Depth :: int

definition DefaultExploreBudget :: ExploreBudget where
  "DefaultExploreBudget = \<lparr>Runs = 1024, Depth = 64\<rparr>"

datatype (plugins only: code size) ChoiceKind =
    ChoiceTokenOrder | ChoiceDecisionBranch | choiceWriteOrder | ChoiceTransition | ChoiceRegionOrder
  | ChoiceDueOrder | choiceDispatchOrder | choiceEntryOrder | choiceExitOrder | choiceStepOrder
  | choiceEntryStep | choiceStatementOrder | choiceGuardOrder

record ChoicePoint =
  cp_Kind :: ChoiceKind
  cp_Step :: int
  cp_Where :: string
  cp_Alternatives :: "string list"
  cp_Taken :: nat

definition zero_ChoicePoint :: ChoicePoint where
  "zero_ChoicePoint = \<lparr>cp_Kind = ChoiceTokenOrder, cp_Step = 0, cp_Where = '''', cp_Alternatives = [], cp_Taken = 0\<rparr>"

record ChoiceTaken =
  ct_Kind :: ChoiceKind
  ct_Step :: int
  ct_Where :: string
  ct_Alternatives :: nat
  ct_Taken :: nat
  ct_Among :: "string list"
  ct_Took :: string

datatype slotKind = slotPick | slotTokens

record exploreSlot =
  es_kind :: slotKind
  es_alternatives :: nat
  es_taken :: nat
  es_beyond :: bool
  es_step :: int
  es_tokens :: "int list"
  es_labels :: "string list"
  es_choice :: ChoicePoint
  es_described :: bool

definition new_slot :: "slotKind \<Rightarrow> nat \<Rightarrow> int \<Rightarrow> int list \<Rightarrow> exploreSlot" where
  "new_slot kind n step ids =
     \<lparr>es_kind = kind, es_alternatives = n, es_taken = 0, es_beyond = False, es_step = step,
      es_tokens = ids, es_labels = [], es_choice = zero_ChoicePoint, es_described = False\<rparr>"

record exploreRun =
  er_prefix :: "exploreSlot list"
  er_depth :: int
  er_record :: "exploreSlot list"
  er_explored :: int
  er_depthHit :: bool
  er_duplicate :: bool
  er_diverged :: "string option"

text \<open>\<open>&exploreRun{prefix: plan, depth: depth}\<close>.\<close>

definition new_run :: "exploreSlot list \<Rightarrow> int \<Rightarrow> exploreRun" where
  "new_run plan depth =
     \<lparr>er_prefix = plan, er_depth = depth, er_record = [], er_explored = 0, er_depthHit = False,
      er_duplicate = False, er_diverged = None\<rparr>"

section \<open>Resolving a choice\<close>

text \<open>\<open>fmt.Sprintf("%v", ids)\<close> of a slice of integers.\<close>

definition ints_text :: "int list \<Rightarrow> string" where
  "ints_text ids = ''['' @ join '' '' (map int_text ids) @ '']''"

definition describePlan :: "exploreSlot \<Rightarrow> string option" where
  "describePlan s =
     (if es_kind s = slotTokens then
        if es_taken s < length (es_tokens s) then
          Some (''step '' @ int_text (es_step s) @ '': token '' @ int_text (es_tokens s ! es_taken s) @ '' of '' @ ints_text (es_tokens s))
        else None
      else Some (''alternative '' @ nat_text (es_taken s + 1) @ '' of '' @ nat_text (es_alternatives s)))"

definition slot_matches :: "exploreSlot \<Rightarrow> exploreSlot \<Rightarrow> bool" where
  "slot_matches planned faced =
     (if es_kind planned \<noteq> es_kind faced then False
      else if es_kind planned = slotPick then es_alternatives planned = es_alternatives faced
      else list_all (\<lambda>tid. tid \<in> set (es_tokens faced)) (es_tokens planned))"

definition diverge :: "string \<Rightarrow> exploreRun \<Rightarrow> exploreRun" where
  "diverge reason r = (if er_diverged r = None then r\<lparr>er_diverged := Some reason\<rparr> else r)"

definition resolve :: "exploreSlot \<Rightarrow> string \<Rightarrow> exploreRun \<Rightarrow> (exploreSlot \<times> exploreRun) option" where
  "resolve slot faced r =
     (let i = length (er_record r);
          settled =
            (if i < length (er_prefix r) then
               let planned = er_prefix r ! i in
               if \<not> slot_matches planned slot then
                 map_option
                   (\<lambda>plan. (slot, diverge (''choice '' @ nat_text (i + 1) @ '': '' @ faced @ '', planned '' @ plan) r))
                   (describePlan planned)
               else
                 let slot = slot\<lparr>es_taken := es_taken planned, es_beyond := es_beyond planned\<rparr>
                 in Some (if es_kind slot = slotTokens
                          then slot\<lparr>es_tokens := es_tokens planned, es_alternatives := es_alternatives planned\<rparr>
                          else slot, r)
             else if er_explored r \<ge> er_depth r then Some (slot\<lparr>es_beyond := True\<rparr>, r)
             else Some (slot, r))
      in map_option
           (\<lambda>(slot, r).
              let r = (if es_beyond slot then r\<lparr>er_depthHit := True\<rparr> else r)
              in (slot, r\<lparr>er_explored := er_explored r + 1, er_record := er_record r @ [slot]\<rparr>))
           settled)"

definition pick :: "nat \<Rightarrow> exploreRun \<Rightarrow> (nat \<times> exploreRun) option" where
  "pick n r =
     map_option (\<lambda>(slot, r). (es_taken slot, r))
       (resolve (new_slot slotPick n 0 []) (nat_text n @ '' alternatives to pick from'') r)"

text \<open>\<open>describe\<close> walks the record from its end to the last pick.\<close>

fun describe_last :: "ChoicePoint \<Rightarrow> exploreSlot list \<Rightarrow> exploreSlot list" where
  "describe_last c [] = []"
| "describe_last c (slot # earlier) =
     (if es_kind slot = slotPick then slot\<lparr>es_choice := c, es_described := True\<rparr> # earlier
      else slot # describe_last c earlier)"

definition describe :: "ChoicePoint \<Rightarrow> exploreRun \<Rightarrow> exploreRun" where
  "describe c r = r\<lparr>er_record := rev (describe_last c (rev (er_record r)))\<rparr>"

section \<open>The tokens of a step\<close>

record stepTokens =
  tk_step :: int
  tk_ids :: "int list"
  tk_held :: "int \<Rightarrow> bool"
  tk_label :: "int \<Rightarrow> string"

record exploreStep =
  st_tokens :: stepTokens
  st_remaining :: "int list"
  st_held :: "int list"
  st_slot :: "nat option"
  st_dupBefore :: bool
  st_moved :: bool
  st_choice :: "exploreSlot option"

definition beginStep :: "stepTokens \<Rightarrow> exploreStep" where
  "beginStep tokens =
     \<lparr>st_tokens = tokens,
      st_remaining = sort (filter (\<lambda>tid. \<not> tk_held tokens tid) (tk_ids tokens)),
      st_held = sort (filter (tk_held tokens) (tk_ids tokens)),
      st_slot = None, st_dupBefore = False, st_moved = False, st_choice = None\<rparr>"

text \<open>
  \<open>next\<close>: the token to try, \<open>None\<close> where the code answers \<open>false\<close>. \<open>enabled\<close> is the step's
  callback as it answers now; moves change its answers. The outer \<open>None\<close> is a panic.
\<close>

definition step_next :: "(int \<Rightarrow> bool) \<Rightarrow> exploreStep \<Rightarrow> exploreRun \<Rightarrow> (int option \<times> exploreStep \<times> exploreRun) option" where
  "step_next enabled s r =
     (if st_moved s then Some (None, s, r)
      else if st_remaining s = [] then
        (case st_held s of [] \<Rightarrow> Some (None, s, r) | tid # held \<Rightarrow> Some (Some tid, s\<lparr>st_held := held\<rparr>, r))
      else case st_slot s of
        Some at \<Rightarrow>
          if at < length (er_record r) \<and> es_taken (er_record r ! at) < length (es_tokens (er_record r ! at))
          then Some (Some (es_tokens (er_record r ! at) ! es_taken (er_record r ! at)), s, r)
          else None
      | None \<Rightarrow>
          (case filter enabled (st_remaining s) of
             [] \<Rightarrow> Some (Some (hd (st_remaining s)), s, r)
           | [tid] \<Rightarrow> Some (Some tid, s, r)
           | able \<Rightarrow>
               let slot = new_slot slotTokens (length able) (tk_step (st_tokens s)) able;
                   s = s\<lparr>st_dupBefore := er_duplicate r\<rparr>
               in case resolve slot (''step '' @ int_text (tk_step (st_tokens s)) @ '': tokens '' @ ints_text able @ '' able to act'') r of
                    None \<Rightarrow> None
                  | Some (slot, r) \<Rightarrow>
                      let at = length (er_record r) - 1;
                          slot = slot\<lparr>es_labels := map (tk_label (st_tokens s)) (es_tokens slot)\<rparr>
                      in if es_taken slot < length (es_tokens slot)
                         then Some (Some (es_tokens slot ! es_taken slot), s\<lparr>st_slot := Some at\<rparr>,
                                r\<lparr>er_record := list_update (er_record r) at slot\<rparr>)
                         else None))"

text \<open>\<open>slices.Index\<close> and \<open>slices.Delete(s, i, i+1)\<close>.\<close>

fun slice_index :: "'a list \<Rightarrow> 'a \<Rightarrow> nat option" where
  "slice_index [] x = None"
| "slice_index (y # ys) x = (if y = x then Some 0 else map_option Suc (slice_index ys x))"

definition slice_delete :: "'a list \<Rightarrow> nat \<Rightarrow> 'a list" where
  "slice_delete xs i = take i xs @ drop (Suc i) xs"

definition step_acted :: "int \<Rightarrow> bool \<Rightarrow> exploreStep \<Rightarrow> exploreRun \<Rightarrow> (exploreStep \<times> exploreRun) option" where
  "step_acted tid acted s r =
     (let s = (case slice_index (st_remaining s) tid of
                 Some i \<Rightarrow> s\<lparr>st_remaining := slice_delete (st_remaining s) i\<rparr> | None \<Rightarrow> s)
      in if acted then
           (let s = s\<lparr>st_moved := True\<rparr>
            in case st_slot s of
                 None \<Rightarrow> Some (s, r)
               | Some at \<Rightarrow>
                   if at < length (er_record r)
                   then Some (s\<lparr>st_choice := Some (er_record r ! at), st_slot := None\<rparr>, r) else None)
         else case st_slot s of
           None \<Rightarrow> Some (s, r)
         | Some at \<Rightarrow>
             if \<not> at < length (er_record r) then None
             else
               let slot = er_record r ! at;
                   slot = (case slice_index (es_tokens slot) tid of
                       None \<Rightarrow> Some slot
                     | Some i \<Rightarrow>
                         if i < length (es_labels slot) then
                           Some (slot\<lparr>es_tokens := slice_delete (es_tokens slot) i,
                                      es_labels := slice_delete (es_labels slot) i,
                                      es_alternatives := es_alternatives slot - 1\<rparr>)
                         else None)
               in case slot of
                    None \<Rightarrow> None
                  | Some slot \<Rightarrow>
                      if es_tokens slot = [] then
                        Some (s\<lparr>st_slot := None\<rparr>,
                              r\<lparr>er_record := take at (er_record r), er_explored := er_explored r - 1,
                                er_duplicate := st_dupBefore s\<rparr>)
                      else if es_taken slot \<ge> length (es_tokens slot) then
                        Some (s, r\<lparr>er_record := list_update (er_record r) at (slot\<lparr>es_taken := length (es_tokens slot) - 1\<rparr>),
                                   er_duplicate := True\<rparr>)
                      else Some (s, r\<lparr>er_record := list_update (er_record r) at slot\<rparr>))"

section \<open>What a run leaves behind\<close>

definition followed :: "exploreRun \<Rightarrow> string option" where
  "followed r =
     (case er_diverged r of
        Some reason \<Rightarrow> Some reason
      | None \<Rightarrow>
          if length (er_record r) < length (er_prefix r)
          then Some (nat_text (length (er_record r)) @ '' choice points reached, '' @ nat_text (length (er_prefix r)) @ '' planned'')
          else None)"

definition asChoice :: "exploreSlot \<Rightarrow> ChoiceTaken option" where
  "asChoice s =
     (if es_kind s = slotTokens then
        if es_taken s < length (es_labels s) then
          Some \<lparr>ct_Kind = ChoiceTokenOrder, ct_Step = es_step s, ct_Where = '''', ct_Alternatives = es_alternatives s,
                ct_Taken = es_taken s, ct_Among = es_labels s, ct_Took = es_labels s ! es_taken s\<rparr>
        else None
      else
        let c = \<lparr>ct_Kind = ChoiceDecisionBranch, ct_Step = 0, ct_Where = '''', ct_Alternatives = es_alternatives s,
                 ct_Taken = es_taken s, ct_Among = [], ct_Took = ''''\<rparr>;
            c = (if es_described s then
                   (let c = c\<lparr>ct_Kind := cp_Kind (es_choice s), ct_Step := cp_Step (es_choice s),
                              ct_Where := cp_Where (es_choice s), ct_Among := cp_Alternatives (es_choice s)\<rparr>
                    in if es_taken s < length (cp_Alternatives (es_choice s))
                       then c\<lparr>ct_Took := cp_Alternatives (es_choice s) ! es_taken s\<rparr> else c)
                 else c)
        in Some (if ct_Took c = ''''
                 then c\<lparr>ct_Took := ''alternative '' @ nat_text (es_taken s + 1) @ '' of '' @ nat_text (es_alternatives s)\<rparr>
                 else c))"

fun all_some :: "'a option list \<Rightarrow> 'a list option" where
  "all_some [] = Some []"
| "all_some (None # xs) = None"
| "all_some (Some x # xs) = map_option (\<lambda>ys. x # ys) (all_some xs)"

definition choices :: "exploreRun \<Rightarrow> ChoiceTaken list option" where
  "choices r = all_some (map asChoice (er_record r))"

definition left_untried :: "exploreSlot \<Rightarrow> bool" where
  "left_untried slot = (\<not> (es_beyond slot \<or> es_taken slot + 1 \<ge> es_alternatives slot))"

definition unexplored :: "exploreRun \<Rightarrow> nat list" where
  "unexplored r =
     filter (\<lambda>i. left_untried (er_record r ! i)) [length (er_prefix r) - 1..<length (er_record r)]"

text \<open>\<open>mark\<close>: the function it returns restores the run it is given to the run as it was.\<close>

definition mark :: "exploreRun \<Rightarrow> exploreRun \<Rightarrow> exploreRun" where
  "mark r = (\<lambda>later. later\<lparr>er_record := take (length (er_record r)) (er_record later), er_explored := er_explored r,
                          er_depthHit := er_depthHit r, er_diverged := er_diverged r\<rparr>)"

end
