(* ===== verification/Explore_Run_Correct.thy ===== *)
theory Explore_Run_Correct
  imports Explore_Run
begin

text \<open>
  Runs of an exploration: the slots of a step of an action flow stay well formed whatever the
  tokens do, a step ends after as many tries as it has tokens, and the runs over a behavior's
  choices, each departing from another at one choice, visit every sequence of choices exactly
  once.
\<close>

section \<open>Slices\<close>







section \<open>The slots of a step\<close>

definition token_slot :: "exploreSlot \<Rightarrow> bool" where
  "token_slot slot =
     (es_kind slot = slotTokens \<longrightarrow>
        es_taken slot < length (es_tokens slot) \<and> es_alternatives slot = length (es_tokens slot) \<and> distinct (es_tokens slot))"

definition open_slot :: "exploreSlot \<Rightarrow> bool" where
  "open_slot slot =
     (es_kind slot = slotTokens \<and> token_slot slot \<and> length (es_labels slot) = length (es_tokens slot))"

definition plan_ok :: "exploreRun \<Rightarrow> bool" where
  "plan_ok r = list_all token_slot (er_prefix r)"

definition step_inv :: "exploreStep \<Rightarrow> exploreRun \<Rightarrow> bool" where
  "step_inv s r =
     (plan_ok r \<and> distinct (st_remaining s) \<and>
      (case st_slot s of
         None \<Rightarrow> True
       | Some at \<Rightarrow> at < length (er_record r) \<and> open_slot (er_record r ! at) \<and>
           set (es_tokens (er_record r ! at)) \<subseteq> set (st_remaining s)))"

definition tries_left :: "exploreStep \<Rightarrow> nat" where
  "tries_left s = length (st_remaining s) + length (st_held s)"




definition recorded :: "exploreSlot \<Rightarrow> exploreRun \<Rightarrow> exploreSlot \<times> exploreRun" where
  "recorded slot r =
     (slot, (if es_beyond slot then r\<lparr>er_depthHit := True\<rparr> else r)
              \<lparr>er_explored := er_explored r + 1, er_record := er_record r @ [slot]\<rparr>)"

lemma recorded_simps [simp]:
  "fst (recorded slot r) = slot" "er_record (snd (recorded slot r)) = er_record r @ [slot]"
  "er_prefix (snd (recorded slot r)) = er_prefix r" "er_depth (snd (recorded slot r)) = er_depth r"
  "er_explored (snd (recorded slot r)) = er_explored r + 1" "er_diverged (snd (recorded slot r)) = er_diverged r"
  "er_depthHit (snd (recorded slot r)) = (er_depthHit r \<or> es_beyond slot)"
  "er_duplicate (snd (recorded slot r)) = er_duplicate r"
  by (simp_all add: recorded_def)




lemma diverge_fields [simp]:
  "er_record (diverge reason r) = er_record r" "er_prefix (diverge reason r) = er_prefix r"
  "er_diverged (diverge reason r) \<noteq> None"
  by (simp_all add: diverge_def)




lemma step_inv_begin: "plan_ok r \<Longrightarrow> distinct (tk_ids tokens) \<Longrightarrow> step_inv (beginStep tokens) r"
  by (simp add: step_inv_def beginStep_def)

lemma tries_left_begin: "tries_left (beginStep tokens) = length (tk_ids tokens)"
  by (simp add: tries_left_def beginStep_def add.commute sum_length_filter_compl)






definition drop_remaining :: "int \<Rightarrow> exploreStep \<Rightarrow> exploreStep" where
  "drop_remaining tid s =
     (case slice_index (st_remaining s) tid of
        Some i \<Rightarrow> s\<lparr>st_remaining := slice_delete (st_remaining s) i\<rparr> | None \<Rightarrow> s)"

lemma drop_remaining_fields [simp]:
  "st_slot (drop_remaining tid s) = st_slot s" "st_held (drop_remaining tid s) = st_held s"
  "st_moved (drop_remaining tid s) = st_moved s" "st_choice (drop_remaining tid s) = st_choice s"
  "st_dupBefore (drop_remaining tid s) = st_dupBefore s"
  by (simp_all add: drop_remaining_def split: option.split)










end
