(* ===== verification/Explore_Queue.thy ===== *)
theory Explore_Queue
  imports Explore_Run "HOL-Library.Product_Lexorder"
begin

text \<open>
  The work queue of an exploration: \<open>internal/exec/runtime/explore_queue.go\<close> and the result types
  of \<open>explore.go\<close>. Prefixes are objects the code shares by pointer between the queue's order,
  its pending list and the jobs, so they live in an explicit store, \<open>q_heap\<close>, and a pointer is
  an index into it. Every method that runs under the queue's mutex is one function on the queue;
  the jobs are a step relation whose steps are those critical sections, in any interleaving.

  Building a context and running the behavior on it is code this component is given as functions:
  it is the parameter \<open>exec\<close>, from the plan a run follows to what came of it. The probabilities
  of weighted decisions (\<open>explore_probability.go\<close>, floating point) are not modelled.
\<close>

section \<open>Outcomes and the result of an exploration\<close>

text \<open>An outcome as the queue uses it: its error, what its methods render, its scope.\<close>

record Outcome =
  oc_Err :: "string option"
  oc_sweepLimit :: bool
  oc_String :: string
  oc_identity :: string
  oc_Scope :: "string list"

definition zero_Outcome :: Outcome where
  "zero_Outcome = \<lparr>oc_Err = None, oc_sweepLimit = False, oc_String = '''', oc_identity = '''', oc_Scope = []\<rparr>"

record ExploredOutcome =
  eo_Outcome :: Outcome
  eo_Linearizations :: nat
  eo_Witness :: "ChoiceTaken list option"
  eo_WitnessRun :: nat

record Exploration =
  x_Budget :: ExploreBudget
  x_Runs :: nat
  x_Outcomes :: "ExploredOutcome list"
  x_BudgetsHit :: "string list"
  x_Unenumerated :: "int list"
  x_Scope :: "string list"

definition Complete :: "Exploration \<Rightarrow> bool" where
  "Complete x = (x_BudgetsHit x = [] \<and> x_Unenumerated x = [])"

definition FailedLinearizations :: "Exploration \<Rightarrow> nat" where
  "FailedLinearizations x =
     sum_list (map eo_Linearizations (filter (\<lambda>o'. oc_Err (eo_Outcome o') \<noteq> None) (x_Outcomes x)))"

definition boundStatementOrders :: string where
  "boundStatementOrders = ''statement orders''"

text \<open>\<open>sort.SliceStable\<close> by rendering, then by identity; Go compares strings byte by byte.\<close>

definition sortOutcomes :: "ExploredOutcome list \<Rightarrow> ExploredOutcome list" where
  "sortOutcomes outcomes = sort_key (\<lambda>o'. (oc_String (eo_Outcome o'), oc_identity (eo_Outcome o'))) outcomes"

definition append_new :: "'a list \<Rightarrow> 'a list \<Rightarrow> 'a list" where
  "append_new into added = foldl (\<lambda>acc g. if g \<notin> set acc then acc @ [g] else acc) into added"

definition mergeGaps :: "int list \<Rightarrow> int list \<Rightarrow> int list" where
  "mergeGaps into gaps = sort (append_new into gaps)"

definition scopeWith :: "string list \<Rightarrow> string list \<Rightarrow> string list" where
  "scopeWith scope added = sort (append_new scope added)"

section \<open>Prefixes and the queue\<close>

datatype prefixState = prefixQueued | prefixRunning | prefixDone | prefixDropped

record explorePrefix =
  pf_record :: "exploreSlot list option"
  pf_departs :: nat
  pf_key :: "nat list"
  pf_index :: nat
  pf_state :: prefixState
  pf_replay :: "exploreRun option"
  pf_outcome :: Outcome
  pf_identity :: string
  pf_gaps :: "int list"
  pf_err :: "string option"

definition new_prefix :: "exploreSlot list option \<Rightarrow> nat \<Rightarrow> nat list \<Rightarrow> explorePrefix" where
  "new_prefix record departs key =
     \<lparr>pf_record = record, pf_departs = departs, pf_key = key, pf_index = 0, pf_state = prefixQueued,
      pf_replay = None, pf_outcome = zero_Outcome, pf_identity = '''', pf_gaps = [], pf_err = None\<rparr>"

text \<open>\<open>plan\<close>: the shared record up to the departure, which takes its next alternative.\<close>

definition departure :: "exploreSlot list \<Rightarrow> nat \<Rightarrow> exploreSlot list" where
  "departure record departs =
     list_update (take (departs + 1) record) departs
       ((record ! departs)\<lparr>es_taken := es_taken (record ! departs) + 1\<rparr>)"

definition pf_plan :: "explorePrefix \<Rightarrow> exploreSlot list" where
  "pf_plan p = (case pf_record p of None \<Rightarrow> [] | Some record \<Rightarrow> departure record (pf_departs p))"

text \<open>\<open>before\<close> on keys; \<open>slices.Compare\<close> is the lexicographic order on integer slices.\<close>

definition key_before :: "nat list \<Rightarrow> nat list \<Rightarrow> bool" where
  "key_before k l = (if length k \<noteq> length l then length k < length l else k < l)"

definition before :: "explorePrefix \<Rightarrow> explorePrefix \<Rightarrow> bool" where
  "before p o' = key_before (pf_key p) (pf_key o')"

record exploreQueue =
  q_budget :: ExploreBudget
  q_jobs :: nat
  q_heap :: "explorePrefix list"
  q_order :: "nat list"
  q_frontier :: nat
  q_running :: nat
  q_pending :: "nat list"
  q_discarded :: nat
  q_beyond :: bool
  q_done :: bool
  q_result :: Exploration
  q_reached :: "string \<rightharpoonup> nat"
  q_depthHit :: bool
  q_err :: "string option"

definition at_heap :: "exploreQueue \<Rightarrow> nat \<Rightarrow> explorePrefix" where
  "at_heap q a = q_heap q ! a"

definition on_heap :: "nat \<Rightarrow> (explorePrefix \<Rightarrow> explorePrefix) \<Rightarrow> exploreQueue \<Rightarrow> exploreQueue" where
  "on_heap a f q = q\<lparr>q_heap := list_update (q_heap q) a (f (q_heap q ! a))\<rparr>"

definition run_limit :: "exploreQueue \<Rightarrow> nat" where
  "run_limit q = nat (Runs (q_budget q))"

definition release :: "explorePrefix \<Rightarrow> explorePrefix" where
  "release p = p\<lparr>pf_replay := None, pf_outcome := zero_Outcome, pf_err := None\<rparr>"

definition forget :: "nat \<Rightarrow> exploreQueue \<Rightarrow> exploreQueue" where
  "forget a q = q\<lparr>q_pending := remove1 a (q_pending q)\<rparr>"

definition fail :: "string \<Rightarrow> exploreQueue \<Rightarrow> exploreQueue" where
  "fail err q = q\<lparr>q_err := (if q_err q = None then Some err else q_err q), q_done := True\<rparr>"

section \<open>Queueing prefixes\<close>

text \<open>One prefix moved past the runs cut.\<close>

definition drop_prefix :: "nat \<Rightarrow> exploreQueue \<Rightarrow> exploreQueue" where
  "drop_prefix a q =
     (let q = (if pf_state (at_heap q a) = prefixRunning \<or> pf_state (at_heap q a) = prefixDone
               then forget a (q\<lparr>q_discarded := q_discarded q + 1\<rparr>) else q)
      in on_heap a (\<lambda>p. release (p\<lparr>pf_state := prefixDropped\<rparr>)) q)"

text \<open>The cut of the order at the runs budget.\<close>

definition cut_order :: "exploreQueue \<Rightarrow> exploreQueue" where
  "cut_order q =
     (if length (q_order q) > run_limit q then
        let q = fold drop_prefix (drop (run_limit q) (q_order q)) (q\<lparr>q_beyond := True\<rparr>)
        in q\<lparr>q_order := take (run_limit q) (q_order q)\<rparr>
      else q)"

text \<open>The loop numbering the order from position \<open>at\<close> on.\<close>

definition reindex :: "nat \<Rightarrow> exploreQueue \<Rightarrow> exploreQueue" where
  "reindex at q = fold (\<lambda>i. on_heap (q_order q ! i) (\<lambda>p. p\<lparr>pf_index := i\<rparr>)) [at..<length (q_order q)] q"

text \<open>
  \<open>insert\<close>: \<open>slices.BinarySearchFunc\<close> answers the first position whose prefix does not precede
  the first new one.
\<close>

definition insert_prefixes :: "explorePrefix list \<Rightarrow> exploreQueue \<Rightarrow> exploreQueue" where
  "insert_prefixes prefixes q =
     (if prefixes = [] then q
      else
        let at = length (takeWhile (\<lambda>a. before (at_heap q a) (hd prefixes)) (q_order q));
            ids = [length (q_heap q)..<length (q_heap q) + length prefixes]
        in reindex at (cut_order (q\<lparr>q_heap := q_heap q @ prefixes,
                                    q_order := take at (q_order q) @ ids @ drop at (q_order q)\<rparr>)))"

definition newExploreQueue :: "ExploreBudget \<Rightarrow> int \<Rightarrow> exploreQueue" where
  "newExploreQueue budget jobs =
     insert_prefixes [new_prefix None 0 []]
       \<lparr>q_budget = budget, q_jobs = nat (max (min jobs (Runs budget)) 1), q_heap = [], q_order = [],
        q_frontier = 0, q_running = 0, q_pending = [], q_discarded = 0, q_beyond = False, q_done = False,
        q_result = \<lparr>x_Budget = budget, x_Runs = 0, x_Outcomes = [], x_BudgetsHit = [], x_Unenumerated = [], x_Scope = []\<rparr>,
        q_reached = Map.empty, q_depthHit = False, q_err = None\<rparr>"

section \<open>Handing out prefixes\<close>

definition speculative :: "exploreQueue \<Rightarrow> nat" where
  "speculative q = length (filter (\<lambda>a. pf_index (at_heap q a) > q_frontier q) (q_pending q))"

text \<open>The loop of \<open>startable\<close> over the positions from \<open>i\<close> on.\<close>

function startable_from :: "nat \<Rightarrow> exploreQueue \<Rightarrow> nat option" where
  "startable_from i q =
     (if i < length (q_order q) then
        if pf_state (at_heap q (q_order q ! i)) \<noteq> prefixQueued then startable_from (i + 1) q
        else if i = q_frontier q \<or> q_discarded q + speculative q < q_jobs q then Some (q_order q ! i)
        else None
      else None)"
  by pat_completeness auto
termination
  by (relation "measure (\<lambda>(i, q). length (q_order q) - i)") auto

declare startable_from.simps [simp del]

definition startable :: "exploreQueue \<Rightarrow> nat option" where
  "startable q = startable_from (q_frontier q) q"

text \<open>One turn of the loop of \<open>next\<close>: a prefix, the end, or a wait. \<open>stop\<close> is the caller's error.\<close>

datatype next_answer = Next_Prefix nat | Next_Over | Next_Wait

definition queue_next :: "string option \<Rightarrow> exploreQueue \<Rightarrow> next_answer \<times> exploreQueue" where
  "queue_next stop q =
     (if q_done q then (Next_Over, q)
      else if q_frontier q = length (q_order q) then
        if q_running q = 0 then (Next_Over, q\<lparr>q_done := True\<rparr>) else (Next_Wait, q)
      else case stop of
        Some err \<Rightarrow> (Next_Over, fail err q)
      | None \<Rightarrow>
          (case startable q of
             Some a \<Rightarrow>
               (Next_Prefix a,
                (on_heap a (\<lambda>p. p\<lparr>pf_state := prefixRunning\<rparr>) q)
                  \<lparr>q_running := q_running q + 1, q_pending := q_pending q @ [a]\<rparr>)
           | None \<Rightarrow> (Next_Wait, q)))"

section \<open>Folding results\<close>

definition ErrExplorationDiverged :: string where
  "ErrExplorationDiverged = ''exploration diverged''"

text \<open>One committed run taken into the result; \<open>n\<close> is the frontier, its 1-based number.\<close>

definition take_outcome :: "nat \<Rightarrow> exploreRun \<Rightarrow> Outcome \<Rightarrow> string \<Rightarrow> int list \<Rightarrow> exploreQueue \<Rightarrow> exploreQueue" where
  "take_outcome n replay outcome identity gaps q =
     (let q = q\<lparr>q_depthHit := q_depthHit q \<or> er_depthHit replay\<rparr>;
          x = q_result q;
          x = x\<lparr>x_Unenumerated := mergeGaps (x_Unenumerated x) gaps\<rparr>;
          x = (if oc_sweepLimit outcome \<and> boundStatementOrders \<notin> set (x_BudgetsHit x)
               then x\<lparr>x_BudgetsHit := x_BudgetsHit x @ [boundStatementOrders]\<rparr> else x);
          x = x\<lparr>x_Scope := scopeWith (x_Scope x) (oc_Scope outcome)\<rparr>
      in case q_reached q identity of
           None \<Rightarrow>
             q\<lparr>q_reached := (q_reached q)(identity \<mapsto> length (x_Outcomes x)),
               q_result := x\<lparr>x_Outcomes := x_Outcomes x @
                 [\<lparr>eo_Outcome = outcome, eo_Linearizations = 1, eo_Witness = choices replay, eo_WitnessRun = n\<rparr>]\<rparr>\<rparr>
         | Some i \<Rightarrow>
             if \<not> er_duplicate replay then
               q\<lparr>q_result := x\<lparr>x_Outcomes := list_update (x_Outcomes x) i
                   ((x_Outcomes x ! i)\<lparr>eo_Linearizations := eo_Linearizations (x_Outcomes x ! i) + 1\<rparr>)\<rparr>\<rparr>
             else q\<lparr>q_result := x\<rparr>)"

text \<open>One turn of the loop of \<open>fold\<close>, for the prefix at the frontier, which is done.\<close>

definition fold_one :: "exploreQueue \<Rightarrow> exploreQueue" where
  "fold_one q =
     (let a = q_order q ! q_frontier q;
          p = at_heap q a;
          q = forget a q;
          q = q\<lparr>q_frontier := q_frontier q + 1\<rparr>;
          q = q\<lparr>q_result := (q_result q)\<lparr>x_Runs := q_frontier q\<rparr>\<rparr>
      in case pf_err p of
           Some err \<Rightarrow>
             fail (if pf_replay p \<noteq> None
                   then ErrExplorationDiverged @ '': run '' @ nat_text (q_frontier q) @ '': '' @ err else err) q
         | None \<Rightarrow>
             (case pf_replay p of
                None \<Rightarrow> q
              | Some replay \<Rightarrow>
                  on_heap a release (take_outcome (q_frontier q) replay (pf_outcome p) (pf_identity p) (pf_gaps p) q)))"

function fold_queue :: "exploreQueue \<Rightarrow> exploreQueue" where
  "fold_queue q =
     (if q_frontier q < length (q_order q) \<and> pf_state (at_heap q (q_order q ! q_frontier q)) = prefixDone then
        let failed = pf_err (at_heap q (q_order q ! q_frontier q)) \<noteq> None
        in if failed then fold_one q else fold_queue (fold_one q)
      else q)"
  by pat_completeness auto

lemma fold_one_fields:
  "q_order (fold_one q) = q_order q" "q_frontier (fold_one q) = q_frontier q + 1"
  by (auto simp: fold_one_def Let_def forget_def fail_def on_heap_def take_outcome_def split: option.split)

termination fold_queue
  by (relation "measure (\<lambda>q. length (q_order q) - q_frontier q)") (auto simp: fold_one_fields)

declare fold_queue.simps [simp del]

text \<open>What came of a run: it never began, or it ran with this record, outcome and gaps.\<close>

datatype run_result = Setup_Failed string | Ran exploreRun Outcome "int list"

definition finish :: "nat \<Rightarrow> run_result \<Rightarrow> exploreQueue \<Rightarrow> exploreQueue" where
  "finish a result q =
     (let (replay, outcome, gaps, err) =
            (case result of
               Setup_Failed e \<Rightarrow> (None, zero_Outcome, pf_gaps (at_heap q a), Some e)
             | Ran r o' g \<Rightarrow> (Some r, o', g, followed r));
          q = on_heap a (\<lambda>p. p\<lparr>pf_gaps := gaps, pf_identity := (if err = None then oc_identity outcome else pf_identity p)\<rparr>) q;
          q = q\<lparr>q_running := q_running q - 1\<rparr>
      in if pf_state (at_heap q a) = prefixDropped \<or> q_done q then q
         else
           let q = on_heap a (\<lambda>p. p\<lparr>pf_state := prefixDone, pf_replay := replay, pf_outcome := outcome, pf_err := err\<rparr>) q;
               q = (case (err, replay) of
                      (None, Some r) \<Rightarrow>
                        let children = unexplored r;
                            shared = take (last children + 1) (er_record r)
                        in insert_prefixes
                             (map (\<lambda>(i, departs). new_prefix (Some shared) departs (pf_key (at_heap q a) @ [i]))
                                (enumerate 0 children)) q
                    | _ \<Rightarrow> q)
           in fold_queue q)"

section \<open>The jobs\<close>

text \<open>A job is between two prefixes, makes a run of one, following its plan, or has returned.\<close>

datatype job = Idle | Busy nat "exploreSlot list" | Gone

record explorer =
  ex_queue :: exploreQueue
  ex_jobs :: "job list"

definition start_explore :: "ExploreBudget \<Rightarrow> int \<Rightarrow> explorer" where
  "start_explore budget jobs =
     (let q = newExploreQueue budget jobs in \<lparr>ex_queue = q, ex_jobs = replicate (q_jobs q) Idle\<rparr>)"

text \<open>
  The steps of \<open>work\<close>, each at one job: taking a prefix with its plan, returning at the end of
  the queue, and reporting what came of the run. A job that must wait makes no step.
\<close>

inductive job_step :: "(exploreSlot list \<Rightarrow> run_result) \<Rightarrow> explorer \<Rightarrow> explorer \<Rightarrow> bool" for exec where
  job_takes:
    "j < length (ex_jobs s) \<Longrightarrow> ex_jobs s ! j = Idle \<Longrightarrow> queue_next None (ex_queue s) = (Next_Prefix a, q) \<Longrightarrow>
     job_step exec s
       \<lparr>ex_queue = on_heap a (\<lambda>p. p\<lparr>pf_record := None\<rparr>) q,
        ex_jobs = list_update (ex_jobs s) j (Busy a (pf_plan (at_heap q a)))\<rparr>"
| job_returns:
    "j < length (ex_jobs s) \<Longrightarrow> ex_jobs s ! j = Idle \<Longrightarrow> queue_next None (ex_queue s) = (Next_Over, q) \<Longrightarrow>
     job_step exec s \<lparr>ex_queue = q, ex_jobs = list_update (ex_jobs s) j Gone\<rparr>"
| job_finishes:
    "j < length (ex_jobs s) \<Longrightarrow> ex_jobs s ! j = Busy a plan \<Longrightarrow>
     job_step exec s \<lparr>ex_queue = finish a (exec plan) (ex_queue s), ex_jobs = list_update (ex_jobs s) j Idle\<rparr>"

text \<open>What \<open>explore\<close> answers once every job has returned: the error, or the assembled result.\<close>

definition explore_answer :: "exploreQueue \<Rightarrow> string + Exploration" where
  "explore_answer q =
     (case q_err q of
        Some err \<Rightarrow> Inl err
      | None \<Rightarrow>
          let x = q_result q;
              hit = x_BudgetsHit x @ (if q_beyond q then [''runs''] else []) @ (if q_depthHit q then [''depth''] else [])
          in Inr (x\<lparr>x_BudgetsHit := hit, x_Outcomes := sortOutcomes (x_Outcomes x)\<rparr>))"

end
