(* ===== verification/Explore_Queue_Correct.thy ===== *)
theory Explore_Queue_Correct
  imports Explore_Queue
begin

text \<open>
  The work queue is a sequential exploration in plan order: whatever the jobs interleave, what is
  folded into the result is an initial segment, in plan order, of the tree of prefixes the runs
  span, so the answer depends on the behavior and the budget alone. The theory also bounds what
  the jobs do: at most as many speculative runs as there are jobs are thrown away, some job can
  always go on until all have returned, and they return after a bounded number of steps.
\<close>

section \<open>Plan order\<close>

definition key_rank :: "nat list \<Rightarrow> nat \<times> nat list" where
  "key_rank k = (length k, k)"

lemma key_before_rank: "key_before k l \<longleftrightarrow> key_rank k < key_rank l"
  by (auto simp: key_before_def key_rank_def less_prod_def)

lemma key_rank_inj: "key_rank k = key_rank l \<longleftrightarrow> k = l"
  by (auto simp: key_rank_def)

lemma key_before_irrefl [simp]: "\<not> key_before k k"
  by (simp add: key_before_rank)

lemma key_before_trans: "key_before a b \<Longrightarrow> key_before b c \<Longrightarrow> key_before a c"
  by (auto simp: key_before_rank)

lemma key_before_total: "key_before a b \<or> a = b \<or> key_before b a"
  using key_rank_inj by (metis key_before_rank linorder_less_linear)

lemma key_before_asym: "key_before a b \<Longrightarrow> \<not> key_before b a"
  by (auto simp: key_before_rank)

lemma key_before_snoc: "key_before k (k @ [i])"
  by (simp add: key_before_def)

lemma list_less_snoc: "k @ [i] < k @ [j] \<longleftrightarrow> i < j" for i j :: nat
  by (induction k) auto

lemma key_before_siblings: "key_before (k @ [i]) (k @ [j]) \<longleftrightarrow> i < j"
  by (simp add: key_before_def list_less_snoc)

text \<open>Nothing but the children of a key lies between its first child and another one.\<close>

lemma between_siblings:
  "k @ [0] \<le> x \<Longrightarrow> x < k @ [j] \<Longrightarrow> length x = Suc (length k) \<Longrightarrow> \<exists>i. x = k @ [i]" for j :: nat
proof (induction k arbitrary: x)
  case Nil
  then show ?case by (cases x) auto
next
  case (Cons c k)
  then obtain y ys where x: "x = y # ys" by (cases x) auto
  with Cons.prems have "c = y" by auto
  with Cons.IH [of ys] Cons.prems x show ?case by auto
qed

lemma key_between_siblings:
  "\<not> key_before x (k @ [0]) \<Longrightarrow> key_before x (k @ [j]) \<Longrightarrow> \<exists>i. x = k @ [i]"
  using between_siblings [of k x j] by (auto simp: key_before_def not_less split: if_splits)

section \<open>The tree of prefixes\<close>

text \<open>
  The prefixes an exploration without a budget would run, each with the plan it follows: the
  root, and for a run that followed its plan one for every choice it left to vary.
\<close>

inductive planned :: "(exploreSlot list \<Rightarrow> run_result) \<Rightarrow> nat list \<Rightarrow> exploreSlot list \<Rightarrow> bool" for exec where
  root: "planned exec [] []"
| child: "planned exec k plan \<Longrightarrow> exec plan = Ran r out gaps \<Longrightarrow> followed r = None \<Longrightarrow> i < length (unexplored r) \<Longrightarrow>
    planned exec (k @ [i]) (departure (er_record r) (unexplored r ! i))"

inductive_cases planned_snocE: "planned exec (k @ [i]) plan"
inductive_cases planned_NilE: "planned exec [] plan"
inductive_simps planned_Nil [simp]: "planned exec [] plan"

lemma planned_unique: "planned exec k plan \<Longrightarrow> planned exec k plan' \<Longrightarrow> plan = plan'"
proof (induction k plan arbitrary: plan' rule: planned.induct)
  case (child k plan r out gaps i)
  from child.prems obtain plan2 r2 out2 gaps2 where
    "planned exec k plan2" "exec plan2 = Ran r2 out2 gaps2" "plan' = departure (er_record r2) (unexplored r2 ! i)"
    by (elim planned_snocE) auto
  with child.IH child.hyps show ?case by auto
qed simp

lemma planned_parent: "planned exec k plan \<Longrightarrow> k \<noteq> [] \<Longrightarrow> \<exists>plan'. planned exec (butlast k) plan'"
  by (erule planned.cases) auto

text \<open>Initial segments of the tree in plan order; any two of them agree as far as both go.\<close>

definition segment :: "(exploreSlot list \<Rightarrow> run_result) \<Rightarrow> nat list list \<Rightarrow> bool" where
  "segment exec ks =
     (sorted_wrt key_before ks \<and> (\<forall>k \<in> set ks. \<exists>plan. planned exec k plan) \<and>
      (\<forall>k plan. planned exec k plan \<and> k \<notin> set ks \<longrightarrow> (\<forall>l \<in> set ks. key_before l k)))"

lemma sorted_distinct_keys: "sorted_wrt key_before ks \<Longrightarrow> distinct ks"
  by (induction ks) auto

lemma segment_take: "segment exec ks \<Longrightarrow> segment exec (take n ks)"
proof -
  assume s: "segment exec ks"
  have sorted: "sorted_wrt key_before (take n ks)" "\<forall>a \<in> set (take n ks). \<forall>b \<in> set (drop n ks). key_before a b"
    using s by (metis append_take_drop_id segment_def sorted_wrt_append)+
  have "set ks = set (take n ks) \<union> set (drop n ks)" by (metis append_take_drop_id set_append)
  with s sorted show ?thesis unfolding segment_def by (metis Un_iff)
qed

lemma sorted_keys_equal:
  assumes "sorted_wrt key_before ks" "sorted_wrt key_before ls" "set ks = set ls"
  shows "ks = ls"
proof -
  have "sorted_wrt (<) (map key_rank ks)" "sorted_wrt (<) (map key_rank ls)"
    using assms(1,2) by (simp_all add: sorted_wrt_map key_before_rank [symmetric])
  with assms(3) have "map key_rank ks = map key_rank ls" by (intro strict_sorted_equal) auto
  then show ?thesis by (metis inj_map_eq_map injI key_rank_inj)
qed

lemma segments_agree:
  assumes "segment exec ks" "segment exec ls" "length ks \<le> length ls"
  shows "ks = take (length ks) ls"
proof -
  have dist: "distinct ks" "distinct ls" using assms sorted_distinct_keys by (auto simp: segment_def)
  have "set ks \<subseteq> set ls \<or> set ls \<subseteq> set ks"
    using assms(1,2) unfolding segment_def by (meson key_before_asym subsetI)
  then have sub: "set ks \<subseteq> set ls"
    using dist assms(3) by (metis card_seteq distinct_card finite_set order_refl)
  let ?rest = "filter (\<lambda>k. k \<notin> set ks) ls"
  have "sorted_wrt key_before (ks @ ?rest)"
    using assms(1,2) unfolding segment_def
    by (fastforce simp: sorted_wrt_append sorted_wrt_filter)
  then have "ks @ ?rest = ls" using sub assms(2)
    by (intro sorted_keys_equal) (auto simp: segment_def)
  then show ?thesis by (metis append_eq_conv_conj)
qed

section \<open>The store\<close>

lemma at_on_heap:
  "at_heap (on_heap a f q) b = (if b = a \<and> a < length (q_heap q) then f (at_heap q a) else at_heap q b)"
  by (auto simp: at_heap_def on_heap_def nth_list_update not_less list_update_beyond)

lemma at_heap_fields [simp]:
  "at_heap (q\<lparr>q_order := order\<rparr>) = at_heap q" "at_heap (q\<lparr>q_frontier := n\<rparr>) = at_heap q"
  "at_heap (q\<lparr>q_running := n\<rparr>) = at_heap q" "at_heap (q\<lparr>q_pending := xs\<rparr>) = at_heap q"
  "at_heap (q\<lparr>q_discarded := n\<rparr>) = at_heap q" "at_heap (q\<lparr>q_beyond := b\<rparr>) = at_heap q"
  "at_heap (q\<lparr>q_done := b\<rparr>) = at_heap q" "at_heap (q\<lparr>q_result := x\<rparr>) = at_heap q"
  "at_heap (q\<lparr>q_reached := m\<rparr>) = at_heap q" "at_heap (q\<lparr>q_depthHit := b\<rparr>) = at_heap q"
  "at_heap (q\<lparr>q_err := e\<rparr>) = at_heap q"
  by (simp_all add: fun_eq_iff at_heap_def)

lemma on_heap_fields [simp]:
  "length (q_heap (on_heap a f q)) = length (q_heap q)" "q_order (on_heap a f q) = q_order q"
  "q_frontier (on_heap a f q) = q_frontier q" "q_running (on_heap a f q) = q_running q"
  "q_pending (on_heap a f q) = q_pending q" "q_discarded (on_heap a f q) = q_discarded q"
  "q_beyond (on_heap a f q) = q_beyond q" "q_done (on_heap a f q) = q_done q"
  "q_result (on_heap a f q) = q_result q" "q_reached (on_heap a f q) = q_reached q"
  "q_depthHit (on_heap a f q) = q_depthHit q" "q_err (on_heap a f q) = q_err q"
  "q_budget (on_heap a f q) = q_budget q" "q_jobs (on_heap a f q) = q_jobs q"
  "run_limit (on_heap a f q) = run_limit q"
  by (simp_all add: on_heap_def run_limit_def)

text \<open>The fields of a queue that only \<open>next\<close>, \<open>finish\<close> and \<open>fold\<close> change.\<close>

definition same_rest :: "exploreQueue \<Rightarrow> exploreQueue \<Rightarrow> bool" where
  "same_rest q q' =
     (q_frontier q' = q_frontier q \<and> q_running q' = q_running q \<and> q_done q' = q_done q \<and>
      q_result q' = q_result q \<and> q_reached q' = q_reached q \<and> q_depthHit q' = q_depthHit q \<and>
      q_err q' = q_err q \<and> q_budget q' = q_budget q \<and> q_jobs q' = q_jobs q)"

lemma same_rest_refl [simp]: "same_rest q q"
  by (simp add: same_rest_def)

lemma same_rest_trans: "same_rest a b \<Longrightarrow> same_rest b c \<Longrightarrow> same_rest a c"
  by (simp add: same_rest_def)

abbreviation started :: "explorePrefix \<Rightarrow> bool" where
  "started p \<equiv> pf_state p = prefixRunning \<or> pf_state p = prefixDone"

definition dropped :: "explorePrefix \<Rightarrow> explorePrefix" where
  "dropped p = release (p\<lparr>pf_state := prefixDropped\<rparr>)"

lemma drop_prefix_fields:
  "length (q_heap (drop_prefix a q)) = length (q_heap q)" "q_order (drop_prefix a q) = q_order q"
  "q_beyond (drop_prefix a q) = q_beyond q" "same_rest q (drop_prefix a q)"
  "q_pending (drop_prefix a q) = (if started (at_heap q a) then remove1 a (q_pending q) else q_pending q)"
  "q_discarded (drop_prefix a q) = q_discarded q + (if started (at_heap q a) then 1 else 0)"
  by (simp_all add: drop_prefix_def forget_def same_rest_def Let_def)

lemma at_drop_prefix:
  "at_heap (drop_prefix a q) b = (if b = a \<and> a < length (q_heap q) then dropped (at_heap q a) else at_heap q b)"
  by (auto simp: drop_prefix_def at_on_heap dropped_def forget_def Let_def)

lemma length_filter_remove1:
  "distinct xs \<Longrightarrow> a \<in> set xs \<Longrightarrow> P a \<Longrightarrow> length (filter P xs) = Suc (length (filter P (remove1 a xs)))"
  by (induction xs) auto

lemma drop_prefixes:
  assumes "distinct xs" "\<forall>a \<in> set xs. a < length (q_heap q) \<and> (started (at_heap q a) \<longleftrightarrow> a \<in> set (q_pending q))"
    "distinct (q_pending q)"
  shows "length (q_heap (fold drop_prefix xs q)) = length (q_heap q) \<and> q_order (fold drop_prefix xs q) = q_order q \<and>
    q_beyond (fold drop_prefix xs q) = q_beyond q \<and> same_rest q (fold drop_prefix xs q) \<and>
    (\<forall>b. at_heap (fold drop_prefix xs q) b = (if b \<in> set xs then dropped (at_heap q b) else at_heap q b)) \<and>
    q_pending (fold drop_prefix xs q) = filter (\<lambda>a. a \<notin> set xs) (q_pending q) \<and>
    q_discarded (fold drop_prefix xs q) = q_discarded q + length (filter (\<lambda>a. a \<in> set xs) (q_pending q))"
  using assms
proof (induction xs arbitrary: q)
  case (Cons a xs)
  let ?q = "drop_prefix a q"
  have pend: "q_pending ?q = remove1 a (q_pending q)"
    using Cons.prems by (auto simp: drop_prefix_fields remove1_idem)
  have ih: "length (q_heap (fold drop_prefix xs ?q)) = length (q_heap ?q) \<and> q_order (fold drop_prefix xs ?q) = q_order ?q \<and>
    q_beyond (fold drop_prefix xs ?q) = q_beyond ?q \<and> same_rest ?q (fold drop_prefix xs ?q) \<and>
    (\<forall>b. at_heap (fold drop_prefix xs ?q) b = (if b \<in> set xs then dropped (at_heap ?q b) else at_heap ?q b)) \<and>
    q_pending (fold drop_prefix xs ?q) = filter (\<lambda>a. a \<notin> set xs) (q_pending ?q) \<and>
    q_discarded (fold drop_prefix xs ?q) = q_discarded ?q + length (filter (\<lambda>a. a \<in> set xs) (q_pending ?q))"
    using Cons.prems pend by (intro Cons.IH) (auto simp: drop_prefix_fields at_drop_prefix)
  have "filter (\<lambda>b. b \<notin> set xs) (remove1 a (q_pending q)) = filter (\<lambda>b. b \<notin> set (a # xs)) (q_pending q)"
    using Cons.prems(3) by (simp add: distinct_remove1_removeAll removeAll_filter_not_eq conj_commute)
      (metis (mono_tags, lifting))
  moreover have "length (filter (\<lambda>b. b \<in> set (a # xs)) (q_pending q)) =
      (if started (at_heap q a) then 1 else 0) + length (filter (\<lambda>b. b \<in> set xs) (remove1 a (q_pending q)))"
  proof (cases "a \<in> set (q_pending q)")
    case True
    have "filter (\<lambda>b. b \<in> set (a # xs)) (remove1 a (q_pending q)) = filter (\<lambda>b. b \<in> set xs) (remove1 a (q_pending q))"
      using Cons.prems(3) by (intro filter_cong) auto
    then show ?thesis
      using length_filter_remove1 [OF Cons.prems(3) True, of "\<lambda>b. b \<in> set (a # xs)"] True Cons.prems by simp
  next
    case False
    have "filter (\<lambda>b. b \<in> set (a # xs)) (q_pending q) = filter (\<lambda>b. b \<in> set xs) (q_pending q)"
      using False by (intro filter_cong) auto
    then show ?thesis using False Cons.prems(2) by (simp add: remove1_idem)
  qed
  ultimately show ?case
    using ih pend Cons.prems same_rest_trans [of q ?q] by (auto simp: drop_prefix_fields at_drop_prefix)
qed simp

text \<open>Renumbering changes positions only.\<close>

definition core :: "explorePrefix \<Rightarrow> explorePrefix" where
  "core p = p\<lparr>pf_index := 0\<rparr>"

lemma core_fields:
  "core p = core p' \<Longrightarrow> pf_record p = pf_record p' \<and> pf_departs p = pf_departs p' \<and> pf_key p = pf_key p' \<and>
     pf_state p = pf_state p' \<and> pf_replay p = pf_replay p' \<and> pf_outcome p = pf_outcome p' \<and>
     pf_identity p = pf_identity p' \<and> pf_gaps p = pf_gaps p' \<and> pf_err p = pf_err p' \<and> pf_plan p = pf_plan p'"
  by (drule arg_cong [where f = "\<lambda>p. (pf_record p, pf_departs p, pf_key p, pf_state p, pf_replay p, pf_outcome p,
    pf_identity p, pf_gaps p, pf_err p)"]) (auto simp: core_def pf_plan_def split: option.split)

lemma renumber:
  assumes "distinct xs" "set xs \<subseteq> {..<length (q_heap q)}" "distinct is" "set is \<subseteq> {..<length xs}"
  shows "let q' = fold (\<lambda>i. on_heap (xs ! i) (\<lambda>p. p\<lparr>pf_index := i\<rparr>)) is q in
    length (q_heap q') = length (q_heap q) \<and> q_order q' = q_order q \<and> q_pending q' = q_pending q \<and>
    q_discarded q' = q_discarded q \<and> q_beyond q' = q_beyond q \<and> same_rest q q' \<and>
    (\<forall>b. core (at_heap q' b) = core (at_heap q b)) \<and>
    (\<forall>i < length xs. pf_index (at_heap q' (xs ! i)) = (if i \<in> set is then i else pf_index (at_heap q (xs ! i))))"
  using assms
proof (induction "is" arbitrary: q)
  case (Cons i "is")
  let ?q = "on_heap (xs ! i) (\<lambda>p. p\<lparr>pf_index := i\<rparr>) q"
  have i: "i < length xs" "xs ! i < length (q_heap q)" using Cons.prems by (auto simp: subset_iff)
  have at: "at_heap ?q b = (if b = xs ! i then (at_heap q b)\<lparr>pf_index := i\<rparr> else at_heap q b)" for b
    using i by (simp add: at_on_heap)
  have same: "same_rest q ?q" by (simp add: same_rest_def)
  have "j < length xs \<Longrightarrow> xs ! j = xs ! i \<longleftrightarrow> j = i" for j
    using Cons.prems(1) i(1) by (simp add: nth_eq_iff_index_eq)
  then have idx: "j < length xs \<Longrightarrow> pf_index (at_heap ?q (xs ! j)) = (if j = i then i else pf_index (at_heap q (xs ! j)))" for j
    using at by simp
  have "core (at_heap ?q b) = core (at_heap q b)" for b by (simp add: at core_def)
  with Cons.IH [of ?q] Cons.prems same idx show ?case
    by (auto simp: Let_def intro: same_rest_trans)
qed (simp add: Let_def)

section \<open>What an insertion does\<close>

text \<open>The order with the new prefixes, before the cut; \<open>at\<close> is where they go.\<close>

definition insert_at :: "explorePrefix list \<Rightarrow> exploreQueue \<Rightarrow> nat" where
  "insert_at ps q = length (takeWhile (\<lambda>a. before (at_heap q a) (hd ps)) (q_order q))"

definition full_order :: "explorePrefix list \<Rightarrow> exploreQueue \<Rightarrow> nat list" where
  "full_order ps q =
     take (insert_at ps q) (q_order q) @ [length (q_heap q)..<length (q_heap q) + length ps] @ drop (insert_at ps q) (q_order q)"

definition wf_order :: "exploreQueue \<Rightarrow> bool" where
  "wf_order q =
     (distinct (q_order q) \<and> set (q_order q) \<subseteq> {..<length (q_heap q)} \<and> length (q_order q) \<le> run_limit q \<and>
      (\<forall>i < length (q_order q). pf_index (at_heap q (q_order q ! i)) = i) \<and>
      distinct (q_pending q) \<and> set (q_pending q) \<subseteq> set (q_order q))"

definition pending_started :: "exploreQueue \<Rightarrow> bool" where
  "pending_started q =
     (\<forall>i < length (q_order q). q_frontier q \<le> i \<longrightarrow>
        (started (at_heap q (q_order q ! i)) \<longleftrightarrow> q_order q ! i \<in> set (q_pending q)))"

definition cut_off :: "explorePrefix list \<Rightarrow> exploreQueue \<Rightarrow> nat list" where
  "cut_off ps q = drop (run_limit q) (full_order ps q)"

definition inserted :: "explorePrefix list \<Rightarrow> exploreQueue \<Rightarrow> exploreQueue \<Rightarrow> bool" where
  "inserted ps q q' =
     (length (q_heap q') = length (q_heap q) + length ps \<and>
      q_order q' = take (run_limit q) (full_order ps q) \<and>
      same_rest q q' \<and>
      q_beyond q' = (q_beyond q \<or> cut_off ps q \<noteq> []) \<and>
      (\<forall>b. core (at_heap q' b) =
         core (if b \<in> set (cut_off ps q) then dropped ((q_heap q @ ps) ! b) else (q_heap q @ ps) ! b)) \<and>
      (\<forall>i < length (q_order q'). pf_index (at_heap q' (q_order q' ! i)) = i) \<and>
      q_pending q' = filter (\<lambda>a. a \<notin> set (cut_off ps q)) (q_pending q) \<and>
      q_discarded q' = q_discarded q + length (filter (\<lambda>a. a \<in> set (cut_off ps q)) (q_pending q)))"

lemma insert_at_le: "insert_at ps q \<le> length (q_order q)"
  by (simp add: insert_at_def length_takeWhile_le)

lemma length_full_order: "length (full_order ps q) = length (q_order q) + length ps"
  using insert_at_le [of ps q] by (simp add: full_order_def)

lemma set_full_order: "set (full_order ps q) = set (q_order q) \<union> {length (q_heap q)..<length (q_heap q) + length ps}"
proof -
  have "set (take (insert_at ps q) (q_order q)) \<union> set (drop (insert_at ps q) (q_order q)) = set (q_order q)"
    by (metis append_take_drop_id set_append)
  then show ?thesis by (auto simp: full_order_def)
qed

lemma distinct_full_order: "wf_order q \<Longrightarrow> distinct (full_order ps q)"
proof -
  assume w: "wf_order q"
  let ?a = "take (insert_at ps q) (q_order q)" and ?c = "drop (insert_at ps q) (q_order q)"
  let ?b = "[length (q_heap q)..<length (q_heap q) + length ps]"
  have "distinct (q_order q)" "set ?a \<subseteq> {..<length (q_heap q)}" "set ?c \<subseteq> {..<length (q_heap q)}"
    using w set_take_subset [of "insert_at ps q" "q_order q"] set_drop_subset [of "insert_at ps q" "q_order q"]
    by (simp_all add: wf_order_def subset_trans)
  moreover have "set ?b = {length (q_heap q)..<length (q_heap q) + length ps}" by simp
  moreover have "set ?a \<inter> set ?c = {}" using \<open>distinct (q_order q)\<close> by (simp add: set_take_disj_set_drop_if_distinct)
  ultimately have "distinct ?a" "distinct ?b" "distinct ?c" "set ?a \<inter> set ?b = {}" "set ?b \<inter> set ?c = {}" "set ?a \<inter> set ?c = {}"
    by (simp_all add: disjoint_iff subset_eq) (meson leD)+
  then show ?thesis unfolding full_order_def distinct_append set_append by blast
qed

lemma new_address:
  "wf_order q \<Longrightarrow> b \<in> set (full_order ps q) \<Longrightarrow> \<not> b < length (q_heap q) \<Longrightarrow>
   \<exists>i < length ps. b = length (q_heap q) + i"
  by (intro exI [of _ "b - length (q_heap q)"]) (auto simp: set_full_order wf_order_def)

lemma cut_off_after:
  assumes "wf_order q" "a \<in> set (cut_off ps q)" "a < length (q_heap q)"
  shows "\<exists>i < length (q_order q). q_order q ! i = a \<and> insert_at ps q \<le> i"
proof -
  have "insert_at ps q \<le> run_limit q" using assms(1) insert_at_le [of ps q] by (simp add: wf_order_def)
  then have "cut_off ps q = drop (run_limit q - insert_at ps q)
      ([length (q_heap q)..<length (q_heap q) + length ps] @ drop (insert_at ps q) (q_order q))"
    using insert_at_le [of ps q] by (simp add: cut_off_def full_order_def)
  then have "set (cut_off ps q) \<subseteq> {length (q_heap q)..<length (q_heap q) + length ps} \<union> set (drop (insert_at ps q) (q_order q))"
    using set_drop_subset [of "run_limit q - insert_at ps q"
      "[length (q_heap q)..<length (q_heap q) + length ps] @ drop (insert_at ps q) (q_order q)"] by auto
  with assms(2,3) have "a \<in> set (drop (insert_at ps q) (q_order q))" by auto
  then obtain j where "j < length (q_order q) - insert_at ps q" "drop (insert_at ps q) (q_order q) ! j = a"
    by (auto simp: in_set_conv_nth)
  then show ?thesis by (intro exI [of _ "insert_at ps q + j"]) auto
qed

lemma insert_prefixes_spec:
  assumes wf: "wf_order q" "pending_started q" and ps: "ps \<noteq> []" "\<forall>p \<in> set ps. pf_state p = prefixQueued"
    and at: "q_frontier q \<le> insert_at ps q"
  shows "inserted ps q (insert_prefixes ps q)"
proof -
  let ?at = "insert_at ps q" and ?full = "full_order ps q" and ?n = "length (q_heap q)"
  define q1 where "q1 = q\<lparr>q_heap := q_heap q @ ps, q_order := ?full\<rparr>"
  have q1: "q_pending q1 = q_pending q" "length (q_heap q1) = ?n + length ps" "q_order q1 = ?full" "run_limit q1 = run_limit q"
    "same_rest q q1" "q_beyond q1 = q_beyond q" "q_discarded q1 = q_discarded q"
    by (simp_all add: q1_def run_limit_def same_rest_def)
  have heap1: "at_heap q1 b = (q_heap q @ ps) ! b" for b by (simp add: q1_def at_heap_def)
  have full_bound: "set ?full \<subseteq> {..<length (q_heap q1)}"
    using wf(1) by (auto simp: set_full_order q1 wf_order_def)
  have pend: "\<forall>a \<in> set (cut_off ps q). a < length (q_heap q1) \<and> (started (at_heap q1 a) \<longleftrightarrow> a \<in> set (q_pending q1))"
  proof
    fix a assume a: "a \<in> set (cut_off ps q)"
    then have bound: "a < ?n + length ps" using full_bound by (auto simp: cut_off_def q1 dest: in_set_dropD)
    show "a < length (q_heap q1) \<and> (started (at_heap q1 a) \<longleftrightarrow> a \<in> set (q_pending q1))"
    proof (cases "a < ?n")
      case True
      with cut_off_after [OF wf(1) a] obtain i where "i < length (q_order q)" "q_order q ! i = a" "?at \<le> i" by blast
      moreover have "at_heap q1 a = at_heap q a" using True by (simp add: heap1 nth_append at_heap_def [of q])
      ultimately show ?thesis using wf(2) at bound by (auto simp: pending_started_def q1)
    next
      case False
      then have "at_heap q1 a \<in> set ps" using bound by (simp add: heap1 nth_append)
      moreover have "a \<notin> set (q_pending q)" using wf(1) False by (auto simp: wf_order_def)
      ultimately show ?thesis using ps(2) bound q1 by auto
    qed
  qed
  let ?q2 = "cut_order q1"
  have dist: "distinct (cut_off ps q)" "distinct (q_pending q1)"
    using distinct_full_order [OF wf(1), of ps] wf(1) by (auto simp: cut_off_def q1 wf_order_def)
  have beyond: "q1\<lparr>q_beyond := True\<rparr> = q1\<lparr>q_beyond := True\<rparr>" ..
  have q2: "length (q_heap ?q2) = ?n + length ps \<and> q_order ?q2 = take (run_limit q) ?full \<and> same_rest q ?q2 \<and>
      q_beyond ?q2 = (q_beyond q \<or> cut_off ps q \<noteq> []) \<and>
      (\<forall>b. at_heap ?q2 b = (if b \<in> set (cut_off ps q) then dropped ((q_heap q @ ps) ! b) else (q_heap q @ ps) ! b)) \<and>
      q_pending ?q2 = filter (\<lambda>a. a \<notin> set (cut_off ps q)) (q_pending q) \<and>
      q_discarded ?q2 = q_discarded q + length (filter (\<lambda>a. a \<in> set (cut_off ps q)) (q_pending q))"
  proof (cases "length ?full > run_limit q")
    case False
    then have "cut_off ps q = []" by (simp add: cut_off_def)
    with False show ?thesis by (simp add: cut_order_def q1 heap1)
  next
    case True
    let ?b = "q1\<lparr>q_beyond := True\<rparr>"
    have "cut_off ps q \<noteq> []" using True by (simp add: cut_off_def)
    have b: "length (q_heap ?b) = length (q_heap q1)" "q_pending ?b = q_pending q1" "q_order ?b = q_order q1"
      "q_discarded ?b = q_discarded q1" "same_rest q ?b" using q1(5) by (simp_all add: same_rest_def)
    let ?d = "fold drop_prefix (cut_off ps q) ?b"
    have d: "length (q_heap ?d) = length (q_heap ?b) \<and> q_order ?d = q_order ?b \<and> q_beyond ?d = q_beyond ?b \<and> same_rest ?b ?d \<and>
      (\<forall>b. at_heap ?d b = (if b \<in> set (cut_off ps q) then dropped (at_heap ?b b) else at_heap ?b b)) \<and>
      q_pending ?d = filter (\<lambda>a. a \<notin> set (cut_off ps q)) (q_pending ?b) \<and>
      q_discarded ?d = q_discarded ?b + length (filter (\<lambda>a. a \<in> set (cut_off ps q)) (q_pending ?b))"
      using drop_prefixes [of "cut_off ps q" ?b] pend dist b by simp
    then have rest: "same_rest q ?d" using b(5) same_rest_trans by blast
    then have lim: "run_limit ?d = run_limit q" by (simp add: same_rest_def run_limit_def)
    have cut: "cut_order q1 = ?d\<lparr>q_order := take (run_limit ?d) (q_order ?d)\<rparr>"
      using True by (simp add: cut_order_def cut_off_def q1 Let_def)
    show ?thesis
      using d rest b \<open>cut_off ps q \<noteq> []\<close> unfolding cut lim
      by (simp add: q1 heap1 same_rest_def)
  qed
  have res: "insert_prefixes ps q = reindex ?at ?q2"
    using ps(1) by (simp add: insert_prefixes_def Let_def q1_def full_order_def insert_at_def)
  have order2: "distinct (q_order ?q2)" "set (q_order ?q2) \<subseteq> {..<length (q_heap ?q2)}"
    using q2 distinct_full_order [OF wf(1), of ps] full_bound q1(2) set_take_subset [of "run_limit q" ?full] by auto
  have "set [?at..<length (q_order ?q2)] \<subseteq> {..<length (q_order ?q2)}" by auto
  from renumber [OF order2 distinct_upt this, unfolded Let_def, folded reindex_def]
  have r: "length (q_heap (reindex ?at ?q2)) = length (q_heap ?q2)" "q_order (reindex ?at ?q2) = q_order ?q2"
    "q_pending (reindex ?at ?q2) = q_pending ?q2" "q_discarded (reindex ?at ?q2) = q_discarded ?q2"
    "q_beyond (reindex ?at ?q2) = q_beyond ?q2" "same_rest ?q2 (reindex ?at ?q2)"
    "\<And>b. core (at_heap (reindex ?at ?q2) b) = core (at_heap ?q2 b)"
    "\<And>i. i < length (q_order ?q2) \<Longrightarrow> pf_index (at_heap (reindex ?at ?q2) (q_order ?q2 ! i)) =
       (if ?at \<le> i then i else pf_index (at_heap ?q2 (q_order ?q2 ! i)))"
    by simp_all
  have idx: "pf_index (at_heap ?q2 (q_order ?q2 ! i)) = i" if "i < ?at" "i < length (q_order ?q2)" for i
  proof -
    have i: "i < length (q_order q)" using that insert_at_le [of ps q] by simp
    have "q_order ?q2 = take (run_limit q) ?full" using q2 by blast
    then have "i < run_limit q" "q_order ?q2 ! i = ?full ! i" using that(2) by simp_all
    then have "q_order ?q2 ! i = q_order q ! i"
      using that(1) insert_at_le [of ps q] by (simp add: full_order_def nth_append)
    moreover have "q_order q ! i \<notin> set (cut_off ps q)"
    proof
      assume "q_order q ! i \<in> set (cut_off ps q)"
      moreover have "q_order q ! i < ?n" using wf(1) i nth_mem by (fastforce simp: wf_order_def)
      ultimately obtain j where "j < length (q_order q)" "q_order q ! j = q_order q ! i" "?at \<le> j"
        using cut_off_after [OF wf(1)] by blast
      with wf(1) i that show False by (simp add: wf_order_def nth_eq_iff_index_eq)
    qed
    moreover have "q_order q ! i < ?n" using wf(1) i nth_mem by (fastforce simp: wf_order_def)
    ultimately show ?thesis using q2 wf(1) i by (simp add: wf_order_def nth_append at_heap_def)
  qed
  have "\<forall>i < length (q_order (reindex ?at ?q2)). pf_index (at_heap (reindex ?at ?q2) (q_order (reindex ?at ?q2) ! i)) = i"
    using r(2,8) idx by simp
  moreover have "same_rest q (reindex ?at ?q2)" using q2 r(6) same_rest_trans by blast
  ultimately show ?thesis
    unfolding res inserted_def using r(1-5,7) q2 by simp
qed

section \<open>The invariant of the queue\<close>

abbreviation key_of :: "exploreQueue \<Rightarrow> nat \<Rightarrow> nat list" where
  "key_of q a \<equiv> pf_key (at_heap q a)"

abbreviation state_of :: "exploreQueue \<Rightarrow> nat \<Rightarrow> prefixState" where
  "state_of q a \<equiv> pf_state (at_heap q a)"

definition keys :: "exploreQueue \<Rightarrow> nat list list" where
  "keys q = map (key_of q) (q_order q)"

definition holds_result :: "explorePrefix \<Rightarrow> run_result \<Rightarrow> bool" where
  "holds_result p result =
     (case result of
        Setup_Failed e \<Rightarrow> pf_replay p = None \<and> pf_err p = Some e
      | Ran r out gaps \<Rightarrow>
          pf_replay p = Some r \<and> pf_outcome p = out \<and> pf_gaps p = gaps \<and> pf_err p = followed r \<and>
          (followed r = None \<longrightarrow> pf_identity p = oc_identity out))"

definition prefix_ok :: "(exploreSlot list \<Rightarrow> run_result) \<Rightarrow> exploreQueue \<Rightarrow> nat \<Rightarrow> bool" where
  "prefix_ok exec q a =
     (state_of q a \<noteq> prefixDropped \<and>
      (\<exists>plan. planned exec (key_of q a) plan \<and>
         (state_of q a = prefixQueued \<longrightarrow> pf_plan (at_heap q a) = plan) \<and>
         (state_of q a = prefixDone \<and> q_frontier q \<le> pf_index (at_heap q a) \<longrightarrow> holds_result (at_heap q a) (exec plan))))"

text \<open>
  What ties the order to the tree: every prefix queued has its parent there, done; a prefix of
  the tree whose parent is done is in the order unless the budget cut it off, behind all that
  is in the order. \<open>X\<close> are prefixes done whose children are yet to be queued.
\<close>

definition parents_ok :: "nat set \<Rightarrow> exploreQueue \<Rightarrow> bool" where
  "parents_ok X q =
     ([] \<in> set (keys q) \<and>
      (\<forall>a \<in> set (q_order q). key_of q a \<noteq> [] \<longrightarrow>
         (\<exists>b \<in> set (q_order q). b \<notin> X \<and> state_of q b = prefixDone \<and> key_of q b = butlast (key_of q a))))"

definition cut_ok :: "(exploreSlot list \<Rightarrow> run_result) \<Rightarrow> nat set \<Rightarrow> exploreQueue \<Rightarrow> bool" where
  "cut_ok exec X q =
     ((\<forall>k plan. \<forall>b \<in> set (q_order q).
         planned exec k plan \<and> k \<notin> set (keys q) \<and> k \<noteq> [] \<and> b \<notin> X \<and> state_of q b = prefixDone \<and> key_of q b = butlast k \<longrightarrow>
         q_beyond q \<and> (\<forall>l \<in> set (keys q). key_before l k)) \<and>
      (q_beyond q \<longrightarrow>
         length (q_order q) = run_limit q \<and>
         (\<exists>k plan. planned exec k plan \<and> k \<notin> set (keys q) \<and> (\<forall>l \<in> set (keys q). key_before l k))))"

definition order_ok :: "exploreQueue \<Rightarrow> bool" where
  "order_ok q =
     (wf_order q \<and> q_frontier q \<le> length (q_order q) \<and> 1 \<le> run_limit q \<and> sorted_wrt key_before (keys q) \<and>
      (\<forall>i < q_frontier q. state_of q (q_order q ! i) = prefixDone) \<and>
      pending_started q \<and> (\<forall>a \<in> set (q_pending q). q_frontier q \<le> pf_index (at_heap q a)) \<and>
      q_discarded q + speculative q \<le> q_jobs q)"

definition queue_ok :: "(exploreSlot list \<Rightarrow> run_result) \<Rightarrow> nat set \<Rightarrow> exploreQueue \<Rightarrow> bool" where
  "queue_ok exec X q =
     (order_ok q \<and> (\<forall>a \<in> set (q_order q). prefix_ok exec q a) \<and> parents_ok X q \<and> cut_ok exec X q)"

lemma order_ok_index:
  "order_ok q \<Longrightarrow> a \<in> set (q_order q) \<Longrightarrow>
   pf_index (at_heap q a) < length (q_order q) \<and> q_order q ! pf_index (at_heap q a) = a"
  unfolding order_ok_def wf_order_def by (metis in_set_conv_nth)

lemma order_ok_pos:
  "order_ok q \<Longrightarrow> i < length (q_order q) \<Longrightarrow> pf_index (at_heap q (q_order q ! i)) = i"
  by (simp add: order_ok_def wf_order_def)

lemma order_ok_heap: "order_ok q \<Longrightarrow> a \<in> set (q_order q) \<Longrightarrow> a < length (q_heap q)"
  by (auto simp: order_ok_def wf_order_def)

lemma distinct_keys: "order_ok q \<Longrightarrow> distinct (keys q)"
  by (simp add: order_ok_def sorted_distinct_keys)

lemma key_of_inj: "order_ok q \<Longrightarrow> a \<in> set (q_order q) \<Longrightarrow> b \<in> set (q_order q) \<Longrightarrow> key_of q a = key_of q b \<Longrightarrow> a = b"
  using distinct_keys [of q] by (auto simp: keys_def distinct_map dest: inj_onD)

lemma keys_before_iff:
  assumes "order_ok q" "i < length (q_order q)" "j < length (q_order q)"
  shows "key_before (key_of q (q_order q ! i)) (key_of q (q_order q ! j)) \<longleftrightarrow> i < j"
proof -
  have sorted: "i < j \<Longrightarrow> j < length (q_order q) \<Longrightarrow> key_before (key_of q (q_order q ! i)) (key_of q (q_order q ! j))" for i j
    using assms(1) by (auto simp: order_ok_def keys_def sorted_wrt_map sorted_wrt_iff_nth_less)
  show ?thesis
    using sorted [of i j] sorted [of j i] assms by (cases i j rule: linorder_cases) (auto dest: key_before_asym)
qed

text \<open>The prefixes folded so far are an initial segment of the tree.\<close>

lemma leading_done_segment:
  assumes ok: "queue_ok exec {} q" and m: "m \<le> length (q_order q)" "\<forall>i < m. state_of q (q_order q ! i) = prefixDone"
  shows "segment exec (take m (keys q))"
proof -
  have ord: "order_ok q" using ok by (simp add: queue_ok_def)
  have sorted: "sorted_wrt key_before (keys q)" using ord by (simp add: order_ok_def)
  have in_tree: "\<exists>plan. planned exec k plan" if "k \<in> set (keys q)" for k
    using that ok by (auto simp: queue_ok_def prefix_ok_def keys_def)
  have first: "key_before l k" if "l \<in> set (take m (keys q))" "k \<in> set (drop m (keys q))" for l k
    using that sorted by (metis append_take_drop_id sorted_wrt_append)
  have "\<forall>l \<in> set (take m (keys q)). key_before l y"
    if "planned exec y plan" "y \<notin> set (take m (keys q))" for y plan
    using that
  proof (induction y arbitrary: plan rule: rev_induct)
    case Nil
    have "[] \<in> set (keys q)" using ok by (simp add: queue_ok_def parents_ok_def)
    with Nil.prems(2) have "[] \<in> set (drop m (keys q))" by (metis Un_iff append_take_drop_id set_append)
    then show ?case using first by blast
  next
    case (snoc i k)
    show ?case
    proof (cases "k @ [i] \<in> set (keys q)")
      case True
      with snoc.prems(2) have "k @ [i] \<in> set (drop m (keys q))" by (metis Un_iff append_take_drop_id set_append)
      then show ?thesis using first by blast
    next
      case out: False
      obtain plan' where plan': "planned exec k plan'" using snoc.prems(1) by (elim planned_snocE) auto
      show ?thesis
      proof (cases "k \<in> set (take m (keys q))")
        case False
        with snoc.IH [OF plan'] show ?thesis using key_before_snoc key_before_trans by blast
      next
        case True
        then obtain j where j: "j < m" "j < length (q_order q)" "key_of q (q_order q ! j) = k"
          by (auto simp: keys_def in_set_conv_nth)
        then have "state_of q (q_order q ! j) = prefixDone" using m(2) by simp
        then have "\<forall>l \<in> set (keys q). key_before l (k @ [i])"
          using ok snoc.prems(1) out j nth_mem [OF j(2)] unfolding queue_ok_def cut_ok_def
          by (metis butlast_snoc empty_iff snoc_eq_iff_butlast)
        then show ?thesis by (meson in_set_takeD)
      qed
    qed
  qed
  moreover have "sorted_wrt key_before (take m (keys q))" using sorted by (metis append_take_drop_id sorted_wrt_append)
  ultimately show ?thesis using in_tree by (auto simp: segment_def dest: in_set_takeD)
qed

text \<open>A queue that has folded everything it holds has the whole tree, or as much as the budget allows.\<close>

lemma all_done_complete:
  assumes ok: "queue_ok exec {} q" and all: "q_frontier q = length (q_order q)"
  shows "segment exec (keys q)"
    "if q_beyond q then length (keys q) = run_limit q \<and> (\<exists>k plan. planned exec k plan \<and> k \<notin> set (keys q))
     else \<forall>k plan. planned exec k plan \<longrightarrow> k \<in> set (keys q)"
proof -
  have states: "\<forall>i < length (q_order q). state_of q (q_order q ! i) = prefixDone"
    using ok all by (simp add: queue_ok_def order_ok_def)
  show "segment exec (keys q)"
    using leading_done_segment [OF ok _ states] by (simp add: keys_def)
  show "if q_beyond q then length (keys q) = run_limit q \<and> (\<exists>k plan. planned exec k plan \<and> k \<notin> set (keys q))
     else \<forall>k plan. planned exec k plan \<longrightarrow> k \<in> set (keys q)"
  proof (cases "q_beyond q")
    case True
    with ok show ?thesis unfolding queue_ok_def cut_ok_def by (auto simp: keys_def)
  next
    case False
    have "k \<in> set (keys q)" if "planned exec k plan" for k plan
      using that
    proof (induction k arbitrary: plan rule: rev_induct)
      case Nil
      show ?case using ok by (simp add: queue_ok_def parents_ok_def)
    next
      case (snoc i k)
      obtain plan' where "planned exec k plan'" using snoc.prems by (elim planned_snocE) auto
      from snoc.IH [OF this] obtain j where j: "j < length (q_order q)" "key_of q (q_order q ! j) = k"
        by (auto simp: keys_def in_set_conv_nth)
      with states nth_mem [OF j(1)] ok snoc.prems False show ?case
        unfolding queue_ok_def cut_ok_def by (metis butlast_snoc empty_iff snoc_eq_iff_butlast)
    qed
    with False show ?thesis by simp
  qed
qed

section \<open>Queueing the children of a run\<close>

text \<open>The children a finished prefix leaves, as they are when the queue gets them.\<close>

definition children_of :: "(exploreSlot list \<Rightarrow> run_result) \<Rightarrow> exploreQueue \<Rightarrow> nat \<Rightarrow> explorePrefix list \<Rightarrow> bool" where
  "children_of exec q a ps =
     (queue_ok exec {a} q \<and> a \<in> set (q_order q) \<and> state_of q a = prefixDone \<and>
      q_frontier q \<le> pf_index (at_heap q a) \<and> ps \<noteq> [] \<and>
      (\<forall>i < length ps. pf_key (ps ! i) = key_of q a @ [i] \<and> pf_state (ps ! i) = prefixQueued \<and>
         planned exec (key_of q a @ [i]) (pf_plan (ps ! i))) \<and>
      (\<forall>i plan. planned exec (key_of q a @ [i]) plan \<longrightarrow> i < length ps))"

definition full_keys :: "explorePrefix list \<Rightarrow> exploreQueue \<Rightarrow> nat list list" where
  "full_keys ps q = map (\<lambda>b. pf_key ((q_heap q @ ps) ! b)) (full_order ps q)"

lemma children_hd: "children_of exec q a ps \<Longrightarrow> pf_key (hd ps) = key_of q a @ [0]"
  by (auto simp: children_of_def hd_conv_nth)

lemma children_ok: "children_of exec q a ps \<Longrightarrow> queue_ok exec {a} q \<and> order_ok q \<and> a \<in> set (q_order q)"
  by (simp add: children_of_def queue_ok_def)

lemma child_not_queued:
  assumes c: "children_of exec q a ps"
  shows "key_of q a @ [i] \<notin> set (keys q)"
proof
  assume "key_of q a @ [i] \<in> set (keys q)"
  then obtain d where d: "d \<in> set (q_order q)" "key_of q d = key_of q a @ [i]" by (auto simp: keys_def)
  with c obtain b where "b \<in> set (q_order q)" "b \<noteq> a" "key_of q b = key_of q a"
    unfolding children_of_def queue_ok_def parents_ok_def
    by (metis butlast_snoc singletonI snoc_eq_iff_butlast)
  with key_of_inj [of q b a] children_ok [OF c] show False by blast
qed

lemma insert_at_keys:
  assumes c: "children_of exec q a ps" and i: "i < length (q_order q)"
  shows "key_before (key_of q (q_order q ! i)) (key_of q a @ [0]) \<longleftrightarrow> i < insert_at ps q"
proof
  let ?P = "\<lambda>b. before (at_heap q b) (hd ps)"
  have P: "?P b \<longleftrightarrow> key_before (key_of q b) (key_of q a @ [0])" for b
    by (simp add: before_def children_hd [OF c])
  { assume "i < insert_at ps q"
    then show "key_before (key_of q (q_order q ! i)) (key_of q a @ [0])"
      unfolding insert_at_def P [symmetric] by (metis nth_mem set_takeWhileD takeWhile_nth) }
  { assume *: "key_before (key_of q (q_order q ! i)) (key_of q a @ [0])"
    show "i < insert_at ps q"
    proof (rule ccontr)
      assume "\<not> i < insert_at ps q"
      then have at: "insert_at ps q \<le> i" "insert_at ps q < length (q_order q)" using i by auto
      then have "\<not> ?P (q_order q ! insert_at ps q)" unfolding insert_at_def by (rule_tac nth_length_takeWhile)
      moreover have "?P (q_order q ! insert_at ps q)"
      proof (cases "insert_at ps q = i")
        case True
        with * P show ?thesis by simp
      next
        case False
        then have "key_before (key_of q (q_order q ! insert_at ps q)) (key_of q (q_order q ! i))"
          using at i keys_before_iff [of q] children_ok [OF c] by simp
        with * P show ?thesis using key_before_trans by blast
      qed
      ultimately show False by simp
    qed }
qed

lemma parent_before_at:
  assumes c: "children_of exec q a ps"
  shows "pf_index (at_heap q a) < insert_at ps q" "q_frontier q < insert_at ps q"
proof -
  have i: "pf_index (at_heap q a) < length (q_order q)" "q_order q ! pf_index (at_heap q a) = a"
    using order_ok_index [of q a] children_ok [OF c] by auto
  with insert_at_keys [OF c i(1)] show "pf_index (at_heap q a) < insert_at ps q" by (simp add: key_before_snoc)
  with c show "q_frontier q < insert_at ps q" by (simp add: children_of_def)
qed

lemma full_keys_eq:
  assumes c: "children_of exec q a ps"
  shows "full_keys ps q = take (insert_at ps q) (keys q) @ map (\<lambda>i. key_of q a @ [i]) [0..<length ps] @ drop (insert_at ps q) (keys q)"
proof -
  have old: "map (\<lambda>b. pf_key ((q_heap q @ ps) ! b)) xs = map (key_of q) xs" if "set xs \<subseteq> set (q_order q)" for xs
    using that order_ok_heap [of q] children_ok [OF c] by (auto simp: nth_append at_heap_def)
  have "map (\<lambda>b. pf_key ((q_heap q @ ps) ! b)) [length (q_heap q)..<length (q_heap q) + length ps] = map (\<lambda>i. key_of q a @ [i]) [0..<length ps]"
    using c by (intro nth_equalityI) (auto simp: nth_append children_of_def)
  then show ?thesis
    using old [OF set_take_subset, of "insert_at ps q"] old [OF set_drop_subset, of "insert_at ps q"]
    by (simp add: full_keys_def full_order_def keys_def take_map drop_map)
qed

lemma set_full_keys:
  "children_of exec q a ps \<Longrightarrow> set (full_keys ps q) = set (keys q) \<union> (\<lambda>i. key_of q a @ [i]) ` {..<length ps}"
proof -
  assume "children_of exec q a ps"
  have "set (take (insert_at ps q) (keys q)) \<union> set (drop (insert_at ps q) (keys q)) = set (keys q)"
    by (metis append_take_drop_id set_append)
  then show ?thesis using full_keys_eq [OF \<open>children_of exec q a ps\<close>] by auto
qed

lemma full_keys_sorted:
  assumes c: "children_of exec q a ps"
  shows "sorted_wrt key_before (full_keys ps q)"
proof -
  let ?k = "key_of q a" and ?at = "insert_at ps q"
  have sorted: "sorted_wrt key_before (keys q)" using children_ok [OF c] by (simp add: order_ok_def)
  have lo: "key_before x (?k @ [i])" if x: "x \<in> set (take ?at (keys q))" for x i
  proof -
    obtain j where "j < ?at" "j < length (q_order q)" "key_of q (q_order q ! j) = x"
      using x by (auto simp: keys_def in_set_conv_nth)
    with insert_at_keys [OF c] have "key_before x (?k @ [0])" by blast
    then show ?thesis using key_before_siblings [of ?k 0 i] key_before_trans by (cases "i = 0") auto
  qed
  have hi: "key_before (?k @ [i]) x" if x: "x \<in> set (drop ?at (keys q))" for x i
  proof -
    have inq: "x \<in> set (keys q)" using x by (meson in_set_dropD)
    obtain j where j: "j < length (keys q) - ?at" "drop ?at (keys q) ! j = x" using x by (auto simp: in_set_conv_nth)
    then have "?at + j < length (q_order q)" "key_of q (q_order q ! (?at + j)) = x" by (auto simp: keys_def)
    with insert_at_keys [OF c] have not: "\<not> key_before x (?k @ [0])" by (metis not_add_less1)
    have "x \<noteq> ?k @ [i]" for i using inq child_not_queued [OF c] by blast
    then show ?thesis using key_between_siblings [OF not, of i] key_before_total by blast
  qed
  have mid: "sorted_wrt key_before (map (\<lambda>i. ?k @ [i]) [0..<length ps])"
    by (auto simp: sorted_wrt_map key_before_siblings sorted_wrt_iff_nth_less)
  have parts: "sorted_wrt key_before (take ?at (keys q))" "sorted_wrt key_before (drop ?at (keys q))"
    "\<forall>x \<in> set (take ?at (keys q)). \<forall>y \<in> set (drop ?at (keys q)). key_before x y"
    using sorted by (metis append_take_drop_id sorted_wrt_append)+
  then show ?thesis
    unfolding full_keys_eq [OF c] sorted_wrt_append using lo hi mid by auto
qed

lemma downward_kept:
  assumes "sorted_wrt key_before ks" "y \<in> set ks" "x \<in> set (take n ks)" "key_before y x"
  shows "y \<in> set (take n ks)"
proof (rule ccontr)
  assume "y \<notin> set (take n ks)"
  with assms(2) have "y \<in> set (drop n ks)" by (metis Un_iff append_take_drop_id set_append)
  with assms(1,3) have "key_before x y" by (metis append_take_drop_id sorted_wrt_append)
  with assms(4) show False by (auto dest: key_before_asym)
qed

lemma insertedD:
  assumes "inserted ps q q'"
  shows "length (q_heap q') = length (q_heap q) + length ps" "q_order q' = take (run_limit q) (full_order ps q)"
    "same_rest q q'" "q_beyond q' = (q_beyond q \<or> cut_off ps q \<noteq> [])"
    "\<And>b. core (at_heap q' b) = core (if b \<in> set (cut_off ps q) then dropped ((q_heap q @ ps) ! b) else (q_heap q @ ps) ! b)"
    "\<And>i. i < length (q_order q') \<Longrightarrow> pf_index (at_heap q' (q_order q' ! i)) = i"
    "q_pending q' = filter (\<lambda>a. a \<notin> set (cut_off ps q)) (q_pending q)"
    "q_discarded q' = q_discarded q + length (filter (\<lambda>a. a \<in> set (cut_off ps q)) (q_pending q))"
  using assms unfolding inserted_def by blast+

text \<open>The queue after the insertion, seen from the queue before.\<close>

lemma after_insert:
  assumes c: "children_of exec q a ps" and ins: "inserted ps q q'"
  shows "keys q' = take (run_limit q) (full_keys ps q)"
    "\<And>b. b \<in> set (q_order q') \<Longrightarrow> core (at_heap q' b) = core ((q_heap q @ ps) ! b)"
    "\<And>b. b \<in> set (q_order q') \<Longrightarrow> b < length (q_heap q) \<Longrightarrow> b \<in> set (q_order q) \<and> core (at_heap q' b) = core (at_heap q b)"
    "run_limit q' = run_limit q" "distinct (q_order q')"
proof -
  have wf: "wf_order q" using children_ok [OF c] by (simp add: order_ok_def)
  have split: "full_order ps q = q_order q' @ cut_off ps q" using insertedD(2) [OF ins] by (simp add: cut_off_def)
  then have disj: "b \<in> set (q_order q') \<Longrightarrow> b \<notin> set (cut_off ps q)" for b
    using distinct_full_order [OF wf, of ps] by auto
  show core: "core (at_heap q' b) = core ((q_heap q @ ps) ! b)" if "b \<in> set (q_order q')" for b
    using insertedD(5) [OF ins, of b] disj [OF that] by simp
  show "keys q' = take (run_limit q) (full_keys ps q)"
  proof -
    have "map (key_of q') (q_order q') = map (\<lambda>b. pf_key ((q_heap q @ ps) ! b)) (q_order q')"
      using core core_fields by (intro map_cong refl) blast
    then show ?thesis using insertedD(2) [OF ins] by (simp add: keys_def full_keys_def take_map)
  qed
  show "b \<in> set (q_order q) \<and> core (at_heap q' b) = core (at_heap q b)" if "b \<in> set (q_order q')" "b < length (q_heap q)" for b
  proof -
    have "b \<in> set (full_order ps q)" using split that(1) by simp
    with that core [OF that(1)] show ?thesis by (auto simp: set_full_order nth_append at_heap_def)
  qed
  show "run_limit q' = run_limit q" using insertedD(3) [OF ins] by (simp add: same_rest_def run_limit_def)
  show "distinct (q_order q')" using split distinct_full_order [OF wf, of ps] by simp
qed

lemma after_insert_low:
  assumes c: "children_of exec q a ps" and ins: "inserted ps q q'" and i: "i < insert_at ps q"
  shows "i < length (q_order q')" "q_order q' ! i = q_order q ! i"
proof -
  have "insert_at ps q \<le> run_limit q"
    using insert_at_le [of ps q] children_ok [OF c] by (auto simp: order_ok_def wf_order_def)
  then show "i < length (q_order q')" "q_order q' ! i = q_order q ! i"
    using insertedD(2) [OF ins] i insert_at_le [of ps q]
    by (simp_all add: length_full_order) (simp add: full_order_def nth_append)
qed

text \<open>A kept prefix stays on its side of the insertion.\<close>

lemma after_insert_index:
  assumes c: "children_of exec q a ps" and ins: "inserted ps q q'"
    and b: "b \<in> set (q_order q')" "b \<in> set (q_order q)"
  shows "if pf_index (at_heap q b) < insert_at ps q then pf_index (at_heap q' b) = pf_index (at_heap q b)
         else insert_at ps q \<le> pf_index (at_heap q' b)"
proof -
  note pos = insertedD(6) [OF ins]
  have old: "q_order q ! pf_index (at_heap q b) = b" "pf_index (at_heap q b) < length (q_order q)"
    using order_ok_index [of q b] children_ok [OF c] b(2) by auto
  show ?thesis
  proof (cases "pf_index (at_heap q b) < insert_at ps q")
    case True
    with after_insert_low [OF c ins True] old pos show ?thesis by metis
  next
    case False
    obtain i where i: "i < length (q_order q')" "q_order q' ! i = b" using b(1) by (auto simp: in_set_conv_nth)
    have "insert_at ps q \<le> i"
    proof (rule ccontr)
      assume "\<not> insert_at ps q \<le> i"
      then have "i < insert_at ps q" by simp
      with after_insert_low [OF c ins this] i have "q_order q ! i = b" "i < length (q_order q)"
        using insert_at_le [of ps q] by auto
      with order_ok_pos [of q i] children_ok [OF c] False \<open>i < insert_at ps q\<close> show False by auto
    qed
    with False pos i show ?thesis by auto
  qed
qed

lemma after_insert_low_old:
  assumes c: "children_of exec q a ps" and ins: "inserted ps q q'" and i: "i \<le> q_frontier q"
  shows "i < length (q_order q')" "q_order q' ! i = q_order q ! i" "core (at_heap q' (q_order q' ! i)) = core (at_heap q (q_order q ! i))"
proof -
  have at: "i < insert_at ps q" using i parent_before_at [OF c] by simp
  show low: "i < length (q_order q')" "q_order q' ! i = q_order q ! i" using after_insert_low [OF c ins at] by auto
  have ord: "order_ok q" using children_ok [OF c] by blast
  have "q_order q ! i \<in> set (q_order q)" using at insert_at_le [of ps q] by simp
  then have "q_order q ! i < length (q_heap q)" using order_ok_heap [OF ord] by blast
  with after_insert(3) [OF c ins] low nth_mem [OF low(1)]
  show "core (at_heap q' (q_order q' ! i)) = core (at_heap q (q_order q ! i))" by simp
qed

lemma after_insert_side:
  assumes c: "children_of exec q a ps" and ins: "inserted ps q q'"
    and b: "b \<in> set (q_order q')" "b \<in> set (q_order q)"
  shows "q_frontier q \<le> pf_index (at_heap q' b) \<longleftrightarrow> q_frontier q \<le> pf_index (at_heap q b)"
    "q_frontier q < pf_index (at_heap q' b) \<longleftrightarrow> q_frontier q < pf_index (at_heap q b)"
  using after_insert_index [OF c ins b] parent_before_at [OF c] by (auto split: if_splits)

lemma after_insert_wf:
  assumes c: "children_of exec q a ps" and ins: "inserted ps q q'"
  shows "wf_order q'"
proof -
  have wf: "wf_order q" using children_ok [OF c] by (simp add: order_ok_def)
  note q' = insertedD(2) [OF ins] insertedD(1) [OF ins] insertedD(7) [OF ins] insertedD(6) [OF ins]
  have "set (full_order ps q) \<subseteq> {..<length (q_heap q')}"
    using wf q'(2) by (force simp: wf_order_def set_full_order)
  then have "set (q_order q') \<subseteq> {..<length (q_heap q')}"
    using q'(1) set_take_subset [of "run_limit q" "full_order ps q"] by auto
  moreover have "b \<in> set (q_order q')" if "b \<in> set (full_order ps q)" "b \<notin> set (cut_off ps q)" for b
    using that q'(1) unfolding cut_off_def by (metis Un_iff append_take_drop_id set_append)
  then have "set (q_pending q') \<subseteq> set (q_order q')"
    using wf q'(3) by (auto simp: wf_order_def set_full_order)
  ultimately show ?thesis
    using after_insert(4,5) [OF c ins] q' wf by (simp add: wf_order_def)
qed

lemma after_insert_pending:
  assumes c: "children_of exec q a ps" and ins: "inserted ps q q'"
  shows "pending_started q'"
  unfolding pending_started_def
proof (intro allI impI)
  have ord: "order_ok q" using children_ok [OF c] by blast
  have wf: "wf_order q" using ord by (simp add: order_ok_def)
  note q' = insertedD(2) [OF ins] insertedD(7) [OF ins]
  fix i assume i: "i < length (q_order q')" "q_frontier q' \<le> i"
  let ?b = "q_order q' ! i"
  have i': "q_frontier q \<le> i" using i insertedD(3) [OF ins] by (simp add: same_rest_def)
  have b: "?b \<in> set (q_order q')" using i nth_mem by blast
  then have not_cut: "?b \<notin> set (cut_off ps q)"
    using distinct_full_order [OF wf, of ps] q'(1) unfolding cut_off_def
    by (metis set_take_disj_set_drop_if_distinct IntI empty_iff order_refl)
  show "started (at_heap q' ?b) \<longleftrightarrow> ?b \<in> set (q_pending q')"
  proof (cases "?b < length (q_heap q)")
    case True
    then have old: "?b \<in> set (q_order q)" "core (at_heap q' ?b) = core (at_heap q ?b)"
      using after_insert(3) [OF c ins b] by auto
    have "q_frontier q \<le> pf_index (at_heap q ?b)"
      using after_insert_side(1) [OF c ins b old(1)] insertedD(6) [OF ins i(1)] i' by simp
    then have "started (at_heap q ?b) \<longleftrightarrow> ?b \<in> set (q_pending q)"
      using ord order_ok_index [OF ord old(1)] unfolding order_ok_def pending_started_def by metis
    with core_fields [OF old(2)] q'(2) not_cut show ?thesis by simp
  next
    case False
    have "?b \<in> set (full_order ps q)" using b q'(1) by (metis in_set_takeD)
    with False have "?b < length (q_heap q) + length ps" using wf by (auto simp: set_full_order wf_order_def)
    then have "pf_state ((q_heap q @ ps) ! ?b) = prefixQueued"
      using False c by (simp add: nth_append children_of_def)
    with core_fields [OF after_insert(2) [OF c ins b]] have "\<not> started (at_heap q' ?b)" by simp
    moreover have "?b \<notin> set (q_pending q)" using False wf by (auto simp: wf_order_def)
    ultimately show ?thesis using q'(2) by simp
  qed
qed

text \<open>Whatever is cut off was speculative, so a discard replaces a speculative run.\<close>

lemma after_insert_speculative:
  assumes c: "children_of exec q a ps" and ins: "inserted ps q q'"
  shows "q_discarded q' + speculative q' = q_discarded q + speculative q"
proof -
  have ord: "order_ok q" using children_ok [OF c] by blast
  have wf: "wf_order q" using ord by (simp add: order_ok_def)
  let ?spec = "\<lambda>b. q_frontier q < pf_index (at_heap q b)" and ?cut = "\<lambda>b. b \<in> set (cut_off ps q)"
  have cut_spec: "?spec b" if "b \<in> set (q_pending q)" "?cut b" for b
  proof -
    have "b < length (q_heap q)" using that(1) wf by (auto simp: wf_order_def)
    from cut_off_after [OF wf that(2) this] obtain i where "i < length (q_order q)" "q_order q ! i = b" "insert_at ps q \<le> i" by blast
    with order_ok_pos [OF ord, of i] parent_before_at [OF c] show ?thesis by simp
  qed
  have kept: "b \<in> set (q_order q') \<and> b \<in> set (q_order q)" if "b \<in> set (q_pending q)" "\<not> ?cut b" for b
    using that wf insertedD(7) [OF ins] after_insert_wf [OF c ins] by (auto simp: wf_order_def)
  have "filter (\<lambda>b. q_frontier q < pf_index (at_heap q' b)) (q_pending q') = filter (\<lambda>b. \<not> ?cut b) (filter ?spec (q_pending q))"
    unfolding insertedD(7) [OF ins] filter_filter
    using after_insert_side(2) [OF c ins] kept by (intro filter_cong) auto
  moreover have "filter ?cut (q_pending q) = filter ?cut (filter ?spec (q_pending q))"
    unfolding filter_filter using cut_spec by (intro filter_cong) auto
  moreover have "q_frontier q' = q_frontier q" using insertedD(3) [OF ins] by (simp add: same_rest_def)
  ultimately show ?thesis
    using sum_length_filter_compl [of ?cut "filter ?spec (q_pending q)"] insertedD(8) [OF ins]
    by (simp add: speculative_def)
qed

lemma after_insert_order_ok:
  assumes c: "children_of exec q a ps" and ins: "inserted ps q q'"
  shows "order_ok q'"
proof -
  have ord: "order_ok q" using children_ok [OF c] by blast
  have rest: "q_frontier q' = q_frontier q" "q_jobs q' = q_jobs q" using insertedD(3) [OF ins] by (simp_all add: same_rest_def)
  have folded: "state_of q' (q_order q' ! i) = prefixDone" if "i < q_frontier q'" for i
  proof -
    have "state_of q (q_order q ! i) = prefixDone" using ord that rest by (simp add: order_ok_def)
    with core_fields [OF after_insert_low_old(3) [OF c ins, of i]] that rest show ?thesis by simp
  qed
  have "q_frontier q' \<le> pf_index (at_heap q' b)" if b: "b \<in> set (q_pending q')" for b
  proof -
    have "b \<in> set (q_pending q)" using b insertedD(7) [OF ins] by simp
    then have "b \<in> set (q_order q)" "q_frontier q \<le> pf_index (at_heap q b)" using ord by (auto simp: order_ok_def wf_order_def)
    moreover have "b \<in> set (q_order q')" using b after_insert_wf [OF c ins] by (auto simp: wf_order_def)
    ultimately show ?thesis using after_insert_side(1) [OF c ins] rest by simp
  qed
  moreover have "sorted_wrt key_before (keys q')"
    using full_keys_sorted [OF c] after_insert(1) [OF c ins] by (metis append_take_drop_id sorted_wrt_append)
  moreover have "q_frontier q \<le> length (q_order q')" using after_insert_low_old(1) [OF c ins, of "q_frontier q"] by simp
  ultimately show ?thesis
    using after_insert_wf [OF c ins] rest folded after_insert_pending [OF c ins] after_insert_speculative [OF c ins]
      ord after_insert(4) [OF c ins]
    by (simp add: order_ok_def)
qed

lemma holds_result_core: "core p = core p' \<Longrightarrow> holds_result p result = holds_result p' result"
  using core_fields [of p p'] by (simp add: holds_result_def split: run_result.split)

lemma after_insert_prefix_ok:
  assumes c: "children_of exec q a ps" and ins: "inserted ps q q'" and b: "b \<in> set (q_order q')"
  shows "prefix_ok exec q' b"
proof (cases "b < length (q_heap q)")
  case True
  then have old: "b \<in> set (q_order q)" "core (at_heap q' b) = core (at_heap q b)"
    using after_insert(3) [OF c ins b] by auto
  have "prefix_ok exec q b" using c old(1) by (simp add: children_of_def queue_ok_def)
  moreover have "q_frontier q' = q_frontier q" using insertedD(3) [OF ins] by (simp add: same_rest_def)
  ultimately show ?thesis
    using core_fields [OF old(2)] after_insert_side(1) [OF c ins b old(1)] holds_result_core [OF old(2)]
    by (simp add: prefix_ok_def)
next
  case False
  have wf: "wf_order q" using children_ok [OF c] by (simp add: order_ok_def)
  have "b \<in> set (full_order ps q)" using b insertedD(2) [OF ins] by (metis in_set_takeD)
  from new_address [OF wf this False] obtain i where "b = length (q_heap q) + i" "i < length ps" by blast
  with core_fields [OF after_insert(2) [OF c ins b]] c show ?thesis
    by (auto simp: prefix_ok_def nth_append children_of_def)
qed

lemma kept_before_cut:
  "sorted_wrt key_before ks \<Longrightarrow> y \<in> set ks \<Longrightarrow> y \<notin> set (take n ks) \<Longrightarrow> l \<in> set (take n ks) \<Longrightarrow> key_before l y"
  by (metis Un_iff append_take_drop_id set_append sorted_wrt_append)

lemma after_insert_states:
  assumes c: "children_of exec q a ps" and ins: "inserted ps q q'" and b: "b \<in> set (q_order q')" "key_of q' b \<in> set (keys q)"
  shows "b \<in> set (q_order q) \<and> state_of q' b = state_of q b \<and> key_of q' b = key_of q b"
proof (cases "b < length (q_heap q)")
  case True
  with after_insert(3) [OF c ins b(1)] core_fields show ?thesis by metis
next
  case False
  have wf: "wf_order q" using children_ok [OF c] by (simp add: order_ok_def)
  have "b \<in> set (full_order ps q)" using b insertedD(2) [OF ins] by (metis in_set_takeD)
  from new_address [OF wf this False] obtain i where "b = length (q_heap q) + i" "i < length ps" by blast
  with core_fields [OF after_insert(2) [OF c ins b(1)]] c have "key_of q' b = key_of q a @ [i]"
    by (auto simp: nth_append children_of_def)
  with b(2) child_not_queued [OF c] show ?thesis by simp
qed

text \<open>A prefix still in the order keeps its place in the tree, and so do its earlier relatives.\<close>

lemma after_insert_keeps:
  assumes c: "children_of exec q a ps" and ins: "inserted ps q q'"
    and d: "d \<in> set (q_order q)" "l \<in> set (keys q')" "key_before (key_of q d) l"
  shows "\<exists>b \<in> set (q_order q'). b = d \<and> key_of q' b = key_of q d \<and> state_of q' b = state_of q d"
proof -
  have "key_of q d \<in> set (full_keys ps q)" using d(1) set_full_keys [OF c] by (auto simp: keys_def)
  then have "key_of q d \<in> set (keys q')"
    using downward_kept [OF full_keys_sorted [OF c]] d(2,3) after_insert(1) [OF c ins] by simp
  then obtain b where b: "b \<in> set (q_order q')" "key_of q' b = key_of q d" by (auto simp: keys_def)
  moreover have "key_of q d \<in> set (keys q)" using d(1) by (simp add: keys_def)
  ultimately have "b \<in> set (q_order q)" "state_of q' b = state_of q b" "key_of q b = key_of q d"
    using after_insert_states [OF c ins, of b] by auto
  with key_of_inj [of q b d] children_ok [OF c] d(1) b show ?thesis by auto
qed

lemma after_insert_parents:
  assumes c: "children_of exec q a ps" and ins: "inserted ps q q'"
  shows "parents_ok {} q'"
proof -
  have par: "[] \<in> set (keys q)" "\<And>d. d \<in> set (q_order q) \<Longrightarrow> key_of q d \<noteq> [] \<Longrightarrow>
      \<exists>b \<in> set (q_order q). state_of q b = prefixDone \<and> key_of q b = butlast (key_of q d)"
    using c unfolding children_of_def queue_ok_def parents_ok_def by blast+
  have "\<exists>b \<in> set (q_order q'). state_of q' b = prefixDone \<and> key_of q' b = butlast (key_of q' d)"
    if d: "d \<in> set (q_order q')" "key_of q' d \<noteq> []" for d
  proof -
    obtain k i where k: "key_of q' d = k @ [i]" using d(2) by (metis append_butlast_last_id)
    then have l: "k @ [i] \<in> set (keys q')" using d(1) by (force simp: keys_def)
    obtain p where p: "p \<in> set (q_order q)" "state_of q p = prefixDone" "key_of q p = k"
    proof (cases "k @ [i] \<in> set (keys q)")
      case True
      with after_insert_states [OF c ins d(1)] k have "d \<in> set (q_order q)" "key_of q d = k @ [i]" by auto
      with par(2) [of d] that show ?thesis by auto
    next
      case False
      with l set_full_keys [OF c] after_insert(1) [OF c ins] have "k = key_of q a"
        by (metis (no_types, lifting) UnE butlast_snoc image_iff in_set_takeD)
      with c that show ?thesis by (auto simp: children_of_def)
    qed
    from after_insert_keeps [OF c ins p(1) l] p(2,3) k show ?thesis by (auto simp: key_before_snoc)
  qed
  moreover have "[] \<in> set (keys q')"
  proof -
    have "q_order q' \<noteq> []" using after_insert_low_old(1) [OF c ins, of 0] by auto
    then obtain l where l: "l \<in> set (keys q')" by (cases "q_order q'") (auto simp: keys_def)
    obtain d where d: "d \<in> set (q_order q)" "key_of q d = []" using par(1) by (auto simp: keys_def)
    show ?thesis
    proof (cases "l = []")
      case False
      then have "key_before (key_of q d) l" using d(2) by (simp add: key_before_def)
      from after_insert_keeps [OF c ins d(1) l this] d(2) show ?thesis by (force simp: keys_def)
    qed (use l in simp)
  qed
  ultimately show ?thesis by (simp add: parents_ok_def)
qed

text \<open>With the order full already, what the insertion keeps stays in front of what was cut off before.\<close>

lemma after_insert_full:
  assumes c: "children_of exec q a ps" and ins: "inserted ps q q'"
    and len: "length (q_order q) = run_limit q" and k: "\<forall>l \<in> set (keys q). key_before l k" and l: "l \<in> set (keys q')"
  shows "key_before l k"
proof (cases "l \<in> set (keys q)")
  case new: False
  note keys' = after_insert(1) [OF c ins]
  have "\<not> set (keys q) \<subseteq> set (keys q')"
  proof
    assume sub: "set (keys q) \<subseteq> set (keys q')"
    have "card (set (keys q)) = run_limit q"
      using distinct_card [OF distinct_keys [of q]] children_ok [OF c] len by (simp add: keys_def)
    moreover have "card (set (keys q')) \<le> run_limit q" using card_length [of "keys q'"] keys' by simp
    ultimately have "set (keys q) = set (keys q')" using sub by (metis card_seteq finite_set)
    with new l show False by simp
  qed
  then obtain y where "y \<in> set (keys q)" "y \<notin> set (keys q')" by blast
  with kept_before_cut [OF full_keys_sorted [OF c], of y "run_limit q" l] l keys' k set_full_keys [OF c] key_before_trans
  show ?thesis by (metis UnI1)
qed (use k in blast)

text \<open>A parent that is done is an old one.\<close>

lemma after_insert_done:
  assumes c: "children_of exec q a ps" and ins: "inserted ps q q'"
    and b: "b \<in> set (q_order q')" "state_of q' b = prefixDone"
  shows "b \<in> set (q_order q)" "state_of q b = prefixDone" "key_of q b = key_of q' b"
proof -
  have "b < length (q_heap q)"
  proof (rule ccontr)
    assume "\<not> b < length (q_heap q)"
    moreover have "b \<in> set (full_order ps q)" using b insertedD(2) [OF ins] by (metis in_set_takeD)
    moreover have "wf_order q" using children_ok [OF c] by (simp add: order_ok_def)
    ultimately obtain i where "b = length (q_heap q) + i" "i < length ps" using new_address by blast
    with core_fields [OF after_insert(2) [OF c ins b(1)]] c b(2) show False by (auto simp: nth_append children_of_def)
  qed
  then show "b \<in> set (q_order q)" "state_of q b = prefixDone" "key_of q b = key_of q' b"
    using after_insert(3) [OF c ins b(1)] core_fields b by metis+
qed

lemma full_keys_planned:
  assumes c: "children_of exec q a ps" and k: "k \<in> set (full_keys ps q)"
  shows "\<exists>plan. planned exec k plan"
proof (cases "k \<in> set (keys q)")
  case True
  with c show ?thesis unfolding children_of_def queue_ok_def prefix_ok_def keys_def by auto
next
  case False
  with k obtain i where "i < length ps" "k = key_of q a @ [i]" unfolding set_full_keys [OF c] by auto
  with c show ?thesis by (auto simp: children_of_def)
qed

lemma after_insert_cut:
  assumes c: "children_of exec q a ps" and ins: "inserted ps q q'"
  shows "cut_ok exec {} q'"
proof -
  note sorted = full_keys_sorted [OF c] and keys' = after_insert(1) [OF c ins]
  have old_cut: "\<And>k plan b. b \<in> set (q_order q) \<Longrightarrow> planned exec k plan \<Longrightarrow> k \<notin> set (keys q) \<Longrightarrow> k \<noteq> [] \<Longrightarrow> b \<noteq> a \<Longrightarrow>
      state_of q b = prefixDone \<Longrightarrow> key_of q b = butlast k \<Longrightarrow> q_beyond q \<and> (\<forall>l \<in> set (keys q). key_before l k)"
    "q_beyond q \<Longrightarrow> length (q_order q) = run_limit q"
    using c unfolding children_of_def queue_ok_def cut_ok_def by blast+
  have beyond': "q_beyond q' \<longleftrightarrow> run_limit q < length (full_keys ps q)"
    using insertedD(4) [OF ins] old_cut(2) c by (auto simp: cut_off_def full_keys_def not_le length_full_order children_of_def)
  have after: "q_beyond q' \<and> (\<forall>l \<in> set (keys q'). key_before l k)"
    if k: "planned exec k plan" "k \<notin> set (keys q')" "k \<noteq> []" and b: "b \<in> set (q_order q')" "state_of q' b = prefixDone" "key_of q' b = butlast k"
    for k plan b
  proof (cases "k \<in> set (full_keys ps q)")
    case True
    then have "q_beyond q'" using k(2) keys' beyond' by (metis leI take_all)
    then show ?thesis using kept_before_cut [OF sorted True] k(2) keys' by metis
  next
    case False
    then have not_old: "k \<notin> set (keys q)" by (simp add: set_full_keys [OF c])
    note old = after_insert_done [OF c ins b(1,2)]
    have "b \<noteq> a"
    proof
      assume "b = a"
      then obtain i where "k = key_of q a @ [i]" using old(3) b(3) k(3) by (metis append_butlast_last_id)
      with c k(1) have "k \<in> set (full_keys ps q)" unfolding set_full_keys [OF c] by (auto simp: children_of_def)
      with False show False ..
    qed
    from old_cut(1) [OF old(1) k(1) not_old k(3) this old(2)] b(3) old(3)
    have o: "q_beyond q" "\<forall>l \<in> set (keys q). key_before l k" by auto
    with after_insert_full [OF c ins old_cut(2) o(2)] insertedD(4) [OF ins] show ?thesis by simp
  qed
  moreover have "length (q_order q') = run_limit q' \<and> (\<exists>k plan. planned exec k plan \<and> k \<notin> set (keys q') \<and> (\<forall>l \<in> set (keys q'). key_before l k))"
    if beyond: "q_beyond q'"
  proof -
    have more: "run_limit q < length (full_keys ps q)" using beyond beyond' by simp
    let ?k = "full_keys ps q ! run_limit q"
    have k: "?k \<in> set (full_keys ps q)" using more by simp
    then have "\<exists>plan. planned exec ?k plan" by (rule full_keys_planned [OF c])
    moreover have out: "?k \<notin> set (keys q')"
      using more sorted_distinct_keys [OF sorted] keys' by (auto simp: in_set_conv_nth nth_eq_iff_index_eq)
    moreover have "length (q_order q') = run_limit q'"
      using insertedD(2) [OF ins] more after_insert(4) [OF c ins] by (simp add: full_keys_def)
    ultimately show ?thesis using kept_before_cut [OF sorted k] keys' by metis
  qed
  ultimately show ?thesis unfolding cut_ok_def by blast
qed

lemma insert_queue_ok:
  assumes c: "children_of exec q a ps"
  shows "queue_ok exec {} (insert_prefixes ps q) \<and> inserted ps q (insert_prefixes ps q)"
proof -
  have "\<forall>p \<in> set ps. pf_state p = prefixQueued" using c by (auto simp: children_of_def in_set_conv_nth)
  moreover have "ps \<noteq> []" using c by (simp add: children_of_def)
  ultimately have ins: "inserted ps q (insert_prefixes ps q)"
    using children_ok [OF c] parent_before_at(2) [OF c] by (intro insert_prefixes_spec) (auto simp: order_ok_def)
  with after_insert_order_ok [OF c ins] after_insert_prefix_ok [OF c ins] after_insert_parents [OF c ins] after_insert_cut [OF c ins]
  show ?thesis by (simp add: queue_ok_def)
qed

end
