(* ===== verification/Explore_Jobs.thy ===== *)
theory Explore_Jobs
  imports Explore_Queue_Correct
begin

text \<open>
  The jobs of an exploration: marking a run as done and queueing what it leaves, folding what is
  committed, and the steps of the jobs in any interleaving. The reference the result is measured
  against is \<open>commits\<close>, which takes the outcomes of a list of runs one after the other.
\<close>

section \<open>Recording a run\<close>

definition mark_done :: "nat \<Rightarrow> run_result \<Rightarrow> exploreQueue \<Rightarrow> exploreQueue" where
  "mark_done a result q =
     on_heap a
       (\<lambda>p. case result of
          Setup_Failed e \<Rightarrow> p\<lparr>pf_state := prefixDone, pf_replay := None, pf_outcome := zero_Outcome, pf_err := Some e\<rparr>
        | Ran r out gaps \<Rightarrow>
            p\<lparr>pf_gaps := gaps, pf_identity := (if followed r = None then oc_identity out else pf_identity p),
              pf_state := prefixDone, pf_replay := Some r, pf_outcome := out, pf_err := followed r\<rparr>)
       (q\<lparr>q_running := q_running q - 1\<rparr>)"

definition child_prefixes :: "nat list \<Rightarrow> run_result \<Rightarrow> explorePrefix list" where
  "child_prefixes key result =
     (case result of
        Setup_Failed e \<Rightarrow> []
      | Ran r out gaps \<Rightarrow>
          if followed r \<noteq> None then []
          else
            let children = unexplored r;
                shared = take (last children + 1) (er_record r)
            in map (\<lambda>(i, departs). new_prefix (Some shared) departs (key @ [i])) (enumerate 0 children))"

lemma finish_eq:
  assumes "a < length (q_heap q)" "pf_state (at_heap q a) \<noteq> prefixDropped" "\<not> q_done q"
  shows "finish a result q =
    fold_queue (insert_prefixes (child_prefixes (pf_key (at_heap q a)) result) (mark_done a result q))"
proof -
  have once: "on_heap a f (on_heap a g q) = on_heap a (f \<circ> g) q" for f g
    using assms(1) by (simp add: on_heap_def)
  have run: "(on_heap a f q)\<lparr>q_running := n\<rparr> = on_heap a f (q\<lparr>q_running := n\<rparr>)" for f n
    by (simp add: on_heap_def)
  have once': "on_heap a f (on_heap a g (q\<lparr>q_running := n\<rparr>)) = on_heap a (f \<circ> g) (q\<lparr>q_running := n\<rparr>)" for f g n
    using assms(1) by (simp add: on_heap_def)
  show ?thesis
  proof (cases result)
    case (Setup_Failed e)
    have "on_heap a (\<lambda>p. p\<lparr>pf_gaps := pf_gaps (at_heap q a), pf_identity := pf_identity p, pf_state := prefixDone, pf_replay := None, pf_outcome := zero_Outcome, pf_err := Some e\<rparr>) (q\<lparr>q_running := q_running q - 1\<rparr>)
      = on_heap a (\<lambda>p. p\<lparr>pf_state := prefixDone, pf_replay := None, pf_outcome := zero_Outcome, pf_err := Some e\<rparr>) (q\<lparr>q_running := q_running q - 1\<rparr>)"
      by (simp add: on_heap_def at_heap_def)
    then show ?thesis
      using Setup_Failed assms
      by (simp add: finish_def mark_done_def child_prefixes_def insert_prefixes_def run at_on_heap once' comp_def)
  next
    case (Ran r out gaps)
    show ?thesis
    proof (cases "followed r")
      case None
      then show ?thesis
        using Ran assms
        by (simp add: finish_def mark_done_def child_prefixes_def run at_on_heap once' comp_def Let_def)
    next
      case (Some e)
      then show ?thesis
        using Ran assms
        by (simp add: finish_def mark_done_def child_prefixes_def insert_prefixes_def run at_on_heap once' comp_def)
    qed
  qed
qed

lemma mark_done_fields [simp]:
  "length (q_heap (mark_done a result q)) = length (q_heap q)" "q_order (mark_done a result q) = q_order q"
  "q_frontier (mark_done a result q) = q_frontier q" "q_running (mark_done a result q) = q_running q - 1"
  "q_pending (mark_done a result q) = q_pending q" "q_discarded (mark_done a result q) = q_discarded q"
  "q_beyond (mark_done a result q) = q_beyond q" "q_done (mark_done a result q) = q_done q"
  "q_result (mark_done a result q) = q_result q" "q_reached (mark_done a result q) = q_reached q"
  "q_depthHit (mark_done a result q) = q_depthHit q" "q_err (mark_done a result q) = q_err q"
  "q_budget (mark_done a result q) = q_budget q" "q_jobs (mark_done a result q) = q_jobs q"
  "run_limit (mark_done a result q) = run_limit q"
  by (simp_all add: mark_done_def run_limit_def)

lemma at_mark_done:
  assumes "a < length (q_heap q)"
  shows "b \<noteq> a \<Longrightarrow> at_heap (mark_done a result q) b = at_heap q b"
    "pf_key (at_heap (mark_done a result q) b) = pf_key (at_heap q b)"
    "pf_index (at_heap (mark_done a result q) b) = pf_index (at_heap q b)"
    "pf_state (at_heap (mark_done a result q) a) = prefixDone"
    "holds_result (at_heap (mark_done a result q) a) result"
  using assms by (auto simp: mark_done_def at_on_heap holds_result_def split: run_result.split)

lemma keys_mark_done: "a < length (q_heap q) \<Longrightarrow> keys (mark_done a result q) = keys q"
  by (simp add: keys_def at_mark_done)

text \<open>A run in flight that is still in the order.\<close>

definition in_flight :: "(exploreSlot list \<Rightarrow> run_result) \<Rightarrow> exploreQueue \<Rightarrow> nat \<Rightarrow> exploreSlot list \<Rightarrow> bool" where
  "in_flight exec q a plan = (a \<in> set (q_order q) \<and> pf_state (at_heap q a) = prefixRunning \<and> planned exec (pf_key (at_heap q a)) plan)"

lemma in_flight_index:
  assumes "order_ok q" "a \<in> set (q_order q)" "pf_state (at_heap q a) = prefixRunning"
  shows "q_frontier q \<le> pf_index (at_heap q a)" "a \<in> set (q_pending q)"
proof -
  note i = order_ok_index [OF assms(1,2)]
  show "q_frontier q \<le> pf_index (at_heap q a)"
    using i assms unfolding order_ok_def by (metis not_le prefixState.distinct(7))
  with i assms show "a \<in> set (q_pending q)"
    unfolding order_ok_def pending_started_def by metis
qed

lemma mark_done_order_ok:
  assumes ok: "order_ok q" and a: "a \<in> set (q_order q)" "pf_state (at_heap q a) = prefixRunning"
  shows "order_ok (mark_done a result q)"
proof -
  have heap: "a < length (q_heap q)" using order_ok_heap [OF ok a(1)] .
  let ?q = "mark_done a result q"
  have started: "started (at_heap ?q b) \<longleftrightarrow> started (at_heap q b)" for b
    using at_mark_done(1,4) [OF heap] a(2) by (cases "b = a") auto
  have "pf_state (at_heap q b) = prefixDone \<Longrightarrow> pf_state (at_heap ?q b) = prefixDone" for b
    using at_mark_done(1,4) [OF heap] by (cases "b = a") auto
  then show ?thesis
    using ok started
    by (simp add: order_ok_def wf_order_def pending_started_def speculative_def at_mark_done [OF heap] keys_mark_done [OF heap])
qed

lemma mark_done_queue_ok:
  assumes ok: "queue_ok exec {} q" and fl: "in_flight exec q a plan"
  shows "queue_ok exec {a} (mark_done a (exec plan) q)"
proof -
  let ?q = "mark_done a (exec plan) q"
  have ord: "order_ok q" using ok by (simp add: queue_ok_def)
  have a: "a \<in> set (q_order q)" "pf_state (at_heap q a) = prefixRunning" "planned exec (pf_key (at_heap q a)) plan"
    using fl by (simp_all add: in_flight_def)
  have heap: "a < length (q_heap q)" using order_ok_heap [OF ord a(1)] .
  note at = at_mark_done [OF heap, where result = "exec plan"]
  have "prefix_ok exec ?q b" if b: "b \<in> set (q_order q)" for b
  proof (cases "b = a")
    case True
    then show ?thesis using a(3) at unfolding prefix_ok_def by auto
  next
    case False
    with ok b at(1) [OF False] show ?thesis by (simp add: queue_ok_def prefix_ok_def)
  qed
  moreover have "parents_ok {a} ?q"
    unfolding parents_ok_def keys_mark_done [OF heap] mark_done_fields at
  proof (intro conjI ballI impI)
    show "[] \<in> set (keys q)" using ok by (simp add: queue_ok_def parents_ok_def)
    fix d assume "d \<in> set (q_order q)" "pf_key (at_heap q d) \<noteq> []"
    then obtain b where "b \<in> set (q_order q)" "pf_state (at_heap q b) = prefixDone" "pf_key (at_heap q b) = butlast (pf_key (at_heap q d))"
      using ok by (auto simp: queue_ok_def parents_ok_def)
    moreover have "b \<noteq> a" using calculation(2) a(2) by auto
    ultimately show "\<exists>b \<in> set (q_order q). b \<notin> {a} \<and> pf_state (at_heap ?q b) = prefixDone \<and> pf_key (at_heap q b) = butlast (pf_key (at_heap q d))"
      using at(1) by auto
  qed
  moreover have "cut_ok exec {a} ?q"
  proof -
    have old: "\<And>k pl b. b \<in> set (q_order q) \<Longrightarrow> planned exec k pl \<Longrightarrow> k \<notin> set (keys q) \<Longrightarrow> k \<noteq> [] \<Longrightarrow>
        state_of q b = prefixDone \<Longrightarrow> key_of q b = butlast k \<Longrightarrow> q_beyond q \<and> (\<forall>l \<in> set (keys q). key_before l k)"
      "q_beyond q \<longrightarrow> length (q_order q) = run_limit q \<and>
         (\<exists>k plan. planned exec k plan \<and> k \<notin> set (keys q) \<and> (\<forall>l \<in> set (keys q). key_before l k))"
      using ok unfolding queue_ok_def cut_ok_def by blast+
    have "q_beyond q \<and> (\<forall>l \<in> set (keys q). key_before l k)"
      if "b \<in> set (q_order q)" "planned exec k pl" "k \<notin> set (keys q)" "k \<noteq> []" "b \<notin> {a}" "state_of ?q b = prefixDone"
        "key_of q b = butlast k" for k pl b
      using old(1) [OF that(1-4) _ that(7)] that(5,6) at(1) [of b] by simp
    with old(2) show ?thesis
      unfolding cut_ok_def keys_mark_done [OF heap] mark_done_fields at by blast
  qed
  ultimately show ?thesis
    using mark_done_order_ok [OF ord a(1,2)] by (simp add: queue_ok_def)
qed

section \<open>Children\<close>

lemma unexplored_sorted: "sorted (unexplored r)"
  by (simp add: unexplored_def sorted_wrt_filter sorted_upt)

lemma unexplored_bound: "d \<in> set (unexplored r) \<Longrightarrow> d < length (er_record r)"
  by (simp add: unexplored_def)

lemma sorted_le_last: "sorted xs \<Longrightarrow> d \<in> set xs \<Longrightarrow> d \<le> last xs" for d :: nat
  by (induction xs rule: rev_induct) (auto simp: sorted_append)

lemma departure_shared:
  assumes "d \<in> set (unexplored r)"
  shows "departure (take (last (unexplored r) + 1) (er_record r)) d = departure (er_record r) d"
proof -
  have "d \<le> last (unexplored r)"
    using assms unexplored_sorted sorted_le_last by blast
  then show ?thesis by (simp add: departure_def min_absorb1)
qed

lemma child_prefixes_nth:
  assumes "result = Ran r out gaps" "followed r = None" "i < length (unexplored r)"
  shows "length (child_prefixes key result) = length (unexplored r)"
    "pf_key (child_prefixes key result ! i) = key @ [i]" "pf_state (child_prefixes key result ! i) = prefixQueued"
    "pf_plan (child_prefixes key result ! i) = departure (er_record r) (unexplored r ! i)"
  using assms departure_shared [of "unexplored r ! i" r]
  by (simp_all add: child_prefixes_def Let_def nth_enumerate_eq new_prefix_def pf_plan_def)

lemma child_prefixes_length:
  "length (child_prefixes key result) = (case result of Setup_Failed e \<Rightarrow> 0 | Ran r out gaps \<Rightarrow> if followed r \<noteq> None then 0 else length (unexplored r))"
  by (simp add: child_prefixes_def Let_def split: run_result.split)

lemma planned_child_iff:
  assumes "planned exec k plan"
  shows "planned exec (k @ [i]) plan' \<longleftrightarrow>
    i < length (child_prefixes k (exec plan)) \<and> plan' = pf_plan (child_prefixes k (exec plan) ! i)"
proof
  assume "planned exec (k @ [i]) plan'"
  then obtain plan2 r out gaps where "planned exec k plan2" "exec plan2 = Ran r out gaps" "followed r = None"
    "i < length (unexplored r)" "plan' = departure (er_record r) (unexplored r ! i)"
    by (elim planned_snocE) auto
  moreover have "plan2 = plan" using calculation(1) assms planned_unique by blast
  ultimately show "i < length (child_prefixes k (exec plan)) \<and> plan' = pf_plan (child_prefixes k (exec plan) ! i)"
    using child_prefixes_nth [of "exec plan" r out gaps i k] by simp
next
  assume *: "i < length (child_prefixes k (exec plan)) \<and> plan' = pf_plan (child_prefixes k (exec plan) ! i)"
  then obtain r out gaps where r: "exec plan = Ran r out gaps" "followed r = None" "i < length (unexplored r)"
    by (auto simp: child_prefixes_length split: run_result.splits if_splits)
  with * child_prefixes_nth(4) [OF r, of k] planned.child [OF assms r] show "planned exec (k @ [i]) plan'" by simp
qed

lemma insert_children_ok:
  assumes ok: "queue_ok exec {} q" and fl: "in_flight exec q a plan"
  defines "ps \<equiv> child_prefixes (pf_key (at_heap q a)) (exec plan)" and "q1 \<equiv> mark_done a (exec plan) q"
  shows "queue_ok exec {} (insert_prefixes ps q1)" "ps \<noteq> [] \<Longrightarrow> inserted ps q1 (insert_prefixes ps q1) \<and> children_of exec q1 a ps"
proof -
  have ord: "order_ok q" using ok by (simp add: queue_ok_def)
  have a: "a \<in> set (q_order q)" "pf_state (at_heap q a) = prefixRunning" "planned exec (pf_key (at_heap q a)) plan"
    using fl by (simp_all add: in_flight_def)
  have heap: "a < length (q_heap q)" using order_ok_heap [OF ord a(1)] .
  have q1: "queue_ok exec {a} q1" unfolding q1_def by (rule mark_done_queue_ok [OF ok fl])
  note at = at_mark_done [OF heap, where result = "exec plan", folded q1_def]
  have key: "pf_key (at_heap q1 a) = pf_key (at_heap q a)" using at(2) .
  show ins: "ps \<noteq> [] \<Longrightarrow> inserted ps q1 (insert_prefixes ps q1) \<and> children_of exec q1 a ps"
  proof -
    assume "ps \<noteq> []"
    have "pf_key (ps ! i) = pf_key (at_heap q a) @ [i] \<and> pf_state (ps ! i) = prefixQueued" if i: "i < length ps" for i
    proof -
      obtain r out gaps where "exec plan = Ran r out gaps" "followed r = None" "i < length (unexplored r)"
        using i by (auto simp: ps_def child_prefixes_length split: run_result.splits if_splits)
      from child_prefixes_nth(2,3) [OF this] show ?thesis by (simp add: ps_def)
    qed
    with \<open>ps \<noteq> []\<close> q1 a in_flight_index(1) [OF ord a(1,2)] at(3,4) planned_child_iff [OF a(3)]
    have c: "children_of exec q1 a ps"
      unfolding children_of_def key by (simp add: q1_def ps_def)
    with insert_queue_ok [OF c] show ?thesis by blast
  qed
  show "queue_ok exec {} (insert_prefixes ps q1)"
  proof (cases "ps = []")
    case False
    with ins insert_queue_ok show ?thesis by blast
  next
    case True
    have no_child: "\<not> planned exec k plan'" if "k \<noteq> []" "butlast k = pf_key (at_heap q a)" for k plan'
      using that True planned_child_iff [OF a(3), of "last k" plan'] by (metis append_butlast_last_id length_0_conv not_less0 ps_def)
    have old: "\<And>k pl b. b \<in> set (q_order q1) \<Longrightarrow> planned exec k pl \<Longrightarrow> k \<notin> set (keys q1) \<Longrightarrow> k \<noteq> [] \<Longrightarrow> b \<noteq> a \<Longrightarrow>
        state_of q1 b = prefixDone \<Longrightarrow> key_of q1 b = butlast k \<Longrightarrow> q_beyond q1 \<and> (\<forall>l \<in> set (keys q1). key_before l k)"
      "q_beyond q1 \<longrightarrow> length (q_order q1) = run_limit q1 \<and>
         (\<exists>k plan. planned exec k plan \<and> k \<notin> set (keys q1) \<and> (\<forall>l \<in> set (keys q1). key_before l k))"
      using q1 unfolding queue_ok_def cut_ok_def by blast+
    have "q_beyond q1 \<and> (\<forall>l \<in> set (keys q1). key_before l k)"
      if "b \<in> set (q_order q1)" "planned exec k pl" "k \<notin> set (keys q1)" "k \<noteq> []" "state_of q1 b = prefixDone"
        "key_of q1 b = butlast k" for k pl b
      using old(1) [OF that(1-4) _ that(5,6)] no_child [OF that(4), of pl] that(2,6) key by metis
    with old(2) have "cut_ok exec {} q1" unfolding cut_ok_def by blast
    moreover have "parents_ok {} q1" using q1 unfolding queue_ok_def parents_ok_def by blast
    ultimately show ?thesis using q1 True by (simp add: queue_ok_def insert_prefixes_def)
  qed
qed

end
