(* ===== verification/Explore_Fold.thy ===== *)
theory Explore_Fold
  imports Explore_Jobs
begin

text \<open>
  Folding: the reference a result is measured against, \<open>commits\<close>, which takes what came of a list
  of runs one after the other, and the proof that \<open>fold\<close> keeps the queue's result equal to it
  over the prefixes at the front of the order.
\<close>

section \<open>Committing runs in order\<close>

type_synonym tally = "Exploration \<times> (string \<rightharpoonup> nat) \<times> bool"

definition commit :: "run_result \<Rightarrow> tally \<Rightarrow> string + tally" where
  "commit result t =
     (case t of (x, reached, hit) \<Rightarrow>
        (case result of
           Setup_Failed e \<Rightarrow> Inl e
         | Ran r out gaps \<Rightarrow>
             (case followed r of
                Some reason \<Rightarrow> Inl (ErrExplorationDiverged @ '': run '' @ nat_text (x_Runs x + 1) @ '': '' @ reason)
              | None \<Rightarrow>
                  let n = x_Runs x + 1;
                      x = x\<lparr>x_Runs := n, x_Unenumerated := mergeGaps (x_Unenumerated x) gaps,
                            x_BudgetsHit := x_BudgetsHit x @
                              (if oc_sweepLimit out \<and> boundStatementOrders \<notin> set (x_BudgetsHit x) then [boundStatementOrders] else []),
                            x_Scope := scopeWith (x_Scope x) (oc_Scope out)\<rparr>;
                      outcomes = x_Outcomes x
                  in Inr (case reached (oc_identity out) of
                       None \<Rightarrow>
                         (x\<lparr>x_Outcomes := outcomes @
                             [\<lparr>eo_Outcome = out, eo_Linearizations = 1, eo_Witness = choices r, eo_WitnessRun = n\<rparr>]\<rparr>,
                          reached(oc_identity out \<mapsto> length outcomes), hit \<or> er_depthHit r)
                     | Some i \<Rightarrow>
                         (if er_duplicate r then x
                          else x\<lparr>x_Outcomes := list_update outcomes i
                                  ((outcomes ! i)\<lparr>eo_Linearizations := eo_Linearizations (outcomes ! i) + 1\<rparr>)\<rparr>,
                          reached, hit \<or> er_depthHit r)))))"

fun commits :: "run_result list \<Rightarrow> tally \<Rightarrow> string + tally" where
  "commits [] t = Inr t"
| "commits (result # results) t = (case commit result t of Inl e \<Rightarrow> Inl e | Inr t \<Rightarrow> commits results t)"

lemma commits_append:
  "commits (rs @ ss) t = (case commits rs t of Inl e \<Rightarrow> Inl e | Inr t \<Rightarrow> commits ss t)"
  by (induction rs arbitrary: t) (auto split: sum.split)

definition empty_tally :: "ExploreBudget \<Rightarrow> tally" where
  "empty_tally budget =
     (\<lparr>x_Budget = budget, x_Runs = 0, x_Outcomes = [], x_BudgetsHit = [], x_Unenumerated = [], x_Scope = []\<rparr>, Map.empty, False)"

definition tally_of :: "exploreQueue \<Rightarrow> tally" where
  "tally_of q = (q_result q, q_reached q, q_depthHit q)"

lemma commit_Inr_runs: "commit result t = Inr t' \<Longrightarrow> x_Runs (fst t') = x_Runs (fst t) + 1"
  by (cases t) (auto simp: commit_def Let_def split: run_result.splits option.splits)

lemma commits_Inr_runs: "commits rs t = Inr t' \<Longrightarrow> x_Runs (fst t') = x_Runs (fst t) + length rs"
  by (induction rs arbitrary: t) (auto split: sum.splits dest: commit_Inr_runs)

section \<open>What has been folded\<close>

definition along :: "(exploreSlot list \<Rightarrow> run_result) \<Rightarrow> nat list list \<Rightarrow> run_result list \<Rightarrow> bool" where
  "along exec = list_all2 (\<lambda>k result. \<exists>plan. planned exec k plan \<and> result = exec plan)"

lemma along_unique: "along exec ks rs \<Longrightarrow> along exec ks ss \<Longrightarrow> rs = ss"
  unfolding along_def
proof (induction ks arbitrary: rs ss)
  case (Cons k ks)
  then show ?case by (auto simp: list_all2_Cons1 dest: planned_unique)
qed simp

lemma along_take: "along exec ks rs \<Longrightarrow> along exec (take n ks) (take n rs)"
  by (simp add: along_def list_all2_takeI)

definition folded :: "(exploreSlot list \<Rightarrow> run_result) \<Rightarrow> exploreQueue \<Rightarrow> bool" where
  "folded exec q =
     (x_Runs (q_result q) = q_frontier q \<and>
      (\<exists>rs. along exec (take (q_frontier q) (keys q)) rs \<and> commits rs (empty_tally (q_budget q)) = Inr (tally_of q)))"

definition failed :: "(exploreSlot list \<Rightarrow> run_result) \<Rightarrow> exploreQueue \<Rightarrow> bool" where
  "failed exec q =
     (q_done q \<and> order_ok q \<and> (\<exists>e ks rs. q_err q = Some e \<and> segment exec ks \<and> length ks \<le> run_limit q \<and> along exec ks rs \<and>
        commits rs (empty_tally (q_budget q)) = Inl e))"

definition settled :: "exploreQueue \<Rightarrow> bool" where
  "settled q = (q_frontier q < length (q_order q) \<longrightarrow> state_of q (q_order q ! q_frontier q) \<noteq> prefixDone)"

text \<open>What folding leaves as it was.\<close>

definition fold_keeps :: "exploreQueue \<Rightarrow> exploreQueue \<Rightarrow> bool" where
  "fold_keeps q q' =
     (length (q_heap q') = length (q_heap q) \<and> q_order q' = q_order q \<and> q_running q' = q_running q \<and>
      q_discarded q' = q_discarded q \<and> q_beyond q' = q_beyond q \<and> q_budget q' = q_budget q \<and> q_jobs q' = q_jobs q \<and>
      q_frontier q \<le> q_frontier q' \<and>
      (\<forall>b. pf_state (at_heap q' b) = pf_state (at_heap q b) \<and> pf_key (at_heap q' b) = pf_key (at_heap q b) \<and>
           pf_index (at_heap q' b) = pf_index (at_heap q b) \<and> pf_plan (at_heap q' b) = pf_plan (at_heap q b)))"

lemma fold_keeps_refl [simp]: "fold_keeps q q"
  by (simp add: fold_keeps_def)

lemma fold_keeps_trans: "fold_keeps a b \<Longrightarrow> fold_keeps b c \<Longrightarrow> fold_keeps a c"
  by (simp add: fold_keeps_def)

lemma fold_keeps_keys: "fold_keeps q q' \<Longrightarrow> keys q' = keys q"
  by (simp add: fold_keeps_def keys_def)

lemma release_fields [simp]:
  "pf_state (release p) = pf_state p" "pf_key (release p) = pf_key p" "pf_index (release p) = pf_index p"
  "pf_plan (release p) = pf_plan p"
  by (simp_all add: release_def pf_plan_def split: option.split)

lemma take_outcome_fields [simp]:
  "q_heap (take_outcome n r out i g q) = q_heap q" "q_order (take_outcome n r out i g q) = q_order q"
  "q_frontier (take_outcome n r out i g q) = q_frontier q" "q_running (take_outcome n r out i g q) = q_running q"
  "q_pending (take_outcome n r out i g q) = q_pending q" "q_discarded (take_outcome n r out i g q) = q_discarded q"
  "q_beyond (take_outcome n r out i g q) = q_beyond q" "q_done (take_outcome n r out i g q) = q_done q"
  "q_err (take_outcome n r out i g q) = q_err q" "q_budget (take_outcome n r out i g q) = q_budget q"
  "q_jobs (take_outcome n r out i g q) = q_jobs q" "at_heap (take_outcome n r out i g q) = at_heap q"
  by (simp_all add: take_outcome_def Let_def at_heap_def fun_eq_iff split: option.split)

lemma fold_one_keeps: "fold_keeps q (fold_one q)"
  by (simp add: fold_keeps_def fold_one_def Let_def forget_def fail_def at_on_heap split: option.split)

text \<open>The front prefix folded: the fields the invariant looks at.\<close>

lemma fold_one_rest:
  "q_pending (fold_one q) = remove1 (q_order q ! q_frontier q) (q_pending q)"
  "b \<noteq> q_order q ! q_frontier q \<Longrightarrow> at_heap (fold_one q) b = at_heap q b"
  by (simp_all add: fold_one_def Let_def forget_def fail_def at_on_heap split: option.split)

lemma tally_take_outcome:
  assumes "followed r = None" "n = x_Runs (q_result q) + 1"
  shows "commit (Ran r out gaps) (tally_of q) =
    Inr (tally_of (take_outcome n r out (oc_identity out) gaps (q\<lparr>q_result := (q_result q)\<lparr>x_Runs := n\<rparr>\<rparr>)))"
  using assms
  by (cases "oc_sweepLimit out \<and> boundStatementOrders \<notin> set (x_BudgetsHit (q_result q))"; cases "q_reached q (oc_identity out)")
     (simp_all add: commit_def tally_of_def take_outcome_def Let_def, (intro impI conjI; simp)?)


text \<open>
  The reference commits exactly what the queue holds at its front; the queue reports an error in
  the reference's words.
\<close>

lemma fold_one_commits:
  assumes res: "holds_result (at_heap q a) result" and a: "a = q_order q ! q_frontier q" and n: "x_Runs (q_result q) = q_frontier q"
  shows "case commit result (tally_of q) of
      Inl e \<Rightarrow> q_done (fold_one q) \<and> q_err (fold_one q) = (if q_err q = None then Some e else q_err q)
    | Inr t \<Rightarrow> tally_of (fold_one q) = t \<and> q_done (fold_one q) = q_done q \<and> q_err (fold_one q) = q_err q"
proof -
  have fields: "q_result (forget a q) = q_result q" "q_frontier (forget a q) = q_frontier q" "q_err (forget a q) = q_err q"
    by (simp_all add: forget_def)
  show ?thesis
  proof (cases result)
    case (Setup_Failed e)
    with res show ?thesis
      unfolding fold_one_def a [symmetric]
      by (simp add: Let_def commit_def tally_of_def holds_result_def fail_def fields)
  next
    case (Ran r out gaps)
    show ?thesis
    proof (cases "followed r")
      case (Some e)
      with res Ran n show ?thesis
        unfolding fold_one_def a [symmetric]
        by (simp add: Let_def commit_def tally_of_def holds_result_def fail_def fields)
    next
      case None
      let ?q = "forget a q\<lparr>q_frontier := q_frontier q + 1\<rparr>"
      have t: "tally_of ?q = tally_of q" by (simp add: tally_of_def forget_def)
      have "fold_one q = on_heap a release (take_outcome (q_frontier q + 1) r out (oc_identity out) gaps
          (?q\<lparr>q_result := (q_result q)\<lparr>x_Runs := q_frontier q + 1\<rparr>\<rparr>))"
        using res Ran None unfolding fold_one_def a [symmetric] by (simp add: Let_def holds_result_def fields)
      moreover have "tally_of (on_heap a release qq) = tally_of qq" for qq by (simp add: tally_of_def)
      moreover have "commit (Ran r out gaps) (tally_of ?q) =
          Inr (tally_of (take_outcome (q_frontier q + 1) r out (oc_identity out) gaps (?q\<lparr>q_result := (q_result ?q)\<lparr>x_Runs := q_frontier q + 1\<rparr>\<rparr>)))"
        using None n by (intro tally_take_outcome) (simp_all add: fields)
      ultimately show ?thesis using t Ran by (simp add: fields forget_def)
    qed
  qed
qed

lemma length_filter_implies: "(\<And>x. P x \<Longrightarrow> Q x) \<Longrightarrow> length (filter P xs) \<le> length (filter Q xs)"
  by (induction xs) (auto intro: le_SucI)

lemma fold_one_order_ok:
  assumes ord: "order_ok q" and front: "q_frontier q < length (q_order q)" "state_of q (q_order q ! q_frontier q) = prefixDone"
  shows "order_ok (fold_one q)"
proof -
  let ?q = "fold_one q" and ?a = "q_order q ! q_frontier q"
  note k = fold_one_keeps [of q, unfolded fold_keeps_def] and f = fold_one_fields [of q] and pend = fold_one_rest(1) [of q]
  have keys: "keys ?q = keys q" using fold_keeps_keys [OF fold_one_keeps] .
  have wf: "wf_order q" using ord by (simp add: order_ok_def)
  have lim: "run_limit ?q = run_limit q" using k by (simp add: run_limit_def)
  have "wf_order ?q"
    using wf k pend lim set_remove1_subset [of ?a "q_pending q"] unfolding wf_order_def by (auto simp: distinct_remove1)
  moreover have "pending_started ?q"
    unfolding pending_started_def
  proof (intro allI impI)
    fix i assume i: "i < length (q_order ?q)" "q_frontier ?q \<le> i"
    then have "q_order q ! i \<noteq> ?a" using wf front f by (simp add: wf_order_def nth_eq_iff_index_eq)
    moreover have "started (at_heap q (q_order q ! i)) \<longleftrightarrow> q_order q ! i \<in> set (q_pending q)"
      using ord i f by (simp add: order_ok_def pending_started_def)
    ultimately show "started (at_heap ?q (q_order ?q ! i)) \<longleftrightarrow> q_order ?q ! i \<in> set (q_pending ?q)"
      using k pend f by simp
  qed
  moreover have "q_frontier ?q \<le> pf_index (at_heap ?q b)" if b: "b \<in> set (q_pending ?q)" for b
  proof -
    have dist: "distinct (q_pending q)" using wf by (simp add: wf_order_def)
    then have b': "b \<in> set (q_pending q)" "b \<noteq> ?a" using b pend by auto
    then have "b \<in> set (q_order q)" "q_frontier q \<le> pf_index (at_heap q b)" using ord by (auto simp: order_ok_def wf_order_def)
    moreover have "pf_index (at_heap q b) \<noteq> q_frontier q"
      using order_ok_index [OF ord \<open>b \<in> set (q_order q)\<close>] b'(2) by auto
    ultimately show ?thesis using k f by simp
  qed
  moreover have "\<forall>i < q_frontier ?q. state_of ?q (q_order ?q ! i) = prefixDone"
    using ord front k f by (auto simp: order_ok_def less_Suc_eq)
  moreover have "speculative ?q \<le> speculative q"
  proof -
    have "length (filter (\<lambda>b. q_frontier q + 1 < pf_index (at_heap q b)) (remove1 ?a (q_pending q))) \<le>
        length (filter (\<lambda>b. q_frontier q + 1 < pf_index (at_heap q b)) (q_pending q))"
      by (metis filter_remove1 length_remove1 diff_le_self order_refl)
    also have "\<dots> \<le> length (filter (\<lambda>b. q_frontier q < pf_index (at_heap q b)) (q_pending q))"
      by (rule length_filter_implies) simp
    finally show ?thesis using k f pend by (simp add: speculative_def)
  qed
  ultimately show ?thesis
    using ord front k f keys lim unfolding order_ok_def by auto
qed

lemma fold_one_queue_ok:
  assumes ok: "queue_ok exec {} q" and front: "q_frontier q < length (q_order q)" "state_of q (q_order q ! q_frontier q) = prefixDone"
  shows "queue_ok exec {} (fold_one q)"
proof -
  let ?q = "fold_one q" and ?a = "q_order q ! q_frontier q"
  note k = fold_one_keeps [of q, unfolded fold_keeps_def] and f = fold_one_fields [of q]
  have keys: "keys ?q = keys q" using fold_keeps_keys [OF fold_one_keeps] .
  have lim: "run_limit ?q = run_limit q" using k by (simp add: run_limit_def)
  have ord: "order_ok q" using ok by (simp add: queue_ok_def)
  have "prefix_ok exec ?q b" if b: "b \<in> set (q_order q)" for b
  proof -
    have old: "prefix_ok exec q b" using ok b by (simp add: queue_ok_def)
    show ?thesis
    proof (cases "b = ?a")
      case True
      have "pf_index (at_heap q ?a) = q_frontier q" using order_ok_pos [OF ord front(1)] .
      with True old k f show ?thesis unfolding prefix_ok_def by auto
    next
      case False
      with old k f fold_one_rest(2) [OF False] show ?thesis unfolding prefix_ok_def by auto
    qed
  qed
  moreover have "parents_ok {} ?q" using ok k keys by (simp add: queue_ok_def parents_ok_def)
  moreover have "cut_ok exec {} ?q" using ok k keys lim by (simp add: queue_ok_def cut_ok_def)
  ultimately show ?thesis using fold_one_order_ok [OF ord front] f by (simp add: queue_ok_def)
qed


text \<open>Folding from a queue in progress leaves one in progress with nothing more to fold, or one that failed.\<close>

definition in_progress :: "(exploreSlot list \<Rightarrow> run_result) \<Rightarrow> exploreQueue \<Rightarrow> bool" where
  "in_progress exec q = (queue_ok exec {} q \<and> folded exec q \<and> \<not> q_done q \<and> q_err q = None)"

lemma front_segment:
  assumes ok: "queue_ok exec {} q" and front: "q_frontier q < length (q_order q)" "state_of q (q_order q ! q_frontier q) = prefixDone"
  shows "segment exec (take (q_frontier q + 1) (keys q))" "length (take (q_frontier q + 1) (keys q)) \<le> run_limit q"
proof -
  have "\<forall>i < q_frontier q + 1. state_of q (q_order q ! i) = prefixDone"
    using ok front by (auto simp: queue_ok_def order_ok_def less_Suc_eq)
  then show "segment exec (take (q_frontier q + 1) (keys q))" using leading_done_segment [OF ok] front by simp
  show "length (take (q_frontier q + 1) (keys q)) \<le> run_limit q"
    using ok front by (simp add: queue_ok_def order_ok_def wf_order_def keys_def)
qed

lemma front_result:
  assumes ok: "queue_ok exec {} q" and front: "q_frontier q < length (q_order q)" "state_of q (q_order q ! q_frontier q) = prefixDone"
  obtains plan where "planned exec (keys q ! q_frontier q) plan" "holds_result (at_heap q (q_order q ! q_frontier q)) (exec plan)"
proof -
  have ord: "order_ok q" using ok by (simp add: queue_ok_def)
  have "prefix_ok exec q (q_order q ! q_frontier q)" using ok front by (simp add: queue_ok_def)
  then obtain plan where "planned exec (key_of q (q_order q ! q_frontier q)) plan"
    "holds_result (at_heap q (q_order q ! q_frontier q)) (exec plan)"
    using front order_ok_pos [OF ord front(1)] unfolding prefix_ok_def by auto
  then show ?thesis using that front by (simp add: keys_def)
qed

lemma fold_one_step:
  assumes prog: "in_progress exec q" and front: "q_frontier q < length (q_order q)" "state_of q (q_order q ! q_frontier q) = prefixDone"
  shows "if pf_err (at_heap q (q_order q ! q_frontier q)) \<noteq> None then failed exec (fold_one q) else in_progress exec (fold_one q)"
proof -
  let ?p = "at_heap q (q_order q ! q_frontier q)"
  have ok: "queue_ok exec {} q" and fol: "folded exec q" using prog by (simp_all add: in_progress_def)
  obtain plan where plan: "planned exec (keys q ! q_frontier q) plan" "holds_result ?p (exec plan)"
    using front_result [OF ok front] by blast
  obtain rs where rs: "x_Runs (q_result q) = q_frontier q" "along exec (take (q_frontier q) (keys q)) rs"
    "commits rs (empty_tally (q_budget q)) = Inr (tally_of q)" using fol by (auto simp: folded_def)
  note one = fold_one_commits [OF plan(2) refl rs(1)]
  note k = fold_one_keeps [of q, unfolded fold_keeps_def] and f = fold_one_fields [of q]
  have keys: "keys (fold_one q) = keys q" using fold_keeps_keys [OF fold_one_keeps] .
  have "take (q_frontier q + 1) (keys q) = take (q_frontier q) (keys q) @ [keys q ! q_frontier q]"
    using front by (simp add: keys_def take_Suc_conv_app_nth)
  then have along: "along exec (take (q_frontier q + 1) (keys q)) (rs @ [exec plan])"
    using rs(2) plan(1) unfolding along_def by (auto intro!: list_all2_appendI)
  have all: "commits (rs @ [exec plan]) (empty_tally (q_budget q)) = commit (exec plan) (tally_of q)"
    by (simp add: commits_append rs(3) split: sum.split)
  have err: "pf_err ?p \<noteq> None \<longleftrightarrow> (\<exists>e. commit (exec plan) (tally_of q) = Inl e)"
    using plan(2) by (auto simp: holds_result_def commit_def tally_of_def Let_def split: run_result.splits option.splits)
  show ?thesis
  proof (cases "commit (exec plan) (tally_of q)")
    case (Inl e)
    with one prog have "q_done (fold_one q)" "q_err (fold_one q) = Some e" by (simp_all add: in_progress_def)
    with Inl all along front_segment [OF ok front] k have "failed exec (fold_one q)"
      unfolding failed_def using fold_one_queue_ok [OF ok front]
      by (intro conjI) (auto simp: run_limit_def queue_ok_def intro!: exI [of _ "take (q_frontier q + 1) (keys q)"])
    with err Inl show ?thesis by simp
  next
    case (Inr t)
    with one prog have t: "tally_of (fold_one q) = t" "\<not> q_done (fold_one q)" "q_err (fold_one q) = None"
      by (simp_all add: in_progress_def)
    have "x_Runs (q_result (fold_one q)) = q_frontier q + 1"
      using commit_Inr_runs [OF Inr] t(1) rs(1) by (simp add: tally_of_def split: prod.splits)
        (metis fst_conv)
    then have "folded exec (fold_one q)"
      using along all Inr t(1) k f keys unfolding folded_def by auto
    with err Inr t fold_one_queue_ok [OF ok front] show ?thesis by (simp add: in_progress_def)
  qed
qed

lemma fold_queue_step:
  assumes "in_progress exec q"
  shows "fold_keeps q (fold_queue q) \<and> (failed exec (fold_queue q) \<or> in_progress exec (fold_queue q) \<and> settled (fold_queue q))"
  using assms
proof (induction q rule: fold_queue.induct)
  case (1 q)
  show ?case
  proof (cases "q_frontier q < length (q_order q) \<and> pf_state (at_heap q (q_order q ! q_frontier q)) = prefixDone")
    case False
    then have "fold_queue q = q" unfolding fold_queue.simps [of q] by (rule if_not_P)
    with False "1.prems" show ?thesis by (simp add: settled_def)
  next
    case front: True
    note one = fold_one_step [OF "1.prems" conjunct1 [OF front] conjunct2 [OF front]]
    show ?thesis
    proof (cases "pf_err (at_heap q (q_order q ! q_frontier q)) = None")
      case True
      then have "fold_queue q = fold_queue (fold_one q)" using front by (simp add: fold_queue.simps [of q])
      with "1.IH" [OF front refl] one True fold_keeps_trans [OF fold_one_keeps [of q]] show ?thesis by simp
    next
      case False
      then have "fold_queue q = fold_one q" using front by (simp add: fold_queue.simps [of q])
      with one False fold_one_keeps show ?thesis by simp
    qed
  qed
qed

end
