(* ===== verification/Explore_Steps.thy ===== *)
theory Explore_Steps
  imports Explore_Fold
begin

text \<open>
  The steps of the jobs: taking a prefix, reporting a run and returning keep the queue in progress,
  finished or failed; every run in flight is known to the queue; and the number of prefixes
  started is what the frontier, the pending list and the discards add up to.
\<close>

section \<open>Changes the invariant does not look at\<close>

lemma queue_ok_cong:
  assumes ok: "queue_ok exec X q"
    and same: "length (q_heap q') = length (q_heap q)" "q_order q' = q_order q" "q_frontier q' = q_frontier q"
      "q_pending q' = q_pending q" "q_discarded q' = q_discarded q" "q_beyond q' = q_beyond q" "q_budget q' = q_budget q"
      "q_jobs q' = q_jobs q"
    and heap: "\<And>b. b \<in> set (q_order q) \<Longrightarrow> at_heap q' b = at_heap q b"
  shows "queue_ok exec X q'"
proof -
  have lim: "run_limit q' = run_limit q" using same by (simp add: run_limit_def)
  have keys: "keys q' = keys q" using same heap by (simp add: keys_def)
  have pend: "set (q_pending q) \<subseteq> set (q_order q)" using ok by (simp add: queue_ok_def order_ok_def wf_order_def)
  have "filter (\<lambda>a. pf_index (at_heap q' a) > q_frontier q) (q_pending q) = filter (\<lambda>a. pf_index (at_heap q a) > q_frontier q) (q_pending q)"
    using heap pend by (intro filter_cong) auto
  then have spec: "speculative q' = speculative q" using same by (simp add: speculative_def)
  have "wf_order q'" using ok same lim heap by (simp add: queue_ok_def order_ok_def wf_order_def)
  moreover have "pending_started q'" using ok same heap by (simp add: queue_ok_def order_ok_def pending_started_def)
  moreover have "\<forall>a \<in> set (q_pending q'). q_frontier q' \<le> pf_index (at_heap q' a)"
    using ok same heap pend by (auto simp: queue_ok_def order_ok_def)
  ultimately have "order_ok q'"
    using ok same keys lim spec heap by (simp add: queue_ok_def order_ok_def)
  moreover have "\<forall>a \<in> set (q_order q'). prefix_ok exec q' a" using ok same heap by (simp add: queue_ok_def prefix_ok_def)
  moreover have "parents_ok X q'" using ok same heap keys by (simp add: queue_ok_def parents_ok_def)
  moreover have "cut_ok exec X q'" using ok same heap keys lim by (simp add: queue_ok_def cut_ok_def)
  ultimately show ?thesis by (simp add: queue_ok_def)
qed

lemma order_ok_cong:
  assumes ord: "order_ok q"
    and same: "length (q_heap q') = length (q_heap q)" "q_order q' = q_order q" "q_frontier q' = q_frontier q"
      "q_pending q' = q_pending q" "q_discarded q' = q_discarded q" "q_budget q' = q_budget q" "q_jobs q' = q_jobs q"
    and heap: "\<And>b. pf_state (at_heap q' b) = pf_state (at_heap q b)" "\<And>b. pf_key (at_heap q' b) = pf_key (at_heap q b)"
      "\<And>b. pf_index (at_heap q' b) = pf_index (at_heap q b)"
  shows "order_ok q'"
  using ord by (simp add: order_ok_def wf_order_def pending_started_def keys_def speculative_def run_limit_def same heap)

section \<open>Taking a prefix\<close>

lemma startable_from_Some:
  "startable_from i q = Some a \<Longrightarrow>
   \<exists>k \<ge> i. k < length (q_order q) \<and> a = q_order q ! k \<and> state_of q a = prefixQueued \<and>
     (\<forall>j. i \<le> j \<and> j < k \<longrightarrow> state_of q (q_order q ! j) \<noteq> prefixQueued) \<and>
     (k = q_frontier q \<or> q_discarded q + speculative q < q_jobs q)"
proof (induction i q rule: startable_from.induct)
  case (1 i q)
  show ?case
  proof (cases "i < length (q_order q) \<and> state_of q (q_order q ! i) \<noteq> prefixQueued")
    case True
    then have "startable_from (i + 1) q = Some a" using "1.prems" by (simp add: startable_from.simps [of i q])
    with "1.IH" True obtain k where k: "i + 1 \<le> k" "k < length (q_order q)" "a = q_order q ! k" "state_of q a = prefixQueued"
      "\<forall>j. i + 1 \<le> j \<and> j < k \<longrightarrow> state_of q (q_order q ! j) \<noteq> prefixQueued"
      "k = q_frontier q \<or> q_discarded q + speculative q < q_jobs q" by blast
    moreover have "state_of q (q_order q ! j) \<noteq> prefixQueued" if "i \<le> j" "j < k" for j
      using that True k(5) by (cases "j = i") auto
    ultimately show ?thesis by (intro exI [of _ k]) auto
  next
    case False
    with "1.prems" show ?thesis
      by (intro exI [of _ i]) (auto simp: startable_from.simps [of i q] split: if_splits)
  qed
qed

lemma startable_Some:
  assumes "startable q = Some a"
  obtains k where "q_frontier q \<le> k" "k < length (q_order q)" "a = q_order q ! k" "state_of q a = prefixQueued"
    "k = q_frontier q \<or> q_discarded q + speculative q < q_jobs q"
  using startable_from_Some [of "q_frontier q" q a] assms by (auto simp: startable_def)

lemma startable_None: "startable q = None \<Longrightarrow> q_frontier q < length (q_order q) \<Longrightarrow> state_of q (q_order q ! q_frontier q) \<noteq> prefixQueued"
  by (simp add: startable_def startable_from.simps [of "q_frontier q" q] split: if_splits)

definition taken :: "nat \<Rightarrow> exploreQueue \<Rightarrow> exploreQueue" where
  "taken a q =
     on_heap a (\<lambda>p. p\<lparr>pf_state := prefixRunning, pf_record := None\<rparr>) (q\<lparr>q_running := q_running q + 1, q_pending := q_pending q @ [a]\<rparr>)"

lemma taken_fields [simp]:
  "length (q_heap (taken a q)) = length (q_heap q)" "q_order (taken a q) = q_order q"
  "q_frontier (taken a q) = q_frontier q" "q_running (taken a q) = q_running q + 1"
  "q_pending (taken a q) = q_pending q @ [a]" "q_discarded (taken a q) = q_discarded q"
  "q_beyond (taken a q) = q_beyond q" "q_done (taken a q) = q_done q"
  "q_result (taken a q) = q_result q" "q_reached (taken a q) = q_reached q"
  "q_depthHit (taken a q) = q_depthHit q" "q_err (taken a q) = q_err q"
  "q_budget (taken a q) = q_budget q" "q_jobs (taken a q) = q_jobs q" "run_limit (taken a q) = run_limit q"
  by (simp_all add: taken_def run_limit_def)

lemma queue_next_takes:
  assumes "queue_next None q = (Next_Prefix a, q')"
  shows "\<not> q_done q" "startable q = Some a" "q_frontier q \<noteq> length (q_order q)"
    "a < length (q_heap q) \<Longrightarrow> on_heap a (\<lambda>p. p\<lparr>pf_record := None\<rparr>) q' = taken a q"
    "a < length (q_heap q) \<Longrightarrow> pf_plan (at_heap q' a) = pf_plan (at_heap q a)"
proof -
  show *: "\<not> q_done q" "startable q = Some a" "q_frontier q \<noteq> length (q_order q)"
    using assms by (auto simp: queue_next_def split: if_splits option.splits)
  with assms have q': "q' = (on_heap a (\<lambda>p. p\<lparr>pf_state := prefixRunning\<rparr>) q)\<lparr>q_running := q_running q + 1, q_pending := q_pending q @ [a]\<rparr>"
    by (simp add: queue_next_def split: if_splits)
  show "on_heap a (\<lambda>p. p\<lparr>pf_record := None\<rparr>) q' = taken a q" if "a < length (q_heap q)"
    using that by (simp add: q' taken_def on_heap_def)
  show "pf_plan (at_heap q' a) = pf_plan (at_heap q a)" if "a < length (q_heap q)"
    using that by (simp add: q' at_on_heap pf_plan_def split: option.split)
qed

lemma at_taken:
  assumes "a < length (q_heap q)"
  shows "b \<noteq> a \<Longrightarrow> at_heap (taken a q) b = at_heap q b" "pf_key (at_heap (taken a q) b) = pf_key (at_heap q b)"
    "pf_index (at_heap (taken a q) b) = pf_index (at_heap q b)" "pf_state (at_heap (taken a q) a) = prefixRunning"
  using assms by (auto simp: taken_def at_on_heap)

lemma keys_taken: "a < length (q_heap q) \<Longrightarrow> keys (taken a q) = keys q"
  by (simp add: keys_def at_taken)

lemma taken_order_ok:
  assumes ord: "order_ok q" and k: "q_frontier q \<le> k" "k < length (q_order q)" "a = q_order q ! k" "state_of q a = prefixQueued"
    "k = q_frontier q \<or> q_discarded q + speculative q < q_jobs q"
  shows "order_ok (taken a q)"
proof -
  have a: "a \<in> set (q_order q)" using k by simp
  have heap: "a < length (q_heap q)" using order_ok_heap [OF ord a] .
  have idx: "pf_index (at_heap q a) = k" using order_ok_pos [OF ord k(2)] k(3) by simp
  note at = at_taken [OF heap]
  have wf: "wf_order q" using ord by (simp add: order_ok_def)
  have not_pending: "a \<notin> set (q_pending q)"
    using ord k unfolding order_ok_def pending_started_def by (metis prefixState.distinct(1,3))
  have "wf_order (taken a q)"
    using wf not_pending a at by (simp add: wf_order_def)
  moreover have "pending_started (taken a q)"
    unfolding pending_started_def
  proof (intro allI impI)
    fix i assume i: "i < length (q_order (taken a q))" "q_frontier (taken a q) \<le> i"
    show "started (at_heap (taken a q) (q_order (taken a q) ! i)) \<longleftrightarrow> q_order (taken a q) ! i \<in> set (q_pending (taken a q))"
    proof (cases "q_order q ! i = a")
      case True
      then show ?thesis using at(4) by simp
    next
      case False
      with ord i at(1) [OF False] show ?thesis by (simp add: order_ok_def pending_started_def)
    qed
  qed
  moreover have "\<forall>b \<in> set (q_pending (taken a q)). q_frontier q \<le> pf_index (at_heap q b)"
    using ord idx k(1) by (simp add: order_ok_def)
  moreover have "state_of (taken a q) (q_order q ! i) = prefixDone" if "i < q_frontier q" for i
  proof -
    have "state_of q (q_order q ! i) = prefixDone" using ord that by (simp add: order_ok_def)
    moreover have "q_order q ! i \<noteq> a" using calculation k(4) by auto
    ultimately show ?thesis using at(1) by simp
  qed
  moreover have "speculative (taken a q) = speculative q + (if k = q_frontier q then 0 else 1)"
    using idx k(1) at(3) by (simp add: speculative_def)
  ultimately show ?thesis
    using ord k(5) keys_taken [OF heap] at(3) by (auto simp: order_ok_def)
qed

lemma taken_queue_ok:
  assumes ok: "queue_ok exec {} q" and k: "q_frontier q \<le> k" "k < length (q_order q)" "a = q_order q ! k" "state_of q a = prefixQueued"
    "k = q_frontier q \<or> q_discarded q + speculative q < q_jobs q"
  shows "queue_ok exec {} (taken a q)" "in_flight exec (taken a q) a (pf_plan (at_heap q a))"
proof -
  have ord: "order_ok q" using ok by (simp add: queue_ok_def)
  have a: "a \<in> set (q_order q)" using k by simp
  have heap: "a < length (q_heap q)" using order_ok_heap [OF ord a] .
  note at = at_taken [OF heap]
  have old: "prefix_ok exec q b" if "b \<in> set (q_order q)" for b using ok that by (simp add: queue_ok_def)
  then have plan: "planned exec (key_of q a) (pf_plan (at_heap q a))" using a k(4) by (auto simp: prefix_ok_def)
  show "in_flight exec (taken a q) a (pf_plan (at_heap q a))" using a plan at by (simp add: in_flight_def)
  have "prefix_ok exec (taken a q) b" if "b \<in> set (q_order q)" for b
    using old [OF that] plan at by (cases "b = a") (auto simp: prefix_ok_def)
  moreover have same_done: "state_of (taken a q) b = prefixDone \<longleftrightarrow> state_of q b = prefixDone" for b
    using at(1,4) k(4) by (cases "b = a") auto
  moreover have "parents_ok {} (taken a q)" "cut_ok exec {} (taken a q)"
    using ok by (simp_all add: queue_ok_def parents_ok_def cut_ok_def keys_taken [OF heap] at(2) same_done)
  ultimately show "queue_ok exec {} (taken a q)"
    using taken_order_ok [OF ord k] by (simp add: queue_ok_def)
qed


section \<open>Reporting a run\<close>

text \<open>How the states of the other prefixes move while one run is recorded and its children queued.\<close>

definition others_kept :: "(exploreSlot list \<Rightarrow> run_result) \<Rightarrow> nat \<Rightarrow> exploreQueue \<Rightarrow> exploreQueue \<Rightarrow> bool" where
  "others_kept exec a q q' =
     (length (q_heap q) \<le> length (q_heap q') \<and>
      (\<forall>b plan. b < length (q_heap q) \<and> b \<noteq> a \<and> in_flight exec q b plan \<longrightarrow> in_flight exec q' b plan \<or> state_of q' b = prefixDropped) \<and>
      (\<forall>b < length (q_heap q). b \<noteq> a \<and> state_of q b = prefixDropped \<longrightarrow> state_of q' b = prefixDropped) \<and>
      (\<forall>b \<in> set (q_order q'). state_of q' b = prefixRunning \<longrightarrow> b \<in> set (q_order q) \<and> b \<noteq> a \<and> state_of q b = prefixRunning))"

lemma others_kept_fold: "others_kept exec a q q' \<Longrightarrow> fold_keeps q' q'' \<Longrightarrow> others_kept exec a q q''"
  by (simp add: others_kept_def fold_keeps_def in_flight_def)

lemma others_kept_mark:
  assumes "a < length (q_heap q)"
  shows "others_kept exec a q (mark_done a result q)"
proof -
  have "state_of (mark_done a result q) b = (if b = a then prefixDone else state_of q b)" for b
    using at_mark_done(1,4) [OF assms] by simp
  then show ?thesis
    using at_mark_done(2) [OF assms] by (simp add: others_kept_def in_flight_def)
qed

lemma others_kept_insert:
  assumes c: "children_of exec q a ps" and ins: "inserted ps q q'" and o: "others_kept exec a p q"
  shows "others_kept exec a p q'"
proof -
  have ord: "order_ok q" using children_ok [OF c] by blast
  have wf: "wf_order q" using ord by (simp add: order_ok_def)
  have split: "full_order ps q = q_order q' @ cut_off ps q" using insertedD(2) [OF ins] by (simp add: cut_off_def)
  have cut: "state_of q' b = prefixDropped" if "b \<in> set (cut_off ps q)" for b
    using core_fields [OF insertedD(5) [OF ins, of b]] that by (simp add: dropped_def release_def)
  have other: "core (at_heap q' b) = core (at_heap q b)" if "b < length (q_heap q)" "b \<notin> set (cut_off ps q)" for b
    using insertedD(5) [OF ins, of b] that by (simp add: nth_append at_heap_def)
  have len: "length (q_heap q) \<le> length (q_heap q')" using insertedD(1) [OF ins] by simp
  have flight: "in_flight exec q' b plan \<or> state_of q' b = prefixDropped" if f: "in_flight exec q b plan" for b plan
  proof (cases "b \<in> set (cut_off ps q)")
    case False
    have b: "b \<in> set (q_order q)" using f by (simp add: in_flight_def)
    then have "b \<in> set (q_order q')" using False split by (metis UnE UnI1 set_append set_full_order)
    with f core_fields [OF other [OF order_ok_heap [OF ord b] False]] show ?thesis by (simp add: in_flight_def)
  qed (use cut in simp)
  have drop: "state_of q' b = prefixDropped" if "b < length (q_heap q)" "state_of q b = prefixDropped" for b
    using cut core_fields [OF other [OF that(1)]] that(2) by (cases "b \<in> set (cut_off ps q)") auto
  have running: "b \<in> set (q_order q) \<and> state_of q b = prefixRunning" if b: "b \<in> set (q_order q')" "state_of q' b = prefixRunning" for b
  proof (cases "b < length (q_heap q)")
    case True
    with after_insert(3) [OF c ins b(1)] core_fields b(2) show ?thesis by metis
  next
    case False
    have "b \<in> set (full_order ps q)" using b(1) split by simp
    from new_address [OF wf this False] obtain i where "b = length (q_heap q) + i" "i < length ps" by blast
    with core_fields [OF after_insert(2) [OF c ins b(1)]] c b(2) show ?thesis by (auto simp: nth_append children_of_def)
  qed
  show ?thesis
    unfolding others_kept_def
  proof (intro conjI allI ballI impI)
    show "length (q_heap p) \<le> length (q_heap q')" using o len by (simp add: others_kept_def)
    fix b plan assume b: "b < length (q_heap p) \<and> b \<noteq> a \<and> in_flight exec p b plan"
    then have "in_flight exec q b plan \<or> state_of q b = prefixDropped" "b < length (q_heap q)" using o by (auto simp: others_kept_def)
    then show "in_flight exec q' b plan \<or> state_of q' b = prefixDropped" using flight drop by blast
  next
    fix b assume "b < length (q_heap p)" "b \<noteq> a \<and> state_of p b = prefixDropped"
    with o have "state_of q b = prefixDropped" "b < length (q_heap q)" by (auto simp: others_kept_def)
    then show "state_of q' b = prefixDropped" using drop by blast
  next
    fix b assume "b \<in> set (q_order q')" "state_of q' b = prefixRunning"
    with running o show "b \<in> set (q_order p)" "b \<noteq> a" "state_of p b = prefixRunning" by (auto simp: others_kept_def)
  qed
qed


text \<open>The prefixes that were ever started: folded, started and in the order still, or discarded.\<close>

definition started_count :: "exploreQueue \<Rightarrow> nat" where
  "started_count q = q_frontier q + length (q_pending q) + q_discarded q"

lemma started_count_insert:
  assumes "inserted ps q q'"
  shows "started_count q' = started_count q"
  using insertedD(3,7,8) [OF assms] sum_length_filter_compl [of "\<lambda>a. a \<in> set (cut_off ps q)" "q_pending q"]
  by (simp add: started_count_def same_rest_def)

lemma started_count_fold_one:
  assumes "order_ok q" "q_frontier q < length (q_order q)" "state_of q (q_order q ! q_frontier q) = prefixDone"
  shows "started_count (fold_one q) = started_count q"
proof -
  have "q_order q ! q_frontier q \<in> set (q_pending q)" using assms unfolding order_ok_def pending_started_def by blast
  then have "length (remove1 (q_order q ! q_frontier q) (q_pending q)) + 1 = length (q_pending q)"
    by (simp add: length_remove1) (metis Suc_pred length_pos_if_in_set)
  moreover have "q_discarded (fold_one q) = q_discarded q" using fold_one_keeps [of q] by (simp add: fold_keeps_def)
  ultimately show ?thesis by (simp add: started_count_def fold_one_rest fold_one_fields)
qed

lemma started_count_fold:
  assumes "in_progress exec q"
  shows "started_count (fold_queue q) = started_count q"
  using assms
proof (induction q rule: fold_queue.induct)
  case (1 q)
  show ?case
  proof (cases "q_frontier q < length (q_order q) \<and> pf_state (at_heap q (q_order q ! q_frontier q)) = prefixDone")
    case False
    then have "fold_queue q = q" unfolding fold_queue.simps [of q] by (rule if_not_P)
    then show ?thesis by simp
  next
    case front: True
    have "order_ok q" using "1.prems" by (simp add: in_progress_def queue_ok_def)
    with front have one: "started_count (fold_one q) = started_count q" using started_count_fold_one by blast
    show ?thesis
    proof (cases "pf_err (at_heap q (q_order q ! q_frontier q)) = None")
      case True
      then have "in_progress exec (fold_one q)" using fold_one_step [OF "1.prems"] front by simp
      moreover have "fold_queue q = fold_queue (fold_one q)" using True front by (simp add: fold_queue.simps [of q])
      ultimately show ?thesis using "1.IH" [OF front refl] True one by simp
    next
      case False
      then have "fold_queue q = fold_one q" using front by (simp add: fold_queue.simps [of q])
      with one show ?thesis by simp
    qed
  qed
qed

lemma started_count_bound:
  assumes "order_ok q"
  shows "started_count q \<le> run_limit q + q_jobs q"
proof -
  have wf: "wf_order q" using assms by (simp add: order_ok_def)
  have "set (q_pending q) \<subseteq> set (drop (q_frontier q) (q_order q))"
  proof
    fix b assume b: "b \<in> set (q_pending q)"
    then have "b \<in> set (q_order q)" "q_frontier q \<le> pf_index (at_heap q b)"
      using assms by (auto simp: order_ok_def wf_order_def)
    moreover from this order_ok_index [OF assms, of b]
    have "pf_index (at_heap q b) - q_frontier q < length (drop (q_frontier q) (q_order q))"
      "drop (q_frontier q) (q_order q) ! (pf_index (at_heap q b) - q_frontier q) = b" by auto
    ultimately show "b \<in> set (drop (q_frontier q) (q_order q))" by (metis nth_mem)
  qed
  then have "card (set (q_pending q)) \<le> card (set (drop (q_frontier q) (q_order q)))" by (intro card_mono) auto
  moreover have "card (set (q_pending q)) = length (q_pending q)" using wf by (simp add: wf_order_def distinct_card)
  moreover have "card (set (drop (q_frontier q) (q_order q))) = length (q_order q) - q_frontier q"
    using wf by (simp add: wf_order_def distinct_card)
  ultimately have "length (q_pending q) \<le> length (q_order q) - q_frontier q" by simp
  moreover have "q_frontier q \<le> length (q_order q)" "length (q_order q) \<le> run_limit q" "q_discarded q + speculative q \<le> q_jobs q"
    using assms by (simp_all add: order_ok_def wf_order_def)
  ultimately show ?thesis unfolding started_count_def by linarith
qed

text \<open>Reporting a run that is still wanted.\<close>

lemma finish_in_flight:
  assumes prog: "in_progress exec q" and fl: "in_flight exec q a plan"
  defines "q' \<equiv> finish a (exec plan) q"
  shows "failed exec q' \<or> in_progress exec q' \<and> settled q'" "others_kept exec a q q'" "q_running q' = q_running q - 1"
    "q_budget q' = q_budget q" "q_jobs q' = q_jobs q" "started_count q' = started_count q"
proof -
  let ?ps = "child_prefixes (pf_key (at_heap q a)) (exec plan)" and ?m = "mark_done a (exec plan) q"
  have ok: "queue_ok exec {} q" and fol: "folded exec q" and open_q: "\<not> q_done q" "q_err q = None"
    using prog by (simp_all add: in_progress_def)
  have ord: "order_ok q" using ok by (simp add: queue_ok_def)
  have a: "a \<in> set (q_order q)" "state_of q a = prefixRunning" using fl by (simp_all add: in_flight_def)
  have heap: "a < length (q_heap q)" using order_ok_heap [OF ord a(1)] .
  define q1 where "q1 = insert_prefixes ?ps ?m"
  have q': "q' = fold_queue q1"
    unfolding q'_def q1_def using a open_q by (intro finish_eq [OF heap]) auto
  note ins = insert_children_ok [OF ok fl]
  have q1_ok: "queue_ok exec {} q1" using ins(1) by (simp add: q1_def)
  have front: "take (q_frontier q) (keys q1) = take (q_frontier q) (keys q)" and rest: "same_rest ?m q1"
    and kept: "others_kept exec a q q1" and count: "started_count q1 = started_count q"
  proof -
    have m: "keys ?m = keys q" "started_count ?m = started_count q" using keys_mark_done [OF heap] by (simp_all add: started_count_def)
    have "take (q_frontier q) (keys q1) = take (q_frontier q) (keys q) \<and> same_rest ?m q1 \<and> others_kept exec a q q1 \<and> started_count q1 = started_count q"
    proof (cases "?ps = []")
      case True
      then show ?thesis using m others_kept_mark [OF heap] by (simp add: q1_def insert_prefixes_def)
    next
      case False
      with ins have i: "inserted ?ps ?m q1" and c: "children_of exec ?m a ?ps" by (simp_all add: q1_def)
      have at: "q_frontier q < insert_at ?ps ?m" using parent_before_at(2) [OF c] by simp
      have "insert_at ?ps ?m \<le> run_limit q"
        using insert_at_le [of ?ps ?m] ord by (simp add: order_ok_def wf_order_def)
      then have "take (q_frontier q) (keys q1) = take (q_frontier q) (keys ?m)"
        using at insert_at_le [of ?ps ?m] unfolding after_insert(1) [OF c i] full_keys_eq [OF c]
        by (simp add: keys_def min_def)
      then show ?thesis
        using m insertedD(3) [OF i] others_kept_insert [OF c i others_kept_mark [OF heap]] started_count_insert [OF i] by simp
    qed
    then show "take (q_frontier q) (keys q1) = take (q_frontier q) (keys q)" "same_rest ?m q1"
      "others_kept exec a q q1" "started_count q1 = started_count q" by blast+
  qed
  have "in_progress exec q1"
    using q1_ok rest front fol open_q by (simp add: in_progress_def folded_def same_rest_def tally_of_def)
  note fold = fold_queue_step [OF this] and fold_count = started_count_fold [OF this]
  show "failed exec q' \<or> in_progress exec q' \<and> settled q'" using fold q' by simp
  show "others_kept exec a q q'" using others_kept_fold [OF kept] fold q' by simp
  show "q_running q' = q_running q - 1" "q_budget q' = q_budget q" "q_jobs q' = q_jobs q"
    using fold rest q' by (simp_all add: fold_keeps_def same_rest_def)
  show "started_count q' = started_count q" using fold_count count q' by simp
qed

text \<open>Reporting a run that is no longer wanted changes nothing the invariant looks at.\<close>

lemma finish_unwanted:
  assumes "a < length (q_heap q)" "state_of q a = prefixDropped \<or> q_done q"
  obtains f where "finish a result q = on_heap a f (q\<lparr>q_running := q_running q - 1\<rparr>)"
    "\<And>p. pf_state (f p) = pf_state p" "\<And>p. pf_key (f p) = pf_key p" "\<And>p. pf_index (f p) = pf_index p"
proof -
  obtain replay outcome gaps err where r: "(case result of Setup_Failed e \<Rightarrow> (None, zero_Outcome, pf_gaps (at_heap q a), Some e)
      | Ran r o' g \<Rightarrow> (Some r, o', g, followed r)) = (replay, outcome, gaps, err)" using prod_cases4 by blast
  let ?f = "\<lambda>p. p\<lparr>pf_gaps := gaps, pf_identity := (if err = None then oc_identity outcome else pf_identity p)\<rparr>"
  have "finish a result q = (on_heap a ?f q)\<lparr>q_running := q_running q - 1\<rparr>"
    using assms by (simp add: finish_def r Let_def at_on_heap)
  then have "finish a result q = on_heap a ?f (q\<lparr>q_running := q_running q - 1\<rparr>)" by (simp add: on_heap_def)
  then show ?thesis by (rule that) auto
qed

end
