(* ===== verification/Explore_Complete.thy ===== *)
theory Explore_Complete
  imports Explore_Steps
begin

text \<open>
  Whole explorations: the invariant of the queue and its jobs over every interleaving, and what it
  gives. The answer is that of committing the first runs of the tree in plan order, whatever the
  jobs; no interleaving gets stuck before all jobs have returned, none goes on for ever, and the
  budget and the number of jobs bound what is queued and thrown away.
\<close>

section \<open>The jobs and the queue\<close>

definition flight_of :: "job \<Rightarrow> (nat \<times> exploreSlot list) list" where
  "flight_of x = (case x of Busy a plan \<Rightarrow> [(a, plan)] | _ \<Rightarrow> [])"

definition flights :: "job list \<Rightarrow> (nat \<times> exploreSlot list) list" where
  "flights jobs = concat (map flight_of jobs)"

lemma flights_split: "flights (xs @ x # ys) = flights xs @ flight_of x @ flights ys"
  by (simp add: flights_def)

lemma flights_update:
  assumes "j < length jobs"
  obtains xs ys where "jobs = xs @ jobs ! j # ys" "\<And>y. list_update jobs j y = xs @ y # ys"
  using id_take_nth_drop [OF assms] upd_conv_take_nth_drop [OF assms] that by blast

definition finished :: "(exploreSlot list \<Rightarrow> run_result) \<Rightarrow> exploreQueue \<Rightarrow> bool" where
  "finished exec q =
     (queue_ok exec {} q \<and> folded exec q \<and> q_done q \<and> q_err q = None \<and> q_frontier q = length (q_order q) \<and> q_running q = 0)"

definition jobs_ok :: "(exploreSlot list \<Rightarrow> run_result) \<Rightarrow> explorer \<Rightarrow> bool" where
  "jobs_ok exec s =
     (let q = ex_queue s; fs = flights (ex_jobs s)
      in distinct (map fst fs) \<and> q_running q = length fs \<and> (\<forall>f \<in> set fs. fst f < length (q_heap q)) \<and>
         (Gone \<in> set (ex_jobs s) \<longrightarrow> q_done q) \<and>
         (\<not> q_done q \<longrightarrow>
            (\<forall>f \<in> set fs. in_flight exec q (fst f) (snd f) \<or> state_of q (fst f) = prefixDropped) \<and>
            (\<forall>a \<in> set (q_order q). state_of q a = prefixRunning \<longrightarrow> a \<in> fst ` set fs)))"

definition queue_phase :: "(exploreSlot list \<Rightarrow> run_result) \<Rightarrow> exploreQueue \<Rightarrow> bool" where
  "queue_phase exec q = (in_progress exec q \<and> settled q \<or> failed exec q \<or> finished exec q)"

definition explorer_ok :: "(exploreSlot list \<Rightarrow> run_result) \<Rightarrow> explorer \<Rightarrow> bool" where
  "explorer_ok exec s = (jobs_ok exec s \<and> queue_phase exec (ex_queue s))"

lemma not_done_in_progress: "queue_phase exec q \<Longrightarrow> \<not> q_done q \<Longrightarrow> in_progress exec q \<and> settled q"
  by (auto simp: queue_phase_def failed_def finished_def)

text \<open>The steps, each at one job of the list.\<close>

lemma job_takes_ok:
  assumes s: "explorer_ok exec s" and j: "ex_jobs s = xs @ Idle # ys" and t: "queue_next None (ex_queue s) = (Next_Prefix a, q')"
  shows "explorer_ok exec \<lparr>ex_queue = on_heap a (\<lambda>p. p\<lparr>pf_record := None\<rparr>) q', ex_jobs = xs @ Busy a (pf_plan (at_heap q' a)) # ys\<rparr>"
    "started_count (on_heap a (\<lambda>p. p\<lparr>pf_record := None\<rparr>) q') = started_count (ex_queue s) + 1"
    "order_ok (on_heap a (\<lambda>p. p\<lparr>pf_record := None\<rparr>) q')"
    "q_budget (on_heap a (\<lambda>p. p\<lparr>pf_record := None\<rparr>) q') = q_budget (ex_queue s)"
    "q_jobs (on_heap a (\<lambda>p. p\<lparr>pf_record := None\<rparr>) q') = q_jobs (ex_queue s)"
proof -
  let ?q = "ex_queue s"
  note n = queue_next_takes [OF t]
  have prog: "in_progress exec ?q" "settled ?q" using s n(1) not_done_in_progress by (auto simp: explorer_ok_def)
  have ok: "queue_ok exec {} ?q" using prog by (simp add: in_progress_def)
  then have ord: "order_ok ?q" by (simp add: queue_ok_def)
  obtain k where k: "q_frontier ?q \<le> k" "k < length (q_order ?q)" "a = q_order ?q ! k" "state_of ?q a = prefixQueued"
    "k = q_frontier ?q \<or> q_discarded ?q + speculative ?q < q_jobs ?q" using startable_Some [OF n(2)] by blast
  have a: "a \<in> set (q_order ?q)" using k by simp
  have heap: "a < length (q_heap ?q)" using order_ok_heap [OF ord a] .
  note at = at_taken [OF heap] and eq = n(4,5) [OF heap]
  note tk = taken_queue_ok [OF ok k]
  show "started_count (on_heap a (\<lambda>p. p\<lparr>pf_record := None\<rparr>) q') = started_count ?q + 1"
    "order_ok (on_heap a (\<lambda>p. p\<lparr>pf_record := None\<rparr>) q')"
    "q_budget (on_heap a (\<lambda>p. p\<lparr>pf_record := None\<rparr>) q') = q_budget ?q"
    "q_jobs (on_heap a (\<lambda>p. p\<lparr>pf_record := None\<rparr>) q') = q_jobs ?q"
    using taken_order_ok [OF ord k] by (simp_all add: eq started_count_def)
  have tally: "folded exec (taken a ?q)"
    using prog(1) keys_taken [OF heap] by (simp add: in_progress_def folded_def tally_of_def)
  have settled': "settled (taken a ?q)"
    using prog(2) at(1,4) unfolding settled_def by (metis prefixState.distinct(7) taken_fields(2,3))
  have phase: "queue_phase exec (taken a ?q)"
    using tk(1) tally settled' prog(1) by (simp add: queue_phase_def in_progress_def)
  have j_ok: "distinct (map fst (flights xs @ flights ys))" "q_running ?q = length (flights xs @ flights ys)"
    "\<forall>f \<in> set (flights xs @ flights ys). fst f < length (q_heap ?q)" "Gone \<notin> set (xs @ ys)"
    "\<forall>f \<in> set (flights xs @ flights ys). in_flight exec ?q (fst f) (snd f) \<or> state_of ?q (fst f) = prefixDropped"
    "\<forall>b \<in> set (q_order ?q). state_of ?q b = prefixRunning \<longrightarrow> b \<in> fst ` set (flights xs @ flights ys)"
    using s n(1) by (simp_all add: explorer_ok_def jobs_ok_def Let_def j flights_split flight_of_def)
  have fresh: "a \<notin> fst ` set (flights xs @ flights ys)"
  proof
    assume "a \<in> fst ` set (flights xs @ flights ys)"
    then obtain f where "f \<in> set (flights xs @ flights ys)" "fst f = a" by auto
    with j_ok(5) have "in_flight exec ?q a (snd f) \<or> state_of ?q a = prefixDropped" by blast
    with k(4) show False by (auto simp: in_flight_def)
  qed
  have "jobs_ok exec \<lparr>ex_queue = taken a ?q, ex_jobs = xs @ Busy a (pf_plan (at_heap ?q a)) # ys\<rparr>"
    unfolding jobs_ok_def Let_def explorer.simps flights_split flight_of_def job.case
  proof (intro conjI impI)
    show "distinct (map fst (flights xs @ [(a, pf_plan (at_heap ?q a))] @ flights ys))" using j_ok(1) fresh by auto
    show "q_running (taken a ?q) = length (flights xs @ [(a, pf_plan (at_heap ?q a))] @ flights ys)" using j_ok(2) by simp
    show "\<forall>f \<in> set (flights xs @ [(a, pf_plan (at_heap ?q a))] @ flights ys). fst f < length (q_heap (taken a ?q))"
      using j_ok(3) heap by auto
    show "q_done (taken a ?q)" if "Gone \<in> set (xs @ Busy a (pf_plan (at_heap ?q a)) # ys)" using that j_ok(4) by auto
    have "in_flight exec (taken a ?q) (fst f) (snd f) \<or> state_of (taken a ?q) (fst f) = prefixDropped"
      if "f \<in> set (flights xs @ flights ys)" for f
    proof -
      have "fst f \<noteq> a" using fresh that by auto
      with j_ok(5) that at(1) show ?thesis by (auto simp: in_flight_def)
    qed
    then show "\<forall>f \<in> set (flights xs @ [(a, pf_plan (at_heap ?q a))] @ flights ys).
        in_flight exec (taken a ?q) (fst f) (snd f) \<or> state_of (taken a ?q) (fst f) = prefixDropped"
      using tk(2) by auto
    show "\<forall>b \<in> set (q_order (taken a ?q)). state_of (taken a ?q) b = prefixRunning \<longrightarrow>
        b \<in> fst ` set (flights xs @ [(a, pf_plan (at_heap ?q a))] @ flights ys)"
    proof (intro ballI impI)
      fix b assume b: "b \<in> set (q_order (taken a ?q))" "state_of (taken a ?q) b = prefixRunning"
      show "b \<in> fst ` set (flights xs @ [(a, pf_plan (at_heap ?q a))] @ flights ys)"
        using b j_ok(6) at(1) by (cases "b = a") auto
    qed
  qed
  with phase eq show "explorer_ok exec \<lparr>ex_queue = on_heap a (\<lambda>p. p\<lparr>pf_record := None\<rparr>) q', ex_jobs = xs @ Busy a (pf_plan (at_heap q' a)) # ys\<rparr>"
    by (simp add: explorer_ok_def)
qed

lemma job_returns_ok:
  assumes s: "explorer_ok exec s" and j: "ex_jobs s = xs @ Idle # ys" and t: "queue_next None (ex_queue s) = (Next_Over, q')"
  shows "explorer_ok exec \<lparr>ex_queue = q', ex_jobs = xs @ Gone # ys\<rparr>" "started_count q' = started_count (ex_queue s)"
    "q_budget q' = q_budget (ex_queue s)" "q_jobs q' = q_jobs (ex_queue s)" "q_done q'"
proof -
  let ?q = "ex_queue s"
  have n: "q' = ?q \<and> q_done ?q \<or> \<not> q_done ?q \<and> q' = ?q\<lparr>q_done := True\<rparr> \<and> q_frontier ?q = length (q_order ?q) \<and> q_running ?q = 0"
    using t by (auto simp: queue_next_def split: if_splits option.splits)
  show "started_count q' = started_count ?q" "q_budget q' = q_budget ?q" "q_jobs q' = q_jobs ?q" "q_done q'"
    using n by (auto simp: started_count_def)
  have jobs: "jobs_ok exec \<lparr>ex_queue = q', ex_jobs = xs @ Gone # ys\<rparr>"
    using s n by (auto simp: explorer_ok_def jobs_ok_def Let_def j flights_split flight_of_def)
  have "queue_phase exec q'"
  proof (cases "q_done ?q")
    case True
    with n s show ?thesis by (auto simp: explorer_ok_def)
  next
    case False
    then have q': "q' = ?q\<lparr>q_done := True\<rparr>" "q_frontier ?q = length (q_order ?q)" "q_running ?q = 0" using n by auto
    have prog: "in_progress exec ?q" using s False not_done_in_progress by (auto simp: explorer_ok_def)
    have ok: "queue_ok exec {} (?q\<lparr>q_done := True\<rparr>)"
      using prog unfolding in_progress_def by (elim conjE, erule_tac queue_ok_cong) simp_all
    have "keys (?q\<lparr>q_done := True\<rparr>) = keys ?q" by (simp add: keys_def)
    with prog have "folded exec (?q\<lparr>q_done := True\<rparr>)" by (simp add: in_progress_def folded_def tally_of_def)
    with ok q' prog have "finished exec q'" by (simp add: finished_def in_progress_def)
    then show ?thesis by (simp add: queue_phase_def)
  qed
  with jobs show "explorer_ok exec \<lparr>ex_queue = q', ex_jobs = xs @ Gone # ys\<rparr>" by (simp add: explorer_ok_def)
qed


lemma finish_unwanted_queue:
  fixes result :: run_result
  assumes phase: "queue_phase exec q" and a: "a < length (q_heap q)" "state_of q a = prefixDropped \<or> q_done q" and run: "0 < q_running q"
  defines "q' \<equiv> finish a result q"
  shows "queue_phase exec q'" "q_running q' = q_running q - 1" "q_budget q' = q_budget q" "q_jobs q' = q_jobs q"
    "started_count q' = started_count q" "q_done q' = q_done q" "length (q_heap q') = length (q_heap q)" "q_order q' = q_order q"
    "\<And>b. state_of q' b = state_of q b" "\<And>b. key_of q' b = key_of q b"
proof -
  obtain f where f: "q' = on_heap a f (q\<lparr>q_running := q_running q - 1\<rparr>)" "\<And>p. pf_state (f p) = pf_state p" "\<And>p. pf_key (f p) = pf_key p"
    "\<And>p. pf_index (f p) = pf_index p"
    unfolding q'_def using finish_unwanted [OF a] by metis
  show "q_running q' = q_running q - 1" "q_budget q' = q_budget q" "q_jobs q' = q_jobs q"
    "started_count q' = started_count q" "q_done q' = q_done q" "length (q_heap q') = length (q_heap q)" "q_order q' = q_order q"
    by (simp_all add: f(1) started_count_def)
  show state: "state_of q' b = state_of q b" and key: "key_of q' b = key_of q b" for b
    by (simp_all add: f at_on_heap)
  have tally: "tally_of q' = tally_of q" by (simp add: f(1) tally_of_def)
  have keys: "keys q' = keys q" using key by (simp add: keys_def f(1))
  show "queue_phase exec q'"
  proof (cases "q_done q")
    case True
    with phase run have "failed exec q" by (auto simp: queue_phase_def in_progress_def finished_def)
    moreover have "order_ok q'" if "order_ok q"
      by (rule order_ok_cong [OF that]) (simp_all add: f at_on_heap)
    ultimately have "failed exec q'" by (simp add: failed_def f(1) run_limit_def)
    then show ?thesis by (simp add: queue_phase_def)
  next
    case False
    with a(2) have dropped: "state_of q a = prefixDropped" by blast
    have prog: "in_progress exec q" "settled q" using not_done_in_progress [OF phase False] by auto
    then have ok: "queue_ok exec {} q" by (simp add: in_progress_def)
    have off: "a \<notin> set (q_order q)"
      using ok dropped by (auto simp: queue_ok_def prefix_ok_def)
    have "queue_ok exec {} q'"
      using off by (intro queue_ok_cong [OF ok]) (auto simp: f(1) at_on_heap)
    moreover have "folded exec q'"
      using prog(1) tally keys by (simp add: in_progress_def folded_def f(1))
    moreover have "settled q'" using prog(2) state by (simp add: settled_def f(1))
    ultimately have "in_progress exec q' \<and> settled q'" using prog(1) by (simp add: in_progress_def f(1))
    then show ?thesis by (simp add: queue_phase_def)
  qed
qed

lemma flight_removed:
  assumes "distinct (map fst (xs @ (a, plan) # ys))" "f \<in> set (xs @ ys)"
  shows "fst f \<noteq> a"
  using assms by (force simp: image_iff)

lemma job_finishes_ok:
  assumes s: "explorer_ok exec s" and j: "ex_jobs s = xs @ Busy a plan # ys"
  shows "explorer_ok exec \<lparr>ex_queue = finish a (exec plan) (ex_queue s), ex_jobs = xs @ Idle # ys\<rparr>"
    "started_count (finish a (exec plan) (ex_queue s)) = started_count (ex_queue s)"
    "q_budget (finish a (exec plan) (ex_queue s)) = q_budget (ex_queue s)"
    "q_jobs (finish a (exec plan) (ex_queue s)) = q_jobs (ex_queue s)"
proof -
  let ?q = "ex_queue s" and ?q' = "finish a (exec plan) (ex_queue s)" and ?fs = "flights xs @ flights ys"
  have phase: "queue_phase exec ?q" using s by (simp add: explorer_ok_def)
  have j_ok: "distinct (map fst (flights xs @ (a, plan) # flights ys))" "q_running ?q = Suc (length ?fs)"
    "a < length (q_heap ?q)" "\<forall>f \<in> set ?fs. fst f < length (q_heap ?q)" "Gone \<in> set (xs @ ys) \<Longrightarrow> q_done ?q"
    "\<not> q_done ?q \<Longrightarrow> in_flight exec ?q a plan \<or> state_of ?q a = prefixDropped"
    "\<not> q_done ?q \<Longrightarrow> \<forall>f \<in> set ?fs. in_flight exec ?q (fst f) (snd f) \<or> state_of ?q (fst f) = prefixDropped"
    "\<not> q_done ?q \<Longrightarrow> \<forall>b \<in> set (q_order ?q). state_of ?q b = prefixRunning \<longrightarrow> b = a \<or> b \<in> fst ` set ?fs"
    using s by (auto simp: explorer_ok_def jobs_ok_def Let_def j flights_split flight_of_def)
  have other: "fst f \<noteq> a" if "f \<in> set ?fs" for f using flight_removed [OF j_ok(1) that] .
  have dist: "distinct (map fst ?fs)" using j_ok(1) by auto
  have "queue_phase exec ?q' \<and> jobs_ok exec \<lparr>ex_queue = ?q', ex_jobs = xs @ Idle # ys\<rparr> \<and> started_count ?q' = started_count ?q \<and>
      q_budget ?q' = q_budget ?q \<and> q_jobs ?q' = q_jobs ?q"
  proof (cases "q_done ?q \<or> state_of ?q a = prefixDropped")
    case True
    then have unwanted: "state_of ?q a = prefixDropped \<or> q_done ?q" by blast
    note u = finish_unwanted_queue [OF phase j_ok(3) unwanted, of "exec plan"]
    have pos: "0 < q_running ?q" using j_ok(2) by simp
    note u = u [OF pos]
    have fl: "in_flight exec ?q' b pl = in_flight exec ?q b pl" for b pl using u(8-10) by (simp add: in_flight_def)
    have run: "b \<in> fst ` set ?fs" if "\<not> q_done ?q" "b \<in> set (q_order ?q)" "state_of ?q b = prefixRunning" for b
    proof -
      have "state_of ?q a = prefixDropped" using True that(1) by blast
      with that(3) have "b \<noteq> a" by auto
      with j_ok(8) that show ?thesis by blast
    qed
    have "jobs_ok exec \<lparr>ex_queue = ?q', ex_jobs = xs @ Idle # ys\<rparr>"
      unfolding jobs_ok_def Let_def explorer.simps flights_split flight_of_def job.case append_Nil fl u(6-10)
    proof (intro conjI impI)
      show "distinct (map fst ?fs)" by (rule dist)
      show "q_running ?q' = length ?fs" using u(2) j_ok(2) by simp
      show "\<forall>f \<in> set ?fs. fst f < length (q_heap ?q)" by (rule j_ok(4))
      show "q_done ?q" if "Gone \<in> set (xs @ Idle # ys)" using that j_ok(5) by auto
    qed (use j_ok(7) run in auto)
    with u show ?thesis by simp
  next
    case False
    then have fl: "in_flight exec ?q a plan" using j_ok(6) by auto
    have prog: "in_progress exec ?q" using not_done_in_progress [OF phase] False by blast
    note w = finish_in_flight [OF prog fl]
    have len: "length (q_heap ?q) \<le> length (q_heap ?q')" using w(2) by (simp add: others_kept_def)
    have kept: "in_flight exec ?q' (fst f) (snd f) \<or> state_of ?q' (fst f) = prefixDropped" if f: "f \<in> set ?fs" for f
      using w(2) other [OF f] j_ok(4,7) f False unfolding others_kept_def by blast
    have run: "b \<in> fst ` set ?fs" if "b \<in> set (q_order ?q')" "state_of ?q' b = prefixRunning" for b
      using w(2) that j_ok(8) False unfolding others_kept_def by blast
    have "jobs_ok exec \<lparr>ex_queue = ?q', ex_jobs = xs @ Idle # ys\<rparr>"
      unfolding jobs_ok_def Let_def explorer.simps flights_split flight_of_def job.case append_Nil
    proof (intro conjI impI ballI)
      show "distinct (map fst ?fs)" by (rule dist)
      show "q_running ?q' = length ?fs" using w(3) j_ok(2) by simp
      show "fst f < length (q_heap ?q')" if "f \<in> set ?fs" for f using that j_ok(4) len by fastforce
      show "q_done ?q'" if "Gone \<in> set (xs @ Idle # ys)" using that j_ok(5) False by auto
    qed (use kept run in auto)
    with w show ?thesis by (auto simp: queue_phase_def)
  qed
  then show "explorer_ok exec \<lparr>ex_queue = ?q', ex_jobs = xs @ Idle # ys\<rparr>" "started_count ?q' = started_count ?q"
    "q_budget ?q' = q_budget ?q" "q_jobs ?q' = q_jobs ?q"
    by (simp_all add: explorer_ok_def)
qed


section \<open>Every interleaving\<close>

lemma newExploreQueue_eq:
  assumes "0 < Runs budget"
  shows "newExploreQueue budget jobs =
    \<lparr>q_budget = budget, q_jobs = nat (max (min jobs (Runs budget)) 1), q_heap = [new_prefix None 0 []], q_order = [0],
     q_frontier = 0, q_running = 0, q_pending = [], q_discarded = 0, q_beyond = False, q_done = False,
     q_result = \<lparr>x_Budget = budget, x_Runs = 0, x_Outcomes = [], x_BudgetsHit = [], x_Unenumerated = [], x_Scope = []\<rparr>,
     q_reached = Map.empty, q_depthHit = False, q_err = None\<rparr>"
  using assms
  by (simp add: newExploreQueue_def insert_prefixes_def cut_order_def reindex_def run_limit_def on_heap_def new_prefix_def Let_def)

lemma start_fields:
  fixes jobs :: int
  assumes "0 < Runs budget"
  defines "q \<equiv> newExploreQueue budget jobs"
  shows "q_budget q = budget" "q_jobs q = nat (max (min jobs (Runs budget)) 1)" "length (q_heap q) = 1" "q_order q = [0]"
    "q_frontier q = 0" "q_running q = 0" "q_pending q = []" "q_discarded q = 0" "\<not> q_beyond q" "\<not> q_done q" "q_err q = None"
    "x_Runs (q_result q) = 0" "tally_of q = empty_tally budget" "at_heap q 0 = new_prefix None 0 []" "run_limit q = nat (Runs budget)"
  unfolding q_def newExploreQueue_eq [OF assms(1)]
  by (simp_all add: tally_of_def empty_tally_def at_heap_def run_limit_def)

lemma flights_idle: "flights (replicate n Idle) = []"
  by (induction n) (simp_all add: flights_def flight_of_def)

lemma start_ok:
  assumes "0 < Runs budget"
  shows "explorer_ok exec (start_explore budget jobs)" "ex_queue (start_explore budget jobs) = newExploreQueue budget jobs"
proof -
  let ?q = "newExploreQueue budget jobs"
  show "ex_queue (start_explore budget jobs) = ?q" by (simp add: start_explore_def Let_def)
  note f = start_fields [OF assms, of jobs]
  have state: "state_of ?q 0 = prefixQueued" "key_of ?q 0 = []" "pf_index (at_heap ?q 0) = 0" "pf_plan (at_heap ?q 0) = []"
    by (simp_all add: f new_prefix_def pf_plan_def)
  have keys: "keys ?q = [[]]" by (simp add: keys_def f(4) state)
  have "order_ok ?q"
    using assms by (simp add: order_ok_def wf_order_def pending_started_def speculative_def keys f(3-8,15) state)
  moreover have "prefix_ok exec ?q 0" by (simp add: prefix_ok_def state)
  moreover have "parents_ok {} ?q" by (simp add: parents_ok_def keys f(4) state)
  moreover have "cut_ok exec {} ?q" by (simp add: cut_ok_def keys f(4,9) state)
  ultimately have "queue_ok exec {} ?q" by (simp add: queue_ok_def f(4))
  moreover have "folded exec ?q" by (simp add: folded_def f(1,5,12,13) along_def)
  moreover have "settled ?q" by (simp add: settled_def f(4,5) state)
  ultimately have "queue_phase exec ?q" by (simp add: queue_phase_def in_progress_def f(10,11))
  moreover have "jobs_ok exec (start_explore budget jobs)"
    by (simp add: jobs_ok_def start_explore_def Let_def f(3,4,6) state flights_idle)
  ultimately show "explorer_ok exec (start_explore budget jobs)"
    by (simp add: explorer_ok_def start_explore_def Let_def)
qed

text \<open>What is left to do: starts that can still be made count twice.\<close>

definition work_left :: "explorer \<Rightarrow> nat" where
  "work_left s =
     2 * (run_limit (ex_queue s) + q_jobs (ex_queue s) - started_count (ex_queue s)) +
     length (flights (ex_jobs s)) + length (filter (\<lambda>x. x \<noteq> Gone) (ex_jobs s))"

lemma job_step_ok:
  assumes step: "job_step exec s s'" and s: "explorer_ok exec s"
  shows "explorer_ok exec s' \<and> q_budget (ex_queue s') = q_budget (ex_queue s) \<and> q_jobs (ex_queue s') = q_jobs (ex_queue s) \<and>
    length (ex_jobs s') = length (ex_jobs s) \<and> work_left s' < work_left s"
  using step
proof cases
  case (job_takes j a q)
  obtain xs ys where j: "ex_jobs s = xs @ Idle # ys" "\<And>y. list_update (ex_jobs s) j y = xs @ y # ys"
    using flights_update [OF job_takes(2)] job_takes(3) by metis
  note s' = job_takes(1) [unfolded j(2)]
  note t = job_takes_ok [OF s j(1) job_takes(4)]
  have lim: "run_limit (on_heap a (\<lambda>p. p\<lparr>pf_record := None\<rparr>) q) = run_limit (ex_queue s)" using t(4) by (simp add: run_limit_def)
  have "started_count (ex_queue s) < run_limit (ex_queue s) + q_jobs (ex_queue s)"
    using started_count_bound [OF t(3)] t(2,5) lim by simp
  with t lim show ?thesis
    by (simp add: s' j(1) work_left_def flights_split flight_of_def)
next
  case (job_returns j q)
  obtain xs ys where j: "ex_jobs s = xs @ Idle # ys" "\<And>y. list_update (ex_jobs s) j y = xs @ y # ys"
    using flights_update [OF job_returns(2)] job_returns(3) by metis
  note s' = job_returns(1) [unfolded j(2)]
  note t = job_returns_ok [OF s j(1) job_returns(4)]
  have "run_limit q = run_limit (ex_queue s)" using t(3) by (simp add: run_limit_def)
  with t show ?thesis by (simp add: s' j(1) work_left_def flights_split flight_of_def)
next
  case (job_finishes j a plan)
  obtain xs ys where j: "ex_jobs s = xs @ Busy a plan # ys" "\<And>y. list_update (ex_jobs s) j y = xs @ y # ys"
    using flights_update [OF job_finishes(2)] job_finishes(3) by metis
  note s' = job_finishes(1) [unfolded j(2)]
  note t = job_finishes_ok [OF s j(1)]
  have "run_limit (finish a (exec plan) (ex_queue s)) = run_limit (ex_queue s)" using t(3) by (simp add: run_limit_def)
  with t show ?thesis by (simp add: s' j(1) work_left_def flights_split flight_of_def)
qed

lemma reachable_ok:
  assumes "0 < Runs budget" "(job_step exec ^^ n) (start_explore budget jobs) s"
  shows "explorer_ok exec s \<and> q_budget (ex_queue s) = budget \<and> q_jobs (ex_queue s) = nat (max (min jobs (Runs budget)) 1) \<and>
    length (ex_jobs s) = nat (max (min jobs (Runs budget)) 1) \<and>
    work_left s + n \<le> work_left (start_explore budget jobs)"
  using assms(2)
proof (induction n arbitrary: s)
  case 0
  then have s: "s = start_explore budget jobs" by simp
  have "ex_queue s = newExploreQueue budget jobs" "length (ex_jobs s) = q_jobs (newExploreQueue budget jobs)"
    by (simp_all add: s start_explore_def Let_def)
  with start_ok(1) [OF assms(1), of exec jobs] start_fields(1,2) [OF assms(1), of jobs] s show ?case by simp
next
  case (Suc n)
  then obtain s1 where s1: "(job_step exec ^^ n) (start_explore budget jobs) s1" "job_step exec s1 s" by auto
  note ih = Suc.IH [OF s1(1)]
  note step = job_step_ok [OF s1(2) conjunct1 [OF ih]]
  have "work_left s + Suc n \<le> work_left s1 + n" using step by simp
  also have "\<dots> \<le> work_left (start_explore budget jobs)" using ih by blast
  finally show ?case using step ih by metis
qed


lemma not_stuck:
  assumes s: "explorer_ok exec s" and open_job: "x \<in> set (ex_jobs s)" "x \<noteq> Gone"
  shows "\<exists>s'. job_step exec s s'"
proof (cases "\<exists>a plan. Busy a plan \<in> set (ex_jobs s)")
  case True
  then obtain a plan j where "j < length (ex_jobs s)" "ex_jobs s ! j = Busy a plan" by (auto simp: in_set_conv_nth)
  then show ?thesis using job_finishes by blast
next
  case False
  let ?q = "ex_queue s"
  have "x = Idle" using False open_job by (cases x) auto
  then obtain j where j: "j < length (ex_jobs s)" "ex_jobs s ! j = Idle" using open_job by (auto simp: in_set_conv_nth)
  have "flight_of y = []" if "y \<in> set (ex_jobs s)" for y 
  proof (cases y)
    case (Busy a plan)
    with that False show ?thesis by blast
  qed (simp_all add: flight_of_def)
  then have none: "flights (ex_jobs s) = []" by (simp add: flights_def)
  have "fst (queue_next None ?q) \<noteq> Next_Wait"
  proof (cases "q_done ?q \<or> q_frontier ?q = length (q_order ?q)")
    case True
    have "q_running ?q = 0" using s none by (simp add: explorer_ok_def jobs_ok_def Let_def)
    with True show ?thesis by (auto simp: queue_next_def)
  next
    case work: False
    then have prog: "in_progress exec ?q" "settled ?q" using s not_done_in_progress by (auto simp: explorer_ok_def)
    then have ok: "queue_ok exec {} ?q" by (simp add: in_progress_def)
    then have front: "q_frontier ?q < length (q_order ?q)" using work by (simp add: queue_ok_def order_ok_def)
    then have a: "q_order ?q ! q_frontier ?q \<in> set (q_order ?q)" by simp
    then have "state_of ?q (q_order ?q ! q_frontier ?q) \<noteq> prefixDropped" using ok by (simp add: queue_ok_def prefix_ok_def)
    moreover have "state_of ?q (q_order ?q ! q_frontier ?q) \<noteq> prefixRunning"
      using s a none work by (auto simp: explorer_ok_def jobs_ok_def Let_def)
    moreover have "state_of ?q (q_order ?q ! q_frontier ?q) \<noteq> prefixDone" using prog(2) front by (simp add: settled_def)
    ultimately have "startable ?q \<noteq> None"
      using startable_None [of ?q] front by (cases "state_of ?q (q_order ?q ! q_frontier ?q)") auto
    then show ?thesis using work by (auto simp: queue_next_def)
  qed
  then obtain y q where "queue_next None ?q = (y, q)" "y \<noteq> Next_Wait" by (metis prod.collapse)
  then show ?thesis using job_takes [OF j] job_returns [OF j] by (cases y) blast+
qed


section \<open>What an exploration answers\<close>

definition all_gone :: "explorer \<Rightarrow> bool" where
  "all_gone s = (\<forall>x \<in> set (ex_jobs s). x = Gone)"

text \<open>The sequential exploration an answer stands for: the prefixes it ran, in plan order, and what came of each.\<close>

definition runs_left :: "(exploreSlot list \<Rightarrow> run_result) \<Rightarrow> nat list list \<Rightarrow> bool" where
  "runs_left exec ks = (\<exists>k plan. planned exec k plan \<and> k \<notin> set ks)"

definition sequential :: "(exploreSlot list \<Rightarrow> run_result) \<Rightarrow> ExploreBudget \<Rightarrow> nat list list \<Rightarrow> run_result list \<Rightarrow> string + Exploration \<Rightarrow> bool" where
  "sequential exec budget ks rs answer =
     (segment exec ks \<and> length ks \<le> nat (Runs budget) \<and> along exec ks rs \<and>
      (case commits rs (empty_tally budget) of
         Inl e \<Rightarrow> answer = Inl e
       | Inr (x, reached, hit) \<Rightarrow>
           (runs_left exec ks \<longrightarrow> length ks = nat (Runs budget)) \<and>
           answer = Inr (x\<lparr>x_BudgetsHit := x_BudgetsHit x @ (if runs_left exec ks then [''runs''] else []) @ (if hit then [''depth''] else []),
             x_Outcomes := sortOutcomes (x_Outcomes x)\<rparr>)))"

lemma finished_sequential:
  assumes "finished exec q"
  obtains rs where "sequential exec (q_budget q) (keys q) rs (explore_answer q)" "commits rs (empty_tally (q_budget q)) = Inr (tally_of q)"
proof -
  have ok: "queue_ok exec {} q" and all: "q_frontier q = length (q_order q)" and fol: "folded exec q" and err: "q_err q = None"
    using assms by (simp_all add: finished_def)
  note done' = all_done_complete [OF ok all]
  obtain rs where rs: "along exec (keys q) rs" "commits rs (empty_tally (q_budget q)) = Inr (tally_of q)"
    using fol all by (auto simp: folded_def keys_def)
  have "length (keys q) \<le> nat (Runs (q_budget q))"
    using ok by (simp add: queue_ok_def order_ok_def wf_order_def keys_def run_limit_def)
  moreover have "q_beyond q \<longleftrightarrow> runs_left exec (keys q)"
    using done'(2) by (cases "q_beyond q") (auto simp: runs_left_def)
  moreover have "q_beyond q \<longrightarrow> length (keys q) = nat (Runs (q_budget q))"
    using done'(2) by (simp add: run_limit_def)
  ultimately have "sequential exec (q_budget q) (keys q) rs (explore_answer q)"
    using done'(1) rs err by (auto simp: sequential_def explore_answer_def tally_of_def Let_def)
  with rs(2) that show ?thesis by blast
qed

lemma failed_sequential:
  assumes "failed exec q"
  obtains ks rs e where "sequential exec (q_budget q) ks rs (explore_answer q)" "commits rs (empty_tally (q_budget q)) = Inl e"
  using assms that by (fastforce simp: failed_def sequential_def explore_answer_def run_limit_def)

lemma all_gone_sequential:
  assumes "0 < Runs budget" "(job_step exec ^^ n) (start_explore budget jobs) s" "all_gone s"
  obtains ks rs where "sequential exec budget ks rs (explore_answer (ex_queue s))"
    "(\<exists>x. explore_answer (ex_queue s) = Inr x) \<longrightarrow> finished exec (ex_queue s) \<and> ks = keys (ex_queue s)"
proof -
  note r = reachable_ok [OF assms(1,2)]
  have "ex_jobs s \<noteq> []" using r by auto
  then have "Gone \<in> set (ex_jobs s)" using assms(3) by (cases "ex_jobs s") (auto simp: all_gone_def)
  then have done': "q_done (ex_queue s)" using r by (simp add: explorer_ok_def jobs_ok_def Let_def)
  have phase: "failed exec (ex_queue s) \<or> finished exec (ex_queue s)"
    using r done' by (auto simp: explorer_ok_def queue_phase_def in_progress_def)
  show ?thesis
  proof (cases "finished exec (ex_queue s)")
    case True
    with finished_sequential [OF True] that r show ?thesis by metis
  next
    case False
    then have "failed exec (ex_queue s)" using phase by blast
    then obtain e where "explore_answer (ex_queue s) = Inl e" by (auto simp: failed_def explore_answer_def)
    moreover obtain ks rs e' where "sequential exec budget ks rs (explore_answer (ex_queue s))"
      using failed_sequential [OF \<open>failed exec (ex_queue s)\<close>] r by metis
    ultimately show ?thesis using that by auto
  qed
qed

text \<open>Two such explorations of one behavior under one budget answer alike.\<close>

lemma commits_prefix_error:
  assumes "commits rs t = Inl e" "along exec ks rs" "along exec ls ss" "ks = take (length ks) ls"
  shows "commits ss t = Inl e"
proof -
  have "along exec ks (take (length ks) ss)" using along_take [OF assms(3), of "length ks"] assms(4) by simp
  then have "rs = take (length ks) ss" using assms(2) along_unique by blast
  then have "ss = rs @ drop (length ks) ss" by simp
  with assms(1) show ?thesis using commits_append [of rs "drop (length ks) ss" t] by simp
qed

lemma sequential_shorter_done:
  assumes a: "sequential exec budget ks rs x" and b: "sequential exec budget ls ss y" and len: "length ks \<le> length ls"
    and ok: "commits rs (empty_tally budget) = Inr t"
  shows "ks = ls"
proof -
  obtain hit reached r where t: "t = (r, reached, hit)" by (metis prod_cases3)
  have seg: "segment exec ks" "segment exec ls" "length ls \<le> nat (Runs budget)" using a b by (simp_all add: sequential_def)
  have ks: "ks = take (length ks) ls" by (rule segments_agree [OF seg(1,2) len])
  have end': "runs_left exec ks \<longrightarrow> length ks = nat (Runs budget)"
    using a ok t by (simp add: sequential_def)
  show ?thesis
  proof (rule ccontr)
    assume "ks \<noteq> ls"
    then have less: "length ks < length ls" using ks len by (metis le_neq_implies_less take_all_iff order_refl)
    then have "ls ! length ks \<in> set ls" by simp
    then have "\<exists>plan. planned exec (ls ! length ks) plan" using seg(2) by (simp add: segment_def)
    moreover have "ls ! length ks \<notin> set ks"
    proof
      assume "ls ! length ks \<in> set ks"
      then obtain i where "i < length ks" "ks ! i = ls ! length ks" by (auto simp: in_set_conv_nth)
      moreover have "ks ! i = ls ! i" using calculation(1) ks by (metis nth_take)
      moreover have "distinct ls" using seg(2) sorted_distinct_keys by (simp add: segment_def)
      ultimately show False using less by (simp add: nth_eq_iff_index_eq)
    qed
    ultimately have "length ks = nat (Runs budget)" using end' unfolding runs_left_def by blast
    with less seg(3) show False by simp
  qed
qed

lemma sequential_unique:
  assumes a: "sequential exec budget ks rs x" and b: "sequential exec budget ls ss y" and len: "length ks \<le> length ls"
  shows "x = y"
proof (cases "commits rs (empty_tally budget)")
  case (Inl e)
  have "ks = take (length ks) ls" using a b len by (intro segments_agree [of exec]) (simp_all add: sequential_def)
  then have "commits ss (empty_tally budget) = Inl e"
    using Inl a b by (intro commits_prefix_error [of rs _ e exec ks ls ss]) (simp_all add: sequential_def)
  with Inl a b show ?thesis by (simp add: sequential_def)
next
  case (Inr t)
  from sequential_shorter_done [OF a b len Inr] have eq: "ks = ls" .
  have "along exec ks rs" "along exec ks ss" using a b eq by (simp_all add: sequential_def)
  then have "rs = ss" by (rule along_unique)
  with eq Inr a b show ?thesis by (cases t) (simp add: sequential_def)
qed


text \<open>The invariant bounds, whatever the phase.\<close>

lemma explorer_order_ok: "explorer_ok exec s \<Longrightarrow> order_ok (ex_queue s)"
  by (auto simp: explorer_ok_def queue_phase_def in_progress_def finished_def failed_def queue_ok_def)

lemma steps_extend:
  assumes "0 < Runs budget" "(job_step exec ^^ n) (start_explore budget jobs) s"
  shows "\<exists>m s'. (job_step exec ^^ m) (start_explore budget jobs) s' \<and> all_gone s'"
  using assms(2)
proof (induction "work_left s" arbitrary: n s rule: less_induct)
  case less
  note r = reachable_ok [OF assms(1) less.prems]
  show ?case
  proof (cases "all_gone s")
    case False
    then obtain x where "x \<in> set (ex_jobs s)" "x \<noteq> Gone" by (auto simp: all_gone_def)
    with not_stuck r obtain s' where s': "job_step exec s s'" by blast
    with job_step_ok [OF s'] r have "work_left s' < work_left s" by blast
    moreover have "(job_step exec ^^ Suc n) (start_explore budget jobs) s'" using less.prems s' by auto
    ultimately show ?thesis using less.hyps by blast
  qed (use less.prems in blast)
qed

text \<open>Interleavings by the numbers of the jobs whose turn it is, for running them.\<close>

definition turn :: "(exploreSlot list \<Rightarrow> run_result) \<Rightarrow> nat \<Rightarrow> explorer \<Rightarrow> explorer option" where
  "turn exec j s =
     (if j < length (ex_jobs s) then
        (case ex_jobs s ! j of
           Idle \<Rightarrow>
             (case queue_next None (ex_queue s) of
                (Next_Prefix a, q) \<Rightarrow>
                  Some \<lparr>ex_queue = on_heap a (\<lambda>p. p\<lparr>pf_record := None\<rparr>) q,
                        ex_jobs = list_update (ex_jobs s) j (Busy a (pf_plan (at_heap q a)))\<rparr>
              | (Next_Over, q) \<Rightarrow> Some \<lparr>ex_queue = q, ex_jobs = list_update (ex_jobs s) j Gone\<rparr>
              | (Next_Wait, q) \<Rightarrow> None)
         | Busy a plan \<Rightarrow>
             Some \<lparr>ex_queue = finish a (exec plan) (ex_queue s), ex_jobs = list_update (ex_jobs s) j Idle\<rparr>
         | Gone \<Rightarrow> None)
      else None)"

fun turns :: "(exploreSlot list \<Rightarrow> run_result) \<Rightarrow> nat list \<Rightarrow> explorer \<Rightarrow> explorer option" where
  "turns exec [] s = Some s"
| "turns exec (j # js) s = (case turn exec j s of None \<Rightarrow> None | Some s' \<Rightarrow> turns exec js s')"

lemma turn_step: "turn exec j s = Some s' \<Longrightarrow> job_step exec s s'"
  by (auto simp: turn_def intro: job_step.intros split: if_splits job.splits prod.splits next_answer.splits)

lemma turns_steps: "turns exec js s = Some s' \<Longrightarrow> (job_step exec ^^ length js) s s'"
proof (induction js arbitrary: s)
  case (Cons j js)
  then obtain s1 where "turn exec j s = Some s1" "turns exec js s1 = Some s'" by (auto split: option.splits)
  with relpowp_Suc_I2 [OF turn_step Cons.IH] show ?case by simp
qed simp

text \<open>A behavior with one choice between two alternatives, each its own outcome.\<close>

definition two_ways :: "exploreSlot list \<Rightarrow> run_result" where
  "two_ways plan =
     (case pick 2 (new_run plan 4) of
        None \<Rightarrow> Setup_Failed ''no run''
      | Some (t, r) \<Rightarrow> Ran r (zero_Outcome\<lparr>oc_String := nat_text t, oc_identity := nat_text t\<rparr>) [])"

definition small_budget :: ExploreBudget where
  "small_budget = \<lparr>Runs = 4, Depth = 4\<rparr>"

lemma one_job_turns:
  "\<exists>s. turns two_ways [0, 0, 0, 0, 0] (start_explore small_budget 1) = Some s \<and> all_gone s \<and>
     map_sum id x_Runs (explore_answer (ex_queue s)) = Inr 2"
proof -
  have "map_option (\<lambda>s. (ex_jobs s, map_sum id x_Runs (explore_answer (ex_queue s))))
      (turns two_ways [0, 0, 0, 0, 0] (start_explore small_budget 1)) = Some ([Gone], Inr 2)"
    by code_simp
  then show ?thesis by (auto simp: all_gone_def)
qed

lemma two_jobs_turns:
  "\<exists>s. turns two_ways [1, 1, 0, 0, 1, 0] (start_explore small_budget 2) = Some s \<and> all_gone s"
proof -
  have "map_option ex_jobs (turns two_ways [1, 1, 0, 0, 1, 0] (start_explore small_budget 2)) = Some [Gone, Gone]"
    by code_simp
  then show ?thesis by (auto simp: all_gone_def)
qed

lemma small_budget_pos: "0 < Runs small_budget"
  by (simp add: small_budget_def)

section \<open>What the queue promises\<close>

text \<open>
  C2: exploring is exploring sequentially: whatever the jobs interleaved, once all have returned the
  answer is that of committing, one after the other and in plan order, what came of an initial
  segment of the tree of prefixes, no longer than the runs budget. The \<open>runs\<close> budget is reported
  hit exactly when prefixes are left over, and then it was used up.
\<close>

theorem exploration_is_sequential:
  assumes "0 < Runs budget" and "(job_step exec ^^ n) (start_explore budget jobs) s" and "all_gone s"
  shows "\<exists>ks rs. segment exec ks \<and> length ks \<le> nat (Runs budget) \<and> along exec ks rs \<and>
    (case commits rs (empty_tally budget) of
       Inl e \<Rightarrow> explore_answer (ex_queue s) = Inl e
     | Inr (x, reached, hit) \<Rightarrow>
         (runs_left exec ks \<longrightarrow> length ks = nat (Runs budget)) \<and>
         explore_answer (ex_queue s) =
           Inr (x\<lparr>x_BudgetsHit := x_BudgetsHit x @ (if runs_left exec ks then [''runs''] else []) @ (if hit then [''depth''] else []),
             x_Outcomes := sortOutcomes (x_Outcomes x)\<rparr>))"
proof -
  obtain ks rs where "sequential exec budget ks rs (explore_answer (ex_queue s))"
    using all_gone_sequential [OF assms] by blast
  then show ?thesis by (intro exI [of _ ks] exI [of _ rs]) (simp add: sequential_def)
qed

text \<open>
  C1: the result does not depend on the number of jobs or on how they interleave: there is one
  answer that every complete exploration of a behavior under a budget gives, and with any number
  of jobs there is such an exploration.
\<close>

theorem exploration_independent_of_jobs:
  assumes "0 < Runs budget"
  shows "\<exists>answer. \<forall>jobs.
    (\<exists>n s. (job_step exec ^^ n) (start_explore budget jobs) s \<and> all_gone s) \<and>
    (\<forall>n s. (job_step exec ^^ n) (start_explore budget jobs) s \<and> all_gone s \<longrightarrow> explore_answer (ex_queue s) = answer)"
proof -
  have ends: "\<exists>n s. (job_step exec ^^ n) (start_explore budget jobs) s \<and> all_gone s" for jobs
    using steps_extend [OF assms, of 0 exec jobs "start_explore budget jobs"] by simp
  then obtain n0 s0 where s0: "(job_step exec ^^ n0) (start_explore budget 1) s0" "all_gone s0" by blast
  have "explore_answer (ex_queue s) = explore_answer (ex_queue s0)"
    if s: "(job_step exec ^^ n) (start_explore budget jobs) s" "all_gone s" for n jobs s
  proof -
    obtain ks rs where a: "sequential exec budget ks rs (explore_answer (ex_queue s))"
      using all_gone_sequential [OF assms s] by blast
    obtain ls ss where b: "sequential exec budget ls ss (explore_answer (ex_queue s0))"
      using all_gone_sequential [OF assms s0] by blast
    show ?thesis
    proof (cases "length ks \<le> length ls")
      case True
      then show ?thesis by (rule sequential_unique [OF a b])
    next
      case False
      then have "length ls \<le> length ks" by simp
      from sequential_unique [OF b a this] show ?thesis by simp
    qed
  qed
  with ends show ?thesis by blast
qed


text \<open>
  C6: what an exploration holds and throws away is bounded: at any time the order has at most as
  many prefixes as the runs budget, strictly ascending in plan order, so that none is there twice;
  at most as many runs as there are jobs have been discarded; and at most the budget's runs and the
  discarded ones have been started.
\<close>

theorem exploration_bounds:
  assumes "0 < Runs budget" and "(job_step exec ^^ n) (start_explore budget jobs) s"
  shows "length (q_order (ex_queue s)) \<le> nat (Runs budget) \<and>
    sorted_wrt key_before (map (\<lambda>a. pf_key (at_heap (ex_queue s) a)) (q_order (ex_queue s))) \<and>
    q_discarded (ex_queue s) + speculative (ex_queue s) \<le> nat (max (min jobs (Runs budget)) 1) \<and>
    q_frontier (ex_queue s) + length (q_pending (ex_queue s)) + q_discarded (ex_queue s) \<le>
      nat (Runs budget) + nat (max (min jobs (Runs budget)) 1)"
proof -
  note r = reachable_ok [OF assms]
  then have ord: "order_ok (ex_queue s)" using explorer_order_ok by blast
  have lim: "run_limit (ex_queue s) = nat (Runs budget)" using r by (simp add: run_limit_def)
  show ?thesis
    using ord started_count_bound [OF ord] r lim by (simp add: order_ok_def wf_order_def keys_def started_count_def)
qed

theorem exploration_is_sequential_witness:
  "\<exists>s ks rs x. turns two_ways [0, 0, 0, 0, 0] (start_explore small_budget 1) = Some s \<and> length ks \<le> 4 \<and> along two_ways ks rs \<and>
     commits rs (empty_tally small_budget) = Inr x"
proof -
  obtain s where s: "turns two_ways [0, 0, 0, 0, 0] (start_explore small_budget 1) = Some s" "all_gone s"
    "map_sum id x_Runs (explore_answer (ex_queue s)) = Inr 2" using one_job_turns by blast
  from exploration_is_sequential [OF small_budget_pos turns_steps [OF s(1)] s(2)] obtain ks rs where
    k: "length ks \<le> nat (Runs small_budget)" "along two_ways ks rs"
    "case commits rs (empty_tally small_budget) of Inl e \<Rightarrow> explore_answer (ex_queue s) = Inl e
     | Inr (x, reached, hit) \<Rightarrow> explore_answer (ex_queue s) =
           Inr (x\<lparr>x_BudgetsHit := x_BudgetsHit x @ (if runs_left two_ways ks then [''runs''] else []) @ (if hit then [''depth''] else []),
             x_Outcomes := sortOutcomes (x_Outcomes x)\<rparr>)" by (fastforce split: sum.splits)
  obtain x where "commits rs (empty_tally small_budget) = Inr x"
    using k(3) s(3) by (cases "commits rs (empty_tally small_budget)") auto
  moreover have "length ks \<le> 4" using k(1) by (simp add: small_budget_def)
  ultimately show ?thesis using s(1) k(2) by blast
qed

theorem exploration_independent_of_jobs_witness:
  "\<exists>s s'. turns two_ways [0, 0, 0, 0, 0] (start_explore small_budget 1) = Some s \<and>
     turns two_ways [1, 1, 0, 0, 1, 0] (start_explore small_budget 2) = Some s' \<and>
     explore_answer (ex_queue s) = explore_answer (ex_queue s')"
proof -
  obtain s where s: "turns two_ways [0, 0, 0, 0, 0] (start_explore small_budget 1) = Some s" "all_gone s"
    using one_job_turns by blast
  obtain s' where s': "turns two_ways [1, 1, 0, 0, 1, 0] (start_explore small_budget 2) = Some s'" "all_gone s'"
    using two_jobs_turns by blast
  from exploration_independent_of_jobs [OF small_budget_pos, of two_ways] obtain answer where
    "\<And>jobs n s. (job_step two_ways ^^ n) (start_explore small_budget jobs) s \<Longrightarrow> all_gone s \<Longrightarrow> explore_answer (ex_queue s) = answer"
    by blast
  from this [OF turns_steps [OF s(1)] s(2)] this [OF turns_steps [OF s'(1)] s'(2)] s(1) s'(1) show ?thesis by simp
qed


theorem exploration_bounds_witness:
  "\<exists>s. turns two_ways [0, 0, 0, 0, 0] (start_explore small_budget 1) = Some s \<and> length (q_order (ex_queue s)) \<le> 4 \<and>
     q_discarded (ex_queue s) + speculative (ex_queue s) \<le> 1"
proof -
  obtain s where s: "turns two_ways [0, 0, 0, 0, 0] (start_explore small_budget 1) = Some s" using one_job_turns by blast
  from exploration_bounds [OF small_budget_pos turns_steps [OF s]] s show ?thesis by (simp add: small_budget_def)
qed

end
