(* ===== verification/Explore_Outcomes.thy ===== *)
theory Explore_Outcomes
  imports Explore_Complete "HOL-Library.Multiset"
begin

text \<open>
  What the outcomes of an exploration say: each is the outcome of the first run that reached it, in
  the order the runs reached them before they are sorted, with the choices that run took and how
  many linearizations reached it; and a complete exploration ran every prefix of the tree.
\<close>

section \<open>What committing collects\<close>

definition result_identity :: "run_result \<Rightarrow> string" where
  "result_identity result = (case result of Ran r out gaps \<Rightarrow> oc_identity out | Setup_Failed e \<Rightarrow> '''')"

definition result_repeats :: "run_result \<Rightarrow> bool" where
  "result_repeats result = (case result of Ran r out gaps \<Rightarrow> er_duplicate r | Setup_Failed e \<Rightarrow> True)"

definition clean_result :: "run_result \<Rightarrow> bool" where
  "clean_result result = (case result of Ran r out gaps \<Rightarrow> followed r = None | Setup_Failed e \<Rightarrow> False)"

definition unbounded_result :: "run_result \<Rightarrow> bool" where
  "unbounded_result result =
     (case result of Ran r out gaps \<Rightarrow> \<not> er_depthHit r \<and> gaps = [] \<and> \<not> oc_sweepLimit out | Setup_Failed e \<Rightarrow> False)"

text \<open>The outcome \<open>o'\<close> as a list of runs reached it.\<close>

definition explored_by :: "run_result list \<Rightarrow> ExploredOutcome \<Rightarrow> bool" where
  "explored_by rs o' =
     (let n = eo_WitnessRun o'; i = oc_identity (eo_Outcome o')
      in 1 \<le> n \<and> n \<le> length rs \<and> i \<notin> set (map result_identity (take (n - 1) rs)) \<and>
         (\<exists>r gaps. rs ! (n - 1) = Ran r (eo_Outcome o') gaps \<and> eo_Witness o' = choices r) \<and>
         eo_Linearizations o' = 1 + length (filter (\<lambda>result. result_identity result = i \<and> \<not> result_repeats result) (drop n rs)))"

abbreviation identities :: "Exploration \<Rightarrow> string list" where
  "identities x \<equiv> map (\<lambda>o'. oc_identity (eo_Outcome o')) (x_Outcomes x)"

definition tally_ok :: "run_result list \<Rightarrow> tally \<Rightarrow> bool" where
  "tally_ok rs t =
     (case t of (x, reached, hit) \<Rightarrow>
        list_all clean_result rs \<and> x_Runs x = length rs \<and> distinct (identities x) \<and>
        set (identities x) = set (map result_identity rs) \<and> list_all (explored_by rs) (x_Outcomes x) \<and>
        (\<forall>i k. reached i = Some k \<longleftrightarrow> k < length (x_Outcomes x) \<and> oc_identity (eo_Outcome (x_Outcomes x ! k)) = i) \<and>
        (x_BudgetsHit x = [] \<and> x_Unenumerated x = [] \<and> \<not> hit \<longrightarrow> list_all unbounded_result rs))"

lemma explored_by_other:
  "explored_by rs o' \<Longrightarrow> result_identity result \<noteq> oc_identity (eo_Outcome o') \<Longrightarrow> explored_by (rs @ [result]) o'"
  by (auto simp: explored_by_def Let_def nth_append)

lemma explored_by_again:
  assumes "explored_by rs o'" "result_identity result = oc_identity (eo_Outcome o')"
  shows "explored_by (rs @ [result])
    (if result_repeats result then o' else o'\<lparr>eo_Linearizations := eo_Linearizations o' + 1\<rparr>)"
  using assms by (auto simp: explored_by_def Let_def nth_append)

lemma explored_by_new:
  "oc_identity out \<notin> set (map result_identity rs) \<Longrightarrow>
   explored_by (rs @ [Ran r out gaps])
     \<lparr>eo_Outcome = out, eo_Linearizations = 1, eo_Witness = choices r, eo_WitnessRun = length rs + 1\<rparr>"
  by (simp add: explored_by_def)

lemma set_append_new: "set (append_new xs ys) = set xs \<union> set ys"
  unfolding append_new_def by (induction ys arbitrary: xs) auto

lemma mergeGaps_Nil: "mergeGaps xs ys = [] \<longleftrightarrow> xs = [] \<and> ys = []"
proof -
  have "set (mergeGaps xs ys) = set xs \<union> set ys" by (simp add: mergeGaps_def set_append_new)
  then show ?thesis by (metis Un_empty set_empty)
qed

lemma tally_ok_commit:
  assumes ok: "tally_ok rs t" and c: "commit result t = Inr t'"
  shows "tally_ok (rs @ [result]) t'"
proof -
  obtain x reached hit where t: "t = (x, reached, hit)" by (metis prod_cases3)
  obtain r out gaps where res: "result = Ran r out gaps" "followed r = None"
    using c t by (auto simp: commit_def split: run_result.splits option.splits)
  have i: "result_identity result = oc_identity out" "result_repeats result = er_duplicate r" "clean_result result"
    "unbounded_result result \<longleftrightarrow> \<not> er_depthHit r \<and> gaps = [] \<and> \<not> oc_sweepLimit out"
    by (simp_all add: res result_identity_def result_repeats_def clean_result_def unbounded_result_def)
  define hits where "hits = x_BudgetsHit x @
    (if oc_sweepLimit out \<and> boundStatementOrders \<notin> set (x_BudgetsHit x) then [boundStatementOrders] else [])"
  define x1 where "x1 = x\<lparr>x_Runs := x_Runs x + 1, x_Unenumerated := mergeGaps (x_Unenumerated x) gaps,
    x_BudgetsHit := hits, x_Scope := scopeWith (x_Scope x) (oc_Scope out)\<rparr>"
  have old: "list_all clean_result rs" "x_Runs x = length rs" "distinct (identities x)" "set (identities x) = set (map result_identity rs)"
    "list_all (explored_by rs) (x_Outcomes x)"
    "\<And>i k. reached i = Some k \<longleftrightarrow> k < length (x_Outcomes x) \<and> oc_identity (eo_Outcome (x_Outcomes x ! k)) = i"
    "x_BudgetsHit x = [] \<and> x_Unenumerated x = [] \<and> \<not> hit \<Longrightarrow> list_all unbounded_result rs"
    using ok by (simp_all add: tally_ok_def t)
  have x1: "x_Runs x1 = length rs + 1" "x_Outcomes x1 = x_Outcomes x"
    "x_BudgetsHit x1 = [] \<and> x_Unenumerated x1 = [] \<and> \<not> (hit \<or> er_depthHit r) \<Longrightarrow> list_all unbounded_result (rs @ [result])"
    using old(2,7) by (auto simp: x1_def hits_def mergeGaps_Nil i split: if_splits)
  show ?thesis
  proof (cases "reached (oc_identity out)")
    case None
    have new: "oc_identity out \<notin> set (identities x)"
    proof
      assume "oc_identity out \<in> set (identities x)"
      then obtain m where "m < length (x_Outcomes x)" "oc_identity (eo_Outcome (x_Outcomes x ! m)) = oc_identity out"
        by (auto simp: in_set_conv_nth)
      with old(6) [of "oc_identity out" m] None show False by simp
    qed
    have all: "list_all (explored_by (rs @ [result])) (x_Outcomes x)"
      using old(5) new explored_by_other [of rs _ result] i(1) by (auto simp: list_all_iff)
    have t': "t' = (x1\<lparr>x_Outcomes := x_Outcomes x @
        [\<lparr>eo_Outcome = out, eo_Linearizations = 1, eo_Witness = choices r, eo_WitnessRun = length rs + 1\<rparr>]\<rparr>,
        reached(oc_identity out \<mapsto> length (x_Outcomes x)), hit \<or> er_depthHit r)"
      using c old(2) by (simp add: commit_def t res None x1_def hits_def Let_def)
    let ?new = "\<lparr>eo_Outcome = out, eo_Linearizations = 1, eo_Witness = choices r, eo_WitnessRun = length rs + 1\<rparr>"
    have reach: "(reached(oc_identity out \<mapsto> length (x_Outcomes x))) i = Some m \<longleftrightarrow>
        m < length (x_Outcomes x @ [?new]) \<and> oc_identity (eo_Outcome ((x_Outcomes x @ [?new]) ! m)) = i" for i m
    proof (cases "i = oc_identity out")
      case True
      have "oc_identity (eo_Outcome (x_Outcomes x ! m)) \<noteq> oc_identity out" if "m < length (x_Outcomes x)"
        using old(6) [of "oc_identity out" m] None that by simp
      with True show ?thesis by (auto simp: nth_append less_Suc_eq)
    next
      case False
      with old(6) [of i m] show ?thesis by (auto simp: nth_append)
    qed
    have "explored_by (rs @ [result]) ?new"
      using explored_by_new [of out rs r gaps] new old(4) res(1) by simp
    with all have all: "list_all (explored_by (rs @ [result])) (x_Outcomes x @ [?new])" by simp
    show ?thesis
      unfolding tally_ok_def t' prod.case
    proof (intro conjI)
      show "list_all clean_result (rs @ [result])" using old(1) i(3) by simp
    qed (use old(3,4) new x1 all reach i(1) in simp_all)
  next
    case (Some k)
    have k: "k < length (x_Outcomes x)" "oc_identity (eo_Outcome (x_Outcomes x ! k)) = oc_identity out"
      using old(6) Some by blast+
    define o1 where "o1 = (if er_duplicate r then x_Outcomes x ! k
      else (x_Outcomes x ! k)\<lparr>eo_Linearizations := eo_Linearizations (x_Outcomes x ! k) + 1\<rparr>)"
    have same: "eo_Outcome o1 = eo_Outcome (x_Outcomes x ! k)" by (simp add: o1_def)
    have t': "t' = (x1\<lparr>x_Outcomes := list_update (x_Outcomes x) k o1\<rparr>, reached, hit \<or> er_depthHit r)"
      using c by (auto simp: commit_def t res Some x1_def hits_def o1_def Let_def)
    have ids: "map (\<lambda>o'. oc_identity (eo_Outcome o')) (list_update (x_Outcomes x) k o1) = identities x"
      using k by (simp add: map_update same list_update_same_conv)
    have "explored_by (rs @ [result]) (list_update (x_Outcomes x) k o1 ! m)" if m: "m < length (x_Outcomes x)" for m
    proof (cases "m = k")
      case True
      have "explored_by rs (x_Outcomes x ! k)" using old(5) k by (simp add: list_all_length)
      from explored_by_again [OF this, of result] k i True show ?thesis by (simp add: o1_def split: if_splits)
    next
      case False
      have "oc_identity (eo_Outcome (x_Outcomes x ! m)) \<noteq> oc_identity out"
        using False old(3) k m nth_eq_iff_index_eq [of "identities x" m k] by simp
      then show ?thesis
        using False old(5) m explored_by_other [of rs "x_Outcomes x ! m" result] i(1) by (simp add: list_all_length)
    qed
    then have expl: "list_all (explored_by (rs @ [result])) (list_update (x_Outcomes x) k o1)" by (simp add: list_all_length)
    have mem: "oc_identity out \<in> set (map result_identity rs)"
      using k old(4) by (metis (no_types, lifting) length_map nth_map nth_mem)
    have reach: "reached i = Some m \<longleftrightarrow> m < length (list_update (x_Outcomes x) k o1) \<and>
        oc_identity (eo_Outcome (list_update (x_Outcomes x) k o1 ! m)) = i" for i m
      using old(6) [of i m] same by (cases "m = k") auto
    show ?thesis
      unfolding tally_ok_def t' prod.case
      using old(1,3,4) ids expl mem x1 i(1,3) reach by auto
  qed
qed

lemma tally_ok_commits: "commits rs (empty_tally budget) = Inr t \<Longrightarrow> tally_ok rs t"
proof (induction rs arbitrary: t rule: rev_induct)
  case Nil
  then show ?case by (auto simp: tally_ok_def empty_tally_def)
next
  case (snoc result rs)
  then obtain t1 where "commits rs (empty_tally budget) = Inr t1" "commit result t1 = Inr t"
    by (auto simp: commits_append split: sum.splits)
  with snoc.IH tally_ok_commit show ?case by blast
qed


section \<open>Complete explorations\<close>

lemma sortOutcomes_same:
  "set (sortOutcomes os) = set os" "distinct (map f (sortOutcomes os)) = distinct (map f os)" "length (sortOutcomes os) = length os"
proof -
  have "mset (sortOutcomes os) = mset os" unfolding sortOutcomes_def by (rule mset_sort)
  then show "distinct (map f (sortOutcomes os)) = distinct (map f os)"
    by (metis mset_eq_imp_distinct_iff mset_map)
qed (simp_all add: sortOutcomes_def)

text \<open>
  C3: an exploration that answers a complete result ran every prefix of the tree exactly once: its runs
  are those prefixes in plan order, each followed its plan and met no budget or gap, and every
  outcome listed, no two of one identity, is the outcome of the first run that reached it, with that
  run's number and choices and the number of linearizations that reached it.
\<close>

theorem complete_exploration:
  assumes "0 < Runs budget" and "(job_step exec ^^ n) (start_explore budget jobs) s" and "all_gone s"
    and "explore_answer (ex_queue s) = Inr x" and "Complete x"
  shows "\<exists>ks rs. set ks = {k. \<exists>plan. planned exec k plan} \<and> sorted_wrt key_before ks \<and> along exec ks rs \<and>
    x_Runs x = length ks \<and> list_all clean_result rs \<and> list_all unbounded_result rs \<and>
    list_all (explored_by rs) (x_Outcomes x) \<and> distinct (identities x) \<and> set (identities x) = set (map result_identity rs)"
proof -
  obtain ks rs where "sequential exec budget ks rs (explore_answer (ex_queue s))"
    using all_gone_sequential [OF assms(1-3)] by blast
  then have seq: "segment exec ks" "along exec ks rs" "case commits rs (empty_tally budget) of
      Inl e \<Rightarrow> Inr x = Inl e
    | Inr (y, reached, hit) \<Rightarrow> Inr x = Inr (y\<lparr>x_BudgetsHit := x_BudgetsHit y @ (if runs_left exec ks then [''runs''] else []) @
        (if hit then [''depth''] else []), x_Outcomes := sortOutcomes (x_Outcomes y)\<rparr>)"
    by (auto simp: sequential_def assms(4) split: sum.splits)
  then obtain y reached hit where y: "commits rs (empty_tally budget) = Inr (y, reached, hit)"
    "x = y\<lparr>x_BudgetsHit := x_BudgetsHit y @ (if runs_left exec ks then [''runs''] else []) @ (if hit then [''depth''] else []),
      x_Outcomes := sortOutcomes (x_Outcomes y)\<rparr>" by (auto split: sum.splits prod.splits)
  from tally_ok_commits [OF y(1)] have ok: "tally_ok rs (y, reached, hit)" .
  have none: "\<not> runs_left exec ks" "\<not> hit" "x_BudgetsHit y = []" "x_Unenumerated y = []"
    using assms(5) y(2) by (auto simp: Complete_def split: if_splits)
  have "set ks = {k. \<exists>plan. planned exec k plan}"
    using none(1) seq(1) by (auto simp: runs_left_def segment_def)
  moreover have "sorted_wrt key_before ks" using seq(1) by (simp add: segment_def)
  moreover have "length ks = length rs" using seq(2) by (simp add: along_def list_all2_lengthD)
  ultimately show ?thesis
    using seq(2) ok none y(2) sortOutcomes_same(1) [of "x_Outcomes y"]
      sortOutcomes_same(2) [of "\<lambda>o'. oc_identity (eo_Outcome o')" "x_Outcomes y"]
    by (intro exI [of _ ks] exI [of _ rs]) (simp add: tally_ok_def list_all_iff)
qed

theorem complete_exploration_witness:
  "\<exists>s x ks. turns two_ways [0, 0, 0, 0, 0] (start_explore small_budget 1) = Some s \<and> explore_answer (ex_queue s) = Inr x \<and>
     set ks = {k. \<exists>plan. planned two_ways k plan} \<and> length ks = 2"
proof -
  have run: "map_option (\<lambda>s. (ex_jobs s, map_sum id (\<lambda>x. (x_Runs x, Complete x)) (explore_answer (ex_queue s))))
      (turns two_ways [0, 0, 0, 0, 0] (start_explore small_budget 1)) = Some ([Gone], Inr (2, True))"
    by code_simp
  then obtain s where s: "turns two_ways [0, 0, 0, 0, 0] (start_explore small_budget 1) = Some s" "all_gone s"
    "map_sum id (\<lambda>x. (x_Runs x, Complete x)) (explore_answer (ex_queue s)) = Inr (2, True)"
    by (auto simp: all_gone_def)
  then obtain x where x: "explore_answer (ex_queue s) = Inr x" "x_Runs x = 2" "Complete x"
    by (cases "explore_answer (ex_queue s)") auto
  from complete_exploration [OF small_budget_pos turns_steps [OF s(1)] s(2) x(1,3)] obtain ks where
    "set ks = {k. \<exists>plan. planned two_ways k plan}" "x_Runs x = length ks" by blast
  with s(1) x show ?thesis by metis
qed

end
