(* ===== verification/Explore_Paths.thy ===== *)
theory Explore_Paths
  imports Explore_Outcomes
begin

text \<open>
  Exploring a behavior that is a tree of choices: whatever a behavior does between its choices, an
  exploring run meets it as a sequence of picks among alternatives, each described once resolved.
  Over such a behavior the prefixes of an exploration are its linearizations, each exactly once,
  and the length of a prefix's key is the sum of the alternatives its run took.
\<close>

section \<open>Behaviors as trees of choices\<close>

datatype behavior = Ends Outcome | Chooses nat "nat \<Rightarrow> ChoicePoint" "nat \<Rightarrow> behavior"

primrec run_behavior :: "behavior \<Rightarrow> exploreRun \<Rightarrow> (Outcome \<times> exploreRun) option" where
  "run_behavior (Ends out) r = Some (out, r)"
| "run_behavior (Chooses n c f) r =
     (case pick n r of None \<Rightarrow> None | Some (i, r) \<Rightarrow> run_behavior (f i) (describe (c i) r))"

definition exec_behavior :: "behavior \<Rightarrow> int \<Rightarrow> exploreSlot list \<Rightarrow> run_result" where
  "exec_behavior t depth plan =
     (case run_behavior t (new_run plan depth) of None \<Rightarrow> Setup_Failed ''no run'' | Some (out, r) \<Rightarrow> Ran r out [])"

text \<open>The outcome a list of alternatives leads to, if it is a path from the first choice to an end.\<close>

primrec reaches :: "behavior \<Rightarrow> nat list \<Rightarrow> Outcome option" where
  "reaches (Ends out) p = (if p = [] then Some out else None)"
| "reaches (Chooses n c f) p = (case p of [] \<Rightarrow> None | i # p \<Rightarrow> if i < n then reaches (f i) p else None)"

text \<open>The behavior chooses among at least one alternative each time, at most \<open>d\<close> times.\<close>

primrec within :: "behavior \<Rightarrow> nat \<Rightarrow> bool" where
  "within (Ends out) d = True"
| "within (Chooses n c f) d = (0 < n \<and> 0 < d \<and> (\<forall>i < n. within (f i) (d - 1)))"

primrec starts :: "behavior \<Rightarrow> nat list \<Rightarrow> bool" where
  "starts (Ends out) q = (q = [])"
| "starts (Chooses n c f) q = (case q of [] \<Rightarrow> True | i # q \<Rightarrow> i < n \<and> starts (f i) q)"

primrec completed :: "behavior \<Rightarrow> nat list \<Rightarrow> nat list" where
  "completed (Ends out) q = []"
| "completed (Chooses n c f) q = (case q of [] \<Rightarrow> 0 # completed (f 0) [] | i # q \<Rightarrow> i # completed (f i) q)"

primrec alternatives_along :: "behavior \<Rightarrow> nat list \<Rightarrow> nat list" where
  "alternatives_along (Ends out) p = []"
| "alternatives_along (Chooses n c f) p = (case p of [] \<Rightarrow> [] | i # p \<Rightarrow> n # alternatives_along (f i) p)"

definition skeleton :: "exploreSlot \<Rightarrow> slotKind \<times> nat \<times> nat \<times> bool" where
  "skeleton s = (es_kind s, es_alternatives s, es_taken s, es_beyond s)"

definition skeletons :: "behavior \<Rightarrow> nat list \<Rightarrow> (slotKind \<times> nat \<times> nat \<times> bool) list" where
  "skeletons t p = map (\<lambda>(n, i). (slotPick, n, i, False)) (zip (alternatives_along t p) p)"

section \<open>Paths\<close>

lemma starts_Nil [simp]: "starts t []"
  by (cases t) auto

lemma alternatives_Nil [simp]: "alternatives_along t [] = []"
  by (cases t) auto

lemma completed_starts: "within t d \<Longrightarrow> starts t q \<Longrightarrow> starts t (completed t q)"
  by (induction t arbitrary: q d) (auto split: list.splits)

lemma completed_reaches: "within t d \<Longrightarrow> starts t q \<Longrightarrow> \<exists>out. reaches t (completed t q) = Some out"
  by (induction t arbitrary: q d) (auto split: list.splits)

lemma completed_prefix: "starts t q \<Longrightarrow> take (length q) (completed t q) = q"
  by (induction t arbitrary: q) (auto split: list.splits)

lemma completed_zeros: "starts t q \<Longrightarrow> set (drop (length q) (completed t q)) \<subseteq> {0}"
proof (induction t arbitrary: q)
  case (Chooses n c f)
  have "set (completed (f 0) []) \<subseteq> {0}" if "q = []"
  proof -
    have "set (completed t []) \<subseteq> {0}" for t by (induction t) auto
    then show ?thesis .
  qed
  with Chooses show ?case by (auto split: list.splits)
qed simp

lemma completed_path: "reaches t p = Some out \<Longrightarrow> completed t p = p \<and> starts t p"
  by (induction t arbitrary: p) (auto split: list.splits if_splits)

lemma completed_zero_tail: "starts t (q @ replicate m 0) \<Longrightarrow> completed t (q @ replicate m 0) = completed t q"
proof (induction t arbitrary: q m)
  case (Chooses n c f)
  show ?case
  proof (cases q)
    case Nil
    with Chooses.prems Chooses.IH [of "f 0" "[]" "m - 1"] show ?thesis by (cases m) auto
  next
    case (Cons i q')
    with Chooses.prems Chooses.IH [of "f i" q' m] show ?thesis by auto
  qed
qed simp

lemma length_alternatives: "starts t p \<Longrightarrow> length (alternatives_along t p) = length p"
  by (induction t arbitrary: p) (auto split: list.splits)

lemma starts_take: "starts t p \<Longrightarrow> starts t (take n p)"
  by (induction t arbitrary: p n) (auto split: list.splits simp: take_Cons')

lemma alternatives_take: "starts t p \<Longrightarrow> alternatives_along t (take n p) = take n (alternatives_along t p)"
  by (induction t arbitrary: p n) (auto split: list.splits simp: take_Cons')

text \<open>An alternative may be changed for any other of its choice; what was chosen before stays.\<close>

lemma starts_change:
  "starts t (q @ i # p) \<Longrightarrow> starts t (q @ [j]) \<longleftrightarrow> j < alternatives_along t (q @ i # p) ! length q"
proof (induction t arbitrary: q)
  case (Chooses n c f)
  then show ?case by (cases q) auto
qed simp

lemma alternatives_change:
  "starts t (q @ i # p) \<Longrightarrow> alternatives_along t (q @ [j]) = take (Suc (length q)) (alternatives_along t (q @ i # p))"
proof (induction t arbitrary: q)
  case (Chooses n c f)
  then show ?case by (cases q) auto
qed simp

lemma skeletons_taken: "starts t p \<Longrightarrow> map (\<lambda>s. fst (snd (snd s))) (skeletons t p) = p"
  by (simp add: skeletons_def length_alternatives o_def case_prod_beta)

lemma length_skeletons: "starts t p \<Longrightarrow> length (skeletons t p) = length p"
  by (simp add: skeletons_def length_alternatives)

lemma nth_skeletons: "starts t p \<Longrightarrow> i < length p \<Longrightarrow> skeletons t p ! i = (slotPick, alternatives_along t p ! i, p ! i, False)"
  by (simp add: skeletons_def length_alternatives)

section \<open>A run of a behavior\<close>

lemma describe_pick:
  "es_kind s = slotPick \<Longrightarrow> describe c (r\<lparr>er_record := xs @ [s]\<rparr>) = r\<lparr>er_record := xs @ [s\<lparr>es_choice := c, es_described := True\<rparr>]\<rparr>"
  by (simp add: describe_def)

text \<open>A pick within the plan takes the planned alternative, one past it the first.\<close>

lemma pick_planned:
  assumes "length (er_record r) < length (er_prefix r)" "skeleton (er_prefix r ! length (er_record r)) = (slotPick, n, i, False)"
  shows "\<exists>s. pick n r = Some (i, r\<lparr>er_explored := er_explored r + 1, er_record := er_record r @ [s]\<rparr>) \<and> skeleton s = (slotPick, n, i, False)"
  using assms by (auto simp: pick_def resolve_def slot_matches_def new_slot_def skeleton_def Let_def)

lemma pick_past:
  assumes "length (er_prefix r) \<le> length (er_record r)" "er_explored r < er_depth r"
  shows "\<exists>s. pick n r = Some (0, r\<lparr>er_explored := er_explored r + 1, er_record := er_record r @ [s]\<rparr>) \<and> skeleton s = (slotPick, n, 0, False)"
  using assms by (auto simp: pick_def resolve_def new_slot_def skeleton_def Let_def)

definition ran_to :: "behavior \<Rightarrow> nat list \<Rightarrow> exploreRun \<Rightarrow> Outcome \<Rightarrow> exploreRun \<Rightarrow> bool" where
  "ran_to t p r out r' =
     (reaches t p = Some out \<and> er_prefix r' = er_prefix r \<and> er_diverged r' = er_diverged r \<and>
      (\<exists>ss. er_record r' = er_record r @ ss \<and> map skeleton ss = skeletons t p))"

lemma run_behavior_follows:
  assumes "within t d" "starts t q" "map skeleton (drop (length (er_record r)) (er_prefix r)) = skeletons t q"
    "er_explored r = int (length (er_record r))" "int (length (er_record r) + d) \<le> er_depth r"
  shows "\<exists>out r'. run_behavior t r = Some (out, r') \<and> ran_to t (completed t q) r out r'"
  using assms
proof (induction t arbitrary: q r d)
  case (Ends out)
  then show ?case by (auto simp: ran_to_def skeletons_def)
next
  case (Chooses n c f)
  obtain i q1 where iq: "case q of [] \<Rightarrow> i = 0 \<and> q1 = [] | j # q2 \<Rightarrow> i = j \<and> q1 = q2" by (cases q) auto
  have i: "i < n" "starts (f i) q1" "within (f i) (d - 1)" "0 < d"
    using Chooses.prems(1,2) iq by (auto split: list.splits)
  have full: "completed (Chooses n c f) q = i # completed (f i) q1" using iq by (auto split: list.splits)
  have skel: "skeletons (Chooses n c f) (i # p) = (slotPick, n, i, False) # skeletons (f i) p" for p
    by (simp add: skeletons_def)
  have "\<exists>s. pick n r = Some (i, r\<lparr>er_explored := er_explored r + 1, er_record := er_record r @ [s]\<rparr>) \<and> skeleton s = (slotPick, n, i, False) \<and>
      map skeleton (drop (Suc (length (er_record r))) (er_prefix r)) = skeletons (f i) q1"
  proof (cases q)
    case Nil
    then have "length (er_prefix r) \<le> length (er_record r)" using Chooses.prems(3) by (simp add: skeletons_def)
    moreover have "er_explored r < er_depth r" using Chooses.prems(4,5) i(4) by simp
    ultimately show ?thesis using pick_past [of r n] iq Nil by (simp add: skeletons_def)
  next
    case (Cons j q2)
    then have planned: "map skeleton (drop (length (er_record r)) (er_prefix r)) = (slotPick, n, i, False) # skeletons (f i) q1"
      using Chooses.prems(3) iq skel by simp
    then have less: "length (er_record r) < length (er_prefix r)" by (cases "length (er_record r) < length (er_prefix r)") auto
    then have split: "drop (length (er_record r)) (er_prefix r) = er_prefix r ! length (er_record r) # drop (Suc (length (er_record r))) (er_prefix r)"
      by (simp add: Cons_nth_drop_Suc)
    then show ?thesis using pick_planned [OF less, of n i] planned by simp
  qed
  then obtain s where s: "pick n r = Some (i, r\<lparr>er_explored := er_explored r + 1, er_record := er_record r @ [s]\<rparr>)" "skeleton s = (slotPick, n, i, False)"
    "map skeleton (drop (Suc (length (er_record r))) (er_prefix r)) = skeletons (f i) q1" by blast
  define s1 where "s1 = s\<lparr>es_choice := c i, es_described := True\<rparr>"
  define r1 where "r1 = r\<lparr>er_explored := er_explored r + 1, er_record := er_record r @ [s1]\<rparr>"
  have s1: "skeleton s1 = (slotPick, n, i, False)" using s(2) by (simp add: s1_def skeleton_def)
  have desc: "describe (c i) (r\<lparr>er_explored := er_explored r + 1, er_record := er_record r @ [s]\<rparr>) = r1"
    using s(2) describe_pick [of s "c i" _ "r\<lparr>er_explored := er_explored r + 1\<rparr>"]
    by (simp add: r1_def s1_def skeleton_def)
  have "\<exists>out r'. run_behavior (f i) r1 = Some (out, r') \<and> ran_to (f i) (completed (f i) q1) r1 out r'"
    using Chooses.prems(4,5) i s(3) by (intro Chooses.IH [of "f i" "d - 1"]) (auto simp: r1_def)
  then obtain out r' where r': "run_behavior (f i) r1 = Some (out, r')" "ran_to (f i) (completed (f i) q1) r1 out r'" by blast
  have "ran_to (Chooses n c f) (i # completed (f i) q1) r out r'"
    using r'(2) i(1) s1 skel by (auto simp: ran_to_def r1_def)
  with r'(1) s(1) desc full show ?case by auto
qed


section \<open>The tree of prefixes of a behavior\<close>

definition strip :: "nat list \<Rightarrow> nat list" where
  "strip xs = rev (dropWhile (\<lambda>x. x = 0) (rev xs))"

abbreviation trimmed :: "nat list \<Rightarrow> bool" where
  "trimmed q \<equiv> q = [] \<or> last q \<noteq> 0"

lemma strip_zeros: "trimmed q \<Longrightarrow> set zs \<subseteq> {0} \<Longrightarrow> strip (q @ zs) = q"
proof -
  assume q: "trimmed q" and zs: "set zs \<subseteq> {0}"
  have "dropWhile (\<lambda>x. x = 0) (rev zs @ rev q) = dropWhile (\<lambda>x. x = 0) (rev q)"
    using zs by (intro dropWhile_append2) auto
  also have "\<dots> = rev q" using q by (cases q rule: rev_cases) auto
  finally show ?thesis by (simp add: strip_def)
qed

lemma strip_split: "trimmed (strip xs) \<and> (\<exists>m. xs = strip xs @ replicate m 0)"
proof (induction xs rule: rev_induct)
  case (snoc x xs)
  show ?case
  proof (cases "x = 0")
    case True
    then have "strip (xs @ [x]) = strip xs" by (simp add: strip_def)
    moreover obtain m where "xs = strip xs @ replicate m 0" using snoc by blast
    then have "xs @ [x] = strip xs @ replicate (Suc m) 0" using True by (metis append.assoc replicate_append_same replicate_Suc)
    ultimately show ?thesis using snoc by metis
  next
    case False
    then have "strip (xs @ [x]) = xs @ [x]" by (simp add: strip_def)
    with False show ?thesis by (auto intro: exI [of _ 0])
  qed
qed (simp add: strip_def)

lemma completed_split:
  assumes "starts t q"
  obtains zs where "completed t q = q @ zs" "set zs \<subseteq> {0}"
  using completed_prefix [OF assms] completed_zeros [OF assms] that by (metis append_take_drop_id)

definition node :: "behavior \<Rightarrow> nat list \<Rightarrow> exploreSlot list \<Rightarrow> bool" where
  "node t q plan = (starts t q \<and> trimmed q \<and> map skeleton plan = skeletons t q)"

lemma node_run:
  assumes t: "within t d" "int d \<le> depth" and q: "node t q plan"
  shows "\<exists>r out. exec_behavior t depth plan = Ran r out [] \<and> followed r = None \<and> er_prefix r = plan \<and>
    map skeleton (er_record r) = skeletons t (completed t q) \<and> reaches t (completed t q) = Some out"
proof -
  have st: "starts t q" using q by (simp add: node_def)
  have "\<exists>out r'. run_behavior t (new_run plan depth) = Some (out, r') \<and> ran_to t (completed t q) (new_run plan depth) out r'"
    using t q by (intro run_behavior_follows [of t d]) (auto simp: new_run_def node_def)
  then obtain out r where r: "run_behavior t (new_run plan depth) = Some (out, r)" "ran_to t (completed t q) (new_run plan depth) out r" by blast
  obtain zs where zs: "completed t q = q @ zs" using completed_split [OF st] .
  have "length plan = length q" using q by (metis length_map length_skeletons node_def)
  moreover have "length (er_record r) = length (completed t q)"
    using r(2) completed_starts [OF t(1) st] by (metis append_Nil exploreRun.select_convs(3) length_map length_skeletons new_run_def ran_to_def)
  ultimately show ?thesis
    using r zs by (auto simp: exec_behavior_def ran_to_def new_run_def followed_def)
qed

text \<open>What a run leaves to vary, and the prefixes that departs to.\<close>

lemma node_unexplored:
  assumes r: "map skeleton (er_record r) = skeletons t p" "er_prefix r = plan" and p: "starts t p" and plan: "length plan = length q"
  shows "m \<in> set (unexplored r) \<longleftrightarrow> length q - 1 \<le> m \<and> m < length p \<and> p ! m + 1 < alternatives_along t p ! m"
    "m < length p \<Longrightarrow> p ! m + 1 < alternatives_along t p ! m \<Longrightarrow>
       starts t (take m p @ [p ! m + 1]) \<and> map skeleton (departure (er_record r) m) = skeletons t (take m p @ [p ! m + 1])"
proof -
  have len: "length (er_record r) = length p" using r(1) p by (metis length_map length_skeletons)
  have at: "skeleton (er_record r ! i) = (slotPick, alternatives_along t p ! i, p ! i, False)" if "i < length p" for i
    using that r(1) nth_skeletons [OF p that] len by (metis nth_map)
  have "left_untried (er_record r ! i) \<longleftrightarrow> p ! i + 1 < alternatives_along t p ! i" if "i < length p" for i
    using at [OF that] by (auto simp: left_untried_def skeleton_def)
  then show "m \<in> set (unexplored r) \<longleftrightarrow> length q - 1 \<le> m \<and> m < length p \<and> p ! m + 1 < alternatives_along t p ! m"
    by (auto simp: unexplored_def len r(2) plan)
  assume m: "m < length p" "p ! m + 1 < alternatives_along t p ! m"
  have split: "take m p @ p ! m # drop (Suc m) p = p" using m(1) by (simp add: id_take_nth_drop [symmetric])
  then have change: "starts t (take m p @ [j]) \<longleftrightarrow> j < alternatives_along t p ! m"
    "alternatives_along t (take m p @ [j]) = take (Suc m) (alternatives_along t p)" for j
    using starts_change [of t "take m p" "p ! m" "drop (Suc m) p" j] alternatives_change [of t "take m p" "p ! m" "drop (Suc m) p" j] p m(1)
    by (simp_all add: min_def)
  have "map skeleton (departure (er_record r) m) = skeletons t (take m p @ [p ! m + 1])"
  proof (rule nth_equalityI)
    have la: "length (alternatives_along t p) = length p" using length_alternatives [OF p] .
    show "length (map skeleton (departure (er_record r) m)) = length (skeletons t (take m p @ [p ! m + 1]))"
      using m len la by (simp add: departure_def skeletons_def change(2))
    fix i assume "i < length (map skeleton (departure (er_record r) m))"
    then have i: "i \<le> m" using m(1) len by (simp add: departure_def)
    then show "map skeleton (departure (er_record r) m) ! i = skeletons t (take m p @ [p ! m + 1]) ! i"
      using m len la at [of i] by (cases "i = m") (auto simp: departure_def skeletons_def change(2) skeleton_def nth_append nth_list_update)
  qed
  with change(1) m(2) show "starts t (take m p @ [p ! m + 1]) \<and> map skeleton (departure (er_record r) m) = skeletons t (take m p @ [p ! m + 1])"
    by simp
qed


lemma child_trim:
  assumes "completed t q = q @ zs" "set zs \<subseteq> {0}" "length q - 1 \<le> m" "m < length (completed t q)" "trimmed q"
  shows "strip (take (Suc m) (completed t q)) = q" "sum_list (take m (completed t q) @ [completed t q ! m + 1]) = sum_list q + 1"
proof -
  have "length q \<le> Suc m" using assms(3) by simp
  then have "take (Suc m) (completed t q) = q @ take (Suc m - length q) zs" by (simp add: assms(1))
  moreover have z: "set (take (Suc m - length q) zs) \<subseteq> {0}" using assms(2) set_take_subset by fast
  ultimately have tk: "take (Suc m) (completed t q) = q @ take (Suc m - length q) zs" "strip (take (Suc m) (completed t q)) = q"
    using strip_zeros [OF assms(5)] by simp_all
  show "strip (take (Suc m) (completed t q)) = q" by (rule tk(2))
  have "sum_list (take (Suc m - length q) zs) = 0" using z by (simp add: sum_list_eq_0_iff subset_iff)
  then have "sum_list (take (Suc m) (completed t q)) = sum_list q" by (simp add: tk(1))
  then show "sum_list (take m (completed t q) @ [completed t q ! m + 1]) = sum_list q + 1"
    using assms(4) by (simp add: take_Suc_conv_app_nth)
qed

text \<open>A child of a node: the index of its departure among those the run left.\<close>

lemma planned_child_node:
  assumes t: "within t d" "int d \<le> depth" and q: "node t q plan"
    and r: "exec_behavior t depth plan = Ran r out gaps" and i: "i < length (unexplored r)"
  defines "m \<equiv> unexplored r ! i" and "p \<equiv> completed t q"
  shows "node t (take m p @ [p ! m + 1]) (departure (er_record r) m)" "length q - 1 \<le> m" "m < length p"
proof -
  have st: "starts t q" using q by (simp add: node_def)
  have p: "starts t p" unfolding p_def by (rule completed_starts [OF t(1) st])
  obtain r' out' where "exec_behavior t depth plan = Ran r' out' []" "er_prefix r' = plan" "map skeleton (er_record r') = skeletons t p"
    unfolding p_def using node_run [OF t q] by blast
  with r have r': "er_prefix r = plan" "map skeleton (er_record r) = skeletons t p" by simp_all
  have len: "length plan = length q" using q by (metis length_map length_skeletons node_def)
  note un = node_unexplored [OF r'(2,1) p len, of m]
  have "m \<in> set (unexplored r)" using i by (simp add: m_def)
  with un(1) show *: "length q - 1 \<le> m" "m < length p" by auto
  have "p ! m + 1 < alternatives_along t p ! m" using un(1) \<open>m \<in> set (unexplored r)\<close> by simp
  with un(2) * show "node t (take m p @ [p ! m + 1]) (departure (er_record r) m)" by (simp add: node_def)
qed

lemma planned_is_node:
  assumes t: "within t d" "int d \<le> depth" and k: "planned (exec_behavior t depth) k plan"
  shows "\<exists>q. node t q plan \<and> length k = sum_list q"
  using k
proof (induction k plan)
  case root
  have "node t [] []" by (simp add: node_def skeletons_def)
  then show ?case by force
next
  case (child k plan r out gaps i)
  then obtain q where q: "node t q plan" "length k = sum_list q" by blast
  obtain zs where zs: "completed t q = q @ zs" "set zs \<subseteq> {0}" using completed_split q(1) by (metis node_def)
  have tr: "trimmed q" using q(1) by (simp add: node_def)
  note c = planned_child_node [OF t q(1) child.hyps(2,4)]
  from child_trim(2) [OF zs c(2,3) tr] q(2) c(1) show ?case by (intro exI) auto
qed

lemma node_is_planned:
  assumes t: "within t d" "int d \<le> depth" and q: "starts t q" "trimmed q"
  shows "\<exists>k plan. planned (exec_behavior t depth) k plan \<and> node t q plan"
  using q
proof (induction "sum_list q" arbitrary: q rule: less_induct)
  case less
  show ?case
  proof (cases q rule: rev_cases)
    case Nil
    then show ?thesis by (intro exI [of _ "[]"]) (auto simp: node_def skeletons_def planned.root)
  next
    case (snoc q0 w)
    then obtain v where w: "w = Suc v" using less.prems(2) by (cases w) auto
    have w_less: "w < alternatives_along t (q0 @ [w]) ! length q0"
      using starts_change [of t q0 w "[]" w] less.prems(1) snoc by simp
    have v_starts: "starts t (q0 @ [v])"
      using starts_change [of t q0 w "[]" v] less.prems(1) snoc w_less w by simp
    define q1 where "q1 = strip (q0 @ [v])"
    obtain z where z: "q0 @ [v] = q1 @ replicate z 0" "trimmed q1" using strip_split [of "q0 @ [v]"] by (auto simp: q1_def)
    have q1: "starts t q1" using starts_take [OF v_starts, of "length q1"] z(1) by simp
    have "sum_list (q0 @ [v]) = sum_list q1" by (simp add: z(1) sum_list_replicate)
    then have less_sum: "sum_list q1 < sum_list q" using snoc w by simp
    from less.hyps [OF less_sum q1 z(2)] obtain k plan where k: "planned (exec_behavior t depth) k plan" "node t q1 plan" by blast
    define p where "p = completed t q1"
    have p: "p = completed t (q0 @ [v])" using completed_zero_tail [of t q1 z] v_starts z(1) by (simp add: p_def)
    then obtain zs where zs: "p = q0 @ v # zs" using completed_split [OF v_starts] by (metis append.assoc append_Cons append_Nil)
    have pst: "starts t p" unfolding p by (rule completed_starts [OF t(1) v_starts])
    obtain r out where r: "exec_behavior t depth plan = Ran r out []" "followed r = None" "er_prefix r = plan"
      "map skeleton (er_record r) = skeletons t p" using node_run [OF t k(2)] unfolding p_def by blast
    have len: "length plan = length q1" using k(2) by (metis length_map length_skeletons node_def)
    have bound: "length q1 - 1 \<le> length q0" using arg_cong [OF z(1), of length] by simp
    have "p ! length q0 + 1 < alternatives_along t p ! length q0"
    proof -
      have "starts t (q0 @ [w])" using less.prems(1) snoc by simp
      with starts_change [of t q0 v zs w] pst zs have "w < alternatives_along t p ! length q0" by simp
      then show ?thesis by (simp add: zs w)
    qed
    then have un: "length q0 \<in> set (unexplored r)" "node t q (departure (er_record r) (length q0))"
      using node_unexplored [OF r(4,3) pst len, of "length q0"] bound zs snoc w less.prems(2) by (simp_all add: node_def)
    then obtain i where i: "i < length (unexplored r)" "unexplored r ! i = length q0" by (metis in_set_conv_nth)
    from planned.child [OF k(1) r(1,2) i(1)] un(2) i(2) show ?thesis by auto
  qed
qed

lemma node_planned_once:
  assumes t: "within t d" "int d \<le> depth"
  shows "planned (exec_behavior t depth) k plan \<Longrightarrow> node t q plan \<Longrightarrow> planned (exec_behavior t depth) l plan' \<Longrightarrow> node t q plan' \<Longrightarrow> k = l"
proof (induction k plan arbitrary: q l plan' rule: planned.induct)
  case root
  then have "q = []" by (metis length_0_conv length_skeletons list.simps(8) node_def)
  with planned_is_node [OF t root(2)] root.prems show ?case
    by (metis length_0_conv length_map length_skeletons node_def sum_list.Nil)
next
  case (child k plan r out gaps i)
  obtain q1 where q1: "node t q1 plan" "length k = sum_list q1" using planned_is_node [OF t child.hyps(1)] by blast
  note c = planned_child_node [OF t q1(1) child.hyps(2,4)]
  obtain zs where zs: "completed t q1 = q1 @ zs" "set zs \<subseteq> {0}" using completed_split [of t q1] q1(1) unfolding node_def by blast
  define m where "m = unexplored r ! i"
  have skel: "q' = q''" if "node t q' pl" "node t q'' pl" for q' q'' pl
    using that skeletons_taken unfolding node_def by metis
  have q: "q = take m (completed t q1) @ [completed t q1 ! m + 1]"
    using skel [OF child.prems(1) c(1)] by (simp add: m_def)
  then have "0 < sum_list q" by (simp only: sum_list_append) simp
  obtain q2' where q2': "node t q2' plan'" "length l = sum_list q2'" using planned_is_node [OF t child.prems(2)] by blast
  have "q = q2'" by (rule skel [OF child.prems(3) q2'(1)])
  then have "0 < length l" using q2'(2) \<open>0 < sum_list q\<close> by simp
  then have "l \<noteq> []" by simp
  then obtain l' j where l: "l = l' @ [j]" by (metis append_butlast_last_id)
  obtain plan2 r2 out2 gaps2 where p2: "planned (exec_behavior t depth) l' plan2" "exec_behavior t depth plan2 = Ran r2 out2 gaps2"
    "j < length (unexplored r2)" "plan' = departure (er_record r2) (unexplored r2 ! j)"
    using child.prems(2) unfolding l by (elim planned_snocE) auto
  obtain q2 where q2: "node t q2 plan2" using planned_is_node [OF t p2(1)] by blast
  note c2 = planned_child_node [OF t q2 p2(2,3)]
  obtain zs2 where zs2: "completed t q2 = q2 @ zs2" "set zs2 \<subseteq> {0}" using completed_split [of t q2] q2 unfolding node_def by blast
  define m2 where "m2 = unexplored r2 ! j"
  have q': "q = take m2 (completed t q2) @ [completed t q2 ! m2 + 1]"
    using skel [OF child.prems(3)] c2(1) p2(4) by (simp add: m2_def)
  have len: "m < length (completed t q1)" "m2 < length (completed t q2)" using c(3) c2(3) by (simp_all add: m_def m2_def)
  have "m = m2" using arg_cong [OF q, of length] arg_cong [OF q', of length] len by simp
  then have same: "take (Suc m) (completed t q1) = take (Suc m2) (completed t q2)"
    using q q' len by (simp add: take_Suc_conv_app_nth)
  have "q1 = strip (take (Suc m) (completed t q1))" "q2 = strip (take (Suc m2) (completed t q2))"
    using child_trim(1) [OF zs c(2,3)] child_trim(1) [OF zs2 c2(2,3)] q1(1) q2 by (simp_all add: node_def m_def m2_def)
  then have "q1 = q2" using same by simp
  with child.IH [OF q1(1) p2(1)] q2 have k: "k = l'" by simp
  then have "plan2 = plan" using planned_unique p2(1) child.hyps(1) by blast
  then have "r2 = r" using p2(2) child.hyps(2) by simp
  moreover have "distinct (unexplored r)" by (simp add: unexplored_def)
  ultimately have "i = j" using \<open>m = m2\<close> p2(3) child.hyps(4) by (simp add: m_def m2_def nth_eq_iff_index_eq)
  with k l show ?case by simp
qed

lemma node_path:
  assumes t: "within t d" "int d \<le> depth" and q: "node t q plan"
  shows "\<exists>r out. exec_behavior t depth plan = Ran r out [] \<and> followed r = None \<and> map es_taken (er_record r) = completed t q \<and>
    reaches t (completed t q) = Some out"
proof -
  have "map es_taken ss = p" if "map skeleton ss = skeletons t p" "starts t p" for ss p
  proof -
    have "map es_taken ss = map (\<lambda>s. fst (snd (snd s))) (map skeleton ss)" by (simp add: skeleton_def)
    with that skeletons_taken show ?thesis by simp
  qed
  then show ?thesis
    using node_run [OF t q] completed_starts [OF t(1)] q unfolding node_def by blast
qed

section \<open>Linearizations\<close>

text \<open>
  C4: over a behavior that is a tree of choices, deep enough a budget, the prefixes of an exploration
  are its linearizations: every prefix's run is a path of the tree to its end and its outcome the
  one the path reaches, every path is the run of exactly one prefix, and a prefix's place in plan
  order is by the sum of the alternatives its run takes.
\<close>

theorem each_linearization_once:
  assumes "within t d" and "int d \<le> depth"
  shows "(\<forall>k plan. planned (exec_behavior t depth) k plan \<longrightarrow>
      (\<exists>r out. exec_behavior t depth plan = Ran r out [] \<and> followed r = None \<and>
         reaches t (map es_taken (er_record r)) = Some out \<and> length k = sum_list (map es_taken (er_record r)))) \<and>
    (\<forall>p out. reaches t p = Some out \<longrightarrow>
      (\<exists>!k. \<exists>plan r. planned (exec_behavior t depth) k plan \<and> exec_behavior t depth plan = Ran r out [] \<and>
         map es_taken (er_record r) = p))"
proof (intro conjI allI impI)
  note run = node_path [OF assms]
  have sum: "sum_list (completed t q) = sum_list q" if st: "starts t q" for q
  proof -
    obtain zs where "completed t q = q @ zs" "set zs \<subseteq> {0}" using completed_split [OF st] by blast
    moreover have "sum_list zs = 0" using calculation(2) by (simp add: sum_list_eq_0_iff subset_iff)
    ultimately show ?thesis by simp
  qed
  fix k plan assume "planned (exec_behavior t depth) k plan"
  from planned_is_node [OF assms this] obtain q where q: "node t q plan" "length k = sum_list q" by blast
  from run [OF q(1)] sum q show "\<exists>r out. exec_behavior t depth plan = Ran r out [] \<and> followed r = None \<and>
      reaches t (map es_taken (er_record r)) = Some out \<and> length k = sum_list (map es_taken (er_record r))"
    by (metis node_def)
next
  note run = node_path [OF assms]
  fix p out assume p: "reaches t p = Some out"
  have path: "completed t p = p" "starts t p" using completed_path [OF p] by simp_all
  obtain z where z: "p = strip p @ replicate z 0" "trimmed (strip p)" using strip_split [of p] by blast
  have st: "starts t (strip p)" using starts_take [OF path(2), of "length (strip p)"] z(1) by (metis append_eq_conv_conj)
  have full: "completed t (strip p) = p" using completed_zero_tail [of t "strip p" z] path z(1) by simp
  have only: "q = strip p" if "node t q plan" "completed t q = p" for q plan
  proof -
    have "starts t q" using that(1) by (simp add: node_def)
    then obtain zs where "completed t q = q @ zs" "set zs \<subseteq> {0}" using completed_split by blast
    with strip_zeros [of q zs] that show ?thesis by (simp add: node_def)
  qed
  obtain k plan where k: "planned (exec_behavior t depth) k plan" "node t (strip p) plan"
    using node_is_planned [OF assms st z(2)] by blast
  show "\<exists>!k. \<exists>plan r. planned (exec_behavior t depth) k plan \<and> exec_behavior t depth plan = Ran r out [] \<and> map es_taken (er_record r) = p"
  proof (rule ex1I)
    show "\<exists>plan r. planned (exec_behavior t depth) k plan \<and> exec_behavior t depth plan = Ran r out [] \<and> map es_taken (er_record r) = p"
      using run [OF k(2)] k(1) full p by fastforce
    fix l assume "\<exists>plan r. planned (exec_behavior t depth) l plan \<and> exec_behavior t depth plan = Ran r out [] \<and> map es_taken (er_record r) = p"
    then obtain plan' r' where l: "planned (exec_behavior t depth) l plan'" "exec_behavior t depth plan' = Ran r' out []" "map es_taken (er_record r') = p" by blast
    obtain q where q: "node t q plan'" using planned_is_node [OF assms l(1)] by blast
    from run [OF q] l(2,3) have "completed t q = p" by auto
    with only [OF q] q have "node t (strip p) plan'" by simp
    then show "l = k" using node_planned_once [OF assms k l(1)] by simp
  qed
qed

definition coin_then_die :: behavior where
  "coin_then_die =
     Chooses 2 (\<lambda>i. zero_ChoicePoint) (\<lambda>i. if i = 0 then Ends zero_Outcome else Chooses 3 (\<lambda>j. zero_ChoicePoint) (\<lambda>j. Ends zero_Outcome))"

theorem each_linearization_once_witness:
  "\<exists>!k. \<exists>plan r. planned (exec_behavior coin_then_die 2) k plan \<and> exec_behavior coin_then_die 2 plan = Ran r zero_Outcome [] \<and>
     map es_taken (er_record r) = [1, 2]"
proof -
  have h: "within coin_then_die 2" "int 2 \<le> 2" "reaches coin_then_die [1, 2] = Some zero_Outcome"
    by (simp_all add: coin_then_die_def)
  show ?thesis by (rule conjunct2 [OF each_linearization_once [OF h(1,2)], rule_format, OF h(3)])
qed

end
