(* ===== verification/Go_Int64.thy ===== *)
theory Go_Int64
  imports Prelude "HOL-Library.Word" "HOL-Library.Signed_Division"
begin

text \<open>
  Go's \<open>int64\<close>: a 64-bit word read as two's complement. \<open>+\<close>, \<open>-\<close> and \<open>*\<close> wrap, division
  truncates and wraps for the least value by minus one. On it the overflow checks of
  \<open>internal/semantic/semantics\<close>: \<open>mulInt\<close> and \<open>intPow\<close> (\<open>eval.go\<close>), \<open>int64Arith\<close>
  (\<open>integer.go\<close>) and \<open>gcd64\<close> (\<open>rational.go\<close>). Each answers exactly when the result is an
  \<open>int64\<close>, and then answers it.
\<close>

type_synonym int64 = "64 word"

definition in_int64 :: "int \<Rightarrow> bool" where
  "in_int64 i = (- (2 ^ 63) \<le> i \<and> i < 2 ^ 63)"

definition MinInt64 :: int64 where
  "MinInt64 = word_of_int (- (2 ^ 63))"

definition go_div :: "int64 \<Rightarrow> int64 \<Rightarrow> int64" where
  "go_div a b = word_of_int (sint a sdiv sint b)"

definition go_rem :: "int64 \<Rightarrow> int64 \<Rightarrow> int64" where
  "go_rem a b = word_of_int (sint a smod sint b)"

definition go_less :: "int64 \<Rightarrow> int64 \<Rightarrow> bool" where
  "go_less a b = (sint a < sint b)"

section \<open>Reading a word\<close>

lemma sint_in_int64 [simp]: "in_int64 (sint (a :: int64))"
  using sint_greater_eq [of a] sint_lt [of a] by (simp add: in_int64_def)

lemma sint_of_int: "in_int64 i \<Longrightarrow> sint (word_of_int i :: int64) = i"
  by (simp add: sint_sbintrunc' in_int64_def signed_take_bit_int_eq_self)

lemma word_of_sint [simp]: "word_of_int (sint a) = (a :: int64)"
  by simp

lemma sint_inj: "sint (a :: int64) = sint b \<longleftrightarrow> a = b"
  by (metis word_of_sint)

lemma sint_MinInt64 [simp]: "sint MinInt64 = - (2 ^ 63)"
  unfolding MinInt64_def by (rule sint_of_int) (simp add: in_int64_def)

lemma sint_0_iff [simp]: "sint (a :: int64) = 0 \<longleftrightarrow> a = 0"
  using sint_inj [of a 0] by simp

definition wrap64 :: "int \<Rightarrow> int" where
  "wrap64 = signed_take_bit 63"

lemma sint_ops:
  "sint (a + b :: int64) = wrap64 (sint a + sint b)" "sint (a - b :: int64) = wrap64 (sint a - sint b)"
  "sint (a * b :: int64) = wrap64 (sint a * sint b)" "sint (- a :: int64) = wrap64 (- sint a)"
  "sint (word_of_int i :: int64) = wrap64 i"
  by (simp_all add: wrap64_def sint_word_ariths sint_sbintrunc')

lemma wrap64_id: "in_int64 i \<Longrightarrow> wrap64 i = i"
  by (simp add: wrap64_def in_int64_def signed_take_bit_int_eq_self)

lemma wrap64_range [simp]: "in_int64 (wrap64 i)"
  using sint_in_int64 [of "word_of_int i"] by (simp add: sint_ops)

lemma wrap64_mod: "\<exists>k. wrap64 i = i + k * 2 ^ 64"
proof -
  have "wrap64 i = (i + 2 ^ 63) mod 2 ^ 64 - 2 ^ 63"
    by (simp add: wrap64_def signed_take_bit_eq_take_bit_shift take_bit_eq_mod)
  moreover have "(i + 2 ^ 63) mod 2 ^ 64 = i + 2 ^ 63 + (- ((i + 2 ^ 63) div 2 ^ 64)) * 2 ^ 64"
    by (simp add: minus_div_mult_eq_mod [symmetric])
  ultimately have "wrap64 i = i + (- ((i + 2 ^ 63) div 2 ^ 64)) * 2 ^ 64" by linarith
  then show ?thesis ..
qed

lemma int64_bounds: "- 9223372036854775808 \<le> sint (a :: int64)" "sint a \<le> 9223372036854775807"
  using sint_in_int64 [of a] by (simp_all add: in_int64_def)

lemma in_int64_iff: "in_int64 i \<longleftrightarrow> - 9223372036854775808 \<le> i \<and> i \<le> 9223372036854775807"
  by (auto simp: in_int64_def)

lemma wrap64_near:
  assumes "- 18446744073709551616 \<le> i" "i < 18446744073709551616"
  shows "wrap64 i = (if i < - 9223372036854775808 then i + 18446744073709551616
    else if 9223372036854775808 \<le> i then i - 18446744073709551616 else i)"
proof -
  obtain k where k: "wrap64 i = i + k * 2 ^ 64" using wrap64_mod by blast
  have r: "- (2 ^ 63) \<le> i + k * 2 ^ 64" "i + k * 2 ^ 64 < 2 ^ 63"
    using wrap64_range [of i] by (simp_all add: in_int64_def k)
  have "k \<le> 1" "-1 \<le> k" using r assms by simp_all
  then have "k = -1 \<or> k = 0 \<or> k = 1" by linarith
  with r assms show ?thesis unfolding k by auto
qed


section \<open>Checked operations\<close>

definition int64_add :: "int64 \<Rightarrow> int64 \<Rightarrow> int64 \<times> bool" where
  "int64_add a b = (let res = a + b in (res, (sint b \<le> 0 \<or> go_less a res) \<and> (0 \<le> sint b \<or> go_less res a)))"

definition int64_sub :: "int64 \<Rightarrow> int64 \<Rightarrow> int64 \<times> bool" where
  "int64_sub a b = (let res = a - b in (res, (0 \<le> sint b \<or> go_less a res) \<and> (sint b \<le> 0 \<or> go_less res a)))"

definition mulInt :: "int64 \<Rightarrow> int64 \<Rightarrow> int64 option" where
  "mulInt a b =
     (if a = 0 \<or> b = 0 then Some 0
      else if a = MinInt64 \<and> b = - 1 \<or> b = MinInt64 \<and> a = - 1 then None
      else let res = a * b in if go_div res b \<noteq> a then None else Some res)"

text \<open>The loop of \<open>intPow\<close>, as long as the exponent is positive.\<close>

function intPow_loop :: "int64 \<Rightarrow> int64 \<Rightarrow> nat \<Rightarrow> int64 option" where
  "intPow_loop res a n =
     (if n = 0 then Some res
      else
        case (if odd n then mulInt res a else Some res) of
          None \<Rightarrow> None
        | Some res \<Rightarrow>
            (if n div 2 = 0 then Some res
             else case mulInt a a of None \<Rightarrow> None | Some a \<Rightarrow> intPow_loop res a (n div 2)))"
  by pat_completeness auto
termination
  by (relation "measure (\<lambda>(res, a, n). n)") auto

declare intPow_loop.simps [simp del]

definition intPow :: "int64 \<Rightarrow> int64 \<Rightarrow> int64 option" where
  "intPow a n = intPow_loop 1 a (nat (sint n))"

definition abs64 :: "int64 \<Rightarrow> int64" where
  "abs64 x = (if sint x < 0 then - x else x)"

function gcd64 :: "int64 \<Rightarrow> int64 \<Rightarrow> int64" where
  "gcd64 a b = (if b \<noteq> 0 then gcd64 b (go_rem a b) else if a = 0 then 1 else a)"
  by pat_completeness auto

lemma smod_le: "\<bar>i smod j\<bar> \<le> \<bar>i\<bar>" for i j :: int
proof -
  have "\<bar>i\<bar> mod \<bar>j\<bar> \<le> \<bar>i\<bar>" "0 \<le> \<bar>i\<bar> mod \<bar>j\<bar>" by (cases "j = 0"; simp add: zmod_le_nonneg_dividend)+
  then show ?thesis by (cases "i = 0") (simp_all add: signed_modulo_int_def abs_mult abs_sgn_eq)
qed

lemma smod_less: "j \<noteq> 0 \<Longrightarrow> \<bar>i smod j\<bar> < \<bar>j\<bar>" for i j :: int
  by (cases "i = 0") (simp_all add: signed_modulo_int_def abs_mult abs_sgn_eq)

lemma sint_go_rem: "sint (go_rem a b) = sint a smod sint b"
proof -
  have "\<bar>sint a smod sint b\<bar> \<le> \<bar>sint a\<bar>" by (rule smod_le)
  moreover have "sint a smod sint b < 2 ^ 63"
  proof (cases "sint a < 0")
    case True
    then have "sint a smod sint b \<le> 0" by (cases "sint b = 0") (simp_all add: signed_modulo_int_def)
    then show ?thesis by simp
  next
    case False
    have "\<bar>sint a smod sint b\<bar> \<le> \<bar>sint a\<bar>" by (rule smod_le)
    then show ?thesis using False sint_in_int64 [of a] unfolding in_int64_def by linarith
  qed
  ultimately have "in_int64 (sint a smod sint b)"
    using sint_in_int64 [of a] unfolding in_int64_def by linarith
  then show ?thesis by (simp add: go_rem_def sint_of_int)
qed

termination gcd64
proof (relation "measure (\<lambda>(a, b). nat \<bar>sint b\<bar>)", simp)
  fix a b :: int64
  assume "b \<noteq> 0"
  then have "sint b \<noteq> 0" by simp
  then have "\<bar>sint a smod sint b\<bar> < \<bar>sint b\<bar>" by (rule smod_less)
  then show "((b, go_rem a b), (a, b)) \<in> measure (\<lambda>(a, b). nat \<bar>sint b\<bar>)" using \<open>b \<noteq> 0\<close> by (simp add: sint_go_rem)
qed

declare gcd64.simps [simp del]

section \<open>Each is exact, or says it is not\<close>

lemma int64_add_exact:
  "snd (int64_add a b) \<longleftrightarrow> in_int64 (sint a + sint b)"
  "snd (int64_add a b) \<Longrightarrow> sint (fst (int64_add a b)) = sint a + sint b"
proof -
  note r = int64_bounds [of a] int64_bounds [of b]
  have w: "sint (a + b) = (if sint a + sint b < - 9223372036854775808 then sint a + sint b + 18446744073709551616
      else if 9223372036854775808 \<le> sint a + sint b then sint a + sint b - 18446744073709551616 else sint a + sint b)"
    unfolding sint_ops using r by (intro wrap64_near) linarith+
  show *: "snd (int64_add a b) \<longleftrightarrow> in_int64 (sint a + sint b)"
    using r unfolding int64_add_def Let_def snd_conv go_less_def w in_int64_iff by (auto split: if_splits)
  show "snd (int64_add a b) \<Longrightarrow> sint (fst (int64_add a b)) = sint a + sint b"
    unfolding * by (simp add: int64_add_def Let_def sint_ops wrap64_id)
qed

lemma int64_sub_exact:
  "snd (int64_sub a b) \<longleftrightarrow> in_int64 (sint a - sint b)"
  "snd (int64_sub a b) \<Longrightarrow> sint (fst (int64_sub a b)) = sint a - sint b"
proof -
  note r = int64_bounds [of a] int64_bounds [of b]
  have w: "sint (a - b) = (if sint a - sint b < - 9223372036854775808 then sint a - sint b + 18446744073709551616
      else if 9223372036854775808 \<le> sint a - sint b then sint a - sint b - 18446744073709551616 else sint a - sint b)"
    unfolding sint_ops using r by (intro wrap64_near) linarith+
  show *: "snd (int64_sub a b) \<longleftrightarrow> in_int64 (sint a - sint b)"
    using r unfolding int64_sub_def Let_def snd_conv go_less_def w in_int64_iff by (auto split: if_splits)
  show "snd (int64_sub a b) \<Longrightarrow> sint (fst (int64_sub a b)) = sint a - sint b"
    unfolding * by (simp add: int64_sub_def Let_def sint_ops wrap64_id)
qed

lemma sdiv_mult_cancel: "(b :: int) \<noteq> 0 \<Longrightarrow> (a * b) sdiv b = a"
  by (simp add: signed_divide_int_def abs_mult sgn_mult) (simp add: mult.assoc mult_sgn_abs mult.left_commute [of "sgn b"] sgn_if)

lemma abs_sdiv: "\<bar>i sdiv j\<bar> = \<bar>i\<bar> div \<bar>j\<bar>" for i j :: int
proof -
  have "0 \<le> \<bar>i\<bar> div \<bar>j\<bar>" by (cases "j = 0") (simp_all add: pos_imp_zdiv_nonneg_iff)
  then show ?thesis by (cases "i = 0"; cases "j = 0") (simp_all add: signed_divide_int_def abs_mult abs_sgn_eq)
qed

lemma abs_sdiv_le: "\<bar>i sdiv j\<bar> \<le> \<bar>i\<bar>" for i j :: int
proof -
  have "nat \<bar>i\<bar> div nat \<bar>j\<bar> \<le> nat \<bar>i\<bar>" by (rule div_le_dividend)
  then show ?thesis by (simp add: abs_sdiv flip: nat_div_distrib)
qed

lemma abs_sdiv_less: "1 < \<bar>j\<bar> \<Longrightarrow> i \<noteq> 0 \<Longrightarrow> \<bar>i sdiv j\<bar> < \<bar>i\<bar>" for i j :: int
  by (simp add: abs_sdiv int_div_less_self)

lemma sdiv_overflow:
  assumes "in_int64 i" "in_int64 j" "\<not> in_int64 (i sdiv j)"
  shows "i = - 9223372036854775808 \<and> j = - 1"
proof -
  have le: "\<bar>i sdiv j\<bar> \<le> \<bar>i\<bar>" by (rule abs_sdiv_le)
  with assms have q: "i sdiv j = 9223372036854775808" and i: "i = - 9223372036854775808"
    unfolding in_int64_iff by linarith+
  have "\<not> 1 < \<bar>j\<bar>" using abs_sdiv_less [of j i] q i by auto
  then have "j = -1 \<or> j = 0 \<or> j = 1" by linarith
  then show ?thesis using q i by (auto simp: signed_divide_int_def)
qed

lemma mulInt_exact:
  "mulInt a b = (if in_int64 (sint a * sint b) then Some (word_of_int (sint a * sint b)) else None)"
proof (cases "a = 0 \<or> b = 0 \<or> a = MinInt64 \<and> b = - 1 \<or> b = MinInt64 \<and> a = - 1")
  case True
  then show ?thesis by (auto simp: mulInt_def in_int64_iff)
next
  case False
  have w: "a * b = word_of_int (sint a * sint b)" by (simp add: wi_hom_mult)
  have b0: "sint b \<noteq> 0" using False by simp
  have "go_div (a * b) b = a \<longleftrightarrow> in_int64 (sint a * sint b)"
  proof
    assume "in_int64 (sint a * sint b)"
    then have "sint (a * b) = sint a * sint b" by (simp add: sint_ops wrap64_id)
    then show "go_div (a * b) b = a" using b0 by (simp add: go_div_def sdiv_mult_cancel)
  next
    assume d: "go_div (a * b) b = a"
    define res where "res = sint (a * b)"
    have res: "in_int64 res" by (simp add: res_def)
    have "in_int64 (res sdiv sint b)"
    proof (rule ccontr)
      assume "\<not> in_int64 (res sdiv sint b)"
      from sdiv_overflow [OF res _ this] have *: "res = - 9223372036854775808" "sint b = -1" by simp_all
      then have "b = -1" using sint_inj [of b "- 1"] by simp
      moreover have "a = MinInt64" using d * unfolding go_div_def res_def [symmetric] *
        by (simp add: MinInt64_def signed_divide_int_def)
      ultimately show False using False by simp
    qed
    with d have a: "sint a = res sdiv sint b"
      unfolding go_div_def res_def [symmetric] by (metis sint_of_int)
    obtain k where k: "res = sint a * sint b + k * 2 ^ 64"
      unfolding res_def sint_ops using wrap64_mod by blast
    have "res sdiv sint b * sint b + res smod sint b = res" by (rule sdiv_mult_smod_eq)
    with k a have "k * 2 ^ 64 = res smod sint b" by simp
    then have "\<bar>k\<bar> * 2 ^ 64 < \<bar>sint b\<bar>" using smod_less [OF b0, of res] by (simp add: abs_mult)
    then have "k = 0" using int64_bounds [of b] by (cases "k = 0") auto
    then show "in_int64 (sint a * sint b)" using k res by simp
  qed
  then show ?thesis using False unfolding mulInt_def Let_def w by (simp only: if_False if_cancel not_not split: if_splits) blast
qed

text \<open>An integer as an \<open>int64\<close>, where it is one.\<close>

definition checked64 :: "int \<Rightarrow> int64 option" where
  "checked64 i = (if in_int64 i then Some (word_of_int i) else None)"

lemma checked64_eq_None [simp]: "checked64 i = None \<longleftrightarrow> \<not> in_int64 i"
  by (simp add: checked64_def)

lemma checked64_eq_Some: "checked64 i = Some x \<longleftrightarrow> sint x = i"
  by (auto simp: checked64_def sint_of_int)

lemma checked64_sint [simp]: "checked64 (sint a) = Some a"
  by (simp add: checked64_eq_Some)

lemma mulInt_checked: "mulInt a b = checked64 (sint a * sint b)"
  by (simp add: mulInt_exact checked64_def)

lemma abs_mult_power_ge:
  assumes "(x :: int) \<noteq> 0" shows "\<bar>y\<bar> \<le> \<bar>y * x ^ m\<bar>"
proof -
  have "1 \<le> \<bar>x\<bar> ^ m" by (rule one_le_power) (use assms in linarith)
  then show ?thesis by (simp add: abs_mult power_abs mult_le_cancel_left1)
qed

lemma leaves_int64:
  assumes "\<not> in_int64 r" "y = r \<or> y \<noteq> 0 \<and> 2 * \<bar>r\<bar> \<le> \<bar>y\<bar>"
  shows "\<not> in_int64 y"
  using assms unfolding in_int64_iff by auto

lemma square_not_bound: "(x :: int) * x \<noteq> 9223372036854775808"
proof
  assume h: "x * x = 9223372036854775808"
  have "\<bar>x\<bar> \<le> 3037000499 \<or> 3037000500 \<le> \<bar>x\<bar>" by linarith
  then show False
  proof
    assume "\<bar>x\<bar> \<le> 3037000499"
    then have "\<bar>x\<bar> * \<bar>x\<bar> \<le> 3037000499 * 3037000499" by (intro mult_mono) auto
    then show False using h by simp
  next
    assume "3037000500 \<le> \<bar>x\<bar>"
    then have "3037000500 * 3037000500 \<le> \<bar>x\<bar> * \<bar>x\<bar>" by (intro mult_mono) auto
    then show False using h by simp
  qed
qed

lemma product_leaves:
  assumes r: "\<not> in_int64 (r * x)" shows "\<not> in_int64 (r * x * (x * x) ^ m)"
proof (cases "m = 0 \<or> \<bar>x\<bar> = 1")
  case True
  then have "(x * x) ^ m = 1" by (auto simp: abs_if split: if_splits)
  then show ?thesis using r by simp
next
  case False
  have x: "x \<noteq> 0" using r by (auto simp: in_int64_iff)
  then have "2 * 2 \<le> \<bar>x\<bar> * \<bar>x\<bar>" using False by (intro mult_mono) auto
  then have "2 \<le> x * x" by simp
  obtain k where m: "m = Suc k" using False by (cases m) auto
  have "\<bar>r * x * (x * x)\<bar> \<le> \<bar>r * x * (x * x) * (x * x) ^ k\<bar>" using x by (intro abs_mult_power_ge) simp
  moreover have "\<bar>r * x\<bar> * 2 \<le> \<bar>r * x\<bar> * \<bar>x * x\<bar>" using \<open>2 \<le> x * x\<close> by (intro mult_left_mono) auto
  ultimately have "2 * \<bar>r * x\<bar> \<le> \<bar>r * x * (x * x) ^ m\<bar>" by (simp add: m abs_mult mult.assoc)
  then show ?thesis using r by (intro leaves_int64 [OF r]) (auto simp: in_int64_iff)
qed

lemma square_leaves:
  assumes "\<not> in_int64 (x * x)" "r \<noteq> 0" "0 < m" shows "\<not> in_int64 (r * (x * x) ^ m)"
proof -
  have x: "x * x \<noteq> 0" and b: "9223372036854775808 < x * x"
    using assms(1) square_not_bound [of x] zero_le_square [of x] unfolding in_int64_iff by linarith+
  obtain k where m: "m = Suc k" using assms(3) by (cases m) auto
  have "1 * (x * x) \<le> \<bar>r\<bar> * (x * x)" using assms(2) by (intro mult_right_mono) auto
  also have "\<dots> \<le> \<bar>r * (x * x) * (x * x) ^ k\<bar>" using abs_mult_power_ge [OF x, of "r * (x * x)" k] by (simp add: abs_mult)
  finally show ?thesis using b unfolding in_int64_iff by (simp add: m mult.assoc) linarith
qed

lemma intPow_loop_exact:
  "sint res \<noteq> 0 \<or> sint a = 0 \<Longrightarrow> intPow_loop res a n = checked64 (sint res * sint a ^ n)"
proof (induction res a n rule: intPow_loop.induct)
  case (1 res a n)
  define r where "r = sint res * (if odd n then sint a else 1)"
  have total: "sint res * sint a ^ n = r * (sint a * sint a) ^ (n div 2)"
    unfolding r_def by (simp add: mult.assoc power_mult_distrib power2_eq_square [symmetric] flip: power_mult power_Suc)
  have step: "(if odd n then mulInt res a else Some res) = checked64 r"
    by (simp add: r_def mulInt_checked)
  show ?case
  proof (cases "n = 0")
    case True
    then show ?thesis by (simp add: intPow_loop.simps [of res a 0])
  next
    case n: False
    show ?thesis
    proof (cases "checked64 r")
      case None
      then have "odd n" "\<not> in_int64 (sint res * sint a)" by (auto simp: r_def split: if_splits)
      then have "\<not> in_int64 (sint res * sint a ^ n)" unfolding total r_def using product_leaves by simp
      then show ?thesis unfolding intPow_loop.simps [of res a n] step None using n by (simp add: checked64_def)
    next
      case (Some res')
      then have res': "sint res' = r" by (simp add: checked64_eq_Some)
      show ?thesis
      proof (cases "n div 2 = 0")
        case True
        then show ?thesis unfolding intPow_loop.simps [of res a n] step Some total using n by (simp flip: res')
      next
        case half: False
        show ?thesis
        proof (cases "mulInt a a")
          case None
          then have sq: "\<not> in_int64 (sint a * sint a)" by (simp add: mulInt_checked)
          then have "sint a \<noteq> 0" by (auto simp: in_int64_iff)
          then have "r \<noteq> 0" using "1.prems" by (simp add: r_def)
          then have "\<not> in_int64 (sint res * sint a ^ n)" unfolding total using square_leaves sq half by simp
          then show ?thesis unfolding intPow_loop.simps [of res a n] step Some using n half None by (simp add: checked64_def)
        next
          case (Some a')
          then have a': "sint a' = sint a * sint a" by (simp add: mulInt_checked checked64_eq_Some)
          have "sint res' \<noteq> 0 \<or> sint a' = 0" using "1.prems" by (auto simp: res' a' r_def)
          from "1.IH" [OF n step [unfolded \<open>checked64 r = Some res'\<close>] half Some this]
          have "intPow_loop res' a' (n div 2) = checked64 (r * (sint a * sint a) ^ (n div 2))"
            by (simp only: res' a')
          then show ?thesis
            unfolding intPow_loop.simps [of res a n] step \<open>checked64 r = Some res'\<close> total
            using n half Some by simp
        qed
      qed
    qed
  qed
qed

lemma intPow_exact: "intPow a n = checked64 (sint a ^ nat (sint n))"
  by (simp add: intPow_def intPow_loop_exact)

lemma gcd64_exact:
  "0 \<le> sint a \<Longrightarrow> 0 \<le> sint b \<Longrightarrow> sint (gcd64 a b) = (if a = 0 \<and> b = 0 then 1 else gcd (sint a) (sint b))"
proof (induction a b rule: gcd64.induct)
  case (1 a b)
  have "sint (go_rem a b) = sint a mod sint b"
    using "1.prems" by (simp add: sint_go_rem smod_mod_positive)
  moreover have "0 \<le> sint a mod sint b" if "b \<noteq> 0"
    using that "1.prems" by (metis order_le_less pos_mod_sign sint_0_iff)
  moreover have "gcd64 a 0 = (if a = 0 then 1 else a)" by (simp add: gcd64.simps [of a 0])
  ultimately show ?case
    using "1.IH" "1.prems" by (cases "b = 0") (auto simp: gcd64.simps [of a b] gcd_red_int [of "sint a"])
qed

end
