(* ===== verification/Exact_Values.thy ===== *)
theory Exact_Values
  imports Go_Int64 Go_Numbers Complex_Main
begin

text \<open>
  The exact numbers of the evaluator, \<open>semantics.Value\<close> (\<open>internal/semantic/semantics/eval.go\<close>,
  \<open>integer.go\<close>, \<open>rational.go\<close>): an Integer or a Rational of any size, held in machine words when
  it fits and in a \<open>big.Rat\<close> otherwise. \<open>big.Int\<close> is \<open>int\<close> and \<open>big.Rat\<close> is \<open>rat\<close>, whose
  \<open>quotient_of\<close> gives the numerator and the denominator in lowest terms. A Real is the 64 bits of
  its IEEE 754 binary64; the operations here leave it alone.

  \<open>number\<close> is the invariant of the representation: each number has one, so that two numbers of
  one kind are equal just when the records are (\<open>number_unique\<close>).
\<close>

datatype OperatorKind =
  OpInvalid | OpConditional | OpNullCoalesce | OpImplies | OpOr | OpConditionalOr | OpXor | OpAnd
  | OpConditionalAnd | OpEq | OpNeq | OpEqEqEq | OpNeqEqEq | OpHasType | OpIsType | OpAt | OpMetaAt
  | OpAs | OpMeta | OpLt | OpGt | OpLe | OpGe | OpRange | OpAdd | OpSub | OpMul | OpDiv | OpMod
  | OpPow | OpNeg | OpPos | OpBitNot | OpNot | OpAll | OpIndex

datatype ValueKind = ValInvalid | ValInt | ValReal | ValBool | ValInfinity | ValRational

record Value =
  Kind :: ValueKind
  BoolV :: bool
  den :: "32 word"
  IntV :: int64
  RealV :: "64 word"
  ext :: "rat option"

definition no_Value :: Value where
  "no_Value = \<lparr>Kind = ValInvalid, BoolV = False, den = 0, IntV = 0, RealV = 0, ext = None\<rparr>"

text \<open>The errors, with the bits the two size errors report.\<close>

datatype num_error =
  ErrIntegerSizeLimit int
  | ErrRationalSizeLimit int
  | ErrDivisionByZero
  | ErrArithmeticDomain
  | ErrRealNotation

type_synonym 'a num_result = "num_error + 'a"

definition MinMaxIntegerBits :: int where
  "MinMaxIntegerBits = 64"

section \<open>math/big\<close>

abbreviation Num :: "rat \<Rightarrow> int" where "Num r \<equiv> fst (quotient_of r)"
abbreviation Denom :: "rat \<Rightarrow> int" where "Denom r \<equiv> snd (quotient_of r)"

fun bits_of :: "nat \<Rightarrow> nat" where
  "bits_of n = (if n = 0 then 0 else Suc (bits_of (n div 2)))"

declare bits_of.simps [simp del]

definition BitLen :: "int \<Rightarrow> int" where
  "BitLen i = int (bits_of (nat \<bar>i\<bar>))"

definition sign_of :: "'a :: linordered_idom \<Rightarrow> int" where
  "sign_of x = (if x < 0 then - 1 else if 0 < x then 1 else 0)"

section \<open>Integers: IntValue, BigIntValue and the views\<close>

definition IntValue :: "int64 \<Rightarrow> Value" where
  "IntValue i = no_Value\<lparr>Kind := ValInt, IntV := i\<rparr>"

definition BigIntValue :: "int \<Rightarrow> Value" where
  "BigIntValue b =
     (if in_int64 b then no_Value\<lparr>Kind := ValInt, IntV := word_of_int b\<rparr>
      else no_Value\<lparr>Kind := ValInt, ext := Some (of_int b)\<rparr>)"

definition IsBigInt :: "Value \<Rightarrow> bool" where
  "IsBigInt v = (Kind v = ValInt \<and> ext v \<noteq> None)"

definition Int64 :: "Value \<Rightarrow> int64 option" where
  "Int64 v = (if Kind v \<noteq> ValInt \<or> ext v \<noteq> None then None else Some (IntV v))"

definition bigView :: "Value \<Rightarrow> int" where
  "bigView v = (case ext v of Some r \<Rightarrow> Num r | None \<Rightarrow> sint (IntV v))"

definition BigInt :: "Value \<Rightarrow> int" where
  "BigInt v = (case ext v of Some r \<Rightarrow> Num r | None \<Rightarrow> sint (IntV v))"

definition BigIntView :: "Value \<Rightarrow> int option" where
  "BigIntView v = (case ext v of None \<Rightarrow> None | Some r \<Rightarrow> Some (Num r))"

definition IntSign :: "Value \<Rightarrow> int" where
  "IntSign v =
     (case ext v of
        Some r \<Rightarrow> sign_of (Num r)
      | None \<Rightarrow> if go_less (IntV v) 0 then - 1 else if go_less 0 (IntV v) then 1 else 0)"

definition IntBitLen :: "Value \<Rightarrow> int" where
  "IntBitLen v =
     (case ext v of
        Some r \<Rightarrow> BitLen (Num r)
      | None \<Rightarrow>
          if IntV v = MinInt64 then 64
          else let n = IntV v; n = (if go_less n 0 then - n else n) in BitLen (sint n))"

definition FormatInt :: "Value \<Rightarrow> string" where
  "FormatInt v = (case ext v of Some r \<Rightarrow> int_text (Num r) | None \<Rightarrow> int_text (sint (IntV v)))"

section \<open>Rationals: RatValue and the views\<close>

definition MaxUint32 :: int where
  "MaxUint32 = 2 ^ 32 - 1"

definition RatValue :: "rat \<Rightarrow> Value" where
  "RatValue r =
     (if in_int64 (Num r) \<and> word_of_int (Num r) \<noteq> MinInt64 \<and> 0 \<le> Denom r \<and> Denom r < 2 ^ 64 \<and> Denom r \<le> MaxUint32
      then no_Value\<lparr>Kind := ValRational, IntV := word_of_int (Num r), den := word_of_int (Denom r)\<rparr>
      else no_Value\<lparr>Kind := ValRational, ext := Some r\<rparr>)"

definition smallRat :: "int64 \<Rightarrow> int64 \<Rightarrow> Value option" where
  "smallRat num d =
     (if num = MinInt64 \<or> d = MinInt64 then None
      else
        let (num, d) = (if go_less d 0 then (- num, - d) else (num, d));
            g = gcd64 (abs64 num) d;
            (num, d) = (if go_less 1 g then (go_div num g, go_div d g) else (num, d))
        in if go_less (word_of_int MaxUint32) d then None
           else Some (no_Value\<lparr>Kind := ValRational, IntV := num, den := ucast d\<rparr>))"

definition FracValue :: "int64 \<Rightarrow> int64 \<Rightarrow> Value option" where
  "FracValue num d =
     (if d = 0 then None
      else case smallRat num d of
        Some v \<Rightarrow> Some v
      | None \<Rightarrow> Some (RatValue (of_int (sint num) / of_int (sint d))))"

definition IsRational :: "Value \<Rightarrow> bool" where
  "IsRational v = (Kind v = ValRational)"

definition IsExact :: "Value \<Rightarrow> bool" where
  "IsExact v = (Kind v = ValInt \<or> Kind v = ValRational)"

definition ratView :: "Value \<Rightarrow> rat" where
  "ratView v =
     (case ext v of
        Some r \<Rightarrow> r
      | None \<Rightarrow>
          if Kind v = ValRational then of_int (sint (IntV v)) / of_int (sint (ucast (den v) :: int64))
          else of_int (sint (IntV v)))"

definition Rat :: "Value \<Rightarrow> rat" where
  "Rat v = ratView v"

definition small :: "Value \<Rightarrow> (int64 \<times> int64) option" where
  "small v =
     (if Kind v = ValRational \<and> ext v = None then Some (IntV v, ucast (den v))
      else if Kind v = ValInt \<and> ext v = None \<and> IntV v \<noteq> MinInt64 then Some (IntV v, 1)
      else None)"

definition RatNumer :: "Value \<Rightarrow> Value" where
  "RatNumer v =
     (case small v of
        Some (num, _) \<Rightarrow> IntValue num
      | None \<Rightarrow> if Kind v = ValInt then v else BigIntValue (Num (the (ext v))))"

definition RatDenom :: "Value \<Rightarrow> Value" where
  "RatDenom v =
     (case small v of
        Some (_, d) \<Rightarrow> IntValue d
      | None \<Rightarrow> if Kind v = ValInt then IntValue 1 else BigIntValue (Denom (the (ext v))))"

definition RatSign :: "Value \<Rightarrow> int" where
  "RatSign v =
     (if Kind v = ValInt then IntSign v
      else case ext v of
        Some r \<Rightarrow> sign_of r
      | None \<Rightarrow> if go_less (IntV v) 0 then - 1 else if go_less 0 (IntV v) then 1 else 0)"

definition RatBitLen :: "Value \<Rightarrow> int" where
  "RatBitLen v =
     (case small v of
        Some (num, d) \<Rightarrow> int (bits_of (unat (abs64 num)) + bits_of (unat d))
      | None \<Rightarrow> let r = ratView v in BitLen (Num r) + BitLen (Denom r))"

definition RatIsWhole :: "Value \<Rightarrow> bool" where
  "RatIsWhole v =
     (if Kind v = ValInt then True
      else case ext v of Some r \<Rightarrow> Denom r = 1 | None \<Rightarrow> den v = 1)"

section \<open>Pack and Unpack\<close>

text \<open>A value in three words, the same bits for an Integer, a Real or a Boolean.\<close>

record Packed =
  PKind :: ValueKind
  PDen :: "32 word"
  PBits :: "64 word"
  PExt :: "rat option"

definition Pack :: "Value \<Rightarrow> Packed" where
  "Pack v =
     \<lparr>PKind = Kind v, PDen = den v,
      PBits =
        (case Kind v of
           ValReal \<Rightarrow> RealV v
         | ValBool \<Rightarrow> if BoolV v then 1 else 0
         | _ \<Rightarrow> IntV v),
      PExt = ext v\<rparr>"

definition Unpack :: "Packed \<Rightarrow> Value" where
  "Unpack p =
     (let v = no_Value\<lparr>Kind := PKind p, den := PDen p, ext := PExt p\<rparr>
      in case PKind p of
           ValReal \<Rightarrow> v\<lparr>RealV := PBits p\<rparr>
         | ValBool \<Rightarrow> v\<lparr>BoolV := PBits p \<noteq> 0\<rparr>
         | _ \<Rightarrow> v\<lparr>IntV := PBits p\<rparr>)"

section \<open>The representation invariant\<close>

definition fits_small :: "rat \<Rightarrow> bool" where
  "fits_small r = (- (2 ^ 63) < Num r \<and> Num r < 2 ^ 63 \<and> Denom r < 2 ^ 32)"

definition number :: "Value \<Rightarrow> bool" where
  "number v =
     (\<not> BoolV v \<and> RealV v = 0 \<and>
      (case Kind v of
         ValInt \<Rightarrow>
           den v = 0 \<and>
           (case ext v of None \<Rightarrow> True | Some r \<Rightarrow> Denom r = 1 \<and> \<not> in_int64 (Num r) \<and> IntV v = 0)
       | ValRational \<Rightarrow>
           (case ext v of
              None \<Rightarrow> den v \<noteq> 0 \<and> coprime (sint (IntV v)) (uint (den v)) \<and> IntV v \<noteq> MinInt64
            | Some r \<Rightarrow> \<not> fits_small r \<and> IntV v = 0 \<and> den v = 0)
       | _ \<Rightarrow> False))"

abbreviation Integer :: "Value \<Rightarrow> bool" where
  "Integer v \<equiv> number v \<and> Kind v = ValInt"

abbreviation Rational :: "Value \<Rightarrow> bool" where
  "Rational v \<equiv> number v \<and> Kind v = ValRational"

section \<open>Bits and terms\<close>

declare of_int_sint [simp del] of_int_uint [simp del]

lemma bits_of_le_iff: "bits_of n \<le> k \<longleftrightarrow> n < 2 ^ k"
proof (induction n arbitrary: k rule: bits_of.induct)
  case (1 n)
  show ?case
  proof (cases "n = 0")
    case n: False
    then have b: "bits_of n = Suc (bits_of (n div 2))" by (simp add: bits_of.simps [of n])
    show ?thesis
    proof (cases k)
      case (Suc j)
      have "n div 2 < 2 ^ j \<longleftrightarrow> n < 2 ^ Suc j" by (simp add: div_less_iff_less_mult mult.commute)
      then show ?thesis using 1 [OF n, of j] by (simp add: b Suc)
    qed (use n b in simp)
  qed (simp add: bits_of.simps)
qed

lemma bits_of_gr_iff: "k < bits_of n \<longleftrightarrow> 2 ^ k \<le> n"
  using bits_of_le_iff [of n k] by linarith

lemma bits_of_0 [simp]: "bits_of 0 = 0"
  by (simp add: bits_of.simps)

lemma bits_of_1 [simp]: "bits_of (Suc 0) = 1"
  by (simp add: bits_of.simps)

lemma bits_of_numeral: "bits_of (numeral k) = Suc (bits_of (numeral k div 2))"
  by (simp add: bits_of.simps [of "numeral k"])

lemma bits_of_0_iff [simp]: "bits_of n = 0 \<longleftrightarrow> n = 0"
  by (subst bits_of.simps) simp

lemma BitLen_le_iff: "BitLen i \<le> int k \<longleftrightarrow> \<bar>i\<bar> < 2 ^ k"
proof -
  have "BitLen i \<le> int k \<longleftrightarrow> nat \<bar>i\<bar> < nat (2 ^ k)"
    by (simp add: BitLen_def bits_of_le_iff nat_power_eq)
  then show ?thesis by linarith
qed

lemma BitLen_gr_iff: "int k < BitLen i \<longleftrightarrow> 2 ^ k \<le> \<bar>i\<bar>"
  using BitLen_le_iff [of i k] by linarith

lemma BitLen_nonneg [simp]: "0 \<le> BitLen i"
  by (simp add: BitLen_def)

lemma BitLen_minus [simp]: "BitLen (- i) = BitLen i"
  by (simp add: BitLen_def)

lemma BitLen_abs [simp]: "BitLen \<bar>i\<bar> = BitLen i"
  by (simp add: BitLen_def)

lemma BitLen_int64: "in_int64 i \<Longrightarrow> BitLen i \<le> 64"
  using BitLen_le_iff [of i 64] by (auto simp: in_int64_iff)

lemma Denom_pos [simp]: "0 < Denom r"
  by (rule quotient_of_denom_pos')

lemma coprime_Num_Denom [simp]: "coprime (Num r) (Denom r)"
  using quotient_of_coprime [of r] by (cases "quotient_of r") simp

lemma Num_Denom: "of_int (Num r) / of_int (Denom r) = r"
  by (metis quotient_of_div prod.collapse)

lemma quotient_of_coprime_div:
  assumes "coprime a b" "0 < b" shows "quotient_of (of_int a / of_int b) = (a, b)"
  using assms by (simp add: Fract_of_int_quotient [symmetric] quotient_of_Fract Rat.normalize_def Let_def)

lemma Denom_1_iff: "Denom r = 1 \<longleftrightarrow> r = of_int (Num r)"
proof
  assume "Denom r = 1"
  then show "r = of_int (Num r)" using Num_Denom [of r] by simp
next
  assume *: "r = of_int (Num r)"
  show "Denom r = 1" by (subst *) simp
qed

lemma uint_den_range: "0 \<le> uint (d :: 32 word)" "uint d < 4294967296"
  using uint_lt2p [of d] by simp_all

lemma sint_den [simp]: "sint (ucast (d :: 32 word) :: int64) = uint d"
proof -
  have "in_int64 (uint d)" using uint_den_range [of d] unfolding in_int64_iff by linarith
  then show ?thesis using sint_of_int [of "uint d"] by (simp add: of_int_uint)
qed

lemma sign_of_cases:
  "sign_of x = - 1 \<longleftrightarrow> x < 0" "sign_of x = 1 \<longleftrightarrow> 0 < x" "sign_of x = 0 \<longleftrightarrow> x = 0"
  by (auto simp: sign_of_def)

lemma sign_of_of_int [simp]: "sign_of (of_int i :: rat) = sign_of i"
  by (simp add: sign_of_def)

lemma sign_of_Num: "sign_of (Num r) = sign_of r"
proof -
  have "sign_of r = sign_of (of_int (Num r) / of_int (Denom r) :: rat)" by (simp only: Num_Denom)
  also have "\<dots> = sign_of (Num r)" using Denom_pos [of r] less_asym [OF Denom_pos [of r]]
    by (auto simp: sign_of_def zero_less_divide_iff divide_less_0_iff)
  finally show ?thesis by simp
qed

lemma sign_of_word: "(if go_less i 0 then - 1 else if go_less 0 i then 1 else 0) = sign_of (sint i)"
  by (simp add: sign_of_def go_less_def not_less)

section \<open>What a value holds\<close>

lemma IntValue_sels [simp]:
  "Kind (IntValue i) = ValInt" "BoolV (IntValue i) = False" "den (IntValue i) = 0"
  "IntV (IntValue i) = i" "RealV (IntValue i) = 0" "ext (IntValue i) = None"
  by (simp_all add: IntValue_def no_Value_def)

lemma Integer_IntValue [simp]: "number (IntValue i)"
  by (simp add: number_def)

lemma bigView_IntValue [simp]: "bigView (IntValue i) = sint i"
  by (simp add: bigView_def)

lemma BigIntValue_small: "in_int64 b \<Longrightarrow> BigIntValue b = IntValue (word_of_int b)"
  by (simp add: BigIntValue_def IntValue_def)

lemma BigIntValue_sint [simp]: "BigIntValue (sint i) = IntValue i"
  by (simp add: BigIntValue_small)

lemma Integer_BigIntValue [simp]: "number (BigIntValue b)" "Kind (BigIntValue b) = ValInt"
  by (auto simp: BigIntValue_def number_def no_Value_def)

lemma bigView_BigIntValue [simp]: "bigView (BigIntValue b) = b"
  by (auto simp: BigIntValue_def bigView_def no_Value_def sint_of_int)

lemma BigInt_bigView [simp]: "BigInt v = bigView v"
  by (simp add: BigInt_def bigView_def)

lemma IntegerD:
  assumes "Integer v"
  shows "\<not> BoolV v" "RealV v = 0" "den v = 0" "Kind v = ValInt"
    "ext v = Some r \<Longrightarrow> Denom r = 1 \<and> \<not> in_int64 (Num r) \<and> IntV v = 0"
proof -
  have n: "number v" and k: "Kind v = ValInt" using assms by blast+
  show "Kind v = ValInt" by (rule k)
  from n show "\<not> BoolV v" "RealV v = 0" "den v = 0"
    "ext v = Some r \<Longrightarrow> Denom r = 1 \<and> \<not> in_int64 (Num r) \<and> IntV v = 0"
    by (simp_all add: number_def k)
qed

lemma RationalD:
  assumes "Rational v"
  shows "\<not> BoolV v" "RealV v = 0" "Kind v = ValRational"
    "ext v = None \<Longrightarrow> 0 < uint (den v)" "ext v = None \<Longrightarrow> coprime (sint (IntV v)) (uint (den v))"
    "ext v = None \<Longrightarrow> IntV v \<noteq> MinInt64"
    "ext v = Some r \<Longrightarrow> \<not> fits_small r \<and> IntV v = 0 \<and> den v = 0"
proof -
  have n: "number v" and k: "Kind v = ValRational" using assms by blast+
  show "Kind v = ValRational" by (rule k)
  from n show "\<not> BoolV v" "RealV v = 0" "ext v = None \<Longrightarrow> coprime (sint (IntV v)) (uint (den v))"
    "ext v = None \<Longrightarrow> IntV v \<noteq> MinInt64" "ext v = Some r \<Longrightarrow> \<not> fits_small r \<and> IntV v = 0 \<and> den v = 0"
    by (simp_all add: number_def k)
  from n show "ext v = None \<Longrightarrow> 0 < uint (den v)"
    by (simp add: number_def k) (metis uint_den_range(1) order_le_less uint_0_iff)
qed

text \<open>Each Integer is \<open>BigIntValue\<close> of the integer it is.\<close>

lemma Integer_eq: "Integer v \<Longrightarrow> v = BigIntValue (bigView v)"
proof -
  assume v: "Integer v"
  note d = IntegerD [OF v]
  show ?thesis
  proof (cases "ext v")
    case None
    then have "bigView v = sint (IntV v)" by (simp add: bigView_def)
    then show ?thesis using d(1-4) None by (cases v) (simp add: IntValue_def no_Value_def)
  next
    case (Some r)
    then have r: "Denom r = 1" "\<not> in_int64 (Num r)" "IntV v = 0" using d(5) by blast+
    have b: "bigView v = Num r" using Some by (simp add: bigView_def)
    from r(1) have "of_int (Num r) = r" using Denom_1_iff by metis
    then show ?thesis using d(1-4) r Some unfolding b by (cases v) (simp add: BigIntValue_def no_Value_def)
  qed
qed

lemma ratView_Integer: "Integer v \<Longrightarrow> ratView v = of_int (bigView v)"
proof -
  assume v: "Integer v"
  show ?thesis
  proof (cases "ext v")
    case (Some r)
    then have "Denom r = 1" using IntegerD [OF v] by blast
    then show ?thesis using Some Denom_1_iff [of r] by (simp add: ratView_def bigView_def)
  qed (use IntegerD(4) [OF v] in \<open>simp add: ratView_def bigView_def\<close>)
qed

lemma IntSign_eq: "IntSign v = sign_of (bigView v)"
  unfolding IntSign_def bigView_def sign_of_word by (simp split: option.split)

lemma FormatInt_eq: "FormatInt v = int_text (bigView v)"
  by (simp add: FormatInt_def bigView_def split: option.split)

lemma sint_minus: "a \<noteq> MinInt64 \<Longrightarrow> sint (- a) = - sint a"
proof -
  assume "a \<noteq> MinInt64"
  then have "sint a \<noteq> - 9223372036854775808" using sint_inj [of a MinInt64] by simp
  then have "in_int64 (- sint a)" using int64_bounds [of a] unfolding in_int64_iff by linarith
  then show ?thesis by (simp add: sint_ops wrap64_id)
qed

lemma sint_abs64: "a \<noteq> MinInt64 \<Longrightarrow> sint (abs64 a) = \<bar>sint a\<bar>"
  by (simp add: abs64_def sint_minus)

lemma IntBitLen_eq: "IntBitLen v = BitLen (bigView v)"
proof (cases "ext v")
  case None
  have "BitLen (- (2 ^ 63)) = 64" using BitLen_gr_iff [of 63 "- (2 ^ 63)"] BitLen_le_iff [of "- (2 ^ 63)" 64] by simp
  then show ?thesis using None by (simp add: IntBitLen_def bigView_def Let_def sint_minus go_less_def)
qed (simp add: IntBitLen_def bigView_def)

lemma fits_small_iff:
  "fits_small r \<longleftrightarrow>
     in_int64 (Num r) \<and> word_of_int (Num r) \<noteq> MinInt64 \<and> 0 \<le> Denom r \<and> Denom r < 2 ^ 64 \<and> Denom r \<le> MaxUint32"
proof -
  have "(word_of_int (Num r) \<noteq> MinInt64) = (Num r \<noteq> - (2 ^ 63))" if "in_int64 (Num r)"
    using sint_inj [of "word_of_int (Num r)" MinInt64] that by (simp add: sint_of_int)
  then show ?thesis using less_imp_le [OF Denom_pos [of r]] unfolding fits_small_def MaxUint32_def in_int64_def by auto
qed

lemma small_terms:
  assumes "fits_small r"
  shows "sint (word_of_int (Num r) :: int64) = Num r" "uint (word_of_int (Denom r) :: 32 word) = Denom r"
proof -
  show "sint (word_of_int (Num r) :: int64) = Num r" using assms by (intro sint_of_int) (simp add: fits_small_iff)
  show "uint (word_of_int (Denom r) :: 32 word) = Denom r"
    using assms less_imp_le [OF Denom_pos [of r]] by (simp add: fits_small_def uint_word_of_int)
qed

lemma RatValue_eq:
  "RatValue r =
     (if fits_small r then no_Value\<lparr>Kind := ValRational, IntV := word_of_int (Num r), den := word_of_int (Denom r)\<rparr>
      else no_Value\<lparr>Kind := ValRational, ext := Some r\<rparr>)"
  unfolding RatValue_def fits_small_iff by (rule refl)

lemma Kind_RatValue [simp]: "Kind (RatValue r) = ValRational"
  by (simp add: RatValue_eq no_Value_def)

lemma ratView_RatValue [simp]: "ratView (RatValue r) = r"
  by (simp add: RatValue_eq no_Value_def ratView_def small_terms Num_Denom)

lemma number_RatValue [simp]: "number (RatValue r)"
proof (cases "fits_small r")
  case True
  have "uint (word_of_int (Denom r) :: 32 word) \<noteq> 0" unfolding small_terms(2) [OF True] using Denom_pos [of r] by linarith
  then have "word_of_int (Denom r) \<noteq> (0 :: 32 word)" by auto
  then show ?thesis using True by (simp add: RatValue_eq no_Value_def number_def small_terms) (simp add: fits_small_iff)
qed (simp add: RatValue_eq no_Value_def number_def)

lemma ratView_small:
  assumes "Rational v" "ext v = None"
  shows "Num (ratView v) = sint (IntV v)" "Denom (ratView v) = uint (den v)" "fits_small (ratView v)"
proof -
  note d = RationalD [OF assms(1)]
  have "quotient_of (ratView v) = (sint (IntV v), uint (den v))"
    using assms(2) d(3-5) by (simp add: ratView_def quotient_of_coprime_div)
  then show n: "Num (ratView v) = sint (IntV v)" and e: "Denom (ratView v) = uint (den v)" by simp_all
  have "sint (IntV v) \<noteq> - 9223372036854775808" using assms(2) d(6) sint_inj [of "IntV v" MinInt64] by simp
  then show "fits_small (ratView v)"
    using int64_bounds [of "IntV v"] uint_den_range [of "den v"] unfolding fits_small_def n e by simp
qed

text \<open>Each Rational is \<open>RatValue\<close> of the rational it is.\<close>

lemma Rational_eq: "Rational v \<Longrightarrow> v = RatValue (ratView v)"
proof -
  assume v: "Rational v"
  show ?thesis
  proof (cases "ext v")
    case None
    note s = ratView_small [OF v None]
    have "word_of_int (Num (ratView v)) = IntV v" "word_of_int (Denom (ratView v)) = den v" by (simp_all add: s of_int_uint)
    then show ?thesis using RationalD(1-3) [OF v] None s(3) unfolding RatValue_eq no_Value_def
      by (intro Value.equality) simp_all
  next
    case (Some r)
    then have "\<not> fits_small r \<and> IntV v = 0 \<and> den v = 0" "ratView v = r"
      using RationalD(7) [OF v] by (simp_all add: ratView_def)
    then show ?thesis using RationalD(1-3) [OF v] Some by (cases v) (simp add: RatValue_eq no_Value_def)
  qed
qed

lemma number_cases: "number v \<Longrightarrow> Kind v = ValInt \<or> Kind v = ValRational"
  by (cases "Kind v") (simp_all add: number_def)

lemma number_unique:
  assumes "number v" "number w" shows "v = w \<longleftrightarrow> Kind v = Kind w \<and> ratView v = ratView w"
proof (intro iffI conjI; (elim conjE)?)
  assume k: "Kind v = Kind w" and r: "ratView v = ratView w"
  show "v = w" using number_cases [OF assms(1)]
  proof
    assume "Kind v = ValInt"
    then have "Integer v" "Integer w" using assms k by simp_all
    then show ?thesis using Integer_eq r by (metis of_int_eq_iff ratView_Integer)
  next
    assume "Kind v = ValRational"
    then show ?thesis using assms k r Rational_eq by metis
  qed
qed simp_all

section \<open>Terms that fit a machine word\<close>

lemma small_Integer:
  "Integer v \<Longrightarrow> small v = Some (n, d) \<Longrightarrow> v = IntValue n \<and> d = 1 \<and> n \<noteq> MinInt64 \<and> sint n = bigView v"
  using Integer_eq [of v] by (auto simp: small_def bigView_def split: if_splits)

lemma small_terms_of:
  assumes "number v" "small v = Some (n, d)"
  shows "sint n = Num (ratView v)" "sint d = Denom (ratView v)" "n \<noteq> MinInt64" "0 < sint d" "sint d < 4294967296"
proof -
  have "sint n = Num (ratView v) \<and> sint d = Denom (ratView v) \<and> n \<noteq> MinInt64 \<and> sint d < 4294967296"
    using number_cases [OF assms(1)]
  proof
    assume "Kind v = ValInt"
    then have v: "Integer v" using assms by simp
    note s = small_Integer [OF v assms(2)]
    have r: "ratView v = of_int (sint n)" using ratView_Integer [OF v] s by metis
    have d: "d = 1" and n: "n \<noteq> MinInt64" using s by blast+
    show ?thesis unfolding r d using n by simp
  next
    assume k: "Kind v = ValRational"
    then have v: "Rational v" using assms by simp
    have e: "ext v = None" and nd: "n = IntV v" "d = ucast (den v)" using assms(2) k by (simp_all add: small_def split: if_splits)
    show ?thesis using ratView_small [OF v e] RationalD(6) [OF v e] uint_den_range(2) [of "den v"] by (simp add: nd)
  qed
  then show "sint n = Num (ratView v)" "sint d = Denom (ratView v)" "n \<noteq> MinInt64" "sint d < 4294967296" by simp_all
  then show "0 < sint d" by simp
qed

lemma small_ratView:
  assumes "number v" "small v = Some (n, d)"
  shows "ratView v = of_int (sint n) / of_int (sint d)"
  by (simp only: small_terms_of [OF assms] Num_Denom)

lemma small_None:
  assumes "number v" "small v = None"
  shows "Kind v = ValInt \<or> (Kind v = ValRational \<and> ext v = Some (ratView v))"
  using number_cases [OF assms(1)] assms(2) by (auto simp: small_def ratView_def split: if_splits)

lemma RatNumer_eq:
  assumes "number v" shows "RatNumer v = BigIntValue (Num (ratView v))"
proof (cases "small v")
  case None
  then show ?thesis
    using small_None [OF assms None] Integer_eq [of v] ratView_Integer [of v] assms by (auto simp: RatNumer_def)
next
  case (Some p)
  then obtain n d where "small v = Some (n, d)" by (cases p) simp
  then show ?thesis using small_terms_of(1) [OF assms] by (simp add: RatNumer_def flip: BigIntValue_sint)
qed

lemma RatDenom_eq:
  assumes "number v" shows "RatDenom v = BigIntValue (Denom (ratView v))"
proof (cases "small v")
  case None
  have "BigIntValue 1 = IntValue 1" using BigIntValue_sint [of 1] by simp
  then show ?thesis
    using small_None [OF assms None] ratView_Integer [of v] assms by (auto simp: RatDenom_def None)
next
  case (Some p)
  then obtain n d where "small v = Some (n, d)" by (cases p) simp
  then show ?thesis using small_terms_of(2) [OF assms] by (simp add: RatDenom_def flip: BigIntValue_sint)
qed

lemma RatSign_eq:
  assumes "number v" shows "RatSign v = sign_of (ratView v)"
  using number_cases [OF assms]
proof
  assume k: "Kind v = ValRational"
  then have v: "Rational v" using assms by simp
  show ?thesis
  proof (cases "ext v")
    case None
    have "sign_of (ratView v) = sign_of (sint (IntV v))"
      using ratView_small(1) [OF v None] by (simp flip: sign_of_Num)
    then show ?thesis unfolding RatSign_def sign_of_word using k None by simp
  qed (simp add: RatSign_def k ratView_def)
qed (use assms ratView_Integer [of v] in \<open>simp add: RatSign_def IntSign_eq\<close>)

text \<open>The size of a rational: the bits of its numerator and of its denominator.\<close>

definition rat_bits :: "rat \<Rightarrow> int" where
  "rat_bits r = BitLen (Num r) + BitLen (Denom r)"

lemma unat_nonneg: "0 \<le> sint (w :: int64) \<Longrightarrow> unat w = nat (sint w)"
proof -
  assume w: "0 \<le> sint w"
  then have "word_of_nat (nat (sint w)) = w" by (metis int_nat_eq of_int_of_nat_eq word_of_sint)
  moreover have "nat (sint w) < 2 ^ LENGTH(64)" using int64_bounds(2) [of w] by simp
  ultimately show ?thesis by (metis mod_less unat_of_nat)
qed

lemma RatBitLen_eq:
  assumes "number v" shows "RatBitLen v = rat_bits (ratView v)"
proof (cases "small v")
  case (Some p)
  then obtain n d where p: "small v = Some (n, d)" by (cases p) simp
  note s = small_terms_of [OF assms p]
  have "unat (abs64 n) = nat \<bar>Num (ratView v)\<bar>" using s(3) by (simp add: unat_nonneg sint_abs64 s(1))
  moreover have "unat d = nat \<bar>Denom (ratView v)\<bar>" using s(4) by (simp add: unat_nonneg flip: s(2))
  ultimately show ?thesis by (simp add: RatBitLen_def p rat_bits_def BitLen_def)
qed (simp add: RatBitLen_def rat_bits_def Let_def)

lemma RatIsWhole_eq:
  assumes "number v" shows "RatIsWhole v \<longleftrightarrow> (\<exists>i. ratView v = of_int i)"
proof -
  have whole: "(\<exists>i. ratView v = of_int i) \<longleftrightarrow> Denom (ratView v) = 1"
    using Denom_1_iff by (metis fst_conv quotient_of_rat_of_int)
  show ?thesis using number_cases [OF assms]
  proof
    assume k: "Kind v = ValRational"
    then have v: "Rational v" using assms by simp
    have "den v = 1 \<longleftrightarrow> uint (den v) = 1" by (metis uint_1_eq word_uint_eqI)
    then show ?thesis unfolding whole RatIsWhole_def using k ratView_small(2) [OF v]
      by (cases "ext v") (simp_all add: ratView_def)
  qed (use assms ratView_Integer [of v] in \<open>auto simp: RatIsWhole_def\<close>)
qed

lemma go_div_exact:
  assumes "sint g dvd sint a" "0 < sint g"
  shows "sint (go_div a g) * sint g = sint a" "\<bar>sint (go_div a g)\<bar> \<le> \<bar>sint a\<bar>"
proof -
  have "in_int64 (sint a sdiv sint g)"
    using sdiv_overflow [of "sint a" "sint g"] assms(2) by force
  then have q: "sint (go_div a g) = sint a sdiv sint g" by (simp add: go_div_def sint_of_int)
  from assms obtain k where "sint a = k * sint g" by (metis dvdE mult.commute)
  then show "sint (go_div a g) * sint g = sint a" using assms(2) sdiv_mult_cancel [of "sint g" k] by (simp add: q del: sint_0_iff)
  show "\<bar>sint (go_div a g)\<bar> \<le> \<bar>sint a\<bar>" unfolding q by (rule abs_sdiv_le)
qed

end

