(* ===== verification/Exact_Integers.thy ===== *)
theory Exact_Integers
  imports Exact_Values
begin

text \<open>
  Integer arithmetic of the evaluator (\<open>internal/semantic/semantics/integer.go\<close>): comparison,
  sums, products, powers, remainders and quotients over Integers of any size, computed in a
  machine word when they fit one and refused when they would exceed the bits a run allows; and
  the decimal notation of Integers. Every result is the integer's one representation
  (\<open>BigIntValue\<close> of it).
\<close>

section \<open>The operations\<close>

definition CompareInt :: "Value \<Rightarrow> Value \<Rightarrow> int" where
  "CompareInt a b =
     (if ext a = None \<and> ext b = None
      then if go_less (IntV a) (IntV b) then - 1 else if go_less (IntV b) (IntV a) then 1 else 0
      else sign_of (bigView a - bigView b))"

text \<open>The cell \<open>r\<close> is the \<open>big.Rat\<close> whose numerator holds the result.\<close>

definition sizedInt :: "rat \<Rightarrow> int \<Rightarrow> Value num_result" where
  "sizedInt r maxBits =
     (let n = Num r; bits = BitLen n
      in if bits > maxBits then Inl (ErrIntegerSizeLimit bits)
         else if in_int64 n then Inr (IntValue (word_of_int n))
         else Inr (no_Value\<lparr>Kind := ValInt, ext := Some r\<rparr>))"

definition int64Arith :: "OperatorKind \<Rightarrow> int64 \<Rightarrow> int64 \<Rightarrow> int64 option" where
  "int64Arith op a b =
     (case op of
        OpAdd \<Rightarrow> (let (res, ok) = int64_add a b in if ok then Some res else None)
      | OpSub \<Rightarrow> (let (res, ok) = int64_sub a b in if ok then Some res else None)
      | OpMul \<Rightarrow> mulInt a b
      | _ \<Rightarrow> None)"

definition bigIntArith :: "OperatorKind \<Rightarrow> Value \<Rightarrow> Value \<Rightarrow> int \<Rightarrow> Value num_result" where
  "bigIntArith op a b maxBits =
     (let x = bigView a; y = bigView b
      in case op of
           OpAdd \<Rightarrow> sizedInt (of_int (x + y)) maxBits
         | OpSub \<Rightarrow> sizedInt (of_int (x - y)) maxBits
         | OpMul \<Rightarrow>
             if sign_of x = 0 \<or> sign_of y = 0 then Inr (IntValue 0)
             else
               let bits = BitLen x + BitLen y - 1
               in if bits > maxBits then Inl (ErrIntegerSizeLimit bits)
                  else sizedInt (of_int (x * y)) maxBits
         | _ \<Rightarrow> Inl ErrArithmeticDomain)"

definition IntArith :: "OperatorKind \<Rightarrow> Value \<Rightarrow> Value \<Rightarrow> int \<Rightarrow> Value num_result" where
  "IntArith op a b maxBits =
     (case (if ext a = None \<and> ext b = None then int64Arith op (IntV a) (IntV b) else None) of
        Some res \<Rightarrow> Inr (IntValue res)
      | None \<Rightarrow> bigIntArith op a b maxBits)"

definition IntNeg :: "Value \<Rightarrow> Value" where
  "IntNeg v =
     (if ext v = None \<and> IntV v \<noteq> MinInt64 then IntValue (- IntV v) else BigIntValue (- bigView v))"

definition IntAbs :: "Value \<Rightarrow> Value" where
  "IntAbs v = (if IntSign v < 0 then IntNeg v else v)"

definition IntRem :: "Value \<Rightarrow> Value \<Rightarrow> Value option" where
  "IntRem a b =
     (if IntSign b = 0 then None
      else if ext a = None \<and> ext b = None then Some (IntValue (go_rem (IntV a) (IntV b)))
      else Some (BigIntValue (bigView a smod bigView b)))"

definition IntDivTrunc :: "Value \<Rightarrow> Value \<Rightarrow> Value option" where
  "IntDivTrunc a b =
     (if IntSign b = 0 then None
      else if ext a = None \<and> ext b = None \<and> (IntV a \<noteq> MinInt64 \<or> IntV b \<noteq> - 1)
      then Some (IntValue (go_div (IntV a) (IntV b)))
      else Some (BigIntValue (bigView a sdiv bigView b)))"

definition MaxInt64 :: int where
  "MaxInt64 = 2 ^ 63 - 1"

text \<open>The exponents of \<open>IntPow\<close> are non-negative, which is its callers' part.\<close>

definition IntPow :: "Value \<Rightarrow> Value \<Rightarrow> int \<Rightarrow> Value num_result" where
  "IntPow a n maxBits =
     (case (if ext a = None \<and> ext n = None then intPow (IntV a) (IntV n) else None) of
        Some res \<Rightarrow> Inr (IntValue res)
      | None \<Rightarrow>
          if IntSign n = 0 then Inr (IntValue 1)
          else if ext a = None \<and> (IntV a = 0 \<or> IntV a = 1) then Inr a
          else if ext a = None \<and> IntV a = - 1 then (if even (bigView n) then Inr (IntValue 1) else Inr a)
          else
            let lowerBits = (IntBitLen a - 1) * bigView n + 1
            in if \<not> in_int64 lowerBits \<or> lowerBits > maxBits
               then Inl (ErrIntegerSizeLimit (if in_int64 lowerBits then lowerBits else MaxInt64))
               else sizedInt (of_int (bigView a ^ nat (bigView n))) maxBits)"

section \<open>Notation\<close>

text \<open>\<open>strconv.ParseInt(text, 10, 64)\<close>, its two errors one \<open>None\<close>.\<close>

definition sign_split :: "string \<Rightarrow> bool \<times> string" where
  "sign_split text =
     (case text of
        [] \<Rightarrow> (False, [])
      | c # cs \<Rightarrow> if c = CHR ''+'' then (False, cs) else if c = CHR ''-'' then (True, cs) else (False, text))"

definition signed_value :: "string \<Rightarrow> int" where
  "signed_value text =
     (let (neg, digits) = sign_split text in if neg then - int (digits_value digits) else int (digits_value digits))"

definition isIntegerNotation :: "string \<Rightarrow> bool" where
  "isIntegerNotation text =
     (let text = (if text \<noteq> '''' \<and> (hd text = CHR ''+'' \<or> hd text = CHR ''-'') then tl text else text)
      in text \<noteq> '''' \<and> list_all is_digit text)"

definition ParseInt64 :: "string \<Rightarrow> int64 option" where
  "ParseInt64 text =
     (let digits = snd (sign_split text)
      in if digits \<noteq> '''' \<and> list_all is_digit digits \<and> in_int64 (signed_value text)
         then Some (word_of_int (signed_value text)) else None)"

text \<open>\<open>new(big.Int).SetString(text, 10)\<close> on what \<open>isIntegerNotation\<close> lets through.\<close>

definition ParseInteger :: "string \<Rightarrow> Value option" where
  "ParseInteger text =
     (case ParseInt64 text of
        Some i \<Rightarrow> Some (IntValue i)
      | None \<Rightarrow> if \<not> isIntegerNotation text then None else Some (BigIntValue (signed_value text)))"

section \<open>Each result is the integer it should be\<close>

lemma CompareInt_eq: "CompareInt a b = sign_of (bigView a - bigView b)"
  by (auto simp: CompareInt_def bigView_def go_less_def sign_of_def)

lemma sizedInt_eq:
  "sizedInt (of_int n) maxBits = (if BitLen n > maxBits then Inl (ErrIntegerSizeLimit (BitLen n)) else Inr (BigIntValue n))"
  by (simp add: sizedInt_def Let_def BigIntValue_def IntValue_def)

lemma int64Arith_eq:
  "int64Arith op a b =
     (case op of
        OpAdd \<Rightarrow> checked64 (sint a + sint b)
      | OpSub \<Rightarrow> checked64 (sint a - sint b)
      | OpMul \<Rightarrow> checked64 (sint a * sint b)
      | _ \<Rightarrow> None)"
proof -
  have add: "int64Arith OpAdd a b = checked64 (sint a + sint b)"
  proof (cases "in_int64 (sint a + sint b)")
    case True
    then have "sint (fst (int64_add a b)) = sint a + sint b" "snd (int64_add a b)" using int64_add_exact by blast+
    then show ?thesis by (cases "int64_add a b") (simp add: int64Arith_def flip: checked64_eq_Some)
  qed (use int64_add_exact(1) [of a b] in \<open>cases "int64_add a b"; simp add: int64Arith_def checked64_def\<close>)
  have sub: "int64Arith OpSub a b = checked64 (sint a - sint b)"
  proof (cases "in_int64 (sint a - sint b)")
    case True
    then have "sint (fst (int64_sub a b)) = sint a - sint b" "snd (int64_sub a b)" using int64_sub_exact by blast+
    then show ?thesis by (cases "int64_sub a b") (simp add: int64Arith_def flip: checked64_eq_Some)
  qed (use int64_sub_exact(1) [of a b] in \<open>cases "int64_sub a b"; simp add: int64Arith_def checked64_def\<close>)
  show ?thesis using add sub by (cases op) (simp_all add: int64Arith_def mulInt_checked)
qed

text \<open>The integer an operator computes.\<close>

definition int_op :: "OperatorKind \<Rightarrow> int \<Rightarrow> int \<Rightarrow> int option" where
  "int_op op x y =
     (case op of OpAdd \<Rightarrow> Some (x + y) | OpSub \<Rightarrow> Some (x - y) | OpMul \<Rightarrow> Some (x * y) | _ \<Rightarrow> None)"

lemma int64Arith_op: "int64Arith op a b = Option.bind (int_op op (sint a) (sint b)) checked64"
  by (cases op) (simp_all add: int64Arith_eq int_op_def)

lemma BitLen_mult:
  assumes "x \<noteq> 0" "y \<noteq> 0" shows "BitLen x + BitLen y - 1 \<le> BitLen (x * y)"
proof -
  obtain j k where jk: "bits_of (nat \<bar>x\<bar>) = Suc j" "bits_of (nat \<bar>y\<bar>) = Suc k"
    using assms by (metis bits_of_0_iff nat_0_iff not0_implies_Suc zero_less_abs_iff not_le)
  then have b: "BitLen x = int (Suc j)" "BitLen y = int (Suc k)" by (simp_all add: BitLen_def)
  then have "2 ^ j \<le> \<bar>x\<bar>" "2 ^ k \<le> \<bar>y\<bar>" using BitLen_gr_iff [of j x] BitLen_gr_iff [of k y] by simp_all
  then have "2 ^ j * 2 ^ k \<le> \<bar>x\<bar> * \<bar>y\<bar>" by (intro mult_mono) auto
  then have "int (j + k) < BitLen (x * y)" unfolding BitLen_gr_iff by (simp add: power_add abs_mult)
  then show ?thesis by (simp add: b)
qed

lemma BitLen_power:
  assumes "x \<noteq> 0" shows "(BitLen x - 1) * int n + 1 \<le> BitLen (x ^ n)"
proof (induction n)
  case 0
  then show ?case using BitLen_gr_iff [of 0 1] by simp
next
  case (Suc n)
  have "(BitLen x - 1) * int (Suc n) + 1 = BitLen x + ((BitLen x - 1) * int n + 1) - 1" by (simp add: algebra_simps)
  also have "\<dots> \<le> BitLen x + BitLen (x ^ n) - 1" using Suc by simp
  also have "\<dots> \<le> BitLen (x * x ^ n)" by (rule BitLen_mult) (use assms in simp_all)
  finally show ?case by simp
qed

text \<open>
  The integer \<open>z\<close> computed under a budget of \<open>m\<close> bits: \<open>z\<close> itself, or, when it needs more, the
  size error with a number of bits which \<open>z\<close> needs at the least.
\<close>

definition int_outcome :: "int \<Rightarrow> int \<Rightarrow> Value num_result \<Rightarrow> bool" where
  "int_outcome m z res =
     (if BitLen z \<le> m then res = Inr (BigIntValue z)
      else case res of Inl (ErrIntegerSizeLimit k) \<Rightarrow> m \<le> k \<and> k \<le> BitLen z | _ \<Rightarrow> False)"

lemma sizedInt_outcome: "int_outcome m z (sizedInt (of_int z) m)"
  by (simp add: int_outcome_def sizedInt_eq)

lemma int_outcome_word: "64 \<le> m \<Longrightarrow> int_outcome m (sint i) (Inr (IntValue i))"
  using BitLen_int64 [of "sint i"] by (simp add: int_outcome_def)

lemma int_outcome_refused: "m < k \<Longrightarrow> k \<le> BitLen z \<Longrightarrow> int_outcome m z (Inl (ErrIntegerSizeLimit k))"
  by (simp add: int_outcome_def)

lemma bigIntArith_outcome:
  assumes "64 \<le> m" "int_op op (bigView a) (bigView b) = Some z"
  shows "int_outcome m z (bigIntArith op a b m)"
proof (cases op)
  case OpMul
  define x y where "x = bigView a" and "y = bigView b"
  have z: "z = x * y" using assms(2) by (simp add: OpMul int_op_def x_def y_def)
  have r: "bigIntArith op a b m =
      (if x = 0 \<or> y = 0 then Inr (IntValue 0)
       else if m < BitLen x + BitLen y - 1 then Inl (ErrIntegerSizeLimit (BitLen x + BitLen y - 1)) else sizedInt (of_int z) m)"
    by (simp add: bigIntArith_def OpMul Let_def sign_of_cases z x_def y_def)
  consider "x = 0 \<or> y = 0" | "x \<noteq> 0" "y \<noteq> 0" "m < BitLen x + BitLen y - 1" | "x \<noteq> 0" "y \<noteq> 0" "\<not> m < BitLen x + BitLen y - 1"
    by blast
  then show ?thesis
  proof cases
    case 1
    then show ?thesis unfolding r using int_outcome_word [OF assms(1), of 0] by (auto simp: z)
  next
    case 2
    have "BitLen x + BitLen y - 1 \<le> BitLen z" unfolding z by (rule BitLen_mult [OF 2(1,2)])
    then show ?thesis unfolding r using 2 int_outcome_refused by simp
  next
    case 3
    then show ?thesis unfolding r by (simp add: sizedInt_outcome)
  qed
qed (use assms in \<open>simp_all add: int_op_def bigIntArith_def Let_def sizedInt_outcome flip: of_int_add of_int_diff\<close>)

lemma IntArith_outcome:
  assumes "64 \<le> m" "int_op op (bigView a) (bigView b) = Some z"
  shows "int_outcome m z (IntArith op a b m)"
proof (cases "if ext a = None \<and> ext b = None then int64Arith op (IntV a) (IntV b) else None")
  case None
  then show ?thesis using bigIntArith_outcome [OF assms] by (simp add: IntArith_def)
next
  case (Some res)
  then have e: "ext a = None" "ext b = None" and i: "int64Arith op (IntV a) (IntV b) = Some res" by (simp_all split: if_splits)
  then have "bigView a = sint (IntV a)" "bigView b = sint (IntV b)" by (simp_all add: bigView_def)
  then have "sint res = z" using i assms(2) by (simp add: int64Arith_op checked64_eq_Some)
  then show ?thesis using int_outcome_word [OF assms(1), of res] unfolding IntArith_def Some by simp
qed

lemma IntArith_other: "int_op op x y = None \<Longrightarrow> IntArith op a b m = Inl ErrArithmeticDomain"
  by (cases op) (simp_all add: int_op_def IntArith_def int64Arith_def bigIntArith_def Let_def)

lemma IntNeg_eq: "IntNeg v = BigIntValue (- bigView v)"
  by (simp add: IntNeg_def bigView_def sint_minus flip: BigIntValue_sint)

lemma IntAbs_eq: "Integer v \<Longrightarrow> IntAbs v = BigIntValue \<bar>bigView v\<bar>"
  using Integer_eq [of v] by (simp add: IntAbs_def IntNeg_eq IntSign_eq sign_of_def)

lemma IntRem_eq: "IntRem a b = (if bigView b = 0 then None else Some (BigIntValue (bigView a smod bigView b)))"
  by (simp add: IntRem_def IntSign_eq sign_of_cases bigView_def flip: BigIntValue_sint sint_go_rem)

lemma sint_go_div: "\<not> (a = MinInt64 \<and> b = - 1) \<Longrightarrow> sint (go_div a b) = sint a sdiv sint b"
proof -
  assume *: "\<not> (a = MinInt64 \<and> b = - 1)"
  have "in_int64 (sint a sdiv sint b)"
  proof (rule ccontr)
    assume "\<not> in_int64 (sint a sdiv sint b)"
    from sdiv_overflow [OF _ _ this] have "sint a = sint MinInt64" "sint b = sint (- 1 :: int64)" by simp_all
    then show False using * unfolding sint_inj by blast
  qed
  then show ?thesis by (simp add: go_div_def sint_of_int)
qed

lemma IntDivTrunc_eq:
  "IntDivTrunc a b = (if bigView b = 0 then None else Some (BigIntValue (bigView a sdiv bigView b)))"
  by (auto simp: IntDivTrunc_def IntSign_eq sign_of_cases bigView_def sint_go_div simp flip: BigIntValue_sint)

lemma IntPow_outcome:
  assumes "64 \<le> m" "m \<le> MaxInt64" "Integer a" "0 \<le> bigView n"
  shows "int_outcome m (bigView a ^ nat (bigView n)) (IntPow a n m)"
proof (cases "if ext a = None \<and> ext n = None then intPow (IntV a) (IntV n) else None")
  case (Some res)
  then have e: "ext a = None" "ext n = None" and i: "intPow (IntV a) (IntV n) = Some res" by (simp_all split: if_splits)
  then have "bigView a = sint (IntV a)" "bigView n = sint (IntV n)" by (simp_all add: bigView_def)
  then have "sint res = bigView a ^ nat (bigView n)" using i by (simp add: intPow_exact checked64_eq_Some)
  then show ?thesis using int_outcome_word [OF assms(1), of res] unfolding IntPow_def Some by simp
next
  case None
  define x y where "x = bigView a" and "y = bigView n"
  have a: "a = BigIntValue x" using Integer_eq [OF assms(3)] by (simp add: x_def)
  have y: "0 \<le> y" using assms(4) by (simp add: y_def)
  have small: "ext a = None \<Longrightarrow> IntV a = word_of_int i \<longleftrightarrow> x = i" if "in_int64 i" for i
    using that sint_inj [of "IntV a" "word_of_int i"] by (simp add: x_def bigView_def sint_of_int)
  have one: "int_outcome m 1 (Inr (IntValue 1))" using int_outcome_word [OF assms(1), of 1] by simp
  consider "y = 0" | "0 < y" "x = 0 \<or> x = 1 \<or> x = -1" | "0 < y" "x \<noteq> 0" "x \<noteq> 1" "x \<noteq> -1" using y by linarith
  then show ?thesis
  proof cases
    case 1
    then show ?thesis using one unfolding IntPow_def None by (simp add: IntSign_eq sign_of_cases y_def)
  next
    case 2
    then have e: "ext a = None" using a by (auto simp: BigIntValue_small in_int64_iff)
    have "int_outcome m i (Inr (BigIntValue i))" if "in_int64 i" for i
      using BitLen_int64 [OF that] assms(1) by (simp add: int_outcome_def)
    moreover have "x ^ nat y = (if x = -1 then if even y then 1 else -1 else x)"
      using 2 by (auto simp: minus_one_power_iff even_nat_iff)
    moreover have "IntPow a n m = (if x = -1 then if even y then Inr (IntValue 1) else Inr a else Inr a)"
      using 2 small [of 0] small [of 1] small [of "-1"] e unfolding IntPow_def None
      by (auto simp: IntSign_eq sign_of_cases in_int64_iff simp flip: x_def y_def)
    ultimately show ?thesis using 2 one a unfolding x_def [symmetric] y_def [symmetric] by (auto simp: in_int64_iff)
  next
    case 3
    define lower where "lower = (BitLen x - 1) * y + 1"
    have l: "lower \<le> BitLen (x ^ nat y)" using BitLen_power [OF 3(2), of "nat y"] y by (simp add: lower_def)
    have x: "0 < BitLen x" using 3(2) BitLen_gr_iff [of 0 x] by simp
    then have l1: "1 \<le> lower" using y by (simp add: lower_def)
    have r: "IntPow a n m =
        (if \<not> in_int64 lower \<or> lower > m then Inl (ErrIntegerSizeLimit (if in_int64 lower then lower else MaxInt64))
         else sizedInt (of_int (x ^ nat y)) m)"
      using 3 small [of 0] small [of 1] small [of "-1"] unfolding IntPow_def None
      by (auto simp: IntSign_eq IntBitLen_eq sign_of_cases in_int64_iff Let_def lower_def simp flip: x_def y_def)
    show ?thesis
    proof (cases "in_int64 lower")
      case True
      then show ?thesis unfolding r x_def [symmetric] y_def [symmetric]
        using int_outcome_refused [OF _ l, of m] sizedInt_outcome [of m "x ^ nat y"] by simp
    next
      case False
      then have "MaxInt64 < lower" using l1 unfolding in_int64_iff MaxInt64_def by auto
      then show ?thesis unfolding r x_def [symmetric] y_def [symmetric] using False l assms(2) by (simp add: int_outcome_def)
    qed
  qed
qed

section \<open>Reading and writing\<close>

lemma isIntegerNotation_eq:
  "isIntegerNotation text \<longleftrightarrow> snd (sign_split text) \<noteq> '''' \<and> list_all is_digit (snd (sign_split text))"
  by (cases "text") (auto simp: isIntegerNotation_def sign_split_def Let_def)

lemma ParseInteger_eq:
  "ParseInteger text = (if isIntegerNotation text then Some (BigIntValue (signed_value text)) else None)"
  by (simp add: ParseInteger_def ParseInt64_def isIntegerNotation_eq Let_def BigIntValue_small)

lemma sign_split_nat_text: "sign_split (nat_text n) = (False, nat_text n)"
proof -
  have "\<not> is_digit (CHR ''+'')" "\<not> is_digit (CHR ''-'')" by (simp_all add: is_digit_def in_range_def less_eq_char_def)
  then have "CHR ''+'' \<notin> set (nat_text n)" "CHR ''-'' \<notin> set (nat_text n)" using nat_text_no by blast+
  then show ?thesis by (cases "nat_text n") (auto simp: sign_split_def)
qed

lemma sign_split_int_text: "sign_split (int_text i) = (i < 0, nat_text (nat \<bar>i\<bar>))"
  by (cases "i < 0") (simp add: int_text_def sign_split_def, simp add: int_text_def sign_split_nat_text)

lemma signed_value_int_text: "signed_value (int_text i) = i"
  by (simp add: signed_value_def sign_split_int_text digits_value_nat_text)

lemma ParseInteger_int_text: "ParseInteger (int_text i) = Some (BigIntValue i)"
  using nat_text_digits by (simp add: ParseInteger_eq isIntegerNotation_eq sign_split_int_text signed_value_int_text)

lemma ParseInteger_FormatInt: "Integer v \<Longrightarrow> ParseInteger (FormatInt v) = Some v"
  using Integer_eq [of v] by (simp add: FormatInt_eq ParseInteger_int_text)

interpretation integer_text: codec FormatInt ParseInteger "\<lambda>v. Integer v"
  by unfold_locales (rule ParseInteger_FormatInt)

end
