(* ===== verification/Exact_Rationals.thy ===== *)
theory Exact_Rationals
  imports Exact_Integers
begin

text \<open>
  Rational arithmetic of the evaluator (\<open>internal/semantic/semantics/rational.go\<close>): the five
  operators, comparison, rounding and powers over exact numbers. Terms that fit machine words are
  computed there, with an overflow check at every step; the rest is computed over \<open>rat\<close>. The
  theorems say that which of the two ways is taken never shows: the result is the one
  representation (\<open>RatValue\<close>) of the rational number the operator denotes, or the size error, by
  that number's own bits.
\<close>

section \<open>Sized results\<close>

definition sizedRat :: "rat \<Rightarrow> int \<Rightarrow> Value num_result" where
  "sizedRat r maxBits =
     (let bits = BitLen (Num r) + BitLen (Denom r)
      in if bits > maxBits then Inl (ErrRationalSizeLimit bits) else Inr (RatValue r))"

definition sizedValue :: "Value \<Rightarrow> int \<Rightarrow> Value num_result" where
  "sizedValue v maxBits =
     (let bits = RatBitLen v in if bits > maxBits then Inl (ErrRationalSizeLimit bits) else Inr v)"

definition RatOf :: "Value \<Rightarrow> Value" where
  "RatOf v =
     (if Kind v = ValRational then v
      else case ext v of
        None \<Rightarrow>
          if IntV v \<noteq> MinInt64 then no_Value\<lparr>Kind := ValRational, IntV := IntV v, den := 1\<rparr>
          else RatValue (of_int (sint (IntV v)))
      | Some r \<Rightarrow> no_Value\<lparr>Kind := ValRational, ext := Some r\<rparr>)"

section \<open>The operators\<close>

text \<open>The branch \<open>OpMul\<close> of \<open>smallRatArith\<close>, which \<open>OpDiv\<close> calls with the divisor turned over.\<close>

definition smallRatMul :: "int64 \<Rightarrow> int64 \<Rightarrow> int64 \<Rightarrow> int64 \<Rightarrow> Value option" where
  "smallRatMul an ad bn bd =
     (let g1 = gcd64 (abs64 an) bd; g2 = gcd64 (abs64 bn) ad
      in case (mulInt (go_div an g1) (go_div bn g2), mulInt (go_div ad g2) (go_div bd g1)) of
           (Some n, Some d) \<Rightarrow> smallRat n d
         | _ \<Rightarrow> None)"

definition smallRatSum :: "int64 \<Rightarrow> int64 \<Rightarrow> int64 \<Rightarrow> int64 \<Rightarrow> Value option" where
  "smallRatSum an ad bn bd =
     (let g = gcd64 ad bd
      in case (mulInt an (go_div bd g), mulInt bn (go_div ad g), mulInt ad (go_div bd g)) of
           (Some l, Some r, Some d) \<Rightarrow>
             (case int64Arith OpAdd l r of None \<Rightarrow> None | Some n \<Rightarrow> smallRat n d)
         | _ \<Rightarrow> None)"

definition smallRatArith :: "OperatorKind \<Rightarrow> int64 \<Rightarrow> int64 \<Rightarrow> int64 \<Rightarrow> int64 \<Rightarrow> Value option" where
  "smallRatArith op an ad bn bd =
     (if op = OpAdd \<or> op = OpSub then
        if op = OpSub \<and> bn = MinInt64 then None
        else smallRatSum an ad (if op = OpSub then - bn else bn) bd
      else if op = OpMul then smallRatMul an ad bn bd
      else if op = OpDiv then
        if bn = MinInt64 then None
        else let (an, bn) = (if go_less bn 0 then (- an, - bn) else (an, bn)) in smallRatMul an ad bd bn
      else None)"

definition RatArith :: "OperatorKind \<Rightarrow> Value \<Rightarrow> Value \<Rightarrow> int \<Rightarrow> Value num_result" where
  "RatArith op a b maxBits =
     (if (op = OpDiv \<or> op = OpMod) \<and> RatSign b = 0 then Inl ErrDivisionByZero
      else
        case (case (small a, small b) of
                (Some (an, ad), Some (bn, bd)) \<Rightarrow> smallRatArith op an ad bn bd
              | _ \<Rightarrow> None) of
          Some res \<Rightarrow>
            (let bits = RatBitLen res
             in if bits > maxBits then Inl (ErrRationalSizeLimit bits) else Inr res)
        | None \<Rightarrow>
            let x = ratView a; y = ratView b
            in (case op of
                 OpAdd \<Rightarrow> sizedRat (x + y) maxBits
               | OpSub \<Rightarrow> sizedRat (x - y) maxBits
               | OpMul \<Rightarrow> sizedRat (x * y) maxBits
               | OpDiv \<Rightarrow> sizedRat (x / y) maxBits
               | OpMod \<Rightarrow>
                   let q = x / y; t = Num q sdiv Denom q
                   in sizedRat (x - y * of_int t) maxBits
               | _ \<Rightarrow> Inl ErrArithmeticDomain))"

definition RatNeg :: "Value \<Rightarrow> Value" where
  "RatNeg v =
     (if Kind v = ValInt then IntNeg v
      else case ext v of
        None \<Rightarrow> no_Value\<lparr>Kind := ValRational, IntV := - IntV v, den := den v\<rparr>
      | Some r \<Rightarrow> RatValue (- r))"

definition RatAbs :: "Value \<Rightarrow> Value" where
  "RatAbs v = (if RatSign v < 0 then RatNeg v else v)"

definition CompareRat :: "Value \<Rightarrow> Value \<Rightarrow> int" where
  "CompareRat a b =
     (if Kind a = ValInt \<and> Kind b = ValInt then CompareInt a b
      else
        case (case (small a, small b) of
                (Some (an, ad), Some (bn, bd)) \<Rightarrow>
                  (case (mulInt an bd, mulInt bn ad) of (Some l, Some r) \<Rightarrow> Some (l, r) | _ \<Rightarrow> None)
              | _ \<Rightarrow> None) of
          Some (l, r) \<Rightarrow> if go_less l r then - 1 else if go_less r l then 1 else 0
        | None \<Rightarrow> sign_of (ratView a - ratView b))"

text \<open>Two binary64 values under \<open>==\<close>: a NaN equals nothing, and the two zeros are equal.\<close>

definition real_equal :: "64 word \<Rightarrow> 64 word \<Rightarrow> bool" where
  "real_equal x y =
     (let magnitude = \<lambda>w. take_bit 63 w; inf = 0x7FF0000000000000
      in magnitude x \<le> inf \<and> magnitude y \<le> inf \<and> (x = y \<or> magnitude x = 0 \<and> magnitude y = 0))"

definition Equal :: "Value \<Rightarrow> Value \<Rightarrow> bool" where
  "Equal v w =
     (if Kind v = ValInt \<and> Kind w = ValInt then CompareInt v w = 0
      else if Kind v = ValRational \<and> Kind w = ValRational then CompareRat v w = 0
      else
        Kind v = Kind w \<and> BoolV v = BoolV w \<and> den v = den w \<and> IntV v = IntV w \<and>
        real_equal (RealV v) (RealV w) \<and> ext v = ext w)"

section \<open>Rounding\<close>

definition RatFloor :: "Value \<Rightarrow> Value" where
  "RatFloor v =
     (if Kind v = ValInt then v
      else case ext v of
        None \<Rightarrow>
          let d = ucast (den v); q = go_div (IntV v) d
          in IntValue (if go_rem (IntV v) d \<noteq> 0 \<and> go_less (IntV v) 0 then q - 1 else q)
      | Some r \<Rightarrow> BigIntValue (Num r div Denom r))"

definition RatRound :: "Value \<Rightarrow> Value" where
  "RatRound v =
     (if Kind v = ValInt then v
      else
        let half = no_Value\<lparr>Kind := ValRational, IntV := 1, den := 2\<rparr>
        in case RatArith OpAdd (RatAbs v) half MaxInt64 of
             Inl _ \<Rightarrow> no_Value
           | Inr shifted \<Rightarrow>
               let n = RatFloor shifted in if RatSign v < 0 then IntNeg n else n)"

definition RatTrunc :: "Value \<Rightarrow> Value" where
  "RatTrunc v = (if RatSign v < 0 then IntNeg (RatFloor (RatNeg v)) else RatFloor v)"

section \<open>Powers\<close>

definition RatPow :: "Value \<Rightarrow> Value \<Rightarrow> int \<Rightarrow> Value num_result" where
  "RatPow base n maxBits =
     (let sgn_n = IntSign n; one = no_Value\<lparr>Kind := ValRational, IntV := 1, den := 1\<rparr>
      in if sgn_n = 0 then Inr one
         else if RatSign base = 0 then (if sgn_n < 0 then Inl ErrArithmeticDomain else Inr (RatOf base))
         else
           let num = Num (ratView base); d = Denom (ratView base)
           in if \<bar>num\<bar> = \<bar>d\<bar> \<and> d = 1 then
                if num > 0 \<or> even (bigView n) then Inr one
                else Inr (no_Value\<lparr>Kind := ValRational, IntV := - 1, den := 1\<rparr>)
              else
                let e = \<bar>bigView n\<bar>;
                    term = \<lambda>t. if \<bar>t\<bar> \<noteq> 1 then (BitLen t - 1) * e + 1 else 0;
                    lower = term num + term d
                in if \<not> in_int64 lower \<or> lower > maxBits
                   then Inl (ErrRationalSizeLimit (if in_int64 lower then lower else MaxInt64))
                   else
                     let pn = num ^ nat e; pd = d ^ nat e;
                         (pn, pd) = (if sgn_n < 0 then (pd, pn) else (pn, pd))
                     in sizedRat (of_int pn / of_int pd) maxBits)"

section \<open>Fractions\<close>

lemma go_div_gcd:
  assumes "sint g = gcd x y" "0 < sint g" "sint a = x \<or> sint a = - x \<or> sint a = y"
  shows "sint (go_div a g) * sint g = sint a" "\<bar>sint (go_div a g)\<bar> \<le> \<bar>sint a\<bar>"
proof -
  have "sint g dvd sint a" using assms by auto
  then show "sint (go_div a g) * sint g = sint a" "\<bar>sint (go_div a g)\<bar> \<le> \<bar>sint a\<bar>"
    using go_div_exact assms(2) by blast+
qed

lemma sint_gcd64:
  assumes "a \<noteq> MinInt64" "0 < sint d"
  shows "sint (gcd64 (abs64 a) d) = gcd (sint a) (sint d)" "0 < gcd (sint a) (sint d)"
  using gcd64_exact [of "abs64 a" d] assms by (auto simp: sint_abs64 simp del: sint_0_iff)

lemma smallRat_exact:
  assumes "0 < sint d" "smallRat n d = Some v"
  shows "v = RatValue (of_int (sint n) / of_int (sint d))"
proof -
  define g where "g = gcd64 (abs64 n) d"
  have n: "n \<noteq> MinInt64" using assms(2) by (auto simp: smallRat_def)
  have g: "sint g = gcd (sint n) (sint d)" "0 < sint g" using sint_gcd64 [OF n assms(1)] by (simp_all add: g_def)
  define n' d' where "n' = (if go_less 1 g then go_div n g else n)" and "d' = (if go_less 1 g then go_div d g else d)"
  have n': "sint n' * sint g = sint n" "\<bar>sint n'\<bar> \<le> \<bar>sint n\<bar>"
    using go_div_gcd [OF g, of n] g(2) by (auto simp: n'_def go_less_def)
  have d': "sint d' * sint g = sint d" "\<bar>sint d'\<bar> \<le> \<bar>sint d\<bar>"
    using go_div_gcd [OF g, of d] g(2) by (auto simp: d'_def go_less_def)
  have d0: "0 < sint d'" using d'(1) g(2) assms(1) by (metis zero_less_mult_pos2)
  have "coprime (sint n') (sint d')"
  proof -
    have "gcd (sint n') (sint d') * sint g = gcd (sint n) (sint d)"
      using gcd_mult_distrib_int [of "sint g" "sint n'" "sint d'"] g(2) by (simp add: mult.commute flip: n'(1) d'(1))
    then have "gcd (sint n') (sint d') * sint g = 1 * sint g" using g(1) by simp
    then have "gcd (sint n') (sint d') = 1" using g(2) by (simp only: mult_cancel_right) linarith
    then show ?thesis by (simp add: coprime_iff_gcd_eq_1)
  qed
  then have q: "quotient_of (of_int (sint n) / of_int (sint d)) = (sint n', sint d')"
    using d0 g(2) quotient_of_coprime_div [of "sint n'" "sint d'"]
    unfolding n'(1) [symmetric] d'(1) [symmetric] by (simp del: sint_0_iff)
  have n0: "sint n \<noteq> - 9223372036854775808" using n sint_inj [of n MinInt64] by simp
  have s: "(if go_less (word_of_int MaxUint32) d' then None
      else Some (no_Value\<lparr>Kind := ValRational, IntV := n', den := ucast d'\<rparr>)) = Some v"
    using assms by (simp add: smallRat_def go_less_def Let_def n'_def d'_def g_def split: if_splits prod.splits)
  then have le: "sint d' \<le> 4294967295" and v: "v = no_Value\<lparr>Kind := ValRational, IntV := n', den := ucast d'\<rparr>"
    by (auto simp: go_less_def MaxUint32_def split: if_splits)
  have "fits_small (of_int (sint n) / of_int (sint d))"
    using le n0 n'(2) int64_bounds [of n] unfolding fits_small_def q fst_conv snd_conv by simp linarith
  moreover have "word_of_int (sint d') = (ucast d' :: 32 word)"
    using unat_nonneg [of d'] d0 by (simp add: nat_eq_iff uint_nat flip: of_int_uint)
  ultimately show ?thesis unfolding v RatValue_eq by (simp add: q)
qed

lemma checked64_cancel: "checked64 i = Some w \<longleftrightarrow> sint w = i"
  by (rule checked64_eq_Some)

lemma fraction_product:
  fixes a b c d g h :: int
  assumes "0 < c" "0 < d" "0 < g" "0 < h"
  shows "of_int (a * b) / of_int (c * d) = (of_int (a * g) / of_int (c * h) * (of_int (b * h) / of_int (d * g)) :: rat)"
  using assms by simp

lemma fraction_sum:
  fixes a b c d g :: int
  assumes "0 < c" "0 < d" "0 < g"
  shows "of_int (a * d + b * c) / of_int (c * g * d) = (of_int a / of_int (c * g) + of_int b / of_int (d * g) :: rat)"
proof -
  have "of_int a / of_int (c * g) = (of_int (a * d) / of_int (c * g * d) :: rat)"
    "of_int b / of_int (d * g) = (of_int (b * c) / of_int (c * g * d) :: rat)"
    using assms by simp_all
  then show ?thesis by (simp add: add_divide_distrib)
qed

lemma smallRatMul_exact:
  assumes "0 < sint ad" "0 < sint bd" "an \<noteq> MinInt64" "bn \<noteq> MinInt64" "smallRatMul an ad bn bd = Some v"
  shows "v = RatValue (of_int (sint an) / of_int (sint ad) * (of_int (sint bn) / of_int (sint bd)))"
proof -
  define g1 g2 where "g1 = gcd64 (abs64 an) bd" and "g2 = gcd64 (abs64 bn) ad"
  have g1: "sint g1 = gcd (sint an) (sint bd)" "0 < sint g1" using sint_gcd64 [OF assms(3,2)] by (simp_all add: g1_def)
  have g2: "sint g2 = gcd (sint bn) (sint ad)" "0 < sint g2" using sint_gcd64 [OF assms(4,1)] by (simp_all add: g2_def)
  define a b c d where "a = sint (go_div an g1)" and "b = sint (go_div bn g2)"
    and "c = sint (go_div ad g2)" and "d = sint (go_div bd g1)"
  have e: "sint an = a * sint g1" "sint bn = b * sint g2" "sint ad = c * sint g2" "sint bd = d * sint g1"
    using go_div_gcd(1) [OF g1, of an] go_div_gcd(1) [OF g1, of bd] go_div_gcd(1) [OF g2, of bn] go_div_gcd(1) [OF g2, of ad]
    by (simp_all add: a_def b_def c_def d_def)
  from assms(5) obtain n w where n: "sint n = a * b" and w: "sint w = c * d" and v: "smallRat n w = Some v"
    by (auto simp: smallRatMul_def Let_def mulInt_checked checked64_cancel a_def b_def c_def d_def
      simp flip: g1_def g2_def split: option.splits)
  have "0 < c" "0 < d" using assms(1,2) g1(2) g2(2) e by (simp_all add: zero_less_mult_iff)
  then have "0 < sint w" by (simp add: w)
  moreover have "of_int (sint n) / of_int (sint w) =
      (of_int (sint an) / of_int (sint ad) * (of_int (sint bn) / of_int (sint bd)) :: rat)"
    unfolding e n w by (rule fraction_product) (fact g1(2) g2(2) \<open>0 < c\<close> \<open>0 < d\<close>)+
  ultimately show ?thesis using smallRat_exact [OF _ v] by simp
qed

lemma smallRatSum_exact:
  assumes "0 < sint ad" "0 < sint bd" "smallRatSum an ad bn bd = Some v"
  shows "v = RatValue (of_int (sint an) / of_int (sint ad) + of_int (sint bn) / of_int (sint bd))"
proof -
  define g where "g = gcd64 ad bd"
  have g: "sint g = gcd (sint ad) (sint bd)" "0 < sint g"
    using gcd64_exact [of ad bd] assms(1,2) by (auto simp: g_def simp del: sint_0_iff)
  define c d where "c = sint (go_div ad g)" and "d = sint (go_div bd g)"
  have e: "sint ad = c * sint g" "sint bd = d * sint g"
    using go_div_gcd(1) [OF g, of bd] go_div_exact(1) [of g ad] g by (simp_all add: c_def d_def)
  from assms(3) obtain n w where n: "sint n = sint an * d + sint bn * c" and w: "sint w = sint ad * d"
      and v: "smallRat n w = Some v"
    by (auto simp: smallRatSum_def Let_def mulInt_checked int64Arith_eq checked64_cancel c_def d_def
      simp flip: g_def split: option.splits)
  have cd: "0 < c" "0 < d" using assms(1,2) g(2) e by (simp_all add: zero_less_mult_iff)
  then have "0 < sint w" using assms(1) by (simp add: w)
  moreover have "of_int (sint n) / of_int (sint w) =
      (of_int (sint an) / of_int (sint ad) + of_int (sint bn) / of_int (sint bd) :: rat)"
    unfolding e n w by (rule fraction_sum) (fact g(2) cd)+
  ultimately show ?thesis using smallRat_exact [OF _ v] by simp
qed

text \<open>The rational an operator denotes.\<close>

definition rat_trunc :: "rat \<Rightarrow> int" where
  "rat_trunc q = (if q < 0 then - \<lfloor>- q\<rfloor> else \<lfloor>q\<rfloor>)"

definition rat_op :: "OperatorKind \<Rightarrow> rat \<Rightarrow> rat \<Rightarrow> rat option" where
  "rat_op op x y =
     (case op of
        OpAdd \<Rightarrow> Some (x + y)
      | OpSub \<Rightarrow> Some (x - y)
      | OpMul \<Rightarrow> Some (x * y)
      | OpDiv \<Rightarrow> Some (x / y)
      | OpMod \<Rightarrow> Some (x - y * of_int (rat_trunc (x / y)))
      | _ \<Rightarrow> None)"

lemma smallRatArith_exact:
  assumes "0 < sint ad" "0 < sint bd" "an \<noteq> MinInt64" "bd \<noteq> MinInt64" "bn \<noteq> MinInt64"
    "op = OpDiv \<Longrightarrow> sint bn \<noteq> 0" "smallRatArith op an ad bn bd = Some v"
  shows "rat_op op (of_int (sint an) / of_int (sint ad)) (of_int (sint bn) / of_int (sint bd)) = Some r \<Longrightarrow> v = RatValue r"
proof -
  consider "op = OpAdd" | "op = OpSub" | "op = OpMul" | "op = OpDiv" using assms(7) by (auto simp: smallRatArith_def split: if_splits)
  moreover assume "rat_op op (of_int (sint an) / of_int (sint ad)) (of_int (sint bn) / of_int (sint bd)) = Some r"
  ultimately show ?thesis
  proof cases
    case 1
    then show ?thesis using assms \<open>rat_op _ _ _ = _\<close> smallRatSum_exact [OF assms(1,2), of an bn]
      by (simp add: smallRatArith_def rat_op_def)
  next
    case 2
    then show ?thesis using assms \<open>rat_op _ _ _ = _\<close> smallRatSum_exact [OF assms(1,2), of an "- bn"]
      by (simp add: smallRatArith_def rat_op_def sint_minus)
  next
    case 3
    then show ?thesis using assms \<open>rat_op _ _ _ = _\<close> smallRatMul_exact [OF assms(1,2,3,5)]
      by (simp add: smallRatArith_def rat_op_def)
  next
    case 4
    define an' bn' where "an' = (if go_less bn 0 then - an else an)" and "bn' = (if go_less bn 0 then - bn else bn)"
    have m: "smallRatMul an' ad bd bn' = Some v" using 4 assms by (simp add: smallRatArith_def an'_def bn'_def Let_def split: if_splits)
    have b: "0 < sint bn'" using 4 assms by (auto simp: bn'_def go_less_def sint_minus simp del: sint_0_iff)
    have a: "an' \<noteq> MinInt64"
    proof
      assume "an' = MinInt64"
      then have "sint an' = - 9223372036854775808" by simp
      moreover have "sint an' = sint an \<or> sint an' = - sint an" using assms(3) by (simp add: an'_def sint_minus)
      ultimately have "sint an = sint MinInt64" using int64_bounds(2) [of an] by auto
      then show False using assms(3) unfolding sint_inj by contradiction
    qed
    have q: "of_int (sint an') / of_int (sint bn') = (of_int (sint an) / of_int (sint bn) :: rat)"
      using assms by (auto simp: an'_def bn'_def sint_minus)
    have r: "r = of_int (sint an) / of_int (sint ad) / (of_int (sint bn) / of_int (sint bd))"
      using 4 \<open>rat_op _ _ _ = _\<close> by (simp add: rat_op_def)
    have "of_int (sint an') / of_int (sint ad) * (of_int (sint bd) / of_int (sint bn')) =
        of_int (sint an') / of_int (sint bn') * (of_int (sint bd) / of_int (sint ad) :: rat)" by simp
    also have "\<dots> = r" unfolding q r by simp
    finally have "of_int (sint an') / of_int (sint ad) * (of_int (sint bd) / of_int (sint bn')) = r" .
    then show ?thesis using smallRatMul_exact [OF assms(1) b a assms(4) m] by simp
  qed
qed

section \<open>Each result is the rational it should be\<close>

lemma sizedRat_eq:
  "sizedRat r m = (if rat_bits r > m then Inl (ErrRationalSizeLimit (rat_bits r)) else Inr (RatValue r))"
  by (simp add: sizedRat_def rat_bits_def)

lemma sizedValue_RatValue: "sizedValue (RatValue r) m = sizedRat r m"
  by (simp add: sizedValue_def RatBitLen_eq sizedRat_eq)

lemma floor_Num: "\<lfloor>r\<rfloor> = Num r div Denom r"
  by (metis Num_Denom floor_divide_of_int_eq)

lemma trunc_Num: "Num r sdiv Denom r = rat_trunc r"
proof -
  have n: "Num (- r) = - Num r" "Denom (- r) = Denom r" by (simp_all add: rat_uminus_code split: prod.split)
  have s: "Num r < 0 \<longleftrightarrow> r < 0" using sign_of_Num [of r] sign_of_cases(1) by metis
  have "Num r sdiv Denom r = (if Num r < 0 then - (- Num r div Denom r) else Num r div Denom r)"
    using abs_of_pos [OF Denom_pos [of r]] sgn_pos [OF Denom_pos [of r]]
    by (simp add: signed_divide_int_def sgn_if del: sgn_pos)
  then show ?thesis unfolding rat_trunc_def floor_Num n s .
qed

lemma RatArith_eq:
  assumes "number a" "number b"
  shows "RatArith op a b m =
    (if (op = OpDiv \<or> op = OpMod) \<and> ratView b = 0 then Inl ErrDivisionByZero
     else case rat_op op (ratView a) (ratView b) of
       None \<Rightarrow> Inl ErrArithmeticDomain
     | Some r \<Rightarrow> sizedRat r m)"
proof (cases "(op = OpDiv \<or> op = OpMod) \<and> ratView b = 0")
  case True
  then show ?thesis by (simp add: RatArith_def RatSign_eq [OF assms(2)] sign_of_cases)
next
  case nz: False
  then have g: "\<not> ((op = OpDiv \<or> op = OpMod) \<and> RatSign b = 0)" by (simp add: RatSign_eq [OF assms(2)] sign_of_cases)
  show ?thesis
  proof (cases "case (small a, small b) of
      (Some (an, ad), Some (bn, bd)) \<Rightarrow> smallRatArith op an ad bn bd | _ \<Rightarrow> None")
    case None
    then show ?thesis using g nz unfolding RatArith_def None
      by (cases op) (simp_all add: rat_op_def Let_def trunc_Num)
  next
    case (Some v)
    then obtain an ad bn bd where s: "small a = Some (an, ad)" "small b = Some (bn, bd)"
        and v: "smallRatArith op an ad bn bd = Some v"
      by (auto split: option.splits)
    note a = small_terms_of [OF assms(1) s(1)] and b = small_terms_of [OF assms(2) s(2)]
    have "bd \<noteq> MinInt64" using b(4) by auto
    moreover have "sint bn \<noteq> 0" if "op = OpDiv"
      using nz that small_ratView [OF assms(2) s(2)] by (simp del: sint_0_iff)
    moreover obtain r where r: "rat_op op (ratView a) (ratView b) = Some r"
      using v by (auto simp: smallRatArith_def rat_op_def split: if_splits)
    ultimately have "v = RatValue r"
      using smallRatArith_exact [OF a(4) b(4) a(3) _ b(3) _ v] small_ratView [OF assms(1) s(1)] small_ratView [OF assms(2) s(2)]
      by metis
    then show ?thesis using g nz r unfolding RatArith_def Some by (simp add: Let_def RatBitLen_eq sizedRat_eq)
  qed
qed

lemma number_eq_RatValue: "number v \<Longrightarrow> Kind v = ValRational \<Longrightarrow> ratView v = r \<Longrightarrow> v = RatValue r"
  using Rational_eq [of v] by simp

lemma RatNeg_eq:
  assumes "number v"
  shows "RatNeg v = (if Kind v = ValInt then BigIntValue (- bigView v) else RatValue (- ratView v))"
proof (cases "Kind v = ValInt")
  case False
  then have v: "Rational v" using number_cases [OF assms] assms by simp
  show ?thesis
  proof (cases "ext v")
    case None
    note d = RationalD [OF v]
    define w where "w = no_Value\<lparr>Kind := ValRational, IntV := - IntV v, den := den v\<rparr>"
    have "sint (- IntV v) = - sint (IntV v)" using d(6) [OF None] by (rule sint_minus)
    moreover have "- IntV v \<noteq> MinInt64"
    proof
      assume "- IntV v = MinInt64"
      then have "sint (- IntV v) = - 9223372036854775808" by simp
      then show False using calculation int64_bounds(2) [of "IntV v"] by linarith
    qed
    moreover have "den v \<noteq> 0" using d(4) [OF None] by auto
    ultimately have "number w" "ratView w = - ratView v"
      using d(5) [OF None] None v by (simp_all add: w_def number_def no_Value_def ratView_def)
    then have "w = RatValue (- ratView v)" by (intro number_eq_RatValue) (simp_all add: w_def)
    then show ?thesis using False None by (simp add: RatNeg_def w_def)
  qed (use False in \<open>simp add: RatNeg_def ratView_def\<close>)
qed (use assms in \<open>simp add: RatNeg_def IntNeg_eq\<close>)

lemma RatNeg_number:
  assumes "number v" shows "number (RatNeg v)" "Kind (RatNeg v) = Kind v" "ratView (RatNeg v) = - ratView v"
  using number_cases [OF assms] assms ratView_Integer [of v] ratView_Integer [of "BigIntValue (- bigView v)"]
  by (auto simp: RatNeg_eq)

lemma RatAbs_number:
  assumes "number v" shows "number (RatAbs v)" "Kind (RatAbs v) = Kind v" "ratView (RatAbs v) = \<bar>ratView v\<bar>"
  using RatNeg_number [OF assms] assms by (simp_all add: RatAbs_def RatSign_eq sign_of_def)

lemma sign_of_cross:
  assumes "0 < sint d" "0 < sint f"
  shows "sign_of (sint n * sint f - sint m * sint d) = sign_of (of_int (sint n) / of_int (sint d) - of_int (sint m) / of_int (sint f) :: rat)"
proof -
  have p: "0 < (of_int (sint d) * of_int (sint f) :: rat)" using assms by (simp del: sint_0_iff)
  have "of_int (sint n) / of_int (sint d) - of_int (sint m) / of_int (sint f) =
      (of_int (sint n * sint f - sint m * sint d) / (of_int (sint d) * of_int (sint f)) :: rat)"
    using assms by (simp add: diff_frac_eq del: sint_0_iff)
  then show ?thesis using p less_asym [OF p] by (simp add: sign_of_def zero_less_divide_iff divide_less_0_iff del: sint_0_iff of_int_mult of_int_diff)
qed

lemma CompareRat_eq:
  assumes "number a" "number b" shows "CompareRat a b = sign_of (ratView a - ratView b)"
proof (cases "Kind a = ValInt \<and> Kind b = ValInt")
  case True
  then show ?thesis using assms ratView_Integer [of a] ratView_Integer [of b]
    by (simp add: CompareRat_def CompareInt_eq flip: of_int_diff)
next
  case k: False
  show ?thesis
  proof (cases "case (small a, small b) of
      (Some (an, ad), Some (bn, bd)) \<Rightarrow> (case (mulInt an bd, mulInt bn ad) of (Some l, Some r) \<Rightarrow> Some (l, r) | _ \<Rightarrow> None)
    | _ \<Rightarrow> None")
    case None
    then show ?thesis unfolding CompareRat_def None if_not_P [OF k] by simp
  next
    case (Some p)
    then obtain an ad bn bd l r where s: "small a = Some (an, ad)" "small b = Some (bn, bd)"
        and lr: "sint l = sint an * sint bd" "sint r = sint bn * sint ad" "p = (l, r)"
      by (auto simp: mulInt_checked checked64_eq_Some split: option.splits)
    have "sign_of (sint l - sint r) = sign_of (ratView a - ratView b)"
      unfolding lr small_ratView [OF assms(1) s(1)] small_ratView [OF assms(2) s(2)]
      using small_terms_of(4) [OF assms(1) s(1)] small_terms_of(4) [OF assms(2) s(2)] by (rule sign_of_cross)
    moreover have "CompareRat a b = (if go_less l r then - 1 else if go_less r l then 1 else 0)"
      using k unfolding CompareRat_def Some lr if_not_P [OF k] by simp
    ultimately show ?thesis by (simp add: go_less_def sign_of_def split: if_splits)
  qed
qed

lemma Equal_iff:
  assumes "number v" "number w" shows "Equal v w \<longleftrightarrow> v = w"
proof -
  have r: "real_equal 0 0" by (simp add: real_equal_def Let_def)
  have z: "RealV v = 0" "RealV w = 0" using assms by (simp_all add: number_def)
  have "Equal v w \<longleftrightarrow> Kind v = Kind w \<and> ratView v = ratView w" if "Kind v = Kind w"
    using number_cases [OF assms(1)] that assms ratView_Integer [of v] ratView_Integer [of w]
    by (auto simp: Equal_def CompareInt_eq CompareRat_eq sign_of_cases)
  moreover have "\<not> Equal v w" if "Kind v \<noteq> Kind w" using that by (auto simp: Equal_def)
  ultimately show ?thesis using number_unique [OF assms] by blast
qed

lemma go_floor:
  fixes n d :: int
  assumes "0 < d" shows "(if n smod d \<noteq> 0 \<and> n < 0 then n sdiv d - 1 else n sdiv d) = n div d"
proof (cases "n < 0")
  case True
  have s: "n sdiv d = - (- n div d)" "n smod d = - (- n mod d)"
    using True assms by (simp_all add: signed_divide_int_def signed_modulo_int_def)
  have "n mod d \<noteq> d" using pos_mod_bound [OF assms, of n] by linarith
  then show ?thesis using True assms unfolding s by (simp add: zdiv_zminus1_eq_if [of d n, simplified] zmod_zminus1_eq_if split: if_splits)
qed (use assms in \<open>simp add: signed_divide_int_def sgn_if\<close>)


lemma in_int64_div: "in_int64 n \<Longrightarrow> 0 < d \<Longrightarrow> in_int64 (n div d)" for n d :: int
proof -
  assume n: "in_int64 n" and d: "0 < d"
  have b: "- 9223372036854775808 * d \<le> n" "n \<le> 9223372036854775807 * d"
    using n d unfolding in_int64_iff by linarith+
  have "- 9223372036854775808 * d div d \<le> n div d" "n div d \<le> 9223372036854775807 * d div d"
    using b d by (intro zdiv_mono1; simp)+
  then show ?thesis unfolding nonzero_mult_div_cancel_right [OF less_imp_neq [OF d, symmetric]] in_int64_iff by simp
qed

lemma one64: "sint (1 :: int64) = 1"
  by simp

lemma RatFloor_eq:
  assumes "number v" shows "RatFloor v = BigIntValue \<lfloor>ratView v\<rfloor>"
proof (cases "Kind v = ValInt")
  case True
  then show ?thesis using assms Integer_eq [of v] ratView_Integer [of v] by (simp add: RatFloor_def)
next
  case False
  then have v: "Rational v" using number_cases [OF assms] assms by simp
  show ?thesis
  proof (cases "ext v")
    case None
    define d :: int64 and n where "d = ucast (den v)" and "n = IntV v"
    have d: "0 < sint d" "sint d = Denom (ratView v)" using RationalD(4) [OF v None] ratView_small(2) [OF v None] by (simp_all add: d_def)
    have n: "sint n = Num (ratView v)" using ratView_small(1) [OF v None] by (simp add: n_def)
    have "\<not> (n = MinInt64 \<and> d = - 1)" using d(1) by auto
    note q = sint_go_div [OF this]
    have f: "(if go_rem n d \<noteq> 0 \<and> go_less n 0 then sint (go_div n d) - 1 else sint (go_div n d)) = sint n div sint d"
      using go_floor [OF d(1), of "sint n"] sint_go_rem [of n d] by (simp only: go_less_def q sint_0 flip: sint_0_iff [of "go_rem n d"])
    have "in_int64 (sint n div sint d)" using d(1) by (intro in_int64_div) simp_all
    then have "sint (if go_rem n d \<noteq> 0 \<and> go_less n 0 then go_div n d - 1 else go_div n d) = sint n div sint d"
      using f by (cases "go_rem n d \<noteq> 0 \<and> go_less n 0") (simp only: if_True if_False sint_ops(2) one64 wrap64_id simp_thms)+
    then have "IntValue (if go_rem n d \<noteq> 0 \<and> go_less n 0 then go_div n d - 1 else go_div n d) = BigIntValue (sint n div sint d)"
      by (metis BigIntValue_sint)
    then show ?thesis using False None by (simp add: RatFloor_def floor_Num d(2) n Let_def flip: d_def n_def)
  next
    case (Some r)
    then show ?thesis using False by (simp add: RatFloor_def ratView_def floor_Num)
  qed
qed

lemma RatTrunc_eq:
  assumes "number v" shows "RatTrunc v = BigIntValue (rat_trunc (ratView v))"
  using RatNeg_number [OF assms] assms
  by (simp add: RatTrunc_def RatSign_eq sign_of_def RatFloor_eq IntNeg_eq rat_trunc_def)

text \<open>The nearest integer, a half away from zero.\<close>

definition rat_round :: "rat \<Rightarrow> int" where
  "rat_round r = (if r < 0 then - \<lfloor>- r + 1 / 2\<rfloor> else \<lfloor>r + 1 / 2\<rfloor>)"

lemma rat_round_of_int: "rat_round (of_int i) = i"
proof -
  have "\<lfloor>of_int j + 1 / 2 :: rat\<rfloor> = j" for j by (rule floor_unique) simp_all
  from this [of i] this [of "- i"] show ?thesis by (simp add: rat_round_def)
qed

lemma one_not_MinInt64: "(1 :: int64) \<noteq> MinInt64"
  using sint_inj [of 1 MinInt64] by simp

lemma RatRound_eq:
  assumes "number v" "rat_bits (\<bar>ratView v\<bar> + 1 / 2) \<le> MaxInt64"
  shows "RatRound v = BigIntValue (rat_round (ratView v))"
proof (cases "Kind v = ValInt")
  case True
  then show ?thesis using assms Integer_eq [of v] ratView_Integer [of v] by (simp add: RatRound_def rat_round_of_int)
next
  case False
  define half where "half = no_Value\<lparr>Kind := ValRational, IntV := 1, den := 2\<rparr>"
  have h: "number half" "ratView half = 1 / 2" by (simp_all add: half_def number_def no_Value_def ratView_def one_not_MinInt64)
  have "RatArith OpAdd (RatAbs v) half MaxInt64 = Inr (RatValue (\<bar>ratView v\<bar> + 1 / 2))"
    using RatArith_eq [OF RatAbs_number(1) [OF assms(1)] h(1), of OpAdd MaxInt64] assms
    by (simp add: rat_op_def RatAbs_number h(2) sizedRat_eq)
  then show ?thesis using False assms(1)
    by (simp add: RatRound_def RatFloor_eq RatSign_eq sign_of_def IntNeg_eq rat_round_def Let_def flip: half_def)
qed


section \<open>Powers\<close>

definition rat_outcome :: "int \<Rightarrow> rat \<Rightarrow> Value num_result \<Rightarrow> bool" where
  "rat_outcome m r res =
     (if rat_bits r \<le> m then res = Inr (RatValue r)
      else case res of Inl (ErrRationalSizeLimit k) \<Rightarrow> m \<le> k \<and> k \<le> rat_bits r | _ \<Rightarrow> False)"

lemma sign_of_neg: "sign_of x < 0 \<longleftrightarrow> x < 0"
  by (simp add: sign_of_def)

lemma sizedRat_outcome: "rat_outcome m r (sizedRat r m)"
  by (simp add: rat_outcome_def sizedRat_eq)

lemma RatValue_int: "- (2 ^ 63) < i \<Longrightarrow> i < 2 ^ 63 \<Longrightarrow>
  RatValue (of_int i) = no_Value\<lparr>Kind := ValRational, IntV := word_of_int i, den := 1\<rparr>"
  by (simp add: RatValue_eq fits_small_def)

lemma RatOf_eq:
  assumes "number v" shows "RatOf v = RatValue (ratView v)"
proof (cases "Kind v = ValInt")
  case True
  then have v: "Integer v" using assms by simp
  show ?thesis
  proof (cases "ext v")
    case None
    show ?thesis
    proof (cases "IntV v = MinInt64")
      case False
      then have "sint (IntV v) \<noteq> - 9223372036854775808" using sint_inj [of "IntV v" MinInt64] by simp
      then have "RatValue (of_int (sint (IntV v))) = no_Value\<lparr>Kind := ValRational, IntV := IntV v, den := 1\<rparr>"
        using int64_bounds [of "IntV v"] RatValue_int [of "sint (IntV v)"] by simp
      then show ?thesis using True None False by (simp add: RatOf_def ratView_def)
    qed (use True None in \<open>simp add: RatOf_def ratView_def\<close>)
  next
    case (Some r)
    then have "\<not> in_int64 (Num r)" using IntegerD(5) [OF v] by blast
    then have "\<not> fits_small r" by (auto simp: fits_small_def in_int64_def)
    then show ?thesis using True Some by (simp add: RatOf_def ratView_def RatValue_eq)
  qed
next
  case False
  then show ?thesis using number_cases [OF assms] Rational_eq [of v] assms by (simp add: RatOf_def)
qed

lemma coprime_power_pair: "coprime (a :: int) b \<Longrightarrow> coprime (a ^ n) (b ^ n)"
  by simp

lemma quotient_of_power:
  "quotient_of (r ^ n) = (Num r ^ n, Denom r ^ n)"
proof -
  have "r ^ n = of_int (Num r ^ n) / of_int (Denom r ^ n)"
    using Num_Denom [of r] by (metis of_int_power power_divide)
  then show ?thesis using quotient_of_coprime_div [of "Num r ^ n" "Denom r ^ n"] Denom_pos [of r]
    by (simp add: coprime_power_pair)
qed

lemma rat_bits_power: "rat_bits (r ^ n) = BitLen (Num r ^ n) + BitLen (Denom r ^ n)"
  by (simp add: rat_bits_def quotient_of_power)

lemma rat_bits_inverse:
  assumes "r \<noteq> 0" shows "rat_bits (inverse r) = rat_bits r"
proof -
  obtain a b where q: "quotient_of r = (a, b)" by fastforce
  then have ab: "coprime a b" "0 < b" by (simp_all add: quotient_of_coprime quotient_of_denom_pos)
  have r: "r = of_int a / of_int b" by (rule quotient_of_div [OF q])
  then have a: "a \<noteq> 0" using assms by auto
  have "quotient_of (inverse r) = (if a < 0 then (- b, - a) else (b, a))"
  proof (cases "a < 0")
    case True
    then have "quotient_of (of_int (- b) / of_int (- a)) = (- b, - a)"
      using ab(1) by (intro quotient_of_coprime_div) (simp_all add: coprime_commute)
    then show ?thesis using True by (simp add: r)
  next
    case False
    then have "quotient_of (of_int b / of_int a) = (b, a)"
      using ab(1) a by (intro quotient_of_coprime_div) (simp_all add: coprime_commute)
    then show ?thesis using False by (simp add: r)
  qed
  then show ?thesis by (simp add: rat_bits_def q)
qed

lemma powi_terms:
  "r powi i =
     (if i < 0 then of_int (Denom r ^ nat (- i)) / of_int (Num r ^ nat (- i))
      else of_int (Num r ^ nat i) / of_int (Denom r ^ nat i))"
proof -
  have p: "r ^ k = of_int (Num r ^ k) / of_int (Denom r ^ k)" for k
    using Num_Denom [of r] by (metis of_int_power power_divide)
  show ?thesis by (simp add: power_int_def power_inverse p [of "nat i"] p [of "nat (- i)"] del: of_int_power)
qed

lemma rat_bits_powi: "r \<noteq> 0 \<Longrightarrow> rat_bits (r powi n) = rat_bits (r ^ nat \<bar>n\<bar>)"
  using rat_bits_inverse [of "r ^ nat (- n)"] by (simp add: power_int_def power_inverse)

lemma rat_bits_one: "\<bar>Num r\<bar> = 1 \<Longrightarrow> Denom r = 1 \<Longrightarrow> rat_bits r = 2"
  using BitLen_le_iff [of "Num r" 1] BitLen_gr_iff [of 0 "Num r"] by (simp add: rat_bits_def BitLen_def)

lemma BitLen_power_term:
  assumes "0 \<le> e" "t \<noteq> 0" shows "(if \<bar>t\<bar> \<noteq> 1 then (BitLen t - 1) * e + 1 else 0) \<le> BitLen (t ^ nat e)"
  using BitLen_power [OF assms(2), of "nat e"] assms(1) by simp

lemma RatPow_outcome:
  assumes "64 \<le> m" "m \<le> MaxInt64" "number base" "Integer n" "ratView base \<noteq> 0 \<or> 0 \<le> bigView n"
  shows "rat_outcome m (ratView base powi bigView n) (RatPow base n m)"
proof -
  define r i where "r = ratView base" and "i = bigView n"
  have one: "no_Value\<lparr>Kind := ValRational, IntV := 1, den := 1\<rparr> = RatValue 1"
    using RatValue_int [of 1] by simp
  have mone: "no_Value\<lparr>Kind := ValRational, IntV := - 1, den := 1\<rparr> = RatValue (- 1)"
    using RatValue_int [of "- 1"] by simp
  have sized: "rat_outcome m s (Inr (RatValue s))" if "s \<in> {0, 1, -1}" for s
    using that assms(1) by (auto simp: rat_outcome_def rat_bits_def BitLen_def)
  have P: "RatPow base n m =
     (if i = 0 then Inr (RatValue 1)
      else if r = 0 then (if i < 0 then Inl ErrArithmeticDomain else Inr (RatValue 0))
      else if \<bar>Num r\<bar> = 1 \<and> Denom r = 1 then if Num r > 0 \<or> even i then Inr (RatValue 1) else Inr (RatValue (- 1))
      else
        let e = \<bar>i\<bar>; term = \<lambda>t. if \<bar>t\<bar> \<noteq> 1 then (BitLen t - 1) * e + 1 else 0; lower = term (Num r) + term (Denom r)
        in if \<not> in_int64 lower \<or> lower > m
           then Inl (ErrRationalSizeLimit (if in_int64 lower then lower else MaxInt64))
           else
             let pn = Num r ^ nat e; pd = Denom r ^ nat e; (pn, pd) = (if i < 0 then (pd, pn) else (pn, pd))
             in sizedRat (of_int pn / of_int pd) m)"
  proof -
    have c: "\<bar>Num r\<bar> = \<bar>Denom r\<bar> \<and> Denom r = 1 \<longleftrightarrow> \<bar>Num r\<bar> = 1 \<and> Denom r = 1" by auto
    have z: "(if r = 0 then if i < 0 then x else Inr (RatValue r) else y) = (if r = 0 then if i < 0 then x else Inr (RatValue 0) else y)"
      for x y :: "Value num_result" by simp
    show ?thesis
      unfolding RatPow_def one mone IntSign_eq RatSign_eq [OF assms(3)] RatOf_eq [OF assms(3)] sign_of_cases sign_of_neg
        r_def [symmetric] i_def [symmetric] c Let_def
      by (simp only: z)
  qed
  consider "i = 0" | "i \<noteq> 0" "r = 0" | "i \<noteq> 0" "r \<noteq> 0" "\<bar>Num r\<bar> = 1 \<and> Denom r = 1"
    | "i \<noteq> 0" "r \<noteq> 0" "\<not> (\<bar>Num r\<bar> = 1 \<and> Denom r = 1)" by blast
  then have "rat_outcome m (r powi i) (RatPow base n m)"
  proof cases
    case 1
    then show ?thesis unfolding P using sized by simp
  next
    case 2
    moreover have "\<not> i < 0" using 2 assms(5) by (simp add: r_def i_def)
    ultimately show ?thesis unfolding P using sized by (simp add: power_int_0_left)
  next
    case 3
    then have "r = of_int (Num r)" using Denom_1_iff by blast
    then have "r = 1 \<or> r = - 1" using 3 by (metis abs_eq_iff of_int_1 of_int_minus abs_1)
    then show ?thesis
    proof
      assume "r = 1"
      then show ?thesis unfolding P using 3 sized by simp
    next
      assume "r = - 1"
      then show ?thesis unfolding P using 3 sized by (simp add: power_int_minus_left)
    qed
  next
    case 4
    define e where "e = \<bar>i\<bar>"
    define lower where "lower = (if \<bar>Num r\<bar> \<noteq> 1 then (BitLen (Num r) - 1) * e + 1 else 0) +
      (if \<bar>Denom r\<bar> \<noteq> 1 then (BitLen (Denom r) - 1) * e + 1 else 0)"
    have nz: "Num r \<noteq> 0" "Denom r \<noteq> 0" using 4(2) sign_of_Num [of r] sign_of_cases(3) Denom_pos [of r]
      by (metis, linarith)
    have bits: "rat_bits (r powi i) = BitLen (Num r ^ nat e) + BitLen (Denom r ^ nat e)"
      using 4(2) by (simp add: rat_bits_powi rat_bits_power e_def)
    have "lower \<le> rat_bits (r powi i)"
      unfolding bits lower_def by (intro add_mono BitLen_power_term nz) (simp_all add: e_def)
    moreover have "0 \<le> lower"
      using nz BitLen_gr_iff [of 0 "Num r"] BitLen_gr_iff [of 0 "Denom r"] by (simp add: lower_def e_def)
    moreover have R: "RatPow base n m =
        (if \<not> in_int64 lower \<or> lower > m then Inl (ErrRationalSizeLimit (if in_int64 lower then lower else MaxInt64))
         else sizedRat (r powi i) m)"
      unfolding P powi_terms [of r i] using 4 by (simp add: Let_def lower_def e_def del: of_int_power)
    ultimately show ?thesis
    proof (cases "in_int64 lower")
      case False
      then have "MaxInt64 < lower" using \<open>0 \<le> lower\<close> unfolding in_int64_iff MaxInt64_def by auto
      then show ?thesis unfolding R using False \<open>lower \<le> _\<close> assms(2) by (simp add: rat_outcome_def)
    qed (auto simp: rat_outcome_def sizedRat_eq)
  qed
  then show ?thesis by (simp add: r_def i_def)
qed

end
