(* ===== verification/Exact_Texts.thy ===== *)
theory Exact_Texts
  imports Exact_Rationals
begin

text \<open>
  The notation of Rationals (\<open>internal/semantic/semantics/rational.go\<close> and \<open>isRealNotation\<close> of
  \<open>eval.go\<close>): reading decimal and fraction notation exactly, and writing a Rational as a terminating
  decimal or as a fraction.

  \<open>log10_bits k\<close> stands for \<open>int64(float64(k) * math.Log2(10))\<close>, the estimate by which
  \<open>ParseRational\<close> refuses a notation before it computes the number; it is a parameter because the
  product is rounded to binary64. What the theorems need of it is at most \<open>log10_bits k \<le> 4 * k\<close>,
  as \<open>math.Log2(10)\<close> is below four.
\<close>

section \<open>Reading\<close>

text \<open>A sign at the head, \<open>i++\<close> over it.\<close>

definition skip_sign :: "string \<Rightarrow> string" where
  "skip_sign s = (if s \<noteq> [] \<and> (hd s = CHR ''+'' \<or> hd s = CHR ''-'') then tl s else s)"

definition isRealNotation :: "string \<Rightarrow> bool" where
  "isRealNotation s =
     (let s = skip_sign s;
          digits = length (takeWhile is_digit s); s = dropWhile is_digit s;
          (digits, s) =
            (if s \<noteq> [] \<and> hd s = CHR ''.''
             then (digits + length (takeWhile is_digit (tl s)), dropWhile is_digit (tl s))
             else (digits, s))
      in if digits = 0 then False
         else if s \<noteq> [] \<and> (hd s = CHR ''e'' \<or> hd s = CHR ''E'') then
           let s = skip_sign (tl s)
           in if takeWhile is_digit s = [] then False else dropWhile is_digit s = []
         else s = [])"

definition trim_left_zeros :: "string \<Rightarrow> string" where
  "trim_left_zeros s = dropWhile (\<lambda>c. c = CHR ''0'') s"

definition trim_right_zeros :: "string \<Rightarrow> string" where
  "trim_right_zeros s = rev (dropWhile (\<lambda>c. c = CHR ''0'') (rev s))"

text \<open>\<open>strings.Cut(s, sep)\<close> at a one-byte separator.\<close>

definition cut_at :: "char \<Rightarrow> string \<Rightarrow> string \<times> string \<times> bool" where
  "cut_at c s = (takeWhile (\<lambda>x. x \<noteq> c) s, tl (dropWhile (\<lambda>x. x \<noteq> c) s), c \<in> set s)"

fun pow10 :: "nat \<Rightarrow> int64" where
  "pow10 0 = 1"
| "pow10 (Suc k) = pow10 k * 10"

definition digits_int64 :: "string \<Rightarrow> int64" where
  "digits_int64 s = foldl (\<lambda>n c. n * 10 + of_nat (digit_value c)) 0 s"

text \<open>The number a notation's parts spell; \<open>ParseRational\<close> from its \<open>whole\<close>, \<open>fraction\<close> and \<open>exponent\<close> on.\<close>

definition read_decimal :: "(int \<Rightarrow> int) \<Rightarrow> bool \<Rightarrow> string \<Rightarrow> string \<Rightarrow> string \<Rightarrow> int \<Rightarrow> Value num_result" where
  "read_decimal log10_bits neg whole fraction exponent maxBits =
     (if exponent = [] \<and> length whole + length fraction \<le> 18 then
        let n = digits_int64 (whole @ fraction); n = (if neg then - n else n);
            v = FracValue n (pow10 (length fraction))
        in sizedValue (case v of Some v \<Rightarrow> v | None \<Rightarrow> no_Value) maxBits
      else
        let digits = trim_left_zeros (whole @ fraction)
        in if digits = [] then Inr (no_Value\<lparr>Kind := ValRational, IntV := 0, den := 1\<rparr>)
           else
             case (if exponent = [] then Some 0
                   else Option.bind (ParseInt64 exponent)
                     (\<lambda>e. if sint e > MaxInt64 div 4 \<or> sint e < (- (2 ^ 63)) sdiv 4 then None else Some (sint e))) of
               None \<Rightarrow> Inl (ErrRationalSizeLimit MaxInt64)
             | Some e \<Rightarrow>
                 let trimmed = trim_right_zeros digits;
                     scale = - int (length fraction) + e + int (length digits - length trimmed);
                     digits = trimmed;
                     lower = log10_bits (int (length digits) - 1) + log10_bits \<bar>scale\<bar>
                 in if lower > maxBits then Inl (ErrRationalSizeLimit lower)
                    else if - 18 \<le> scale \<and> scale \<le> 0 \<and> length digits \<le> 18 then
                      let n = (case ParseInt64 digits of Some n \<Rightarrow> n | None \<Rightarrow> 0);
                          n = (if neg then - n else n);
                          v = FracValue n (pow10 (nat (- scale)))
                      in sizedValue (case v of Some v \<Rightarrow> v | None \<Rightarrow> no_Value) maxBits
                    else
                      let n = int (digits_value digits); n = (if neg then - n else n);
                          p = (10 :: int) ^ nat \<bar>scale\<bar>
                      in sizedRat (if scale \<ge> 0 then of_int (n * p) else of_int n / of_int p) maxBits)"

definition ParseRational :: "(int \<Rightarrow> int) \<Rightarrow> string \<Rightarrow> int \<Rightarrow> Value num_result" where
  "ParseRational log10_bits s maxBits =
     (if \<not> isRealNotation s then Inl ErrRealNotation
      else
        let mark = (\<lambda>c. c = CHR ''e'' \<or> c = CHR ''E'');
            mantissa = takeWhile (\<lambda>c. \<not> mark c) s;
            exponent = tl (dropWhile (\<lambda>c. \<not> mark c) s);
            neg = has_prefix mantissa ''-'';
            mantissa = (if neg \<or> has_prefix mantissa ''+'' then tl mantissa else mantissa);
            (whole, fraction, _) = cut_at (CHR ''.'') mantissa
        in read_decimal log10_bits neg whole fraction exponent maxBits)"

definition ParseRationalText :: "(int \<Rightarrow> int) \<Rightarrow> string \<Rightarrow> int \<Rightarrow> Value num_result" where
  "ParseRationalText log10_bits s maxBits =
     (case cut_at (CHR ''/'') s of
        (n, d, True) \<Rightarrow>
          (case (ParseInteger n, ParseInteger d) of
             (Some num, Some denom) \<Rightarrow>
               if IntSign denom = 0 then Inl ErrDivisionByZero else RatArith OpDiv num denom maxBits
           | _ \<Rightarrow> Inl ErrRealNotation)
      | _ \<Rightarrow> ParseRational log10_bits s maxBits)"

definition LowestTermsRational :: "string \<Rightarrow> string \<Rightarrow> Value option" where
  "LowestTermsRational numerator denominator =
     (case (ParseInteger numerator, ParseInteger denominator) of
        (Some num, Some denom) \<Rightarrow>
          if CompareInt denom (IntValue 1) < 0 then None
          else
            let n = BigInt num; d = BigInt denom
            in if gcd \<bar>n\<bar> d \<noteq> 1 then None else Some (RatValue (of_int n / of_int d))
      | _ \<Rightarrow> None)"

section \<open>Writing\<close>

definition formatDecimal :: "int \<Rightarrow> int \<Rightarrow> string" where
  "formatDecimal n k =
     (let sign = (if n < 0 then ''-'' else []); digits = nat_text (nat \<bar>n\<bar>)
      in if digits = ''0'' then ''0.0''
         else
           let trimmed = trim_right_zeros digits;
               k = k - int (length digits - length trimmed);
               digits = trimmed;
               exp = int (length digits) - k - 1
           in if exp < - 4 \<or> exp \<ge> 21 then
                let mantissa = take 1 digits @ (if length digits > 1 then ''.'' @ drop 1 digits else []);
                    esign = (if exp < 0 then ''-'' else ''+'');
                    e = int_text (if exp < 0 then - exp else exp);
                    e = (if length e < 2 then ''0'' @ e else e)
                in sign @ mantissa @ ''e'' @ esign @ e
              else if k \<le> 0 then sign @ digits @ replicate (nat (- k)) (CHR ''0'') @ ''.0''
              else if int (length digits) > k then
                let cut = length digits - nat k in sign @ take cut digits @ ''.'' @ drop cut digits
              else sign @ ''0.'' @ replicate (nat k - length digits) (CHR ''0'') @ digits)"

text \<open>\<open>TrailingZeroBits\<close>, and the loop dividing by five.\<close>

function strip_factor :: "int \<Rightarrow> int \<Rightarrow> nat \<times> int" where
  "strip_factor p d =
     (if p \<le> 1 \<or> d \<le> 0 \<or> d mod p \<noteq> 0 then (0, d)
      else let (k, r) = strip_factor p (d div p) in (Suc k, r))"
  by pat_completeness auto
termination
  by (relation "measure (\<lambda>(p, d). nat d)")
    (auto simp: nat_less_iff intro: int_div_less_self pos_imp_zdiv_nonneg_iff [THEN iffD2])

declare strip_factor.simps [simp del]

definition FormatRational :: "Value \<Rightarrow> string" where
  "FormatRational v =
     (let num = RatNumer v; denom = RatDenom v;
          (twos, d) = strip_factor 2 (BigInt denom);
          (fives, d) = strip_factor 5 d
      in if d \<noteq> 1 then FormatInt num @ ''/'' @ FormatInt denom
         else
           let k = max twos fives; scaled = (BigInt num * 10 ^ k) sdiv bigView denom
           in formatDecimal scaled (int k))"

section \<open>Digits\<close>

lemma digits_value_append: "digits_value (a @ b) = digits_value a * 10 ^ length b + digits_value b"
  by (induction b rule: rev_induct) (simp_all add: digits_value_snoc append_assoc [symmetric] algebra_simps
    del: append_assoc, simp add: digits_value_def)

lemma digits_value_Nil [simp]: "digits_value [] = 0"
  by (simp add: digits_value_def)

lemma digits_value_zeros [simp]: "digits_value (replicate k (CHR ''0'')) = 0"
  by (induction k) (simp_all add: digits_value_def digit_value_def)

lemma digit_value_le: "is_digit c \<Longrightarrow> digit_value c \<le> 9"
  by (auto simp: is_digit_def in_range_def less_eq_char_def digit_value_def)

lemma digit_value_0: "is_digit c \<Longrightarrow> digit_value c = 0 \<longleftrightarrow> c = CHR ''0''"
proof -
  assume "is_digit c"
  then have "48 \<le> (of_char c :: nat)" by (simp add: is_digit_def in_range_def less_eq_char_def)
  moreover have "(of_char c :: nat) = 48 \<longleftrightarrow> c = CHR ''0''"
    using of_char_eq_iff [where 'a = nat, of c "CHR ''0''"] by simp
  ultimately show ?thesis by (auto simp: digit_value_def)
qed

lemma digits_value_less: "list_all is_digit s \<Longrightarrow> digits_value s < 10 ^ length s"
proof (induction s rule: rev_induct)
  case (snoc c s)
  then have "digits_value s < 10 ^ length s" "digit_value c \<le> 9" by (simp_all add: digit_value_le)
  then have "digits_value s * 10 + digit_value c < 10 * 10 ^ length s" by linarith
  then show ?case by (simp add: digits_value_snoc)
qed simp

lemma trim_left_zeros_eq: "\<exists>k. s = replicate k (CHR ''0'') @ trim_left_zeros s"
proof -
  have "takeWhile (\<lambda>c. c = CHR ''0'') s = replicate (length (takeWhile (\<lambda>c. c = CHR ''0'') s)) (CHR ''0'')"
    by (rule replicate_length_same [symmetric]) (auto dest: set_takeWhileD)
  then show ?thesis unfolding trim_left_zeros_def by (metis takeWhile_dropWhile_id)
qed

lemma trim_right_zeros_eq: "s = trim_right_zeros s @ replicate (length s - length (trim_right_zeros s)) (CHR ''0'')"
proof -
  obtain k where "rev s = replicate k (CHR ''0'') @ trim_left_zeros (rev s)" using trim_left_zeros_eq by blast
  then have "s = rev (trim_left_zeros (rev s)) @ replicate k (CHR ''0'')"
    by (metis rev_append rev_replicate rev_rev_ident)
  then have "s = trim_right_zeros s @ replicate k (CHR ''0'')" by (simp add: trim_right_zeros_def trim_left_zeros_def)
  then show ?thesis by (metis add_diff_cancel_left' length_append length_replicate)
qed

lemma digits_value_trim_left: "digits_value (trim_left_zeros s) = digits_value s"
  using trim_left_zeros_eq [of s] by (metis add.left_neutral digits_value_append digits_value_zeros mult_0)

lemma digits_value_trim_right:
  "digits_value s = digits_value (trim_right_zeros s) * 10 ^ (length s - length (trim_right_zeros s))"
  by (metis add.right_neutral digits_value_append digits_value_zeros length_replicate trim_right_zeros_eq)

lemma trim_left_digits: "list_all is_digit s \<Longrightarrow> list_all is_digit (trim_left_zeros s)"
  by (metis list_all_append trim_left_zeros_eq)

lemma trim_right_digits: "list_all is_digit s \<Longrightarrow> list_all is_digit (trim_right_zeros s)"
  by (metis list_all_append trim_right_zeros_eq)

lemma trim_left_Nil: "list_all is_digit s \<Longrightarrow> trim_left_zeros s = [] \<longleftrightarrow> digits_value s = 0"
proof
  assume d: "list_all is_digit s" and z: "digits_value s = 0"
  show "trim_left_zeros s = []"
  proof (rule ccontr)
    assume n: "trim_left_zeros s \<noteq> []"
    then obtain c r where c: "trim_left_zeros s = c # r" by (meson neq_Nil_conv)
    then have "c \<noteq> CHR ''0''" using hd_dropWhile [of "\<lambda>c. c = CHR ''0''" s] by (simp add: trim_left_zeros_def)
    moreover have "is_digit c" using trim_left_digits [OF d] c by simp
    ultimately have "digits_value [c] \<noteq> 0" using digit_value_0 by (simp add: digits_value_def)
    then have "digits_value (trim_left_zeros s) \<noteq> 0" using digits_value_append [of "[c]" r] c by simp
    then show False using z by (simp add: digits_value_trim_left)
  qed
qed (metis digits_value_Nil digits_value_trim_left)

lemma digits_int64_eq: "digits_int64 s = of_nat (digits_value s)"
  by (induction s rule: rev_induct) (simp_all add: digits_int64_def digits_value_def)

lemma sint_of_nat64: "n < 9223372036854775808 \<Longrightarrow> sint (of_nat n :: int64) = int n"
  using sint_of_int [of "int n"] by (simp add: in_int64_iff)

lemma power10_le: "k \<le> 18 \<Longrightarrow> (10 :: nat) ^ k \<le> 1000000000000000000"
  using power_increasing [of k 18 "10 :: nat"] by simp

lemma sint_digits_int64: "list_all is_digit s \<Longrightarrow> length s \<le> 18 \<Longrightarrow> sint (digits_int64 s) = int (digits_value s)"
  unfolding digits_int64_eq using digits_value_less [of s] power10_le [of "length s"] by (intro sint_of_nat64) linarith

lemma pow10_eq: "pow10 k = of_nat (10 ^ k)"
  by (induction k) simp_all

lemma sint_pow10: "k \<le> 18 \<Longrightarrow> sint (pow10 k) = 10 ^ k"
proof -
  assume "k \<le> 18"
  then have "sint (pow10 k) = int (10 ^ k)"
    unfolding pow10_eq using power10_le [of k] by (intro sint_of_nat64) linarith
  then show ?thesis by simp
qed

lemma FracValue_eq: "0 < sint d \<Longrightarrow> FracValue n d = Some (RatValue (of_int (sint n) / of_int (sint d)))"
  using smallRat_exact [of d n] by (auto simp: FracValue_def split: option.split)

section \<open>Reading computes the number spelled\<close>

definition decimal_value :: "bool \<Rightarrow> string \<Rightarrow> string \<Rightarrow> string \<Rightarrow> rat" where
  "decimal_value neg whole fraction exponent =
     (if neg then - 1 else 1) * of_nat (digits_value (whole @ fraction)) *
     10 powi (signed_value exponent - int (length fraction))"

text \<open>The digits that count, and the power of ten they are scaled by.\<close>

definition significant :: "string \<Rightarrow> string \<Rightarrow> string" where
  "significant whole fraction = trim_right_zeros (trim_left_zeros (whole @ fraction))"

definition scale_of :: "string \<Rightarrow> string \<Rightarrow> string \<Rightarrow> int" where
  "scale_of whole fraction exponent =
     - int (length fraction) + signed_value exponent
       + int (length (trim_left_zeros (whole @ fraction)) - length (significant whole fraction))"

definition estimate :: "(int \<Rightarrow> int) \<Rightarrow> string \<Rightarrow> string \<Rightarrow> string \<Rightarrow> int" where
  "estimate log10_bits whole fraction exponent =
     log10_bits (int (length (significant whole fraction)) - 1) + log10_bits \<bar>scale_of whole fraction exponent\<bar>"

definition exponent_ok :: "string \<Rightarrow> bool" where
  "exponent_ok exponent =
     (exponent = [] \<or> isIntegerNotation exponent \<and> - (2 ^ 61) \<le> signed_value exponent \<and> signed_value exponent < 2 ^ 61)"

lemma signed_value_Nil [simp]: "signed_value [] = 0"
  by (simp add: signed_value_def sign_split_def)

lemma decimal_value_scaled:
  "decimal_value neg whole fraction exponent =
     (if neg then - 1 else 1) * of_nat (digits_value (significant whole fraction)) * 10 powi scale_of whole fraction exponent"
proof -
  define d where "d = length (trim_left_zeros (whole @ fraction)) - length (significant whole fraction)"
  have "digits_value (whole @ fraction) = digits_value (significant whole fraction) * 10 ^ d"
    using digits_value_trim_right [of "trim_left_zeros (whole @ fraction)"] digits_value_trim_left [of "whole @ fraction"]
    by (simp add: significant_def d_def)
  moreover have "(10 :: rat) powi scale_of whole fraction exponent =
      10 powi (signed_value exponent - int (length fraction)) * 10 ^ d"
    by (simp add: scale_of_def power_int_add d_def)
  ultimately show ?thesis by (simp add: decimal_value_def)
qed

lemma significant_digits: "list_all is_digit (whole @ fraction) \<Longrightarrow> list_all is_digit (significant whole fraction)"
  unfolding significant_def by (intro trim_left_digits trim_right_digits)

lemma ParseInt64_digits:
  assumes "list_all is_digit s" "s \<noteq> []" "length s \<le> 18"
  shows "ParseInt64 s = Some (of_nat (digits_value s))"
proof -
  have "\<not> is_digit (CHR ''+'')" "\<not> is_digit (CHR ''-'')" by (simp_all add: is_digit_def in_range_def less_eq_char_def)
  then have "sign_split s = (False, s)" using assms by (cases s) (auto simp: sign_split_def)
  moreover have "digits_value s < 9223372036854775808"
    using digits_value_less [OF assms(1)] power10_le [OF assms(3)] by linarith
  ultimately show ?thesis using assms by (simp add: ParseInt64_def signed_value_def in_int64_iff)
qed

lemma ParseInt64_exponent:
  assumes "exponent \<noteq> []" "isIntegerNotation exponent"
  shows "Option.bind (ParseInt64 exponent)
      (\<lambda>e. if sint e > MaxInt64 div 4 \<or> sint e < (- (2 ^ 63)) sdiv 4 then None else Some (sint e)) =
    (if exponent_ok exponent then Some (signed_value exponent) else None)"
  using assms
  by (auto simp: ParseInt64_def isIntegerNotation_eq exponent_ok_def sint_of_int in_int64_iff MaxInt64_def signed_divide_int_def Let_def)

lemma sint_negated: "sint (n :: int64) = i \<Longrightarrow> 0 \<le> i \<Longrightarrow> sint (if neg then - n else n) = (if neg then - i else i)"
proof -
  assume "sint n = i" "0 \<le> i"
  then have "n \<noteq> MinInt64" by auto
  then show ?thesis using \<open>sint n = i\<close> by (simp add: sint_minus)
qed

lemma powi_frac: "(10 :: rat) powi k = (if 0 \<le> k then 10 ^ nat k else 1 / 10 ^ nat (- k))"
  by (simp add: power_int_def inverse_eq_divide power_divide)

lemma read_decimal_eq:
  assumes d: "list_all is_digit (whole @ fraction)" and e: "exponent = [] \<or> isIntegerNotation exponent"
  shows "read_decimal log10_bits neg whole fraction exponent m =
    (if exponent = [] \<and> length whole + length fraction \<le> 18 then sizedRat (decimal_value neg whole fraction exponent) m
     else if digits_value (whole @ fraction) = 0 then Inr (RatValue 0)
     else if \<not> exponent_ok exponent then Inl (ErrRationalSizeLimit MaxInt64)
     else if estimate log10_bits whole fraction exponent > m
     then Inl (ErrRationalSizeLimit (estimate log10_bits whole fraction exponent))
     else sizedRat (decimal_value neg whole fraction exponent) m)"
proof (cases "exponent = [] \<and> length whole + length fraction \<le> 18")
  case True
  define n where "n = digits_int64 (whole @ fraction)"
  have n: "sint n = int (digits_value (whole @ fraction))" using sint_digits_int64 [OF d] True by (simp add: n_def)
  have p: "sint (pow10 (length fraction)) = 10 ^ length fraction" using True by (intro sint_pow10) simp
  have "FracValue (if neg then - n else n) (pow10 (length fraction)) =
      Some (RatValue (of_int (if neg then - int (digits_value (whole @ fraction)) else int (digits_value (whole @ fraction)))
        / of_int (10 ^ length fraction)))"
    by (subst FracValue_eq) (simp_all only: p sint_negated [OF n] of_nat_0_le_iff zero_less_power zero_less_numeral)
  moreover have "of_int (if neg then - int (digits_value (whole @ fraction)) else int (digits_value (whole @ fraction)))
      / of_int (10 ^ length fraction) = decimal_value neg whole fraction exponent"
    unfolding decimal_value_def using True by (simp add: powi_frac)
  ultimately show ?thesis using True unfolding read_decimal_def n_def by (simp add: Let_def sizedValue_RatValue)
next
  case long: False
  define t where "t = significant whole fraction"
  define scale where "scale = scale_of whole fraction exponent"
  define r where "r = decimal_value neg whole fraction exponent"
  have r: "r = of_int ((if neg then - 1 else 1) * int (digits_value t)) * 10 powi scale"
    by (simp add: r_def decimal_value_scaled t_def scale_def)
  have zero: "no_Value\<lparr>Kind := ValRational, IntV := 0, den := 1\<rparr> = RatValue 0" using RatValue_int [of 0] by simp
  have Z: "trim_left_zeros (whole @ fraction) = [] \<longleftrightarrow> digits_value (whole @ fraction) = 0" using trim_left_Nil [OF d] .
  have E: "(if exponent = [] then Some 0 else Option.bind (ParseInt64 exponent)
      (\<lambda>e. if sint e > MaxInt64 div 4 \<or> sint e < (- (2 ^ 63)) sdiv 4 then None else Some (sint e))) =
      (if exponent_ok exponent then Some (signed_value exponent) else None)"
    using ParseInt64_exponent e by (auto simp: exponent_ok_def)
  have td: "list_all is_digit t" using significant_digits [OF d] by (simp add: t_def)
  have small: "sizedValue (case FracValue (if neg then - n else n) (pow10 (nat (- scale))) of Some v \<Rightarrow> v | None \<Rightarrow> no_Value) m
      = sizedRat r m"
    if "- 18 \<le> scale" "scale \<le> 0" "length t \<le> 18" "n = (case ParseInt64 t of Some n \<Rightarrow> n | None \<Rightarrow> 0)"
      "digits_value (whole @ fraction) \<noteq> 0" for n
  proof -
    have "t \<noteq> []" using that(5) digits_value_trim_right [of "trim_left_zeros (whole @ fraction)"]
      by (auto simp: t_def significant_def digits_value_trim_left)
    then have n: "sint n = int (digits_value t)"
      using that ParseInt64_digits [OF td] digits_value_less [OF td] power10_le [of "length t"]
      by (simp add: sint_of_nat64)
    have p: "sint (pow10 (nat (- scale))) = 10 ^ nat (- scale)" using that by (intro sint_pow10) simp
    have "FracValue (if neg then - n else n) (pow10 (nat (- scale))) =
        Some (RatValue (of_int (if neg then - int (digits_value t) else int (digits_value t)) / of_int (10 ^ nat (- scale))))"
      by (subst FracValue_eq) (simp_all only: p sint_negated [OF n] of_nat_0_le_iff zero_less_power zero_less_numeral)
    moreover have "of_int (if neg then - int (digits_value t) else int (digits_value t)) / of_int (10 ^ nat (- scale)) = r"
      unfolding r using that(2) by (simp add: powi_frac)
    ultimately show ?thesis by (simp add: sizedValue_RatValue)
  qed
  have big: "sizedRat (if scale \<ge> 0 then of_int ((if neg then - n else n) * p) else of_int (if neg then - n else n) / of_int p) m
      = sizedRat r m" if "n = int (digits_value t)" "p = 10 ^ nat \<bar>scale\<bar>" for n p :: int
    unfolding that r by (simp add: powi_frac)
  show ?thesis
    unfolding read_decimal_def if_not_P [OF long] Let_def E Z zero estimate_def
    using small big
    by (simp add: r_def t_def scale_def significant_def scale_of_def)
qed

section \<open>Decimal notation\<close>

record decimal =
  dsign :: string
  dwhole :: string
  ddot :: bool
  dfraction :: string
  dmark :: string
  dexponent :: string

definition decimal_ok :: "decimal \<Rightarrow> bool" where
  "decimal_ok D =
     (dsign D \<in> {[], ''+'', ''-''} \<and> list_all is_digit (dwhole D) \<and> list_all is_digit (dfraction D) \<and>
      (ddot D \<or> dfraction D = []) \<and> dwhole D @ dfraction D \<noteq> [] \<and>
      (dmark D = [] \<and> dexponent D = [] \<or> dmark D \<in> {''e'', ''E''} \<and> isIntegerNotation (dexponent D)))"

definition dot_text :: "decimal \<Rightarrow> string" where
  "dot_text D = (if ddot D then CHR ''.'' # dfraction D else [])"

definition decimal_text :: "decimal \<Rightarrow> string" where
  "decimal_text D = dsign D @ dwhole D @ dot_text D @ dmark D @ dexponent D"

definition decimal_rat :: "decimal \<Rightarrow> rat" where
  "decimal_rat D = decimal_value (dsign D = ''-'') (dwhole D) (dfraction D) (dexponent D)"

lemma no_digit [simp]:
  "\<not> is_digit (CHR ''+'')" "\<not> is_digit (CHR ''-'')" "\<not> is_digit (CHR ''.'')"
  "\<not> is_digit (CHR ''e'')" "\<not> is_digit (CHR ''E'')" "\<not> is_digit (CHR ''/'')"
  by (simp_all add: is_digit_def in_range_def less_eq_char_def)

lemma skip_sign_sign: "sg \<in> {[], ''+'', ''-''} \<Longrightarrow> s = [] \<or> hd s \<noteq> CHR ''+'' \<and> hd s \<noteq> CHR ''-'' \<Longrightarrow> skip_sign (sg @ s) = s"
  by (auto simp: skip_sign_def)

lemma skip_sign_eq: "\<exists>sg. sg \<in> {[], ''+'', ''-''} \<and> s = sg @ skip_sign s"
  by (cases s) (auto simp: skip_sign_def)

lemma skip_sign_split: "skip_sign s = snd (sign_split s)"
  by (cases s) (auto simp: skip_sign_def sign_split_def)

lemma isIntegerNotation_skip:
  "isIntegerNotation s \<longleftrightarrow> takeWhile is_digit (skip_sign s) \<noteq> [] \<and> dropWhile is_digit (skip_sign s) = []"
  unfolding isIntegerNotation_eq skip_sign_split [symmetric]
  by (cases "skip_sign s") (auto simp: dropWhile_eq_Nil_conv list_all_iff)

lemma decimal_stops:
  assumes "decimal_ok D"
  shows "dmark D @ dexponent D = [] \<or> \<not> is_digit (hd (dmark D @ dexponent D)) \<and> hd (dmark D @ dexponent D) \<noteq> CHR ''.''"
    "dot_text D @ dmark D @ dexponent D = [] \<or> \<not> is_digit (hd (dot_text D @ dmark D @ dexponent D))"
    "hd (dwhole D @ dot_text D @ dmark D @ dexponent D) \<noteq> CHR ''+'' \<and>
     hd (dwhole D @ dot_text D @ dmark D @ dexponent D) \<noteq> CHR ''-''"
proof -
  show a: "dmark D @ dexponent D = [] \<or> \<not> is_digit (hd (dmark D @ dexponent D)) \<and> hd (dmark D @ dexponent D) \<noteq> CHR ''.''"
    using assms by (auto simp: decimal_ok_def)
  then show "dot_text D @ dmark D @ dexponent D = [] \<or> \<not> is_digit (hd (dot_text D @ dmark D @ dexponent D))"
    by (auto simp: dot_text_def)
  show "hd (dwhole D @ dot_text D @ dmark D @ dexponent D) \<noteq> CHR ''+'' \<and>
     hd (dwhole D @ dot_text D @ dmark D @ dexponent D) \<noteq> CHR ''-''"
    using assms by (cases "dwhole D") (auto simp: decimal_ok_def dot_text_def)
qed

lemma isRealNotation_decimal: "decimal_ok D \<Longrightarrow> isRealNotation (decimal_text D)"
proof -
  assume D: "decimal_ok D"
  let ?e = "dmark D @ dexponent D" and ?r = "dot_text D @ dmark D @ dexponent D"
  have d: "list_all is_digit (dwhole D)" "list_all is_digit (dfraction D)" "dwhole D @ dfraction D \<noteq> []"
    "ddot D \<or> dfraction D = []" using D by (simp_all add: decimal_ok_def)
  have s: "skip_sign (decimal_text D) = dwhole D @ ?r"
    unfolding decimal_text_def by (rule skip_sign_sign) (use D decimal_stops(3) [OF D] in \<open>auto simp: decimal_ok_def\<close>)
  note w = takeWhile_append_stop [OF d(1) decimal_stops(2) [OF D]] dropWhile_append_stop [OF d(1) decimal_stops(2) [OF D]]
  have e: "?e = [] \<or> \<not> is_digit (hd ?e)" using decimal_stops(1) [OF D] by blast
  note f = takeWhile_append_stop [OF d(2) e] dropWhile_append_stop [OF d(2) e]
  have r: "?r \<noteq> [] \<and> hd ?r = CHR ''.'' \<longleftrightarrow> ddot D" using decimal_stops(1) [OF D] by (auto simp: dot_text_def)
  have p: "(if ?r \<noteq> [] \<and> hd ?r = CHR ''.'' then (length (dwhole D) + length (takeWhile is_digit (tl ?r)), dropWhile is_digit (tl ?r))
      else (length (dwhole D), ?r)) = (length (dwhole D @ dfraction D), ?e)"
    unfolding r using d(4) f by (auto simp: dot_text_def)
  show ?thesis
  proof (cases "dmark D = []")
    case True
    then have "?e = []" using D by (auto simp: decimal_ok_def)
    then show ?thesis unfolding isRealNotation_def Let_def s w p using d(3) by simp
  next
    case False
    then have m: "dmark D \<in> {''e'', ''E''}" "isIntegerNotation (dexponent D)" using D by (auto simp: decimal_ok_def)
    then have "?e \<noteq> [] \<and> (hd ?e = CHR ''e'' \<or> hd ?e = CHR ''E'')" "tl ?e = dexponent D" by auto
    then show ?thesis unfolding isRealNotation_def Let_def s w p using d(3) m(2) by (simp add: isIntegerNotation_skip)
  qed
qed

lemma decimal_of_isRealNotation: "isRealNotation s \<Longrightarrow> \<exists>D. decimal_ok D \<and> s = decimal_text D"
proof -
  assume R: "isRealNotation s"
  obtain sg where sg: "sg \<in> {[], ''+'', ''-''}" "s = sg @ skip_sign s" using skip_sign_eq by blast
  define w r where "w = takeWhile is_digit (skip_sign s)" and "r = dropWhile is_digit (skip_sign s)"
  define dot where "dot \<longleftrightarrow> r \<noteq> [] \<and> hd r = CHR ''.''"
  define f e where "f = (if dot then takeWhile is_digit (tl r) else [])" and "e = (if dot then dropWhile is_digit (tl r) else r)"
  define mk ex where "mk = take 1 e" and "ex = drop 1 e"
  let ?D = "\<lparr>dsign = sg, dwhole = w, ddot = dot, dfraction = f, dmark = mk, dexponent = ex\<rparr>"
  have d: "list_all is_digit w" "list_all is_digit f" by (auto simp: w_def f_def list_all_iff dest: set_takeWhileD)
  have p: "(if r \<noteq> [] \<and> hd r = CHR ''.'' then (length w + length (takeWhile is_digit (tl r)), dropWhile is_digit (tl r))
      else (length w, r)) = (length (w @ f), e)" by (simp add: f_def e_def dot_def)
  from R have x: "w @ f \<noteq> []"
      "if e \<noteq> [] \<and> (hd e = CHR ''e'' \<or> hd e = CHR ''E'') then isIntegerNotation (tl e) else e = []"
    unfolding isRealNotation_def Let_def w_def [symmetric] r_def [symmetric] p isIntegerNotation_skip
    by (auto split: if_splits)
  have m: "mk = [] \<and> ex = [] \<or> mk \<in> {''e'', ''E''} \<and> isIntegerNotation ex"
    using x(2) by (cases e) (auto simp: mk_def ex_def split: if_splits)
  have "r = dot_text ?D @ mk @ ex" by (cases r) (auto simp: dot_text_def dot_def f_def e_def mk_def ex_def)
  moreover have "skip_sign s = w @ r" by (simp add: w_def r_def)
  ultimately have "s = decimal_text ?D" unfolding decimal_text_def using sg(2) by simp
  moreover have "decimal_ok ?D" using sg(1) d x(1) m by (simp add: decimal_ok_def f_def)
  ultimately show ?thesis by blast
qed

lemma isRealNotation_iff: "isRealNotation s \<longleftrightarrow> (\<exists>D. decimal_ok D \<and> s = decimal_text D)"
  using isRealNotation_decimal decimal_of_isRealNotation by blast

lemma cut_at_split: "c \<notin> set a \<Longrightarrow> cut_at c (a @ c # b) = (a, b, True)"
  by (simp add: cut_at_def takeWhile_append dropWhile_append)

lemma cut_at_absent: "c \<notin> set a \<Longrightarrow> cut_at c a = (a, [], False)"
proof -
  assume "c \<notin> set a"
  then have "list_all (\<lambda>x. x \<noteq> c) a" by (auto simp: list_all_iff)
  then show ?thesis using \<open>c \<notin> set a\<close> by (simp add: cut_at_def takeWhile_all dropWhile_all)
qed

lemma ParseRational_decimal:
  assumes D: "decimal_ok D"
  shows "ParseRational log10_bits (decimal_text D) m =
    read_decimal log10_bits (dsign D = ''-'') (dwhole D) (dfraction D) (dexponent D) m"
proof -
  define mark where "mark = (\<lambda>c. c = CHR ''e'' \<or> c = CHR ''E'')"
  define mantissa where "mantissa = dsign D @ dwhole D @ dot_text D"
  have d: "list_all is_digit (dwhole D)" "list_all is_digit (dfraction D)" using D by (simp_all add: decimal_ok_def)
  have nm: "list_all (\<lambda>c. \<not> mark c) mantissa"
    using D by (auto simp: mantissa_def list_all_iff decimal_ok_def dot_text_def mark_def)
  have stop: "dmark D @ dexponent D = [] \<or> \<not> \<not> mark (hd (dmark D @ dexponent D))"
    using D by (auto simp: decimal_ok_def mark_def)
  have parts: "decimal_text D = mantissa @ dmark D @ dexponent D" by (simp add: decimal_text_def mantissa_def)
  have M: "takeWhile (\<lambda>c. \<not> mark c) (decimal_text D) = mantissa"
    unfolding parts by (rule takeWhile_append_stop [OF nm stop])
  have X: "tl (dropWhile (\<lambda>c. \<not> mark c) (decimal_text D)) = dexponent D"
    unfolding parts dropWhile_append_stop [OF nm stop] using D by (auto simp: decimal_ok_def)
  have h: "\<not> has_prefix (dwhole D @ dot_text D) [c]" if "c = CHR ''-'' \<or> c = CHR ''+''" for c
    using d(1) that by (cases "dwhole D") (auto simp: dot_text_def)
  have neg: "has_prefix mantissa ''-'' \<longleftrightarrow> dsign D = ''-''"
    "(if has_prefix mantissa ''-'' \<or> has_prefix mantissa ''+'' then tl mantissa else mantissa) = dwhole D @ dot_text D"
    using D h [of "CHR ''-''"] h [of "CHR ''+''"] by (auto simp: decimal_ok_def mantissa_def)
  have "CHR ''.'' \<notin> set (dwhole D)" using d(1) by (auto simp: list_all_iff)
  then have C: "cut_at (CHR ''.'') (dwhole D @ dot_text D) = (dwhole D, dfraction D, ddot D)"
    using cut_at_split cut_at_absent D by (auto simp: dot_text_def decimal_ok_def)
  show ?thesis
    using isRealNotation_decimal [OF D]
    unfolding ParseRational_def Let_def mark_def [symmetric] M X neg(2) C by (simp add: neg(1))
qed

section \<open>Reading is exact\<close>

theorem ParseRational_exact:
  assumes "decimal_ok D" "exponent_ok (dexponent D)"
    and "estimate log10_bits (dwhole D) (dfraction D) (dexponent D) \<le> m" "1 \<le> m"
  shows "ParseRational log10_bits (decimal_text D) m = sizedRat (decimal_rat D) m"
proof -
  have d: "list_all is_digit (dwhole D @ dfraction D)" "dexponent D = [] \<or> isIntegerNotation (dexponent D)"
    using assms(1) by (auto simp: decimal_ok_def)
  have "sizedRat (decimal_rat D) m = Inr (RatValue 0)" if "digits_value (dwhole D @ dfraction D) = 0"
    using that assms(4) by (simp add: decimal_rat_def decimal_value_def sizedRat_eq rat_bits_def BitLen_def)
  then show ?thesis
    using assms(2,3) unfolding ParseRational_decimal [OF assms(1)] read_decimal_eq [OF d] decimal_rat_def by auto
qed

lemma ParseRational_sound:
  assumes "decimal_ok D" "ParseRational log10_bits (decimal_text D) m = Inr v" "1 \<le> m"
  shows "v = RatValue (decimal_rat D) \<and> rat_bits (decimal_rat D) \<le> m"
proof -
  have d: "list_all is_digit (dwhole D @ dfraction D)" "dexponent D = [] \<or> isIntegerNotation (dexponent D)"
    using assms(1) by (auto simp: decimal_ok_def)
  have z: "decimal_rat D = 0" if "digits_value (dwhole D @ dfraction D) = 0"
    using that by (simp add: decimal_rat_def decimal_value_def)
  have "rat_bits 0 = 1" by (simp add: rat_bits_def BitLen_def)
  then show ?thesis using assms(2,3) z
    unfolding ParseRational_decimal [OF assms(1)] read_decimal_eq [OF d] sizedRat_eq decimal_rat_def
    by (auto split: if_splits)
qed

lemma ParseRational_other: "\<nexists>D. decimal_ok D \<and> s = decimal_text D \<Longrightarrow> ParseRational log10_bits s m = Inl ErrRealNotation"
  by (simp add: ParseRational_def flip: isRealNotation_iff)

lemma LowestTermsRational_eq:
  "LowestTermsRational a b =
    (if isIntegerNotation a \<and> isIntegerNotation b \<and> 1 \<le> signed_value b \<and> coprime (signed_value a) (signed_value b)
     then Some (RatValue (of_int (signed_value a) / of_int (signed_value b))) else None)"
  by (auto simp: LowestTermsRational_def ParseInteger_eq CompareInt_eq sign_of_neg Let_def coprime_iff_gcd_eq_1)

section \<open>Writing spells the number\<close>

lemma nat_text_0_iff: "nat_text n = ''0'' \<longleftrightarrow> n = 0"
proof
  assume "nat_text n = ''0''"
  then have "digits_value (nat_text n) = 0" by (simp add: digits_value_def digit_value_def)
  then show "n = 0" by (simp add: digits_value_nat_text)
next
  assume "n = 0"
  have "(of_char (CHR ''0'') :: nat) = 48" by simp
  then have "char_of (48 :: nat) = CHR ''0''" by (metis char_of_char)
  then show "nat_text n = ''0''" using \<open>n = 0\<close> by (simp add: nat_text.simps digit_char_def)
qed

lemma replicate_zero_digits: "list_all is_digit (replicate k (CHR ''0''))"
  by (simp add: list_all_iff is_digit_def in_range_def less_eq_char_def)

lemma isIntegerNotation_signed:
  "sg \<in> {''+'', ''-''} \<Longrightarrow> s \<noteq> [] \<Longrightarrow> list_all is_digit s \<Longrightarrow>
   isIntegerNotation (sg @ s) \<and> signed_value (sg @ s) = (if sg = ''-'' then - int (digits_value s) else int (digits_value s))"
  by (auto simp: isIntegerNotation_eq signed_value_def sign_split_def)

text \<open>The decimal \<open>formatDecimal\<close> writes for \<open>n\<close> scaled down by \<open>10 ^ k\<close>, part by part.\<close>

definition decimal_for :: "int \<Rightarrow> int \<Rightarrow> decimal" where
  "decimal_for n k =
     (let sg = (if n < 0 then ''-'' else []); t = trim_right_zeros (nat_text (nat \<bar>n\<bar>));
          k = k - int (length (nat_text (nat \<bar>n\<bar>)) - length t); e = int (length t) - k - 1
      in if n = 0 then \<lparr>dsign = [], dwhole = ''0'', ddot = True, dfraction = ''0'', dmark = [], dexponent = []\<rparr>
         else if e < - 4 \<or> e \<ge> 21 then
           \<lparr>dsign = sg, dwhole = take 1 t, ddot = length t > 1, dfraction = drop 1 t, dmark = ''e'',
            dexponent = (if e < 0 then ''-'' else ''+'') @
              (if length (nat_text (nat \<bar>e\<bar>)) < 2 then CHR ''0'' # nat_text (nat \<bar>e\<bar>) else nat_text (nat \<bar>e\<bar>))\<rparr>
         else if k \<le> 0 then
           \<lparr>dsign = sg, dwhole = t @ replicate (nat (- k)) (CHR ''0''), ddot = True, dfraction = ''0'', dmark = [], dexponent = []\<rparr>
         else if int (length t) > k then
           \<lparr>dsign = sg, dwhole = take (length t - nat k) t, ddot = True, dfraction = drop (length t - nat k) t, dmark = [], dexponent = []\<rparr>
         else
           \<lparr>dsign = sg, dwhole = ''0'', ddot = True, dfraction = replicate (nat k - length t) (CHR ''0'') @ t,
            dmark = [], dexponent = []\<rparr>)"

lemma formatDecimal_text: "formatDecimal n k = decimal_text (decimal_for n k)"
proof (cases "n = 0")
  case True
  then show ?thesis by (simp add: formatDecimal_def decimal_for_def nat_text_0_iff decimal_text_def dot_text_def Let_def)
next
  case False
  define d where "d = nat_text (nat \<bar>n\<bar>)"
  define t where "t = trim_right_zeros d"
  define j where "j = k - int (length d - length t)"
  define e where "e = int (length t) - j - 1"
  have z: "d \<noteq> ''0''" using False by (simp add: d_def nat_text_0_iff)
  have i: "int_text (if e < 0 then - e else e) = nat_text (nat \<bar>e\<bar>)" by (simp add: int_text_def)
  note defs = formatDecimal_def decimal_for_def Let_def d_def [symmetric] t_def [symmetric] j_def [symmetric] e_def [symmetric]
  consider "e < - 4 \<or> e \<ge> 21" | "\<not> (e < - 4 \<or> e \<ge> 21)" "j \<le> 0"
    | "\<not> (e < - 4 \<or> e \<ge> 21)" "\<not> j \<le> 0" "int (length t) > j"
    | "\<not> (e < - 4 \<or> e \<ge> 21)" "\<not> j \<le> 0" "\<not> int (length t) > j" by blast
  then show ?thesis
  proof cases
    case 1
    show ?thesis unfolding defs if_not_P [OF z] if_not_P [OF False] if_P [OF 1] i
      by (simp add: decimal_text_def dot_text_def)
  next
    case 2
    show ?thesis unfolding defs if_not_P [OF z] if_not_P [OF False] if_not_P [OF 2(1)] if_P [OF 2(2)]
      by (simp add: decimal_text_def dot_text_def)
  next
    case 3
    show ?thesis unfolding defs if_not_P [OF z] if_not_P [OF False] if_not_P [OF 3(1)] if_not_P [OF 3(2)] if_P [OF 3(3)]
      by (simp add: decimal_text_def dot_text_def)
  next
    case 4
    show ?thesis unfolding defs if_not_P [OF z] if_not_P [OF False] if_not_P [OF 4(1)] if_not_P [OF 4(2)] if_not_P [OF 4(3)]
      by (simp add: decimal_text_def dot_text_def)
  qed
qed


lemma nat_text_no_leading_zero: "0 < n \<Longrightarrow> hd (nat_text n) \<noteq> CHR ''0''"
proof (induction n rule: nat_text.induct)
  case (1 n)
  show ?case
  proof (cases "n < 10")
    case True
    then have "digit_value (digit_char n) \<noteq> 0" using 1 digit_lt_10 by simp
    then show ?thesis using True by (auto simp: nat_text.simps [of n] digit_value_def)
  next
    case False
    then have "0 < n div 10" by simp
    then show ?thesis using 1 False nat_text_digits [of "n div 10"] by (simp add: nat_text.simps [of n])
  qed
qed

lemma trim_left_zeros_pad: "t \<noteq> [] \<Longrightarrow> hd t \<noteq> CHR ''0'' \<Longrightarrow> trim_left_zeros (replicate a (CHR ''0'') @ t @ s) = t @ s"
  by (cases t) (simp_all add: trim_left_zeros_def dropWhile_append)

lemma trim_right_zeros_pad: "t \<noteq> [] \<Longrightarrow> last t \<noteq> CHR ''0'' \<Longrightarrow> trim_right_zeros (t @ replicate b (CHR ''0'')) = t"
  by (cases t rule: rev_cases) (simp_all add: trim_right_zeros_def dropWhile_append)

lemma last_trim_right: "trim_right_zeros s \<noteq> [] \<Longrightarrow> last (trim_right_zeros s) \<noteq> CHR ''0''"
  using hd_dropWhile [of "\<lambda>c. c = CHR ''0''" "rev s"] by (simp add: trim_right_zeros_def last_rev)

lemma trimmed_number:
  assumes "0 < n" "t = trim_right_zeros (nat_text n)"
  shows "t \<noteq> []" "list_all is_digit t" "hd t \<noteq> CHR ''0''" "last t \<noteq> CHR ''0''"
    "n = digits_value t * 10 ^ (length (nat_text n) - length t)" "length t \<le> length (nat_text n)"
proof -
  show v: "n = digits_value t * 10 ^ (length (nat_text n) - length t)"
    using digits_value_trim_right [of "nat_text n"] by (simp add: assms(2) digits_value_nat_text)
  then show ne: "t \<noteq> []" using assms(1) by auto
  show "list_all is_digit t" unfolding assms(2) using nat_text_digits by (intro trim_right_digits) blast
  obtain z where d: "nat_text n = t @ z" using trim_right_zeros_eq [of "nat_text n"] assms(2) by metis
  then show "hd t \<noteq> CHR ''0''" using nat_text_no_leading_zero [OF assms(1)] ne by simp
  show "last t \<noteq> CHR ''0''" using last_trim_right ne assms(2) by blast
  show "length t \<le> length (nat_text n)" by (simp add: d)
qed

lemma digits_value_0_Cons [simp]: "digits_value (CHR ''0'' # s) = digits_value s"
  using digits_value_append [of "''0''" s] by (simp add: digits_value_def digit_value_def)

lemma exponent_text:
  assumes "s = (if e < 0 then ''-'' else ''+'') @
      (if length (nat_text (nat \<bar>e\<bar>)) < 2 then CHR ''0'' # nat_text (nat \<bar>e\<bar>) else nat_text (nat \<bar>e\<bar>))"
  shows "isIntegerNotation s" "signed_value s = e"
proof -
  define x where "x = (if length (nat_text (nat \<bar>e\<bar>)) < 2 then CHR ''0'' # nat_text (nat \<bar>e\<bar>) else nat_text (nat \<bar>e\<bar>))"
  have x: "x \<noteq> []" "list_all is_digit x" "digits_value x = nat \<bar>e\<bar>"
    using nat_text_digits [of "nat \<bar>e\<bar>"] replicate_zero_digits [of 1] by (simp_all add: x_def digits_value_nat_text)
  have s: "s = (if e < 0 then ''-'' else ''+'') @ x" by (simp add: assms x_def)
  show "isIntegerNotation s" "signed_value s = e"
    using isIntegerNotation_signed [of "if e < 0 then ''-'' else ''+''", OF _ x(1,2)] x(3)
    unfolding s by (auto split: if_splits)
qed

text \<open>What \<open>formatDecimal\<close> writes: the number, its significant digits and their scale.\<close>

lemma decimal_for_parts:
  assumes n: "n \<noteq> 0" and t: "t = trim_right_zeros (nat_text (nat \<bar>n\<bar>))"
    and j: "j = k - int (length (nat_text (nat \<bar>n\<bar>)) - length t)"
  shows "decimal_ok (decimal_for n k)"
    "dsign (decimal_for n k) = (if n < 0 then ''-'' else [])"
    "\<exists>a b. dwhole (decimal_for n k) @ dfraction (decimal_for n k) = replicate a (CHR ''0'') @ t @ replicate b (CHR ''0'') \<and>
       signed_value (dexponent (decimal_for n k)) - int (length (dfraction (decimal_for n k))) = - j - int b"
proof -
  define e where "e = int (length t) - j - 1"
  have "0 < nat \<bar>n\<bar>" using n by simp
  note T = trimmed_number [OF this t]
  have T1: "take 1 t \<noteq> []" using T(1) by (cases t) auto
  have td: "list_all is_digit (take i t)" "list_all is_digit (drop i t)" for i
    using T(2) by (auto simp: list_all_iff dest: in_set_takeD in_set_dropD)
  note defs = decimal_for_def Let_def t [symmetric] j [symmetric] e_def [symmetric]
  have ok: "decimal_ok (decimal_for n k) \<and> dsign (decimal_for n k) = (if n < 0 then ''-'' else []) \<and>
    (\<exists>a b. dwhole (decimal_for n k) @ dfraction (decimal_for n k) = replicate a (CHR ''0'') @ t @ replicate b (CHR ''0'') \<and>
       signed_value (dexponent (decimal_for n k)) - int (length (dfraction (decimal_for n k))) = - j - int b)"
  proof -
    consider "e < - 4 \<or> e \<ge> 21" | "\<not> (e < - 4 \<or> e \<ge> 21)" "j \<le> 0"
      | "\<not> (e < - 4 \<or> e \<ge> 21)" "\<not> j \<le> 0" "int (length t) > j"
      | "\<not> (e < - 4 \<or> e \<ge> 21)" "\<not> j \<le> 0" "\<not> int (length t) > j" by blast
    then show ?thesis
    proof cases
      case 1
      define x where "x = (if e < 0 then ''-'' else ''+'') @
        (if length (nat_text (nat \<bar>e\<bar>)) < 2 then CHR ''0'' # nat_text (nat \<bar>e\<bar>) else nat_text (nat \<bar>e\<bar>))"
      have D: "decimal_for n k = \<lparr>dsign = if n < 0 then ''-'' else [], dwhole = take 1 t, ddot = length t > 1,
          dfraction = drop 1 t, dmark = ''e'', dexponent = x\<rparr>"
        unfolding defs if_not_P [OF n] if_P [OF 1] x_def by (rule refl)
      have "decimal_ok (decimal_for n k)"
        unfolding decimal_ok_def D decimal.simps using td [of 1] T1 exponent_text(1) [OF x_def] by auto
      moreover have "signed_value x - int (length (drop 1 t)) = - j - int 0"
        using T(1) unfolding exponent_text(2) [OF x_def] by (cases t) (simp_all add: e_def)
      moreover have "take 1 t @ drop 1 t = replicate 0 (CHR ''0'') @ t @ replicate 0 (CHR ''0'')" by simp
      ultimately show ?thesis unfolding D decimal.simps by blast
    next
      case 2
      have "(t @ replicate (nat (- j)) (CHR ''0'')) @ ''0'' = replicate 0 (CHR ''0'') @ t @ replicate (nat (- j) + 1) (CHR ''0'')"
        by (simp add: replicate_append_same)
      then show ?thesis
        unfolding defs if_not_P [OF n] if_not_P [OF 2(1)] if_P [OF 2(2)] decimal_ok_def decimal.simps
        using T(1,2) replicate_zero_digits [of 1] replicate_zero_digits [of "nat (- j)"] 2(2)
        by (intro conjI exI [of _ 0] exI [of _ "nat (- j) + 1"]) (auto simp: isIntegerNotation_eq)
    next
      case 3
      have "take i t @ drop i t = replicate 0 (CHR ''0'') @ t @ replicate 0 (CHR ''0'')" for i by simp
      moreover have "length t - (length t - nat j) = nat j" using 3 by simp
      ultimately show ?thesis
        unfolding defs if_not_P [OF n] if_not_P [OF 3(1)] if_not_P [OF 3(2)] if_P [OF 3(3)] decimal_ok_def decimal.simps
        using td T(1) 3(2) by (intro conjI exI [of _ 0]) auto
    next
      case 4
      have "''0'' @ replicate i (CHR ''0'') @ t = replicate (i + 1) (CHR ''0'') @ t @ replicate 0 (CHR ''0'')" for i by simp
      then show ?thesis
        unfolding defs if_not_P [OF n] if_not_P [OF 4(1)] if_not_P [OF 4(2)] if_not_P [OF 4(3)] decimal_ok_def decimal.simps
        using T(2) replicate_zero_digits [of 1] replicate_zero_digits 4(2,3)
        by (intro conjI exI [of _ "nat j - length t + 1"] exI [of _ 0]) auto
    qed
  qed
  then show "decimal_ok (decimal_for n k)" "dsign (decimal_for n k) = (if n < 0 then ''-'' else [])"
    "\<exists>a b. dwhole (decimal_for n k) @ dfraction (decimal_for n k) = replicate a (CHR ''0'') @ t @ replicate b (CHR ''0'') \<and>
       signed_value (dexponent (decimal_for n k)) - int (length (dfraction (decimal_for n k))) = - j - int b"
    by blast+
qed


lemma decimal_for_rat:
  assumes n: "n \<noteq> 0" and t: "t = trim_right_zeros (nat_text (nat \<bar>n\<bar>))"
    and j: "j = k - int (length (nat_text (nat \<bar>n\<bar>)) - length t)"
  shows "decimal_rat (decimal_for n k) = of_int n * 10 powi (- k)"
    "significant (dwhole (decimal_for n k)) (dfraction (decimal_for n k)) = t"
    "scale_of (dwhole (decimal_for n k)) (dfraction (decimal_for n k)) (dexponent (decimal_for n k)) = - j"
proof -
  have p: "0 < nat \<bar>n\<bar>" using n by simp
  note T = trimmed_number [OF this t]
  obtain a b where ab: "dwhole (decimal_for n k) @ dfraction (decimal_for n k) = replicate a (CHR ''0'') @ t @ replicate b (CHR ''0'')"
      and x: "signed_value (dexponent (decimal_for n k)) - int (length (dfraction (decimal_for n k))) = - j - int b"
    using decimal_for_parts(3) [OF assms] by blast
  have l: "trim_left_zeros (dwhole (decimal_for n k) @ dfraction (decimal_for n k)) = t @ replicate b (CHR ''0'')"
    unfolding ab by (rule trim_left_zeros_pad [OF T(1,3)])
  show s: "significant (dwhole (decimal_for n k)) (dfraction (decimal_for n k)) = t"
    unfolding significant_def l by (rule trim_right_zeros_pad [OF T(1,4)])
  show c: "scale_of (dwhole (decimal_for n k)) (dfraction (decimal_for n k)) (dexponent (decimal_for n k)) = - j"
    using x unfolding scale_of_def s l by simp
  have neg: "dsign (decimal_for n k) = ''-'' \<longleftrightarrow> n < 0" using decimal_for_parts(2) [OF assms] by simp
  have "n = (if n < 0 then - 1 else 1) * int (digits_value t) * 10 ^ (length (nat_text (nat \<bar>n\<bar>)) - length t)"
    using T(5) by (cases "n < 0") (simp_all add: nat_eq_iff)
  then have "of_int n = (of_int ((if n < 0 then - 1 else 1) * int (digits_value t) * 10 ^ (length (nat_text (nat \<bar>n\<bar>)) - length t)) :: rat)"
    by (rule arg_cong)
  also have "\<dots> = (if n < 0 then - 1 else 1) * of_nat (digits_value t) * 10 ^ (length (nat_text (nat \<bar>n\<bar>)) - length t)"
    by simp
  finally have "of_int n = ((if n < 0 then - 1 else 1) * of_nat (digits_value t) * 10 ^ (length (nat_text (nat \<bar>n\<bar>)) - length t) :: rat)" .
  moreover have "(10 :: rat) powi (- j) = 10 ^ (length (nat_text (nat \<bar>n\<bar>)) - length t) * 10 powi (- k)"
    by (simp add: j power_int_diff power_int_minus field_simps)
  ultimately show "decimal_rat (decimal_for n k) = of_int n * 10 powi (- k)"
    unfolding decimal_rat_def decimal_value_scaled s c neg by simp
qed

lemma strip_factor_eq:
  assumes "1 < p" "0 < d" "strip_factor p d = (k, r)"
  shows "d = p ^ k * r \<and> 0 < r"
  using assms
proof (induction p d arbitrary: k r rule: strip_factor.induct)
  case (1 p d)
  show ?case
  proof (cases "d mod p = 0")
    case True
    obtain k' r' where s: "strip_factor p (d div p) = (k', r')" by fastforce
    have "0 < d div p" using True "1.prems"(1,2) by (metis mod_0_imp_dvd order_less_trans pos_imp_zdiv_pos_iff zdvd_imp_le zero_less_one)
    then have "d div p = p ^ k' * r' \<and> 0 < r'" using "1.IH" [OF _ "1.prems"(1) _ s] True "1.prems" by simp
    moreover have "k = Suc k'" "r = r'" using True "1.prems" s by (simp_all add: strip_factor.simps [of p d])
    moreover have "d = p * (d div p)" using True by auto
    ultimately show ?thesis by (metis mult.assoc power_Suc)
  qed (use "1.prems" in \<open>simp add: strip_factor.simps [of p d]\<close>)
qed

lemma length_nat_text: "0 < n \<Longrightarrow> 10 ^ (length (nat_text n) - 1) \<le> n"
proof (induction n rule: nat_text.induct)
  case (1 n)
  show ?case
  proof (cases "n < 10")
    case False
    then have "10 ^ (length (nat_text (n div 10)) - 1) \<le> n div 10" using 1 by simp
    moreover have "length (nat_text n) - 1 = Suc (length (nat_text (n div 10)) - 1)"
      using False nat_text_digits [of "n div 10"] by (simp add: nat_text.simps [of n])
    ultimately show ?thesis by simp
  qed (use 1 in \<open>simp add: nat_text.simps [of n]\<close>)
qed

lemma decimal_no_slash: "decimal_ok D \<Longrightarrow> CHR ''/'' \<notin> set (decimal_text D)"
proof -
  assume D: "decimal_ok D"
  have "CHR ''/'' \<notin> set (dexponent D)"
  proof (cases "dexponent D = []")
    case False
    then have "list_all is_digit (snd (sign_split (dexponent D)))" using D by (auto simp: decimal_ok_def isIntegerNotation_eq)
    then show ?thesis using False by (cases "dexponent D") (auto simp: sign_split_def list_all_iff split: if_splits)
  qed simp
  then show ?thesis using D by (auto simp: decimal_ok_def decimal_text_def dot_text_def list_all_iff)
qed

lemma decimal_size:
  assumes n: "n \<noteq> 0" and k: "0 \<le> k" and t: "t = trim_right_zeros (nat_text (nat \<bar>n\<bar>))"
    and j: "j = k - int (length (nat_text (nat \<bar>n\<bar>)) - length t)"
  shows "1 \<le> int (length t)" "int (length t) - 1 + \<bar>j\<bar> \<le> BitLen n + k"
proof -
  define d where "d = nat_text (nat \<bar>n\<bar>)"
  have p: "0 < nat \<bar>n\<bar>" using n by simp
  note T = trimmed_number [OF p t]
  show t1: "1 \<le> int (length t)" using T(1) by (simp add: Suc_le_eq)
  have "int (length t) - 1 + \<bar>j\<bar> \<le> int (length d) - 1 + k" using T(6) t1 k by (auto simp: j d_def)
  moreover have "int (length d) - 1 \<le> BitLen n"
  proof (rule ccontr)
    assume "\<not> ?thesis"
    then have "BitLen n \<le> int (length d - 1)" by linarith
    then have "\<bar>n\<bar> < 2 ^ (length d - 1)" by (simp add: BitLen_le_iff)
    moreover have "int (10 ^ (length d - 1)) \<le> \<bar>n\<bar>" using length_nat_text [OF p] by (simp add: d_def nat_le_iff)
    moreover have "(2 :: int) ^ (length d - 1) \<le> 10 ^ (length d - 1)" by (rule power_mono) simp_all
    ultimately show False by simp
  qed
  ultimately show "int (length t) - 1 + \<bar>j\<bar> \<le> BitLen n + k" by linarith
qed

lemma estimate_bound:
  assumes L: "\<forall>i \<ge> 0. log10_bits i \<le> 4 * i" and n: "n \<noteq> 0" and k: "0 \<le> k"
  shows "estimate log10_bits (dwhole (decimal_for n k)) (dfraction (decimal_for n k)) (dexponent (decimal_for n k))
    \<le> 4 * (BitLen n + k)"
proof -
  define t j where "t = trim_right_zeros (nat_text (nat \<bar>n\<bar>))" and "j = k - int (length (nat_text (nat \<bar>n\<bar>)) - length t)"
  note S = decimal_size [OF n k t_def j_def]
  have "log10_bits (int (length t) - 1) \<le> 4 * (int (length t) - 1)" "log10_bits \<bar>j\<bar> \<le> 4 * \<bar>j\<bar>"
    by (rule L [rule_format]; use S(1) in linarith)+
  with S(2) show ?thesis
    unfolding estimate_def decimal_for_rat(2,3) [OF n t_def j_def] by simp
qed

lemma decimal_for_exponent:
  assumes n: "n \<noteq> 0" and k: "0 \<le> k"
  shows "dexponent (decimal_for n k) = [] \<or>
    isIntegerNotation (dexponent (decimal_for n k)) \<and> \<bar>signed_value (dexponent (decimal_for n k))\<bar> \<le> BitLen n + k"
proof -
  define t j where "t = trim_right_zeros (nat_text (nat \<bar>n\<bar>))" and "j = k - int (length (nat_text (nat \<bar>n\<bar>)) - length t)"
  define e where "e = int (length t) - j - 1"
  define x where "x = (if e < 0 then ''-'' else ''+'') @
    (if length (nat_text (nat \<bar>e\<bar>)) < 2 then CHR ''0'' # nat_text (nat \<bar>e\<bar>) else nat_text (nat \<bar>e\<bar>))"
  have "\<bar>e\<bar> \<le> BitLen n + k" using decimal_size [OF n k t_def j_def] unfolding e_def by linarith
  moreover have "dexponent (decimal_for n k) \<in> {x, []}"
    unfolding decimal_for_def Let_def t_def [symmetric] j_def [symmetric] e_def [symmetric] x_def [symmetric] if_not_P [OF n]
    by (simp only: if_distrib [of dexponent] decimal.simps) simp
  ultimately show ?thesis using exponent_text [OF x_def] by auto
qed

theorem ParseRationalText_FormatRational:
  assumes v: "Rational v" and L: "\<forall>i \<ge> 0. log10_bits i \<le> 4 * i" and m: "20 * rat_bits (ratView v) \<le> m" "m \<le> MaxInt64"
  shows "ParseRationalText log10_bits (FormatRational v) m = Inr v"
proof -
  define r a b where "r = ratView v" and "a = Num r" and "b = Denom r"
  have b: "0 < b" by (simp add: b_def)
  have r: "of_int a / of_int b = r" by (simp add: a_def b_def Num_Denom)
  have bits: "0 < BitLen b" using BitLen_gr_iff [of 0 b] b by simp
  have B: "rat_bits r = BitLen a + BitLen b" by (simp add: rat_bits_def a_def b_def)
  have "1 * rat_bits r \<le> 20 * rat_bits r" by (rule mult_right_mono) (simp_all add: rat_bits_def)
  then have le: "rat_bits r \<le> m" using m(1) by (simp add: r_def)
  have "0 < rat_bits r" unfolding B using bits BitLen_nonneg [of a] by linarith
  then have m1: "1 \<le> m" using le by linarith
  have "RatValue r = v" using Rational_eq [OF v] by (simp only: r_def)
  then have fits: "sizedRat r m = Inr v" using le by (simp add: sizedRat_eq)
  obtain i d where i: "strip_factor 2 b = (i, d)" by fastforce
  obtain j c where j: "strip_factor 5 d = (j, c)" by fastforce
  have bd: "b = 2 ^ i * d" "0 < d" using strip_factor_eq [OF _ b i] by simp_all
  have dc: "d = 5 ^ j * c" "0 < c" using strip_factor_eq [OF _ bd(2) j] by simp_all
  have F: "FormatRational v = (if c \<noteq> 1 then int_text a @ ''/'' @ int_text b
      else formatDecimal ((a * 10 ^ max i j) sdiv b) (int (max i j)))"
    using v by (simp add: FormatRational_def RatNumer_eq RatDenom_eq FormatInt_eq Let_def i j flip: r_def a_def b_def)
  show ?thesis
  proof (cases "c = 1")
    case False
    have "CHR ''/'' \<notin> set (int_text a)" using nat_text_no [of "CHR ''/''"] by (auto simp: int_text_def)
    then have "cut_at (CHR ''/'') (FormatRational v) = (int_text a, int_text b, True)"
      unfolding F using False cut_at_split [of "CHR ''/''" "int_text a" "int_text b"] by simp
    moreover have "RatArith OpDiv (BigIntValue a) (BigIntValue b) m = sizedRat r m"
      using b r by (simp add: RatArith_eq ratView_Integer rat_op_def)
    ultimately show ?thesis
      using b fits by (simp add: ParseRationalText_def ParseInteger_int_text IntSign_eq sign_of_cases)
  next
    case True
    define k n where "k = max i j" and "n = a * 10 ^ k div b"
    have "b dvd 10 ^ k"
    proof -
      have "(2 :: int) ^ i dvd 2 ^ k" "(5 :: int) ^ j dvd 5 ^ k" by (simp_all add: le_imp_power_dvd k_def)
      then have "b dvd 2 ^ k * 5 ^ k" unfolding bd dc True by (simp add: mult_dvd_mono)
      then show ?thesis by (simp flip: power_mult_distrib)
    qed
    then have n: "n * b = a * 10 ^ k" by (simp add: n_def)
    have s: "(a * 10 ^ k) sdiv b = n" using sdiv_mult_cancel [of b n] b by (simp flip: n)
    have "rat_of_int (n * b) = rat_of_int (a * 10 ^ k)" using n by (rule arg_cong)
    then have val: "of_int n * 10 powi (- int k) = r" using b r by (simp add: power_int_minus field_simps)
    have T: "FormatRational v = decimal_text (decimal_for n (int k))"
      unfolding F using True by (simp add: s formatDecimal_text flip: k_def)
    show ?thesis
    proof (cases "n = 0")
      case z: True
      define D where "D = decimal_for n (int k)"
      have D: "D = \<lparr>dsign = [], dwhole = ''0'', ddot = True, dfraction = ''0'', dmark = [], dexponent = []\<rparr>"
        by (simp add: D_def decimal_for_def z Let_def)
      have ok: "decimal_ok D" using replicate_zero_digits [of 1] by (simp add: D decimal_ok_def)
      have "ParseRational log10_bits (decimal_text D) m = read_decimal log10_bits False ''0'' ''0'' [] m"
        unfolding ParseRational_decimal [OF ok] by (simp add: D)
      also have "\<dots> = sizedRat 0 m"
        using replicate_zero_digits [of 2] by (subst read_decimal_eq) (simp_all add: decimal_value_def numeral_2_eq_2)
      finally have "ParseRational log10_bits (decimal_text D) m = sizedRat r m" using val z by simp
      then show ?thesis unfolding T ParseRationalText_def using cut_at_absent [OF decimal_no_slash [OF ok]] fits by (simp add: D_def)
    next
      case nz: False
      note P = decimal_for_parts [OF nz refl refl, of "int k"] and R = decimal_for_rat [OF nz refl refl, of "int k"]
      have k: "2 ^ k \<le> b"
      proof -
        have "(2 :: int) ^ j \<le> 5 ^ j" by (rule power_mono) simp_all
        moreover have "(1 :: int) \<le> 2 ^ i" "(1 :: int) \<le> 5 ^ j" by simp_all
        ultimately have "2 ^ i \<le> b" "2 ^ j \<le> b" unfolding bd dc True
          by (simp_all add: mult_le_cancel_left1 order_trans [OF _ mult_right_mono [of 1 "2 ^ i"]])
        then show ?thesis by (simp add: k_def max_def)
      qed
      have "int k < BitLen b" unfolding BitLen_gr_iff using k by linarith
      moreover have "BitLen n \<le> BitLen a + 4 * int k"
      proof -
        have "\<bar>n\<bar> * 1 \<le> \<bar>n\<bar> * b" using b by (intro mult_left_mono) simp_all
        then have "\<bar>n\<bar> \<le> \<bar>a\<bar> * 10 ^ k" using n b by (metis abs_mult abs_of_pos mult.right_neutral power_abs abs_numeral)
        also have "\<dots> < 2 ^ nat (BitLen a) * 16 ^ k"
          using BitLen_le_iff [of a "nat (BitLen a)"] by (intro mult_less_le_imp_less power_mono) simp_all
        also have "\<dots> = 2 ^ (nat (BitLen a) + 4 * k)" by (simp add: power_add power_mult)
        finally have "BitLen n \<le> int (nat (BitLen a) + 4 * k)" unfolding BitLen_le_iff .
        then show ?thesis by simp
      qed
      moreover have "0 \<le> BitLen a" by simp
      ultimately have "4 * (BitLen n + int k) \<le> 20 * (BitLen a + BitLen b)" unfolding distrib_left by linarith
      then have q: "4 * (BitLen n + int k) \<le> m" using m(1) unfolding r_def [symmetric] B by (rule order_trans)
      then have e: "estimate log10_bits (dwhole (decimal_for n k)) (dfraction (decimal_for n k)) (dexponent (decimal_for n k)) \<le> m"
        using estimate_bound [OF L nz, of "int k"] q by linarith
      have "exponent_ok (dexponent (decimal_for n k))"
        using decimal_for_exponent [OF nz, of "int k"] q m(2) unfolding exponent_ok_def MaxInt64_def by simp linarith
      then have "ParseRational log10_bits (decimal_text (decimal_for n k)) m = sizedRat r m"
        using ParseRational_exact [OF P(1) _ e m1] R(1) val by simp
      then show ?thesis unfolding T ParseRationalText_def using cut_at_absent [OF decimal_no_slash [OF P(1)]] fits by simp
    qed
  qed
qed

end
