(* ===== verification/Three_Way.thy ===== *)
theory Three_Way
  imports Main
begin

text \<open>
  The interface of a Go comparison function: negative, zero or positive as the first argument is
  below, at or above the second. A provider promises that exchanging the arguments turns the sign
  and that \<open>at or below\<close> is transitive; from that a client gets a total preorder, its strict part
  and its equivalence.
\<close>

locale three_way =
  fixes cmp :: "'a \<Rightarrow> 'a \<Rightarrow> int" and valid :: "'a \<Rightarrow> bool"
  assumes cmp_swap: "valid a \<Longrightarrow> valid b \<Longrightarrow> cmp b a = - cmp a b"
    and cmp_trans: "valid a \<Longrightarrow> valid b \<Longrightarrow> valid c \<Longrightarrow> cmp a b \<le> 0 \<Longrightarrow> cmp b c \<le> 0 \<Longrightarrow> cmp a c \<le> 0"
begin

lemma cmp_refl: "valid a \<Longrightarrow> cmp a a = 0"
  using cmp_swap [of a a] by simp

lemma cmp_total: "valid a \<Longrightarrow> valid b \<Longrightarrow> cmp a b \<le> 0 \<or> cmp b a \<le> 0"
  using cmp_swap [of a b] by linarith

lemma cmp_less_trans:
  "valid a \<Longrightarrow> valid b \<Longrightarrow> valid c \<Longrightarrow> cmp a b < 0 \<Longrightarrow> cmp b c \<le> 0 \<Longrightarrow> cmp a c < 0"
  using cmp_trans [of c a b] cmp_trans [of b c a] cmp_trans [of a b c] cmp_swap [of a c] cmp_swap [of a b] cmp_swap [of b c]
  by fastforce

lemma cmp_eq_trans: "valid a \<Longrightarrow> valid b \<Longrightarrow> valid c \<Longrightarrow> cmp a b = 0 \<Longrightarrow> cmp b c = 0 \<Longrightarrow> cmp a c = 0"
  using cmp_trans [of a b c] cmp_trans [of c b a] cmp_swap [of a c] cmp_swap [of a b] cmp_swap [of b c]
  by fastforce

lemma cmp_eq_left:
  assumes "valid a" "valid b" "valid c" "cmp a b = 0" shows "cmp a c < 0 \<longleftrightarrow> cmp b c < 0"
  using cmp_less_trans [of b c a] cmp_less_trans [of a c b] cmp_trans [of b a c] cmp_trans [of a b c]
    cmp_trans [of c a b] cmp_trans [of c b a] cmp_swap [of a c] cmp_swap [of a b] cmp_swap [of b c] assms
  by (metis add.inverse_inverse add.inverse_neutral neg_less_0_iff_less not_le order_refl)

end

end
