(* ===== verification/Exact_Numbers.thy ===== *)
theory Exact_Numbers
  imports Exact_Texts Three_Way
begin

text \<open>
  The exact numbers as a client sees them: what each operation promises of the number, whatever
  representation its arguments have and whichever of its two ways (machine words or \<open>math/big\<close>) it
  takes. Comparison is an instance of the interface \<open>three_way\<close>.
\<close>

interpretation exact: three_way CompareRat number
  by unfold_locales (auto simp: CompareRat_eq sign_of_def split: if_splits)

interpretation exact_int: three_way CompareInt "\<lambda>v. True"
  by unfold_locales (auto simp: CompareInt_eq sign_of_def split: if_splits)

lemma sizedInt_number: "sizedInt (of_int z) m = Inr v \<Longrightarrow> Integer v"
  by (simp add: sizedInt_eq split: if_splits) (metis Integer_BigIntValue)

lemma sizedRat_number: "sizedRat r m = Inr v \<Longrightarrow> Rational v"
  by (simp add: sizedRat_eq split: if_splits) (metis Kind_RatValue number_RatValue)

lemma IntArith_number: "IntArith op a b m = Inr v \<Longrightarrow> Integer v"
proof -
  have "bigIntArith op a b m = Inr v \<Longrightarrow> Integer v"
    by (cases op) (auto simp: bigIntArith_def Let_def sizedInt_number simp del: of_int_add of_int_diff of_int_mult split: if_splits)
  then show "IntArith op a b m = Inr v \<Longrightarrow> Integer v" by (auto simp: IntArith_def split: option.splits)
qed

lemma IntPow_number: "Integer a \<Longrightarrow> IntPow a n m = Inr v \<Longrightarrow> Integer v"
  by (auto simp: IntPow_def Let_def sizedInt_number simp del: of_int_power split: option.splits if_splits)

lemma IntRem_number: "IntRem a b = Some v \<Longrightarrow> Integer v"
  by (auto simp: IntRem_eq split: if_splits)

lemma IntDivTrunc_number: "IntDivTrunc a b = Some v \<Longrightarrow> Integer v"
  by (auto simp: IntDivTrunc_eq split: if_splits)

lemma RatArith_number: "number a \<Longrightarrow> number b \<Longrightarrow> RatArith op a b m = Inr v \<Longrightarrow> Rational v"
  by (auto simp: RatArith_eq sizedRat_number split: if_splits option.splits)

lemma RatPow_number: "number a \<Longrightarrow> RatPow a n m = Inr v \<Longrightarrow> Rational v"
proof -
  assume a: "number a" and v: "RatPow a n m = Inr v"
  have one: "no_Value\<lparr>Kind := ValRational, IntV := 1, den := 1\<rparr> = RatValue 1"
    "no_Value\<lparr>Kind := ValRational, IntV := - 1, den := 1\<rparr> = RatValue (- 1)"
    using RatValue_int [of 1] RatValue_int [of "- 1"] by simp_all
  show ?thesis
    using v unfolding RatPow_def one RatOf_eq [OF a] Let_def
    by (auto dest: sizedRat_number split: if_splits)
qed


section \<open>The properties\<close>

text \<open>C23: the arithmetic of one machine word never wraps unnoticed. \<open>mulInt\<close>, \<open>int64Arith\<close> and
\<open>intPow\<close> answer exactly when the true result is an \<open>int64\<close>, and answer that result; \<open>gcd64\<close> is the
greatest common divisor of non-negative arguments, and one for two zeros.\<close>

theorem word_arithmetic_exact:
  "mulInt a b = checked64 (sint a * sint b) \<and>
   int64Arith op a b = Option.bind (int_op op (sint a) (sint b)) checked64 \<and>
   intPow a b = checked64 (sint a ^ nat (sint b)) \<and>
   (0 \<le> sint a \<longrightarrow> 0 \<le> sint b \<longrightarrow>
     sint (gcd64 a b) = (if a = 0 \<and> b = 0 then 1 else gcd (sint a) (sint b)))"
  using mulInt_checked int64Arith_op intPow_exact gcd64_exact by simp

theorem word_arithmetic_exact_witness:
  "sint (gcd64 84 30) = gcd 84 30 \<and> mulInt MinInt64 (- 1) = None"
proof -
  have "sint (gcd64 84 30) = gcd (sint (84 :: int64)) (sint (30 :: int64))"
    using word_arithmetic_exact [of 84 30 OpAdd] by simp
  moreover have "mulInt MinInt64 (- 1) = checked64 (sint MinInt64 * sint (- 1 :: int64))"
    using word_arithmetic_exact [of MinInt64 "- 1" OpAdd] by blast
  ultimately show ?thesis by (simp add: checked64_def in_int64_iff)
qed

text \<open>C19: every operation on numbers gives a number of the kind it promises, in its one
representation: arithmetic, powers, remainders and quotients of Integers are Integers; arithmetic
and powers of exact numbers are Rationals; negation and magnitude keep the kind; rounding, and the
two terms of a number, are Integers.\<close>

theorem results_are_numbers:
  assumes a: "number a" and b: "number b"
  shows
    "(\<forall>v. IntArith op a b m = Inr v \<longrightarrow> Integer v) \<and>
     (\<forall>v. IntRem a b = Some v \<or> IntDivTrunc a b = Some v \<longrightarrow> Integer v) \<and>
     (\<forall>v. Kind a = ValInt \<and> IntPow a b m = Inr v \<longrightarrow> Integer v) \<and>
     (\<forall>v. RatArith op a b m = Inr v \<or> RatPow a b m = Inr v \<longrightarrow> Rational v) \<and>
     number (RatNeg a) \<and> Kind (RatNeg a) = Kind a \<and> number (RatAbs a) \<and> Kind (RatAbs a) = Kind a \<and>
     Integer (RatFloor a) \<and> Integer (RatTrunc a) \<and> Integer (RatNumer a) \<and> Integer (RatDenom a) \<and> Rational (RatOf a)"
proof -
  have A: "\<forall>v. IntArith op a b m = Inr v \<longrightarrow> Integer v" using IntArith_number by blast
  have B: "\<forall>v. IntRem a b = Some v \<or> IntDivTrunc a b = Some v \<longrightarrow> Integer v"
    using IntRem_number IntDivTrunc_number by blast
  have C: "\<forall>v. Kind a = ValInt \<and> IntPow a b m = Inr v \<longrightarrow> Integer v" using IntPow_number a by blast
  have D: "\<forall>v. RatArith op a b m = Inr v \<or> RatPow a b m = Inr v \<longrightarrow> Rational v"
    using RatArith_number [OF a b] RatPow_number [OF a] by blast
  note E = RatFloor_eq [OF a] RatTrunc_eq [OF a] RatNumer_eq [OF a] RatDenom_eq [OF a] RatOf_eq [OF a]
  show ?thesis unfolding E
    by (intro conjI A B C D RatNeg_number(1,2) [OF a] RatAbs_number(1,2) [OF a] Integer_BigIntValue number_RatValue Kind_RatValue)
qed

theorem results_are_numbers_witness:
  "RatArith OpDiv (IntValue 1) (IntValue 2) 64 = Inr (RatValue (1 / 2)) \<and> Rational (RatValue (1 / 2))"
proof -
  have q: "quotient_of (1 / 2) = (1, 2)" using quotient_of_coprime_div [of 1 2] by simp
  have "RatArith OpDiv (IntValue 1) (IntValue 2) 64 = Inr (RatValue (1 / 2))"
    by (simp add: RatArith_eq ratView_Integer rat_op_def sizedRat_eq rat_bits_def q BitLen_def bits_of_numeral)
  moreover have "\<forall>v. RatArith OpDiv (IntValue 1) (IntValue 2) 64 = Inr v \<or> RatPow (IntValue 1) (IntValue 2) 64 = Inr v \<longrightarrow> Rational v"
    using results_are_numbers [OF Integer_IntValue [of 1] Integer_IntValue [of 2]] by blast
  ultimately show ?thesis by blast
qed

text \<open>C17: sums, differences and products of Integers of any size. Under a budget of at least 64
bits the result is the exact integer when it fits the budget, and otherwise the size error, with a
number of bits that exceeds the budget and that the result does need.\<close>

theorem integer_arithmetic_exact:
  assumes "MinMaxIntegerBits \<le> m" "int_op op (bigView a) (bigView b) = Some z"
  shows "int_outcome m z (IntArith op a b m)"
  using assms unfolding MinMaxIntegerBits_def by (rule IntArith_outcome)

theorem integer_arithmetic_exact_witness:
  "IntArith OpMul (BigIntValue (2 ^ 63)) (IntValue 4) 100 = Inr (BigIntValue (2 ^ 65)) \<and>
   (\<exists>k. IntArith OpMul (BigIntValue (2 ^ 63)) (IntValue 4) 65 = Inl (ErrIntegerSizeLimit k) \<and> 65 \<le> k \<and> k \<le> 66)"
proof -
  have b: "BitLen (2 ^ 65) = 66"
    using BitLen_le_iff [of "2 ^ 65" 66] BitLen_gr_iff [of 65 "2 ^ 65"] by simp
  have o: "int_op OpMul (bigView (BigIntValue (2 ^ 63))) (bigView (IntValue 4)) = Some (2 ^ 65)"
    by (simp add: int_op_def)
  have "int_outcome 100 (2 ^ 65) (IntArith OpMul (BigIntValue (2 ^ 63)) (IntValue 4) 100)"
    by (rule integer_arithmetic_exact [OF _ o]) (simp add: MinMaxIntegerBits_def)
  moreover have "int_outcome 65 (2 ^ 65) (IntArith OpMul (BigIntValue (2 ^ 63)) (IntValue 4) 65)"
    by (rule integer_arithmetic_exact [OF _ o]) (simp add: MinMaxIntegerBits_def)
  ultimately show ?thesis unfolding int_outcome_def b by (auto split: sum.splits num_error.splits)
qed

text \<open>C16: arithmetic of exact numbers is the arithmetic of rationals. For any two exact numbers,
Integers or Rationals however held, the code's result is the reference's: a zero divisor is an
error, an operator that is none is an error, and otherwise the result is the rational the operator
denotes, refused exactly when that rational's own bits exceed the budget. \<open>%\<close> leaves the remainder
of the quotient rounded toward zero.\<close>

theorem rational_arithmetic_exact:
  assumes "number a" "number b"
  shows "RatArith op a b m =
    (if (op = OpDiv \<or> op = OpMod) \<and> ratView b = 0 then Inl ErrDivisionByZero
     else case rat_op op (ratView a) (ratView b) of
       None \<Rightarrow> Inl ErrArithmeticDomain
     | Some r \<Rightarrow> if rat_bits r > m then Inl (ErrRationalSizeLimit (rat_bits r)) else Inr (RatValue r))"
  unfolding RatArith_eq [OF assms] sizedRat_eq by (rule refl)

theorem rational_arithmetic_exact_witness:
  "RatArith OpMod (IntValue (- 7)) (IntValue 2) 64 = Inr (RatValue (- 1)) \<and>
   RatArith OpDiv (IntValue 1) (RatValue 0) 64 = Inl ErrDivisionByZero"
proof -
  have "rat_trunc (- 7 / 2) = - 3" by (simp add: rat_trunc_def floor_divide_of_int_eq [of 7 2, simplified])
  then show ?thesis
    using rational_arithmetic_exact [of "IntValue (- 7)" "IntValue 2" OpMod 64] rational_arithmetic_exact [of "IntValue 1" "RatValue 0" OpDiv 64]
    by (simp add: ratView_Integer rat_op_def rat_bits_def BitLen_def)
qed



text \<open>C20: comparison is the order of the rationals, and equality is identity: two numbers compare as
the rationals they are, they are equal under \<open>Equal\<close> just when they are the same value, and that is
when they are of one kind and equal as rationals; each number has one representation.\<close>

theorem comparison_exact:
  assumes "number v" "number w"
  shows
    "CompareRat v w = sign_of (ratView v - ratView w) \<and>
     (Equal v w \<longleftrightarrow> v = w) \<and> (v = w \<longleftrightarrow> Kind v = Kind w \<and> CompareRat v w = 0)"
  using CompareRat_eq [OF assms] Equal_iff [OF assms] number_unique [OF assms] by (simp add: sign_of_cases)

theorem comparison_exact_witness:
  "CompareRat (RatValue (1 / 3)) (IntValue 1) = - 1 \<and> \<not> Equal (RatValue 1) (IntValue 1)"
  using comparison_exact [of "RatValue (1 / 3)" "IntValue 1"] comparison_exact [of "RatValue 1" "IntValue 1"]
  by (auto simp: ratView_Integer sign_of_def)

text \<open>Rounding: \<open>RatFloor\<close> is the greatest Integer not above the number, \<open>RatTrunc\<close> the number
rounded toward zero, and \<open>RatRound\<close> the nearest Integer, a half away from zero.\<close>

theorem rounding_exact:
  assumes "number v" "rat_bits (\<bar>ratView v\<bar> + 1 / 2) \<le> MaxInt64"
  shows
    "RatFloor v = BigIntValue \<lfloor>ratView v\<rfloor> \<and> RatTrunc v = BigIntValue (rat_trunc (ratView v)) \<and>
     RatRound v = BigIntValue (rat_round (ratView v)) \<and>
     \<bar>of_int (rat_round (ratView v)) - ratView v\<bar> \<le> 1 / 2"
proof -
  have "\<bar>of_int (rat_round r) - r\<bar> \<le> 1 / 2" for r :: rat
    using floor_correct [of "r + 1 / 2"] floor_correct [of "- r + 1 / 2"]
    by (cases "r < 0"; simp only: rat_round_def if_True if_False of_int_minus abs_le_iff; linarith)
  then show ?thesis using RatFloor_eq RatTrunc_eq RatRound_eq assms by blast
qed

theorem rounding_exact_witness:
  "RatRound (RatValue (- 5 / 2)) = BigIntValue (- 3)"
proof -
  have q: "quotient_of (5 / 2 + 1 / 2) = (3, 1)" by simp
  have "rat_bits (\<bar>ratView (RatValue (- 5 / 2))\<bar> + 1 / 2) \<le> MaxInt64"
    by (simp add: rat_bits_def q BitLen_def bits_of_numeral MaxInt64_def)
  then have "RatRound (RatValue (- 5 / 2)) = BigIntValue (rat_round (- 5 / 2))"
    using rounding_exact [of "RatValue (- 5 / 2)"] by simp
  then show ?thesis by (simp add: rat_round_def)
qed


section \<open>Reading and writing numbers\<close>

lemma read_decimal_result:
  assumes "decimal_ok D" "1 \<le> m" "m \<le> MaxInt64"
  shows "case ParseRational log10_bits (decimal_text D) m of
      Inr v \<Rightarrow> v = RatValue (decimal_rat D) \<and> rat_bits (decimal_rat D) \<le> m
    | Inl e \<Rightarrow> \<exists>k. e = ErrRationalSizeLimit k \<and> m \<le> k"
proof -
  have d: "list_all is_digit (dwhole D @ dfraction D)" "dexponent D = [] \<or> isIntegerNotation (dexponent D)"
    using assms(1) by (auto simp: decimal_ok_def)
  have "\<exists>k. e = ErrRationalSizeLimit k \<and> m \<le> k" if "ParseRational log10_bits (decimal_text D) m = Inl e" for e
    using that assms(3) unfolding ParseRational_decimal [OF assms(1)] read_decimal_eq [OF d] sizedRat_eq
    by (auto split: if_splits)
  then show ?thesis using ParseRational_sound [OF assms(1) _ assms(2)] by (auto split: sum.split)
qed

text \<open>C21: reading decimal notation is exact. The notation \<open>ParseRational\<close> accepts is the grammar: a
sign, digits with a fraction, not both empty, and an exponent; everything else is
\<open>ErrRealNotation\<close>. On a notation the result is the very rational it spells and fits the budget, or
the size error with bits beyond the budget; and it is that rational, or refused by its own size,
whenever the estimate from its significant digits and its scale is within the budget.\<close>

theorem parse_rational_exact:
  assumes "1 \<le> m" "m \<le> MaxInt64"
  shows
    "(isRealNotation s \<longleftrightarrow> (\<exists>D. decimal_ok D \<and> s = decimal_text D)) \<and>
     (\<not> isRealNotation s \<longrightarrow> ParseRational log10_bits s m = Inl ErrRealNotation) \<and>
     (\<forall>D. decimal_ok D \<and> s = decimal_text D \<longrightarrow>
        (case ParseRational log10_bits s m of
           Inr v \<Rightarrow> v = RatValue (decimal_rat D) \<and> rat_bits (decimal_rat D) \<le> m
         | Inl e \<Rightarrow> \<exists>k. e = ErrRationalSizeLimit k \<and> m \<le> k) \<and>
        (exponent_ok (dexponent D) \<and> estimate log10_bits (dwhole D) (dfraction D) (dexponent D) \<le> m \<longrightarrow>
           ParseRational log10_bits s m = sizedRat (decimal_rat D) m))"
  using isRealNotation_iff read_decimal_result [OF _ assms] ParseRational_exact [OF _ _ _ assms(1)]
  by (auto simp: ParseRational_def [of _ s m])

theorem parse_rational_exact_witness:
  "ParseRational (\<lambda>k. 3322 * k div 1000) ''-1.50'' 64 = Inr (RatValue (- 3 / 2))"
proof -
  define D where "D = \<lparr>dsign = ''-'', dwhole = ''1'', ddot = True, dfraction = ''50'', dmark = [], dexponent = []\<rparr>"
  have ok: "decimal_ok D" by (simp add: D_def decimal_ok_def is_digit_def in_range_def less_eq_char_def)
  have spelled: "''-1.50'' = decimal_text D" by (simp add: D_def decimal_text_def dot_text_def)
  have val: "decimal_rat D = - 3 / 2"
    by (simp add: D_def decimal_rat_def decimal_value_def digits_value_def digit_value_def power_int_minus)
  have q: "quotient_of (- (3 / 2)) = (- 3, 2)" using quotient_of_coprime_div [of "- 3" 2] by simp
  have x: "exponent_ok (dexponent D)"
    "estimate (\<lambda>k. 3322 * k div 1000) (dwhole D) (dfraction D) (dexponent D) \<le> 64"
    by (simp_all add: D_def exponent_ok_def estimate_def significant_def scale_of_def trim_left_zeros_def trim_right_zeros_def)
  have m: "1 \<le> (64 :: int)" "64 \<le> MaxInt64" by (simp_all add: MaxInt64_def)
  have "ParseRational (\<lambda>k. 3322 * k div 1000) ''-1.50'' 64 = sizedRat (decimal_rat D) 64"
    by (rule parse_rational_exact [OF m, THEN conjunct2, THEN conjunct2, THEN spec [of _ D], THEN mp, OF conjI [OF ok spelled],
        THEN conjunct2, THEN mp, OF conjI [OF x]])
  then show ?thesis unfolding val by (simp add: sizedRat_eq rat_bits_def q BitLen_def bits_of_numeral)
qed



text \<open>C25: the estimate refuses numbers that fit. \<open>0.00000095367431640625\<close> is the Rational
\<open>1 / 2 ^ 20\<close>, whose terms have 22 bits; under the least budget, 64 bits, \<open>ParseRational\<close> refuses it
as needing 109, because the estimate counts the powers of ten before the fraction is reduced.\<close>

theorem parse_rational_refuses_reducible:
  assumes "log10_bits 13 = 43" "log10_bits 20 = 66"
  shows
    "ParseRational log10_bits ''0.00000095367431640625'' MinMaxIntegerBits = Inl (ErrRationalSizeLimit 109) \<and>
     decimal_value False ''0'' ''00000095367431640625'' [] = 1 / 2 ^ 20 \<and> rat_bits (1 / 2 ^ 20) = 22"
proof -
  define D where "D = \<lparr>dsign = [], dwhole = ''0'', ddot = True, dfraction = ''00000095367431640625'', dmark = [], dexponent = []\<rparr>"
  have dig: "list_all is_digit (''0'' @ ''00000095367431640625'')"
    by (simp add: is_digit_def in_range_def less_eq_char_def)
  have ok: "decimal_ok D" using dig by (simp add: D_def decimal_ok_def)
  have spelled: "''0.00000095367431640625'' = decimal_text D" by (simp add: D_def decimal_text_def dot_text_def)
  have N: "digits_value (''0'' @ ''00000095367431640625'') = 95367431640625"
    by (simp add: digits_value_def digit_value_def)
  have x: "exponent_ok []" "estimate log10_bits ''0'' ''00000095367431640625'' [] = 109"
    using assms by (simp_all add: exponent_ok_def estimate_def significant_def scale_of_def trim_left_zeros_def trim_right_zeros_def)
  have "ParseRational log10_bits ''0.00000095367431640625'' 64 = read_decimal log10_bits False ''0'' ''00000095367431640625'' [] 64"
    unfolding spelled ParseRational_decimal [OF ok] by (simp add: D_def)
  also have "\<dots> = Inl (ErrRationalSizeLimit 109)"
    using N x by (subst read_decimal_eq [OF dig]) simp_all
  finally have a: "ParseRational log10_bits ''0.00000095367431640625'' 64 = Inl (ErrRationalSizeLimit 109)" .
  have b: "decimal_value False ''0'' ''00000095367431640625'' [] = 1 / 2 ^ 20"
    unfolding decimal_value_def N by (simp add: power_int_minus)
  have q: "quotient_of (1 / 2 ^ 20) = (1, 2 ^ 20)" using quotient_of_coprime_div [of 1 "2 ^ 20"] by simp
  have "rat_bits (1 / 2 ^ 20) = 22" unfolding rat_bits_def q by (simp add: BitLen_def bits_of_numeral)
  with a b show ?thesis by (simp add: MinMaxIntegerBits_def)
qed

theorem parse_rational_refuses_reducible_witness:
  "ParseRational (\<lambda>k. 3322 * k div 1000) ''0.00000095367431640625'' 64 = Inl (ErrRationalSizeLimit 109)"
  using parse_rational_refuses_reducible [of "\<lambda>k. 3322 * k div 1000"] by (simp add: MinMaxIntegerBits_def)

text \<open>A packed value unpacks to the value: Integers, Rationals, Reals and Booleans, of which only
the fields of their kind are set.\<close>

theorem unpack_pack:
  assumes "Kind v = ValReal \<longrightarrow> \<not> BoolV v \<and> IntV v = 0" "Kind v = ValBool \<longrightarrow> RealV v = 0 \<and> IntV v = 0"
    and "Kind v \<noteq> ValReal \<and> Kind v \<noteq> ValBool \<longrightarrow> \<not> BoolV v \<and> RealV v = 0"
  shows "Unpack (Pack v) = v"
  using assms by (cases v; cases "Kind v") (simp_all add: Unpack_def Pack_def no_Value_def Let_def)

theorem unpack_pack_witness:
  "Unpack (Pack (RatValue (1 / 3))) = RatValue (1 / 3)"
  using unpack_pack [of "RatValue (1 / 3)"] number_RatValue [of "1 / 3"] by (simp add: number_def)

end
