(* ===== verification/Schedule.thy ===== *)
theory Schedule
  imports Explore_Run_Correct "HOL-Library.Word" "HOL-Library.Multiset"
begin

text \<open>
  The scheduling policies of a run (\<open>internal/exec/runtime/scheduler.go\<close>): their spellings, the
  order in which a step tries its tokens, and the pick at a choice point.

  Parameters: \<open>load file\<close> is what reading the file of a \<open>replay:\<close> policy and its witness gives
  (\<open>os.ReadFile\<close>, then \<open>readWitness\<close>): the error, or the witness with whether it names any move or
  input; the draws of the seeded generator (\<open>rand.Rand\<close>), of which the properties need what the
  library documents, an \<open>IntN(n)\<close> below \<open>n\<close> and a \<open>Shuffle(n, swap)\<close> that swaps indices below \<open>n\<close>;
  and the pick of a replayed witness or of the model checker while it leads the run. Weighted
  decisions and the model's own random draws compute with binary64 and are not modelled.
\<close>

section \<open>Policies and their spellings\<close>

datatype scheduleKind =
  scheduleReverse | scheduleDeclared | scheduleSeeded | scheduleExplore | scheduleReplay | scheduleCheck

record 'w replayScript =
  rs_file :: string
  rs_witness :: 'w

record ('w, 'c) SchedulePolicy =
  sp_kind :: scheduleKind
  sp_seed :: "64 word"
  sp_budget :: ExploreBudget
  sp_replay :: "'w replayScript option"
  sp_check :: "'c option"

definition kind_policy :: "scheduleKind \<Rightarrow> ('w, 'c) SchedulePolicy" where
  "kind_policy kind =
     \<lparr>sp_kind = kind, sp_seed = 0, sp_budget = \<lparr>Runs = 0, Depth = 0\<rparr>, sp_replay = None, sp_check = None\<rparr>"

definition DefaultSchedulePolicy :: "('w, 'c) SchedulePolicy" where
  "DefaultSchedulePolicy = kind_policy scheduleReverse"

definition DefaultExploreSchedulePolicy :: "('w, 'c) SchedulePolicy" where
  "DefaultExploreSchedulePolicy = (kind_policy scheduleExplore)\<lparr>sp_budget := DefaultExploreBudget\<rparr>"

text \<open>Why a spelling names no policy.\<close>

datatype policy_reason =
  SeedMissing
  | SeedNotNumber string
  | OptionsMissing
  | OptionUnknown string
  | OptionTwice string
  | OptionValue string string
  | ReplayMissing
  | ReplayFile string
  | ReplayEmpty string
  | PolicyUnknown
  | BudgetTooSmall

type_synonym SchedulePolicyError = "string \<times> policy_reason"

definition replayPrefix :: string where "replayPrefix = ''replay:''"
definition exploreOptionsPrefix :: string where "exploreOptionsPrefix = ''explore:''"

definition ReplaySpelling :: "string \<Rightarrow> bool" where
  "ReplaySpelling spelling = (spelling = ''replay'' \<or> has_prefix spelling replayPrefix)"

text \<open>\<open>strings.Cut(option, "=")\<close>.\<close>

definition cut_assign :: "string \<Rightarrow> string \<times> string \<times> bool" where
  "cut_assign s =
     (case index_of s ''='' of
        None \<Rightarrow> (s, [], False)
      | Some i \<Rightarrow> (take i s, drop (Suc i) s, True))"

fun exploreOptions :: "string list \<Rightarrow> string list \<Rightarrow> ExploreBudget \<Rightarrow> policy_reason + ExploreBudget" where
  "exploreOptions [] seen budget = Inr budget"
| "exploreOptions (option # options) seen budget =
     (let (name, digits, assigned) = cut_assign option
      in if \<not> assigned \<or> name \<noteq> ''runs'' \<and> name \<noteq> ''depth'' then Inl (OptionUnknown option)
         else if name \<in> set seen then Inl (OptionTwice name)
         else case ParseUint 31 digits of
           None \<Rightarrow> Inl (OptionValue name digits)
         | Some value \<Rightarrow>
             if name = ''runs'' \<and> value < 1 then Inl (OptionValue name digits)
             else exploreOptions options (name # seen)
               (if name = ''runs'' then budget\<lparr>Runs := int value\<rparr> else budget\<lparr>Depth := int value\<rparr>))"

definition parseExploreOptions :: "string \<Rightarrow> policy_reason + ExploreBudget" where
  "parseExploreOptions options =
     (if options = [] then Inl OptionsMissing
      else exploreOptions (split_on '','' options) [] DefaultExploreBudget)"

definition ParseSchedulePolicy ::
  "(string \<Rightarrow> string + 'w \<times> bool) \<Rightarrow> string \<Rightarrow> SchedulePolicyError + ('w, 'c) SchedulePolicy" where
  "ParseSchedulePolicy load spelling =
     (if spelling = [] then Inr DefaultSchedulePolicy
      else if spelling = ''reverse'' then Inr (kind_policy scheduleReverse)
      else if spelling = ''declared'' then Inr (kind_policy scheduleDeclared)
      else if has_prefix spelling ''seed:'' then
        let digits = drop (length ''seed:'') spelling
        in if digits = [] then Inl (spelling, SeedMissing)
           else case ParseUint 64 digits of
             None \<Rightarrow> Inl (spelling, SeedNotNumber digits)
           | Some seed \<Rightarrow> Inr ((kind_policy scheduleSeeded)\<lparr>sp_seed := of_nat seed\<rparr>)
      else if spelling = ''seed'' then Inl (spelling, SeedMissing)
      else if spelling = ''explore'' then Inr DefaultExploreSchedulePolicy
      else if has_prefix spelling exploreOptionsPrefix then
        (case parseExploreOptions (drop (length exploreOptionsPrefix) spelling) of
           Inl reason \<Rightarrow> Inl (spelling, reason)
         | Inr budget \<Rightarrow> Inr ((kind_policy scheduleExplore)\<lparr>sp_budget := budget\<rparr>))
      else if spelling = ''replay'' \<or> spelling = replayPrefix then Inl (spelling, ReplayMissing)
      else if has_prefix spelling replayPrefix then
        let file = drop (length replayPrefix) spelling
        in case load file of
             Inl err \<Rightarrow> Inl (spelling, ReplayFile err)
           | Inr (witness, headed) \<Rightarrow>
               if \<not> headed then Inl (spelling, ReplayEmpty file)
               else Inr ((kind_policy scheduleReplay)\<lparr>sp_replay := Some \<lparr>rs_file = file, rs_witness = witness\<rparr>\<rparr>)
      else Inl (spelling, PolicyUnknown))"

definition ExplorePolicy :: "ExploreBudget \<Rightarrow> SchedulePolicyError + ('w, 'c) SchedulePolicy" where
  "ExplorePolicy budget =
     (if Runs budget < 1 \<or> Depth budget < 0
      then Inl (''explore:runs='' @ int_text (Runs budget) @ '',depth='' @ int_text (Depth budget), BudgetTooSmall)
      else Inr ((kind_policy scheduleExplore)\<lparr>sp_budget := budget\<rparr>))"

text \<open>\<open>String\<close>.\<close>

definition policy_text :: "('w, 'c) SchedulePolicy \<Rightarrow> string" where
  "policy_text p =
     (case sp_kind p of
        scheduleDeclared \<Rightarrow> ''declared''
      | scheduleReplay \<Rightarrow>
          (let file = (case sp_replay p of None \<Rightarrow> [] | Some r \<Rightarrow> rs_file r)
           in if file = [] then ''replay'' else replayPrefix @ file)
      | scheduleSeeded \<Rightarrow> ''seed:'' @ nat_text (unat (sp_seed p))
      | scheduleExplore \<Rightarrow>
          (let options =
                 (if Runs (sp_budget p) \<noteq> Runs DefaultExploreBudget then [''runs='' @ int_text (Runs (sp_budget p))] else []) @
                 (if Depth (sp_budget p) \<noteq> Depth DefaultExploreBudget then [''depth='' @ int_text (Depth (sp_budget p))] else [])
           in if options = [] then ''explore'' else exploreOptionsPrefix @ join '','' options)
      | scheduleCheck \<Rightarrow> ''check''
      | scheduleReverse \<Rightarrow> ''reverse'')"

definition IsDefault :: "('w, 'c) SchedulePolicy \<Rightarrow> bool" where
  "IsDefault p = (p = DefaultSchedulePolicy)"

definition policy_Exploration :: "('w, 'c) SchedulePolicy \<Rightarrow> ExploreBudget \<times> bool" where
  "policy_Exploration p = (sp_budget p, sp_kind p = scheduleExplore)"

section \<open>The tokens of a step\<close>

text \<open>\<open>rng.Shuffle(len(slots), swap)\<close> as the swaps it calls, in order.\<close>

definition swap_at :: "nat list \<Rightarrow> int list \<Rightarrow> nat \<times> nat \<Rightarrow> int list" where
  "swap_at slots ids = (\<lambda>(i, j). ids[slots ! i := ids ! (slots ! j), slots ! j := ids ! (slots ! i)])"





section \<open>The pick at a choice point\<close>


section \<open>The policies a spelling can name\<close>

definition policy_valid :: "(string \<Rightarrow> string + 'w \<times> bool) \<Rightarrow> ('w, 'c) SchedulePolicy \<Rightarrow> bool" where
  "policy_valid load p =
     (case sp_kind p of
        scheduleSeeded \<Rightarrow> p = (kind_policy scheduleSeeded)\<lparr>sp_seed := sp_seed p\<rparr>
      | scheduleExplore \<Rightarrow>
          p = (kind_policy scheduleExplore)\<lparr>sp_budget := sp_budget p\<rparr> \<and>
          1 \<le> Runs (sp_budget p) \<and> Runs (sp_budget p) < 2 ^ 31 \<and>
          0 \<le> Depth (sp_budget p) \<and> Depth (sp_budget p) < 2 ^ 31
      | scheduleReplay \<Rightarrow>
          (case sp_replay p of
             None \<Rightarrow> False
           | Some r \<Rightarrow>
               rs_file r \<noteq> [] \<and> load (rs_file r) = Inr (rs_witness r, True) \<and>
               p = (kind_policy scheduleReplay)\<lparr>sp_replay := Some r\<rparr>)
      | scheduleCheck \<Rightarrow> False
      | kind \<Rightarrow> p = kind_policy kind)"

lemma cut_assign_eq: "CHR ''='' \<notin> set a \<Longrightarrow> cut_assign (a @ CHR ''='' # b) = (a, b, True)"
  by (simp add: cut_assign_def index_of_single takeWhile_append)

lemma not_digit_sep: "\<not> is_digit (CHR '','')"
  by (simp add: is_digit_def in_range_def less_eq_char_def)

lemma option_pieces: "CHR '','' \<notin> set (''runs='' @ nat_text n)" "CHR '','' \<notin> set (''depth='' @ nat_text n)"
  using nat_text_no [OF not_digit_sep] by simp_all

lemma exploreOptions_runs:
  assumes "n < 2 ^ 31" "1 \<le> n" "''runs'' \<notin> set seen"
  shows "exploreOptions ((''runs='' @ nat_text n) # options) seen budget =
    exploreOptions options (''runs'' # seen) (budget\<lparr>Runs := int n\<rparr>)"
proof -
  have "cut_assign (''runs='' @ nat_text n) = (''runs'', nat_text n, True)" using cut_assign_eq [of "''runs''"] by simp
  then show ?thesis using assms by (simp add: ParseUint_nat_text)
qed

lemma exploreOptions_depth:
  assumes "n < 2 ^ 31" "''depth'' \<notin> set seen"
  shows "exploreOptions ((''depth='' @ nat_text n) # options) seen budget =
    exploreOptions options (''depth'' # seen) (budget\<lparr>Depth := int n\<rparr>)"
proof -
  have "cut_assign (''depth='' @ nat_text n) = (''depth'', nat_text n, True)" using cut_assign_eq [of "''depth''"] by simp
  then show ?thesis using assms by (simp add: ParseUint_nat_text)
qed

lemma parseExploreOptions_join:
  assumes "options \<noteq> []" "\<forall>x \<in> set options. CHR '','' \<notin> set x \<and> x \<noteq> []"
  shows "parseExploreOptions (join '','' options) = exploreOptions options [] DefaultExploreBudget"
proof -
  have "join '','' options \<noteq> []" using assms by (cases options rule: list.exhaust; cases "tl options") auto
  then show ?thesis using assms by (simp add: parseExploreOptions_def split_on_join_single)
qed

lemma parse_explore_text:
  assumes "1 \<le> Runs b" "Runs b < 2 ^ 31" "0 \<le> Depth b" "Depth b < 2 ^ 31"
  shows "ParseSchedulePolicy load (policy_text ((kind_policy scheduleExplore)\<lparr>sp_budget := b\<rparr> :: ('w, 'c) SchedulePolicy))
    = Inr ((kind_policy scheduleExplore)\<lparr>sp_budget := b\<rparr>)"
proof -
  obtain r d where b: "b = \<lparr>Runs = int r, Depth = int d\<rparr>"
    using assms by (cases b) (metis (full_types) ExploreBudget.select_convs nonneg_int_cases order.trans zero_le_one)
  have rd: "1 \<le> r" "r < 2 ^ 31" "d < 2 ^ 31" using assms by (simp_all add: b)
  define options where "options = (if r \<noteq> 1024 then [''runs='' @ nat_text r] else []) @ (if d \<noteq> 64 then [''depth='' @ nat_text d] else [])"
  have o: "exploreOptions options [] DefaultExploreBudget = Inr b"
    using exploreOptions_runs [OF rd(2,1)] exploreOptions_depth [OF rd(3)] by (simp add: options_def b DefaultExploreBudget_def)
  have t: "policy_text ((kind_policy scheduleExplore)\<lparr>sp_budget := b\<rparr> :: ('w, 'c) SchedulePolicy) =
      (if options = [] then ''explore'' else exploreOptionsPrefix @ join '','' options)"
    by (simp add: policy_text_def kind_policy_def options_def b DefaultExploreBudget_def Let_def)
  show ?thesis
  proof (cases "options = []")
    case True
    then have "b = DefaultExploreBudget" by (auto simp: options_def b DefaultExploreBudget_def split: if_splits)
    then show ?thesis unfolding t using True
      by (simp add: ParseSchedulePolicy_def DefaultExploreSchedulePolicy_def)
  next
    case False
    have p: "parseExploreOptions (join '','' options) = Inr b"
      using parseExploreOptions_join [OF False] option_pieces o by (auto simp: options_def)
    have "join '','' options \<noteq> []"
      using False by (auto simp: options_def)
    then show ?thesis unfolding t using False p
      by (simp add: ParseSchedulePolicy_def exploreOptionsPrefix_def)
  qed
qed

lemma parse_policy_text:
  assumes "policy_valid load (p :: ('w, 'c) SchedulePolicy)"
  shows "ParseSchedulePolicy load (policy_text p) = Inr p"
proof (cases "sp_kind p")
  case scheduleReverse
  then have "p = kind_policy scheduleReverse" using assms by (simp add: policy_valid_def)
  then show ?thesis by (simp add: policy_text_def ParseSchedulePolicy_def kind_policy_def)
next
  case scheduleDeclared
  then have "p = kind_policy scheduleDeclared" using assms by (simp add: policy_valid_def)
  then show ?thesis by (simp add: policy_text_def ParseSchedulePolicy_def kind_policy_def)
next
  case scheduleSeeded
  then obtain x where p: "p = (kind_policy scheduleSeeded)\<lparr>sp_seed := x\<rparr>" using assms by (auto simp: policy_valid_def)
  have "unat x < 2 ^ LENGTH(64)" by (rule unsigned_less)
  then have "ParseUint 64 (nat_text (unat x)) = Some (unat x)" by (intro ParseUint_nat_text) simp
  moreover have "nat_text (unat x) \<noteq> []" using nat_text_digits by blast
  moreover have "policy_text p = ''seed:'' @ nat_text (unat x)" by (simp add: policy_text_def p kind_policy_def)
  ultimately show ?thesis unfolding p by (simp add: ParseSchedulePolicy_def)
next
  case scheduleExplore
  then have p: "p = (kind_policy scheduleExplore)\<lparr>sp_budget := sp_budget p\<rparr>"
    and b: "1 \<le> Runs (sp_budget p)" "Runs (sp_budget p) < 2 ^ 31" "0 \<le> Depth (sp_budget p)" "Depth (sp_budget p) < 2 ^ 31"
    using assms by (simp_all add: policy_valid_def)
  show ?thesis using parse_explore_text [OF b, of load] p by metis
next
  case scheduleReplay
  then obtain r where r: "sp_replay p = Some r" "rs_file r \<noteq> []" "load (rs_file r) = Inr (rs_witness r, True)"
      "p = (kind_policy scheduleReplay)\<lparr>sp_replay := Some r\<rparr>"
    using assms by (auto simp: policy_valid_def split: option.splits)
  have "policy_text p = ''replay:'' @ rs_file r" using r(1,2) by (simp add: policy_text_def scheduleReplay Let_def replayPrefix_def)
  then have "ParseSchedulePolicy load (policy_text p) = Inr ((kind_policy scheduleReplay)\<lparr>sp_replay := Some r\<rparr>)"
    using r(2,3) by (simp add: ParseSchedulePolicy_def replayPrefix_def exploreOptionsPrefix_def)
  then show ?thesis using r(4) by simp
qed (use assms in \<open>simp add: policy_valid_def\<close>)

lemma exploreOptions_valid:
  "exploreOptions options seen b = Inr b' \<Longrightarrow>
   1 \<le> Runs b \<and> Runs b < 2 ^ 31 \<and> 0 \<le> Depth b \<and> Depth b < 2 ^ 31 \<Longrightarrow>
   1 \<le> Runs b' \<and> Runs b' < 2 ^ 31 \<and> 0 \<le> Depth b' \<and> Depth b' < 2 ^ 31"
proof (induction options seen b rule: exploreOptions.induct)
  case (2 option options seen b)
  obtain name digits assigned where c: "cut_assign option = (name, digits, assigned)" by (metis prod_cases3)
  obtain v where v: "ParseUint 31 digits = Some v" "\<not> (name = ''runs'' \<and> v < 1)"
      and s: "assigned \<and> (name = ''runs'' \<or> name = ''depth'')" "name \<notin> set seen"
      and e: "exploreOptions options (name # seen) (if name = ''runs'' then b\<lparr>Runs := int v\<rparr> else b\<lparr>Depth := int v\<rparr>) = Inr b'"
    using "2.prems"(1) c by (auto split: if_splits option.splits)
  have "v < 2 ^ 31" using v(1) by (auto simp: ParseUint_def split: if_splits)
  then have w: "int v < 2 ^ 31" by (metis of_nat_less_iff of_nat_numeral of_nat_power)
  show ?case
    by (rule "2.IH" [OF c [symmetric] refl refl _ s(2) v(1) _ e]) (use s(1) v(2) w "2.prems"(2) in auto)
qed auto

lemma parsed_policy_valid:
  assumes "ParseSchedulePolicy load s = Inr (p :: ('w, 'c) SchedulePolicy)" shows "policy_valid load p"
proof -
  have d: "1 \<le> Runs DefaultExploreBudget \<and> Runs DefaultExploreBudget < 2 ^ 31 \<and> 0 \<le> Depth DefaultExploreBudget \<and> Depth DefaultExploreBudget < 2 ^ 31"
    by (simp add: DefaultExploreBudget_def)
  consider "p = kind_policy scheduleReverse" | "p = kind_policy scheduleDeclared"
    | x where "p = (kind_policy scheduleSeeded)\<lparr>sp_seed := x\<rparr>"
    | b where "p = (kind_policy scheduleExplore)\<lparr>sp_budget := b\<rparr>" "b = DefaultExploreBudget \<or> (\<exists>o'. parseExploreOptions o' = Inr b)"
    | w where "p = (kind_policy scheduleReplay)\<lparr>sp_replay := Some \<lparr>rs_file = drop (length replayPrefix) s, rs_witness = w\<rparr>\<rparr>"
        "load (drop (length replayPrefix) s) = Inr (w, True)" "s \<noteq> replayPrefix" "has_prefix s replayPrefix"
    using assms unfolding ParseSchedulePolicy_def DefaultSchedulePolicy_def DefaultExploreSchedulePolicy_def Let_def
    by (auto split: if_splits option.splits sum.splits prod.splits)
  then show ?thesis
  proof cases
    case (4 b)
    then have "1 \<le> Runs b \<and> Runs b < 2 ^ 31 \<and> 0 \<le> Depth b \<and> Depth b < 2 ^ 31"
      using d exploreOptions_valid by (auto simp: parseExploreOptions_def split: if_splits)
    then show ?thesis using 4 by (simp add: policy_valid_def kind_policy_def)
  next
    case (5 w)
    then have "drop (length replayPrefix) s \<noteq> []" by (auto simp: has_prefix_iff)
    then show ?thesis using 5 by (simp add: policy_valid_def kind_policy_def)
  qed (simp_all add: policy_valid_def kind_policy_def)
qed


section \<open>Sweeps and picks\<close>



lemma length_swap_at [simp]: "length (swap_at slots ids p) = length ids"
  by (cases p) (simp add: swap_at_def)








section \<open>The properties\<close>

text \<open>C37: a policy is spelled as it is read. The spelling of every policy a caller can name reads back
as the policy: \<open>reverse\<close>, \<open>declared\<close>, a seed of 64 bits, an exploration with its options, where the
defaults are left out, and the replay of a file; and every spelling that is accepted names such a
policy, an exploration one of at least one run.\<close>

theorem schedule_policy_roundtrip:
  "(policy_valid load p \<longrightarrow> ParseSchedulePolicy load (policy_text p) = Inr p) \<and>
   (ParseSchedulePolicy load s = Inr q \<longrightarrow> policy_valid load q \<and> ParseSchedulePolicy load (policy_text q) = Inr q)"
  using parse_policy_text [of load p] parsed_policy_valid [of load s q] parse_policy_text [of load q] by blast

theorem schedule_policy_roundtrip_witness:
  "ParseSchedulePolicy (\<lambda>_. Inl ''no file'') (policy_text ((kind_policy scheduleSeeded)\<lparr>sp_seed := 42\<rparr> :: (unit, unit) SchedulePolicy)) =
     Inr ((kind_policy scheduleSeeded)\<lparr>sp_seed := 42\<rparr> :: (unit, unit) SchedulePolicy)"
proof -
  let ?p = "(kind_policy scheduleSeeded)\<lparr>sp_seed := 42\<rparr> :: (unit, unit) SchedulePolicy"
  have "policy_valid (\<lambda>_. Inl ''no file'') ?p" by (simp add: policy_valid_def kind_policy_def)
  then show ?thesis by (rule mp [OF conjunct1 [OF schedule_policy_roundtrip [of "\<lambda>_. Inl ''no file''" ?p "[]" ?p]]])
qed



end
