(* ===== verification/Go_Space.thy ===== *)
theory Go_Space
  imports Prelude
begin

text \<open>
  \<open>strings.TrimSpace\<close> on the bytes of a string: the white space of Unicode, one or more bytes of
  UTF-8 each, taken off both ends.
\<close>

definition spaces :: "string list" where
  "spaces =
     [[CHR 0x09], [CHR 0x0A], [CHR 0x0B], [CHR 0x0C], [CHR 0x0D], [CHR 0x20],
      [CHR 0xC2, CHR 0x85], [CHR 0xC2, CHR 0xA0], [CHR 0xE1, CHR 0x9A, CHR 0x80],
      [CHR 0xE2, CHR 0x80, CHR 0x80], [CHR 0xE2, CHR 0x80, CHR 0x81], [CHR 0xE2, CHR 0x80, CHR 0x82],
      [CHR 0xE2, CHR 0x80, CHR 0x83], [CHR 0xE2, CHR 0x80, CHR 0x84], [CHR 0xE2, CHR 0x80, CHR 0x85],
      [CHR 0xE2, CHR 0x80, CHR 0x86], [CHR 0xE2, CHR 0x80, CHR 0x87], [CHR 0xE2, CHR 0x80, CHR 0x88],
      [CHR 0xE2, CHR 0x80, CHR 0x89], [CHR 0xE2, CHR 0x80, CHR 0x8A], [CHR 0xE2, CHR 0x80, CHR 0xA8],
      [CHR 0xE2, CHR 0x80, CHR 0xA9], [CHR 0xE2, CHR 0x80, CHR 0xAF], [CHR 0xE2, CHR 0x81, CHR 0x9F],
      [CHR 0xE3, CHR 0x80, CHR 0x80]]"

text \<open>Take prefixes of a list of texts off, as long as there is one.\<close>

function strip_any :: "string list \<Rightarrow> string \<Rightarrow> string" where
  "strip_any ps s =
     (case find (\<lambda>p. p \<noteq> [] \<and> has_prefix s p) ps of
        None \<Rightarrow> s
      | Some p \<Rightarrow> strip_any ps (drop (length p) s))"
  by pat_completeness auto
termination
proof (relation "measure (\<lambda>(ps, s). length s)", simp)
  fix ps s p
  assume "find (\<lambda>p. p \<noteq> [] \<and> has_prefix s p) ps = Some p"
  then have "p \<noteq> [] \<and> has_prefix s p" by (auto simp: find_Some_iff)
  then show "((ps, drop (length p) s), ps, s) \<in> measure (\<lambda>(ps, s). length s)"
    by (cases p; cases s) auto
qed

declare strip_any.simps [simp del]

definition TrimSpace :: "string \<Rightarrow> string" where
  "TrimSpace s = rev (strip_any (map rev spaces) (rev (strip_any spaces s)))"

text \<open>A text of one-byte characters that are no white space stays.\<close>

definition plain :: "char \<Rightarrow> bool" where
  "plain c = (CHR 0x20 < c \<and> c < CHR 0x7F)"

lemma strip_any_stop: "find (\<lambda>p. p \<noteq> [] \<and> has_prefix s p) ps = None \<Longrightarrow> strip_any ps s = s"
  by (simp add: strip_any.simps [of ps s])

lemma spaces_not_plain: "p \<in> set spaces \<Longrightarrow> p \<noteq> [] \<and> \<not> plain (hd p) \<and> \<not> plain (last p)"
  by (simp add: spaces_def) (elim disjE; simp add: plain_def less_char_def)

lemma strip_plain_head:
  assumes "s = [] \<or> plain (hd s)" shows "strip_any spaces s = s" "strip_any (map rev spaces) s = s"
proof -
  have "\<not> has_prefix s p" if "p \<noteq> []" "\<not> plain (hd p)" for p using assms that by (cases s; cases p) auto
  then have "find (\<lambda>p. p \<noteq> [] \<and> has_prefix s p) spaces = None"
    "find (\<lambda>p. p \<noteq> [] \<and> has_prefix s p) (map rev spaces) = None"
    using spaces_not_plain by (auto simp: find_None_iff hd_rev)
  then show "strip_any spaces s = s" "strip_any (map rev spaces) s = s" by (simp_all add: strip_any_stop)
qed

lemma TrimSpace_plain: "s = [] \<or> plain (hd s) \<and> plain (last s) \<Longrightarrow> TrimSpace s = s"
  using strip_plain_head(1) [of s] strip_plain_head(2) [of "rev s"] by (cases "s = []") (simp_all add: TrimSpace_def hd_rev)

lemma TrimSpace_list_plain: "list_all plain s \<Longrightarrow> TrimSpace s = s"
  by (rule TrimSpace_plain) (cases s; auto simp: list_all_iff)

end
