(* ===== verification/Budgets.thy ===== *)
theory Budgets
  imports Exact_Integers Go_Space
begin

text \<open>
  The bounds of one run (\<open>internal/exec/runtime/budget.go\<close>): their defaults, what the environment asks
  for, and which sets of bounds a context accepts. A value is an \<open>int64\<close>, here the integer it is;
  \<open>lookup env\<close> is the value of a variable, empty when it is unset (\<open>envvar.Lookup\<close>).
\<close>

record Budgets =
  MaxSteps :: int
  MaxActionSteps :: int
  MaxStateEvents :: int
  MaxDoSteps :: int
  MaxElements :: int
  MaxCalcDepth :: int
  MaxSweepRuns :: int
  MaxIntegerBits :: int

definition DefaultBudgets :: Budgets where
  "DefaultBudgets =
     \<lparr>MaxSteps = 10000000, MaxActionSteps = 1000000, MaxStateEvents = 1000000, MaxDoSteps = 5000000,
      MaxElements = 1000000, MaxCalcDepth = 10000, MaxSweepRuns = 1000, MaxIntegerBits = 2 ^ 20\<rparr>"

definition maxCalcDepthCeiling :: int where
  "maxCalcDepthCeiling = 25000"

record budgetVar =
  bv_env :: string
  bv_def :: int
  bv_counts :: string
  bv_get :: "Budgets \<Rightarrow> int"
  bv_set :: "int \<Rightarrow> Budgets \<Rightarrow> Budgets"
  bv_ceiling :: int
  bv_floor :: int

definition budgetVars :: "budgetVar list" where
  "budgetVars =
     [\<lparr>bv_env = ''OPENSYSML_MAX_STEPS'', bv_def = 10000000, bv_counts = ''evaluation steps'',
       bv_get = MaxSteps, bv_set = (\<lambda>n b. b\<lparr>MaxSteps := n\<rparr>), bv_ceiling = 0, bv_floor = 0\<rparr>,
      \<lparr>bv_env = ''OPENSYSML_MAX_ACTION_STEPS'', bv_def = 1000000, bv_counts = ''action token-flow steps'',
       bv_get = MaxActionSteps, bv_set = (\<lambda>n b. b\<lparr>MaxActionSteps := n\<rparr>), bv_ceiling = 0, bv_floor = 0\<rparr>,
      \<lparr>bv_env = ''OPENSYSML_MAX_EVENTS'', bv_def = 1000000, bv_counts = ''state machine events'',
       bv_get = MaxStateEvents, bv_set = (\<lambda>n b. b\<lparr>MaxStateEvents := n\<rparr>), bv_ceiling = 0, bv_floor = 0\<rparr>,
      \<lparr>bv_env = ''OPENSYSML_MAX_DO_STEPS'', bv_def = 5000000, bv_counts = ''do action steps'',
       bv_get = MaxDoSteps, bv_set = (\<lambda>n b. b\<lparr>MaxDoSteps := n\<rparr>), bv_ceiling = 0, bv_floor = 0\<rparr>,
      \<lparr>bv_env = ''OPENSYSML_MAX_ELEMENTS'', bv_def = 1000000, bv_counts = ''collection elements'',
       bv_get = MaxElements, bv_set = (\<lambda>n b. b\<lparr>MaxElements := n\<rparr>), bv_ceiling = 0, bv_floor = 0\<rparr>,
      \<lparr>bv_env = ''OPENSYSML_MAX_CALC_DEPTH'', bv_def = 10000, bv_counts = ''nested calc invocations'',
       bv_get = MaxCalcDepth, bv_set = (\<lambda>n b. b\<lparr>MaxCalcDepth := n\<rparr>), bv_ceiling = maxCalcDepthCeiling, bv_floor = 0\<rparr>,
      \<lparr>bv_env = ''OPENSYSML_MAX_SWEEP_RUNS'', bv_def = 1000, bv_counts = ''runs of one sweep'',
       bv_get = MaxSweepRuns, bv_set = (\<lambda>n b. b\<lparr>MaxSweepRuns := n\<rparr>), bv_ceiling = 0, bv_floor = 0\<rparr>,
      \<lparr>bv_env = ''OPENSYSML_MAX_INTEGER_BITS'', bv_def = 2 ^ 20, bv_counts = ''bits of one Integer'',
       bv_get = MaxIntegerBits, bv_set = (\<lambda>n b. b\<lparr>MaxIntegerBits := n\<rparr>), bv_ceiling = 0, bv_floor = MinMaxIntegerBits\<rparr>]"

text \<open>The errors name the variable and what is wrong with its value.\<close>

datatype budget_error =
  NotInteger string string
  | NotPositive string int
  | BelowFloor string int
  | AboveCeiling string int

fun error_env :: "budget_error \<Rightarrow> string" where
  "error_env (NotInteger env raw) = env"
| "error_env (NotPositive env n) = env"
| "error_env (BelowFloor env n) = env"
| "error_env (AboveCeiling env n) = env"

definition var_errors :: "budgetVar \<Rightarrow> int \<Rightarrow> budget_error list" where
  "var_errors v n =
     (if n \<le> 0 then [NotPositive (bv_env v) n]
      else
        (if n < bv_floor v then [BelowFloor (bv_env v) n] else []) @
        (if bv_ceiling v > 0 \<and> n > bv_ceiling v then [AboveCeiling (bv_env v) n] else []))"

definition Validate :: "Budgets \<Rightarrow> budget_error list" where
  "Validate b = concat (map (\<lambda>v. var_errors v (bv_get v b)) budgetVars)"

definition budgetFromValue :: "budgetVar \<Rightarrow> string \<Rightarrow> budget_error + int" where
  "budgetFromValue v raw =
     (let trimmed = TrimSpace raw
      in if trimmed = [] then Inr (bv_def v)
         else case ParseInt64 trimmed of
           None \<Rightarrow> Inl (NotInteger (bv_env v) raw)
         | Some n \<Rightarrow>
             if sint n \<le> 0 then Inl (NotPositive (bv_env v) (sint n))
             else if sint n < bv_floor v then Inl (BelowFloor (bv_env v) (sint n))
             else if bv_ceiling v > 0 \<and> sint n > bv_ceiling v then Inl (AboveCeiling (bv_env v) (sint n))
             else Inr (sint n))"

fun budgets_loop :: "(string \<Rightarrow> string) \<Rightarrow> budgetVar list \<Rightarrow> budget_error list \<Rightarrow> Budgets \<Rightarrow> budget_error list \<times> Budgets" where
  "budgets_loop lookup [] errs budgets = (errs, budgets)"
| "budgets_loop lookup (v # vs) errs budgets =
     (case budgetFromValue v (lookup (bv_env v)) of
        Inl err \<Rightarrow> budgets_loop lookup vs (errs @ [err]) budgets
      | Inr n \<Rightarrow> budgets_loop lookup vs errs (bv_set v n budgets))"

definition budgetsFromLookup :: "(string \<Rightarrow> string) \<Rightarrow> budget_error list + Budgets" where
  "budgetsFromLookup lookup =
     (let (errs, budgets) = budgets_loop lookup budgetVars [] DefaultBudgets
      in if errs \<noteq> [] then Inl errs else Inr budgets)"

text \<open>The context's eight bounds are the record; \<open>SetBudgets\<close> replaces them or leaves them.\<close>

definition SetBudgets :: "Budgets \<Rightarrow> Budgets \<Rightarrow> budget_error list + Budgets" where
  "SetBudgets b ctx =
     (let errs = Validate b
      in if errs \<noteq> [] then Inl errs
         else Inr (ctx\<lparr>MaxSteps := MaxSteps b, MaxActionSteps := MaxActionSteps b, MaxStateEvents := MaxStateEvents b,
           MaxDoSteps := MaxDoSteps b, MaxElements := MaxElements b, MaxCalcDepth := MaxCalcDepth b,
           MaxSweepRuns := MaxSweepRuns b, MaxIntegerBits := MaxIntegerBits b\<rparr>))"

section \<open>What the bounds are\<close>

lemma budgets_loop_errs:
  "fst (budgets_loop lookup vs errs b) =
     errs @ concat (map (\<lambda>v. case budgetFromValue v (lookup (bv_env v)) of Inl e \<Rightarrow> [e] | Inr _ \<Rightarrow> []) vs)"
  by (induction vs arbitrary: errs b) (auto split: sum.split)

lemma budgets_loop_values:
  assumes "\<forall>v \<in> set vs. budgetFromValue v (lookup (bv_env v)) = Inr (f v)"
  shows "budgets_loop lookup vs errs b = (errs, fold (\<lambda>v b. bv_set v (f v) b) vs b)"
  using assms by (induction vs arbitrary: b) auto

definition bound_ok :: "budgetVar \<Rightarrow> int \<Rightarrow> bool" where
  "bound_ok v n = (0 < n \<and> bv_floor v \<le> n \<and> (bv_ceiling v > 0 \<longrightarrow> n \<le> bv_ceiling v))"

lemma var_errors_iff: "var_errors v n = [] \<longleftrightarrow> bound_ok v n"
  by (auto simp: var_errors_def bound_ok_def)

lemma Validate_iff: "Validate b = [] \<longleftrightarrow> (\<forall>v \<in> set budgetVars. bound_ok v (bv_get v b))"
  by (simp add: Validate_def var_errors_iff)

lemma defaults_ok: "v \<in> set budgetVars \<Longrightarrow> bound_ok v (bv_def v)"
  by (auto simp: budgetVars_def bound_ok_def MinMaxIntegerBits_def maxCalcDepthCeiling_def)

lemma budgetFromValue_ok: "v \<in> set budgetVars \<Longrightarrow> budgetFromValue v raw = Inr n \<Longrightarrow> bound_ok v n"
  using defaults_ok [of v] by (auto simp: budgetFromValue_def Let_def bound_ok_def split: if_splits option.splits)

lemma fields: "bv_get v (fold (\<lambda>v b. bv_set v (f v) b) budgetVars b) = f v" if "v \<in> set budgetVars"
  using that by (auto simp: budgetVars_def)

lemma budgetsFromLookup_Inr:
  assumes "budgetsFromLookup lookup = Inr b" "v \<in> set budgetVars"
  shows "budgetFromValue v (lookup (bv_env v)) = Inr (bv_get v b)"
proof -
  have "fst (budgets_loop lookup budgetVars [] DefaultBudgets) = []" "b = snd (budgets_loop lookup budgetVars [] DefaultBudgets)"
    using assms(1) by (auto simp: budgetsFromLookup_def split: prod.splits if_splits)
  then have all: "\<forall>v \<in> set budgetVars. \<exists>n. budgetFromValue v (lookup (bv_env v)) = Inr n"
    unfolding budgets_loop_errs by (auto split: sum.splits) (metis sum.exhaust)
  then obtain f where f: "\<forall>v \<in> set budgetVars. budgetFromValue v (lookup (bv_env v)) = Inr (f v)" by metis
  have "b = fold (\<lambda>v b. bv_set v (f v) b) budgetVars DefaultBudgets"
    using \<open>b = _\<close> budgets_loop_values [OF f] by simp
  then show ?thesis using f assms(2) fields [OF assms(2)] by simp
qed

section \<open>The properties\<close>

text \<open>C39: the bounds the environment asks for are usable or refused. Bounds that are read satisfy
\<open>Validate\<close>, each being the positive number its variable holds or its default where the variable is
unset or blank; otherwise the errors are those of every variable with an unusable value, in the
order of the table. What a context accepts is exactly what \<open>Validate\<close> has no complaint of, and it
then runs under those bounds.\<close>

theorem budgets_valid:
  "(case budgetsFromLookup lookup of
      Inr b \<Rightarrow>
        Validate b = [] \<and> SetBudgets b ctx = Inr b \<and>
        (\<forall>v \<in> set budgetVars.
           if TrimSpace (lookup (bv_env v)) = [] then bv_get v b = bv_def v
           else map_option sint (ParseInt64 (TrimSpace (lookup (bv_env v)))) = Some (bv_get v b))
    | Inl errs \<Rightarrow>
        errs \<noteq> [] \<and>
        map error_env errs = map bv_env (filter (\<lambda>v. isl (budgetFromValue v (lookup (bv_env v)))) budgetVars)) \<and>
   (SetBudgets c ctx = (if Validate c = [] then Inr c else Inl (Validate c))) \<and>
   (Validate c = [] \<longleftrightarrow>
     (\<forall>v \<in> set budgetVars. 0 < bv_get v c \<and> bv_floor v \<le> bv_get v c \<and> (bv_ceiling v > 0 \<longrightarrow> bv_get v c \<le> bv_ceiling v)))"
proof -
  have set: "SetBudgets c ctx = (if Validate c = [] then Inr c else Inl (Validate c))" for c
    by (cases c) (simp add: SetBudgets_def Let_def)
  have e: "error_env e = bv_env v" if "budgetFromValue v raw = Inl e" for v raw e
    using that by (auto simp: budgetFromValue_def Let_def split: if_splits option.splits)
  have errs: "map error_env errs = map bv_env (filter (\<lambda>v. isl (budgetFromValue v (lookup (bv_env v)))) budgetVars) \<and> errs \<noteq> []"
    if "budgetsFromLookup lookup = Inl errs" for errs
  proof -
    have "errs = fst (budgets_loop lookup budgetVars [] DefaultBudgets)" "errs \<noteq> []"
      using that by (auto simp: budgetsFromLookup_def split: prod.splits if_splits)
    moreover have "map error_env (concat (map (\<lambda>v. case budgetFromValue v (lookup (bv_env v)) of Inl e \<Rightarrow> [e] | Inr _ \<Rightarrow> []) vs)) =
        map bv_env (filter (\<lambda>v. isl (budgetFromValue v (lookup (bv_env v)))) vs)" for vs
      by (induction vs) (auto split: sum.split dest: e)
    ultimately show ?thesis unfolding budgets_loop_errs by simp
  qed
  have vals: "Validate b = [] \<and> (\<forall>v \<in> set budgetVars.
      if TrimSpace (lookup (bv_env v)) = [] then bv_get v b = bv_def v
      else map_option sint (ParseInt64 (TrimSpace (lookup (bv_env v)))) = Some (bv_get v b))"
    if "budgetsFromLookup lookup = Inr b" for b
  proof -
    note f = budgetsFromLookup_Inr [OF that]
    have "bound_ok v (bv_get v b)" if "v \<in> set budgetVars" for v
      using f [OF that] budgetFromValue_ok [OF that] by blast
    moreover have "if TrimSpace (lookup (bv_env v)) = [] then bv_get v b = bv_def v
      else map_option sint (ParseInt64 (TrimSpace (lookup (bv_env v)))) = Some (bv_get v b)" if "v \<in> set budgetVars" for v
      using f [OF that] by (auto simp: budgetFromValue_def Let_def split: if_splits option.splits)
    ultimately show ?thesis by (simp add: Validate_iff)
  qed
  show ?thesis using set errs vals Validate_iff [of c] by (auto simp: bound_ok_def split: sum.split)
qed

theorem budgets_valid_witness:
  "budgetsFromLookup (\<lambda>env. []) = Inr DefaultBudgets \<and> Validate DefaultBudgets = []"
proof -
  have t: "TrimSpace [] = []" by (rule TrimSpace_plain) simp
  have "budgetsFromLookup (\<lambda>env. []) = Inr DefaultBudgets"
    by (simp add: budgetsFromLookup_def budgetVars_def budgetFromValue_def t DefaultBudgets_def)
  then show ?thesis using budgets_valid [of "\<lambda>env. []"] by simp
qed

end
