(* ===== verification/Versions.thy ===== *)
theory Versions
  imports Exact_Integers Go_Space Three_Way "HOL-Library.Product_Lexorder"
begin

text \<open>
  Versions of projects and the ranges of versions a dependency asks for
  (\<open>internal/workspace/project/constraint.go\<close> and the version order of \<open>interchange.go\<close>): reading an
  npm-style range into comparators, the order of semantic versioning on any two strings, and which
  versions a range admits. A part of a version is an \<open>int\<close> of 64 bits whose successor wraps.
\<close>

section \<open>Splitting and ordering versions\<close>

definition splitVersion :: "string \<Rightarrow> string list \<times> string list" where
  "splitVersion v =
     (let v = trim_prefix (TrimSpace v) ''v'';
          v = takeWhile (\<lambda>c. c \<noteq> CHR ''+'') v;
          (v, rest) =
            (if CHR ''-'' \<in> set v
             then (takeWhile (\<lambda>c. c \<noteq> CHR ''-'') v, tl (dropWhile (\<lambda>c. c \<noteq> CHR ''-'') v))
             else (v, []))
      in (split_on ''.'' v, if rest \<noteq> [] then split_on ''.'' rest else []))"

definition isDigits :: "string \<Rightarrow> bool" where
  "isDigits s = (s \<noteq> [] \<and> list_all is_digit s)"

definition three_way_of :: "'a :: linorder \<Rightarrow> 'a \<Rightarrow> int" where
  "three_way_of a b = (if a < b then - 1 else if b < a then 1 else 0)"

definition compareNumbers :: "string \<Rightarrow> string \<Rightarrow> int" where
  "compareNumbers a b =
     (let a = trim_left a ''0''; b = trim_left b ''0''
      in if length a \<noteq> length b then (if length a < length b then - 1 else 1)
         else three_way_of a b)"

definition zeroIfEmpty :: "string \<Rightarrow> string" where
  "zeroIfEmpty s = (if s = [] then ''0'' else s)"

text \<open>One segment: the answer, or \<open>None\<close> where the loop goes on.\<close>

definition compare_written :: "string \<Rightarrow> string \<Rightarrow> int option" where
  "compare_written a b =
     (if isDigits a \<and> isDigits b then (let c = compareNumbers a b in if c \<noteq> 0 then Some c else None)
      else if isDigits a then Some (- 1)
      else if isDigits b then Some 1
      else Some (three_way_of a b))"

definition compare_segment :: "bool \<Rightarrow> string \<Rightarrow> string \<Rightarrow> int option" where
  "compare_segment core a b =
     (if a = b then None
      else if a = [] \<or> b = [] then
        if core then
          let a = zeroIfEmpty a; b = zeroIfEmpty b in if a = b then None else compare_written a b
        else if a = [] then Some (- 1) else Some 1
      else compare_written a b)"

function compareIdentifiers :: "string list \<Rightarrow> string list \<Rightarrow> bool \<Rightarrow> int" where
  "compareIdentifiers as bs core =
     (if as = [] \<and> bs = [] then 0
      else
        let a = (if as = [] then [] else hd as); b = (if bs = [] then [] else hd bs)
        in case compare_segment core a b of
             Some c \<Rightarrow> c
           | None \<Rightarrow> compareIdentifiers (tl as) (tl bs) core)"
  by pat_completeness auto
termination
  by (relation "measure (\<lambda>(as, bs, core). length as + length bs)") (auto simp: neq_Nil_conv)

declare compareIdentifiers.simps [simp del]

definition newerVersion :: "string \<Rightarrow> string \<Rightarrow> bool" where
  "newerVersion a b =
     (let (coreA, preA) = splitVersion a; (coreB, preB) = splitVersion b; c = compareIdentifiers coreA coreB True
      in if c \<noteq> 0 then c > 0
         else if preA = [] \<and> preB = [] then False
         else if preA = [] \<or> preB = [] then preA = []
         else compareIdentifiers preA preB False > 0)"

definition compareVersions :: "string \<Rightarrow> string \<Rightarrow> int" where
  "compareVersions a b = (if newerVersion a b then 1 else if newerVersion b a then - 1 else 0)"

section \<open>Reading a range\<close>

record comparator =
  c_op :: string
  c_version :: string

record versionRange =
  vr_text :: string
  vr_sets :: "comparator list list"

datatype constraint_error =
  MissingVersion | MalformedBuild string | NotSemantic string | PartAfterWildcard string
  | MalformedPreRelease string | AgainstWildcard string | EmptyAlternative

definition identifier_char :: "char \<Rightarrow> bool" where
  "identifier_char c =
     (is_digit c \<or> in_range (CHR ''a'') (CHR ''z'') c \<or> in_range (CHR ''A'') (CHR ''Z'') c \<or> c = CHR ''-'')"

text \<open>\<open>strings.Trim(id, cutset)\<close> leaves nothing just when every byte is of the cut set.\<close>

definition validIdentifiers :: "string \<Rightarrow> bool" where
  "validIdentifiers ids = list_all (\<lambda>id. id \<noteq> [] \<and> list_all identifier_char id) (split_on ''.'' ids)"

definition Atoi :: "string \<Rightarrow> int option" where
  "Atoi s = map_option sint (ParseInt64 s)"

record wildcardVersion =
  wv_version :: string
  wv_parts :: "int list"
  wv_wild :: nat
  wv_upper :: string

definition version_text :: "int \<Rightarrow> int \<Rightarrow> int \<Rightarrow> string" where
  "version_text a b c = int_text a @ ''.'' @ int_text b @ ''.'' @ int_text c"

text \<open>\<open>n + 1\<close> on an \<open>int\<close>.\<close>

definition succ64 :: "int \<Rightarrow> int" where
  "succ64 n = wrap64 (n + 1)"

definition wildcard_part :: "string \<Rightarrow> bool" where
  "wildcard_part s = (s = ''x'' \<or> s = ''X'' \<or> s = ''*'')"

text \<open>The loop over the three parts, from index \<open>i\<close> on.\<close>

function wildcard_parts :: "string \<Rightarrow> string list \<Rightarrow> nat \<Rightarrow> int list \<Rightarrow> nat \<Rightarrow> constraint_error + int list \<times> nat" where
  "wildcard_parts v core i parts wild =
     (if i \<ge> 3 then Inr (parts, wild)
      else if i \<ge> length core \<or> wildcard_part (core ! i) then
        wildcard_parts v core (i + 1) parts (if wild = 3 then i else wild)
      else if wild \<noteq> 3 then Inl (PartAfterWildcard v)
      else case Atoi (core ! i) of
        None \<Rightarrow> Inl (NotSemantic v)
      | Some n \<Rightarrow> if core ! i = [] then Inl (NotSemantic v) else wildcard_parts v core (i + 1) (parts[i := n]) wild)"
  by pat_completeness auto
termination
  by (relation "measure (\<lambda>(v, core, i, parts, wild). 3 - i)") auto

declare wildcard_parts.simps [simp del]

definition parseWildcardVersion :: "string \<Rightarrow> constraint_error + wildcardVersion" where
  "parseWildcardVersion s =
     (let v = trim_prefix (TrimSpace s) ''v''
      in if v = [] then Inl MissingVersion
         else
           let base = takeWhile (\<lambda>c. c \<noteq> CHR ''+'') v; build = tl (dropWhile (\<lambda>c. c \<noteq> CHR ''+'') v);
               hasBuild = CHR ''+'' \<in> set v
           in if hasBuild \<and> \<not> validIdentifiers build then Inl (MalformedBuild v)
              else
                let (core, pre) = splitVersion base
                in if length core > 3 \<or> contains_sub base ''-'' \<and> pre = [] then Inl (NotSemantic v)
                   else case wildcard_parts v core 0 [0, 0, 0] 3 of
                     Inl e \<Rightarrow> Inl e
                   | Inr (parts, wild) \<Rightarrow>
                       let version = version_text (parts ! 0) (parts ! 1) (parts ! 2);
                           version = (if wild = 3 \<and> pre \<noteq> [] then version @ ''-'' @ join ''.'' pre else version);
                           upper =
                             (if wild = 1 then version_text (succ64 (parts ! 0)) 0 0 @ ''-0''
                              else if wild = 2 then version_text (parts ! 0) (succ64 (parts ! 1)) 0 @ ''-0''
                              else [])
                       in if pre \<noteq> [] \<and> \<not> validIdentifiers (join ''.'' pre) then Inl (MalformedPreRelease v)
                          else Inr \<lparr>wv_version = version, wv_parts = parts, wv_wild = wild, wv_upper = upper\<rparr>)"

definition comparator_op :: "string \<Rightarrow> string" where
  "comparator_op field =
     (case find (has_prefix field) [''=='', ''>='', ''<='', ''='', ''^'', ''~'', ''>'', ''<''] of
        None \<Rightarrow> [] | Some op \<Rightarrow> op)"

abbreviation cmp_of :: "string \<Rightarrow> string \<Rightarrow> comparator" where
  "cmp_of op v \<equiv> \<lparr>c_op = op, c_version = v\<rparr>"

definition parseComparator :: "string \<Rightarrow> constraint_error + comparator list" where
  "parseComparator field =
     (let op = comparator_op field
      in case parseWildcardVersion (trim_prefix field op) of
           Inl e \<Rightarrow> Inl e
         | Inr w \<Rightarrow>
             if wv_wild w = 0 \<and> op \<in> {[], ''='', ''=='', ''^'', ''~''} then Inr []
             else
               let major = wv_parts w ! 0; minor = wv_parts w ! 1; patch = wv_parts w ! 2
               in if op \<in> {[], ''='', ''==''} then
                    (if wv_upper w \<noteq> [] then Inr [cmp_of ''>='' (wv_version w), cmp_of ''<'' (wv_upper w)]
                     else Inr [cmp_of ''='' (wv_version w)])
                  else if op = ''^'' then
                    let upper =
                          (if major > 0 \<or> wv_wild w = 1 then version_text (succ64 major) 0 0 @ ''-0''
                           else if minor > 0 \<or> wv_wild w = 2 then version_text 0 (succ64 minor) 0 @ ''-0''
                           else version_text 0 0 (succ64 patch) @ ''-0'')
                    in Inr [cmp_of ''>='' (wv_version w), cmp_of ''<'' upper]
                  else if op = ''~'' then
                    (if wv_wild w = 1 then Inr [cmp_of ''>='' (wv_version w), cmp_of ''<'' (version_text (succ64 major) 0 0 @ ''-0'')]
                     else Inr [cmp_of ''>='' (wv_version w), cmp_of ''<'' (version_text major (succ64 minor) 0 @ ''-0'')])
                  else if op = ''>'' then
                    (if wv_wild w = 0 then Inl (AgainstWildcard field)
                     else if wv_upper w \<noteq> [] then Inr [cmp_of ''>='' (wv_upper w)]
                     else Inr [cmp_of ''>'' (wv_version w)])
                  else if op = ''<='' then
                    (if wv_upper w \<noteq> [] then Inr [cmp_of ''<'' (wv_upper w)] else Inr [cmp_of ''<='' (wv_version w)])
                  else Inr [cmp_of op (wv_version w)])"

text \<open>\<open>strings.FieldsFunc\<close>.\<close>

function fields_of :: "(char \<Rightarrow> bool) \<Rightarrow> string \<Rightarrow> string list" where
  "fields_of sep s =
     (let s = dropWhile sep s
      in if s = [] then [] else takeWhile (\<lambda>c. \<not> sep c) s # fields_of sep (dropWhile (\<lambda>c. \<not> sep c) s))"
  by pat_completeness auto
termination
proof (relation "measure (\<lambda>(sep, s). length s)", simp)
  fix sep :: "char \<Rightarrow> bool" and s t
  assume t: "t = dropWhile sep s" "t \<noteq> []"
  then have "\<not> sep (hd t)" using hd_dropWhile [of sep s] by blast
  then have "length (dropWhile (\<lambda>c. \<not> sep c) t) < length t" using t(2) by (cases t) (auto simp: le_imp_less_Suc length_dropWhile_le)
  also have "\<dots> \<le> length s" unfolding t(1) by (rule length_dropWhile_le)
  finally show "((sep, dropWhile (\<lambda>c. \<not> sep c) t), sep, s) \<in> measure (\<lambda>(sep, s). length s)" by simp
qed

declare fields_of.simps [simp del]

definition field_sep :: "char \<Rightarrow> bool" where
  "field_sep c = (c = CHR '','' \<or> c = CHR '' '' \<or> c = CHR 0x09)"

fun comparator_fields :: "string list \<Rightarrow> constraint_error + comparator list" where
  "comparator_fields (low # dash # high # rest) =
     (if dash = ''-'' then
        case parseWildcardVersion low of
          Inl e \<Rightarrow> Inl e
        | Inr l \<Rightarrow>
            (case parseWildcardVersion high of
               Inl e \<Rightarrow> Inl e
             | Inr h \<Rightarrow>
                 (case comparator_fields rest of
                    Inl e \<Rightarrow> Inl e
                  | Inr cs \<Rightarrow>
                      Inr ([cmp_of ''>='' (wv_version l),
                            if wv_upper h \<noteq> [] then cmp_of ''<'' (wv_upper h) else cmp_of ''<='' (wv_version h)] @ cs)))
      else
        case parseComparator low of
          Inl e \<Rightarrow> Inl e
        | Inr c \<Rightarrow> (case comparator_fields (dash # high # rest) of Inl e \<Rightarrow> Inl e | Inr cs \<Rightarrow> Inr (c @ cs)))"
| "comparator_fields (f # rest) =
     (case parseComparator f of
        Inl e \<Rightarrow> Inl e
      | Inr c \<Rightarrow> (case comparator_fields rest of Inl e \<Rightarrow> Inl e | Inr cs \<Rightarrow> Inr (c @ cs)))"
| "comparator_fields [] = Inr []"

definition parseComparatorSet :: "string \<Rightarrow> constraint_error + comparator list" where
  "parseComparatorSet alternative =
     (let rest = fields_of field_sep alternative
      in case comparator_fields rest of
           Inl e \<Rightarrow> Inl e
         | Inr out \<Rightarrow> if rest = [] then Inl EmptyAlternative else Inr out)"

fun comparator_sets :: "string list \<Rightarrow> constraint_error + comparator list list" where
  "comparator_sets [] = Inr []"
| "comparator_sets (alternative # sets) =
     (case parseComparatorSet alternative of
        Inl e \<Rightarrow> Inl e
      | Inr cs \<Rightarrow> (case comparator_sets sets of Inl e \<Rightarrow> Inl e | Inr css \<Rightarrow> Inr (cs # css)))"

definition parseVersionRange :: "string \<Rightarrow> constraint_error + versionRange" where
  "parseVersionRange s =
     (let t = TrimSpace s
      in if t = [] then Inr \<lparr>vr_text = t, vr_sets = []\<rparr>
         else case comparator_sets (split_on ''||'' t) of
           Inl e \<Rightarrow> Inl e
         | Inr sets \<Rightarrow> Inr \<lparr>vr_text = t, vr_sets = sets\<rparr>)"

section \<open>Which versions a range admits\<close>

definition admitsPreRelease :: "comparator list \<Rightarrow> string list \<Rightarrow> bool" where
  "admitsPreRelease cs core =
     list_ex (\<lambda>c. let (cc, cpre) = splitVersion (c_version c) in cpre \<noteq> [] \<and> join ''.'' cc = join ''.'' core) cs"

definition comparator_holds :: "string \<Rightarrow> comparator \<Rightarrow> bool" where
  "comparator_holds v c =
     (let cmp = compareVersions v (c_version c)
      in if c_op c = ''='' then cmp = 0
         else if c_op c = ''<'' then cmp < 0
         else if c_op c = ''<='' then cmp \<le> 0
         else if c_op c = ''>'' then cmp > 0
         else if c_op c = ''>='' then cmp \<ge> 0
         else True)"

definition range_any :: "versionRange \<Rightarrow> bool" where
  "range_any r = (vr_sets r = [])"

definition range_matches :: "versionRange \<Rightarrow> string \<Rightarrow> bool" where
  "range_matches r version =
     (if range_any r then True
      else
        let v = trim_prefix (TrimSpace version) ''v''; (core, pre) = splitVersion v
        in list_ex (\<lambda>cs. \<not> (pre \<noteq> [] \<and> \<not> admitsPreRelease cs core) \<and> list_all (comparator_holds v) cs) (vr_sets r))"

end
