(* ===== verification/Version_Order.thy ===== *)
theory Version_Order
  imports Versions
begin

text \<open>
  The order of versions. Every string has a key (\<open>version_key\<close>): the keys of its core's segments, with
  what counts as zero left off the end, then whether it is a release, then the keys of its
  pre-release segments. \<open>compareVersions\<close> is the comparison of keys, so any two strings compare and
  the comparison is an instance of \<open>three_way\<close>. A segment's key: the empty one of a pre-release,
  then numbers by value, then texts.
\<close>

type_synonym segment_key = "nat \<times> nat \<times> string"

definition segment_key :: "bool \<Rightarrow> string \<Rightarrow> segment_key" where
  "segment_key core s =
     (if s = [] then (if core then (1, 0, []) else (0, 0, []))
      else if isDigits s then (1, digits_value s, []) else (2, 0, s))"

definition least_key :: "bool \<Rightarrow> segment_key" where
  "least_key core = segment_key core []"

definition segments_key :: "bool \<Rightarrow> string list \<Rightarrow> segment_key list" where
  "segments_key core ss = rev (dropWhile (\<lambda>k. k = least_key core) (rev (map (segment_key core) ss)))"

definition version_key :: "string \<Rightarrow> segment_key list \<times> nat \<times> segment_key list" where
  "version_key v =
     (let (core, pre) = splitVersion v
      in (segments_key True core, if pre = [] then 1 else 0, segments_key False pre))"

section \<open>Numbers and texts of one segment\<close>

lemma digit_value_less_iff: "is_digit a \<Longrightarrow> is_digit b \<Longrightarrow> digit_value a < digit_value b \<longleftrightarrow> a < b"
  unfolding is_digit_def in_range_def less_eq_char_def less_char_def digit_value_def by auto

lemma digit_value_eq_iff: "is_digit a \<Longrightarrow> is_digit b \<Longrightarrow> digit_value a = digit_value b \<longleftrightarrow> a = b"
  using digit_value_less_iff [of a b] digit_value_less_iff [of b a] by (metis less_irrefl neqE)

lemma digits_value_Cons: "digits_value (c # s) = digit_value c * 10 ^ length s + digits_value s"
proof (induction s rule: rev_induct)
  case (snoc d s)
  have "digits_value (c # s @ [d]) = digits_value (c # s) * 10 + digit_value d" using digits_value_snoc [of "c # s" d] by simp
  then show ?case using snoc by (simp add: digits_value_snoc algebra_simps)
qed (simp add: digits_value_def)

lemma digits_value_bound: "list_all is_digit s \<Longrightarrow> digits_value s < 10 ^ length s"
proof (induction s)
  case (Cons c s)
  have "digit_value c \<le> 9" using Cons.prems by (auto simp: is_digit_def in_range_def less_eq_char_def digit_value_def)
  then have "digit_value c * 10 ^ length s \<le> 9 * 10 ^ length s" by (rule mult_right_mono) simp
  moreover have "digits_value s < 10 ^ length s" using Cons by simp
  ultimately have "digit_value c * 10 ^ length s + digits_value s < 9 * 10 ^ length s + 10 ^ length s" by (rule add_le_less_mono)
  then show ?case by (simp add: digits_value_Cons)
qed (simp add: digits_value_def)

lemma digits_less_same_length:
  "list_all is_digit a \<Longrightarrow> list_all is_digit b \<Longrightarrow> length a = length b \<Longrightarrow> a < b \<longleftrightarrow> digits_value a < digits_value b"
proof (induction a arbitrary: b)
  case (Cons c a)
  then obtain d b' where b: "b = d # b'" by (cases b) auto
  have l: "length a = length b'" and da: "list_all is_digit a" "list_all is_digit b'" "is_digit c" "is_digit d"
    using Cons.prems by (simp_all add: b)
  note bound = digits_value_bound [OF da(1)] digits_value_bound [OF da(2)]
  consider "c < d" | "c = d" | "d < c" by (rule linorder_cases)
  then show ?case
  proof cases
    case 1
    then have "digit_value c + 1 \<le> digit_value d" using digit_value_less_iff [OF da(3,4)] by simp
    then have "(digit_value c + 1) * 10 ^ length a \<le> digit_value d * 10 ^ length a" by (rule mult_right_mono) simp
    then show ?thesis using 1 bound by (simp add: b digits_value_Cons flip: l)
  next
    case 2
    then show ?thesis using Cons.IH [OF da(1,2) l] l by (simp add: b digits_value_Cons)
  next
    case 3
    then have "digit_value d + 1 \<le> digit_value c" using digit_value_less_iff [OF da(4,3)] by simp
    then have "(digit_value d + 1) * 10 ^ length a \<le> digit_value c * 10 ^ length a" by (rule mult_right_mono) simp
    then show ?thesis using 3 bound by (auto simp: b digits_value_Cons simp flip: l)
  qed
qed simp

lemma trim_zeros:
  assumes "list_all is_digit s"
  shows "list_all is_digit (trim_left s ''0'')" "digits_value (trim_left s ''0'') = digits_value s"
    "trim_left s ''0'' \<noteq> [] \<Longrightarrow> 10 ^ (length (trim_left s ''0'') - 1) \<le> digits_value s"
proof -
  have e: "trim_left s ''0'' = dropWhile (\<lambda>c. c = CHR ''0'') s" by (simp add: trim_left_def)
  show d: "list_all is_digit (trim_left s ''0'')" unfolding e using assms by (auto simp: list_all_iff dest: set_dropWhileD)
  show v: "digits_value (trim_left s ''0'') = digits_value s"
    unfolding e by (induction s) (auto simp: digits_value_Cons digit_value_def)
  assume "trim_left s ''0'' \<noteq> []"
  then obtain c r where c: "trim_left s ''0'' = c # r" by (meson neq_Nil_conv)
  then have "c \<noteq> CHR ''0''" using hd_dropWhile [of "\<lambda>c. c = CHR ''0''" s] unfolding e by simp
  then have "1 \<le> digit_value c"
    using d digit_value_eq_iff [of c "CHR ''0''"] unfolding c
    by (cases "digit_value c") (auto simp: is_digit_def in_range_def less_eq_char_def digit_value_def)
  then have "1 * 10 ^ length r \<le> digit_value c * 10 ^ length r" by (rule mult_right_mono) simp
  also have "\<dots> \<le> digits_value (c # r)" by (simp add: digits_value_Cons)
  also have "\<dots> = digits_value s" using v by (simp add: c)
  finally show "10 ^ (length (trim_left s ''0'') - 1) \<le> digits_value s" by (simp add: c)
qed

lemma compareNumbers_eq:
  assumes "list_all is_digit a" "list_all is_digit b"
  shows "compareNumbers a b = three_way_of (digits_value a) (digits_value b)"
proof -
  define x y where "x = trim_left a ''0''" and "y = trim_left b ''0''"
  note X = trim_zeros [OF assms(1), folded x_def] and Y = trim_zeros [OF assms(2), folded y_def]
  have shorter: "digits_value s < digits_value t"
    if "length p < length q" "list_all is_digit p" "digits_value p = digits_value s" "q \<noteq> [] \<Longrightarrow> 10 ^ (length q - 1) \<le> digits_value t"
    for p q s t
  proof -
    have "digits_value s < 10 ^ length p" using digits_value_bound [OF that(2)] that(3) by simp
    also have "(10 :: nat) ^ length p \<le> 10 ^ (length q - 1)" by (rule power_increasing) (use that(1) in auto)
    finally show ?thesis using that(1,4) by (cases q) auto
  qed
  consider "length x < length y" | "length y < length x" | "length x = length y" by linarith
  then show ?thesis
  proof cases
    case 1
    then show ?thesis using shorter [OF 1 X(1,2) Y(3)] by (simp add: compareNumbers_def three_way_of_def flip: x_def y_def)
  next
    case 2
    then show ?thesis using shorter [OF 2 Y(1,2) X(3)] by (simp add: compareNumbers_def three_way_of_def flip: x_def y_def)
  next
    case 3
    then show ?thesis
      using digits_less_same_length [OF X(1) Y(1) 3] digits_less_same_length [OF Y(1) X(1) 3 [symmetric]]
      by (simp add: compareNumbers_def three_way_of_def X(2) Y(2) flip: x_def y_def)
  qed
qed

lemma least_key_le: "least_key core \<le> segment_key core s"
  by (auto simp: least_key_def segment_key_def less_eq_prod_def)

definition unless_equal :: "int \<Rightarrow> int option" where
  "unless_equal c = (if c = 0 then None else Some c)"

lemma three_way_of_0 [simp]: "three_way_of a b = 0 \<longleftrightarrow> a = b"
  by (auto simp: three_way_of_def)

lemma three_way_of_self [simp]: "three_way_of a a = 0"
  by simp

lemma compare_written_eq:
  assumes "a \<noteq> []" "b \<noteq> []" "a \<noteq> b"
  shows "compare_written a b = unless_equal (three_way_of (segment_key core a) (segment_key core b))"
proof -
  have n: "compareNumbers a b = three_way_of (digits_value a) (digits_value b)" if "isDigits a" "isDigits b"
    using compareNumbers_eq that by (simp add: isDigits_def)
  have "three_way_of (1 :: nat, x, [] :: string) (1, y, []) = three_way_of x y" for x y :: nat
    by (simp add: three_way_of_def)
  moreover have "three_way_of (2 :: nat, 0 :: nat, a) (2, 0, b) = three_way_of a b" by (simp add: three_way_of_def)
  moreover have "three_way_of (1 :: nat, x, [] :: string) (2, 0, b) = - 1" "three_way_of (2 :: nat, 0, a) (1, x, []) = 1" for x :: nat
    by (simp_all add: three_way_of_def)
  ultimately show ?thesis
    using assms n by (auto simp: compare_written_def segment_key_def unless_equal_def Let_def)
qed

section \<open>Lists of segments\<close>

lemma zero_segment: "zeroIfEmpty s \<noteq> []" "segment_key True (zeroIfEmpty s) = segment_key True s"
  by (simp_all add: zeroIfEmpty_def segment_key_def isDigits_def is_digit_def in_range_def less_eq_char_def digits_value_def digit_value_def)

lemma compare_segment_eq:
  "compare_segment core a b = unless_equal (three_way_of (segment_key core a) (segment_key core b))"
proof (cases "a = b")
  case ne: False
  show ?thesis
  proof (cases "a = [] \<or> b = []")
    case False
    then show ?thesis using ne compare_written_eq [of a b core] by (simp add: compare_segment_def)
  next
    case e: True
    show ?thesis
    proof (cases core)
      case True
      have "compare_segment core a b = unless_equal (three_way_of (segment_key True (zeroIfEmpty a)) (segment_key True (zeroIfEmpty b)))"
        using e ne True compare_written_eq [OF zero_segment(1) [of a] zero_segment(1) [of b], of True]
        by (cases "zeroIfEmpty a = zeroIfEmpty b") (simp_all add: compare_segment_def Let_def unless_equal_def)
      then show ?thesis by (simp only: zero_segment(2) True)
    next
      case False
      then show ?thesis using e ne by (auto simp: compare_segment_def unless_equal_def three_way_of_def segment_key_def)
    qed
  qed
qed (simp add: compare_segment_def unless_equal_def)

text \<open>Adding a segment in front of a key.\<close>

definition push_key :: "'k \<Rightarrow> 'k \<Rightarrow> 'k list \<Rightarrow> 'k list" where
  "push_key least x xs = (if xs = [] \<and> x = least then [] else x # xs)"

definition head_segment :: "string list \<Rightarrow> string" where
  "head_segment ss = (if ss = [] then [] else hd ss)"

lemma strip_Cons: "rev (dropWhile (\<lambda>k. k = l) (rev (x # xs))) = push_key l x (rev (dropWhile (\<lambda>k. k = l) (rev xs)))"
  by (auto simp: push_key_def dropWhile_append dropWhile_eq_Nil_conv)

lemma segments_key_step:
  "segments_key core ss = push_key (least_key core) (segment_key core (head_segment ss)) (segments_key core (tl ss))"
proof (cases ss)
  case Nil
  then show ?thesis by (simp add: segments_key_def push_key_def head_segment_def least_key_def)
next
  case (Cons s rest)
  then show ?thesis using strip_Cons by (simp add: segments_key_def head_segment_def del: rev.simps(2))
qed

lemma push_key_same:
  fixes xs ys :: "'k :: linorder list"
  shows "three_way_of (push_key l x xs) (push_key l x ys) = three_way_of xs ys"
  by (auto simp: push_key_def three_way_of_def neq_Nil_conv)

lemma push_key_diff:
  fixes xs ys :: "'k :: linorder list"
  assumes "l \<le> x" "l \<le> y" "x \<noteq> y"
  shows "three_way_of (push_key l x xs) (push_key l y ys) = three_way_of x y"
  using assms by (auto simp: push_key_def three_way_of_def)

theorem compareIdentifiers_eq:
  "compareIdentifiers as bs core = three_way_of (segments_key core as) (segments_key core bs)"
proof (induction as bs core rule: compareIdentifiers.induct)
  case (1 as bs core)
  show ?case
  proof (cases "as = [] \<and> bs = []")
    case False
    let ?x = "segment_key core (head_segment as)" and ?y = "segment_key core (head_segment bs)"
    have s: "compare_segment core (head_segment as) (head_segment bs) = unless_equal (three_way_of ?x ?y)"
      by (rule compare_segment_eq)
    have eq: "compareIdentifiers as bs core =
        (case compare_segment core (head_segment as) (head_segment bs) of
           Some c \<Rightarrow> c | None \<Rightarrow> compareIdentifiers (tl as) (tl bs) core)"
      using False by (subst compareIdentifiers.simps) (auto simp: head_segment_def Let_def)
    have k: "three_way_of (segments_key core as) (segments_key core bs) =
        three_way_of (push_key (least_key core) ?x (segments_key core (tl as))) (push_key (least_key core) ?y (segments_key core (tl bs)))"
      by (subst segments_key_step [of core as], subst segments_key_step [of core bs]) (rule refl)
    show ?thesis
    proof (cases "?x = ?y")
      case True
      then have "compare_segment core (head_segment as) (head_segment bs) = None" using s by (simp add: unless_equal_def)
      then show ?thesis
        using 1 [OF False refl refl] eq k True by (simp add: push_key_same head_segment_def)
    next
      case False
      then show ?thesis using eq k s push_key_diff [OF least_key_le least_key_le False] by (simp add: unless_equal_def)
    qed
  qed (simp add: compareIdentifiers.simps three_way_of_def)
qed

section \<open>Versions\<close>

lemma newerVersion_eq: "newerVersion a b \<longleftrightarrow> version_key b < version_key a"
proof -
  obtain ca pa where a: "splitVersion a = (ca, pa)" by force
  obtain cb pb where b: "splitVersion b = (cb, pb)" by force
  have pos: "three_way_of x y > 0 \<longleftrightarrow> y < x" for x y :: "segment_key list" by (auto simp: three_way_of_def)
  have nil: "segments_key False [] = []" by (simp add: segments_key_def)
  show ?thesis
    by (auto simp: newerVersion_def version_key_def a b compareIdentifiers_eq pos nil Let_def)
qed

lemma compareVersions_eq: "compareVersions a b = three_way_of (version_key a) (version_key b)"
  by (auto simp: compareVersions_def newerVersion_eq three_way_of_def)

end
