(* ===== verification/Version_Ranges.thy ===== *)
theory Version_Ranges
  imports Version_Order
begin

text \<open>
  What the forms of a range mean. A release \<open>a.b.c\<close> is a triple of numbers ordered
  lexicographically (\<open>release_order\<close>); \<open>range_meaning\<close> says which triples an operator before a triple
  admits, and the reader and the matcher of ranges are shown to agree with it.
\<close>

type_synonym triple = "nat \<times> nat \<times> nat"

definition release_text :: "triple \<Rightarrow> string" where
  "release_text v = join ''.'' [nat_text (fst v), nat_text (fst (snd v)), nat_text (snd (snd v))]"

text \<open>The first triple past what \<open>^\<close> and \<open>~\<close> admit.\<close>

definition caret_bound :: "triple \<Rightarrow> triple" where
  "caret_bound v =
     (case v of (major, minor, patch) \<Rightarrow>
        if major > 0 then (major + 1, 0, 0) else if minor > 0 then (0, minor + 1, 0) else (0, 0, patch + 1))"

definition tilde_bound :: "triple \<Rightarrow> triple" where
  "tilde_bound v = (case v of (major, minor, patch) \<Rightarrow> (major, minor + 1, 0))"

definition range_meaning :: "string \<Rightarrow> triple \<Rightarrow> triple \<Rightarrow> bool" where
  "range_meaning op bound v =
     (if op = ''^'' then bound \<le> v \<and> v < caret_bound bound
      else if op = ''~'' then bound \<le> v \<and> v < tilde_bound bound
      else if op = ''>'' then bound < v
      else if op = ''>='' then bound \<le> v
      else if op = ''<'' then v < bound
      else if op = ''<='' then v \<le> bound
      else v = bound)"

definition range_operators :: "string list" where
  "range_operators = ['''', ''='', ''=='', ''>='', ''<='', ''^'', ''~'', ''>'', ''<'']"

section \<open>The text of a release\<close>

definition release_char :: "char \<Rightarrow> bool" where
  "release_char c = (is_digit c \<or> c = CHR ''.'')"

lemma no_release_char [simp]:
  "\<not> release_char (CHR ''-'')" "\<not> release_char (CHR ''+'')" "\<not> release_char (CHR ''v'')" "\<not> release_char (CHR ''|'')"
  "\<not> release_char (CHR '','')" "\<not> release_char (CHR '' '')" "\<not> release_char (CHR 0x09)" "\<not> release_char (CHR ''='')"
  "\<not> release_char (CHR ''<'')" "\<not> release_char (CHR ''>'')" "\<not> release_char (CHR ''^'')" "\<not> release_char (CHR ''~'')"
  by (simp_all add: release_char_def is_digit_def in_range_def less_eq_char_def)

lemma not_digits [simp]: "\<not> is_digit (CHR ''.'')" "\<not> is_digit (CHR ''x'')" "\<not> is_digit (CHR ''X'')" "\<not> is_digit (CHR ''*'')"
  by (simp_all add: is_digit_def in_range_def less_eq_char_def)

lemma release_char_plain: "release_char c \<Longrightarrow> plain c"
  by (auto simp: release_char_def plain_def is_digit_def in_range_def less_eq_char_def less_char_def)

lemma nat_text_release: "list_all release_char (nat_text n)"
  using nat_text_digits [of n] by (auto simp: list_all_iff release_char_def)

lemma release_text_chars: "list_all release_char (release_text v)"
  using nat_text_release by (simp add: release_text_def release_char_def)

lemma release_text_no: "\<not> release_char c \<Longrightarrow> c \<notin> set (release_text v)"
  using release_text_chars [of v] by (auto simp: list_all_iff)

lemma release_text_not_Nil [simp]: "release_text v \<noteq> []"
  by (simp add: release_text_def)

lemma release_text_hd: "release_char (hd (release_text v))"
  using release_text_chars [of v] by (cases "release_text v") simp_all

lemma release_text_last: "release_char (last (release_text v))"
  using release_text_chars [of v] last_in_set [OF release_text_not_Nil, of v] by (simp add: list_all_iff)

lemma release_trim: "TrimSpace (release_text v @ s) = release_text v @ s" if "s = [] \<or> plain (last s)"
  using that release_char_plain [OF release_text_hd [of v]] release_char_plain [OF release_text_last [of v]]
  by (cases "s = []") (auto intro!: TrimSpace_plain)

lemma release_no_v: "trim_prefix (release_text v @ s) ''v'' = release_text v @ s"
  using release_text_hd [of v] by (cases "release_text v") (auto simp: trim_prefix_def)

lemma split_release: "split_on ''.'' (release_text v) = [nat_text (fst v), nat_text (fst (snd v)), nat_text (snd (snd v))]"
  unfolding release_text_def by (rule split_on_join_single) (simp_all add: nat_text_no)

lemma takeWhile_release: "\<not> release_char c \<Longrightarrow> takeWhile (\<lambda>x. x \<noteq> c) (release_text v @ s) = release_text v @ takeWhile (\<lambda>x. x \<noteq> c) s"
  using release_text_no [of c v] by (subst takeWhile_append2) auto

lemma dropWhile_release: "\<not> release_char c \<Longrightarrow> dropWhile (\<lambda>x. x \<noteq> c) (release_text v @ s) = dropWhile (\<lambda>x. x \<noteq> c) s"
  using release_text_no [of c v] by (subst dropWhile_append2) auto

lemma splitVersion_release: "splitVersion (release_text v) = (split_on ''.'' (release_text v), [])"
  using release_trim [of "[]" v] release_no_v [of v "[]"] takeWhile_release [of "CHR ''+''" v "[]"] release_text_no [of "CHR ''-''" v]
  by (simp add: splitVersion_def Let_def del: takeWhile_eq_all_conv)

lemma splitVersion_release_0: "splitVersion (release_text v @ ''-0'') = (split_on ''.'' (release_text v), [''0''])"
proof -
  have "plain (CHR ''0'')" "split_on ''.'' ''0'' = [''0'']"
    by (simp_all add: plain_def less_char_def split_on_single_absent)
  then show ?thesis
    using release_trim [of "''-0''" v] release_no_v [of v "''-0''"] takeWhile_release [of "CHR ''+''" v "''-0''"]
      takeWhile_release [of "CHR ''-''" v "''-0''"] dropWhile_release [of "CHR ''-''" v "''-0''"]
    by (simp add: splitVersion_def Let_def)
qed

section \<open>The order of releases\<close>

lemma segment_key_nat_text: "segment_key core (nat_text n) = (1, n, [])"
  using nat_text_digits [of n] by (simp add: segment_key_def isDigits_def digits_value_nat_text)

lemma segments_key_Cons: "segments_key core (s # ss) = push_key (least_key core) (segment_key core s) (segments_key core ss)"
  using segments_key_step [of core "s # ss"] by (simp add: head_segment_def)

lemma three_way_of_prod: "three_way_of (a, x) (b, y) = (if a = b then three_way_of x y else three_way_of a b)"
  by (auto simp: three_way_of_def)

lemma push_three_way:
  fixes xs ys :: "'k :: linorder list"
  assumes "l \<le> x" "l \<le> y"
  shows "three_way_of (push_key l x xs) (push_key l y ys) = (if x = y then three_way_of xs ys else three_way_of x y)"
  using push_key_same [of l x xs ys] push_key_diff [OF assms, of xs ys] by auto

lemma core_order:
  "three_way_of (segments_key True (split_on ''.'' (release_text v))) (segments_key True (split_on ''.'' (release_text w))) = three_way_of v w"
proof -
  have l: "least_key True \<le> (1, n, [])" for n using least_key_le [of True "nat_text n"] by (simp add: segment_key_nat_text)
  have e: "three_way_of (1 :: nat, m, [] :: string) (1, n, []) = three_way_of m n" for m n :: nat by (simp add: three_way_of_def)
  have p: "three_way_of (push_key (least_key True) (1, m, []) xs) (push_key (least_key True) (1, n, []) ys) =
      (if m = n then three_way_of xs ys else three_way_of m n)" for m n xs ys
    using push_three_way [OF l l] e by simp
  obtain a b c where v: "v = (a, b, c)" by (cases v)
  obtain a' b' c' where w: "w = (a', b', c')" by (cases w)
  show ?thesis
    unfolding v w split_release segments_key_Cons segment_key_nat_text fst_conv snd_conv p three_way_of_prod
    by simp
qed

lemma release_order: "compareVersions (release_text v) (release_text w) = three_way_of v w"
  using core_order [of v w] three_way_of_0 [of v w]
  by (auto simp: compareVersions_eq version_key_def splitVersion_release three_way_of_prod)

lemma release_order_0: "compareVersions (release_text v) (release_text w @ ''-0'') = (if v < w then - 1 else 1)"
proof -
  have "three_way_of (1 :: nat) 0 = 1" by (simp add: three_way_of_def)
  moreover have "three_way_of v w = (if v < w then - 1 else if v = w then 0 else 1)" by (auto simp: three_way_of_def)
  ultimately show ?thesis
    using core_order [of v w] three_way_of_0 [of "segments_key True (split_on ''.'' (release_text v))"]
    by (auto simp: compareVersions_eq version_key_def splitVersion_release splitVersion_release_0 three_way_of_prod split: if_splits)
qed

section \<open>Reading a release and its operator\<close>

lemma Atoi_nat_text: "n < 2 ^ 63 \<Longrightarrow> Atoi (nat_text n) = Some (int n)"
proof -
  assume n: "n < 2 ^ 63"
  then have "in_int64 (int n)" by (simp add: in_int64_iff)
  then have "sint (word_of_nat n :: int64) = int n" using sint_ops(5) [of "int n"] wrap64_id [of "int n"] by simp
  then show ?thesis
    using nat_text_digits [of n] n
    by (simp add: Atoi_def ParseInt64_def sign_split_nat_text signed_value_def digits_value_nat_text in_int64_iff)
qed

lemma no_wildcard: "\<not> wildcard_part (nat_text n)"
  using nat_text_digits [of n] by (auto simp: wildcard_part_def)

lemma version_text_eq: "version_text (int a) (int b) (int c) = release_text (a, b, c)"
  by (simp add: version_text_def release_text_def)

lemma wildcard_step:
  "i < 3 \<Longrightarrow> i < length core \<Longrightarrow> \<not> wildcard_part (core ! i) \<Longrightarrow> core ! i \<noteq> [] \<Longrightarrow> Atoi (core ! i) = Some n \<Longrightarrow>
   wildcard_parts v core i parts 3 = wildcard_parts v core (i + 1) (parts[i := n]) 3"
  by (subst wildcard_parts.simps) simp

lemma wildcard_parts_complete:
  assumes "a < 2 ^ 63" "b < 2 ^ 63" "c < 2 ^ 63"
  shows "wildcard_parts v [nat_text a, nat_text b, nat_text c] 0 [0, 0, 0] 3 = Inr ([int a, int b, int c], 3)"
proof -
  let ?core = "[nat_text a, nat_text b, nat_text c]"
  have "wildcard_parts v ?core 0 [0, 0, 0] 3 = wildcard_parts v ?core 1 [int a, 0, 0] 3"
    using wildcard_step [of 0 ?core "int a" v "[0, 0, 0]"] nat_text_digits [of a] no_wildcard Atoi_nat_text [OF assms(1)] by simp
  also have "\<dots> = wildcard_parts v ?core 2 [int a, int b, 0] 3"
    using wildcard_step [of 1 ?core "int b" v "[int a, 0, 0]"] nat_text_digits [of b] no_wildcard Atoi_nat_text [OF assms(2)]
    by (simp add: numeral_2_eq_2)
  also have "\<dots> = wildcard_parts v ?core 3 [int a, int b, int c] 3"
    using wildcard_step [of 2 ?core "int c" v "[int a, int b, 0]"] nat_text_digits [of c] no_wildcard Atoi_nat_text [OF assms(3)]
    by (simp add: numeral_2_eq_2 numeral_3_eq_3)
  also have "\<dots> = Inr ([int a, int b, int c], 3)" by (subst wildcard_parts.simps) simp
  finally show ?thesis .
qed

lemma parseWildcardVersion_release:
  assumes "a < 2 ^ 63" "b < 2 ^ 63" "c < 2 ^ 63"
  shows "parseWildcardVersion (release_text (a, b, c)) =
    Inr \<lparr>wv_version = release_text (a, b, c), wv_parts = [int a, int b, int c], wv_wild = 3, wv_upper = []\<rparr>"
proof -
  let ?v = "release_text (a, b, c)"
  have "\<not> contains_sub ?v ''-''" using release_text_no [of "CHR ''-''" "(a, b, c)"] by (auto simp: contains_sub_iff)
  then show ?thesis
    using release_trim [of "[]" "(a, b, c)"] release_no_v [of "(a, b, c)" "[]"] takeWhile_release [of "CHR ''+''" "(a, b, c)" "[]"]
      release_text_no [of "CHR ''+''" "(a, b, c)"] wildcard_parts_complete [OF assms]
    by (simp add: parseWildcardVersion_def Let_def splitVersion_release split_release version_text_eq del: takeWhile_eq_all_conv)
qed

lemma comparator_op_release:
  assumes "op \<in> set range_operators"
  shows "comparator_op (op @ release_text v) = op"
proof -
  obtain c s where "release_text v = c # s" "release_char c" using release_text_hd [of v] by (cases "release_text v") auto
  moreover from this have "c \<noteq> CHR ''=''" "c \<noteq> CHR ''<''" "c \<noteq> CHR ''>''" "c \<noteq> CHR ''^''" "c \<noteq> CHR ''~''" by auto
  moreover have "op = [] \<or> op = ''='' \<or> op = ''=='' \<or> op = ''>='' \<or> op = ''<='' \<or> op = ''^'' \<or> op = ''~'' \<or> op = ''>'' \<or> op = ''<''"
    using assms by (simp add: range_operators_def)
  ultimately show ?thesis by (elim disjE) (simp_all add: comparator_op_def)
qed

lemma fields_of_single:
  assumes "s \<noteq> []" "\<forall>c \<in> set s. \<not> sep c"
  shows "fields_of sep s = [s]"
proof -
  have "dropWhile sep s = s" using assms by (cases s) auto
  moreover have "takeWhile (\<lambda>c. \<not> sep c) s = s" "dropWhile (\<lambda>c. \<not> sep c) s = []" using assms(2) by simp_all
  ultimately show ?thesis using assms(1) fields_of.simps [of sep "[]"] by (subst fields_of.simps) (simp add: Let_def del: dropWhile_eq_Nil_conv takeWhile_eq_all_conv)
qed

lemma field_release:
  assumes "op \<in> set range_operators"
  shows "TrimSpace (op @ release_text v) = op @ release_text v"
    "split_on ''||'' (op @ release_text v) = [op @ release_text v]"
    "fields_of field_sep (op @ release_text v) = [op @ release_text v]"
proof -
  have c: "list_all (\<lambda>c. release_char c \<or> c \<in> set ''=<>^~'') (op @ release_text v)"
    using assms release_text_chars [of v] by (auto simp: range_operators_def list_all_iff)
  have "plain c" if "release_char c \<or> c \<in> set ''=<>^~''" for c
    using that release_char_plain [of c] by (auto simp: plain_def less_char_def)
  then have "list_all plain (op @ release_text v)" using c unfolding list_all_iff by blast
  then show "TrimSpace (op @ release_text v) = op @ release_text v" by (rule TrimSpace_list_plain)
  have no: "x \<notin> set (op @ release_text v)" if "\<not> release_char x" "x \<notin> set ''=<>^~''" for x
    using c that unfolding list_all_iff by blast
  have "CHR ''|'' \<notin> set (op @ release_text v)" by (rule no) simp_all
  then have "\<forall>a b. op @ release_text v \<noteq> a @ ''||'' @ b" by (metis in_set_conv_decomp append_Cons)
  then have "index_of (op @ release_text v) ''||'' = None" unfolding index_of_None_iff .
  then show "split_on ''||'' (op @ release_text v) = [op @ release_text v]" by (simp add: split_on.simps)
  have f: "\<forall>c \<in> set (op @ release_text v). \<not> field_sep c" using no [of "CHR '',''"] no [of "CHR '' ''"] no [of "CHR 0x09"] by (auto simp: field_sep_def)
  then show "fields_of field_sep (op @ release_text v) = [op @ release_text v]" by (intro fields_of_single) simp_all
qed

lemma parse_range_release:
  assumes "op \<in> set range_operators" "parseComparator (op @ release_text v) = Inr cs"
  shows "parseVersionRange (op @ release_text v) = Inr \<lparr>vr_text = op @ release_text v, vr_sets = [cs]\<rparr>"
  using assms(2) field_release [OF assms(1), of v]
  by (simp add: parseVersionRange_def parseComparatorSet_def)

lemma matches_release: "range_matches \<lparr>vr_text = t, vr_sets = [cs]\<rparr> (release_text v) = list_all (comparator_holds (release_text v)) cs"
  using release_trim [of "[]" v] release_no_v [of v "[]"] splitVersion_release [of v]
  by (simp add: range_matches_def range_any_def)

section \<open>The properties\<close>

interpretation versions: three_way compareVersions "\<lambda>v. True"
proof
  fix a b c
  show "compareVersions b a = - compareVersions a b" by (auto simp: compareVersions_eq three_way_of_def)
  assume "compareVersions a b \<le> 0" "compareVersions b c \<le> 0"
  then show "compareVersions a c \<le> 0" by (auto simp: compareVersions_eq three_way_of_def split: if_splits)
qed

lemma succ64_nat: "n < 2 ^ 63 - 1 \<Longrightarrow> succ64 (int n) = int (n + 1)"
  using wrap64_id [of "int (n + 1)"] by (simp add: succ64_def in_int64_iff add.commute)

lemma comparator_of_release:
  "comparator_holds (release_text v) (cmp_of ''='' (release_text w)) = (v = w)"
  "comparator_holds (release_text v) (cmp_of ''<'' (release_text w)) = (v < w)"
  "comparator_holds (release_text v) (cmp_of ''<='' (release_text w)) = (v \<le> w)"
  "comparator_holds (release_text v) (cmp_of ''>'' (release_text w)) = (w < v)"
  "comparator_holds (release_text v) (cmp_of ''>='' (release_text w)) = (w \<le> v)"
  "comparator_holds (release_text v) (cmp_of ''<'' (release_text w @ ''-0'')) = (v < w)"
  by (auto simp: comparator_holds_def release_order release_order_0 Let_def three_way_of_def)

text \<open>What \<open>parseComparator\<close> makes of an operator before a release.\<close>

definition release_comparators :: "string \<Rightarrow> triple \<Rightarrow> comparator list" where
  "release_comparators op v =
     (if op \<in> {[], ''='', ''==''} then [cmp_of ''='' (release_text v)]
      else if op = ''^'' then [cmp_of ''>='' (release_text v), cmp_of ''<'' (release_text (caret_bound v) @ ''-0'')]
      else if op = ''~'' then [cmp_of ''>='' (release_text v), cmp_of ''<'' (release_text (tilde_bound v) @ ''-0'')]
      else [cmp_of op (release_text v)])"

lemma parseComparator_release:
  assumes "op \<in> set range_operators" "a < 2 ^ 63 - 1" "b < 2 ^ 63 - 1" "c < 2 ^ 63 - 1"
  shows "parseComparator (op @ release_text (a, b, c)) = Inr (release_comparators op (a, b, c))"
proof -
  have p: "parseWildcardVersion (release_text (a, b, c)) =
      Inr \<lparr>wv_version = release_text (a, b, c), wv_parts = [int a, int b, int c], wv_wild = 3, wv_upper = []\<rparr>"
    using assms(2-) by (intro parseWildcardVersion_release) simp_all
  have t: "version_text (succ64 (int a)) 0 0 = release_text (a + 1, 0, 0)"
    "version_text 0 (succ64 (int b)) 0 = release_text (0, b + 1, 0)"
    "version_text (int a) (succ64 (int b)) 0 = release_text (a, b + 1, 0)"
    "version_text 0 0 (succ64 (int c)) = release_text (0, 0, c + 1)"
    unfolding succ64_nat [OF assms(2)] succ64_nat [OF assms(3)] succ64_nat [OF assms(4)]
    using version_text_eq [of "a + 1" 0 0] version_text_eq [of 0 "b + 1" 0] version_text_eq [of a "b + 1" 0]
      version_text_eq [of 0 0 "c + 1"] by simp_all
  have "op = [] \<or> op = ''='' \<or> op = ''=='' \<or> op = ''>='' \<or> op = ''<='' \<or> op = ''^'' \<or> op = ''~'' \<or> op = ''>'' \<or> op = ''<''"
    using assms(1) by (simp add: range_operators_def)
  then show ?thesis
    unfolding parseComparator_def comparator_op_release [OF assms(1)] trim_prefix_append Let_def p
    by (elim disjE) (simp_all add: t release_comparators_def caret_bound_def tilde_bound_def)
qed

text \<open>
  C35: A range of one operator before a release reads without an error and admits of the releases
  exactly the ones the operator means: equality, the four comparisons, \<open>^\<close> up to the next change of the
  first part that is not zero, and \<open>~\<close> up to the next minor version; parts are below the largest
  \<open>int\<close>, since past it the bound wraps around.
\<close>

theorem version_range_meaning:
  assumes "op \<in> set range_operators" "a < 2 ^ 63 - 1" "b < 2 ^ 63 - 1" "c < 2 ^ 63 - 1"
  shows "\<exists>r. parseVersionRange (op @ release_text (a, b, c)) = Inr r \<and>
    (\<forall>v. range_matches r (release_text v) = range_meaning op (a, b, c) v)"
proof -
  have "list_all (comparator_holds (release_text v)) (release_comparators op (a, b, c)) = range_meaning op (a, b, c) v" for v
    using assms(1) by (auto simp: release_comparators_def comparator_of_release range_meaning_def range_operators_def)
  then show ?thesis
    using parse_range_release [OF assms(1) parseComparator_release [OF assms]] by (simp add: matches_release)
qed

theorem version_range_meaning_witness:
  "\<exists>r. parseVersionRange ''^1.4.2'' = Inr r \<and> range_matches r ''1.12.0'' \<and> \<not> range_matches r ''2.0.0'' \<and> \<not> range_matches r ''1.4.1''"
proof -
  have "release_text (1, 4, 2) = ''1.4.2''" "release_text (1, 12, 0) = ''1.12.0''" "release_text (2, 0, 0) = ''2.0.0''" "release_text (1, 4, 1) = ''1.4.1''"
    by code_simp+
  moreover have "range_meaning ''^'' (1, 4, 2) (1, 12, 0)" "\<not> range_meaning ''^'' (1, 4, 2) (2, 0, 0)" "\<not> range_meaning ''^'' (1, 4, 2) (1, 4, 1)"
    by code_simp+
  moreover obtain r where "parseVersionRange (''^'' @ release_text (1, 4, 2)) = Inr r"
    "\<forall>v. range_matches r (release_text v) = range_meaning ''^'' (1, 4, 2) v"
    using version_range_meaning [of "''^''" 1 4 2] by (auto simp: range_operators_def)
  ultimately show ?thesis by (metis append_Cons append_Nil)
qed

text \<open>
  C36: Versions are totally preordered, whatever the texts: \<open>compareVersions\<close> is the comparison of
  the versions' keys (the numbers and texts of the core without trailing zeros, then a release after
  its pre-releases, then the pre-release's segments), so that exchanging the arguments turns the
  sign, \<open>at or below\<close> is transitive, and \<open>newerVersion\<close> is its strict part.
\<close>

theorem version_order:
  "compareVersions a b = three_way_of (version_key a) (version_key b) \<and>
   newerVersion a b = (compareVersions a b > 0) \<and>
   compareVersions b a = - compareVersions a b \<and>
   (compareVersions a b \<le> 0 \<and> compareVersions b c \<le> 0 \<longrightarrow> compareVersions a c \<le> 0)"
proof (intro conjI impI)
  show "compareVersions a b = three_way_of (version_key a) (version_key b)" by (rule compareVersions_eq)
  show "newerVersion a b = (compareVersions a b > 0)" by (auto simp: newerVersion_eq compareVersions_eq three_way_of_def)
  show "compareVersions b a = - compareVersions a b" by (rule versions.cmp_swap) simp_all
  show "compareVersions a c \<le> 0" if "compareVersions a b \<le> 0 \<and> compareVersions b c \<le> 0"
    using that versions.cmp_trans [of a b c] by simp
qed

theorem version_order_witness:
  "compareVersions ''1.0.0-rc.2'' ''1.0.0-rc.10'' \<le> 0 \<and> compareVersions ''1.0.0-rc.10'' ''v1'' \<le> 0 \<and>
   compareVersions ''1.0.0-rc.2'' ''v1'' \<le> 0"
proof -
  have "compareVersions ''1.0.0-rc.2'' ''1.0.0-rc.10'' \<le> 0" "compareVersions ''1.0.0-rc.10'' ''v1'' \<le> 0" by code_simp+
  then show ?thesis using version_order [of "''1.0.0-rc.2''" "''1.0.0-rc.10''" "''v1''"] by simp
qed

end
