(* ===== verification/Go_Slices.thy ===== *)
theory Go_Slices
  imports Main
begin

text \<open>
  Go slices over arrays that several slices can share. A \<open>store\<close> holds the arrays, each the list of
  its cells, so its length is the capacity; a \<open>slice\<close> is an array and a length, its offset zero as in
  all the sources that use this model; the nil slice is \<open>None\<close>. What \<open>append\<close> and \<open>slices.Insert\<close> take
  as the capacity of a new array is the library's choice, the function \<open>grown\<close> of the store.
\<close>

record 'e store =
  zero_value :: 'e
  arrays :: "'e list list"
  grown :: "nat \<Rightarrow> nat"

record slice =
  sl_array :: nat
  sl_len :: nat

definition array_at :: "'e store \<Rightarrow> nat \<Rightarrow> 'e list" where
  "array_at st a = arrays st ! a"

definition items :: "'e store \<Rightarrow> slice \<Rightarrow> 'e list" where
  "items st s = take (sl_len s) (array_at st (sl_array s))"

definition items_of :: "'e store \<Rightarrow> slice option \<Rightarrow> 'e list" where
  "items_of st so = (case so of None \<Rightarrow> [] | Some s \<Rightarrow> items st s)"

text \<open>\<open>make(S, len(xs), cap)\<close> and \<open>copy(out, xs)\<close>.\<close>

definition new_array :: "'e store \<Rightarrow> 'e list \<Rightarrow> nat \<Rightarrow> slice \<times> 'e store" where
  "new_array st xs capacity =
     (\<lparr>sl_array = length (arrays st), sl_len = length xs\<rparr>,
      st\<lparr>arrays := arrays st @ [xs @ replicate (capacity - length xs) (zero_value st)]\<rparr>)"

text \<open>Writing the first cells of the array of a slice.\<close>

definition write_items :: "'e store \<Rightarrow> slice \<Rightarrow> 'e list \<Rightarrow> 'e store" where
  "write_items st s xs = st\<lparr>arrays := (arrays st)[sl_array s := xs @ drop (length xs) (array_at st (sl_array s))]\<rparr>"

text \<open>A slice of the items \<open>xs\<close>, one more than \<open>s\<close> holds: in place if its array has room.\<close>

definition one_more :: "'e store \<Rightarrow> slice \<Rightarrow> 'e list \<Rightarrow> slice \<times> 'e store" where
  "one_more st s xs =
     (if sl_len s < length (array_at st (sl_array s)) then (s\<lparr>sl_len := sl_len s + 1\<rparr>, write_items st s xs)
      else new_array st xs (grown st (length xs)))"

definition go_append :: "'e store \<Rightarrow> slice option \<Rightarrow> 'e \<Rightarrow> slice \<times> 'e store" where
  "go_append st so e =
     (case so of
        None \<Rightarrow> new_array st [e] (grown st 1)
      | Some s \<Rightarrow> one_more st s (items st s @ [e]))"

definition slices_Insert :: "'e store \<Rightarrow> slice \<Rightarrow> nat \<Rightarrow> 'e \<Rightarrow> slice \<times> 'e store" where
  "slices_Insert st s i e = one_more st s (take i (items st s) @ e # drop i (items st s))"

definition without_at :: "nat \<Rightarrow> 'e list \<Rightarrow> 'e list" where
  "without_at i xs = take i xs @ drop (Suc i) xs"

text \<open>\<open>append(s[:i], s[i+1:]...)\<close>, and \<open>slices.Delete(s, i, i+1)\<close>, which also clears the cell left over.\<close>

definition cut_out :: "'e store \<Rightarrow> slice \<Rightarrow> nat \<Rightarrow> slice \<times> 'e store" where
  "cut_out st s i = (s\<lparr>sl_len := sl_len s - 1\<rparr>, write_items st s (without_at i (items st s)))"

definition slices_Delete :: "'e store \<Rightarrow> slice \<Rightarrow> nat \<Rightarrow> slice \<times> 'e store" where
  "slices_Delete st s i =
     (s\<lparr>sl_len := sl_len s - 1\<rparr>, write_items st s (without_at i (items st s) @ [zero_value st]))"

text \<open>\<open>slices.BinarySearch\<close>, the library's loop.\<close>

function search_loop :: "'e :: linorder list \<Rightarrow> 'e \<Rightarrow> nat \<Rightarrow> nat \<Rightarrow> nat" where
  "search_loop xs e i j =
     (if i < j then let h = (i + j) div 2 in if xs ! h < e then search_loop xs e (h + 1) j else search_loop xs e i h else i)"
  by pat_completeness auto
termination
  by (relation "measure (\<lambda>(xs, e, i, j). j - i)") auto

declare search_loop.simps [simp del]

definition BinarySearch :: "'e :: linorder list \<Rightarrow> 'e \<Rightarrow> nat \<times> bool" where
  "BinarySearch xs e = (let i = search_loop xs e 0 (length xs) in (i, i < length xs \<and> xs ! i = e))"

section \<open>What the operations give\<close>

definition slice_ok :: "'e store \<Rightarrow> slice \<Rightarrow> bool" where
  "slice_ok st s = (sl_array s < length (arrays st) \<and> sl_len s \<le> length (array_at st (sl_array s)))"

text \<open>The arrays outside \<open>A\<close> are as they were.\<close>

definition arrays_kept :: "nat set \<Rightarrow> 'e store \<Rightarrow> 'e store \<Rightarrow> bool" where
  "arrays_kept A st st' =
     (length (arrays st) \<le> length (arrays st') \<and> (\<forall>a < length (arrays st). a \<notin> A \<longrightarrow> array_at st' a = array_at st a))"

text \<open>A result of the items \<open>xs\<close> that wrote no array outside \<open>A\<close>, and lies in one of them or a new one.\<close>

definition result_ok :: "'e store \<Rightarrow> nat set \<Rightarrow> 'e list \<Rightarrow> slice \<times> 'e store \<Rightarrow> bool" where
  "result_ok st A xs r =
     (items (snd r) (fst r) = xs \<and> slice_ok (snd r) (fst r) \<and> arrays_kept A st (snd r) \<and>
      (sl_array (fst r) \<in> A \<or> length (arrays st) \<le> sl_array (fst r)))"

lemma arrays_kept_refl [simp]: "arrays_kept A st st"
  by (simp add: arrays_kept_def)

lemma arrays_kept_trans:
  assumes "arrays_kept A st st'" "arrays_kept B st' st''" "\<forall>b \<in> B. b \<in> A \<or> length (arrays st) \<le> b"
  shows "arrays_kept A st st''"
  using assms unfolding arrays_kept_def by (metis leD order.strict_trans2 order.trans)

lemma kept_items: "arrays_kept A st st' \<Longrightarrow> slice_ok st s \<Longrightarrow> sl_array s \<notin> A \<Longrightarrow> items st' s = items st s \<and> slice_ok st' s"
  by (auto simp: arrays_kept_def slice_ok_def items_def)

lemma length_items: "slice_ok st s \<Longrightarrow> length (items st s) = sl_len s"
  by (simp add: slice_ok_def items_def)

lemma new_array_ok: "result_ok st A xs (new_array st xs capacity)"
  by (auto simp: result_ok_def new_array_def items_def slice_ok_def arrays_kept_def array_at_def nth_append)

lemma write_items_ok:
  assumes "slice_ok st s" "n \<le> length xs" "length xs \<le> length (array_at st (sl_array s))"
  shows "result_ok st {sl_array s} (take n xs) (s\<lparr>sl_len := n\<rparr>, write_items st s xs)"
  using assms by (auto simp: result_ok_def write_items_def items_def slice_ok_def arrays_kept_def array_at_def)

lemma one_more_ok:
  assumes "slice_ok st s" "length xs = sl_len s + 1"
  shows "result_ok st {sl_array s} xs (one_more st s xs)"
  using write_items_ok [OF assms(1), of "length xs" xs] new_array_ok [of st "{sl_array s}" xs] assms
  by (auto simp: one_more_def)

lemma go_append_ok:
  "result_ok st A [e] (go_append st None e)"
  "slice_ok st s \<Longrightarrow> result_ok st {sl_array s} (items st s @ [e]) (go_append st (Some s) e)"
  using new_array_ok [of st A "[e]"] one_more_ok [of st s "items st s @ [e]"] length_items [of st s] by (simp_all add: go_append_def)

lemma slices_Insert_ok:
  "slice_ok st s \<Longrightarrow> i \<le> sl_len s \<Longrightarrow>
   result_ok st {sl_array s} (take i (items st s) @ e # drop i (items st s)) (slices_Insert st s i e)"
  unfolding slices_Insert_def by (rule one_more_ok) (simp_all add: length_items)

lemma length_without_at: "i < length xs \<Longrightarrow> length (without_at i xs) = length xs - 1"
  by (simp add: without_at_def)

lemma cut_out_ok:
  assumes "slice_ok st s" "i < sl_len s"
  shows "result_ok st {sl_array s} (without_at i (items st s)) (cut_out st s i)"
    "result_ok st {sl_array s} (without_at i (items st s)) (slices_Delete st s i)"
proof -
  have l: "length (without_at i (items st s)) = sl_len s - 1" using assms by (simp add: length_without_at length_items)
  have c: "sl_len s \<le> length (array_at st (sl_array s))" using assms(1) by (simp add: slice_ok_def)
  show "result_ok st {sl_array s} (without_at i (items st s)) (cut_out st s i)"
    using write_items_ok [OF assms(1), of "sl_len s - 1" "without_at i (items st s)"] l c by (simp add: cut_out_def)
  show "result_ok st {sl_array s} (without_at i (items st s)) (slices_Delete st s i)"
    using write_items_ok [OF assms(1), of "sl_len s - 1" "without_at i (items st s) @ [zero_value st]"] l c assms(2)
    by (simp add: slices_Delete_def)
qed

section \<open>Sorted lists without repetition\<close>

definition strictly_sorted :: "'e :: linorder list \<Rightarrow> bool" where
  "strictly_sorted xs = sorted_wrt (<) xs"

lemma strictly_sorted_Nil [simp]: "strictly_sorted []"
  by (simp add: strictly_sorted_def)

lemma strictly_sorted_mono: "strictly_sorted xs \<Longrightarrow> a \<le> b \<Longrightarrow> b < length xs \<Longrightarrow> xs ! a \<le> xs ! b"
  using sorted_wrt_nth_less [of "(<)" xs a b] by (cases "a = b") (fastforce simp: strictly_sorted_def)+

lemma search_loop_ok:
  assumes "strictly_sorted xs" "i \<le> j" "j \<le> length xs" "\<forall>k < i. xs ! k < e" "\<forall>k. j \<le> k \<and> k < length xs \<longrightarrow> e \<le> xs ! k"
  shows "search_loop xs e i j \<le> length xs \<and> (\<forall>k < search_loop xs e i j. xs ! k < e) \<and>
    (\<forall>k. search_loop xs e i j \<le> k \<and> k < length xs \<longrightarrow> e \<le> xs ! k)"
  using assms
proof (induction xs e i j rule: search_loop.induct)
  case (1 xs e i j)
  show ?case
  proof (cases "i < j")
    case True
    define h where "h = (i + j) div 2"
    have h: "i \<le> h" "h < j" using True by (auto simp: h_def)
    note mono = strictly_sorted_mono [OF "1.prems"(1)]
    have eq: "search_loop xs e i j = (if xs ! h < e then search_loop xs e (h + 1) j else search_loop xs e i h)"
      using True by (subst search_loop.simps) (simp add: Let_def h_def)
    show ?thesis
    proof (cases "xs ! h < e")
      case less: True
      have "xs ! k < e" if "k < h + 1" for k
      proof -
        have "xs ! k \<le> xs ! h" by (rule mono) (use that h "1.prems"(3) in auto)
        then show ?thesis using less by simp
      qed
      then have "\<forall>k < h + 1. xs ! k < e" by simp
      then show ?thesis using "1.IH"(1) [OF True h_def less "1.prems"(1) _ "1.prems"(3) _ "1.prems"(5)] h less unfolding eq by simp
    next
      case False
      have "e \<le> xs ! k" if "h \<le> k \<and> k < length xs" for k using mono [of h k] False that by simp
      then have "\<forall>k. h \<le> k \<and> k < length xs \<longrightarrow> e \<le> xs ! k" by blast
      then show ?thesis using "1.IH"(2) [OF True h_def False "1.prems"(1) h(1) _ "1.prems"(4)] h "1.prems"(3) False unfolding eq by simp
    qed
  next
    case False
    then have "search_loop xs e i j = i" by (subst search_loop.simps) simp
    then show ?thesis using "1.prems" False by simp
  qed
qed

text \<open>What a binary search finds in a sorted list.\<close>

lemma BinarySearch_ok:
  assumes "strictly_sorted xs" "BinarySearch xs e = (i, found)"
  shows "i \<le> length xs" "\<forall>x \<in> set (take i xs). x < e" "\<forall>x \<in> set (drop i xs). e \<le> x" "found \<longleftrightarrow> e \<in> set xs"
    "found \<Longrightarrow> i < length xs \<and> xs ! i = e" "\<not> found \<Longrightarrow> \<forall>x \<in> set (drop i xs). e < x"
proof -
  have l: "i \<le> length xs \<and> (\<forall>k < i. xs ! k < e) \<and> (\<forall>k. i \<le> k \<and> k < length xs \<longrightarrow> e \<le> xs ! k)"
  proof -
    have i: "i = search_loop xs e 0 (length xs)" using assms(2) by (auto simp: BinarySearch_def Let_def)
    show ?thesis unfolding i by (rule search_loop_ok [OF assms(1)]) (simp, simp, simp, metis leD)
  qed
  have f: "found = (i < length xs \<and> xs ! i = e)" using assms(2) by (auto simp: BinarySearch_def Let_def)
  show i: "i \<le> length xs" using l by simp
  show t: "\<forall>x \<in> set (take i xs). x < e" using l by (auto simp: in_set_conv_nth)
  show d: "\<forall>x \<in> set (drop i xs). e \<le> x" using l by (auto simp: in_set_conv_nth)
  show "found \<Longrightarrow> i < length xs \<and> xs ! i = e" using f by simp
  have hd: "x = xs ! i \<or> xs ! i < x" if mem: "x \<in> set (drop i xs)" for x
  proof -
    obtain m where "m < length (drop i xs)" "x = drop i xs ! m" using mem by (metis in_set_conv_nth)
    then have k: "i \<le> i + m" "i + m < length xs" "x = xs ! (i + m)" by simp_all
    then show ?thesis using sorted_wrt_nth_less [of "(<)" xs i "i + m"] assms(1) by (cases "m = 0") (auto simp: strictly_sorted_def)
  qed
  show m: "found \<longleftrightarrow> e \<in> set xs"
  proof
    assume "e \<in> set xs"
    then have "e \<in> set (drop i xs)" using t by (metis Un_iff append_take_drop_id less_irrefl set_append)
    moreover from this have "i < length xs" by (metis drop_all empty_iff empty_set not_le)
    moreover have "e \<le> xs ! i" using l \<open>i < length xs\<close> by simp
    ultimately show found using hd f by fastforce
  qed (use f in auto)
  show "\<not> found \<Longrightarrow> \<forall>x \<in> set (drop i xs). e < x"
    using d m by (metis in_set_dropD order.not_eq_order_implies_strict)
qed

lemma insert_sorted:
  assumes "strictly_sorted xs" "BinarySearch xs e = (i, False)"
  shows "strictly_sorted (take i xs @ e # drop i xs)" "set (take i xs @ e # drop i xs) = insert e (set xs)"
proof -
  note b = BinarySearch_ok [OF assms]
  have "sorted_wrt (<) (take i xs @ drop i xs)" using assms(1) by (simp add: strictly_sorted_def)
  then show "strictly_sorted (take i xs @ e # drop i xs)"
    using b(2) b(6) unfolding strictly_sorted_def sorted_wrt_append by auto
  show "set (take i xs @ e # drop i xs) = insert e (set xs)"
    by (metis Un_insert_right append_take_drop_id list.simps(15) set_append)
qed

lemma delete_sorted:
  assumes "strictly_sorted xs" "BinarySearch xs e = (i, True)"
  shows "i < length xs" "strictly_sorted (without_at i xs)" "set (without_at i xs) = set xs - {e}"
proof -
  show i: "i < length xs" using BinarySearch_ok(5) [OF assms] by simp
  have e: "xs ! i = e" using BinarySearch_ok(5) [OF assms] by simp
  have xs: "xs = take i xs @ e # drop (Suc i) xs" using id_take_nth_drop [OF i] e by simp
  then have s: "sorted_wrt (<) (take i xs @ e # drop (Suc i) xs)" using assms(1) by (simp add: strictly_sorted_def)
  then show "strictly_sorted (without_at i xs)" by (simp add: without_at_def strictly_sorted_def sorted_wrt_append)
  have "e \<notin> set (without_at i xs)" using s by (auto simp: without_at_def sorted_wrt_append)
  then show "set (without_at i xs) = set xs - {e}"
    by (subst (2) xs) (auto simp: without_at_def)
qed

end
