(* ===== verification/Index_Layers.thy ===== *)
theory Index_Layers
  imports Go_Slices "HOL-Library.Word"
begin

text \<open>
  The tables of the symbol index (\<open>internal/semantic/symbols/layer.go\<close>, the generic part): a table reads
  through to the table of a frozen index below it, writes only entries of its own, and hides a key
  of the table below that it deletes. \<open>ly_gen\<close> is the part of the index's generation counter that the
  writes of this table added; the counter, which the tables of an index share, is the sum of the parts.
\<close>

section \<open>The interface of a table\<close>

text \<open>What the code above the tables relies on: a finite map, read by \<open>get\<close>.\<close>

locale key_table =
  fixes lookup :: "'t \<Rightarrow> 'k \<Rightarrow> 'v option" and put :: "'t \<Rightarrow> 'k \<Rightarrow> 'v \<Rightarrow> 't" and remove :: "'t \<Rightarrow> 'k \<Rightarrow> 't"
    and valid :: "'t \<Rightarrow> bool"
  assumes lookup_put: "valid t \<Longrightarrow> lookup (put t k v) = (lookup t)(k \<mapsto> v)"
    and lookup_remove: "valid t \<Longrightarrow> lookup (remove t k) = (lookup t)(k := None)"
    and put_valid: "valid t \<Longrightarrow> valid (put t k v)"
    and remove_valid: "valid t \<Longrightarrow> valid (remove t k)"
begin

lemma put_same: "valid t \<Longrightarrow> lookup (put t k v) k = Some v"
  by (simp add: lookup_put)

lemma put_other: "valid t \<Longrightarrow> k' \<noteq> k \<Longrightarrow> lookup (put t k v) k' = lookup t k'"
  by (simp add: lookup_put)

lemma put_commute:
  "valid t \<Longrightarrow> k \<noteq> k' \<Longrightarrow> lookup (put (put t k v) k' v') = lookup (put (put t k' v') k v)"
  by (simp add: lookup_put put_valid fun_upd_twist)

lemma remove_put: "valid t \<Longrightarrow> lookup (remove (put t k v) k) = lookup (remove t k)"
  by (simp add: lookup_put lookup_remove put_valid)

lemma put_remove: "valid t \<Longrightarrow> lookup (put (remove t k) k v) = lookup (put t k v)"
  by (simp add: lookup_put lookup_remove remove_valid)

lemma puts_valid: "valid t \<Longrightarrow> valid (fold (\<lambda>(k, v) t. put t k v) kvs t)"
  by (induction kvs arbitrary: t) (auto simp: put_valid)

lemma puts_lookup: "valid t \<Longrightarrow> lookup (fold (\<lambda>(k, v) t. put t k v) kvs t) = lookup t ++ map_of (rev kvs)"
  by (induction kvs arbitrary: t) (auto simp: put_valid lookup_put map_add_def fun_eq_iff split: option.split)

end

section \<open>Layers\<close>

record ('k, 'v) layer =
  ly_base :: "'k \<rightharpoonup> 'v"
  ly_own :: "'k \<rightharpoonup> 'v"
  ly_dead :: "'k set"
  ly_gen :: "64 word"

definition newLayer :: "('k, 'v) layer" where
  "newLayer = \<lparr>ly_base = Map.empty, ly_own = Map.empty, ly_dead = {}, ly_gen = 0\<rparr>"

definition overLayer :: "('k, 'v) layer \<Rightarrow> ('k, 'v) layer" where
  "overLayer below = \<lparr>ly_base = ly_own below, ly_own = Map.empty, ly_dead = {}, ly_gen = 0\<rparr>"

definition bump :: "('k, 'v) layer \<Rightarrow> ('k, 'v) layer" where
  "bump l = l\<lparr>ly_gen := ly_gen l + 1\<rparr>"

definition layer_get :: "('k, 'v) layer \<Rightarrow> 'k \<Rightarrow> 'v option" where
  "layer_get l k =
     (case ly_own l k of
        Some v \<Rightarrow> Some v
      | None \<Rightarrow> if k \<in> ly_dead l then None else ly_base l k)"

text \<open>\<open>at\<close>, the zero value an argument.\<close>

definition layer_at :: "'v \<Rightarrow> ('k, 'v) layer \<Rightarrow> 'k \<Rightarrow> 'v" where
  "layer_at zero l k = (case layer_get l k of Some v \<Rightarrow> v | None \<Rightarrow> zero)"

definition layer_below :: "('k, 'v) layer \<Rightarrow> 'k \<Rightarrow> 'v option" where
  "layer_below l k = (if k \<in> ly_dead l then None else ly_base l k)"

definition layer_set :: "('k, 'v) layer \<Rightarrow> 'k \<Rightarrow> 'v \<Rightarrow> ('k, 'v) layer" where
  "layer_set l k v = (bump l)\<lparr>ly_own := (ly_own l)(k \<mapsto> v), ly_dead := ly_dead l - {k}\<rparr>"

definition layer_del :: "('k, 'v) layer \<Rightarrow> 'k \<Rightarrow> ('k, 'v) layer" where
  "layer_del l k =
     (bump l)\<lparr>ly_own := (ly_own l)(k := None),
       ly_dead := (if ly_base l k \<noteq> None then insert k (ly_dead l) else ly_dead l)\<rparr>"

definition layer_owns :: "('k, 'v) layer \<Rightarrow> 'k \<Rightarrow> bool" where
  "layer_owns l k = (ly_own l k \<noteq> None)"

text \<open>The snapshot of the keys, as the set they are, since Go ranges over a map in no fixed order.\<close>

definition layer_keys :: "('k, 'v) layer \<Rightarrow> 'k set" where
  "layer_keys l = dom (ly_own l) \<union> {k \<in> dom (ly_base l). ly_own l k = None \<and> k \<notin> ly_dead l}"

definition layer_clear :: "('k, 'v) layer \<Rightarrow> ('k, 'v) layer" where
  "layer_clear l = (bump l)\<lparr>ly_own := Map.empty, ly_dead := ly_dead l \<union> dom (ly_base l)\<rparr>"

text \<open>\<open>writableMap\<close>: the map the caller may write to and the table it is now an entry of. A Go map is
  a reference, so the caller's write \<open>m[nk] = nv\<close> is \<open>write_entry\<close>, a write to the table's own entry.\<close>

definition writableMap :: "('k, 'nk \<rightharpoonup> 'nv) layer \<Rightarrow> 'k \<Rightarrow> ('nk \<rightharpoonup> 'nv) \<times> ('k, 'nk \<rightharpoonup> 'nv) layer" where
  "writableMap l k =
     (case ly_own l k of
        Some m \<Rightarrow> (m, bump l)
      | None \<Rightarrow> (let out = (case layer_below l k of Some shared \<Rightarrow> shared | None \<Rightarrow> Map.empty) in (out, layer_set l k out)))"

definition write_entry :: "('k, 'nk \<rightharpoonup> 'nv) layer \<Rightarrow> 'k \<Rightarrow> 'nk \<Rightarrow> 'nv \<Rightarrow> ('k, 'nk \<rightharpoonup> 'nv) layer" where
  "write_entry l k nk nv = (let (m, l) = writableMap l k in l\<lparr>ly_own := (ly_own l)(k \<mapsto> m(nk \<mapsto> nv))\<rparr>)"

section \<open>A layer is a map over a frozen map\<close>

text \<open>A key that is hidden is one of the table below, and none of the table's own.\<close>

definition layer_ok :: "('k, 'v) layer \<Rightarrow> bool" where
  "layer_ok l = (ly_dead l \<subseteq> dom (ly_base l) \<and> ly_dead l \<inter> dom (ly_own l) = {})"

lemma layer_fields [simp]:
  "ly_base (bump l) = ly_base l" "ly_own (bump l) = ly_own l" "ly_dead (bump l) = ly_dead l" "ly_gen (bump l) = ly_gen l + 1"
  "ly_base (layer_set l k v) = ly_base l" "ly_own (layer_set l k v) = (ly_own l)(k \<mapsto> v)" "ly_gen (layer_set l k v) = ly_gen l + 1"
  "ly_base (layer_del l k) = ly_base l" "ly_own (layer_del l k) = (ly_own l)(k := None)" "ly_gen (layer_del l k) = ly_gen l + 1"
  "ly_base (layer_clear l) = ly_base l" "ly_own (layer_clear l) = Map.empty" "ly_gen (layer_clear l) = ly_gen l + 1"
  by (simp_all add: bump_def layer_set_def layer_del_def layer_clear_def)

lemma bump_get [simp]: "layer_get (bump l) = layer_get l"
  by (rule ext) (simp add: bump_def layer_get_def split: option.split)

lemma bump_ok [simp]: "layer_ok (bump l) = layer_ok l"
  by (simp add: bump_def layer_ok_def)

lemma layer_get_set: "layer_get (layer_set l k v) = (layer_get l)(k \<mapsto> v)"
  by (auto simp: layer_get_def layer_set_def fun_eq_iff bump_def split: option.split)

lemma layer_get_del: "layer_get (layer_del l k) = (layer_get l)(k := None)"
  by (auto simp: layer_get_def layer_del_def fun_eq_iff bump_def split: option.split)

lemma layer_set_ok: "layer_ok l \<Longrightarrow> layer_ok (layer_set l k v)"
  by (auto simp: layer_ok_def layer_set_def bump_def)

lemma layer_del_ok: "layer_ok l \<Longrightarrow> layer_ok (layer_del l k)"
  by (auto simp: layer_ok_def layer_del_def bump_def)

lemma layer_below_get: "ly_own l k = None \<Longrightarrow> layer_below l k = layer_get l k"
  by (simp add: layer_below_def layer_get_def)

lemma layer_get_clear: "layer_get (layer_clear l) = Map.empty"
  by (auto simp: layer_get_def layer_clear_def fun_eq_iff bump_def)

lemma layer_keys_get: "layer_keys l = dom (layer_get l)"
  by (auto simp: layer_keys_def layer_get_def dom_def split: option.splits if_splits)

lemma layer_new: "layer_ok newLayer" "layer_get newLayer = Map.empty"
  by (simp_all add: newLayer_def layer_ok_def layer_get_def fun_eq_iff)

lemma layer_over: "layer_ok (overLayer b)" "layer_get (overLayer b) = ly_own b"
  by (simp_all add: overLayer_def layer_ok_def layer_get_def fun_eq_iff)

lemma layer_get_plain: "ly_base b = Map.empty \<Longrightarrow> layer_get b = ly_own b"
  by (simp add: layer_get_def fun_eq_iff split: option.split)

lemma layer_clear_ok: "layer_ok l \<Longrightarrow> layer_ok (layer_clear l)"
  by (auto simp: layer_ok_def layer_clear_def bump_def)

lemma write_entry_get:
  "layer_get (write_entry l k nk nv) =
     (layer_get l)(k \<mapsto> (case layer_get l k of Some m \<Rightarrow> m | None \<Rightarrow> Map.empty)(nk \<mapsto> nv))"
  by (cases "ly_own l k")
    (auto simp: write_entry_def writableMap_def layer_below_get Let_def layer_get_def layer_set_def bump_def fun_eq_iff
      split: option.split if_splits)

lemma write_entry_ok: "layer_ok l \<Longrightarrow> layer_ok (write_entry l k nk nv)"
  by (auto simp: write_entry_def writableMap_def layer_ok_def layer_set_def bump_def Let_def split: option.split)

lemma write_entry_base: "ly_base (write_entry l k nk nv) = ly_base l" "ly_gen (write_entry l k nk nv) = ly_gen l + 1"
  by (simp_all add: write_entry_def writableMap_def Let_def split: option.split)

interpretation layer_table: key_table layer_get layer_set layer_del layer_ok
  by unfold_locales (simp_all add: layer_get_set layer_get_del layer_set_ok layer_del_ok)

section \<open>The writes of a table\<close>

datatype ('k, 'v) layer_write = Set 'k 'v | Del 'k | Clear

primrec write_layer :: "('k, 'v) layer_write \<Rightarrow> ('k, 'v) layer \<Rightarrow> ('k, 'v) layer" where
  "write_layer (Set k v) l = layer_set l k v"
| "write_layer (Del k) l = layer_del l k"
| "write_layer Clear l = layer_clear l"

primrec write_map :: "('k, 'v) layer_write \<Rightarrow> ('k \<rightharpoonup> 'v) \<Rightarrow> ('k \<rightharpoonup> 'v)" where
  "write_map (Set k v) m = m(k \<mapsto> v)"
| "write_map (Del k) m = m(k := None)"
| "write_map Clear m = Map.empty"

lemma write_layer_ok: "layer_ok l \<Longrightarrow> layer_ok (write_layer w l)"
  by (cases w) (simp_all add: layer_set_ok layer_del_ok layer_clear_ok)

lemma write_layer_get: "layer_get (write_layer w l) = write_map w (layer_get l)"
  by (cases w) (simp_all add: layer_get_set layer_get_del layer_get_clear)

lemma write_layer_base: "ly_base (write_layer w l) = ly_base l" "ly_gen (write_layer w l) = ly_gen l + 1"
  by (cases w; simp)+

lemma writes_layer:
  assumes "layer_ok l"
  shows "layer_ok (fold write_layer ws l)" "layer_get (fold write_layer ws l) = fold write_map ws (layer_get l)"
    "ly_base (fold write_layer ws l) = ly_base l" "ly_gen (fold write_layer ws l) = ly_gen l + of_nat (length ws)"
  using assms by (induction ws arbitrary: l) (simp_all add: write_layer_ok write_layer_get write_layer_base)

text \<open>
  C40: A table over a frozen one is the map it stands for. After any writes it answers what the map
  below, written the same way, would answer, its keys are the keys of that map, and the
  table below is as it was; and writing moves the generation, so that a reader that finds it unmoved has
  missed no write (as long as fewer than \<open>2 ^ 64\<close> were made).
\<close>

theorem layer_refines_map:
  assumes "ly_base below = Map.empty"
  shows
    "layer_get (fold write_layer ws (overLayer below)) = fold write_map ws (layer_get below) \<and>
     layer_keys (fold write_layer ws (overLayer below)) = dom (fold write_map ws (layer_get below)) \<and>
     ly_base (fold write_layer ws (overLayer below)) = layer_get below \<and>
     (ws \<noteq> [] \<and> length ws < 2 ^ 64 \<longrightarrow> ly_gen (fold write_layer ws (overLayer below)) \<noteq> ly_gen (overLayer below))"
proof -
  note w = writes_layer [OF layer_over(1) [of below], of ws]
  have b: "layer_get below = ly_own below" using assms by (rule layer_get_plain)
  have "of_nat (length ws) \<noteq> (0 :: 64 word)" if "ws \<noteq> []" "length ws < 2 ^ 64"
    using that by (auto simp: word_of_nat_eq_0_iff dest: nat_dvd_not_less [rotated])
  moreover have "ly_base (overLayer below) = ly_own below" by (simp add: overLayer_def)
  ultimately show ?thesis using w by (simp add: layer_keys_get layer_over(2) b)
qed

theorem layer_refines_map_witness:
  "layer_get (fold write_layer [Set 1 ''over'', Del 2] (overLayer (layer_set (layer_set newLayer (2 :: nat) ''below'') 3 ''kept''))) =
     fold write_map [Set 1 ''over'', Del 2] (layer_get (layer_set (layer_set newLayer 2 ''below'') 3 ''kept''))"
  by (rule layer_refines_map [THEN conjunct1]) (simp add: newLayer_def)

end
