(* ===== verification/Index_Slices.thy ===== *)
theory Index_Slices
  imports Index_Layers Prelude "HOL-Library.Multiset" "HOL-Library.List_Lexorder" "HOL-Library.Char_ord"
begin

text \<open>
  The tables of the symbol index whose entries are slices (\<open>layer.go\<close> from \<open>writableSlice\<close> on, and the
  marks of \<open>index.go\<close>): the frozen table below shares its arrays with every table over it, so a write
  copies the slice first. A table keeps its arrays in a store of its own: no operation moves a
  slice from one table to another. A symbol is an address; \<open>syms\<close> is what the symbols are.
\<close>

record ('k, 'e) slice_table =
  tb_layer :: "('k, slice) layer"
  tb_store :: "'e store"

definition tb_get :: "('k, 'e) slice_table \<Rightarrow> 'k \<Rightarrow> 'e list option" where
  "tb_get t k = map_option (items (tb_store t)) (layer_get (tb_layer t) k)"

definition tb_at :: "('k, 'e) slice_table \<Rightarrow> 'k \<Rightarrow> 'e list" where
  "tb_at t k = items_of (tb_store t) (layer_get (tb_layer t) k)"

text \<open>\<open>l.set(k, s)\<close>, and \<open>l.gen.bump(); l.own[k] = s\<close>, with the store the slice was made in.\<close>

definition tb_set :: "('k, 'e) slice_table \<Rightarrow> 'k \<Rightarrow> slice \<times> 'e store \<Rightarrow> ('k, 'e) slice_table" where
  "tb_set t k r = \<lparr>tb_layer = layer_set (tb_layer t) k (fst r), tb_store = snd r\<rparr>"

definition tb_put_own :: "('k, 'e) slice_table \<Rightarrow> 'k \<Rightarrow> slice \<times> 'e store \<Rightarrow> ('k, 'e) slice_table" where
  "tb_put_own t k r = \<lparr>tb_layer = (bump (tb_layer t))\<lparr>ly_own := (ly_own (tb_layer t))(k \<mapsto> fst r)\<rparr>, tb_store = snd r\<rparr>"

definition tb_del :: "('k, 'e) slice_table \<Rightarrow> 'k \<Rightarrow> ('k, 'e) slice_table" where
  "tb_del t k = t\<lparr>tb_layer := layer_del (tb_layer t) k\<rparr>"

definition newTable :: "'e \<Rightarrow> (nat \<Rightarrow> nat) \<Rightarrow> ('k, 'e) slice_table" where
  "newTable zero growth = \<lparr>tb_layer = newLayer, tb_store = \<lparr>zero_value = zero, arrays = [], grown = growth\<rparr>\<rparr>"

definition overTable :: "('k, 'e) slice_table \<Rightarrow> ('k, 'e) slice_table" where
  "overTable t = t\<lparr>tb_layer := overLayer (tb_layer t)\<rparr>"

section \<open>layer.go\<close>

definition writableSlice :: "('k, 'e) slice_table \<Rightarrow> 'k \<Rightarrow> slice \<times> ('k, 'e) slice_table" where
  "writableSlice t k =
     (case ly_own (tb_layer t) k of
        Some s \<Rightarrow> (s, t\<lparr>tb_layer := bump (tb_layer t)\<rparr>)
      | None \<Rightarrow>
          (let shared = items_of (tb_store t) (layer_below (tb_layer t) k);
               out = new_array (tb_store t) shared (length shared + 1)
           in (fst out, tb_set t k out)))"

definition appendSlice :: "('k, 'e) slice_table \<Rightarrow> 'k \<Rightarrow> 'e \<Rightarrow> ('k, 'e) slice_table" where
  "appendSlice t k e =
     (case ly_own (tb_layer t) k of
        Some s \<Rightarrow> tb_put_own t k (go_append (tb_store t) (Some s) e)
      | None \<Rightarrow>
          (let shared = items_of (tb_store t) (layer_below (tb_layer t) k);
               (out, st) = new_array (tb_store t) shared (length shared + 1)
           in tb_set t k (go_append st (Some out) e)))"

record Symbol =
  sy_DocName :: string
  sy_Offset :: int

definition declaredAfter :: "Symbol \<Rightarrow> Symbol \<Rightarrow> bool" where
  "declaredAfter a b = (if sy_DocName a \<noteq> sy_DocName b then sy_DocName a > sy_DocName b else sy_Offset a > sy_Offset b)"

text \<open>The loop of \<open>insertSymbol\<close>, from position \<open>i\<close> down.\<close>

fun insert_pos :: "(nat \<Rightarrow> Symbol) \<Rightarrow> nat list \<Rightarrow> nat list \<Rightarrow> nat \<Rightarrow> nat \<Rightarrow> nat" where
  "insert_pos syms shared xs decl 0 = 0"
| "insert_pos syms shared xs decl (Suc j) =
     (if \<not> (j < length shared \<and> shared ! j = xs ! j) \<and> declaredAfter (syms (xs ! j)) (syms decl)
      then insert_pos syms shared xs decl j else Suc j)"

definition insertSymbol :: "(nat \<Rightarrow> Symbol) \<Rightarrow> ('k, nat) slice_table \<Rightarrow> 'k \<Rightarrow> nat \<Rightarrow> ('k, nat) slice_table" where
  "insertSymbol syms t fqn decl =
     (let shared = items_of (tb_store t) (layer_below (tb_layer t) fqn);
          (out, t) = writableSlice t fqn;
          xs = items (tb_store t) out
      in tb_set t fqn (slices_Insert (tb_store t) out (insert_pos syms shared xs decl (length xs)) decl))"

definition insertSorted :: "('k, 'e :: linorder) slice_table \<Rightarrow> 'k \<Rightarrow> 'e \<Rightarrow> ('k, 'e) slice_table" where
  "insertSorted t k s =
     (case ly_own (tb_layer t) k of
        Some owned \<Rightarrow>
          (let (i, found) = BinarySearch (items (tb_store t) owned) s
           in if found then t else tb_put_own t k (slices_Insert (tb_store t) owned i s))
      | None \<Rightarrow>
          (let have = items_of (tb_store t) (layer_below (tb_layer t) k); (i, found) = BinarySearch have s
           in if found then t
              else tb_set t k (new_array (tb_store t) (take i have @ s # drop i have) (length have + 1))))"

text \<open>The loop of \<open>mergeSorted\<close> and its two appends; the slice \<open>have\<close> itself is the answer where nothing is new.\<close>

fun merge_lists :: "'e :: linorder list \<Rightarrow> 'e list \<Rightarrow> 'e list" where
  "merge_lists (x # xs) (y # ys) =
     (if x < y then x # merge_lists xs (y # ys)
      else if x > y then y # merge_lists (x # xs) ys
      else x # merge_lists xs ys)"
| "merge_lists xs [] = xs"
| "merge_lists [] ys = ys"

definition mergeSorted :: "'e :: linorder list \<Rightarrow> 'e list \<Rightarrow> 'e list" where
  "mergeSorted have add =
     (let add = remdups_adj (sort add); out = merge_lists have add
      in if length out = length have then have else out)"

definition removeSorted :: "('k, 'e :: linorder) slice_table \<Rightarrow> 'k \<Rightarrow> 'e \<Rightarrow> 'e list \<times> ('k, 'e) slice_table" where
  "removeSorted t k s =
     (let have = tb_at t k; (i, found) = BinarySearch have s
      in if \<not> found then (have, t)
         else
           let (out, t) = writableSlice t k; r = slices_Delete (tb_store t) out i
           in (items (snd r) (fst r), tb_set t k r))"

section \<open>Marks\<close>

definition setMark :: "('k, nat) slice_table \<Rightarrow> 'k \<Rightarrow> nat \<Rightarrow> ('k, nat) slice_table" where
  "setMark marks fqn decl =
     (case ly_own (tb_layer marks) fqn of
        Some owned \<Rightarrow>
          (if decl \<in> set (items (tb_store marks) owned) then marks
           else tb_put_own marks fqn (go_append (tb_store marks) (Some owned) decl))
      | None \<Rightarrow>
          (let shared = items_of (tb_store marks) (layer_below (tb_layer marks) fqn)
           in if decl \<in> set shared then marks
              else
                let (out, st) = new_array (tb_store marks) shared (length shared + 1)
                in tb_set marks fqn (go_append st (Some out) decl)))"

definition index_in :: "'a \<Rightarrow> 'a list \<Rightarrow> nat option" where
  "index_in x xs = (if x \<in> set xs then Some (length (takeWhile (\<lambda>y. y \<noteq> x) xs)) else None)"

definition clearMark :: "('k, nat) slice_table \<Rightarrow> 'k \<Rightarrow> nat \<Rightarrow> ('k, nat) slice_table" where
  "clearMark marks fqn decl =
     (case index_in decl (tb_at marks fqn) of
        None \<Rightarrow> marks
      | Some i \<Rightarrow>
          (let (out, marks) = writableSlice marks fqn; at = slices_Delete (tb_store marks) out i
           in if items (snd at) (fst at) = [] then tb_del (marks\<lparr>tb_store := snd at\<rparr>) fqn
              else tb_set marks fqn at))"

section \<open>What the tables hold\<close>

text \<open>
  The slices lie in the store, those of two keys of the table's own in different arrays and none of
  them in an array of the table below.
\<close>

definition tb_ok :: "('k, 'e) slice_table \<Rightarrow> bool" where
  "tb_ok t =
     (let l = tb_layer t; st = tb_store t in
      layer_ok l \<and>
      (\<forall>k s. ly_own l k = Some s \<or> ly_base l k = Some s \<longrightarrow> slice_ok st s) \<and>
      (\<forall>k s k' s'. ly_own l k = Some s \<and> ly_own l k' = Some s' \<and> k \<noteq> k' \<longrightarrow> sl_array s \<noteq> sl_array s') \<and>
      (\<forall>k s k' s'. ly_own l k = Some s \<and> ly_base l k' = Some s' \<longrightarrow> sl_array s \<noteq> sl_array s'))"

text \<open>The table below, its slices and every cell of their arrays are as they were.\<close>

definition frozen_kept :: "('k, 'e) slice_table \<Rightarrow> ('k, 'e) slice_table \<Rightarrow> bool" where
  "frozen_kept t t' =
     (ly_base (tb_layer t') = ly_base (tb_layer t) \<and>
      (\<forall>k s. ly_base (tb_layer t) k = Some s \<longrightarrow>
         array_at (tb_store t') (sl_array s) = array_at (tb_store t) (sl_array s)))"

lemma frozen_kept_refl [simp]: "frozen_kept t t"
  by (simp add: frozen_kept_def)

lemma frozen_kept_trans: "frozen_kept t t' \<Longrightarrow> frozen_kept t' t'' \<Longrightarrow> frozen_kept t t''"
  by (simp add: frozen_kept_def)

lemma tb_at_get: "tb_at t k = (case tb_get t k of Some xs \<Rightarrow> xs | None \<Rightarrow> [])"
  by (simp add: tb_at_def tb_get_def items_of_def split: option.split)

definition own_arrays :: "('k, 'e) slice_table \<Rightarrow> 'k \<Rightarrow> nat set" where
  "own_arrays t k = (case ly_own (tb_layer t) k of None \<Rightarrow> {} | Some s \<Rightarrow> {sl_array s})"

lemma tb_okD:
  assumes "tb_ok t"
  shows "layer_ok (tb_layer t)" "ly_own (tb_layer t) k = Some s \<Longrightarrow> slice_ok (tb_store t) s"
    "ly_base (tb_layer t) k = Some s \<Longrightarrow> slice_ok (tb_store t) s"
    "ly_own (tb_layer t) k = Some s \<Longrightarrow> ly_own (tb_layer t) k' = Some s' \<Longrightarrow> k \<noteq> k' \<Longrightarrow> sl_array s \<noteq> sl_array s'"
    "ly_own (tb_layer t) k = Some s \<Longrightarrow> ly_base (tb_layer t) k' = Some s' \<Longrightarrow> sl_array s \<noteq> sl_array s'"
    "layer_get (tb_layer t) k = Some s \<Longrightarrow> slice_ok (tb_store t) s"
  using assms by (auto simp: tb_ok_def Let_def layer_get_def split: option.splits if_splits)

text \<open>A result that lies in the array of the key's own slice, or a new one, becomes the entry of the key.\<close>

lemma tb_set_ok:
  assumes t: "tb_ok t" and r: "result_ok (tb_store t) (own_arrays t k) xs r"
  shows "tb_ok (tb_set t k r)" "tb_get (tb_set t k r) = (tb_get t)(k \<mapsto> xs)" "frozen_kept t (tb_set t k r)"
proof -
  obtain s st where rs: "r = (s, st)" by (cases r)
  have x: "items st s = xs" "slice_ok st s" "arrays_kept (own_arrays t k) (tb_store t) st"
    "sl_array s \<in> own_arrays t k \<or> length (arrays (tb_store t)) \<le> sl_array s"
    using r by (simp_all add: result_ok_def rs)
  have free: "sl_array s' \<notin> own_arrays t k \<and> sl_array s' < length (arrays (tb_store t))"
    if c: "ly_own (tb_layer t) k' = Some s' \<and> k' \<noteq> k \<or> ly_base (tb_layer t) k' = Some s'" for k' s'
  proof -
    have "slice_ok (tb_store t) s'" using c tb_okD(2,3) [OF t, of k' s'] by blast
    moreover have "sl_array s' \<noteq> sl_array s''" if "ly_own (tb_layer t) k = Some s''" for s''
      using c tb_okD(4) [OF t, of k' s' k s''] tb_okD(5) [OF t, of k s'' k' s'] that by auto
    ultimately show ?thesis by (auto simp: own_arrays_def slice_ok_def split: option.split)
  qed
  then have diff: "sl_array s' \<noteq> sl_array s"
    if "ly_own (tb_layer t) k' = Some s' \<and> k' \<noteq> k \<or> ly_base (tb_layer t) k' = Some s'" for k' s'
    using that x(4) by fastforce
  have kept: "items st s' = items (tb_store t) s' \<and> slice_ok st s'"
    if "ly_own (tb_layer t) k' = Some s' \<and> k' \<noteq> k \<or> ly_base (tb_layer t) k' = Some s'" for k' s'
    by (rule kept_items [OF x(3)]) (use that free tb_okD(2,3) [OF t] in blast)+
  show "frozen_kept t (tb_set t k r)"
    using x(3) free by (auto simp: frozen_kept_def tb_set_def rs arrays_kept_def)
  show "tb_get (tb_set t k r) = (tb_get t)(k \<mapsto> xs)"
  proof
    fix k'
    show "tb_get (tb_set t k r) k' = ((tb_get t)(k \<mapsto> xs)) k'"
    proof (cases "k' = k")
      case False
      then show ?thesis
        using kept [of k'] by (cases "ly_base (tb_layer t) k'") (auto simp: tb_get_def tb_set_def rs layer_get_set layer_get_def split: option.split)
    qed (simp add: tb_get_def tb_set_def rs layer_get_set x)
  qed
  show "tb_ok (tb_set t k r)"
    unfolding tb_ok_def Let_def
  proof (intro conjI allI impI)
    fix k1 s1 k2 s2
    let ?l = "tb_layer (tb_set t k r)" and ?st = "tb_store (tb_set t k r)"
    show "layer_ok ?l" using layer_set_ok tb_okD(1) [OF t] by (simp add: tb_set_def)
    show "slice_ok ?st s1" if "ly_own ?l k1 = Some s1 \<or> ly_base ?l k1 = Some s1"
      using that kept [of k1 s1] x(2) by (auto simp: tb_set_def rs split: if_splits)
    show "sl_array s1 \<noteq> sl_array s2" if "ly_own ?l k1 = Some s1 \<and> ly_own ?l k2 = Some s2 \<and> k1 \<noteq> k2"
      using that diff [of k1 s1] diff [of k2 s2] tb_okD(4) [OF t, of k1 s1 k2 s2] by (auto simp: tb_set_def rs split: if_splits)
    show "sl_array s1 \<noteq> sl_array s2" if "ly_own ?l k1 = Some s1 \<and> ly_base ?l k2 = Some s2"
      using that diff [of k2 s2] tb_okD(5) [OF t, of k1 s1 k2 s2] by (auto simp: tb_set_def rs split: if_splits)
  qed
qed


lemma tb_put_own_eq: "tb_ok t \<Longrightarrow> ly_own (tb_layer t) k \<noteq> None \<Longrightarrow> tb_put_own t k r = tb_set t k r"
proof -
  assume "tb_ok t" "ly_own (tb_layer t) k \<noteq> None"
  then have "k \<notin> ly_dead (tb_layer t)" using tb_okD(1) [of t] by (auto simp: layer_ok_def)
  then have "ly_dead (tb_layer t) - {k} = ly_dead (tb_layer t)" by simp
  then show ?thesis by (cases "tb_layer t") (simp add: tb_put_own_def tb_set_def layer_set_def bump_def)
qed

lemma tb_bump: "tb_get (t\<lparr>tb_layer := bump (tb_layer t)\<rparr>) = tb_get t" "tb_ok (t\<lparr>tb_layer := bump (tb_layer t)\<rparr>) = tb_ok t"
  "frozen_kept t (t\<lparr>tb_layer := bump (tb_layer t)\<rparr>)"
  by (simp_all add: tb_get_def tb_ok_def frozen_kept_def fun_eq_iff Let_def)

lemma tb_del_ok:
  assumes "tb_ok t"
  shows "tb_ok (tb_del t k)" "tb_get (tb_del t k) = (tb_get t)(k := None)" "frozen_kept t (tb_del t k)"
  using assms layer_del_ok [of "tb_layer t" k]
  by (auto simp: tb_ok_def tb_del_def Let_def tb_get_def fun_eq_iff layer_get_del frozen_kept_def split: if_splits)

lemma tb_own_get: "ly_own (tb_layer t) k = Some s \<Longrightarrow> tb_get t k = Some (items (tb_store t) s)" 
  "ly_own (tb_layer t) k = Some s \<Longrightarrow> tb_at t k = items (tb_store t) s"
  by (simp_all add: tb_get_def tb_at_def layer_get_def items_of_def)

lemma tb_below_at: "ly_own (tb_layer t) k = None \<Longrightarrow> items_of (tb_store t) (layer_below (tb_layer t) k) = tb_at t k"
  by (simp add: tb_at_def layer_below_get)

section \<open>What the writes do\<close>

text \<open>\<open>t'\<close> is a well-formed table that holds \<open>m\<close> and shares the frozen table of \<open>t\<close>, as it was.\<close>

definition wrote :: "('k, 'e) slice_table \<Rightarrow> ('k \<Rightarrow> 'e list option) \<Rightarrow> ('k, 'e) slice_table \<Rightarrow> bool" where
  "wrote t m t' = (tb_ok t' \<and> tb_get t' = m \<and> frozen_kept t t')"

lemma wrote_refl: "tb_ok t \<Longrightarrow> wrote t (tb_get t) t"
  by (simp add: wrote_def)

lemma wrote_trans: "wrote t m t' \<Longrightarrow> wrote t' m' t'' \<Longrightarrow> wrote t m' t''"
  by (auto simp: wrote_def intro: frozen_kept_trans)

lemma wrote_set: "tb_ok t \<Longrightarrow> result_ok (tb_store t) (own_arrays t k) xs r \<Longrightarrow> wrote t ((tb_get t)(k \<mapsto> xs)) (tb_set t k r)"
  by (simp add: wrote_def tb_set_ok)

lemma wrote_del: "tb_ok t \<Longrightarrow> wrote t ((tb_get t)(k := None)) (tb_del t k)"
  by (simp add: wrote_def tb_del_ok)

lemma own_array: "ly_own (tb_layer t) k = Some s \<Longrightarrow> own_arrays t k = {sl_array s}"
  by (simp add: own_arrays_def)

lemma writableSlice_ok:
  assumes "tb_ok t" "writableSlice t k = (s, t')"
  shows "ly_own (tb_layer t') k = Some s" "items (tb_store t') s = tb_at t k" "slice_ok (tb_store t') s"
    "wrote t ((tb_get t)(k \<mapsto> tb_at t k)) t'"
proof -
  have "ly_own (tb_layer t') k = Some s \<and> items (tb_store t') s = tb_at t k \<and> wrote t ((tb_get t)(k \<mapsto> tb_at t k)) t'"
  proof (cases "ly_own (tb_layer t) k")
    case None
    let ?r = "new_array (tb_store t) (tb_at t k) (length (tb_at t k) + 1)"
    have e: "s = fst ?r" "t' = tb_set t k ?r" using assms(2) None by (simp_all add: writableSlice_def Let_def tb_below_at)
    have r: "result_ok (tb_store t) (own_arrays t k) (tb_at t k) ?r" by (rule new_array_ok)
    then have "items (snd ?r) (fst ?r) = tb_at t k" by (simp add: result_ok_def)
    then show ?thesis using wrote_set [OF assms(1) r] by (simp add: e tb_set_def)
  next
    case (Some o')
    then have "s = o'" "t' = t\<lparr>tb_layer := bump (tb_layer t)\<rparr>" using assms(2) by (simp_all add: writableSlice_def)
    then show ?thesis using Some assms(1) tb_bump [of t] by (auto simp: wrote_def tb_own_get)
  qed
  then show "ly_own (tb_layer t') k = Some s" "items (tb_store t') s = tb_at t k" "wrote t ((tb_get t)(k \<mapsto> tb_at t k)) t'" by auto
  then show "slice_ok (tb_store t') s" using tb_okD(2) [of t' k s] by (simp add: wrote_def)
qed

text \<open>Writing to the slice \<open>writableSlice\<close> gives and making the result the entry.\<close>

lemma writable_set:
  assumes "tb_ok t" "writableSlice t k = (s, t')" "result_ok (tb_store t') {sl_array s} xs r"
  shows "wrote t ((tb_get t)(k \<mapsto> xs)) (tb_set t' k r)"
proof -
  note w = writableSlice_ok [OF assms(1,2)]
  have "result_ok (tb_store t') (own_arrays t' k) xs r" using assms(3) own_array [OF w(1)] by simp
  then have "wrote t' ((tb_get t')(k \<mapsto> xs)) (tb_set t' k r)" by (rule wrote_set [rotated]) (use w(4) in \<open>simp add: wrote_def\<close>)
  then show ?thesis using wrote_trans [OF w(4)] w(4) by (simp add: wrote_def)
qed

text \<open>Copying a slice that is not the table's own and appending to the copy.\<close>

lemma copied_append_ok:
  assumes "new_array st xs capacity = (out, st')"
  shows "result_ok st A (xs @ [e]) (go_append st' (Some out) e)"
proof -
  have n: "result_ok st A xs (out, st')" using new_array_ok [of st A xs capacity] assms by simp
  have o': "sl_array out = length (arrays st)" using assms by (auto simp: new_array_def)
  then have "result_ok st' {sl_array out} (xs @ [e]) (go_append st' (Some out) e)"
    using go_append_ok(2) [of st' out e] n by (simp add: result_ok_def)
  then show ?thesis
    using n o' arrays_kept_trans [of A st st' "{sl_array out}" "snd (go_append st' (Some out) e)"]
    by (auto simp: result_ok_def arrays_kept_def)
qed

lemma own_append:
  assumes "tb_ok t" "ly_own (tb_layer t) k = Some s"
  shows "wrote t ((tb_get t)(k \<mapsto> tb_at t k @ [e])) (tb_put_own t k (go_append (tb_store t) (Some s) e))"
  using wrote_set [OF assms(1), of k] go_append_ok(2) [of "tb_store t" s e] tb_okD(2) [OF assms] own_array [OF assms(2)]
    tb_put_own_eq [OF assms(1)] tb_own_get(2) [OF assms(2)] assms(2) by simp

lemma copy_append:
  assumes "tb_ok t" "new_array (tb_store t) (tb_at t k) n = (out, st)"
  shows "wrote t ((tb_get t)(k \<mapsto> tb_at t k @ [e])) (tb_set t k (go_append st (Some out) e))"
  by (rule wrote_set [OF assms(1) copied_append_ok [OF assms(2)]])

lemma appendSlice_ok:
  assumes "tb_ok t" shows "wrote t ((tb_get t)(k \<mapsto> tb_at t k @ [e])) (appendSlice t k e)"
  using own_append [OF assms] copy_append [OF assms] tb_below_at [of t k]
  by (auto simp: appendSlice_def Let_def split: option.split prod.split)

lemma setMark_ok:
  assumes "tb_ok t"
  shows "wrote t (if decl \<in> set (tb_at t k) then tb_get t else (tb_get t)(k \<mapsto> tb_at t k @ [decl])) (setMark t k decl)"
proof (cases "ly_own (tb_layer t) k")
  case None
  then show ?thesis
    using copy_append [OF assms, of k] tb_below_at [of t k] wrote_refl [OF assms] by (simp add: setMark_def Let_def split: prod.split)
next
  case (Some s)
  then show ?thesis
    using own_append [OF assms Some, of decl] wrote_refl [OF assms] by (simp add: setMark_def tb_own_get(2) [OF Some])
qed

lemma tb_gen: "tb_ok (t\<lparr>tb_layer := (tb_layer t)\<lparr>ly_gen := g\<rparr>\<rparr>) = tb_ok t"
  "tb_get (t\<lparr>tb_layer := (tb_layer t)\<lparr>ly_gen := g\<rparr>\<rparr>) = tb_get t"
  "frozen_kept t (t\<lparr>tb_layer := (tb_layer t)\<lparr>ly_gen := g\<rparr>\<rparr>)"
  by (simp_all add: tb_ok_def Let_def tb_get_def frozen_kept_def layer_ok_def layer_get_def fun_eq_iff split: option.split)

text \<open>Writing to the slice \<open>writableSlice\<close> gives and deleting the entry.\<close>

lemma writable_del:
  assumes "tb_ok t" "writableSlice t k = (s, t')" "result_ok (tb_store t') {sl_array s} xs r"
  shows "wrote t ((tb_get t)(k := None)) (tb_del (t'\<lparr>tb_store := snd r\<rparr>) k)"
proof -
  have set: "wrote t ((tb_get t)(k \<mapsto> xs)) (tb_set t' k r)" by (rule writable_set [OF assms])
  then have del: "wrote t ((tb_get t)(k := None)) (tb_del (tb_set t' k r) k)"
    using wrote_trans [OF set wrote_del [of "tb_set t' k r" k]] by (simp add: wrote_def)
  have "tb_ok t'" using writableSlice_ok(4) [OF assms(1,2)] by (simp add: wrote_def)
  then have "ly_dead (tb_layer t') - {k} = ly_dead (tb_layer t')"
    using writableSlice_ok(1) [OF assms(1,2)] tb_okD(1) [of t'] by (auto simp: layer_ok_def)
  then have "\<exists>g. tb_del (t'\<lparr>tb_store := snd r\<rparr>) k = (tb_del (tb_set t' k r) k)\<lparr>tb_layer := (tb_layer (tb_del (tb_set t' k r) k))\<lparr>ly_gen := g\<rparr>\<rparr>"
    by (cases t'; cases "tb_layer t'") (auto simp: tb_del_def tb_set_def layer_del_def layer_set_def bump_def)
  then obtain g where g: "tb_del (t'\<lparr>tb_store := snd r\<rparr>) k =
      (tb_del (tb_set t' k r) k)\<lparr>tb_layer := (tb_layer (tb_del (tb_set t' k r) k))\<lparr>ly_gen := g\<rparr>\<rparr>" by blast
  show ?thesis unfolding g using del tb_gen [where t = "tb_del (tb_set t' k r) k" and g = g] frozen_kept_trans by (auto simp: wrote_def)
qed

lemma index_in_less: "index_in x xs = Some i \<Longrightarrow> i < length xs \<and> xs ! i = x"
  by (induction xs arbitrary: i) (auto simp: index_in_def split: if_splits)

lemma clearMark_ok:
  assumes "tb_ok t"
  shows "wrote t
    (case index_in decl (tb_at t k) of
       None \<Rightarrow> tb_get t
     | Some i \<Rightarrow> (tb_get t)(k := (if without_at i (tb_at t k) = [] then None else Some (without_at i (tb_at t k)))))
    (clearMark t k decl)"
proof (cases "index_in decl (tb_at t k)")
  case None
  then show ?thesis using wrote_refl [OF assms] by (simp add: clearMark_def)
next
  case (Some i)
  obtain s t' where w: "writableSlice t k = (s, t')" by force
  note v = writableSlice_ok [OF assms w]
  let ?r = "slices_Delete (tb_store t') s i"
  have i: "i < length (tb_at t k)" using index_in_less [OF Some] by simp
  then have r: "result_ok (tb_store t') {sl_array s} (without_at i (tb_at t k)) ?r"
    using cut_out_ok(2) [OF v(3)] length_items [OF v(3)] v(2) by simp
  then have x: "items (snd ?r) (fst ?r) = without_at i (tb_at t k)" by (simp add: result_ok_def)
  show ?thesis
    using writable_set [OF assms w r] writable_del [OF assms w r] Some x w by (simp add: clearMark_def)
qed

section \<open>Sorted entries\<close>

definition insert_at :: "nat \<Rightarrow> 'a \<Rightarrow> 'a list \<Rightarrow> 'a list" where
  "insert_at i x xs = take i xs @ x # drop i xs"

lemma insertSorted_ok:
  assumes "tb_ok t" "strictly_sorted (tb_at t k)"
  shows "\<exists>ys. strictly_sorted ys \<and> set ys = insert s (set (tb_at t k)) \<and>
    wrote t (if s \<in> set (tb_at t k) then tb_get t else (tb_get t)(k \<mapsto> ys)) (insertSorted t k s)"
proof -
  obtain i found where b: "BinarySearch (tb_at t k) s = (i, found)" by force
  note f = BinarySearch_ok [OF assms(2) b]
  show ?thesis
  proof (cases found)
    case True
    then have "insertSorted t k s = t"
      using b tb_below_at [of t k] tb_own_get(2) [of t k] by (auto simp: insertSorted_def Let_def split: option.split)
    moreover have "s \<in> set (tb_at t k)" using True f(4) by simp
    ultimately show ?thesis using wrote_refl [OF assms(1)] assms(2) by (intro exI [of _ "tb_at t k"]) (simp add: insert_absorb)
  next
    case False
    let ?ys = "insert_at i s (tb_at t k)"
    have b': "BinarySearch (tb_at t k) s = (i, False)" using b False by simp
    have "wrote t ((tb_get t)(k \<mapsto> ?ys)) (insertSorted t k s)"
    proof (cases "ly_own (tb_layer t) k")
      case None
      then show ?thesis
        using b' wrote_set [OF assms(1) new_array_ok] tb_below_at [OF None] by (simp add: insertSorted_def Let_def insert_at_def)
    next
      case (Some owned)
      have ok: "slice_ok (tb_store t) owned" by (rule tb_okD(2) [OF assms(1) Some])
      have "result_ok (tb_store t) (own_arrays t k) ?ys (slices_Insert (tb_store t) owned i s)"
        using slices_Insert_ok [OF ok, of i s] length_items [OF ok] f(1) by (simp add: own_array [OF Some] insert_at_def tb_own_get(2) [OF Some])
      then have "wrote t ((tb_get t)(k \<mapsto> ?ys)) (tb_put_own t k (slices_Insert (tb_store t) owned i s))"
        using wrote_set [OF assms(1)] tb_put_own_eq [OF assms(1)] Some by simp
      then show ?thesis using b' Some by (simp add: insertSorted_def tb_own_get(2) [OF Some] insert_at_def)
    qed
    then show ?thesis
      using insert_sorted [OF assms(2) b'] f(4) False by (intro exI [of _ ?ys]) (simp add: insert_at_def)
  qed
qed

lemma removeSorted_ok:
  assumes "tb_ok t" "strictly_sorted (tb_at t k)" "removeSorted t k s = (rest, t')"
  shows "strictly_sorted rest" "set rest = set (tb_at t k) - {s}"
    "wrote t (if s \<in> set (tb_at t k) then (tb_get t)(k \<mapsto> rest) else tb_get t) t'"
proof -
  obtain i found where b: "BinarySearch (tb_at t k) s = (i, found)" by force
  note f = BinarySearch_ok [OF assms(2) b]
  have "strictly_sorted rest \<and> set rest = set (tb_at t k) - {s} \<and>
    wrote t (if s \<in> set (tb_at t k) then (tb_get t)(k \<mapsto> rest) else tb_get t) t'"
  proof (cases found)
    case False
    then have "rest = tb_at t k" "t' = t" using assms(3) b False by (auto simp: removeSorted_def Let_def)
    then show ?thesis using False f(4) assms(2) wrote_refl [OF assms(1)] by simp
  next
    case True
    obtain out t2 where w: "writableSlice t k = (out, t2)" by force
    note v = writableSlice_ok [OF assms(1) w]
    let ?r = "slices_Delete (tb_store t2) out i"
    note d = delete_sorted [OF assms(2) b [unfolded True[THEN eq_True[THEN iffD2]]]]
    have r: "result_ok (tb_store t2) {sl_array out} (without_at i (tb_at t k)) ?r"
      using cut_out_ok(2) [OF v(3)] length_items [OF v(3)] v(2) d(1) by simp
    then have x: "items (snd ?r) (fst ?r) = without_at i (tb_at t k)" by (simp add: result_ok_def)
    have "rest = without_at i (tb_at t k)" "t' = tb_set t2 k ?r"
      using assms(3) b True w x by (auto simp: removeSorted_def Let_def)
    then show ?thesis using d writable_set [OF assms(1) w r] True f(4) by simp
  qed
  then show "strictly_sorted rest" "set rest = set (tb_at t k) - {s}"
    "wrote t (if s \<in> set (tb_at t k) then (tb_get t)(k \<mapsto> rest) else tb_get t) t'" by auto
qed

lemma merge_lists_set: "set (merge_lists xs ys) = set xs \<union> set ys"
  by (induction xs ys rule: merge_lists.induct) auto

lemma merge_lists_sorted: "strictly_sorted xs \<Longrightarrow> strictly_sorted ys \<Longrightarrow> strictly_sorted (merge_lists xs ys)"
proof (induction xs ys rule: merge_lists.induct)
  case (1 x xs y ys)
  then show ?case by (auto simp: strictly_sorted_def merge_lists_set)
qed simp_all

lemma strictly_sorted_distinct: "strictly_sorted xs \<Longrightarrow> distinct xs"
  unfolding strictly_sorted_def by (induction xs) auto

lemma strictly_sorted_unique: "strictly_sorted xs \<Longrightarrow> strictly_sorted ys \<Longrightarrow> set xs = set ys \<Longrightarrow> xs = ys"
  unfolding strictly_sorted_def by (simp add: strict_sorted_equal)

lemma distinct_remdups_adj_sorted:
  fixes xs :: "'e :: linorder list"
  shows "sorted xs \<Longrightarrow> distinct (remdups_adj xs)"
  by (induction xs rule: remdups_adj.induct) (auto simp: less_le)

lemma mergeSorted_ok:
  assumes "strictly_sorted have"
  shows "strictly_sorted (mergeSorted have add)" "set (mergeSorted have add) = set have \<union> set add"
    "length (mergeSorted have add) = length have \<Longrightarrow> mergeSorted have add = have"
proof -
  let ?add = "remdups_adj (sort add)"
  have a: "strictly_sorted ?add" unfolding strictly_sorted_def by (simp add: strict_sorted_iff distinct_remdups_adj_sorted)
  have m: "strictly_sorted (merge_lists have ?add)" "set (merge_lists have ?add) = set have \<union> set add"
    using merge_lists_sorted [OF assms a] by (simp_all add: merge_lists_set)
  have same: "merge_lists have ?add = have" if "length (merge_lists have ?add) = length have"
  proof (rule strictly_sorted_unique [OF m(1) assms])
    have "card (set (merge_lists have ?add)) = card (set have)"
      using that m(1) assms by (simp add: distinct_card strictly_sorted_distinct)
    then show "set (merge_lists have ?add) = set have" using m(2) by (metis List.finite_set Un_upper1 card_subset_eq)
  qed
  have e: "mergeSorted have add = merge_lists have ?add" using same by (auto simp: mergeSorted_def Let_def)
  show "strictly_sorted (mergeSorted have add)" "set (mergeSorted have add) = set have \<union> set add" using m by (simp_all add: e)
  show "length (mergeSorted have add) = length have \<Longrightarrow> mergeSorted have add = have"
    by (simp add: mergeSorted_def Let_def split: if_splits)
qed

section \<open>Symbols in declaration order\<close>

lemma insert_pos_le: "insert_pos syms shared xs decl i \<le> i"
  by (induction i) auto

lemma insertSymbol_ok:
  assumes "tb_ok t"
  shows "wrote t ((tb_get t)(k \<mapsto>
      insert_at (insert_pos syms (items_of (tb_store t) (layer_below (tb_layer t) k)) (tb_at t k) decl (length (tb_at t k))) decl (tb_at t k)))
    (insertSymbol syms t k decl)"
proof -
  obtain out t' where w: "writableSlice t k = (out, t')" by force
  note v = writableSlice_ok [OF assms w]
  let ?i = "insert_pos syms (items_of (tb_store t) (layer_below (tb_layer t) k)) (tb_at t k) decl (length (tb_at t k))"
  have "result_ok (tb_store t') {sl_array out} (insert_at ?i decl (tb_at t k)) (slices_Insert (tb_store t') out ?i decl)"
    using slices_Insert_ok [OF v(3), of ?i decl] insert_pos_le [of syms _ "tb_at t k" decl "length (tb_at t k)"]
      length_items [OF v(3)] v(2) by (simp add: insert_at_def)
  then show ?thesis using writable_set [OF assms w] w v(2) by (simp add: insertSymbol_def Let_def)
qed

text \<open>The symbols of the frozen table come first, in the order it has them, then the others in declaration order.\<close>

definition in_declaration_order :: "(nat \<Rightarrow> Symbol) \<Rightarrow> nat list \<Rightarrow> bool" where
  "in_declaration_order syms xs = sorted_wrt (\<lambda>a b. \<not> declaredAfter (syms a) (syms b)) xs"

lemma declaredAfter_linear:
  "\<not> declaredAfter a b \<Longrightarrow> \<not> declaredAfter b c \<Longrightarrow> \<not> declaredAfter a c"
  "declaredAfter a b \<Longrightarrow> \<not> declaredAfter b a"
  "declaredAfter a b \<or> declaredAfter b a \<or> sy_DocName a = sy_DocName b \<and> sy_Offset a = sy_Offset b"
  unfolding declaredAfter_def by (auto split: if_splits)

lemma insert_pos_stop:
  "insert_pos syms shared xs decl i = length shared \<or> insert_pos syms shared xs decl i > length shared"
  if "take (length shared) xs = shared" "length shared \<le> i" "i \<le> length xs"
  using that(2,3)
proof (induction i)
  case (Suc j)
  show ?case
  proof (cases "j < length shared")
    case True
    then have "shared ! j = xs ! j" using that(1) by (metis nth_take)
    then show ?thesis using True Suc.prems by simp
  qed (use Suc in auto)
qed simp

lemma insert_pos_before:
  "insert_pos syms shared xs decl i \<le> k \<Longrightarrow> k < i \<Longrightarrow> declaredAfter (syms (xs ! k)) (syms decl)"
  by (induction i) (auto simp: less_Suc_eq split: if_splits)

lemma insert_pos_after:
  "insert_pos syms shared xs decl i = Suc j \<Longrightarrow> (j < length shared \<and> shared ! j = xs ! j) \<or> \<not> declaredAfter (syms (xs ! j)) (syms decl)"
  by (induction i) (auto split: if_splits)

lemma insert_in_order:
  assumes "xs = shared @ own" "in_declaration_order syms own"
  shows "\<exists>own'. insert_at (insert_pos syms shared xs decl (length xs)) decl xs = shared @ own' \<and>
    in_declaration_order syms own' \<and> mset own' = add_mset decl (mset own)"
proof -
  let ?i = "insert_pos syms shared xs decl (length xs)"
  define j where "j = ?i - length shared"
  have i: "length shared \<le> ?i" "?i \<le> length xs"
    using insert_pos_stop [of shared xs "length xs" syms decl] insert_pos_le [of syms shared xs decl "length xs"] by (auto simp: assms(1))
  have e: "insert_at ?i decl xs = shared @ insert_at j decl own" using i by (simp add: insert_at_def assms(1) j_def)
  have s: "sorted_wrt (\<lambda>a b. \<not> declaredAfter (syms a) (syms b)) (take j own @ drop j own)"
    using assms(2) by (simp add: in_declaration_order_def)
  have after: "\<not> declaredAfter (syms decl) (syms x)" if x: "x \<in> set (drop j own)" for x
  proof -
    obtain m where m: "m < length (drop j own)" "x = drop j own ! m" using x by (metis in_set_conv_nth)
    have "declaredAfter (syms (xs ! (?i + m))) (syms decl)"
      by (rule insert_pos_before [where i = "length xs" and shared = shared]) (use m i in \<open>auto simp: assms(1) j_def\<close>)
    moreover have "xs ! (?i + m) = x" using m i by (simp add: assms(1) j_def nth_append)
    ultimately show ?thesis using declaredAfter_linear(2) by blast
  qed
  have before: "\<not> declaredAfter (syms x) (syms decl)" if x: "x \<in> set (take j own)" for x
  proof (cases j)
    case (Suc n)
    have n: "n < length own" using Suc i by (simp add: j_def assms(1))
    have "?i = Suc (length shared + n)" using Suc i by (simp add: j_def)
    then have last: "\<not> declaredAfter (syms (own ! n)) (syms decl)"
      using insert_pos_after [of syms shared xs decl "length xs" "length shared + n"] by (simp add: assms(1))
    obtain m where m: "m < j" "x = own ! m" using x n Suc by (auto simp: in_set_conv_nth)
    have "m = n \<or> \<not> declaredAfter (syms (own ! m)) (syms (own ! n))"
      using m Suc n sorted_wrt_nth_less [OF assms(2) [unfolded in_declaration_order_def], of m n] by auto
    then show ?thesis using last m declaredAfter_linear(1) by auto
  qed (use x in simp)
  have "in_declaration_order syms (insert_at j decl own)"
    using s after before declaredAfter_linear(1) [OF before after]
    unfolding in_declaration_order_def insert_at_def sorted_wrt_append by auto
  moreover have "mset (insert_at j decl own) = add_mset decl (mset own)"
    by (simp add: insert_at_def) (metis append_take_drop_id mset_append union_commute)
  ultimately show ?thesis using e by blast
qed

end
