(* ===== verification/Symbol_Index.thy ===== *)
theory Symbol_Index
  imports Index_Slices
begin

text \<open>
  The symbol index's tables of names (\<open>internal/semantic/symbols/index.go\<close>, with the change log of
  \<open>changes.go\<close>): registering a symbol under a qualified name and taking it off again, the keys under
  each namespace and under each last segment that follow, and looking a name up.

  Parameters: \<open>range_order\<close>, the order in which Go ranges over a map; what a filter condition is
  (\<open>ElementFilter\<close>, compared by \<open>Same\<close>, here equality of the parameter type). The recorder of what is
  read (\<open>readName\<close> and its like) only watches; it is left out, as are the tables of documents.
\<close>

section \<open>Qualified names\<close>

text \<open>\<open>lastSeparator\<close>, its \<open>-1\<close> as \<open>None\<close>: the loop from \<open>i\<close> down.\<close>

fun separator_from :: "string \<Rightarrow> nat \<Rightarrow> nat option" where
  "separator_from fqn 0 = None"
| "separator_from fqn (Suc i) =
     (if fqn ! i = CHR '':'' \<and> fqn ! (i + 1) = CHR '':'' then Some i else separator_from fqn i)"

definition lastSeparator :: "string \<Rightarrow> nat option" where
  "lastSeparator fqn = separator_from fqn (length fqn - 1)"

definition splitFQN :: "string \<Rightarrow> string \<times> string" where
  "splitFQN fqn = (case lastSeparator fqn of None \<Rightarrow> ([], fqn) | Some i \<Rightarrow> (take i fqn, drop (i + 2) fqn))"

definition joinFQN :: "string \<Rightarrow> string \<Rightarrow> string" where
  "joinFQN prefix name = (if prefix = [] then name else prefix @ ''::'' @ name)"

definition namespaceOf :: "string \<Rightarrow> string" where
  "namespaceOf fqn = (case lastSeparator fqn of None \<Rightarrow> [] | Some i \<Rightarrow> take i fqn)"

definition withinNamespace :: "string \<Rightarrow> string \<Rightarrow> bool" where
  "withinNamespace fromFQN ns =
     (if fromFQN = [] then False
      else if ns = [] then False
      else if fromFQN = ns then True
      else length fromFQN > length ns + 2 \<and> take (length ns) fromFQN = ns \<and> take 2 (drop (length ns) fromFQN) = ''::'')"

section \<open>The index\<close>

record nsChange =
  gained :: bool
  lost :: bool

record Changes =
  ch_Names :: "string set"
  ch_Namespaces :: "string set"
  ch_Docs :: "string set"
  ch_Spellings :: bool

record 'f gateRoute =
  gr_private :: bool
  gr_filters :: "'f list"

record 'f reexportClaim =
  cl_public :: bool
  cl_routes :: "'f gateRoute list"

text \<open>The claims on a key, by document. A claims map is never written once it is installed, so it is a value.\<close>

type_synonym reexportKey = "string \<times> nat"
type_synonym 'f claims = "string \<rightharpoonup> 'f reexportClaim"

record 'f registeredSymbol =
  rg_sym :: nat
  rg_reexported :: bool
  rg_hidden :: bool
  rg_claims :: "'f claims"

type_synonym 'f registration = "'f registeredSymbol list"

record 'f index =
  ix_frozen :: bool
  ix_over :: bool
  ix_fqn :: "(string, nat) slice_table"
  ix_reexported :: "(string, nat) slice_table"
  ix_hidden :: "(string, nat) slice_table"
  ix_reexportDocs :: "(reexportKey, 'f claims) layer"
  ix_docReexports :: "(string, reexportKey \<rightharpoonup> bool) layer"
  ix_children :: "(string, string) slice_table"
  ix_bySegment :: "(string, string) slice_table"
  ix_pending :: "string \<rightharpoonup> string list"
  ix_dirtyNS :: "string \<rightharpoonup> nsChange"
  ix_changes :: "Changes option"
  ix_before :: "string \<rightharpoonup> 'f registration"

definition NewIndex :: "(nat \<Rightarrow> nat) \<Rightarrow> 'f index" where
  "NewIndex growth =
     \<lparr>ix_frozen = False, ix_over = False, ix_fqn = newTable 0 growth, ix_reexported = newTable 0 growth, ix_hidden = newTable 0 growth,
      ix_reexportDocs = newLayer, ix_docReexports = newLayer, ix_children = newTable [] growth, ix_bySegment = newTable [] growth,
      ix_pending = Map.empty, ix_dirtyNS = Map.empty, ix_changes = None, ix_before = Map.empty\<rparr>"

text \<open>\<open>NewOverlay\<close>, which panics (\<open>None\<close>) over an index that is not frozen, and over an overlay.\<close>

definition NewOverlay :: "'f index \<Rightarrow> 'f index option" where
  "NewOverlay base =
     (if \<not> ix_frozen base \<or> ix_over base then None
      else Some
        \<lparr>ix_frozen = False, ix_over = True, ix_fqn = overTable (ix_fqn base), ix_reexported = overTable (ix_reexported base),
         ix_hidden = overTable (ix_hidden base), ix_reexportDocs = overLayer (ix_reexportDocs base),
         ix_docReexports = overLayer (ix_docReexports base),
         ix_children = overTable (ix_children base), ix_bySegment = overTable (ix_bySegment base),
         ix_pending = Map.empty, ix_dirtyNS = Map.empty, ix_changes = None, ix_before = Map.empty\<rparr>)"

section \<open>changes.go: what a run of writes changed\<close>

definition TrackChanges :: "'f index \<Rightarrow> 'f index" where
  "TrackChanges idx =
     (if ix_changes idx = None
      then idx\<lparr>ix_changes := Some \<lparr>ch_Names = {}, ch_Namespaces = {}, ch_Docs = {}, ch_Spellings = False\<rparr>\<rparr> else idx)"

definition registrationOf :: "'f index \<Rightarrow> string \<Rightarrow> 'f registration" where
  "registrationOf idx fqn =
     map (\<lambda>s. \<lparr>rg_sym = s, rg_reexported = s \<in> set (tb_at (ix_reexported idx) fqn),
               rg_hidden = s \<in> set (tb_at (ix_hidden idx) fqn), rg_claims = layer_at Map.empty (ix_reexportDocs idx) (fqn, s)\<rparr>)
       (tb_at (ix_fqn idx) fqn)"

definition noteBefore :: "string \<Rightarrow> 'f index \<Rightarrow> 'f index" where
  "noteBefore fqn idx =
     (if ix_changes idx = None then idx
      else if ix_before idx fqn \<noteq> None then idx
      else idx\<lparr>ix_before := (ix_before idx)(fqn \<mapsto> registrationOf idx fqn)\<rparr>)"

definition changedName :: "string \<Rightarrow> 'f index \<Rightarrow> 'f index" where
  "changedName fqn idx =
     (case ix_changes idx of
        None \<Rightarrow> idx
      | Some c \<Rightarrow>
          idx\<lparr>ix_changes := Some (c\<lparr>ch_Names := insert fqn (ch_Names c),
                                  ch_Namespaces := insert (fst (splitFQN fqn)) (ch_Namespaces c)\<rparr>)\<rparr>)"

section \<open>Registering and deregistering\<close>

definition mark_of :: "'f index \<Rightarrow> string \<Rightarrow> nsChange" where
  "mark_of idx ns = (case ix_dirtyNS idx ns of Some c \<Rightarrow> c | None \<Rightarrow> \<lparr>gained = False, lost = False\<rparr>)"

definition markGained :: "string \<Rightarrow> 'f index \<Rightarrow> 'f index" where
  "markGained ns idx = idx\<lparr>ix_dirtyNS := (ix_dirtyNS idx)(ns \<mapsto> (mark_of idx ns)\<lparr>gained := True\<rparr>)\<rparr>"

definition markLost :: "string \<Rightarrow> 'f index \<Rightarrow> 'f index" where
  "markLost ns idx = idx\<lparr>ix_dirtyNS := (ix_dirtyNS idx)(ns \<mapsto> (mark_of idx ns)\<lparr>lost := True\<rparr>)\<rparr>"

definition link :: "(nat \<Rightarrow> Symbol) \<Rightarrow> string \<Rightarrow> nat \<Rightarrow> 'f index \<Rightarrow> 'f index" where
  "link syms fqn s idx =
     (let idx = noteBefore fqn idx;
          idx = idx\<lparr>ix_fqn := (if ix_over idx then insertSymbol syms (ix_fqn idx) fqn s else appendSlice (ix_fqn idx) fqn s)\<rparr>;
          idx = changedName fqn idx;
          (parent, name) = splitFQN fqn;
          idx = idx\<lparr>ix_children := insertSorted (ix_children idx) parent fqn\<rparr>
      in if parent \<noteq> []
         then idx\<lparr>ix_pending := (ix_pending idx)(name \<mapsto> (case ix_pending idx name of Some xs \<Rightarrow> xs | None \<Rightarrow> []) @ [fqn])\<rparr>
         else idx)"

definition register :: "(nat \<Rightarrow> Symbol) \<Rightarrow> string \<Rightarrow> nat \<Rightarrow> 'f index \<Rightarrow> 'f index" where
  "register syms fqn s idx = markGained (fst (splitFQN fqn)) (link syms fqn s idx)"

text \<open>One segment of \<open>settleSegments\<close>: the merged names become the entry unless nothing is new.\<close>

definition settle_segment :: "string \<Rightarrow> string list \<Rightarrow> (string, string) slice_table \<Rightarrow> (string, string) slice_table" where
  "settle_segment name names t =
     (let have = tb_at t name; merged = mergeSorted have names
      in if length merged \<noteq> length have
         then tb_set t name (new_array (tb_store t) merged (length have + length (remdups_adj (sort names))))
         else t)"

definition settleSegments :: "((string \<rightharpoonup> string list) \<Rightarrow> string list) \<Rightarrow> 'f index \<Rightarrow> 'f index" where
  "settleSegments range_order idx =
     idx\<lparr>ix_bySegment := fold (\<lambda>name. settle_segment name (the (ix_pending idx name))) (range_order (ix_pending idx)) (ix_bySegment idx),
         ix_pending := Map.empty\<rparr>"

definition segmentNames :: "((string \<rightharpoonup> string list) \<Rightarrow> string list) \<Rightarrow> string \<Rightarrow> 'f index \<Rightarrow> string list \<times> 'f index" where
  "segmentNames range_order name idx =
     (let idx = settleSegments range_order idx in (tb_at (ix_bySegment idx) name, idx))"

definition unregister :: "string \<Rightarrow> 'f index \<Rightarrow> 'f index" where
  "unregister fqn idx =
     (let parent = fst (splitFQN fqn)
      in if tb_get (ix_children idx) parent = None then idx
         else
           let (kids, children) = removeSorted (ix_children idx) parent fqn
           in idx\<lparr>ix_children := (if kids = [] then tb_del children parent else children)\<rparr>)"

definition unregisterSegment :: "((string \<rightharpoonup> string list) \<Rightarrow> string list) \<Rightarrow> string \<Rightarrow> 'f index \<Rightarrow> 'f index" where
  "unregisterSegment range_order fqn idx =
     (let (parent, name) = splitFQN fqn
      in if parent = [] then idx
         else
           let idx = settleSegments range_order idx
           in if tb_get (ix_bySegment idx) name = None then idx
              else
                let (names, bySegment) = removeSorted (ix_bySegment idx) name fqn
                in idx\<lparr>ix_bySegment := (if names = [] then tb_del bySegment name else bySegment)\<rparr>)"

definition deregister :: "((string \<rightharpoonup> string list) \<Rightarrow> string list) \<Rightarrow> string \<Rightarrow> nat \<Rightarrow> 'f index \<Rightarrow> 'f index" where
  "deregister range_order fqn s idx =
     (let idx = changedName fqn (noteBefore fqn idx);
          (out, t) = writableSlice (ix_fqn idx) fqn;
          r = (case index_in s (items (tb_store t) out) of
                 Some i \<Rightarrow> cut_out (tb_store t) out i
               | None \<Rightarrow> (out, tb_store t));
          idx =
            (if items (snd r) (fst r) = [] then
               unregisterSegment range_order fqn
                 (unregister fqn
                   (idx\<lparr>ix_fqn := tb_del (t\<lparr>tb_store := snd r\<rparr>) fqn,
                        ix_reexported := tb_del (ix_reexported idx) fqn,
                        ix_hidden := tb_del (ix_hidden idx) fqn\<rparr>))
             else
               idx\<lparr>ix_fqn := tb_set t fqn r,
                   ix_reexported := clearMark (ix_reexported idx) fqn s,
                   ix_hidden := clearMark (ix_hidden idx) fqn s\<rparr>)
      in markLost (fst (splitFQN fqn)) idx)"

section \<open>Re-exports\<close>

text \<open>\<open>filtersSubsume\<close> with \<open>hasFilter\<close>.\<close>

definition filtersSubsume :: "'f list \<Rightarrow> 'f list \<Rightarrow> bool" where
  "filtersSubsume a b = list_all (\<lambda>f. f \<in> set b) a"

text \<open>\<open>record\<close>: the claim with the route, and whether it now admits more.\<close>

definition record_route :: "'f gateRoute \<Rightarrow> 'f reexportClaim \<Rightarrow> 'f reexportClaim \<times> bool" where
  "record_route route c =
     (if list_ex (\<lambda>have. gr_private have = gr_private route \<and> filtersSubsume (gr_filters have) (gr_filters route)) (cl_routes c)
      then (c, False)
      else
        (c\<lparr>cl_routes :=
             filter (\<lambda>have. gr_private have \<noteq> gr_private route \<or> \<not> filtersSubsume (gr_filters route) (gr_filters have)) (cl_routes c) @
             [route]\<rparr>, True))"

fun record_gates :: "bool \<Rightarrow> 'f list list \<Rightarrow> 'f reexportClaim \<times> bool \<Rightarrow> 'f reexportClaim \<times> bool" where
  "record_gates private [] r = r"
| "record_gates private (gate # gates) (c, widened) =
     (let (c, more) = record_route \<lparr>gr_private = private, gr_filters = gate\<rparr> c
      in record_gates private gates (c, more \<or> widened))"

definition applyReexportMarks :: "reexportKey \<Rightarrow> 'f claims \<Rightarrow> 'f index \<Rightarrow> 'f index" where
  "applyReexportMarks key docs idx =
     (let (fqn, s) = key; idx = noteBefore fqn idx
      in if docs = Map.empty then
           idx\<lparr>ix_reexported := clearMark (ix_reexported idx) fqn s, ix_hidden := clearMark (ix_hidden idx) fqn s\<rparr>
         else
           idx\<lparr>ix_reexported := setMark (ix_reexported idx) fqn s,
               ix_hidden :=
                 (if \<exists>claim \<in> ran docs. cl_public claim then clearMark (ix_hidden idx) fqn s
                  else setMark (ix_hidden idx) fqn s)\<rparr>)"

definition claimReexport :: "reexportKey \<Rightarrow> string \<Rightarrow> bool \<Rightarrow> 'f list list \<Rightarrow> 'f index \<Rightarrow> bool \<times> 'f index" where
  "claimReexport key doc public gates idx =
     (let idx = noteBefore (fst key) idx;
          docs = layer_at Map.empty (ix_reexportDocs idx) key;
          claim = (case docs doc of Some have \<Rightarrow> have | None \<Rightarrow> \<lparr>cl_public = False, cl_routes = []\<rparr>);
          upgraded = (docs doc = None \<or> public \<and> \<not> cl_public claim);
          claim = claim\<lparr>cl_public := cl_public claim \<or> public\<rparr>;
          (claim, widened) = record_gates (\<not> public) gates (claim, False)
      in if \<not> upgraded \<and> \<not> widened then (False, idx)
         else
           let docs = docs(doc \<mapsto> claim);
               idx = idx\<lparr>ix_reexportDocs := layer_set (ix_reexportDocs idx) key docs\<rparr>;
               idx =
                 (if upgraded then
                    let idx = changedName (fst key) idx;
                        idx = idx\<lparr>ix_docReexports := write_entry (ix_docReexports idx) doc key True\<rparr>
                    in markGained (fst (splitFQN (fst key))) (applyReexportMarks key docs idx)
                  else idx)
           in (widened, idx))"

definition reexport :: "(nat \<Rightarrow> Symbol) \<Rightarrow> string \<Rightarrow> nat \<Rightarrow> 'f index \<Rightarrow> bool \<times> 'f index" where
  "reexport syms fqn s idx =
     (if s \<in> set (tb_at (ix_fqn idx) fqn) then (s \<in> set (tb_at (ix_reexported idx) fqn), idx)
      else (True, link syms fqn s idx))"

definition reexportGated ::
  "(nat \<Rightarrow> Symbol) \<Rightarrow> string \<Rightarrow> nat \<Rightarrow> string \<Rightarrow> bool \<Rightarrow> 'f list list \<Rightarrow> 'f index \<Rightarrow> 'f index" where
  "reexportGated syms fqn s doc private gates idx =
     (let (borrowed, idx) = reexport syms fqn s idx
      in if \<not> borrowed then idx
         else
           let (widened, idx) = claimReexport (fqn, s) doc (\<not> private) gates idx;
               idx = (if widened then changedName fqn idx else idx);
               parent = fst (splitFQN fqn)
           in if widened \<and> parent \<noteq> [] then markGained parent idx else idx)"

definition dropClaim :: "((string \<rightharpoonup> string list) \<Rightarrow> string list) \<Rightarrow> reexportKey \<Rightarrow> string \<Rightarrow> 'f index \<Rightarrow> 'f index" where
  "dropClaim range_order key doc idx =
     (let docs = layer_at Map.empty (ix_reexportDocs idx) key
      in if docs doc = None then idx
         else
           let idx = changedName (fst key) (noteBefore (fst key) idx)
           in if card (dom docs) = 1 then
                deregister range_order (fst key) (snd key) (idx\<lparr>ix_reexportDocs := layer_del (ix_reexportDocs idx) key\<rparr>)
              else
                let kept = docs(doc := None);
                    idx = idx\<lparr>ix_reexportDocs := layer_set (ix_reexportDocs idx) key kept\<rparr>
                in markLost (fst (splitFQN (fst key))) (applyReexportMarks key kept idx))"

text \<open>One document of the loop of \<open>purgeReexport\<close>.\<close>

definition unclaim :: "reexportKey \<Rightarrow> string \<Rightarrow> (string, reexportKey \<rightharpoonup> bool) layer \<Rightarrow> (string, reexportKey \<rightharpoonup> bool) layer" where
  "unclaim key doc l =
     (let (claimed, l) = writableMap l doc; claimed = claimed(key := None)
      in if claimed = Map.empty then layer_del l doc
         else l\<lparr>ly_own := (ly_own l)(doc \<mapsto> claimed)\<rparr>)"

definition purgeReexport ::
  "((string \<rightharpoonup> string list) \<Rightarrow> string list) \<Rightarrow> ('f claims \<Rightarrow> string list) \<Rightarrow> reexportKey \<Rightarrow> 'f index \<Rightarrow> 'f index" where
  "purgeReexport range_order range_docs key idx =
     (let idx = noteBefore (fst key) idx;
          docs = layer_at Map.empty (ix_reexportDocs idx) key;
          idx = idx\<lparr>ix_docReexports := fold (unclaim key) (range_docs docs) (ix_docReexports idx)\<rparr>;
          idx = idx\<lparr>ix_reexportDocs := layer_del (ix_reexportDocs idx) key\<rparr>
      in deregister range_order (fst key) (snd key) idx)"

definition purgeReexportsUnder ::
  "((string \<rightharpoonup> string list) \<Rightarrow> string list) \<Rightarrow> ('f claims \<Rightarrow> string list) \<Rightarrow> string \<Rightarrow> 'f index \<Rightarrow> 'f index" where
  "purgeReexportsUnder range_order range_docs pkgFQN idx =
     fold (\<lambda>fqn idx. fold (\<lambda>s. purgeReexport range_order range_docs (fqn, s)) (tb_at (ix_reexported idx) fqn) idx)
       (tb_at (ix_children idx) pkgFQN) idx"

section \<open>The gates of a re-export\<close>

definition gateRoutes :: "bool \<Rightarrow> 'f reexportClaim option \<Rightarrow> 'f list list" where
  "gateRoutes private c =
     (case c of None \<Rightarrow> [] | Some c \<Rightarrow> map gr_filters (filter (\<lambda>r. private \<or> \<not> gr_private r) (cl_routes c)))"

definition ReexportVisible :: "'f index \<Rightarrow> string \<Rightarrow> string \<Rightarrow> nat \<Rightarrow> bool" where
  "ReexportVisible idx doc fqn s =
     (if fst (splitFQN fqn) \<noteq> [] then True
      else if s \<notin> set (tb_at (ix_reexported idx) fqn) then True
      else layer_at Map.empty (ix_reexportDocs idx) (fqn, s) doc \<noteq> None)"

section \<open>Looking names up\<close>

definition hasFQN :: "'f index \<Rightarrow> string \<Rightarrow> nat \<Rightarrow> bool" where
  "hasFQN idx fqn s = (s \<in> set (tb_at (ix_fqn idx) fqn))"

definition LookupQualifiedFrom :: "'f index \<Rightarrow> string \<Rightarrow> string \<Rightarrow> nat list" where
  "LookupQualifiedFrom idx fqn fromFQN =
     (let found = tb_at (ix_fqn idx) fqn; imported = tb_at (ix_reexported idx) fqn
      in if imported = [] then found
         else
           let hidden = tb_at (ix_hidden idx) fqn;
               found =
                 (if hidden \<noteq> [] \<and> namespaceOf fqn \<noteq> [] \<and> \<not> withinNamespace fromFQN (namespaceOf fqn)
                  then filter (\<lambda>s. s \<notin> set hidden) found else found);
               owned = filter (\<lambda>s. s \<notin> set imported) found
           in if owned = [] then found else owned)"

definition LookupQualified :: "'f index \<Rightarrow> string \<Rightarrow> nat list" where
  "LookupQualified idx fqn = LookupQualifiedFrom idx fqn []"

definition HiddenFrom :: "'f index \<Rightarrow> string \<Rightarrow> string \<Rightarrow> bool" where
  "HiddenFrom idx fqn fromFQN =
     (let hidden = tb_at (ix_hidden idx) fqn
      in if hidden = [] \<or> withinNamespace fromFQN (namespaceOf fqn) then False
         else list_all (\<lambda>s. s \<in> set hidden) (tb_at (ix_fqn idx) fqn))"

definition RegisteredUnder :: "'f index \<Rightarrow> string \<Rightarrow> nat list" where
  "RegisteredUnder idx fqn = tb_at (ix_fqn idx) fqn"

definition FQNsEndingIn :: "((string \<rightharpoonup> string list) \<Rightarrow> string list) \<Rightarrow> string \<Rightarrow> int \<Rightarrow> 'f index \<Rightarrow> string list \<times> 'f index" where
  "FQNsEndingIn range_order name limit idx =
     (if name = [] \<or> limit \<le> 0 then ([], idx)
      else
        let (out, idx) = segmentNames range_order name idx
        in (if int (length out) > limit then take (nat limit) out else out, idx))"

definition childKeys :: "'f index \<Rightarrow> string \<Rightarrow> string list" where
  "childKeys idx prefix = tb_at (ix_children idx) prefix"

end
