(* ===== verification/Symbol_Index_Correct.thy ===== *)
theory Symbol_Index_Correct
  imports Symbol_Index
begin

text \<open>
  The invariant of the symbol index: the keys under a namespace and under a last segment are those of
  the registered names, the marks of re-exports are those the claims call for, and the claims of a
  document are found from the document. Every write keeps it and leaves the frozen index below
  as it was.
\<close>

section \<open>Tables of sorted names and of marks\<close>

text \<open>The table holds, sorted, the names \<open>S k\<close> under each key, and no key without a name.\<close>

definition keys_ok :: "('k, string) slice_table \<Rightarrow> ('k \<Rightarrow> string set) \<Rightarrow> bool" where
  "keys_ok t S = (tb_ok t \<and> (\<forall>k. strictly_sorted (tb_at t k) \<and> set (tb_at t k) = S k \<and> tb_get t k \<noteq> Some []))"

definition marks_are :: "('k, nat) slice_table \<Rightarrow> ('k \<Rightarrow> nat set) \<Rightarrow> bool" where
  "marks_are t M = (tb_ok t \<and> (\<forall>k. distinct (tb_at t k) \<and> set (tb_at t k) = M k))"

lemma wrote_at: "wrote t m t' \<Longrightarrow> tb_at t' k = (case m k of Some xs \<Rightarrow> xs | None \<Rightarrow> [])"
  by (simp add: wrote_def tb_at_get)

lemma keys_ok_insert:
  assumes "keys_ok t S"
  shows "keys_ok (insertSorted t k s) (S(k := insert s (S k)))" "frozen_kept t (insertSorted t k s)"
proof -
  have k: "tb_ok t" "strictly_sorted (tb_at t k)" "set (tb_at t k) = S k" using assms by (auto simp: keys_ok_def)
  obtain ys where y: "strictly_sorted ys" "set ys = insert s (S k)"
    "wrote t (if s \<in> S k then tb_get t else (tb_get t)(k \<mapsto> ys)) (insertSorted t k s)"
    using insertSorted_ok [OF k(1,2), of s] k(3) by auto
  then show "frozen_kept t (insertSorted t k s)" by (simp add: wrote_def)
  have "tb_get (insertSorted t k s) = (if s \<in> S k then tb_get t else (tb_get t)(k \<mapsto> ys))" "tb_ok (insertSorted t k s)"
    using y(3) by (simp_all add: wrote_def)
  then show "keys_ok (insertSorted t k s) (S(k := insert s (S k)))"
    using assms y(1,2) by (auto simp: keys_ok_def tb_at_get insert_absorb split: if_splits)
qed

lemma keys_ok_remove:
  assumes "keys_ok t S" "removeSorted t k s = (rest, t')"
  shows "keys_ok (if rest = [] then tb_del t' k else t') (S(k := S k - {s}))"
    "frozen_kept t (if rest = [] then tb_del t' k else t')"
proof -
  have k: "tb_ok t" "strictly_sorted (tb_at t k)" "set (tb_at t k) = S k" using assms by (auto simp: keys_ok_def)
  note r = removeSorted_ok [OF k(1,2) assms(2)]
  have t': "tb_ok t'" "frozen_kept t t'" "tb_get t' = (if s \<in> S k then (tb_get t)(k \<mapsto> rest) else tb_get t)"
    using r(3) k(3) by (simp_all add: wrote_def)
  have a: "strictly_sorted (tb_at t x) \<and> set (tb_at t x) = S x \<and> tb_get t x \<noteq> Some []" for x using assms(1) by (simp add: keys_ok_def)
  have rest: "tb_at t' k = rest"
    using t'(3) r(1,2) a [of k] k(3) strictly_sorted_unique [OF r(1) k(2)] by (auto simp: tb_at_get split: if_splits)
  have other: "tb_get t' x = tb_get t x" if "x \<noteq> k" for x using t'(3) that by simp
  note d = tb_del_ok [OF t'(1), of k]
  show "frozen_kept t (if rest = [] then tb_del t' k else t')" using t'(2) d(3) frozen_kept_trans by auto
  show "keys_ok (if rest = [] then tb_del t' k else t') (S(k := S k - {s}))"
  proof (cases "rest = []")
    case True
    then have "S k - {s} = {}" using r(2) k(3) by simp
    then show ?thesis using True d a other by (auto simp: keys_ok_def tb_at_get)
  next
    case False
    then show ?thesis using t' r(1,2) rest k(3) a other by (auto simp: keys_ok_def tb_at_get)
  qed
qed

lemma keys_ok_settle:
  assumes "keys_ok t S"
  shows "keys_ok (settle_segment n names t) (S(n := S n \<union> set names))" "frozen_kept t (settle_segment n names t)"
proof -
  have k: "tb_ok t" "strictly_sorted (tb_at t n)" "set (tb_at t n) = S n" using assms by (auto simp: keys_ok_def)
  note m = mergeSorted_ok [OF k(2), of names]
  let ?r = "new_array (tb_store t) (mergeSorted (tb_at t n) names) (length (tb_at t n) + length (remdups_adj (sort names)))"
  have "keys_ok (settle_segment n names t) (S(n := S n \<union> set names)) \<and> frozen_kept t (settle_segment n names t)"
  proof (cases "length (mergeSorted (tb_at t n) names) = length (tb_at t n)")
    case True
    then have "S n \<union> set names = S n" using m k(3) by simp
    then show ?thesis using True assms by (simp add: settle_segment_def Let_def fun_upd_idem)
  next
    case False
    have w: "wrote t ((tb_get t)(n \<mapsto> mergeSorted (tb_at t n) names)) (tb_set t n ?r)" by (rule wrote_set [OF k(1) new_array_ok])
    have "mergeSorted (tb_at t n) names \<noteq> []" using False m(2) by auto
    then show ?thesis
      using w False assms m k(3) by (auto simp: settle_segment_def Let_def wrote_def keys_ok_def tb_at_get)
  qed
  then show "keys_ok (settle_segment n names t) (S(n := S n \<union> set names))" "frozen_kept t (settle_segment n names t)" by auto
qed

lemma keys_ok_settle_all:
  assumes "keys_ok t S"
  shows "keys_ok (fold (\<lambda>n. settle_segment n (f n)) ns t) (\<lambda>n. S n \<union> (if n \<in> set ns then set (f n) else {})) \<and>
    frozen_kept t (fold (\<lambda>n. settle_segment n (f n)) ns t)"
  using assms
proof (induction ns arbitrary: t S)
  case (Cons n ns)
  note s = keys_ok_settle [OF Cons.prems, of n "f n"]
  have "(\<lambda>x. (S(n := S n \<union> set (f n))) x \<union> (if x \<in> set ns then set (f x) else {})) =
      (\<lambda>x. S x \<union> (if x \<in> set (n # ns) then set (f x) else {}))" by (auto simp: fun_eq_iff)
  then show ?case using Cons.IH [OF s(1)] s(2) frozen_kept_trans by auto
qed simp

lemma marks_are_set:
  assumes "marks_are t M"
  shows "marks_are (setMark t k s) (M(k := insert s (M k)))" "frozen_kept t (setMark t k s)"
  using assms setMark_ok [where t = t and k = k and decl = s] by (auto simp: marks_are_def wrote_def tb_at_get insert_absorb split: if_splits)

lemma without_index:
  assumes "distinct xs" "index_in x xs = Some i"
  shows "distinct (without_at i xs)" "set (without_at i xs) = set xs - {x}" "mset xs = add_mset x (mset (without_at i xs))"
proof -
  have i: "i < length xs" "xs ! i = x" using index_in_less [OF assms(2)] by auto
  have e: "xs = take i xs @ x # drop (Suc i) xs" using id_take_nth_drop [OF i(1)] i(2) by simp
  show m: "mset xs = add_mset x (mset (without_at i xs))" by (subst e) (simp add: without_at_def)
  have "distinct (take i xs @ x # drop (Suc i) xs)" using assms(1) e by simp
  then show "distinct (without_at i xs)" by (simp add: without_at_def)
  have "x \<notin> set (without_at i xs)" using \<open>distinct (take i xs @ x # drop (Suc i) xs)\<close> by (simp add: without_at_def)
  moreover have "set xs = insert x (set (without_at i xs))" using arg_cong [OF m, of set_mset] by simp
  ultimately show "set (without_at i xs) = set xs - {x}" by auto
qed

lemma marks_are_clear:
  assumes "marks_are t M"
  shows "marks_are (clearMark t k s) (M(k := M k - {s}))" "frozen_kept t (clearMark t k s)"
proof -
  have t: "tb_ok t" "distinct (tb_at t k)" "set (tb_at t k) = M k" using assms by (auto simp: marks_are_def)
  note c = clearMark_ok [OF t(1), where k = k and decl = s]
  show "frozen_kept t (clearMark t k s)" using c by (simp add: wrote_def)
  show "marks_are (clearMark t k s) (M(k := M k - {s}))"
  proof (cases "index_in s (tb_at t k)")
    case None
    then have "M k - {s} = M k" using t(3) by (auto simp: index_in_def split: if_splits)
    then show ?thesis using c None assms by (simp add: wrote_def marks_are_def tb_at_get)
  next
    case (Some i)
    note w = without_index [OF t(2) Some]
    have "tb_ok (clearMark t k s)" using c by (simp add: wrote_def)
    moreover have "tb_at (clearMark t k s) k = without_at i (tb_at t k)" using wrote_at [OF c, of k] Some by simp
    moreover have "tb_at (clearMark t k s) k' = tb_at t k'" if "k' \<noteq> k" for k'
      using wrote_at [OF c, of k'] Some that by (simp add: tb_at_get)
    ultimately show ?thesis using assms w t(3) by (auto simp: marks_are_def)
  qed
qed

lemma marks_are_del:
  assumes "marks_are t M" shows "marks_are (tb_del t k) (M(k := {}))" "frozen_kept t (tb_del t k)"
  using assms tb_del_ok [of t k] by (auto simp: marks_are_def tb_at_get)

section \<open>The invariant\<close>

definition registered :: "'f index \<Rightarrow> string \<Rightarrow> bool" where
  "registered idx f = (tb_get (ix_fqn idx) f \<noteq> None)"

definition claims_of :: "'f index \<Rightarrow> reexportKey \<Rightarrow> 'f claims" where
  "claims_of idx key = layer_at Map.empty (ix_reexportDocs idx) key"

definition docs_of :: "'f index \<Rightarrow> string \<Rightarrow> reexportKey \<Rightarrow> bool option" where
  "docs_of idx doc = layer_at Map.empty (ix_docReexports idx) doc"

definition pending_of :: "'f index \<Rightarrow> string \<Rightarrow> string set" where
  "pending_of idx n = (case ix_pending idx n of Some xs \<Rightarrow> set xs | None \<Rightarrow> {})"

text \<open>The keys of the names: those under a namespace, and those under a last segment, some of them pending.\<close>

definition names_ok :: "'f index \<Rightarrow> bool" where
  "names_ok idx =
     (tb_ok (ix_fqn idx) \<and> (\<forall>f. tb_get (ix_fqn idx) f \<noteq> Some [] \<and> distinct (tb_at (ix_fqn idx) f)) \<and>
      finite (dom (ix_pending idx)) \<and>
      keys_ok (ix_children idx) (\<lambda>p. {f. registered idx f \<and> fst (splitFQN f) = p}) \<and>
      (\<exists>S. keys_ok (ix_bySegment idx) S \<and>
        (\<forall>n. S n \<union> pending_of idx n = {f. registered idx f \<and> snd (splitFQN f) = n \<and> fst (splitFQN f) \<noteq> []})))"

definition hidden_by :: "'f claims \<Rightarrow> bool" where
  "hidden_by docs = (docs \<noteq> Map.empty \<and> \<not> (\<exists>claim \<in> ran docs. cl_public claim))"

text \<open>The marks are those the claims call for, and what is claimed is registered.\<close>

definition reexports_ok :: "'f index \<Rightarrow> bool" where
  "reexports_ok idx =
     (layer_ok (ix_reexportDocs idx) \<and> layer_ok (ix_docReexports idx) \<and>
      (\<forall>key. finite (dom (claims_of idx key))) \<and>
      (\<forall>f s. claims_of idx (f, s) \<noteq> Map.empty \<longrightarrow> s \<in> set (tb_at (ix_fqn idx) f)) \<and>
      marks_are (ix_reexported idx) (\<lambda>f. {s. claims_of idx (f, s) \<noteq> Map.empty}) \<and>
      marks_are (ix_hidden idx) (\<lambda>f. {s. hidden_by (claims_of idx (f, s))}))"

text \<open>The claims of a document are found from the document.\<close>

definition inverse_ok :: "'f index \<Rightarrow> bool" where
  "inverse_ok idx = (\<forall>doc key. docs_of idx doc key \<noteq> None \<longleftrightarrow> claims_of idx key doc \<noteq> None)"

text \<open>The frozen index below is as it was.\<close>

definition base_kept :: "'f index \<Rightarrow> 'f index \<Rightarrow> bool" where
  "base_kept idx idx' =
     (frozen_kept (ix_fqn idx) (ix_fqn idx') \<and> frozen_kept (ix_reexported idx) (ix_reexported idx') \<and>
      frozen_kept (ix_hidden idx) (ix_hidden idx') \<and> frozen_kept (ix_children idx) (ix_children idx') \<and>
      frozen_kept (ix_bySegment idx) (ix_bySegment idx') \<and>
      ly_base (ix_reexportDocs idx') = ly_base (ix_reexportDocs idx) \<and>
      ly_base (ix_docReexports idx') = ly_base (ix_docReexports idx) \<and> ix_over idx' = ix_over idx)"

lemma base_kept_refl [simp]: "base_kept idx idx"
  by (simp add: base_kept_def)

lemma base_kept_trans: "base_kept idx idx' \<Longrightarrow> base_kept idx' idx'' \<Longrightarrow> base_kept idx idx''"
  unfolding base_kept_def using frozen_kept_trans by (metis (no_types))

text \<open>The change log and the marks for the next expansion touch none of the tables.\<close>

lemma log_fields [simp]:
  "ix_fqn (noteBefore f idx) = ix_fqn idx" "ix_reexported (noteBefore f idx) = ix_reexported idx" "ix_hidden (noteBefore f idx) = ix_hidden idx"
  "ix_reexportDocs (noteBefore f idx) = ix_reexportDocs idx" "ix_docReexports (noteBefore f idx) = ix_docReexports idx"
  "ix_children (noteBefore f idx) = ix_children idx" "ix_bySegment (noteBefore f idx) = ix_bySegment idx" "ix_pending (noteBefore f idx) = ix_pending idx"
  "ix_over (noteBefore f idx) = ix_over idx"
  "ix_fqn (changedName f idx) = ix_fqn idx" "ix_reexported (changedName f idx) = ix_reexported idx" "ix_hidden (changedName f idx) = ix_hidden idx"
  "ix_reexportDocs (changedName f idx) = ix_reexportDocs idx" "ix_docReexports (changedName f idx) = ix_docReexports idx"
  "ix_children (changedName f idx) = ix_children idx" "ix_bySegment (changedName f idx) = ix_bySegment idx" "ix_pending (changedName f idx) = ix_pending idx"
  "ix_over (changedName f idx) = ix_over idx"
  by (simp_all add: noteBefore_def changedName_def split: option.split)

lemma mark_fields [simp]:
  "ix_fqn (markGained f idx) = ix_fqn idx" "ix_reexported (markGained f idx) = ix_reexported idx" "ix_hidden (markGained f idx) = ix_hidden idx"
  "ix_reexportDocs (markGained f idx) = ix_reexportDocs idx" "ix_docReexports (markGained f idx) = ix_docReexports idx"
  "ix_children (markGained f idx) = ix_children idx" "ix_bySegment (markGained f idx) = ix_bySegment idx" "ix_pending (markGained f idx) = ix_pending idx"
  "ix_over (markGained f idx) = ix_over idx"
  "ix_fqn (markLost f idx) = ix_fqn idx" "ix_reexported (markLost f idx) = ix_reexported idx" "ix_hidden (markLost f idx) = ix_hidden idx"
  "ix_reexportDocs (markLost f idx) = ix_reexportDocs idx" "ix_docReexports (markLost f idx) = ix_docReexports idx"
  "ix_children (markLost f idx) = ix_children idx" "ix_bySegment (markLost f idx) = ix_bySegment idx" "ix_pending (markLost f idx) = ix_pending idx"
  "ix_over (markLost f idx) = ix_over idx"
  by (simp_all add: markGained_def markLost_def)

section \<open>Registering\<close>

lemma names_okD:
  assumes "names_ok idx"
  shows "tb_ok (ix_fqn idx)" "tb_get (ix_fqn idx) f \<noteq> Some []" "distinct (tb_at (ix_fqn idx) f)" "finite (dom (ix_pending idx))"
    "keys_ok (ix_children idx) (\<lambda>p. {f. registered idx f \<and> fst (splitFQN f) = p})"
  using assms by (auto simp: names_ok_def)

lemma insert_at_mset: "mset (insert_at i x xs) = add_mset x (mset xs)"
  by (simp add: insert_at_def) (metis append_take_drop_id mset_append union_commute)

lemma link_fields [simp]:
  "ix_reexported (link syms f s idx) = ix_reexported idx" "ix_hidden (link syms f s idx) = ix_hidden idx"
  "ix_reexportDocs (link syms f s idx) = ix_reexportDocs idx" "ix_docReexports (link syms f s idx) = ix_docReexports idx"
  "ix_over (link syms f s idx) = ix_over idx" "ix_bySegment (link syms f s idx) = ix_bySegment idx"
  "ix_children (link syms f s idx) = insertSorted (ix_children idx) (fst (splitFQN f)) f"
  "ix_fqn (link syms f s idx) = (if ix_over idx then insertSymbol syms (ix_fqn idx) f s else appendSlice (ix_fqn idx) f s)"
  "ix_pending (link syms f s idx) =
     (if fst (splitFQN f) \<noteq> []
      then (ix_pending idx)(snd (splitFQN f) \<mapsto> (case ix_pending idx (snd (splitFQN f)) of Some xs \<Rightarrow> xs | None \<Rightarrow> []) @ [f])
      else ix_pending idx)"
  by (simp_all add: link_def Let_def split: prod.split)

lemma link_fqn:
  assumes "tb_ok (ix_fqn idx)"
  shows "\<exists>xs. mset xs = add_mset s (mset (tb_at (ix_fqn idx) f)) \<and>
    wrote (ix_fqn idx) ((tb_get (ix_fqn idx))(f \<mapsto> xs)) (ix_fqn (link syms f s idx))"
proof (cases "ix_over idx")
  case True
  let ?xs = "insert_at (insert_pos syms (items_of (tb_store (ix_fqn idx)) (layer_below (tb_layer (ix_fqn idx)) f)) (tb_at (ix_fqn idx) f) s
      (length (tb_at (ix_fqn idx) f))) s (tb_at (ix_fqn idx) f)"
  have "wrote (ix_fqn idx) ((tb_get (ix_fqn idx))(f \<mapsto> ?xs)) (ix_fqn (link syms f s idx))"
    using insertSymbol_ok [OF assms] True by simp
  then show ?thesis by (intro exI [of _ ?xs] conjI insert_at_mset)
next
  case False
  then show ?thesis using appendSlice_ok [OF assms, of f s] by (intro exI [of _ "tb_at (ix_fqn idx) f @ [s]"]) simp
qed

lemma link_ok:
  assumes "names_ok idx" "s \<notin> set (tb_at (ix_fqn idx) f)"
  shows "names_ok (link syms f s idx)" "base_kept idx (link syms f s idx)"
    "set (tb_at (ix_fqn (link syms f s idx)) g) = (if g = f then insert s (set (tb_at (ix_fqn idx) f)) else set (tb_at (ix_fqn idx) g))"
proof -
  let ?i = "link syms f s idx"
  note n = names_okD [OF assms(1)]
  obtain xs where xs: "mset xs = add_mset s (mset (tb_at (ix_fqn idx) f))"
    "wrote (ix_fqn idx) ((tb_get (ix_fqn idx))(f \<mapsto> xs)) (ix_fqn ?i)"
    using link_fqn [OF n(1)] by blast
  have g: "tb_get (ix_fqn ?i) = (tb_get (ix_fqn idx))(f \<mapsto> xs)" "tb_ok (ix_fqn ?i)" "frozen_kept (ix_fqn idx) (ix_fqn ?i)"
    using xs(2) by (simp_all add: wrote_def del: link_fields)
  have at: "tb_at (ix_fqn ?i) x = (if x = f then xs else tb_at (ix_fqn idx) x)" for x by (simp add: tb_at_get g(1) del: link_fields)
  have set: "set xs = insert s (set (tb_at (ix_fqn idx) f))" using arg_cong [OF xs(1), of set_mset] by simp
  have d: "distinct xs"
  proof -
    have "length xs = Suc (length (tb_at (ix_fqn idx) f))" using arg_cong [OF xs(1), of size] by simp
    then show ?thesis using set assms(2) n(3) [of f] by (intro card_distinct) (simp add: distinct_card)
  qed
  have ne: "xs \<noteq> []" using set by auto
  show "set (tb_at (ix_fqn ?i) x) = (if x = f then insert s (set (tb_at (ix_fqn idx) f)) else set (tb_at (ix_fqn idx) x))" for x
    using at set by (simp del: link_fields)
  have R: "registered ?i x \<longleftrightarrow> x = f \<or> registered idx x" for x by (simp add: registered_def g(1) del: link_fields)
  note c = keys_ok_insert [OF n(5), of "fst (splitFQN f)" f]
  have "(\<lambda>p. {x. registered idx x \<and> fst (splitFQN x) = p})
      (fst (splitFQN f) := insert f {x. registered idx x \<and> fst (splitFQN x) = fst (splitFQN f)}) =
      (\<lambda>p. {x. registered ?i x \<and> fst (splitFQN x) = p})"
    by (auto simp: R fun_eq_iff)
  then have kids: "keys_ok (ix_children ?i) (\<lambda>p. {x. registered ?i x \<and> fst (splitFQN x) = p})" using c(1) by simp
  obtain S where S: "keys_ok (ix_bySegment idx) S"
    "\<forall>n. S n \<union> pending_of idx n = {x. registered idx x \<and> snd (splitFQN x) = n \<and> fst (splitFQN x) \<noteq> []}"
    using assms(1) by (auto simp: names_ok_def)
  have p: "pending_of ?i n = (if fst (splitFQN f) \<noteq> [] \<and> n = snd (splitFQN f) then insert f (pending_of idx n) else pending_of idx n)" for n
    by (auto simp: pending_of_def split: option.split)
  have "S n \<union> pending_of ?i n = {x. registered ?i x \<and> snd (splitFQN x) = n \<and> fst (splitFQN x) \<noteq> []}" for n
    using S(2) [rule_format, of n] by (auto simp: p R)
  moreover have "finite (dom (ix_pending ?i))" using n(4) by simp
  ultimately show "names_ok ?i"
    unfolding names_ok_def using g(1,2) at d n(2,3) kids S(1) ne by (auto simp del: link_fields simp: link_fields(6))
  show "base_kept idx ?i" using g(3) c(2) by (simp add: base_kept_def)
qed


section \<open>Deregistering\<close>

text \<open>An order of the keys of a map: each of them once, as Go's \<open>range\<close> gives them.\<close>

definition ranges :: "(('k \<rightharpoonup> 'v) \<Rightarrow> 'k list) \<Rightarrow> bool" where
  "ranges order = (\<forall>m. finite (dom m) \<longrightarrow> distinct (order m) \<and> set (order m) = dom m)"

definition after_removal :: "nat \<Rightarrow> nat list \<Rightarrow> nat list" where
  "after_removal s xs = (case index_in s xs of Some i \<Rightarrow> without_at i xs | None \<Rightarrow> xs)"

lemma after_removal_ok: "distinct xs \<Longrightarrow> distinct (after_removal s xs) \<and> set (after_removal s xs) = set xs - {s}"
  using without_index [of xs s] by (auto simp: after_removal_def index_in_def split: option.split if_splits)

text \<open>The write to the table of names.\<close>

definition fqn_without :: "string \<Rightarrow> nat \<Rightarrow> (string, nat) slice_table \<Rightarrow> (string, nat) slice_table" where
  "fqn_without f s t0 =
     (let (out, t) = writableSlice t0 f;
          r = (case index_in s (items (tb_store t) out) of Some i \<Rightarrow> cut_out (tb_store t) out i | None \<Rightarrow> (out, tb_store t))
      in if items (snd r) (fst r) = [] then tb_del (t\<lparr>tb_store := snd r\<rparr>) f else tb_set t f r)"

lemma fqn_without_ok:
  assumes "tb_ok t0"
  shows "wrote t0 ((tb_get t0)(f := (if after_removal s (tb_at t0 f) = [] then None else Some (after_removal s (tb_at t0 f))))) (fqn_without f s t0)"
proof -
  obtain out t where w: "writableSlice t0 f = (out, t)" by force
  note v = writableSlice_ok [OF assms w]
  let ?r = "case index_in s (items (tb_store t) out) of Some i \<Rightarrow> cut_out (tb_store t) out i | None \<Rightarrow> (out, tb_store t)"
  have r: "result_ok (tb_store t) {sl_array out} (after_removal s (tb_at t0 f)) ?r"
  proof (cases "index_in s (tb_at t0 f)")
    case None
    then show ?thesis using v(2,3) by (simp add: after_removal_def result_ok_def arrays_kept_def)
  next
    case (Some i)
    then have "i < sl_len out" using index_in_less [OF Some] v(2) length_items [OF v(3)] by simp
    then show ?thesis using cut_out_ok(1) [OF v(3), of i] Some v(2) by (simp add: after_removal_def)
  qed
  then have "items (snd ?r) (fst ?r) = after_removal s (tb_at t0 f)" by (simp add: result_ok_def)
  then show ?thesis using writable_set [OF assms w r] writable_del [OF assms w r] w by (simp add: fqn_without_def Let_def)
qed

lemma unregister_fields [simp]:
  "ix_reexported (unregister f idx) = ix_reexported idx" "ix_hidden (unregister f idx) = ix_hidden idx" "ix_fqn (unregister f idx) = ix_fqn idx"
  "ix_reexportDocs (unregister f idx) = ix_reexportDocs idx" "ix_docReexports (unregister f idx) = ix_docReexports idx"
  "ix_over (unregister f idx) = ix_over idx" "ix_bySegment (unregister f idx) = ix_bySegment idx" "ix_pending (unregister f idx) = ix_pending idx"
  by (auto simp: unregister_def Let_def split: prod.split)

lemma unregisterSegment_fields [simp]:
  "ix_reexported (unregisterSegment r f idx) = ix_reexported idx" "ix_hidden (unregisterSegment r f idx) = ix_hidden idx"
  "ix_fqn (unregisterSegment r f idx) = ix_fqn idx"
  "ix_reexportDocs (unregisterSegment r f idx) = ix_reexportDocs idx" "ix_docReexports (unregisterSegment r f idx) = ix_docReexports idx"
  "ix_over (unregisterSegment r f idx) = ix_over idx" "ix_children (unregisterSegment r f idx) = ix_children idx"
  by (auto simp: unregisterSegment_def settleSegments_def Let_def split: prod.split)

text \<open>What these two leave of the tables, from the tables alone.\<close>

lemma unregister_children:
  "ix_children (unregister f idx) =
     (let p = fst (splitFQN f); r = removeSorted (ix_children idx) p f
      in if tb_get (ix_children idx) p = None then ix_children idx else if fst r = [] then tb_del (snd r) p else snd r)"
  by (simp add: unregister_def Let_def split: prod.split)

lemma unregisterSegment_segments:
  "ix_bySegment (unregisterSegment r f idx) =
     (if fst (splitFQN f) = [] then ix_bySegment idx
      else
        let n = snd (splitFQN f);
            t = fold (\<lambda>name. settle_segment name (the (ix_pending idx name))) (r (ix_pending idx)) (ix_bySegment idx);
            q = removeSorted t n f
        in if tb_get t n = None then t else if fst q = [] then tb_del (snd q) n else snd q)"
  "ix_pending (unregisterSegment r f idx) = (if fst (splitFQN f) = [] then ix_pending idx else Map.empty)"
  by (cases "splitFQN f"; simp add: unregisterSegment_def settleSegments_def Let_def split: prod.split)+

lemma deregister_fields:
  assumes "after_removal s (tb_at (ix_fqn idx) f) = xs" "tb_ok (ix_fqn idx)"
  shows "ix_fqn (deregister r f s idx) = fqn_without f s (ix_fqn idx)"
    "ix_reexported (deregister r f s idx) = (if xs = [] then tb_del (ix_reexported idx) f else clearMark (ix_reexported idx) f s)"
    "ix_hidden (deregister r f s idx) = (if xs = [] then tb_del (ix_hidden idx) f else clearMark (ix_hidden idx) f s)"
    "ix_reexportDocs (deregister r f s idx) = ix_reexportDocs idx" "ix_docReexports (deregister r f s idx) = ix_docReexports idx"
    "ix_over (deregister r f s idx) = ix_over idx"
    "ix_children (deregister r f s idx) = (if xs = [] then ix_children (unregister f idx) else ix_children idx)"
    "ix_bySegment (deregister r f s idx) = (if xs = [] then ix_bySegment (unregisterSegment r f idx) else ix_bySegment idx)"
    "ix_pending (deregister r f s idx) = (if xs = [] then ix_pending (unregisterSegment r f idx) else ix_pending idx)"
proof -
  obtain out t where w: "writableSlice (ix_fqn idx) f = (out, t)" by force
  note v = writableSlice_ok [OF assms(2) w]
  let ?r = "case index_in s (items (tb_store t) out) of Some i \<Rightarrow> cut_out (tb_store t) out i | None \<Rightarrow> (out, tb_store t)"
  have x: "items (snd ?r) (fst ?r) = xs"
  proof (cases "index_in s (tb_at (ix_fqn idx) f)")
    case None
    then show ?thesis using v(2) assms(1) by (simp add: after_removal_def)
  next
    case (Some i)
    then have "i < sl_len out" using index_in_less [OF Some] v(2) length_items [OF v(3)] by simp
    then show ?thesis using cut_out_ok(1) [OF v(3), of i] Some v(2) assms(1) by (simp add: after_removal_def result_ok_def)
  qed
  note d = deregister_def fqn_without_def Let_def w x
  show "ix_fqn (deregister r f s idx) = fqn_without f s (ix_fqn idx)" by (simp add: d)
  show "ix_reexported (deregister r f s idx) = (if xs = [] then tb_del (ix_reexported idx) f else clearMark (ix_reexported idx) f s)"
    "ix_hidden (deregister r f s idx) = (if xs = [] then tb_del (ix_hidden idx) f else clearMark (ix_hidden idx) f s)"
    "ix_reexportDocs (deregister r f s idx) = ix_reexportDocs idx" "ix_docReexports (deregister r f s idx) = ix_docReexports idx"
    "ix_over (deregister r f s idx) = ix_over idx"
    by (simp_all add: d)
  show "ix_children (deregister r f s idx) = (if xs = [] then ix_children (unregister f idx) else ix_children idx)"
    "ix_bySegment (deregister r f s idx) = (if xs = [] then ix_bySegment (unregisterSegment r f idx) else ix_bySegment idx)"
    "ix_pending (deregister r f s idx) = (if xs = [] then ix_pending (unregisterSegment r f idx) else ix_pending idx)"
    by (simp_all add: d unregister_children unregisterSegment_segments)
qed

definition members :: "'f index \<Rightarrow> string \<Rightarrow> nat set" where
  "members idx f = set (tb_at (ix_fqn idx) f)"

definition in_segment :: "'f index \<Rightarrow> string \<Rightarrow> string set" where
  "in_segment idx n = {f. registered idx f \<and> snd (splitFQN f) = n \<and> fst (splitFQN f) \<noteq> []}"

lemma settleSegments_ok:
  assumes "names_ok idx" "ranges r"
  shows "keys_ok (ix_bySegment (settleSegments r idx)) (in_segment idx)" "frozen_kept (ix_bySegment idx) (ix_bySegment (settleSegments r idx))"
proof -
  obtain S where S: "keys_ok (ix_bySegment idx) S" "\<And>n. S n \<union> pending_of idx n = in_segment idx n"
    using assms(1) by (auto simp: names_ok_def in_segment_def)
  have p: "set (r (ix_pending idx)) = dom (ix_pending idx)" using assms by (simp add: names_ok_def ranges_def)
  note a = keys_ok_settle_all [OF S(1), where f = "\<lambda>n. the (ix_pending idx n)" and ns = "r (ix_pending idx)"]
  have "(\<lambda>n. S n \<union> (if n \<in> set (r (ix_pending idx)) then set (the (ix_pending idx n)) else {})) = in_segment idx"
    unfolding S(2) [symmetric] by (auto simp: fun_eq_iff p pending_of_def)
  then show "keys_ok (ix_bySegment (settleSegments r idx)) (in_segment idx)" "frozen_kept (ix_bySegment idx) (ix_bySegment (settleSegments r idx))"
    using a by (simp_all add: settleSegments_def)
qed

lemma removed_key:
  assumes "keys_ok t S" "removeSorted t k f = (rest, t')"
  shows "keys_ok (if tb_get t k = None then t else if rest = [] then tb_del t' k else t') (\<lambda>n. if n = k then S n - {f} else S n)"
    "frozen_kept t (if tb_get t k = None then t else if rest = [] then tb_del t' k else t')"
proof -
  have e: "(\<lambda>n. if n = k then S n - {f} else S n) = S(k := S k - {f})" by (simp add: fun_eq_iff)
  have n: "S k = {}" if "tb_get t k = None" using assms(1) that by (auto simp: keys_ok_def tb_at_get dest: spec [of _ k])
  show "keys_ok (if tb_get t k = None then t else if rest = [] then tb_del t' k else t') (\<lambda>n. if n = k then S n - {f} else S n)"
    unfolding e using keys_ok_remove(1) [OF assms] n assms(1) by (simp add: fun_upd_idem)
  show "frozen_kept t (if tb_get t k = None then t else if rest = [] then tb_del t' k else t')"
    using keys_ok_remove(2) [OF assms] by simp
qed

lemma unregister_ok:
  assumes "keys_ok (ix_children idx) S"
  shows "keys_ok (ix_children (unregister f idx)) (\<lambda>n. if n = fst (splitFQN f) then S n - {f} else S n)"
    "frozen_kept (ix_children idx) (ix_children (unregister f idx))"
proof -
  obtain rest t where r: "removeSorted (ix_children idx) (fst (splitFQN f)) f = (rest, t)" by force
  have "ix_children (unregister f idx) =
      (if tb_get (ix_children idx) (fst (splitFQN f)) = None then ix_children idx
       else if rest = [] then tb_del t (fst (splitFQN f)) else t)" by (simp add: unregister_def Let_def r)
  then show "keys_ok (ix_children (unregister f idx)) (\<lambda>n. if n = fst (splitFQN f) then S n - {f} else S n)"
    "frozen_kept (ix_children idx) (ix_children (unregister f idx))"
    using removed_key [OF assms r] by simp_all
qed

lemma unregisterSegment_ok:
  assumes "names_ok idx" "ranges r" "fst (splitFQN f) \<noteq> []"
  shows "keys_ok (ix_bySegment (unregisterSegment r f idx)) (\<lambda>n. in_segment idx n - {f})"
    "frozen_kept (ix_bySegment idx) (ix_bySegment (unregisterSegment r f idx))" "ix_pending (unregisterSegment r f idx) = Map.empty"
proof -
  let ?n = "snd (splitFQN f)"
  let ?t = "ix_bySegment (settleSegments r idx)"
  obtain rest t where rm: "removeSorted ?t ?n f = (rest, t)" by force
  note s = settleSegments_ok [OF assms(1,2)]
  have e: "ix_bySegment (unregisterSegment r f idx) = (if tb_get ?t ?n = None then ?t else if rest = [] then tb_del t ?n else t)"
    using assms(3) rm by (cases "splitFQN f") (simp add: unregisterSegment_def Let_def)
  have "(\<lambda>n. if n = ?n then in_segment idx n - {f} else in_segment idx n) = (\<lambda>n. in_segment idx n - {f})"
    by (auto simp: in_segment_def fun_eq_iff)
  then show "keys_ok (ix_bySegment (unregisterSegment r f idx)) (\<lambda>n. in_segment idx n - {f})"
    using removed_key(1) [OF s(1) rm] by (simp add: e)
  show "frozen_kept (ix_bySegment idx) (ix_bySegment (unregisterSegment r f idx))"
    using removed_key(2) [OF s(1) rm] s(2) frozen_kept_trans by (auto simp: e)
  show "ix_pending (unregisterSegment r f idx) = Map.empty"
    using assms(3) by (auto simp: unregisterSegment_def Let_def settleSegments_def split: prod.split)
qed

lemma deregister_ok:
  assumes n: "names_ok idx" and r: "ranges r" and s: "s \<in> members idx f"
    and m: "marks_are (ix_reexported idx) M" "marks_are (ix_hidden idx) H"
  shows "names_ok (deregister r f s idx)"
    "base_kept idx (deregister r f s idx)"
    "members (deregister r f s idx) g = (if g = f then members idx f - {s} else members idx g)"
proof -
  let ?d = "deregister r f s idx" and ?p = "fst (splitFQN f)"
  define xs where "xs = after_removal s (tb_at (ix_fqn idx) f)"
  note k = names_okD [OF n]
  note e = deregister_fields [OF xs_def [symmetric] k(1), of r]
  have w: "wrote (ix_fqn idx) ((tb_get (ix_fqn idx))(f := (if xs = [] then None else Some xs))) (ix_fqn ?d)"
    unfolding e(1) xs_def by (rule fqn_without_ok [OF k(1)])
  then have get: "tb_get (ix_fqn ?d) = (tb_get (ix_fqn idx))(f := (if xs = [] then None else Some xs))" "tb_ok (ix_fqn ?d)"
    by (simp_all add: wrote_def)
  have xs: "distinct xs" "set xs = members idx f - {s}" using after_removal_ok [OF k(3)] by (simp_all add: xs_def members_def)
  have at: "tb_at (ix_fqn ?d) g = (if g = f then xs else tb_at (ix_fqn idx) g)" for g by (simp add: tb_at_get get(1))
  then show "members ?d g = (if g = f then members idx f - {s} else members idx g)" for g using xs(2) by (simp add: members_def)
  have reg: "registered idx f" using s by (cases "tb_get (ix_fqn idx) f") (simp_all add: registered_def members_def tb_at_get)
  have R: "registered ?d g \<longleftrightarrow> registered idx g \<and> \<not> (g = f \<and> xs = [])" for g
    using reg by (auto simp: registered_def get(1))
  have kids: "keys_ok (ix_children ?d) (\<lambda>p. {g. registered ?d g \<and> fst (splitFQN g) = p})"
  proof (cases "xs = []")
    case True
    have "(\<lambda>p. if p = ?p then {g. registered idx g \<and> fst (splitFQN g) = p} - {f} else {g. registered idx g \<and> fst (splitFQN g) = p}) =
        (\<lambda>p. {g. registered ?d g \<and> fst (splitFQN g) = p})" by (auto simp: R True fun_eq_iff)
    then show ?thesis using unregister_ok(1) [OF k(5), of f] True e(7) by (simp only: if_True simp_thms)
  qed (use k(5) in \<open>simp add: e R\<close>)
  have segs: "\<exists>S. keys_ok (ix_bySegment ?d) S \<and> (\<forall>n. S n \<union> pending_of ?d n = in_segment ?d n)"
  proof (cases "xs = [] \<and> ?p \<noteq> []")
    case True
    note u = unregisterSegment_ok [OF n r, of f]
    have "pending_of ?d n = {}" for n using True u(3) by (simp add: e pending_of_def)
    moreover have "in_segment ?d n = in_segment idx n - {f}" for n using True by (auto simp: in_segment_def R)
    ultimately show ?thesis using True u(1) by (intro exI [of _ "\<lambda>n. in_segment idx n - {f}"]) (simp add: e)
  next
    case False
    then have "ix_bySegment ?d = ix_bySegment idx" "ix_pending ?d = ix_pending idx"
      by (auto simp: e unregisterSegment_def split: prod.split)
    moreover have "in_segment ?d n = in_segment idx n" for n using False by (auto simp: in_segment_def R)
    ultimately show ?thesis using n by (auto simp: names_ok_def pending_of_def in_segment_def)
  qed
  have "finite (dom (ix_pending ?d))"
    using k(4) unregisterSegment_ok(3) [OF n r, of f] by (cases "?p = []") (auto simp: e unregisterSegment_def split: prod.split)
  moreover have "tb_get (ix_fqn ?d) g \<noteq> Some [] \<and> distinct (tb_at (ix_fqn ?d) g)" for g
    using k(2,3) xs(1) by (auto simp: get(1) at)
  ultimately show "names_ok ?d" using get(2) kids segs unfolding names_ok_def in_segment_def by blast
  have "frozen_kept (ix_bySegment idx) (ix_bySegment ?d)"
    using unregisterSegment_ok(2) [OF n r, of f] by (cases "?p = []") (auto simp: e unregisterSegment_def split: prod.split)
  moreover have "frozen_kept (ix_fqn idx) (ix_fqn ?d)" using w by (simp add: wrote_def)
  moreover have "frozen_kept (ix_children idx) (ix_children ?d)" using unregister_ok(2) [OF k(5)] by (simp add: e)
  ultimately show "base_kept idx ?d"
    using marks_are_del(2) [OF m(1)] marks_are_del(2) [OF m(2)] marks_are_clear(2) [OF m(1)] marks_are_clear(2) [OF m(2)]
    by (simp add: base_kept_def e)
qed

lemma deregister_marks:
  assumes "names_ok idx" "marks_are (ix_reexported idx) M" "marks_are (ix_hidden idx) H" "M f \<subseteq> members idx f" "H f \<subseteq> members idx f"
  shows "marks_are (ix_reexported (deregister r f s idx)) (M(f := M f - {s}))" "marks_are (ix_hidden (deregister r f s idx)) (H(f := H f - {s}))"
proof -
  note e = deregister_fields [OF refl names_okD(1) [OF assms(1)], of r f s]
  have "marks_are (ix_reexported (deregister r f s idx)) (M(f := M f - {s})) \<and>
      marks_are (ix_hidden (deregister r f s idx)) (H(f := H f - {s}))"
  proof (cases "after_removal s (tb_at (ix_fqn idx) f) = []")
    case True
    then have "M f - {s} = {}" "H f - {s} = {}"
      using after_removal_ok [OF names_okD(3) [OF assms(1)], of s f] assms(4,5) by (auto simp: members_def)
    then show ?thesis using marks_are_del(1) [OF assms(2), of f] marks_are_del(1) [OF assms(3), of f] e(2,3) True by (simp only: if_True simp_thms)
  qed (use marks_are_clear(1) [OF assms(2), of f s] marks_are_clear(1) [OF assms(3), of f s] in \<open>simp add: e\<close>)
  then show "marks_are (ix_reexported (deregister r f s idx)) (M(f := M f - {s}))" "marks_are (ix_hidden (deregister r f s idx)) (H(f := H f - {s}))"
    by auto
qed

end
