(* ===== verification/Index_Reexports.thy ===== *)
theory Index_Reexports
  imports Symbol_Index_Correct
begin

text \<open>
  The claims on re-exports: every write to them keeps the marks and the documents' own lists in line
  with the claims. Then the writes as steps, the indexes they reach, and what a lookup answers there.
\<close>

section \<open>Claims and marks\<close>

definition index_ok :: "'f index \<Rightarrow> bool" where
  "index_ok idx = (names_ok idx \<and> reexports_ok idx \<and> inverse_ok idx)"

abbreviation claimed :: "'f index \<Rightarrow> string \<Rightarrow> nat set" where
  "claimed idx f \<equiv> {s. claims_of idx (f, s) \<noteq> Map.empty}"

abbreviation hidden_members :: "'f index \<Rightarrow> string \<Rightarrow> nat set" where
  "hidden_members idx f \<equiv> {s. hidden_by (claims_of idx (f, s))}"

lemma names_ok_cong:
  assumes "ix_fqn idx' = ix_fqn idx" "ix_children idx' = ix_children idx" "ix_bySegment idx' = ix_bySegment idx" "ix_pending idx' = ix_pending idx"
  shows "names_ok idx' = names_ok idx" "members idx' = members idx"
proof -
  show "names_ok idx' = names_ok idx" using assms by (simp add: names_ok_def registered_def pending_of_def)
  show "members idx' = members idx" using assms(1) by (simp add: members_def fun_eq_iff)
qed

lemma reexports_okD:
  assumes "reexports_ok idx"
  shows "layer_ok (ix_reexportDocs idx)" "layer_ok (ix_docReexports idx)"
    "claimed idx f \<subseteq> members idx f"
    "marks_are (ix_reexported idx) (claimed idx)" "marks_are (ix_hidden idx) (hidden_members idx)" "hidden_members idx f \<subseteq> members idx f"
  using assms by (auto simp: reexports_ok_def members_def hidden_by_def)

lemma claims_finite: "reexports_ok idx \<Longrightarrow> finite (dom (claims_of idx key))"
  unfolding reexports_ok_def by blast

lemma claims_set: "layer_at Map.empty (layer_set l key docs) = (layer_at Map.empty l)(key := docs)"
  "layer_at Map.empty (layer_del l key) = (layer_at Map.empty l)(key := Map.empty)"
  by (simp_all add: layer_at_def layer_get_set layer_get_del fun_eq_iff)

lemma docs_write: "layer_at Map.empty (write_entry l doc key v) = (layer_at Map.empty l)(doc := (layer_at Map.empty l doc)(key \<mapsto> v))"
  by (simp add: layer_at_def write_entry_get fun_eq_iff split: option.split)

lemma applyReexportMarks_fields [simp]:
  "ix_fqn (applyReexportMarks key docs idx) = ix_fqn idx" "ix_children (applyReexportMarks key docs idx) = ix_children idx"
  "ix_bySegment (applyReexportMarks key docs idx) = ix_bySegment idx" "ix_pending (applyReexportMarks key docs idx) = ix_pending idx"
  "ix_reexportDocs (applyReexportMarks key docs idx) = ix_reexportDocs idx" "ix_docReexports (applyReexportMarks key docs idx) = ix_docReexports idx"
  "ix_over (applyReexportMarks key docs idx) = ix_over idx"
  by (simp_all add: applyReexportMarks_def Let_def split: prod.split)

lemma applied_marks [simp]:
  "ix_reexported (applyReexportMarks key docs idx) =
     (if docs = Map.empty then clearMark (ix_reexported idx) (fst key) (snd key) else setMark (ix_reexported idx) (fst key) (snd key))"
  "ix_hidden (applyReexportMarks key docs idx) =
     (if hidden_by docs then setMark (ix_hidden idx) (fst key) (snd key) else clearMark (ix_hidden idx) (fst key) (snd key))"
  by (auto simp: applyReexportMarks_def Let_def hidden_by_def split: prod.split)

lemma applyReexportMarks_ok:
  assumes "marks_are (ix_reexported idx) M" "marks_are (ix_hidden idx) H"
  shows "marks_are (ix_reexported (applyReexportMarks (f, s) docs idx)) (M(f := (if docs = Map.empty then M f - {s} else insert s (M f))))"
    "marks_are (ix_hidden (applyReexportMarks (f, s) docs idx)) (H(f := (if hidden_by docs then insert s (H f) else H f - {s})))"
    "frozen_kept (ix_reexported idx) (ix_reexported (applyReexportMarks (f, s) docs idx))"
    "frozen_kept (ix_hidden idx) (ix_hidden (applyReexportMarks (f, s) docs idx))"
  using marks_are_set [OF assms(1), of f s] marks_are_set [OF assms(2), of f s] marks_are_clear [OF assms(1), of f s]
    marks_are_clear [OF assms(2), of f s]
  by simp_all

text \<open>New claims on a key of a member, with the marks they call for.\<close>

definition reclaimed :: "reexportKey \<Rightarrow> 'f claims \<Rightarrow> 'f index \<Rightarrow> 'f index \<Rightarrow> bool" where
  "reclaimed key docs idx idx' =
     (names_ok idx' \<and> members idx' = members idx \<and> claims_of idx' = (claims_of idx)(key := docs) \<and>
      layer_ok (ix_reexportDocs idx') \<and> base_kept idx idx' \<and>
      marks_are (ix_reexported idx') (claimed idx') \<and> marks_are (ix_hidden idx') (hidden_members idx'))"

lemma reclaimedI:
  assumes idx: "names_ok idx" "reexports_ok idx" and docs: "docs \<noteq> Map.empty"
    and tables: "ix_fqn idx' = ix_fqn idx" "ix_children idx' = ix_children idx" "ix_bySegment idx' = ix_bySegment idx"
      "ix_pending idx' = ix_pending idx" "ix_over idx' = ix_over idx"
      "ix_reexportDocs idx' = layer_set (ix_reexportDocs idx) key docs" "ly_base (ix_docReexports idx') = ly_base (ix_docReexports idx)"
    and marks: "ix_reexported idx' = ix_reexported (applyReexportMarks key docs idx) \<and> ix_hidden idx' = ix_hidden (applyReexportMarks key docs idx) \<or>
      ix_reexported idx' = ix_reexported idx \<and> ix_hidden idx' = ix_hidden idx \<and>
      claims_of idx key \<noteq> Map.empty \<and> hidden_by (claims_of idx key) = hidden_by docs"
  shows "reclaimed key docs idx idx'"
proof -
  obtain f s where key: "key = (f, s)" by force
  note m = reexports_okD(4,5) [OF idx(2)]
  note a = applyReexportMarks_ok [OF m, of f s docs]
  have c: "claims_of idx' = (claims_of idx)(key := docs)" by (rule ext) (simp add: claims_of_def tables claims_set)
  have R: "claimed idx' = (claimed idx)(f := insert s (claimed idx f))" by (rule ext) (use docs in \<open>auto simp: c key\<close>)
  have H: "hidden_members idx' = (hidden_members idx)(f := (if hidden_by docs then insert s (hidden_members idx f) else hidden_members idx f - {s}))"
    by (auto simp: c key fun_eq_iff)
  have "marks_are (ix_reexported idx') (claimed idx') \<and> marks_are (ix_hidden idx') (hidden_members idx') \<and>
      frozen_kept (ix_reexported idx) (ix_reexported idx') \<and> frozen_kept (ix_hidden idx) (ix_hidden idx')"
  proof (cases "ix_reexported idx' = ix_reexported (applyReexportMarks key docs idx) \<and> ix_hidden idx' = ix_hidden (applyReexportMarks key docs idx)")
    case True
    then show ?thesis unfolding R H using a docs by (simp add: key)
  next
    case False
    then have k: "ix_reexported idx' = ix_reexported idx" "ix_hidden idx' = ix_hidden idx" "claims_of idx (f, s) \<noteq> Map.empty"
      "hidden_by (claims_of idx (f, s)) = hidden_by docs" using marks by (auto simp: key)
    have "claimed idx' = claimed idx" "hidden_members idx' = hidden_members idx"
      unfolding R H using k(3,4) by (auto simp: fun_eq_iff)
    then show ?thesis using m by (simp add: k)
  qed
  then show ?thesis
    unfolding reclaimed_def using idx(1) names_ok_cong [OF tables(1,2,3,4)] c tables layer_set_ok [OF reexports_okD(1) [OF idx(2)]]
    by (simp add: base_kept_def)
qed

lemma reclaimed_ok:
  assumes "reclaimed key docs idx idx'" "reexports_ok idx" "layer_ok (ix_docReexports idx')" "snd key \<in> members idx (fst key)" "finite (dom docs)"
  shows "reexports_ok idx'"
proof -
  note c = assms(1) [unfolded reclaimed_def]
  have "finite (dom (claims_of idx' k))" for k using c claims_finite [OF assms(2)] assms(5) by simp
  moreover have "s \<in> set (tb_at (ix_fqn idx') f)" if h: "claims_of idx' (f, s) \<noteq> Map.empty" for f s
  proof (cases "(f, s) = key")
    case True
    then show ?thesis using c assms(4) by (auto simp: members_def fun_eq_iff)
  next
    case False
    then have "s \<in> members idx f" using c h reexports_okD(3) [OF assms(2), of f] by auto
    then show ?thesis using c by (auto simp: members_def fun_eq_iff)
  qed
  ultimately show ?thesis using c assms(3) unfolding reexports_ok_def by blast
qed

text \<open>Claims all gone: the key is taken off.\<close>

definition unclaimed :: "reexportKey \<Rightarrow> 'f index \<Rightarrow> 'f index \<Rightarrow> bool" where
  "unclaimed key idx idx' =
     (names_ok idx' \<and> members idx' = (members idx)(fst key := members idx (fst key) - {snd key}) \<and>
      claims_of idx' = (claims_of idx)(key := Map.empty) \<and> layer_ok (ix_reexportDocs idx') \<and> base_kept idx idx' \<and>
      marks_are (ix_reexported idx') (claimed idx') \<and> marks_are (ix_hidden idx') (hidden_members idx'))"

lemma unclaimedI:
  assumes idx: "names_ok idx" "reexports_ok idx" and claims: "claims_of idx key \<noteq> Map.empty" and r: "ranges r"
    and tables: "ix_fqn i = ix_fqn idx" "ix_children i = ix_children idx" "ix_bySegment i = ix_bySegment idx" "ix_pending i = ix_pending idx"
      "ix_over i = ix_over idx" "ix_reexported i = ix_reexported idx" "ix_hidden i = ix_hidden idx"
      "ix_reexportDocs i = layer_del (ix_reexportDocs idx) key" "ly_base (ix_docReexports i) = ly_base (ix_docReexports idx)"
  shows "unclaimed key idx (deregister r (fst key) (snd key) i)"
proof -
  obtain f s where key: "key = (f, s)" by force
  let ?d = "deregister r f s i"
  note m = reexports_okD [OF idx(2)]
  have n: "names_ok i" "members i = members idx" using names_ok_cong [OF tables(1-4)] idx(1) by simp_all
  have s: "s \<in> members i f" using claims m(3) n(2) by (auto simp: key)
  have mi: "marks_are (ix_reexported i) (claimed idx)" "marks_are (ix_hidden i) (hidden_members idx)" using m(4,5) by (simp_all add: tables)
  note d = deregister_ok [OF n(1) r s mi]
  note e = deregister_fields [OF refl names_okD(1) [OF n(1)], of r f s]
  have c: "claims_of ?d = (claims_of idx)(key := Map.empty)" by (rule ext) (simp add: claims_of_def e tables claims_set key)
  have "claimed ?d = (claimed idx)(f := claimed idx f - {s})" "hidden_members ?d = (hidden_members idx)(f := hidden_members idx f - {s})"
    by (auto simp: c key hidden_by_def fun_eq_iff)
  moreover have "claimed idx f \<subseteq> members i f" "hidden_members idx f \<subseteq> members i f" using m(3,6) n(2) by simp_all
  ultimately have "marks_are (ix_reexported ?d) (claimed ?d)" "marks_are (ix_hidden ?d) (hidden_members ?d)"
    using deregister_marks [OF n(1) mi, of f r s] by simp_all
  moreover have "base_kept idx i" by (simp add: base_kept_def tables)
  moreover have "layer_ok (ix_reexportDocs ?d)" using layer_del_ok [OF m(1)] by (simp add: e tables)
  moreover have "members ?d = (members idx)(f := members idx f - {s})" by (rule ext) (simp add: d(3) n(2))
  ultimately show ?thesis
    unfolding unclaimed_def key fst_conv snd_conv using d(1,2) c [unfolded key] base_kept_trans by blast
qed

section \<open>Claiming a re-export\<close>

lemma ex_ran: "(\<exists>c \<in> ran m. P c) = (\<exists>d c. m d = Some c \<and> P c)"
  by (auto simp: ran_def)

lemma record_gates_public: "cl_public (fst (record_gates priv gates r)) = cl_public (fst r)"
proof (induction priv gates r rule: record_gates.induct)
  case (2 priv gate gates c widened)
  show ?case
  proof (cases "record_route \<lparr>gr_private = priv, gr_filters = gate\<rparr> c")
    case (Pair c' more)
    then have "cl_public c' = cl_public c" by (auto simp: record_route_def split: if_splits)
    then show ?thesis using 2 [OF Pair [symmetric] refl] Pair by simp
  qed
qed simp

lemma inverse_ok_write:
  assumes "inverse_ok idx" "claims_of idx' = (claims_of idx)(key := (claims_of idx key)(doc \<mapsto> claim))"
    "docs_of idx' = (docs_of idx)(doc := (docs_of idx doc)(key \<mapsto> True)) \<or> docs_of idx' = docs_of idx \<and> claims_of idx key doc \<noteq> None"
  shows "inverse_ok idx'"
  unfolding inverse_ok_def
proof (intro allI)
  fix d k
  have "docs_of idx d k \<noteq> None \<longleftrightarrow> claims_of idx k d \<noteq> None" using assms(1) unfolding inverse_ok_def by blast
  then show "docs_of idx' d k \<noteq> None \<longleftrightarrow> claims_of idx' k d \<noteq> None" using assms(2,3) by (cases "d = doc"; cases "k = key") auto
qed

lemma claimReexport_ok:
  fixes idx :: "'f index"
  assumes "index_ok idx" "snd key \<in> members idx (fst key)"
  shows "index_ok (snd (claimReexport key doc public gates idx))" "base_kept idx (snd (claimReexport key doc public gates idx))"
    "members (snd (claimReexport key doc public gates idx)) = members idx"
    "claims_of (snd (claimReexport key doc public gates idx)) key doc \<noteq> None"
proof -
  let ?i = "snd (claimReexport key doc public gates idx)"
  have idx: "names_ok idx" "reexports_ok idx" "inverse_ok idx" using assms(1) by (simp_all add: index_ok_def)
  define docs where "docs = claims_of idx key"
  define before :: "'f reexportClaim" where "before = (case docs doc of Some have \<Rightarrow> have | None \<Rightarrow> \<lparr>cl_public = False, cl_routes = []\<rparr>)"
  define upgraded where "upgraded = (docs doc = None \<or> public \<and> \<not> cl_public before)"
  obtain claim widened where g: "record_gates (\<not> public) gates (before\<lparr>cl_public := cl_public before \<or> public\<rparr>, False) = (claim, widened)" by force
  have p: "cl_public claim = (cl_public before \<or> public)"
    using record_gates_public [of "\<not> public" gates "(before\<lparr>cl_public := cl_public before \<or> public\<rparr>, False)"] by (simp add: g)
  let ?docs = "docs(doc \<mapsto> claim)"
  have d: "?i = (if \<not> upgraded \<and> \<not> widened then noteBefore (fst key) idx
      else if upgraded then
        markGained (fst (splitFQN (fst key))) (applyReexportMarks key ?docs
          ((changedName (fst key) (noteBefore (fst key) idx\<lparr>ix_reexportDocs := layer_set (ix_reexportDocs idx) key ?docs\<rparr>))
             \<lparr>ix_docReexports := write_entry (ix_docReexports idx) doc key True\<rparr>))
      else noteBefore (fst key) idx\<lparr>ix_reexportDocs := layer_set (ix_reexportDocs idx) key ?docs\<rparr>)"
    unfolding claimReexport_def Let_def log_fields docs_def [unfolded claims_of_def, symmetric]
    unfolding before_def [symmetric]
    unfolding upgraded_def [symmetric] g
    by simp
  consider (same) "\<not> upgraded" "\<not> widened" | (up) upgraded | (more) "\<not> upgraded" widened by blast
  then have "?i = noteBefore (fst key) idx \<and> docs doc \<noteq> None \<or> reclaimed key ?docs idx ?i \<and> layer_ok (ix_docReexports ?i) \<and>
      (docs_of ?i = (docs_of idx)(doc := (docs_of idx doc)(key \<mapsto> True)) \<or> docs_of ?i = docs_of idx \<and> docs doc \<noteq> None)"
  proof cases
    case same
    then have "docs doc \<noteq> None" by (simp add: upgraded_def)
    moreover have "?i = noteBefore (fst key) idx" using same by (simp add: d)
    ultimately show ?thesis by blast
  next
    case up
    have "docs_of ?i = (docs_of idx)(doc := (docs_of idx doc)(key \<mapsto> True))" by (rule ext) (simp add: docs_of_def d up docs_write)
    moreover have "layer_ok (ix_docReexports ?i)" by (simp add: d up write_entry_ok reexports_okD(2) [OF idx(2)])
    moreover have "reclaimed key ?docs idx ?i"
      by (rule reclaimedI [OF idx(1,2)]) (simp_all add: d up write_entry_base)
    ultimately show ?thesis by blast
  next
    case more
    have dd: "docs doc = Some before" "\<not> public \<or> cl_public before" using more(1) by (auto simp: upgraded_def before_def)
    have "cl_public claim = cl_public before" using dd(2) p by auto
    then have "(\<exists>d c. ?docs d = Some c \<and> cl_public c) = (\<exists>d c. docs d = Some c \<and> cl_public c)"
      using dd(1) by (metis fun_upd_apply option.inject)
    then have "(\<exists>c \<in> ran ?docs. cl_public c) = (\<exists>c \<in> ran docs. cl_public c)" unfolding ex_ran .
    moreover have "docs \<noteq> Map.empty" using dd(1) by auto
    ultimately have "hidden_by (claims_of idx key) = hidden_by ?docs" "claims_of idx key \<noteq> Map.empty"
      by (simp_all add: hidden_by_def docs_def [symmetric])
    then have "reclaimed key ?docs idx ?i"
      by (intro reclaimedI [OF idx(1,2)]) (simp_all add: d more)
    moreover have "docs_of ?i = docs_of idx" by (rule ext) (simp add: docs_of_def d more)
    moreover have "layer_ok (ix_docReexports ?i)" using reexports_okD(2) [OF idx(2)] by (simp add: d more)
    ultimately show ?thesis using dd(1) by simp
  qed
  then have "index_ok ?i \<and> base_kept idx ?i \<and> members ?i = members idx \<and> claims_of ?i key doc \<noteq> None"
  proof (rule disjE; elim conjE)
    assume e: "?i = noteBefore (fst key) idx" "docs doc \<noteq> None"
    have "names_ok ?i" "members ?i = members idx" using names_ok_cong [of ?i idx] idx(1) by (simp_all add: e(1))
    then show ?thesis using idx(2,3) e by (simp add: index_ok_def reexports_ok_def inverse_ok_def claims_of_def docs_of_def base_kept_def docs_def)
  next
    assume r: "reclaimed key ?docs idx ?i" "layer_ok (ix_docReexports ?i)"
      "docs_of ?i = (docs_of idx)(doc := (docs_of idx doc)(key \<mapsto> True)) \<or> docs_of ?i = docs_of idx \<and> docs doc \<noteq> None"
    then have c: "claims_of ?i = (claims_of idx)(key := (claims_of idx key)(doc \<mapsto> claim))" "names_ok ?i" "members ?i = members idx" "base_kept idx ?i"
      by (simp_all add: reclaimed_def docs_def)
    have "reexports_ok ?i" using reclaimed_ok [OF r(1) idx(2) r(2) assms(2)] by (simp add: docs_def claims_finite [OF idx(2)])
    moreover have "inverse_ok ?i" using inverse_ok_write [OF idx(3) c(1)] r(3) by (simp add: docs_def)
    ultimately show ?thesis using c by (simp add: index_ok_def)
  qed
  then show "index_ok ?i" "base_kept idx ?i" "members ?i = members idx" "claims_of ?i key doc \<noteq> None" by auto
qed

text \<open>A wildcard import surfaces a name.\<close>

lemma link_keeps_claims: "claims_of (link syms f s idx) = claims_of idx" "docs_of (link syms f s idx) = docs_of idx"
  by (simp_all add: claims_of_def docs_of_def fun_eq_iff del: claims_set)

lemma link_index_ok:
  assumes "index_ok idx" "s \<notin> members idx f"
  shows "index_ok (link syms f s idx)" "base_kept idx (link syms f s idx)" "s \<in> members (link syms f s idx) f"
proof -
  note l = link_ok [OF _ assms(2) [unfolded members_def]]
  have i: "names_ok idx" "reexports_ok idx" "inverse_ok idx" using assms(1) by (simp_all add: index_ok_def)
  show "base_kept idx (link syms f s idx)" "s \<in> members (link syms f s idx) f"
    using l(2,3) [OF i(1)] by (simp_all add: members_def)
  have "claimed idx g \<subseteq> members (link syms f s idx) g" for g
    using reexports_okD(3) [OF i(2), of g] l(3) [OF i(1), of syms g] by (auto simp: members_def simp del: link_fields)
  then have "reexports_ok (link syms f s idx)"
    using i(2) unfolding reexports_ok_def by (simp add: link_keeps_claims members_def subset_eq del: link_fields(6))
  moreover have "inverse_ok (link syms f s idx)" using i(3) by (simp add: inverse_ok_def link_keeps_claims)
  ultimately show "index_ok (link syms f s idx)" using l(1) [OF i(1)] by (simp add: index_ok_def)
qed

lemma same_tables:
  assumes "ix_fqn idx' = ix_fqn idx" "ix_children idx' = ix_children idx" "ix_bySegment idx' = ix_bySegment idx" "ix_pending idx' = ix_pending idx"
    "ix_reexported idx' = ix_reexported idx" "ix_hidden idx' = ix_hidden idx" "ix_reexportDocs idx' = ix_reexportDocs idx"
    "ix_docReexports idx' = ix_docReexports idx" "ix_over idx' = ix_over idx"
  shows "index_ok idx' = index_ok idx" "base_kept idx idx'" "base_kept i idx' = base_kept i idx"
    "claims_of idx' = claims_of idx" "docs_of idx' = docs_of idx" "members idx' = members idx"
proof -
  show c: "claims_of idx' = claims_of idx" "docs_of idx' = docs_of idx" using assms by (simp_all add: claims_of_def docs_of_def fun_eq_iff)
  show "members idx' = members idx" by (rule names_ok_cong [OF assms(1-4)])
  show "index_ok idx' = index_ok idx"
    unfolding index_ok_def reexports_ok_def inverse_ok_def using names_ok_cong(1) [OF assms(1-4)] by (simp add: assms c)
  show "base_kept idx idx'" "base_kept i idx' = base_kept i idx" by (simp_all add: base_kept_def assms)
qed

lemma register_ok:
  assumes "index_ok idx" "s \<notin> members idx f"
  shows "index_ok (register syms f s idx)" "base_kept idx (register syms f s idx)"
  using link_index_ok [OF assms, of syms] same_tables(1,3) [of "register syms f s idx" "link syms f s idx"] by (simp_all add: register_def)

lemma reexportGated_ok:
  assumes "index_ok idx"
  shows "index_ok (reexportGated syms f s doc priv gates idx)" "base_kept idx (reexportGated syms f s doc priv gates idx)"
proof -
  obtain borrowed i where e: "reexport syms f s idx = (borrowed, i)" by force
  have i: "index_ok i \<and> base_kept idx i \<and> (borrowed \<longrightarrow> s \<in> members i f)"
  proof (cases "s \<in> members idx f")
    case True
    then show ?thesis using e assms by (auto simp: reexport_def members_def)
  next
    case False
    then show ?thesis using e link_index_ok [OF assms False, of syms] by (auto simp: reexport_def members_def)
  qed
  obtain widened j where w: "claimReexport (f, s) doc (\<not> priv) gates i = (widened, j)" by force
  have j: "index_ok j \<and> base_kept i j" if "borrowed"
    using claimReexport_ok(1,2) [of i "(f, s)" doc "\<not> priv" gates] i that by (simp add: w)
  let ?k = "reexportGated syms f s doc priv gates idx"
  have "index_ok ?k \<and> base_kept idx ?k"
  proof (cases borrowed)
    case False
    then show ?thesis using i e by (simp add: reexportGated_def)
  next
    case True
    have "index_ok ?k = index_ok j" "base_kept idx ?k = base_kept idx j"
      by (rule same_tables; simp add: reexportGated_def Let_def e w True)+
    then show ?thesis using i j [OF True] base_kept_trans by blast
  qed
  then show "index_ok ?k" "base_kept idx ?k" by auto
qed

section \<open>Dropping claims\<close>

lemma unclaimed_ok:
  assumes "unclaimed key idx idx'" "reexports_ok idx" "layer_ok (ix_docReexports idx')"
  shows "reexports_ok idx'"
proof -
  note c = assms(1) [unfolded unclaimed_def]
  have "finite (dom (claims_of idx' k))" for k using c claims_finite [OF assms(2)] by simp
  moreover have "s \<in> set (tb_at (ix_fqn idx') f)" if h: "claims_of idx' (f, s) \<noteq> Map.empty" for f s
  proof -
    have "(f, s) \<noteq> key" "claims_of idx (f, s) \<noteq> Map.empty" using c h by (auto split: if_splits)
    then have "s \<in> members idx f" "\<not> (f = fst key \<and> s = snd key)" using reexports_okD(3) [OF assms(2), of f] by auto
    then have "s \<in> members idx' f" using c by auto
    then show ?thesis by (simp add: members_def)
  qed
  ultimately show ?thesis using c assms(3) unfolding reexports_ok_def by blast
qed

lemma dropClaim_ok:
  assumes "names_ok idx" "reexports_ok idx" "ranges r"
  shows "names_ok (dropClaim r key doc idx)" "reexports_ok (dropClaim r key doc idx)" "base_kept idx (dropClaim r key doc idx)"
    "claims_of (dropClaim r key doc idx) = (claims_of idx)(key := (claims_of idx key)(doc := None))"
    "ix_docReexports (dropClaim r key doc idx) = ix_docReexports idx"
proof -
  let ?d = "dropClaim r key doc idx" and ?docs = "claims_of idx key"
  let ?kept = "?docs(doc := None)"
  have "names_ok ?d \<and> reexports_ok ?d \<and> base_kept idx ?d \<and> claims_of ?d = (claims_of idx)(key := ?kept) \<and> ix_docReexports ?d = ix_docReexports idx"
  proof (cases "?docs doc = None")
    case True
    then show ?thesis using assms by (simp add: dropClaim_def claims_of_def [symmetric] fun_upd_idem)
  next
    case False
    show ?thesis
    proof (cases "card (dom ?docs) = 1")
      case True
      then obtain x where x: "dom ?docs = {x}" by (rule card_1_singletonE)
      moreover have "doc \<in> dom ?docs" using False by blast
      ultimately have "dom ?kept = {}" by simp
      then have "?kept = Map.empty" by (simp only: dom_eq_empty_conv)
      let ?i = "(changedName (fst key) (noteBefore (fst key) idx))\<lparr>ix_reexportDocs := layer_del (ix_reexportDocs idx) key\<rparr>"
      have e: "?d = deregister r (fst key) (snd key) ?i"
        using False True by (auto simp: dropClaim_def claims_of_def Let_def)
      have n: "names_ok ?i" using names_ok_cong(1) [of ?i idx] assms(1) by simp
      have u: "unclaimed key idx ?d"
        unfolding e by (rule unclaimedI [OF assms(1,2) _ assms(3)]) (use False in auto)
      have "ix_docReexports ?d = ix_docReexports idx"
        unfolding e using deregister_fields(5) [OF refl names_okD(1) [OF n], of r "fst key" "snd key"] by simp
      then show ?thesis using u unclaimed_ok [OF u assms(2)] reexports_okD(2) [OF assms(2)] \<open>?kept = Map.empty\<close> by (simp add: unclaimed_def)
    next
      case more: False
      have "?kept \<noteq> Map.empty"
      proof
        assume "?kept = Map.empty"
        then have "dom ?docs = {doc}" using False by (auto simp: dom_def fun_eq_iff split: if_splits)
        then show False using more by simp
      qed
      have u: "reclaimed key ?kept idx ?d"
        by (rule reclaimedI [OF assms(1,2) \<open>?kept \<noteq> Map.empty\<close>])
          (use False more in \<open>auto simp: dropClaim_def claims_of_def Let_def\<close>)
      have d: "ix_docReexports ?d = ix_docReexports idx" using False more by (auto simp: dropClaim_def claims_of_def Let_def)
      have "?docs \<noteq> Map.empty" using False by auto
      then have "snd key \<in> members idx (fst key)" using reexports_okD(3) [OF assms(2), of "fst key"] by auto
      then have "reexports_ok ?d"
        using reclaimed_ok [OF u assms(2)] reexports_okD(2) [OF assms(2)] claims_finite [OF assms(2), of key] by (simp add: d)
      then show ?thesis using u d by (simp add: reclaimed_def)
    qed
  qed
  then show "names_ok ?d" "reexports_ok ?d" "base_kept idx ?d" "claims_of ?d = (claims_of idx)(key := ?kept)"
    "ix_docReexports ?d = ix_docReexports idx" by auto
qed

end
