(* ===== verification/Index_Steps.thy ===== *)
theory Index_Steps
  imports Index_Reexports
begin

text \<open>
  The writes to the symbol index as steps, the indexes they reach, plain or over a frozen one, and
  what is read there: the names under a namespace and in a segment, and what a lookup answers.
\<close>

section \<open>Purging a re-export and removing a document's\<close>

lemma unclaim_at:
  "layer_at Map.empty (unclaim key doc l) = (layer_at Map.empty l)(doc := (layer_at Map.empty l doc)(key := None))"
  by (cases "ly_own l doc")
    (auto simp: unclaim_def writableMap_def Let_def layer_at_def layer_below_get layer_get_del layer_get_def layer_set_def bump_def layer_del_def
      fun_eq_iff split: option.split if_splits)

lemma unclaim_ok: "layer_ok l \<Longrightarrow> layer_ok (unclaim key doc l)" "ly_base (unclaim key doc l) = ly_base l"
  by (cases "ly_own l doc"; auto simp: unclaim_def writableMap_def Let_def layer_ok_def layer_set_def layer_del_def bump_def split: if_splits)+

lemma unclaim_all:
  "layer_at Map.empty (fold (unclaim key) docs l) =
     (\<lambda>doc. if doc \<in> set docs then (layer_at Map.empty l doc)(key := None) else layer_at Map.empty l doc)"
  "layer_ok l \<Longrightarrow> layer_ok (fold (unclaim key) docs l)" "ly_base (fold (unclaim key) docs l) = ly_base l"
  by (induction docs arbitrary: l) (auto simp: unclaim_at unclaim_ok fun_eq_iff)

lemma purgeReexport_ok:
  assumes "index_ok idx" "claims_of idx key \<noteq> Map.empty" "ranges r" "ranges rd"
  shows "index_ok (purgeReexport r rd key idx)" "base_kept idx (purgeReexport r rd key idx)"
proof -
  have idx: "names_ok idx" "reexports_ok idx" "inverse_ok idx" using assms(1) by (simp_all add: index_ok_def)
  let ?p = "purgeReexport r rd key idx"
  let ?l = "fold (unclaim key) (rd (claims_of idx key)) (ix_docReexports idx)"
  let ?i = "noteBefore (fst key) idx\<lparr>ix_docReexports := ?l, ix_reexportDocs := layer_del (ix_reexportDocs idx) key\<rparr>"
  have e: "?p = deregister r (fst key) (snd key) ?i" by (simp add: purgeReexport_def Let_def claims_of_def)
  have n: "names_ok ?i" using names_ok_cong(1) [of ?i idx] idx(1) by simp
  have u: "unclaimed key idx ?p"
    unfolding e by (rule unclaimedI [OF idx(1,2) assms(2,3)]) (simp_all add: unclaim_all)
  have d: "ix_docReexports ?p = ?l"
    unfolding e using deregister_fields(5) [OF refl names_okD(1) [OF n], of r "fst key" "snd key"] by simp
  have k: "set (rd (claims_of idx key)) = dom (claims_of idx key)" using assms(4) claims_finite [OF idx(2)] by (simp add: ranges_def)
  have "inverse_ok ?p"
    unfolding inverse_ok_def
  proof (intro allI)
    fix doc x
    have i: "docs_of idx doc x \<noteq> None \<longleftrightarrow> claims_of idx x doc \<noteq> None" using idx(3) unfolding inverse_ok_def by blast
    have "docs_of ?p doc = (if doc \<in> dom (claims_of idx key) then (docs_of idx doc)(key := None) else docs_of idx doc)"
      by (simp add: docs_of_def d unclaim_all k)
    then show "docs_of ?p doc x \<noteq> None \<longleftrightarrow> claims_of ?p x doc \<noteq> None"
      using u i by (cases "x = key") (auto simp: unclaimed_def)
  qed
  moreover have "reexports_ok ?p"
    by (rule unclaimed_ok [OF u idx(2)]) (simp add: d unclaim_all reexports_okD(2) [OF idx(2)])
  ultimately show "index_ok ?p" "base_kept idx ?p" using u by (simp_all add: index_ok_def unclaimed_def)
qed

text \<open>The end of \<open>removeDocument\<close>: every re-export the document surfaced loses its claim.\<close>

definition dropReexports ::
  "((string \<rightharpoonup> string list) \<Rightarrow> string list) \<Rightarrow> ((reexportKey \<rightharpoonup> bool) \<Rightarrow> reexportKey list) \<Rightarrow> string \<Rightarrow> 'f index \<Rightarrow> 'f index" where
  "dropReexports range_order range_keys name idx =
     (let idx = fold (\<lambda>key. dropClaim range_order key name) (range_keys (layer_at Map.empty (ix_docReexports idx) name)) idx
      in idx\<lparr>ix_docReexports := layer_del (ix_docReexports idx) name\<rparr>)"

lemma claims_of_docs [simp]: "claims_of (idx\<lparr>ix_docReexports := l\<rparr>) = claims_of idx"
  by (simp add: claims_of_def fun_eq_iff)

lemma reexports_ok_docs: "reexports_ok idx \<Longrightarrow> layer_ok l \<Longrightarrow> reexports_ok (idx\<lparr>ix_docReexports := l\<rparr>)"
  by (simp add: reexports_ok_def)

lemma dropClaims_ok:
  assumes "names_ok idx" "reexports_ok idx" "ranges r"
  shows "names_ok (fold (\<lambda>key. dropClaim r key doc) keys idx) \<and> reexports_ok (fold (\<lambda>key. dropClaim r key doc) keys idx) \<and>
    base_kept idx (fold (\<lambda>key. dropClaim r key doc) keys idx) \<and>
    claims_of (fold (\<lambda>key. dropClaim r key doc) keys idx) =
      (\<lambda>key. if key \<in> set keys then (claims_of idx key)(doc := None) else claims_of idx key) \<and>
    ix_docReexports (fold (\<lambda>key. dropClaim r key doc) keys idx) = ix_docReexports idx"
  using assms(1,2)
proof (induction keys arbitrary: idx)
  case (Cons k keys)
  note d = dropClaim_ok [OF Cons.prems assms(3), of k doc]
  note IH = Cons.IH [OF d(1,2)]
  show ?case using IH d(3,4,5) base_kept_trans [OF d(3)] by (auto simp: fun_eq_iff)
qed simp

definition docs_finite :: "'f index \<Rightarrow> bool" where
  "docs_finite idx = (\<forall>doc. finite (dom (docs_of idx doc)))"

lemma dropReexports_ok:
  assumes "index_ok idx" "docs_finite idx" "ranges r" "ranges rk"
  shows "index_ok (dropReexports r rk doc idx)" "base_kept idx (dropReexports r rk doc idx)"
proof -
  have idx: "names_ok idx" "reexports_ok idx" "inverse_ok idx" using assms(1) by (simp_all add: index_ok_def)
  let ?p = "dropReexports r rk doc idx"
  let ?keys = "rk (docs_of idx doc)"
  let ?i = "fold (\<lambda>key. dropClaim r key doc) ?keys idx"
  note f = dropClaims_ok [OF idx(1,2) assms(3), of doc ?keys]
  have e: "?p = ?i\<lparr>ix_docReexports := layer_del (ix_docReexports ?i) doc\<rparr>" by (simp add: dropReexports_def Let_def docs_of_def)
  have k: "set ?keys = dom (docs_of idx doc)" using assms(2,4) by (simp add: ranges_def docs_finite_def)
  have c: "claims_of ?p = (\<lambda>key. if key \<in> dom (docs_of idx doc) then (claims_of idx key)(doc := None) else claims_of idx key)"
    using f by (simp add: e k)
  have d: "docs_of ?p = (docs_of idx)(doc := Map.empty)"
    using f by (simp add: e docs_of_def fun_eq_iff claims_set)
  have "inverse_ok ?p"
    unfolding inverse_ok_def
  proof (intro allI)
    fix doc' x
    have "docs_of idx doc' x \<noteq> None \<longleftrightarrow> claims_of idx x doc' \<noteq> None" for doc' using idx(3) unfolding inverse_ok_def by blast
    then show "docs_of ?p doc' x \<noteq> None \<longleftrightarrow> claims_of ?p x doc' \<noteq> None" unfolding c d by (cases "doc' = doc") auto
  qed
  moreover have "names_ok ?p" using f names_ok_cong(1) [of ?p ?i] by (simp add: e)
  moreover have "reexports_ok ?p"
    unfolding e by (rule reexports_ok_docs) (use f layer_del_ok reexports_okD(2) [OF idx(2)] in simp_all)
  ultimately show "index_ok ?p" by (simp add: index_ok_def)
  have "base_kept ?i ?p" by (simp add: base_kept_def e)
  then show "base_kept idx ?p" using f base_kept_trans by blast
qed

section \<open>Steps\<close>

text \<open>
  The writes to the tables, each on an index that is not frozen. A document declares fresh symbols
  (\<open>indexScope\<close>), and what it takes back on its removal are names it declared, never borrowed ones
  (\<open>contributions\<close>), so a symbol is registered once under a name, and deregistered by itself only where
  no re-export claims it. \<open>expand\<close> stands for the end of an expansion, which settles the segments.
\<close>

record 'f environment =
  en_syms :: "nat \<Rightarrow> Symbol"
  en_names :: "(string \<rightharpoonup> string list) \<Rightarrow> string list"
  en_docs :: "'f claims \<Rightarrow> string list"
  en_keys :: "(reexportKey \<rightharpoonup> bool) \<Rightarrow> reexportKey list"

definition environment_ok :: "'f environment \<Rightarrow> bool" where
  "environment_ok e = (ranges (en_names e) \<and> ranges (en_docs e) \<and> ranges (en_keys e))"

inductive index_step :: "'f environment \<Rightarrow> 'f index \<Rightarrow> 'f index \<Rightarrow> bool" where
  declared: "\<not> ix_frozen idx \<Longrightarrow> \<not> hasFQN idx f s \<Longrightarrow> index_step e idx (register (en_syms e) f s idx)"
| withdrawn: "\<not> ix_frozen idx \<Longrightarrow> hasFQN idx f s \<Longrightarrow> claims_of idx (f, s) = Map.empty \<Longrightarrow>
    index_step e idx (deregister (en_names e) f s idx)"
| surfaced: "\<not> ix_frozen idx \<Longrightarrow> index_step e idx (reexportGated (en_syms e) f s doc priv gates idx)"
| purged: "\<not> ix_frozen idx \<Longrightarrow> claims_of idx key \<noteq> Map.empty \<Longrightarrow>
    index_step e idx (purgeReexport (en_names e) (en_docs e) key idx)"
| dropped: "\<not> ix_frozen idx \<Longrightarrow> index_step e idx (dropReexports (en_names e) (en_keys e) doc idx)"
| settled: "\<not> ix_frozen idx \<Longrightarrow> index_step e idx (settleSegments (en_names e) idx)"
| tracked: "\<not> ix_frozen idx \<Longrightarrow> index_step e idx (TrackChanges idx)"

text \<open>The indexes that come about, the flag \<open>Freeze\<close> sets after an expansion, and overlays.\<close>

inductive index_reachable :: "'f environment \<Rightarrow> (nat \<Rightarrow> nat) \<Rightarrow> 'f index \<Rightarrow> bool" for e growth where
  new: "index_reachable e growth (NewIndex growth)"
| step: "index_reachable e growth idx \<Longrightarrow> index_step e idx idx' \<Longrightarrow> index_reachable e growth idx'"
| freeze: "index_reachable e growth idx \<Longrightarrow> ix_pending idx = Map.empty \<Longrightarrow> index_reachable e growth (idx\<lparr>ix_frozen := True\<rparr>)"
| overlay: "index_reachable e growth idx \<Longrightarrow> ix_pending idx = Map.empty \<Longrightarrow> NewOverlay idx = Some idx' \<Longrightarrow> index_reachable e growth idx'"

inductive_cases index_stepE: "index_step e idx idx'"

text \<open>An index that is not an overlay has nothing below it.\<close>

definition plain :: "'f index \<Rightarrow> bool" where
  "plain idx =
     (ly_base (tb_layer (ix_fqn idx)) = Map.empty \<and> ly_base (tb_layer (ix_reexported idx)) = Map.empty \<and>
      ly_base (tb_layer (ix_hidden idx)) = Map.empty \<and> ly_base (tb_layer (ix_children idx)) = Map.empty \<and>
      ly_base (tb_layer (ix_bySegment idx)) = Map.empty \<and> ly_base (ix_reexportDocs idx) = Map.empty \<and>
      ly_base (ix_docReexports idx) = Map.empty)"

definition index_good :: "'f index \<Rightarrow> bool" where
  "index_good idx = (index_ok idx \<and> docs_finite idx \<and> (\<not> ix_over idx \<longrightarrow> plain idx))"

lemma plain_kept: "base_kept idx idx' \<Longrightarrow> (\<not> ix_over idx \<longrightarrow> plain idx) \<Longrightarrow> \<not> ix_over idx' \<longrightarrow> plain idx'"
  by (simp add: base_kept_def frozen_kept_def plain_def)

lemma claimReexport_docs:
  "ix_docReexports (snd (claimReexport key doc public gates idx)) = ix_docReexports idx \<or>
   ix_docReexports (snd (claimReexport key doc public gates idx)) = write_entry (ix_docReexports idx) doc key True"
  by (simp add: claimReexport_def Let_def split: prod.split)

lemma docs_finite_same: "ix_docReexports idx' = ix_docReexports idx \<Longrightarrow> docs_finite idx' = docs_finite idx"
  by (simp add: docs_finite_def docs_of_def)

lemma reexportGated_docs:
  assumes "docs_finite idx" shows "docs_finite (reexportGated syms f s doc priv gates idx)"
proof -
  obtain borrowed i where e: "reexport syms f s idx = (borrowed, i)" by force
  obtain widened j where w: "claimReexport (f, s) doc (\<not> priv) gates i = (widened, j)" by force
  have "ix_docReexports i = ix_docReexports idx" using e by (auto simp: reexport_def split: if_splits)
  moreover have "ix_docReexports j = ix_docReexports i \<or> ix_docReexports j = write_entry (ix_docReexports i) doc (f, s) True"
    using claimReexport_docs [of "(f, s)" doc "\<not> priv" gates i] by (simp add: w)
  moreover have "ix_docReexports (reexportGated syms f s doc priv gates idx) = ix_docReexports (if borrowed then j else i)"
    by (simp add: reexportGated_def Let_def e w)
  ultimately have "ix_docReexports (reexportGated syms f s doc priv gates idx) = ix_docReexports idx \<or>
      ix_docReexports (reexportGated syms f s doc priv gates idx) = write_entry (ix_docReexports idx) doc (f, s) True" by (simp split: if_splits)
  then show ?thesis using assms by (auto simp: docs_finite_def docs_of_def docs_write)
qed

lemma settled_ok:
  assumes "index_ok idx" "ranges r"
  shows "index_ok (settleSegments r idx)" "base_kept idx (settleSegments r idx)"
proof -
  let ?i = "settleSegments r idx"
  have idx: "names_ok idx" "reexports_ok idx" "inverse_ok idx" using assms(1) by (simp_all add: index_ok_def)
  note s = settleSegments_ok [OF idx(1) assms(2)]
  have f: "ix_fqn ?i = ix_fqn idx" "ix_children ?i = ix_children idx" "ix_pending ?i = Map.empty" "ix_reexported ?i = ix_reexported idx"
    "ix_hidden ?i = ix_hidden idx" "ix_reexportDocs ?i = ix_reexportDocs idx" "ix_docReexports ?i = ix_docReexports idx" "ix_over ?i = ix_over idx"
    by (simp_all add: settleSegments_def)
  have c: "claims_of ?i = claims_of idx" "docs_of ?i = docs_of idx" "registered ?i = registered idx" "\<And>n. pending_of ?i n = {}"
    by (simp_all add: claims_of_def docs_of_def registered_def pending_of_def f fun_eq_iff)
  have "names_ok ?i"
    using idx(1) s(1) unfolding names_ok_def in_segment_def [abs_def] by (auto simp: f(1-3) c)
  moreover have "reexports_ok ?i" "inverse_ok ?i" using idx(2,3) by (simp_all add: reexports_ok_def inverse_ok_def f c)
  ultimately show "index_ok ?i" by (simp add: index_ok_def)
  show "base_kept idx ?i" using s(2) by (simp add: base_kept_def f)
qed

lemma withdrawn_ok:
  assumes "index_ok idx" "hasFQN idx f s" "claims_of idx (f, s) = Map.empty" "ranges r"
  shows "index_ok (deregister r f s idx)" "base_kept idx (deregister r f s idx)" "ix_docReexports (deregister r f s idx) = ix_docReexports idx"
proof -
  let ?d = "deregister r f s idx"
  have idx: "names_ok idx" "reexports_ok idx" "inverse_ok idx" using assms(1) by (simp_all add: index_ok_def)
  note m = reexports_okD [OF idx(2)]
  have s: "s \<in> members idx f" using assms(2) by (simp add: hasFQN_def members_def)
  note d = deregister_ok [OF idx(1) assms(4) s m(4,5)]
  note k = deregister_marks [OF idx(1) m(4,5,3,6), of r f s]
  note e = deregister_fields [OF refl names_okD(1) [OF idx(1)], of r f s]
  have c: "claims_of ?d = claims_of idx" "docs_of ?d = docs_of idx" by (simp_all add: claims_of_def docs_of_def e fun_eq_iff)
  have k': "(claimed idx)(f := claimed idx f - {s}) = claimed idx" "(hidden_members idx)(f := hidden_members idx f - {s}) = hidden_members idx"
    using assms(3) by (auto simp: fun_eq_iff hidden_by_def)
  have "g \<in> set (tb_at (ix_fqn ?d) h)" if "claims_of idx (h, g) \<noteq> Map.empty" for g h
  proof -
    have "g \<in> members idx h" "\<not> (h = f \<and> g = s)" using that assms(3) m(3) by auto
    then show ?thesis using d(3) [of h] by (auto simp: members_def)
  qed
  then have "reexports_ok ?d"
    using idx(2) k k' unfolding reexports_ok_def by (simp add: c e(4,5))
  moreover have "inverse_ok ?d" using idx(3) by (simp add: inverse_ok_def c)
  ultimately show "index_ok ?d" using d(1) by (simp add: index_ok_def)
  show "base_kept idx ?d" "ix_docReexports ?d = ix_docReexports idx" by (fact d(2), fact e(5))
qed

text \<open>Every step keeps the index good and the index below as it was.\<close>

lemma index_step_ok:
  assumes "index_step e idx idx'" "environment_ok e" "index_ok idx" "docs_finite idx"
  shows "index_ok idx' \<and> docs_finite idx' \<and> base_kept idx idx'"
  using assms(1)
proof (cases rule: index_stepE [consumes 1, case_names declared withdrawn surfaced purged dropped settled tracked])
  case (declared f s)
  then have "s \<notin> members idx f" by (simp add: hasFQN_def members_def)
  then show ?thesis using register_ok [OF assms(3)] docs_finite_same [of idx' idx] assms(4) declared by (simp add: register_def)
next
  case (withdrawn f s)
  then show ?thesis
    using withdrawn_ok [OF assms(3) withdrawn(3,4), of "en_names e"] assms(2,4) docs_finite_same [of idx' idx] by (simp add: environment_ok_def)
next
  case (surfaced f s doc priv gates)
  then show ?thesis using reexportGated_ok [OF assms(3)] reexportGated_docs [OF assms(4)] by simp
next
  case (purged key)
  note p = purgeReexport_ok [OF assms(3) purged(3), of "en_names e" "en_docs e"]
  have n: "names_ok (noteBefore (fst key) idx\<lparr>ix_docReexports := x, ix_reexportDocs := y\<rparr>)" for x y
    using names_ok_cong(1) [of "noteBefore (fst key) idx\<lparr>ix_docReexports := x, ix_reexportDocs := y\<rparr>" idx] assms(3) by (simp add: index_ok_def)
  have "ix_docReexports idx' = fold (unclaim key) (en_docs e (claims_of idx key)) (ix_docReexports idx)"
    using deregister_fields(5) [OF refl names_okD(1) [OF n], of "en_names e" "fst key" "snd key"]
    by (simp add: purged(1) purgeReexport_def Let_def claims_of_def)
  then have "docs_finite idx'" using assms(4) by (simp add: docs_finite_def docs_of_def unclaim_all)
  then show ?thesis using p purged assms(2) by (simp add: environment_ok_def)
next
  case (dropped doc)
  have i: "names_ok idx" "reexports_ok idx" "ranges (en_names e)" using assms(2,3) by (simp_all add: index_ok_def environment_ok_def)
  have "docs_of idx' = (docs_of idx)(doc := Map.empty)"
    using dropClaims_ok [OF i] by (simp add: dropped(1) dropReexports_def Let_def docs_of_def fun_eq_iff claims_set)
  then have "docs_finite idx'" using assms(4) by (simp add: docs_finite_def)
  then show ?thesis using dropReexports_ok [OF assms(3,4)] dropped assms(2) by (simp add: environment_ok_def)
next
  case settled
  then show ?thesis
    using settled_ok [OF assms(3)] assms(2,4) docs_finite_same [of idx' idx] by (simp add: environment_ok_def settleSegments_def)
next
  case tracked
  have "ix_docReexports idx' = ix_docReexports idx" by (simp add: tracked TrackChanges_def)
  moreover have "index_ok idx' = index_ok idx" "base_kept idx idx'" by (rule same_tables; simp add: tracked TrackChanges_def)+
  ultimately show ?thesis using assms(3,4) docs_finite_same by blast
qed

section \<open>The indexes that come about\<close>

lemma over_fields: "ly_base (overLayer l) = ly_own l" "ly_own (overLayer l) = Map.empty" "ly_base newLayer = Map.empty"
  by (simp_all add: overLayer_def newLayer_def)

lemma overTable_ok:
  assumes "tb_ok t" "ly_base (tb_layer t) = Map.empty"
  shows "tb_ok (overTable t)" "tb_get (overTable t) = tb_get t" "tb_at (overTable t) = tb_at t"
proof -
  show "tb_ok (overTable t)" using assms by (auto simp: tb_ok_def Let_def overTable_def layer_over over_fields)
  show g: "tb_get (overTable t) = tb_get t"
    using assms(2) by (simp add: overTable_def tb_get_def layer_over layer_get_plain fun_eq_iff)
  show "tb_at (overTable t) = tb_at t" by (simp add: tb_at_get g fun_eq_iff)
qed

lemma overlay_ok:
  assumes "index_good idx" "ix_pending idx = Map.empty" "NewOverlay idx = Some idx'"
  shows "index_good idx'" "members idx' = members idx" "claims_of idx' = claims_of idx" "docs_of idx' = docs_of idx"
proof -
  have i: "names_ok idx" "reexports_ok idx" "inverse_ok idx" "docs_finite idx" using assms(1) by (simp_all add: index_good_def index_ok_def)
  have p: "plain idx" using assms(1,3) by (auto simp: index_good_def NewOverlay_def split: if_splits)
  have e: "idx' =
        \<lparr>ix_frozen = False, ix_over = True, ix_fqn = overTable (ix_fqn idx), ix_reexported = overTable (ix_reexported idx),
         ix_hidden = overTable (ix_hidden idx), ix_reexportDocs = overLayer (ix_reexportDocs idx),
         ix_docReexports = overLayer (ix_docReexports idx),
         ix_children = overTable (ix_children idx), ix_bySegment = overTable (ix_bySegment idx),
         ix_pending = Map.empty, ix_dirtyNS = Map.empty, ix_changes = None, ix_before = Map.empty\<rparr>"
    using assms(3) by (simp add: NewOverlay_def split: if_splits)
  note k = i(1) [unfolded names_ok_def keys_ok_def] and r = i(2) [unfolded reexports_ok_def marks_are_def]
  note pl = p [unfolded plain_def]
  have t: "tb_ok (overTable t)" "tb_get (overTable t) = tb_get t" "tb_at (overTable t) = tb_at t"
    if "t = ix_fqn idx \<or> t = ix_reexported idx \<or> t = ix_hidden idx" for t
    using that k r pl overTable_ok by auto
  have t': "tb_ok (overTable t)" "tb_get (overTable t) = tb_get t" "tb_at (overTable t) = tb_at t"
    if "t = ix_children idx \<or> t = ix_bySegment idx" for t
    using that k pl overTable_ok by auto
  show c: "claims_of idx' = claims_of idx" "docs_of idx' = docs_of idx"
    using pl by (simp_all add: e claims_of_def docs_of_def layer_at_def layer_over layer_get_plain fun_eq_iff)
  show "members idx' = members idx" using t(3) by (simp add: e members_def fun_eq_iff)
  have R: "registered idx' = registered idx" using t(2) by (simp add: e registered_def fun_eq_iff)
  have P: "pending_of idx' = pending_of idx" using assms(2) by (simp add: e pending_of_def fun_eq_iff)
  have "names_ok idx'"
    using i(1) t t' unfolding names_ok_def keys_ok_def R P by (simp add: e)
  moreover have "reexports_ok idx'"
    using i(2) t unfolding reexports_ok_def marks_are_def c by (simp add: e layer_over)
  moreover have "inverse_ok idx'" using i(3) by (simp add: inverse_ok_def c)
  moreover have "ix_over idx'" by (simp add: e)
  ultimately show "index_good idx'" using i(4) c(2) by (simp add: index_good_def index_ok_def docs_finite_def)
qed

lemma new_table: "tb_ok (newTable zero growth)" "tb_get (newTable zero growth) = Map.empty" "tb_at (newTable zero growth) k = []"
  "ly_base (tb_layer (newTable zero growth)) = Map.empty"
  by (simp_all add: newTable_def tb_ok_def Let_def tb_get_def tb_at_def layer_new fun_eq_iff newLayer_def layer_ok_def layer_get_def items_of_def)

lemma new_index_good: "index_good (NewIndex growth)"
proof -
  have "names_ok (NewIndex growth)"
    unfolding names_ok_def keys_ok_def
    by (intro conjI allI exI [of _ "\<lambda>_. {}"]) (simp_all add: NewIndex_def new_table registered_def pending_of_def)
  then show ?thesis
    by (simp add: NewIndex_def index_good_def index_ok_def new_table reexports_ok_def marks_are_def claims_of_def docs_of_def hidden_by_def
        inverse_ok_def docs_finite_def layer_at_def layer_new plain_def over_fields)
qed

lemma index_reachable_good:
  assumes "index_reachable e growth idx" "environment_ok e" shows "index_good idx"
  using assms
proof (induction rule: index_reachable.induct)
  case new
  show ?case by (rule new_index_good)
next
  case (step idx idx')
  have g: "index_good idx" using step by simp
  have "index_ok idx' \<and> docs_finite idx' \<and> base_kept idx idx'"
    using index_step_ok [OF step.hyps(2) step.prems] g by (simp add: index_good_def)
  then show ?case using g plain_kept [of idx idx'] by (simp add: index_good_def)
next
  case (freeze idx)
  have g: "index_good idx" using freeze by simp
  have "index_ok (idx\<lparr>ix_frozen := True\<rparr>) = index_ok idx" by (rule same_tables; simp)
  then show ?case using g docs_finite_same [of "idx\<lparr>ix_frozen := True\<rparr>" idx] by (simp add: index_good_def plain_def)
next
  case (overlay idx idx')
  then show ?case using overlay_ok(1) by blast
qed

end
