(* ===== verification/Index_Lookup.thy ===== *)
theory Index_Lookup
  imports Index_Steps "HOL-Library.Product_Lexorder"
begin

text \<open>
  What is read from a reachable index: its tables of keys, what a lookup answers, and that the frozen
  index under an overlay stays as it was.
\<close>

lemma registered_under: "names_ok idx \<Longrightarrow> registered idx f \<longleftrightarrow> RegisteredUnder idx f \<noteq> []"
  using names_okD(2) [of idx f] by (cases "tb_get (ix_fqn idx) f") (auto simp: registered_def RegisteredUnder_def tb_at_get)

lemma reachableD:
  assumes "index_reachable e growth idx" "environment_ok e"
  shows "names_ok idx" "reexports_ok idx" "inverse_ok idx"
  using index_reachable_good [OF assms] by (simp_all add: index_good_def index_ok_def)

section \<open>Looking up among own and borrowed members\<close>

lemma marked:
  assumes "reexports_ok idx"
  shows "set (tb_at (ix_reexported idx) f) = claimed idx f" "set (tb_at (ix_hidden idx) f) = hidden_members idx f"
    "claimed idx f \<subseteq> set (tb_at (ix_fqn idx) f)"
  using reexports_okD(3,4,5) [OF assms] by (simp_all add: marks_are_def members_def)

lemma hidden_claimed: "hidden_by docs \<Longrightarrow> docs \<noteq> Map.empty"
  by (simp add: hidden_by_def)

lemma lookup_claims:
  assumes "reexports_ok idx"
  shows "LookupQualifiedFrom idx f place =
    (let symbols = RegisteredUnder idx f;
         own = filter (\<lambda>s. claims_of idx (f, s) = Map.empty) symbols
     in if own \<noteq> [] then own
        else filter (\<lambda>s. \<not> hidden_by (claims_of idx (f, s)) \<or> namespaceOf f = [] \<or> withinNamespace place (namespaceOf f)) symbols)"
proof -
  let ?xs = "tb_at (ix_fqn idx) f" and ?in = "namespaceOf f = [] \<or> withinNamespace place (namespaceOf f)"
  let ?own = "\<lambda>s. claims_of idx (f, s) = Map.empty" and ?hid = "\<lambda>s. hidden_by (claims_of idx (f, s))"
  note m = marked [OF assms, of f]
  have r: "s \<in> set (tb_at (ix_reexported idx) f) \<longleftrightarrow> \<not> ?own s" "s \<in> set (tb_at (ix_hidden idx) f) \<longleftrightarrow> ?hid s" for s using m by simp_all
  have oh: "filter (\<lambda>s. ?own s) (filter (\<lambda>s. \<not> ?hid s) ?xs) = filter ?own ?xs"
    using hidden_claimed by (auto simp: filter_filter intro: filter_cong)
  show ?thesis
  proof (cases "tb_at (ix_reexported idx) f = []")
    case True
    then have o': "?own s" for s using r(1) by simp
    then have "filter ?own ?xs = ?xs" "filter (\<lambda>s. \<not> ?hid s \<or> ?in) ?xs = ?xs" using hidden_claimed by (auto intro: filter_True)
    then show ?thesis using True by (simp add: LookupQualifiedFrom_def RegisteredUnder_def Let_def)
  next
    case False
    define found where "found = (if tb_at (ix_hidden idx) f \<noteq> [] \<and> \<not> ?in then filter (\<lambda>s. \<not> ?hid s) ?xs else ?xs)"
    have e: "LookupQualifiedFrom idx f place = (if filter ?own found = [] then found else filter ?own found)"
      using False by (simp add: LookupQualifiedFrom_def Let_def found_def r)
    have own: "filter ?own found = filter ?own ?xs" using oh by (simp add: found_def)
    have "\<not> ?hid s" if "tb_at (ix_hidden idx) f = []" for s using r(2) [of s] that by simp
    then have "found = filter (\<lambda>s. \<not> ?hid s \<or> ?in) ?xs" by (auto simp: found_def)
    then show ?thesis unfolding e own RegisteredUnder_def Let_def by simp
  qed
qed

lemma hidden_claims:
  assumes "reexports_ok idx"
  shows "HiddenFrom idx f place \<longleftrightarrow>
    RegisteredUnder idx f \<noteq> [] \<and> \<not> withinNamespace place (namespaceOf f) \<and> (\<forall>s \<in> set (RegisteredUnder idx f). hidden_by (claims_of idx (f, s)))"
proof -
  note m = marked [OF assms, of f]
  have r: "s \<in> set (tb_at (ix_hidden idx) f) \<longleftrightarrow> hidden_by (claims_of idx (f, s))" for s using m by simp
  have "tb_at (ix_hidden idx) f \<noteq> [] \<longleftrightarrow> (\<exists>s. hidden_by (claims_of idx (f, s)))"
    using r by (metis list.set_intros(1) neq_Nil_conv empty_iff empty_set)
  moreover have "s \<in> set (tb_at (ix_fqn idx) f)" if "hidden_by (claims_of idx (f, s))" for s using that m(3) hidden_claimed by auto
  ultimately show ?thesis
    unfolding HiddenFrom_def RegisteredUnder_def Let_def list_all_iff r by (metis empty_iff empty_set hd_in_set)
qed

section \<open>The frozen index\<close>

text \<open>The table below, read in the store of the table.\<close>

definition below :: "('k, 'e) slice_table \<Rightarrow> 'k \<Rightarrow> 'e list option" where
  "below t k = map_option (items (tb_store t)) (ly_base (tb_layer t) k)"

lemma below_kept: "frozen_kept t t' \<Longrightarrow> below t' = below t"
proof
  fix k assume "frozen_kept t t'"
  then show "below t' k = below t k"
    by (cases "ly_base (tb_layer t) k") (simp_all add: below_def frozen_kept_def items_def)
qed

lemma below_over: "ly_base (tb_layer t) = Map.empty \<Longrightarrow> below (overTable t) = tb_get t"
  by (simp add: below_def overTable_def over_fields tb_get_def layer_get_plain fun_eq_iff)

lemma steps_keep:
  assumes "(index_step e)\<^sup>*\<^sup>* idx idx'" "environment_ok e" "index_ok idx" "docs_finite idx"
  shows "index_ok idx' \<and> docs_finite idx' \<and> base_kept idx idx'"
  using assms(1)
proof (induction rule: rtranclp_induct)
  case base
  then show ?case using assms by simp
next
  case (step y z)
  then show ?case using index_step_ok [OF step.hyps(2) assms(2)] base_kept_trans by blast
qed

section \<open>The index is consistent\<close>

text \<open>C13: In every index that writes bring about, plain or an overlay, the names listed under a
  namespace and under a last segment are exactly the registered names that belong there, in order and
  each once, no symbol is listed twice under a name, and a re-export is found among the claims of its
  name just when it is found in the list of the document that claims it, and then its symbol is registered.\<close>

theorem index_consistent:
  assumes "index_reachable e growth idx" "environment_ok e"
  shows "(\<forall>p. strictly_sorted (childKeys idx p) \<and> set (childKeys idx p) = {f. RegisteredUnder idx f \<noteq> [] \<and> fst (splitFQN f) = p}) \<and>
    (\<forall>n. let names = fst (segmentNames (en_names e) n idx)
      in strictly_sorted names \<and> set names = {f. RegisteredUnder idx f \<noteq> [] \<and> snd (splitFQN f) = n \<and> fst (splitFQN f) \<noteq> []}) \<and>
    (\<forall>f. distinct (RegisteredUnder idx f)) \<and>
    (\<forall>doc f s. (docs_of idx doc (f, s) \<noteq> None) = (claims_of idx (f, s) doc \<noteq> None)) \<and>
    (\<forall>doc f s. docs_of idx doc (f, s) \<noteq> None \<longrightarrow> hasFQN idx f s)"
proof -
  note i = reachableD [OF assms]
  have r: "ranges (en_names e)" using assms(2) by (simp add: environment_ok_def)
  have inv: "(docs_of idx doc (f, s) \<noteq> None) = (claims_of idx (f, s) doc \<noteq> None)" for doc f s using i(3) unfolding inverse_ok_def by blast
  have "hasFQN idx f s" if "docs_of idx doc (f, s) \<noteq> None" for doc f s
  proof -
    have "claims_of idx (f, s) \<noteq> Map.empty" using that inv by auto
    then show ?thesis using marked(3) [OF i(2)] by (auto simp: hasFQN_def)
  qed
  moreover have "strictly_sorted (childKeys idx p) \<and> set (childKeys idx p) = {f. RegisteredUnder idx f \<noteq> [] \<and> fst (splitFQN f) = p}" for p
    using names_okD(5) [OF i(1)] by (simp add: keys_ok_def childKeys_def registered_under [OF i(1)])
  moreover have "let names = fst (segmentNames (en_names e) n idx)
      in strictly_sorted names \<and> set names = {f. RegisteredUnder idx f \<noteq> [] \<and> snd (splitFQN f) = n \<and> fst (splitFQN f) \<noteq> []}" for n
    using settleSegments_ok(1) [OF i(1) r] by (simp add: keys_ok_def segmentNames_def Let_def in_segment_def registered_under [OF i(1)])
  ultimately show ?thesis using names_okD(3) [OF i(1)] inv by (simp add: RegisteredUnder_def)
qed

text \<open>C14: A lookup of a qualified name from a place answers the namespace's own members when it has any under
  the name, and else the re-exported ones, of which those only private imports surfaced are seen from the root
  or from within the namespace alone; a name is reported hidden just when every symbol under it is so.\<close>

theorem lookup_meaning:
  assumes "index_reachable e growth idx" "environment_ok e"
  shows "LookupQualifiedFrom idx f place =
      (let symbols = RegisteredUnder idx f;
           own = filter (\<lambda>s. claims_of idx (f, s) = Map.empty) symbols
       in if own \<noteq> [] then own
          else filter (\<lambda>s. \<not> hidden_by (claims_of idx (f, s)) \<or> namespaceOf f = [] \<or> withinNamespace place (namespaceOf f)) symbols) \<and>
    (HiddenFrom idx f place \<longleftrightarrow>
      RegisteredUnder idx f \<noteq> [] \<and> \<not> withinNamespace place (namespaceOf f) \<and>
      (\<forall>s \<in> set (RegisteredUnder idx f). hidden_by (claims_of idx (f, s))))"
  using lookup_claims [OF reachableD(2) [OF assms]] hidden_claims [OF reachableD(2) [OF assms]] by blast

text \<open>C15: Whatever is written to an overlay, the frozen index under it reads as it did when the overlay was made:
  its names, its marks, the keys it lists and the claims on its re-exports.\<close>

theorem overlay_isolated:
  assumes "index_reachable e growth base" "environment_ok e" "ix_pending base = Map.empty" "NewOverlay base = Some idx"
    "(index_step e)\<^sup>*\<^sup>* idx idx'"
  shows "below (ix_fqn idx') = tb_get (ix_fqn base) \<and> below (ix_reexported idx') = tb_get (ix_reexported base) \<and>
    below (ix_hidden idx') = tb_get (ix_hidden base) \<and> below (ix_children idx') = tb_get (ix_children base) \<and>
    below (ix_bySegment idx') = tb_get (ix_bySegment base) \<and>
    ly_base (ix_reexportDocs idx') = layer_get (ix_reexportDocs base) \<and> ly_base (ix_docReexports idx') = layer_get (ix_docReexports base)"
proof -
  have g: "index_good base" by (rule index_reachable_good [OF assms(1,2)])
  have p: "plain base" using g assms(4) by (auto simp: index_good_def NewOverlay_def split: if_splits)
  have "index_good idx" by (rule overlay_ok(1) [OF g assms(3,4)])
  then have k: "base_kept idx idx'" using steps_keep [OF assms(5,2)] by (simp add: index_good_def)
  have e: "ix_fqn idx = overTable (ix_fqn base)" "ix_reexported idx = overTable (ix_reexported base)" "ix_hidden idx = overTable (ix_hidden base)"
    "ix_children idx = overTable (ix_children base)" "ix_bySegment idx = overTable (ix_bySegment base)"
    "ix_reexportDocs idx = overLayer (ix_reexportDocs base)" "ix_docReexports idx = overLayer (ix_docReexports base)"
    using assms(4) by (auto simp: NewOverlay_def split: if_splits)
  have "below (ix_fqn idx) = tb_get (ix_fqn base)" "below (ix_reexported idx) = tb_get (ix_reexported base)"
    "below (ix_hidden idx) = tb_get (ix_hidden base)" "below (ix_children idx) = tb_get (ix_children base)"
    "below (ix_bySegment idx) = tb_get (ix_bySegment base)"
    using p by (simp_all add: e plain_def below_over)
  moreover have "ly_base (ix_reexportDocs idx) = layer_get (ix_reexportDocs base)" "ly_base (ix_docReexports idx) = layer_get (ix_docReexports base)"
    using p by (simp_all add: e over_fields plain_def layer_get_plain)
  ultimately show ?thesis using k by (auto simp: base_kept_def dest!: below_kept)
qed

section \<open>An example\<close>

definition example_environment :: "nat environment" where
  "example_environment =
     \<lparr>en_syms = (\<lambda>n. \<lparr>sy_DocName = ''d'', sy_Offset = int n\<rparr>), en_names = (\<lambda>m. sorted_list_of_set (dom m)),
      en_docs = (\<lambda>m. sorted_list_of_set (dom m)), en_keys = (\<lambda>m. sorted_list_of_set (dom m))\<rparr>"

lemma example_environment_ok: "environment_ok example_environment"
  by (simp add: environment_ok_def ranges_def example_environment_def)

text \<open>A package \<open>A\<close> declares \<open>x\<close>; a document with a private import in \<open>B\<close> surfaces it there.\<close>

definition example_declared :: "nat index" where
  "example_declared = register (en_syms example_environment) ''A::x'' 7 (NewIndex Suc)"

lemma frozen_fields [simp]:
  "ix_frozen (noteBefore f idx) = ix_frozen idx" "ix_frozen (changedName f idx) = ix_frozen idx" "ix_frozen (markGained p idx) = ix_frozen idx"
  "ix_frozen (link syms f s idx) = ix_frozen idx" "ix_frozen (applyReexportMarks key docs idx) = ix_frozen idx"
  by (simp_all add: noteBefore_def changedName_def markGained_def link_def applyReexportMarks_def Let_def split: option.split prod.split)

definition example_index :: "nat index" where
  "example_index = reexportGated (en_syms example_environment) ''B::x'' 7 ''d'' True [[]] example_declared"

lemma example_unfrozen: "\<not> ix_frozen example_declared"
  by (simp add: example_declared_def register_def NewIndex_def)

lemma example_reachable: "index_reachable example_environment Suc example_index"
proof -
  have "\<not> hasFQN (NewIndex Suc :: nat index) ''A::x'' 7" "\<not> ix_frozen (NewIndex Suc :: nat index)"
    by (simp_all add: hasFQN_def NewIndex_def new_table)
  then have "index_step example_environment (NewIndex Suc) example_declared" unfolding example_declared_def by (intro declared)
  then have "index_reachable example_environment Suc example_declared" by (rule index_reachable.step [OF new])
  moreover have "index_step example_environment example_declared example_index"
    unfolding example_index_def by (rule surfaced [OF example_unfrozen])
  ultimately show ?thesis by (rule index_reachable.step)
qed

lemma appended: "tb_ok t \<Longrightarrow> tb_ok (appendSlice t k e)"
  "tb_ok t \<Longrightarrow> tb_at (appendSlice t k e) k' = (if k' = k then tb_at t k @ [e] else tb_at t k')"
  using appendSlice_ok [of t k e] by (simp_all add: wrote_def tb_at_get)

lemmas index_evaluation =
  example_index_def example_declared_def register_def link_def reexport_def reexportGated_def claimReexport_def record_route_def
  NewIndex_def Let_def splitFQN_def lastSeparator_def claims_set appended new_table

lemma example_values:
  "RegisteredUnder example_index ''B::x'' = [7]"
  "claims_of example_index (''B::x'', 7) = [''d'' \<mapsto> \<lparr>cl_public = False, cl_routes = [\<lparr>gr_private = True, gr_filters = []\<rparr>]\<rparr>]"
  by (simp_all add: index_evaluation RegisteredUnder_def claims_of_def layer_at_def layer_new layer_get_set split: prod.split)

theorem index_consistent_witness:
  "hasFQN example_index ''B::x'' 7 \<and> set (childKeys example_index ''B'') = {f. RegisteredUnder example_index f \<noteq> [] \<and> fst (splitFQN f) = ''B''}"
  using index_consistent [OF example_reachable example_environment_ok] by (simp add: example_values hasFQN_def RegisteredUnder_def [symmetric])

theorem lookup_meaning_witness:
  "LookupQualifiedFrom example_index ''B::x'' ''B'' = [7] \<and> LookupQualifiedFrom example_index ''B::x'' ''C'' = [] \<and>
   HiddenFrom example_index ''B::x'' ''C''"
  using lookup_meaning [OF example_reachable example_environment_ok, of "''B::x''" "''B''"]
    lookup_meaning [OF example_reachable example_environment_ok, of "''B::x''" "''C''"]
  by (simp add: example_values hidden_by_def namespaceOf_def lastSeparator_def withinNamespace_def)

text \<open>The example, settled and frozen, with an overlay that declares the same name.\<close>

definition example_base :: "nat index" where
  "example_base = (settleSegments (en_names example_environment) example_index)\<lparr>ix_frozen := True\<rparr>"

lemma example_base_reachable: "index_reachable example_environment Suc example_base" "ix_pending example_base = Map.empty"
proof -
  have "\<not> ix_frozen example_index" by (simp add: index_evaluation claims_of_def layer_at_def layer_new)
  then have "index_reachable example_environment Suc (settleSegments (en_names example_environment) example_index)"
    by (intro index_reachable.step [OF example_reachable] settled)
  then show "index_reachable example_environment Suc example_base" unfolding example_base_def
    by (rule index_reachable.freeze) (simp add: settleSegments_def)
qed (simp add: example_base_def settleSegments_def)

theorem overlay_isolated_witness:
  "\<exists>idx. NewOverlay example_base = Some idx \<and> \<not> hasFQN idx ''B::x'' 8 \<and>
     below (ix_fqn (register (en_syms example_environment) ''B::x'' 8 idx)) ''B::x'' = Some [7]"
proof -
  have over: "ix_over example_base = False"
    by (simp add: example_base_def settleSegments_def index_evaluation layer_at_def layer_new)
  then obtain idx where o': "NewOverlay example_base = Some idx" by (simp add: NewOverlay_def example_base_def)
  have "members idx = members example_base"
    using overlay_ok(2) [OF index_reachable_good [OF example_base_reachable(1) example_environment_ok] example_base_reachable(2) o'] .
  moreover have x: "tb_at (ix_fqn example_base) ''B::x'' = [7]"
    using example_values(1) by (simp add: example_base_def settleSegments_def RegisteredUnder_def)
  ultimately have n: "\<not> hasFQN idx ''B::x'' 8" by (simp add: hasFQN_def members_def fun_eq_iff)
  have "\<not> ix_frozen idx" using o' by (auto simp: NewOverlay_def split: if_splits)
  then have "(index_step example_environment)\<^sup>*\<^sup>* idx (register (en_syms example_environment) ''B::x'' 8 idx)"
    using n by (intro r_into_rtranclp declared)
  then have "below (ix_fqn (register (en_syms example_environment) ''B::x'' 8 idx)) = tb_get (ix_fqn example_base)"
    using overlay_isolated [OF example_base_reachable(1) example_environment_ok example_base_reachable(2) o'] by blast
  then show ?thesis using o' n x by (auto simp: tb_at_get split: option.splits)
qed

end
