(* ===== verification/Check_Moves.thy ===== *)
theory Check_Moves
  imports Budgets "HOL-Library.AList_Mapping"
begin

text \<open>
  The search of the model checker (\<open>internal/exec/runtime/check.go\<close>) and its reduction
  (\<open>check_reduce.go\<close>): depth first over the schedules of the executors of an invocation, one unit of one
  executor a move, with the states seen, the bounds, and the moves the reduction leaves out.

  The executors are a parameter (\<open>checked_system\<close>): in a state, the moves enabled, what making one does and
  which choices it drew, how the run settles, which properties hold, what a final state answers, and the
  footprints moves and units have there. A state holds what a snapshot restores, the turn included. The
  probability masses, which only weigh what is found, and the witnesses, which spell it, are left out.
\<close>

section \<open>Moves\<close>

datatype moveKind = movePlain | moveJoin | moveResume | moveAccept | moveTrigger | moveDecision | moveDispatch | moveDoStep | moveEntry

text \<open>What an error is, as \<open>boundOf\<close> and \<open>failed\<close> tell it: a budget, a refused move, a deadlock, or another.\<close>

datatype 'e check_error = Budget_spent string 'e | Refused 'e | Deadlocked 'e | Raised 'e

record ('o, 'n, 'e) enabledMove =
  em_Owner :: 'o
  em_Token :: int
  em_Node :: "'n option"
  em_Picks :: "nat list"
  em_Label :: string
  em_Kind :: moveKind
  em_Fails :: "'e check_error option"

record ('o, 'n, 'e, 'f) searchMove = "('o, 'n, 'e) enabledMove" +
  sm_name :: string
  sm_footprint :: 'f

definition move_unit :: "('o, 'n, 'e, 'm) enabledMove_scheme \<Rightarrow> 'o \<times> int" where
  "move_unit m = (em_Owner m, em_Token m)"

definition same_move :: "('o, 'n, 'e, 'm) enabledMove_scheme \<Rightarrow> ('o, 'n, 'e, 'm) enabledMove_scheme \<Rightarrow> bool" where
  "same_move m o' =
     (em_Owner m = em_Owner o' \<and> em_Token m = em_Token o' \<and> em_Kind m = em_Kind o' \<and> em_Node m = em_Node o' \<and>
      em_Picks m = em_Picks o')"

definition containsMove :: "('o, 'n, 'e, 'f) searchMove list \<Rightarrow> ('o, 'n, 'e, 'f) searchMove \<Rightarrow> bool" where
  "containsMove ms m = list_ex (same_move m) ms"

text \<open>\<open>%s pick %d\<close>, for each pick.\<close>

fun pick_names :: "string \<Rightarrow> nat list \<Rightarrow> string" where
  "pick_names name [] = name"
| "pick_names name (p # ps) = pick_names (name @ '' pick '' @ nat_text (p + 1)) ps"

section \<open>The system checked\<close>

datatype 'e evaluation = Holds bool | Holds_limited bool | Evaluation_fails "'e check_error"

record ('s, 'o, 'n, 'e, 'f, 'v) checked_system =
  cs_key :: "'s \<Rightarrow> string"
  cs_enabled :: "'s \<Rightarrow> ('o, 'n, 'e) enabledMove list"
  cs_name :: "'s \<Rightarrow> ('o, 'n, 'e) enabledMove \<Rightarrow> string"
  cs_footprint :: "'s \<Rightarrow> ('o, 'n, 'e) enabledMove \<Rightarrow> 'f"
  cs_units :: "'s \<Rightarrow> (('o \<times> int) \<times> 'f \<times> 'f) list"
  cs_dependent :: "'s \<Rightarrow> 'o \<Rightarrow> 'o \<Rightarrow> 'f \<Rightarrow> 'f \<Rightarrow> bool"
  cs_dynamic :: 'f
  cs_nothing :: 'f
  cs_make :: "'s \<Rightarrow> ('o, 'n, 'e) enabledMove \<Rightarrow> nat list \<times> ('e check_error + 's)"
  cs_stabilize :: "'s \<Rightarrow> 'e check_error + 's"
  cs_terminal :: "'s \<Rightarrow> bool"
  cs_evaluate :: "'s \<Rightarrow> string \<Rightarrow> 'e evaluation"
  cs_finals :: "'s \<Rightarrow> bool \<times> (string \<times> 'v) list"

record CheckBudget =
  cb_Depth :: int
  cb_States :: int

record check_config =
  cc_budget :: CheckBudget
  cc_Reduce :: bool
  cc_props :: "string list"
  cc_budgets :: Budgets

section \<open>The checker\<close>

datatype ViolationKind = ViolationProperty | violationDeadlock | ViolationFailure

record 'e Violation =
  vi_Kind :: ViolationKind
  vi_Name :: string
  vi_Err :: "'e check_error option"
  vi_Depth :: nat

record visitedState =
  vs_explored :: "string set"
  vs_depth :: nat
  vs_cut :: bool
  vs_violated :: "string list"

record spending =
  actionSteps :: int
  events :: int
  doSteps :: int

record ('s, 'o, 'n, 'e, 'f) checkFrame =
  fr_snap :: 's
  fr_key :: string
  fr_depth :: nat
  fr_spent :: spending
  fr_all :: "('o, 'n, 'e, 'f) searchMove list"
  fr_moves :: "('o, 'n, 'e, 'f) searchMove list"
  fr_next :: nat
  fr_sleep :: "('o, 'n, 'e, 'f) searchMove list"
  fr_full :: bool
  fr_cut :: bool
  fr_violated :: "string list"

text \<open>The stack has its top first.\<close>

record ('s, 'o, 'n, 'e, 'f, 'v) checker =
  ck_visited :: "(string, visitedState) mapping"
  ck_onStack :: "(string, nat) mapping"
  ck_stack :: "('s, 'o, 'n, 'e, 'f) checkFrame list"
  ck_moves :: nat
  ck_maxDepth :: nat
  ck_bounds :: "string list"
  ck_violations :: "'e Violation list"
  ck_results :: "(string \<times> 'v) list"

definition new_checker :: "('s, 'o, 'n, 'e, 'f, 'v) checker" where
  "new_checker =
     \<lparr>ck_visited = Mapping.empty, ck_onStack = Mapping.empty, ck_stack = [], ck_moves = 0, ck_maxDepth = 0, ck_bounds = [], ck_violations = [],
      ck_results = []\<rparr>"

text \<open>How many frames on the stack stand at the key.\<close>

definition on_stack :: "('s, 'o, 'n, 'e, 'f, 'v) checker \<Rightarrow> string \<Rightarrow> nat" where
  "on_stack c key = (case Mapping.lookup (ck_onStack c) key of None \<Rightarrow> 0 | Some n \<Rightarrow> n)"

definition spend :: "moveKind \<Rightarrow> Budgets \<Rightarrow> spending \<Rightarrow> spending \<times> string \<times> bool" where
  "spend kind budgets s =
     (case kind of
        moveDispatch \<Rightarrow>
          let s = s\<lparr>events := events s + 1\<rparr> in (s, ''events'', MaxStateEvents budgets > 0 \<and> events s > MaxStateEvents budgets)
      | moveDoStep \<Rightarrow>
          let s = s\<lparr>doSteps := doSteps s + 1\<rparr> in (s, ''doSteps'', MaxDoSteps budgets > 0 \<and> doSteps s > MaxDoSteps budgets)
      | _ \<Rightarrow>
          let s = s\<lparr>actionSteps := actionSteps s + 1\<rparr>
          in (s, ''actionSteps'', MaxActionSteps budgets > 0 \<and> actionSteps s > MaxActionSteps budgets))"

definition hit :: "string \<Rightarrow> ('s, 'o, 'n, 'e, 'f, 'v) checker \<Rightarrow> ('s, 'o, 'n, 'e, 'f, 'v) checker" where
  "hit bound c = (if bound \<in> set (ck_bounds c) then c else c\<lparr>ck_bounds := ck_bounds c @ [bound]\<rparr>)"

text \<open>The position of the violation of the same property, if there is one.\<close>

definition property_at :: "string \<Rightarrow> 'e Violation list \<Rightarrow> nat option" where
  "property_at name vs =
     (let i = length (takeWhile (\<lambda>v. \<not> (vi_Kind v = ViolationProperty \<and> vi_Name v = name)) vs) in if i < length vs then Some i else None)"

definition violate :: "'e Violation \<Rightarrow> ('s, 'o, 'n, 'e, 'f, 'v) checker \<Rightarrow> ('s, 'o, 'n, 'e, 'f, 'v) checker" where
  "violate v c =
     (case (if vi_Kind v = ViolationProperty then property_at (vi_Name v) (ck_violations c) else None) of
        Some i \<Rightarrow>
          (if vi_Depth v < vi_Depth (ck_violations c ! i) then c\<lparr>ck_violations := (ck_violations c)[i := v]\<rparr> else c)
      | None \<Rightarrow> c\<lparr>ck_violations := ck_violations c @ [v]\<rparr>)"

text \<open>\<open>cut\<close> of the frame on top.\<close>

definition mark_cut :: "string \<Rightarrow> (string, visitedState) mapping \<Rightarrow> (string, visitedState) mapping" where
  "mark_cut key = Mapping.map_entry key (\<lambda>seen. seen\<lparr>vs_cut := True\<rparr>)"

definition cut_top :: "('s, 'o, 'n, 'e, 'f, 'v) checker \<Rightarrow> ('s, 'o, 'n, 'e, 'f, 'v) checker" where
  "cut_top c =
     (case ck_stack c of
        [] \<Rightarrow> c
      | f # rest \<Rightarrow> c\<lparr>ck_stack := f\<lparr>fr_cut := True\<rparr> # rest, ck_visited := mark_cut (fr_key f) (ck_visited c)\<rparr>)"

section \<open>The moves of a state\<close>

definition named ::
  "('s, 'o, 'n, 'e, 'f, 'v) checked_system \<Rightarrow> 's \<Rightarrow> ('o, 'n, 'e) enabledMove \<Rightarrow> ('o, 'n, 'e, 'f) searchMove" where
  "named sys s m =
     enabledMove.extend m \<lparr>sm_name = pick_names (cs_name sys s m) (em_Picks m), sm_footprint = cs_footprint sys s m\<rparr>"

definition movesOf :: "('s, 'o, 'n, 'e, 'f, 'v) checked_system \<Rightarrow> 's \<Rightarrow> ('o, 'n, 'e, 'f) searchMove list" where
  "movesOf sys s = sort_key sm_name (map (named sys s) (cs_enabled sys s))"

text \<open>The other alternatives of each choice drawn past some picks, those drawn before it taken first.\<close>

definition alternatives :: "nat list \<Rightarrow> nat list list" where
  "alternatives drawn = concat (map (\<lambda>i. map (\<lambda>alt. replicate i 0 @ [alt]) [1..<drawn ! i]) [0..<length drawn])"

definition siblings :: "nat list \<Rightarrow> ('o, 'n, 'e, 'f) searchMove \<Rightarrow> ('o, 'n, 'e, 'f) searchMove list" where
  "siblings drawn m = map (\<lambda>picks. m\<lparr>em_Picks := em_Picks m @ picks, sm_name := pick_names (sm_name m) picks\<rparr>) (alternatives drawn)"

definition insert_list :: "nat \<Rightarrow> 'a list \<Rightarrow> 'a list \<Rightarrow> 'a list" where
  "insert_list i new xs = take i xs @ new @ drop i xs"

text \<open>\<open>IndexFunc + 1\<close>, the index of a move that is absent being \<open>-1\<close>.\<close>

definition index_after :: "('o, 'n, 'e, 'f) searchMove \<Rightarrow> ('o, 'n, 'e, 'f) searchMove list \<Rightarrow> nat" where
  "index_after m ms = (if containsMove ms m then length (takeWhile (\<lambda>o'. \<not> same_move m o') ms) + 1 else 0)"

definition reveal ::
  "('o, 'n, 'e, 'f) searchMove \<Rightarrow> nat list \<Rightarrow> ('s, 'o, 'n, 'e, 'f) checkFrame \<Rightarrow> ('s, 'o, 'n, 'e, 'f) checkFrame" where
  "reveal m drawn f =
     (let more = siblings drawn m
      in if more = [] then f
         else f\<lparr>fr_all := insert_list (index_after m (fr_all f)) more (fr_all f),
                fr_moves := insert_list (fr_next f) more (fr_moves f)\<rparr>)"

definition add_missing :: "('o, 'n, 'e, 'f) searchMove list \<Rightarrow> ('o, 'n, 'e, 'f) searchMove list \<Rightarrow> ('o, 'n, 'e, 'f) searchMove list" where
  "add_missing all moves = fold (\<lambda>m moves. if containsMove moves m then moves else moves @ [m]) all moves"

definition expand :: "('s, 'o, 'n, 'e, 'f) checkFrame \<Rightarrow> ('s, 'o, 'n, 'e, 'f) checkFrame" where
  "expand f = (if fr_full f then f else f\<lparr>fr_full := True, fr_sleep := [], fr_moves := add_missing (fr_all f) (fr_moves f)\<rparr>)"

end
