(* ===== verification/Check_Reduce.thy ===== *)
theory Check_Reduce
  imports Check_Moves
begin

text \<open>
  The reduction of the model checker (\<open>check_reduce.go\<close>): the units that join the moves to explore, and the
  moves that stay asleep. A unit is an executor's token or a state machine; what standing where it is touches
  (\<open>standing\<close>) and what it may touch from there on (\<open>future\<close>) are footprints the system gives.
\<close>

section \<open>The persistent set\<close>

record ('o, 'n, 'e, 'f) persistentClosure =
  pc_all :: "('o, 'n, 'e, 'f) searchMove list"
  pc_units :: "('o \<times> int) list"
  pc_standing :: "'o \<times> int \<Rightarrow> 'f"
  pc_future :: "'o \<times> int \<Rightarrow> 'f"
  pc_dependent :: "'o \<Rightarrow> 'o \<Rightarrow> 'f \<Rightarrow> 'f \<Rightarrow> bool"

text \<open>A map without an entry gives the empty footprint. A unit that fails depends on everything.\<close>

definition newPersistentClosure ::
  "('s, 'o, 'n, 'e, 'f, 'v) checked_system \<Rightarrow> 's \<Rightarrow> ('o, 'n, 'e, 'f) searchMove list \<Rightarrow> ('o, 'n, 'e, 'f) persistentClosure" where
  "newPersistentClosure sys s all =
     (let units = cs_units sys s;
          failing = map move_unit (filter (\<lambda>m. em_Fails m \<noteq> None) all);
          table = (\<lambda>get u. if u \<in> set failing then cs_dynamic sys
                           else case map_of (rev units) u of Some e \<Rightarrow> get e | None \<Rightarrow> cs_nothing sys)
      in \<lparr>pc_all = all, pc_units = map fst units, pc_standing = table fst, pc_future = table snd, pc_dependent = cs_dependent sys s\<rparr>)"

definition meets :: "('o, 'n, 'e, 'f) persistentClosure \<Rightarrow> 'o \<times> int \<Rightarrow> 'o \<times> int \<Rightarrow> bool" where
  "meets p other u = pc_dependent p (fst other) (fst u) (pc_future p other) (pc_standing p u)"

text \<open>\<open>include\<close>. Every call adds a unit of the list, but for the first, so \<open>fuel\<close> above the number of units is never used up.\<close>

fun include_unit ::
  "nat \<Rightarrow> ('o, 'n, 'e, 'f) persistentClosure \<Rightarrow> 'o \<times> int \<Rightarrow> ('o \<times> int) set \<Rightarrow> ('o \<times> int) set" where
  "include_unit 0 p u chosen = chosen"
| "include_unit (Suc fuel) p u chosen =
     (if u \<in> chosen then chosen
      else fold (\<lambda>other chosen. if other \<notin> chosen \<and> meets p other u then include_unit fuel p other chosen else chosen)
             (pc_units p) (insert u chosen))"

definition closure_include ::
  "('o, 'n, 'e, 'f) persistentClosure \<Rightarrow> 'o \<times> int \<Rightarrow> ('o \<times> int) set \<Rightarrow> ('o \<times> int) set" where
  "closure_include p u chosen = include_unit (length (pc_units p) + 1) p u chosen"

definition futureDependsOnSet :: "('o, 'n, 'e, 'f) persistentClosure \<Rightarrow> ('o \<times> int) set \<Rightarrow> 'o \<times> int \<Rightarrow> bool" where
  "futureDependsOnSet p chosen u =
     list_ex (\<lambda>m. move_unit m \<in> chosen \<and> pc_dependent p (fst u) (em_Owner m) (pc_future p u) (sm_footprint m)) (pc_all p)"

text \<open>One pass of the loop of \<open>persistent\<close>.\<close>

definition grow :: "('o, 'n, 'e, 'f) persistentClosure \<Rightarrow> ('o \<times> int) set \<Rightarrow> ('o \<times> int) set \<times> bool" where
  "grow p chosen =
     fold (\<lambda>u (chosen, grew).
         if u \<in> chosen then (chosen, grew)
         else if futureDependsOnSet p chosen u then (closure_include p u chosen, True) else (chosen, grew))
       (pc_units p) (chosen, False)"

fun grow_all :: "nat \<Rightarrow> ('o, 'n, 'e, 'f) persistentClosure \<Rightarrow> ('o \<times> int) set \<Rightarrow> ('o \<times> int) set" where
  "grow_all 0 p chosen = chosen"
| "grow_all (Suc fuel) p chosen = (let (chosen', grew) = grow p chosen in if grew then grow_all fuel p chosen' else chosen')"

definition persistent ::
  "check_config \<Rightarrow> ('s, 'o, 'n, 'e, 'f, 'v) checked_system \<Rightarrow> 's \<Rightarrow> ('o, 'n, 'e, 'f) searchMove list \<Rightarrow>
   ('o, 'n, 'e, 'f) searchMove list \<Rightarrow> ('o, 'n, 'e, 'f) searchMove list" where
  "persistent cfg sys s all sleep =
     (if \<not> cc_Reduce cfg \<or> cc_props cfg \<noteq> [] then all
      else
        let awake = (\<lambda>m. \<not> list_ex (same_move m) sleep)
        in case filter awake all of
             [] \<Rightarrow> []
           | first # _ \<Rightarrow>
               let p = newPersistentClosure sys s all;
                   chosen = grow_all (length (pc_units p) + 1) p (closure_include p (move_unit first) {})
               in filter (\<lambda>m. move_unit m \<in> chosen \<and> awake m) all)"

section \<open>Moves asleep\<close>

definition dependent_moves ::
  "('s, 'o, 'n, 'e, 'f, 'v) checked_system \<Rightarrow> 's \<Rightarrow> ('o, 'n, 'e, 'f) searchMove \<Rightarrow> ('o, 'n, 'e, 'f) searchMove \<Rightarrow> bool" where
  "dependent_moves sys s a b =
     (move_unit a = move_unit b \<or> cs_dependent sys s (em_Owner a) (em_Owner b) (sm_footprint a) (sm_footprint b))"

definition childSleep ::
  "check_config \<Rightarrow> ('s, 'o, 'n, 'e, 'f, 'v) checked_system \<Rightarrow> 's \<Rightarrow> ('s, 'o, 'n, 'e, 'f) checkFrame \<Rightarrow>
   ('o, 'n, 'e, 'f) searchMove \<Rightarrow> ('o, 'n, 'e, 'f) searchMove list" where
  "childSleep cfg sys s f m =
     (if \<not> cc_Reduce cfg then []
      else filter (\<lambda>a. \<not> dependent_moves sys s a m) (fr_sleep f @ take (fr_next f - 1) (fr_moves f)))"


section \<open>The set is closed\<close>

definition meets_closed :: "('o, 'n, 'e, 'f) persistentClosure \<Rightarrow> ('o \<times> int) set \<Rightarrow> ('o \<times> int) set \<Rightarrow> bool" where
  "meets_closed p V chosen = (\<forall>v \<in> V. \<forall>u \<in> set (pc_units p). meets p u v \<longrightarrow> u \<in> chosen)"

lemma include_unit_ok:
  assumes "card (set (pc_units p) - insert u chosen) < fuel"
  shows "insert u chosen \<subseteq> include_unit fuel p u chosen \<and> include_unit fuel p u chosen \<subseteq> insert u chosen \<union> set (pc_units p) \<and>
    meets_closed p (include_unit fuel p u chosen - chosen) (include_unit fuel p u chosen)"
  using assms
proof (induction fuel arbitrary: u chosen)
  case (Suc fuel)
  let ?U = "set (pc_units p)"
  show ?case
  proof (cases "u \<in> chosen")
    case False
    let ?f = "\<lambda>other chosen. if other \<notin> chosen \<and> meets p other u then include_unit fuel p other chosen else chosen"
    define good where "good xs ch = (insert u chosen \<subseteq> ch \<and> ch \<subseteq> insert u chosen \<union> ?U \<and> meets_closed p (ch - insert u chosen) ch \<and>
        (\<forall>v \<in> set xs. meets p v u \<longrightarrow> v \<in> ch))" for xs ch
    have step: "good (xs @ [x]) (?f x ch)" if g: "good xs ch" and x: "x \<in> ?U" for xs x ch
    proof (cases "x \<notin> ch \<and> meets p x u")
      case True
      have "insert u chosen \<subseteq> ch" using g by (simp add: good_def)
      then have "?U - insert x ch \<subset> ?U - insert u chosen" using x True by blast
      then have "card (?U - insert x ch) < card (?U - insert u chosen)" by (simp add: psubset_card_mono)
      then have "card (?U - insert x ch) < fuel" using Suc.prems by simp
      note IH = Suc.IH [OF this]
      have "meets_closed p (include_unit fuel p x ch - insert u chosen) (include_unit fuel p x ch)"
        using IH g unfolding good_def meets_closed_def by blast
      moreover have "insert u chosen \<subseteq> include_unit fuel p x ch" "include_unit fuel p x ch \<subseteq> insert u chosen \<union> ?U"
        using IH g x unfolding good_def by blast+
      moreover have "\<forall>v \<in> set (xs @ [x]). meets p v u \<longrightarrow> v \<in> include_unit fuel p x ch"
        using IH g unfolding good_def by auto
      ultimately show ?thesis using True by (simp add: good_def)
    qed (use g in \<open>auto simp: good_def\<close>)
    have "good xs (fold ?f xs (insert u chosen))" if "set xs \<subseteq> ?U" for xs
      using that
    proof (induction xs rule: rev_induct)
      case Nil
      then show ?case by (auto simp: good_def meets_closed_def)
    next
      case (snoc x xs)
      then show ?case using step [of xs "fold ?f xs (insert u chosen)" x] by simp
    qed
    from this [of "pc_units p"] have "good (pc_units p) (include_unit (Suc fuel) p u chosen)" using False by simp
    then show ?thesis unfolding good_def meets_closed_def by blast
  qed (auto simp: meets_closed_def)
qed simp

lemma closure_include_ok:
  assumes "meets_closed p chosen chosen"
  shows "insert u chosen \<subseteq> closure_include p u chosen" "closure_include p u chosen \<subseteq> insert u chosen \<union> set (pc_units p)"
    "meets_closed p (closure_include p u chosen) (closure_include p u chosen)"
proof -
  have "card (set (pc_units p) - insert u chosen) \<le> length (pc_units p)"
    by (rule le_trans [OF card_mono card_length]) auto
  then have "card (set (pc_units p) - insert u chosen) < length (pc_units p) + 1" by simp
  note i = include_unit_ok [OF this]
  show "insert u chosen \<subseteq> closure_include p u chosen" "closure_include p u chosen \<subseteq> insert u chosen \<union> set (pc_units p)"
    using i by (simp_all add: closure_include_def)
  show "meets_closed p (closure_include p u chosen) (closure_include p u chosen)"
    using i assms unfolding closure_include_def meets_closed_def by blast
qed

text \<open>One pass: what it leaves out when it adds nothing, and that it adds a unit otherwise.\<close>

lemma grow_ok:
  assumes "meets_closed p chosen chosen" "grow p chosen = (chosen', grew)"
  shows "chosen \<subseteq> chosen'" "chosen' \<subseteq> chosen \<union> set (pc_units p)" "meets_closed p chosen' chosen'"
    "grew \<Longrightarrow> \<exists>u \<in> set (pc_units p). u \<in> chosen' - chosen"
    "\<not> grew \<Longrightarrow> chosen' = chosen \<and> (\<forall>u \<in> set (pc_units p) - chosen. \<not> futureDependsOnSet p chosen u)"
proof -
  let ?f = "\<lambda>u (chosen, grew). if u \<in> chosen then (chosen, grew)
      else if futureDependsOnSet p chosen u then (closure_include p u chosen, True) else (chosen, grew)"
  define good where "good xs r = (case r of (ch, gr) \<Rightarrow> chosen \<subseteq> ch \<and> ch \<subseteq> chosen \<union> set (pc_units p) \<and> meets_closed p ch ch \<and>
      (if gr then \<exists>u \<in> set (pc_units p). u \<in> ch - chosen
       else ch = chosen \<and> (\<forall>u \<in> set xs - chosen. \<not> futureDependsOnSet p chosen u)))" for xs r
  have step: "good (xs @ [x]) (?f x r)" if g: "good xs r" and x: "x \<in> set (pc_units p)" for xs x r
  proof (cases r)
    case (Pair ch gr)
    show ?thesis
    proof (cases "x \<notin> ch \<and> futureDependsOnSet p ch x")
      case True
      have "meets_closed p ch ch" using g Pair by (simp add: good_def)
      note c = closure_include_ok [OF this, of x]
      have "x \<in> closure_include p x ch - chosen" using c(1) True g Pair by (auto simp: good_def)
      then show ?thesis using c g x True Pair by (auto simp: good_def)
    qed (use g Pair in \<open>auto simp: good_def split: if_splits\<close>)
  qed
  have "good xs (fold ?f xs (chosen, False))" if "set xs \<subseteq> set (pc_units p)" for xs
    using that
  proof (induction xs rule: rev_induct)
    case Nil
    then show ?case using assms(1) by (simp add: good_def)
  next
    case (snoc x xs)
    then show ?case using step [of xs "fold ?f xs (chosen, False)" x] by simp
  qed
  from this [of "pc_units p"] have "good (pc_units p) (chosen', grew)" using assms(2) by (simp add: grow_def)
  then show "chosen \<subseteq> chosen'" "chosen' \<subseteq> chosen \<union> set (pc_units p)" "meets_closed p chosen' chosen'"
    "grew \<Longrightarrow> \<exists>u \<in> set (pc_units p). u \<in> chosen' - chosen"
    "\<not> grew \<Longrightarrow> chosen' = chosen \<and> (\<forall>u \<in> set (pc_units p) - chosen. \<not> futureDependsOnSet p chosen u)"
    by (auto simp: good_def split: if_splits)
qed

lemma grow_all_ok:
  assumes "meets_closed p chosen chosen" "card (set (pc_units p) - chosen) < fuel"
  shows "chosen \<subseteq> grow_all fuel p chosen \<and> grow_all fuel p chosen \<subseteq> chosen \<union> set (pc_units p) \<and>
    meets_closed p (grow_all fuel p chosen) (grow_all fuel p chosen) \<and>
    (\<forall>u \<in> set (pc_units p) - grow_all fuel p chosen. \<not> futureDependsOnSet p (grow_all fuel p chosen) u)"
  using assms
proof (induction fuel arbitrary: chosen)
  case (Suc fuel)
  obtain ch gr where g: "grow p chosen = (ch, gr)" by force
  note k = grow_ok [OF Suc.prems(1) g]
  show ?case
  proof (cases gr)
    case True
    have "set (pc_units p) - ch \<subset> set (pc_units p) - chosen" using k(1) k(4) [OF True] by blast
    then have "card (set (pc_units p) - ch) < card (set (pc_units p) - chosen)" by (simp add: psubset_card_mono)
    then have "card (set (pc_units p) - ch) < fuel" using Suc.prems(2) by simp
    note IH = Suc.IH [OF k(3) this]
    have e: "grow_all (Suc fuel) p chosen = grow_all fuel p ch" by (simp add: g True)
    show ?thesis unfolding e using IH k(1,2) by blast
  next
    case False
    then show ?thesis using k g by (simp add: Let_def)
  qed
qed simp

text \<open>C11: The moves chosen to explore, when the check reduces, are the moves awake of a set of units that has the first
  move awake, that no unit left out of can meet from where it stands (its future depends on what a member
  touches standing where it is), and that no unit left out may interfere with by a move of a member.\<close>

theorem persistent_closed:
  assumes "cc_Reduce cfg" "cc_props cfg = []" "filter (\<lambda>m. \<not> list_ex (same_move m) sleep) all = first # others"
  shows "\<exists>chosen. move_unit first \<in> chosen \<and> chosen \<subseteq> insert (move_unit first) (fst ` set (cs_units sys s)) \<and>
    persistent cfg sys s all sleep = filter (\<lambda>m. move_unit m \<in> chosen \<and> \<not> list_ex (same_move m) sleep) all \<and>
    first \<in> set (persistent cfg sys s all sleep) \<and>
    (\<forall>u \<in> fst ` set (cs_units sys s) - chosen.
      (\<forall>v \<in> chosen. \<not> meets (newPersistentClosure sys s all) u v) \<and>
      (\<forall>m \<in> set all. move_unit m \<in> chosen \<longrightarrow>
        \<not> cs_dependent sys s (fst u) (em_Owner m) (pc_future (newPersistentClosure sys s all) u) (sm_footprint m)))"
proof -
  let ?p = "newPersistentClosure sys s all"
  define ch where "ch = closure_include ?p (move_unit first) {}"
  define gr where "gr = grow_all (length (pc_units ?p) + 1) ?p ch"
  have n: "meets_closed ?p {} {}" by (simp add: meets_closed_def)
  note c = closure_include_ok [OF n, of "move_unit first", folded ch_def]
  have "card (set (pc_units ?p) - ch) \<le> length (pc_units ?p)" by (rule le_trans [OF card_mono card_length]) auto
  then have "card (set (pc_units ?p) - ch) < length (pc_units ?p) + 1" by simp
  note g = grow_all_ok [OF c(3) this, folded gr_def]
  have u: "set (pc_units ?p) = fst ` set (cs_units sys s)" "pc_dependent ?p = cs_dependent sys s" "pc_all ?p = all"
    by (simp_all add: newPersistentClosure_def Let_def)
  have p: "persistent cfg sys s all sleep = filter (\<lambda>m. move_unit m \<in> gr \<and> \<not> list_ex (same_move m) sleep) all"
    using assms by (simp add: persistent_def Let_def gr_def ch_def)
  have f: "first \<in> set all" "\<not> list_ex (same_move first) sleep"
    using arg_cong [OF assms(3), of set] by auto
  have i: "move_unit first \<in> gr" using c(1) g by auto
  show ?thesis
  proof (intro exI [of _ gr] conjI ballI)
    show "first \<in> set (persistent cfg sys s all sleep)" using f i by (simp add: p)
    fix x assume x: "x \<in> fst ` set (cs_units sys s) - gr"
    then have "\<not> futureDependsOnSet ?p gr x" using g u(1) by blast
    then show "\<And>m. m \<in> set all \<Longrightarrow> move_unit m \<in> gr \<longrightarrow> \<not> cs_dependent sys s (fst x) (em_Owner m) (pc_future ?p x) (sm_footprint m)"
      by (auto simp: futureDependsOnSet_def u list_ex_iff)
    show "\<And>v. v \<in> gr \<Longrightarrow> \<not> meets ?p x v" using g x u(1) unfolding meets_closed_def by blast
  qed (use c g u p i in auto)
qed

end
