(* ===== verification/Check_Search.thy ===== *)
theory Check_Search
  imports Check_Reduce
begin

text \<open>The depth-first search of the model checker (\<open>check.go\<close>), from \<open>search\<close> down.\<close>

section \<open>Visiting a state\<close>

definition set_violated :: "string \<Rightarrow> string \<Rightarrow> (string, visitedState) mapping \<Rightarrow> (string, visitedState) mapping" where
  "set_violated key name =
     Mapping.map_entry key
       (\<lambda>seen. if name \<in> set (vs_violated seen) then seen else seen\<lparr>vs_violated := vs_violated seen @ [name]\<rparr>)"

text \<open>One property of the loop of \<open>properties\<close>, with \<open>evaluate\<close>.\<close>

definition check_property ::
  "('s, 'o, 'n, 'e, 'f, 'v) checked_system \<Rightarrow> 's \<Rightarrow> nat \<Rightarrow> string list \<Rightarrow> string \<Rightarrow> string \<Rightarrow>
   ('s, 'o, 'n, 'e, 'f, 'v) checker \<Rightarrow> ('s, 'o, 'n, 'e, 'f, 'v) checker" where
  "check_property sys s depth violated key p c =
     (let (c, outcome) =
        (case cs_evaluate sys s p of
           Holds b \<Rightarrow> (c, Inr b)
         | Holds_limited b \<Rightarrow> (hit ''statement orders'' c, Inr b)
         | Evaluation_fails e \<Rightarrow> (c, Inl e))
      in case outcome of
           Inl e \<Rightarrow> violate \<lparr>vi_Kind = ViolationFailure, vi_Name = p, vi_Err = Some e, vi_Depth = depth\<rparr> c
         | Inr True \<Rightarrow> c
         | Inr False \<Rightarrow>
             let c = c\<lparr>ck_visited := set_violated key p (ck_visited c)\<rparr>
             in if p \<in> set violated then c
                else violate \<lparr>vi_Kind = ViolationProperty, vi_Name = p, vi_Err = None, vi_Depth = depth\<rparr> c)"

text \<open>\<open>visit\<close>: whether the state is kept (\<open>seen\<close> is not nil), and whether it had been visited.\<close>

definition visit ::
  "check_config \<Rightarrow> ('s, 'o, 'n, 'e, 'f, 'v) checked_system \<Rightarrow> 's \<Rightarrow> nat \<Rightarrow> string list \<Rightarrow>
   ('s, 'o, 'n, 'e, 'f, 'v) checker \<Rightarrow> bool \<times> bool \<times> ('s, 'o, 'n, 'e, 'f, 'v) checker" where
  "visit cfg sys s depth violated c =
     (let key = cs_key sys s
      in case Mapping.lookup (ck_visited c) key of
           None \<Rightarrow>
             if cb_States (cc_budget cfg) > 0 \<and> int (Mapping.size (ck_visited c)) \<ge> cb_States (cc_budget cfg)
             then (False, False, hit ''states'' c)
             else
               let seen = \<lparr>vs_explored = {}, vs_depth = depth, vs_cut = False, vs_violated = []\<rparr>;
                   c = c\<lparr>ck_visited := Mapping.update key seen (ck_visited c)\<rparr>
               in (True, False, fold (check_property sys s depth violated key) (cc_props cfg) c)
         | Some seen \<Rightarrow>
             (True, True,
              if depth < vs_depth seen then
                c\<lparr>ck_visited := Mapping.update key
                    ((if vs_cut seen then seen\<lparr>vs_explored := {}, vs_cut := False\<rparr> else seen)\<lparr>vs_depth := depth\<rparr>) (ck_visited c)\<rparr>
              else c))"

text \<open>The first final of an outcome's identity is the one kept.\<close>

definition add_final :: "string \<times> 'v \<Rightarrow> ('s, 'o, 'n, 'e, 'f, 'v) checker \<Rightarrow> ('s, 'o, 'n, 'e, 'f, 'v) checker" where
  "add_final r c = (if fst r \<in> fst ` set (ck_results c) then c else c\<lparr>ck_results := ck_results c @ [r]\<rparr>)"

definition final ::
  "('s, 'o, 'n, 'e, 'f, 'v) checked_system \<Rightarrow> 's \<Rightarrow> ('s, 'o, 'n, 'e, 'f, 'v) checker \<Rightarrow> ('s, 'o, 'n, 'e, 'f, 'v) checker" where
  "final sys s c =
     (let (limited, finals) = cs_finals sys s;
          c = (if limited then hit ''statement orders'' c else c)
      in fold add_final finals c)"

definition complete ::
  "check_config \<Rightarrow> ('s, 'o, 'n, 'e, 'f, 'v) checked_system \<Rightarrow> 's \<Rightarrow> nat \<Rightarrow> string list \<Rightarrow>
   ('s, 'o, 'n, 'e, 'f, 'v) checker \<Rightarrow> ('s, 'o, 'n, 'e, 'f, 'v) checker" where
  "complete cfg sys s depth violated c =
     (let (kept, visited, c) = visit cfg sys s depth violated c in if kept then final sys s c else c)"

text \<open>\<open>wanted\<close> and \<open>mark\<close>, on the state of the key.\<close>

definition mark_explored :: "string \<Rightarrow> string set \<Rightarrow> (string, visitedState) mapping \<Rightarrow> (string, visitedState) mapping" where
  "mark_explored key names = Mapping.map_entry key (\<lambda>seen. seen\<lparr>vs_explored := vs_explored seen \<union> names\<rparr>)"

definition wanted ::
  "string \<Rightarrow> ('s, 'o, 'n, 'e, 'f, 'v) checker \<Rightarrow> ('o, 'n, 'e, 'f) searchMove list \<Rightarrow> ('o, 'n, 'e, 'f) searchMove list" where
  "wanted key c moves = filter (\<lambda>m. sm_name m \<notin> vs_explored (the (Mapping.lookup (ck_visited c) key))) moves"

definition enter ::
  "check_config \<Rightarrow> ('s, 'o, 'n, 'e, 'f, 'v) checked_system \<Rightarrow> 's \<Rightarrow> nat \<Rightarrow> ('o, 'n, 'e, 'f) searchMove list \<Rightarrow> string list \<Rightarrow>
   ('s, 'o, 'n, 'e, 'f, 'v) checker \<Rightarrow> ('s, 'o, 'n, 'e, 'f) checkFrame option \<times> ('s, 'o, 'n, 'e, 'f, 'v) checker" where
  "enter cfg sys s depth sleep violated c =
     (let key = cs_key sys s; (kept, visited, c) = visit cfg sys s depth violated c
      in if \<not> kept then (None, c)
         else
           let all = movesOf sys s;
               moves = persistent cfg sys s all sleep;
               moves = (if visited then wanted key c moves else moves)
           in if visited \<and> moves = [] then (None, c)
              else
                (Some \<lparr>fr_snap = s, fr_key = key, fr_depth = depth, fr_spent = \<lparr>actionSteps = 0, events = 0, doSteps = 0\<rparr>,
                       fr_all = all, fr_moves = moves, fr_next = 0, fr_sleep = sleep, fr_full = False, fr_cut = False,
                       fr_violated = violated @ vs_violated (the (Mapping.lookup (ck_visited c) key))\<rparr>,
                 c\<lparr>ck_visited := mark_explored key (sm_name ` set moves) (ck_visited c)\<rparr>))"

text \<open>\<open>failed\<close>: a budget is a bound, a refused move ends the check, anything else is a violation.\<close>

definition failed ::
  "'e check_error \<Rightarrow> nat \<Rightarrow> ('s, 'o, 'n, 'e, 'f, 'v) checker \<Rightarrow> 'e check_error + ('s, 'o, 'n, 'e, 'f, 'v) checker" where
  "failed e depth c =
     (case e of
        Budget_spent bound _ \<Rightarrow> Inr (hit bound c)
      | Refused _ \<Rightarrow> Inl e
      | Deadlocked _ \<Rightarrow> Inr (violate \<lparr>vi_Kind = violationDeadlock, vi_Name = [], vi_Err = Some e, vi_Depth = depth\<rparr> c)
      | Raised _ \<Rightarrow> Inr (violate \<lparr>vi_Kind = ViolationFailure, vi_Name = [], vi_Err = Some e, vi_Depth = depth\<rparr> c))"

section \<open>The stack\<close>

definition push ::
  "('s, 'o, 'n, 'e, 'f) checkFrame \<Rightarrow> ('s, 'o, 'n, 'e, 'f, 'v) checker \<Rightarrow> ('s, 'o, 'n, 'e, 'f, 'v) checker" where
  "push f c = c\<lparr>ck_onStack := Mapping.update (fr_key f) (on_stack c (fr_key f) + 1) (ck_onStack c), ck_stack := f # ck_stack c\<rparr>"

definition on_top ::
  "(('s, 'o, 'n, 'e, 'f) checkFrame \<Rightarrow> ('s, 'o, 'n, 'e, 'f) checkFrame) \<Rightarrow> ('s, 'o, 'n, 'e, 'f, 'v) checker \<Rightarrow>
   ('s, 'o, 'n, 'e, 'f, 'v) checker" where
  "on_top g c = (case ck_stack c of [] \<Rightarrow> c | f # rest \<Rightarrow> c\<lparr>ck_stack := g f # rest\<rparr>)"

text \<open>What \<open>take\<close> does once the move is made and the run settled on \<open>s\<close>, \<open>f\<close> being the frame on top.\<close>

definition arrive ::
  "check_config \<Rightarrow> ('s, 'o, 'n, 'e, 'f, 'v) checked_system \<Rightarrow> 's \<Rightarrow> ('s, 'o, 'n, 'e, 'f) checkFrame \<Rightarrow> ('o, 'n, 'e, 'f) searchMove \<Rightarrow>
   spending \<Rightarrow> ('s, 'o, 'n, 'e, 'f, 'v) checker \<Rightarrow> ('s, 'o, 'n, 'e, 'f, 'v) checker" where
  "arrive cfg sys s f m spent c =
     (let depth = fr_depth f + 1
      in if cs_terminal sys s then complete cfg sys s depth (fr_violated f) c
         else
           let (child, c) = enter cfg sys s depth (childSleep cfg sys s f m) (fr_violated f) c;
               key = cs_key sys s;
               c = (case Mapping.lookup (ck_visited c) key of Some seen \<Rightarrow> if vs_cut seen then cut_top c else c | None \<Rightarrow> c);
               c = (if on_stack c key > 0 then on_top expand c else c)
           in case child of None \<Rightarrow> c | Some child \<Rightarrow> push (child\<lparr>fr_spent := spent\<rparr>) c)"

definition take_move ::
  "check_config \<Rightarrow> ('s, 'o, 'n, 'e, 'f, 'v) checked_system \<Rightarrow> ('s, 'o, 'n, 'e, 'f) checkFrame \<Rightarrow> ('o, 'n, 'e, 'f) searchMove \<Rightarrow>
   ('s, 'o, 'n, 'e, 'f, 'v) checker \<Rightarrow> 'e check_error + ('s, 'o, 'n, 'e, 'f, 'v) checker" where
  "take_move cfg sys f m c =
     (let depth = fr_depth f + 1
      in if cb_Depth (cc_budget cfg) > 0 \<and> int depth > cb_Depth (cc_budget cfg) then Inr (cut_top (hit ''depth'' c))
         else
           let (spent, bound, exceeded) = spend (em_Kind m) (cc_budgets cfg) (fr_spent f)
           in if exceeded then Inr (cut_top (hit bound c))
              else
                let (drawn, made) = cs_make sys (fr_snap f) (enabledMove.truncate m);
                    f = reveal m drawn f;
                    c = on_top (reveal m drawn) (c\<lparr>ck_moves := ck_moves c + 1, ck_maxDepth := max (ck_maxDepth c) depth\<rparr>)
                in case made of
                     Inl e \<Rightarrow> failed e depth c
                   | Inr s \<Rightarrow>
                       (case cs_stabilize sys s of
                          Inl e \<Rightarrow> failed e depth c
                        | Inr s \<Rightarrow> Inr (arrive cfg sys s f m spent c)))"

definition pop :: "('s, 'o, 'n, 'e, 'f) checkFrame \<Rightarrow> ('s, 'o, 'n, 'e, 'f, 'v) checker \<Rightarrow> ('s, 'o, 'n, 'e, 'f, 'v) checker" where
  "pop f c =
     (let c = c\<lparr>ck_stack := tl (ck_stack c), ck_onStack := Mapping.update (fr_key f) (on_stack c (fr_key f) - 1) (ck_onStack c)\<rparr>
      in if fr_cut f then cut_top c else c)"

text \<open>One turn of the loop of \<open>search\<close>.\<close>

definition search_step ::
  "check_config \<Rightarrow> ('s, 'o, 'n, 'e, 'f, 'v) checked_system \<Rightarrow> ('s, 'o, 'n, 'e, 'f, 'v) checker \<Rightarrow>
   'e check_error + ('s, 'o, 'n, 'e, 'f, 'v) checker" where
  "search_step cfg sys c =
     (let f = hd (ck_stack c)
      in if fr_next f \<ge> length (fr_moves f) then Inr (pop f c)
         else
           let m = fr_moves f ! fr_next f;
               f = f\<lparr>fr_next := fr_next f + 1\<rparr>
           in take_move cfg sys f m
                (c\<lparr>ck_stack := f # tl (ck_stack c), ck_visited := mark_explored (fr_key f) {sm_name m} (ck_visited c)\<rparr>))"

partial_function (option) turn_loop ::
  "check_config \<Rightarrow> ('s, 'o, 'n, 'e, 'f, 'v) checked_system \<Rightarrow> ('s, 'o, 'n, 'e, 'f, 'v) checker \<Rightarrow>
   ('e check_error + ('s, 'o, 'n, 'e, 'f, 'v) checker) option" where
  "turn_loop cfg sys c =
     (if ck_stack c = [] then Some (Inr c)
      else case search_step cfg sys c of Inl e \<Rightarrow> Some (Inl e) | Inr c \<Rightarrow> turn_loop cfg sys c)"

declare turn_loop.simps [code]

text \<open>\<open>search\<close>, from the state the invocation started in. The search is not stopped from outside.\<close>

definition search ::
  "check_config \<Rightarrow> ('s, 'o, 'n, 'e, 'f, 'v) checked_system \<Rightarrow> 's \<Rightarrow> ('s, 'o, 'n, 'e, 'f, 'v) checker \<Rightarrow>
   ('e check_error + ('s, 'o, 'n, 'e, 'f, 'v) checker) option" where
  "search cfg sys s c =
     (case cs_stabilize sys s of
        Inl e \<Rightarrow> Some (failed e 0 c)
      | Inr s \<Rightarrow>
          if cs_terminal sys s then Some (Inr (complete cfg sys s 0 [] c))
          else
            (case enter cfg sys s 0 [] [] c of
               (None, c) \<Rightarrow> Some (Inr c)
             | (Some f, c) \<Rightarrow> turn_loop cfg sys (push f c)))"

end
