(* ===== verification/Check_Schedules.thy ===== *)
theory Check_Schedules
  imports Check_Search
begin

text \<open>
  What the schedules of an invocation are, as a step relation on the states of a checked system: from a state that
  is not terminal, one of the moves available there, a move enabled or the sibling of an available one. The
  search of the model checker is judged against it.
\<close>

section \<open>Schedules\<close>

text \<open>The moves that grow out of some by drawing choices.\<close>

inductive_set sprouts ::
  "('s, 'o, 'n, 'e, 'f, 'v) checked_system \<Rightarrow> 's \<Rightarrow> ('o, 'n, 'e, 'f) searchMove set \<Rightarrow> ('o, 'n, 'e, 'f) searchMove set"
  for sys s M where
  sprouts_base: "m \<in> M \<Longrightarrow> m \<in> sprouts sys s M"
| sprouts_draw: "m \<in> sprouts sys s M \<Longrightarrow> m' \<in> set (siblings (fst (cs_make sys s (enabledMove.truncate m))) m) \<Longrightarrow> m' \<in> sprouts sys s M"

definition available :: "('s, 'o, 'n, 'e, 'f, 'v) checked_system \<Rightarrow> 's \<Rightarrow> ('o, 'n, 'e, 'f) searchMove set" where
  "available sys s = sprouts sys s (set (movesOf sys s))"

text \<open>Where a move leads, the run settled, or how it fails.\<close>

definition move_outcome ::
  "('s, 'o, 'n, 'e, 'f, 'v) checked_system \<Rightarrow> 's \<Rightarrow> ('o, 'n, 'e, 'f) searchMove \<Rightarrow> 'e check_error + 's" where
  "move_outcome sys s m =
     (case snd (cs_make sys s (enabledMove.truncate m)) of Inl e \<Rightarrow> Inl e | Inr s \<Rightarrow> cs_stabilize sys s)"

text \<open>The starts are the states invocations begin in, and the errors they fail to begin with.\<close>

inductive schedule ::
  "('s, 'o, 'n, 'e, 'f, 'v) checked_system \<Rightarrow> ('e check_error + 's) set \<Rightarrow> ('o, 'n, 'e, 'f) searchMove list \<Rightarrow> 's \<Rightarrow> bool"
  for sys S0 where
  schedule_start: "Inr s0 \<in> S0 \<Longrightarrow> cs_stabilize sys s0 = Inr s \<Longrightarrow> schedule sys S0 [] s"
| schedule_move: "schedule sys S0 ms s \<Longrightarrow> \<not> cs_terminal sys s \<Longrightarrow> m \<in> available sys s \<Longrightarrow> move_outcome sys s m = Inr t \<Longrightarrow>
    schedule sys S0 (ms @ [m]) t"

inductive fails_after ::
  "('s, 'o, 'n, 'e, 'f, 'v) checked_system \<Rightarrow> ('e check_error + 's) set \<Rightarrow> ('o, 'n, 'e, 'f) searchMove list \<Rightarrow> 'e check_error \<Rightarrow> bool"
  for sys S0 where
  fails_start: "Inr s0 \<in> S0 \<Longrightarrow> cs_stabilize sys s0 = Inl e \<Longrightarrow> fails_after sys S0 [] e"
| fails_move: "schedule sys S0 ms s \<Longrightarrow> \<not> cs_terminal sys s \<Longrightarrow> m \<in> available sys s \<Longrightarrow> move_outcome sys s m = Inl e \<Longrightarrow>
    fails_after sys S0 (ms @ [m]) e"

inductive_simps schedule_Nil [simp]: "schedule sys S0 [] s"

section \<open>Schedules inside the bounds\<close>

text \<open>What the moves of a schedule spend of the executors' budgets, unless one exceeds them.\<close>

fun spend_all :: "Budgets \<Rightarrow> spending \<Rightarrow> ('o, 'n, 'e, 'f) searchMove list \<Rightarrow> spending option" where
  "spend_all b s [] = Some s"
| "spend_all b s (m # ms) = (let (s', bound, exceeded) = spend (em_Kind m) b s in if exceeded then None else spend_all b s' ms)"

abbreviation nothing_spent :: spending where
  "nothing_spent \<equiv> \<lparr>actionSteps = 0, events = 0, doSteps = 0\<rparr>"

definition in_bounds :: "check_config \<Rightarrow> ('o, 'n, 'e, 'f) searchMove list \<Rightarrow> bool" where
  "in_bounds cfg ms =
     ((cb_Depth (cc_budget cfg) > 0 \<longrightarrow> int (length ms) \<le> cb_Depth (cc_budget cfg)) \<and> spend_all (cc_budgets cfg) nothing_spent ms \<noteq> None)"

lemma spend_all_append: "spend_all b s (ms @ ns) = (case spend_all b s ms of None \<Rightarrow> None | Some s \<Rightarrow> spend_all b s ns)"
  by (induction b s ms rule: spend_all.induct) (auto simp: Let_def split: prod.splits)

lemma in_bounds_Nil [simp]: "in_bounds cfg []"
  by (simp add: in_bounds_def)

lemma in_bounds_snoc:
  assumes "spend_all (cc_budgets cfg) nothing_spent ms = Some s" "spend (em_Kind m) (cc_budgets cfg) s = (s', bound, False)"
    "cb_Depth (cc_budget cfg) > 0 \<Longrightarrow> int (Suc (length ms)) \<le> cb_Depth (cc_budget cfg)"
  shows "in_bounds cfg (ms @ [m])" "spend_all (cc_budgets cfg) nothing_spent (ms @ [m]) = Some s'"
  using assms by (auto simp: in_bounds_def spend_all_append)

text \<open>What a property's evaluation makes of a state.\<close>

definition false_at :: "('s, 'o, 'n, 'e, 'f, 'v) checked_system \<Rightarrow> 's \<Rightarrow> string \<Rightarrow> bool" where
  "false_at sys s p = (cs_evaluate sys s p = Holds False \<or> cs_evaluate sys s p = Holds_limited False)"

lemma sprouts_mono: "M \<subseteq> N \<Longrightarrow> sprouts sys s M \<subseteq> sprouts sys s N"
  by (rule subsetI, erule sprouts.induct) (auto intro: sprouts.intros)

lemma sprouts_subset: "M \<subseteq> sprouts sys s N \<Longrightarrow> sprouts sys s M \<subseteq> sprouts sys s N"
  by (rule subsetI, erule sprouts.induct) (auto intro: sprouts.intros)

lemma sprouts_insert:
  assumes "m \<in> sprouts sys s (insert x M)"
  shows "m = x \<or> m \<in> sprouts sys s (set (siblings (fst (cs_make sys s (enabledMove.truncate x))) x) \<union> M)"
  using assms by induction (auto intro: sprouts.intros)

lemma available_draw:
  "m \<in> available sys s \<Longrightarrow> set (siblings (fst (cs_make sys s (enabledMove.truncate m))) m) \<subseteq> available sys s"
  by (auto simp: available_def intro: sprouts_draw)

lemma movesOf_available: "set (movesOf sys s) \<subseteq> available sys s"
  by (auto simp: available_def intro: sprouts_base)

end
