(* ===== verification/Check_Sound.thy ===== *)
theory Check_Sound
  imports Check_Schedules
begin

text \<open>
  What the search of the model checker reports is what a schedule does: every state it visited, every violation and
  every final comes from a schedule inside the bounds, at the depth recorded.
\<close>

section \<open>What a report stands for\<close>

definition sound_seen ::
  "check_config \<Rightarrow> ('s, 'o, 'n, 'e, 'f, 'v) checked_system \<Rightarrow> ('e check_error + 's) set \<Rightarrow> string \<Rightarrow> visitedState \<Rightarrow> bool" where
  "sound_seen cfg sys S0 key seen =
     ((\<exists>ms s. schedule sys S0 ms s \<and> in_bounds cfg ms \<and> length ms = vs_depth seen \<and> cs_key sys s = key) \<and>
      (\<forall>p \<in> set (vs_violated seen). p \<in> set (cc_props cfg) \<and> (\<exists>ms s. schedule sys S0 ms s \<and> in_bounds cfg ms \<and> cs_key sys s = key \<and> false_at sys s p)))"

text \<open>A violation, by the schedule whose last move reached it.\<close>

definition sound_violation ::
  "check_config \<Rightarrow> ('s, 'o, 'n, 'e, 'f, 'v) checked_system \<Rightarrow> ('e check_error + 's) set \<Rightarrow> 'e Violation \<Rightarrow> bool" where
  "sound_violation cfg sys S0 v =
     (\<exists>ms. in_bounds cfg ms \<and> length ms = vi_Depth v \<and>
       (case vi_Kind v of
          ViolationProperty \<Rightarrow> vi_Name v \<in> set (cc_props cfg) \<and> (\<exists>s. schedule sys S0 ms s \<and> false_at sys s (vi_Name v))
        | violationDeadlock \<Rightarrow> (\<exists>e. vi_Err v = Some (Deadlocked e) \<and> fails_after sys S0 ms (Deadlocked e))
        | ViolationFailure \<Rightarrow>
            (\<exists>e. vi_Err v = Some (Raised e) \<and> fails_after sys S0 ms (Raised e)) \<or> (\<exists>e. vi_Err v = Some e \<and> Inl e \<in> S0 \<and> ms = []) \<or>
            (vi_Name v \<in> set (cc_props cfg) \<and>
             (\<exists>s e. schedule sys S0 ms s \<and> vi_Err v = Some e \<and> cs_evaluate sys s (vi_Name v) = Evaluation_fails e))))"

definition sound_final ::
  "check_config \<Rightarrow> ('s, 'o, 'n, 'e, 'f, 'v) checked_system \<Rightarrow> ('e check_error + 's) set \<Rightarrow> string \<times> 'v \<Rightarrow> bool" where
  "sound_final cfg sys S0 r = (\<exists>ms s. schedule sys S0 ms s \<and> in_bounds cfg ms \<and> cs_terminal sys s \<and> r \<in> set (snd (cs_finals sys s)))"

definition sound_frame ::
  "check_config \<Rightarrow> ('s, 'o, 'n, 'e, 'f, 'v) checked_system \<Rightarrow> ('e check_error + 's) set \<Rightarrow> ('s, 'o, 'n, 'e, 'f) checkFrame \<Rightarrow> bool" where
  "sound_frame cfg sys S0 f =
     ((\<exists>ms. schedule sys S0 ms (fr_snap f) \<and> length ms = fr_depth f \<and> in_bounds cfg ms \<and>
        spend_all (cc_budgets cfg) nothing_spent ms = Some (fr_spent f)) \<and>
      \<not> cs_terminal sys (fr_snap f) \<and> fr_key f = cs_key sys (fr_snap f) \<and> set (fr_all f) \<union> set (fr_moves f) \<subseteq> available sys (fr_snap f))"

definition sound ::
  "check_config \<Rightarrow> ('s, 'o, 'n, 'e, 'f, 'v) checked_system \<Rightarrow> ('e check_error + 's) set \<Rightarrow> ('s, 'o, 'n, 'e, 'f, 'v) checker \<Rightarrow> bool" where
  "sound cfg sys S0 c =
     ((\<forall>f \<in> set (ck_stack c). sound_frame cfg sys S0 f) \<and>
      (\<forall>key seen. Mapping.lookup (ck_visited c) key = Some seen \<longrightarrow> sound_seen cfg sys S0 key seen) \<and>
      (\<forall>v \<in> set (ck_violations c). sound_violation cfg sys S0 v) \<and>
      (\<forall>r \<in> set (ck_results c). sound_final cfg sys S0 r) \<and> distinct (map fst (ck_results c)) \<and>
      (cb_States (cc_budget cfg) > 0 \<longrightarrow> int (Mapping.size (ck_visited c)) \<le> cb_States (cc_budget cfg)) \<and>
      (cb_Depth (cc_budget cfg) > 0 \<longrightarrow> int (ck_maxDepth c) \<le> cb_Depth (cc_budget cfg)))"

section \<open>Frames and the moves in them\<close>

lemma set_insert_list [simp]: "set (insert_list i new xs) = set new \<union> set xs"
proof -
  have "set (take i xs) \<union> set (drop i xs) = set xs" by (metis append_take_drop_id set_append)
  then show ?thesis unfolding insert_list_def by (auto simp: set_append)
qed

lemma set_add_missing: "set (add_missing all moves) \<subseteq> set all \<union> set moves"
proof -
  have "set (fold (\<lambda>m moves. if containsMove moves m then moves else moves @ [m]) xs moves) \<subseteq> set xs \<union> set moves" for xs
    by (induction xs arbitrary: moves) (fastforce simp: subset_iff split: if_splits)+
  then show ?thesis by (simp add: add_missing_def)
qed

lemma persistent_subset: "set (persistent cfg sys s all sleep) \<subseteq> set all"
  by (auto simp: persistent_def Let_def split: list.splits)

lemma wanted_subset: "set (wanted key c moves) \<subseteq> set moves"
  by (auto simp: wanted_def)

lemma reveal_simps [simp]:
  "fr_snap (reveal m d f) = fr_snap f" "fr_key (reveal m d f) = fr_key f" "fr_depth (reveal m d f) = fr_depth f"
  "fr_spent (reveal m d f) = fr_spent f" "fr_next (reveal m d f) = fr_next f" "fr_sleep (reveal m d f) = fr_sleep f"
  "fr_full (reveal m d f) = fr_full f" "fr_cut (reveal m d f) = fr_cut f" "fr_violated (reveal m d f) = fr_violated f"
  by (simp_all add: reveal_def Let_def)

lemma set_reveal [simp]:
  "set (fr_all (reveal m d f)) = set (siblings d m) \<union> set (fr_all f)" "set (fr_moves (reveal m d f)) = set (siblings d m) \<union> set (fr_moves f)"
  by (simp_all add: reveal_def Let_def)

lemma expand_simps [simp]:
  "fr_snap (expand f) = fr_snap f" "fr_key (expand f) = fr_key f" "fr_depth (expand f) = fr_depth f" "fr_spent (expand f) = fr_spent f"
  "fr_all (expand f) = fr_all f" "fr_next (expand f) = fr_next f" "fr_cut (expand f) = fr_cut f" "fr_violated (expand f) = fr_violated f"
  by (simp_all add: expand_def)

lemma set_expand: "set (fr_moves (expand f)) \<subseteq> set (fr_all f) \<union> set (fr_moves f)"
  using set_add_missing by (auto simp: expand_def)

lemma sound_frame_expand: "sound_frame cfg sys S0 f \<Longrightarrow> sound_frame cfg sys S0 (expand f)"
  using set_expand [of f] by (auto simp: sound_frame_def)

lemma sound_frame_reveal:
  "sound_frame cfg sys S0 f \<Longrightarrow> set (siblings d m) \<subseteq> available sys (fr_snap f) \<Longrightarrow> sound_frame cfg sys S0 (reveal m d f)"
  by (simp add: sound_frame_def)

section \<open>The checker's own operations\<close>

lemma size_map_entry [simp]: "Mapping.size (Mapping.map_entry k g m) = Mapping.size m"
  by (simp add: Mapping.size_def)

lemma size_update: "Mapping.lookup m k \<noteq> None \<Longrightarrow> Mapping.size (Mapping.update k v m) = Mapping.size m"
  by (simp add: Mapping.size_def keys_is_none_rep insert_absorb Option.is_none_def)

lemma size_update_new: "Mapping.size (Mapping.update k v m) \<le> Mapping.size m + 1"
  by (simp add: Mapping.size_def card_insert_if)

lemma lookup_map_entry_iff:
  "Mapping.lookup (Mapping.map_entry k g m) k' = (if k = k' then map_option g (Mapping.lookup m k) else Mapping.lookup m k')"
  by (auto simp: lookup_map_entry lookup_map_entry_neq)

lemma hit_simps [simp]:
  "ck_visited (hit b c) = ck_visited c" "ck_onStack (hit b c) = ck_onStack c" "ck_stack (hit b c) = ck_stack c" "ck_moves (hit b c) = ck_moves c"
  "ck_maxDepth (hit b c) = ck_maxDepth c" "ck_violations (hit b c) = ck_violations c" "ck_results (hit b c) = ck_results c"
  by (simp_all add: hit_def)

lemma violate_simps [simp]:
  "ck_visited (violate v c) = ck_visited c" "ck_onStack (violate v c) = ck_onStack c" "ck_stack (violate v c) = ck_stack c"
  "ck_moves (violate v c) = ck_moves c" "ck_maxDepth (violate v c) = ck_maxDepth c" "ck_bounds (violate v c) = ck_bounds c"
  "ck_results (violate v c) = ck_results c"
  by (simp_all add: violate_def split: option.split)

lemma sound_hit [simp]: "sound cfg sys S0 (hit b c) = sound cfg sys S0 c"
  by (simp add: sound_def)

lemma set_violate: "set (ck_violations (violate v c)) \<subseteq> insert v (set (ck_violations c))"
  by (auto simp: violate_def dest!: subsetD [OF set_update_subset_insert] split: option.splits if_splits)

lemma sound_violate: "sound cfg sys S0 c \<Longrightarrow> sound_violation cfg sys S0 v \<Longrightarrow> sound cfg sys S0 (violate v c)"
  using set_violate [of v c] unfolding sound_def by simp (metis insertE subsetD)

lemma sound_visited:
  assumes "sound cfg sys S0 c" "\<And>key seen. Mapping.lookup vis key = Some seen \<Longrightarrow> sound_seen cfg sys S0 key seen"
    "cb_States (cc_budget cfg) > 0 \<Longrightarrow> int (Mapping.size vis) \<le> cb_States (cc_budget cfg)"
  shows "sound cfg sys S0 (c\<lparr>ck_visited := vis\<rparr>)"
  using assms by (simp add: sound_def)

lemma sound_map_entry:
  assumes "sound cfg sys S0 c" "\<And>seen. sound_seen cfg sys S0 key seen \<Longrightarrow> sound_seen cfg sys S0 key (g seen)"
  shows "sound cfg sys S0 (c\<lparr>ck_visited := Mapping.map_entry key g (ck_visited c)\<rparr>)"
  using assms by (intro sound_visited) (auto simp: sound_def lookup_map_entry_iff split: if_splits)

lemma sound_mark_explored:
  "sound cfg sys S0 c \<Longrightarrow> sound cfg sys S0 (c\<lparr>ck_visited := mark_explored key names (ck_visited c)\<rparr>)"
  unfolding mark_explored_def by (rule sound_map_entry) (simp_all add: sound_seen_def)

lemma sound_cut_top:
  assumes "sound cfg sys S0 c"
  shows "sound cfg sys S0 (cut_top c)"
proof (cases "ck_stack c")
  case (Cons f rest)
  have "sound cfg sys S0 (c\<lparr>ck_stack := f\<lparr>fr_cut := True\<rparr> # rest\<rparr>)" using assms Cons by (simp add: sound_def sound_frame_def)
  from sound_map_entry [OF this, of "fr_key f" "\<lambda>seen. seen\<lparr>vs_cut := True\<rparr>"]
  show ?thesis by (simp add: cut_top_def Cons mark_cut_def sound_seen_def)
qed (use assms in \<open>simp add: cut_top_def\<close>)

lemma sound_push: "sound cfg sys S0 c \<Longrightarrow> sound_frame cfg sys S0 f \<Longrightarrow> sound cfg sys S0 (push f c)"
  by (simp add: sound_def push_def)

lemma sound_on_top:
  assumes "sound cfg sys S0 c" "\<And>f rest. ck_stack c = f # rest \<Longrightarrow> sound_frame cfg sys S0 f \<Longrightarrow> sound_frame cfg sys S0 (g f)"
  shows "sound cfg sys S0 (on_top g c)"
  using assms by (auto simp: sound_def on_top_def split: list.split)

lemma sound_pop: "sound cfg sys S0 c \<Longrightarrow> sound cfg sys S0 (pop f c)"
proof -
  assume s: "sound cfg sys S0 c"
  let ?c = "c\<lparr>ck_stack := tl (ck_stack c), ck_onStack := Mapping.update (fr_key f) (on_stack c (fr_key f) - 1) (ck_onStack c)\<rparr>"
  have "sound cfg sys S0 ?c" using s list.set_sel(2) by (cases "ck_stack c") (auto simp: sound_def)
  then show ?thesis using sound_cut_top by (auto simp: pop_def Let_def)
qed


text \<open>What a state the run stands in is, to the operations that visit it.\<close>

definition stands ::
  "check_config \<Rightarrow> ('s, 'o, 'n, 'e, 'f, 'v) checked_system \<Rightarrow> ('e check_error + 's) set \<Rightarrow> 's \<Rightarrow> nat \<Rightarrow> bool" where
  "stands cfg sys S0 s depth = (\<exists>ms. schedule sys S0 ms s \<and> in_bounds cfg ms \<and> length ms = depth)"

lemma check_property_eq:
  "cs_evaluate sys s p = Evaluation_fails e \<Longrightarrow>
    check_property sys s d vs key p c = violate \<lparr>vi_Kind = ViolationFailure, vi_Name = p, vi_Err = Some e, vi_Depth = d\<rparr> c"
  "cs_evaluate sys s p = Holds True \<Longrightarrow> check_property sys s d vs key p c = c"
  "cs_evaluate sys s p = Holds_limited True \<Longrightarrow> check_property sys s d vs key p c = hit ''statement orders'' c"
  "cs_evaluate sys s p = Holds False \<Longrightarrow> check_property sys s d vs key p c =
    (if p \<in> set vs then c\<lparr>ck_visited := set_violated key p (ck_visited c)\<rparr>
     else violate \<lparr>vi_Kind = ViolationProperty, vi_Name = p, vi_Err = None, vi_Depth = d\<rparr> (c\<lparr>ck_visited := set_violated key p (ck_visited c)\<rparr>))"
  "cs_evaluate sys s p = Holds_limited False \<Longrightarrow> check_property sys s d vs key p c =
    (let c = hit ''statement orders'' c
     in if p \<in> set vs then c\<lparr>ck_visited := set_violated key p (ck_visited c)\<rparr>
        else violate \<lparr>vi_Kind = ViolationProperty, vi_Name = p, vi_Err = None, vi_Depth = d\<rparr> (c\<lparr>ck_visited := set_violated key p (ck_visited c)\<rparr>))"
  by (simp_all only: check_property_def Let_def evaluation.case prod.case sum.case bool.case)

lemma evaluation_cases:
  obtains e where "cs_evaluate sys s p = Evaluation_fails e" | "cs_evaluate sys s p = Holds True" | "cs_evaluate sys s p = Holds_limited True"
  | "cs_evaluate sys s p = Holds False" | "cs_evaluate sys s p = Holds_limited False"
  by (metis (full_types) evaluation.exhaust)

lemma check_property_stack [simp]: "ck_stack (check_property sys s d vs key p c) = ck_stack c"
  by (rule evaluation_cases [of sys s p]; simp add: check_property_eq Let_def)

lemma check_property_onStack [simp]: "ck_onStack (check_property sys s d vs key p c) = ck_onStack c"
  by (rule evaluation_cases [of sys s p]; simp add: check_property_eq Let_def)

lemma check_property_results [simp]: "ck_results (check_property sys s d vs key p c) = ck_results c"
  by (rule evaluation_cases [of sys s p]; simp add: check_property_eq Let_def)

lemma check_property_maxDepth [simp]: "ck_maxDepth (check_property sys s d vs key p c) = ck_maxDepth c"
  by (rule evaluation_cases [of sys s p]; simp add: check_property_eq Let_def)

lemma check_property_moves [simp]: "ck_moves (check_property sys s d vs key p c) = ck_moves c"
  by (rule evaluation_cases [of sys s p]; simp add: check_property_eq Let_def)

lemma check_property_keys [simp]: "Mapping.keys (ck_visited (check_property sys s d vs key p c)) = Mapping.keys (ck_visited c)"
  by (rule evaluation_cases [of sys s p]; simp add: check_property_eq Let_def set_violated_def)

lemma check_properties_fields [simp]:
  "Mapping.keys (ck_visited (fold (check_property sys s d vs key) ps c)) = Mapping.keys (ck_visited c)"
  "ck_stack (fold (check_property sys s d vs key) ps c) = ck_stack c"
  by (induction ps arbitrary: c) auto

lemma sound_set_violated:
  assumes "sound cfg sys S0 c" "stands cfg sys S0 s depth" "cs_key sys s = key" "p \<in> set (cc_props cfg)" "false_at sys s p"
  shows "sound cfg sys S0 (c\<lparr>ck_visited := set_violated key p (ck_visited c)\<rparr>)"
  unfolding set_violated_def by (rule sound_map_entry [OF assms(1)]) (use assms(2-5) in \<open>auto simp: sound_seen_def stands_def\<close>)

lemma sound_check_property:
  assumes "sound cfg sys S0 c" "stands cfg sys S0 s depth" "cs_key sys s = key" "p \<in> set (cc_props cfg)"
  shows "sound cfg sys S0 (check_property sys s depth violated key p c)"
proof -
  have v: "sound_violation cfg sys S0 \<lparr>vi_Kind = ViolationProperty, vi_Name = p, vi_Err = None, vi_Depth = depth\<rparr>" if "false_at sys s p"
    using assms that by (auto simp: sound_violation_def stands_def)
  have e: "sound_violation cfg sys S0 \<lparr>vi_Kind = ViolationFailure, vi_Name = p, vi_Err = Some x, vi_Depth = depth\<rparr>"
    if "cs_evaluate sys s p = Evaluation_fails x" for x
    using assms that by (auto simp: sound_violation_def stands_def)
  note f = sound_set_violated [OF _ assms(2-4)]
  show ?thesis
    by (rule evaluation_cases [of sys s p])
      (use assms(1) f [OF assms(1)] f [of "hit ''statement orders'' c"] in
        \<open>auto simp: check_property_eq Let_def false_at_def intro!: sound_violate v e\<close>)
qed

lemma sound_check_properties:
  assumes "sound cfg sys S0 c" "stands cfg sys S0 s depth" "cs_key sys s = key" "set ps \<subseteq> set (cc_props cfg)"
  shows "sound cfg sys S0 (fold (check_property sys s depth violated key) ps c)"
  using assms by (induction ps arbitrary: c) (auto intro: sound_check_property)

lemma sound_visit:
  assumes "sound cfg sys S0 c" "stands cfg sys S0 s depth" "visit cfg sys s depth violated c = (kept, visited, c')"
  shows "sound cfg sys S0 c'"
proof (cases "Mapping.lookup (ck_visited c) (cs_key sys s)")
  case None
  show ?thesis
  proof (cases "cb_States (cc_budget cfg) > 0 \<and> int (Mapping.size (ck_visited c)) \<ge> cb_States (cc_budget cfg)")
    case True
    then show ?thesis using None assms by (auto simp: visit_def Let_def)
  next
    case False
    let ?seen = "\<lparr>vs_explored = {}, vs_depth = depth, vs_cut = False, vs_violated = []\<rparr>"
    let ?c = "c\<lparr>ck_visited := Mapping.update (cs_key sys s) ?seen (ck_visited c)\<rparr>"
    have "sound_seen cfg sys S0 (cs_key sys s) ?seen" using assms(2) by (auto simp: sound_seen_def stands_def)
    moreover have "cb_States (cc_budget cfg) > 0 \<longrightarrow> int (Mapping.size (ck_visited ?c)) \<le> cb_States (cc_budget cfg)"
      using False size_update_new [of "cs_key sys s" ?seen "ck_visited c"] by auto
    ultimately have "sound cfg sys S0 ?c" using assms(1) by (auto simp: sound_def lookup_update')
    then show ?thesis using sound_check_properties [OF _ assms(2) refl subset_refl, of ?c violated] None False assms(3)
      by (auto simp: visit_def Let_def)
  qed
next
  case (Some seen)
  let ?seen = "(if vs_cut seen then seen\<lparr>vs_explored := {}, vs_cut := False\<rparr> else seen)\<lparr>vs_depth := depth\<rparr>"
  have "sound_seen cfg sys S0 (cs_key sys s) ?seen"
    using assms(1,2) Some by (auto simp: sound_def sound_seen_def stands_def)
  moreover have "Mapping.size (Mapping.update (cs_key sys s) ?seen (ck_visited c)) = Mapping.size (ck_visited c)"
    by (rule size_update) (simp add: Some)
  ultimately have "sound cfg sys S0 (c\<lparr>ck_visited := Mapping.update (cs_key sys s) ?seen (ck_visited c)\<rparr>)"
    using assms(1) by (auto simp: sound_def lookup_update')
  then show ?thesis using Some assms(1,3) by (auto simp: visit_def Let_def split: if_splits)
qed

lemma add_final_simps [simp]:
  "ck_visited (add_final r c) = ck_visited c" "ck_stack (add_final r c) = ck_stack c" "ck_onStack (add_final r c) = ck_onStack c"
  "ck_violations (add_final r c) = ck_violations c" "ck_bounds (add_final r c) = ck_bounds c" "ck_maxDepth (add_final r c) = ck_maxDepth c"
  by (simp_all add: add_final_def)

lemma sound_finals:
  "sound cfg sys S0 c \<Longrightarrow> \<forall>r \<in> set finals. sound_final cfg sys S0 r \<Longrightarrow> sound cfg sys S0 (fold add_final finals c)"
proof (induction finals arbitrary: c)
  case (Cons r finals)
  have "sound cfg sys S0 (c\<lparr>ck_results := ck_results c @ [r]\<rparr>)" if "fst r \<notin> fst ` set (ck_results c)"
    using Cons.prems that by (simp add: sound_def)
  then have "sound cfg sys S0 (add_final r c)" using Cons.prems(1) by (simp add: add_final_def)
  then show ?case using Cons by simp
qed simp

lemma sound_complete:
  assumes "sound cfg sys S0 c" "stands cfg sys S0 s depth" "cs_terminal sys s"
  shows "sound cfg sys S0 (complete cfg sys s depth violated c)"
proof -
  obtain kept visited c' where v: "visit cfg sys s depth violated c = (kept, visited, c')" by (cases "visit cfg sys s depth violated c")
  obtain limited finals where f: "cs_finals sys s = (limited, finals)" by force
  have "\<forall>r \<in> set finals. sound_final cfg sys S0 r"
    using assms(2,3) f by (auto simp: sound_final_def stands_def) (metis snd_conv)
  then have "sound cfg sys S0 (final sys s c')"
    unfolding final_def f Let_def prod.case by (intro sound_finals) (use sound_visit [OF assms(1,2) v] in simp_all)
  then show ?thesis using sound_visit [OF assms(1,2) v] by (simp add: complete_def v)
qed

lemma enter_frame:
  assumes "enter cfg sys s depth sleep violated c = (Some f, c')"
  shows "fr_snap f = s" "fr_key f = cs_key sys s" "fr_depth f = depth" "fr_all f = movesOf sys s" "set (fr_moves f) \<subseteq> set (movesOf sys s)"
    "fr_next f = 0" "\<not> fr_full f" "\<not> fr_cut f"
  using assms persistent_subset wanted_subset
  by (fastforce simp: enter_def Let_def split: if_splits prod.splits)+

lemma sound_enter:
  assumes "sound cfg sys S0 c" "stands cfg sys S0 s depth" "enter cfg sys s depth sleep violated c = (child, c')"
  shows "sound cfg sys S0 c'"
  using sound_visit [OF assms(1,2)] assms(3) sound_mark_explored
  by (fastforce simp: enter_def Let_def split: if_splits prod.splits)


section \<open>A turn of the search\<close>

lemma cut_top_stack: "ck_stack (cut_top c) = (case ck_stack c of [] \<Rightarrow> [] | f # rest \<Rightarrow> f\<lparr>fr_cut := True\<rparr> # rest)"
  by (simp add: cut_top_def split: list.split)

lemma sound_arrive:
  assumes "sound cfg sys S0 c" "schedule sys S0 ms s" "in_bounds cfg ms" "length ms = fr_depth f + 1"
    "spend_all (cc_budgets cfg) nothing_spent ms = Some spent"
  shows "sound cfg sys S0 (arrive cfg sys s f m spent c)"
proof -
  have st: "stands cfg sys S0 s (fr_depth f + 1)" using assms(2-4) by (auto simp: stands_def)
  show ?thesis
  proof (cases "cs_terminal sys s")
    case True
    then show ?thesis using sound_complete [OF assms(1) st True] by (simp add: arrive_def)
  next
    case False
    obtain child c1 where e: "enter cfg sys s (fr_depth f + 1) (childSleep cfg sys s f m) (fr_violated f) c = (child, c1)" by force
    define c2 where "c2 = (case Mapping.lookup (ck_visited c1) (cs_key sys s) of Some seen \<Rightarrow> if vs_cut seen then cut_top c1 else c1 | None \<Rightarrow> c1)"
    define c3 where "c3 = (if on_stack c2 (cs_key sys s) > 0 then on_top expand c2 else c2)"
    have "sound cfg sys S0 c2"
      using sound_enter [OF assms(1) st e] by (auto simp: c2_def sound_cut_top split: option.split)
    then have c3: "sound cfg sys S0 c3" by (auto simp: c3_def intro: sound_on_top sound_frame_expand)
    have a: "arrive cfg sys s f m spent c = (case child of None \<Rightarrow> c3 | Some child \<Rightarrow> push (child\<lparr>fr_spent := spent\<rparr>) c3)"
      by (simp only: arrive_def Let_def e prod.case False if_False c2_def c3_def)
    show ?thesis
    proof (cases child)
      case (Some g)
      note g = enter_frame [OF e [unfolded Some]]
      have "sound_frame cfg sys S0 (g\<lparr>fr_spent := spent\<rparr>)"
        using assms(2-5) False g movesOf_available [of sys s] by (auto simp: sound_frame_def)
      then show ?thesis using c3 by (simp add: a Some sound_push)
    qed (use c3 in \<open>simp add: a\<close>)
  qed
qed

lemma sound_failed:
  assumes "sound cfg sys S0 c" "fails_after sys S0 ms e" "in_bounds cfg ms" "length ms = depth" "failed e depth c = Inr c'"
  shows "sound cfg sys S0 c'"
  using assms by (cases e) (auto simp: failed_def sound_violation_def intro!: sound_violate)

lemma sound_counted:
  "sound cfg sys S0 c \<Longrightarrow> (cb_Depth (cc_budget cfg) > 0 \<Longrightarrow> int depth \<le> cb_Depth (cc_budget cfg)) \<Longrightarrow>
    sound cfg sys S0 (c\<lparr>ck_moves := n, ck_maxDepth := max (ck_maxDepth c) depth\<rparr>)"
  by (auto simp: sound_def max_def)

text \<open>What a move taken inside the bounds does, in one equation.\<close>

definition counted :: "nat \<Rightarrow> ('o, 'n, 'e, 'f) searchMove \<Rightarrow> nat list \<Rightarrow> ('s, 'o, 'n, 'e, 'f, 'v) checker \<Rightarrow> ('s, 'o, 'n, 'e, 'f, 'v) checker" where
  "counted depth m drawn c = on_top (reveal m drawn) (c\<lparr>ck_moves := ck_moves c + 1, ck_maxDepth := max (ck_maxDepth c) depth\<rparr>)"

definition past_depth :: "check_config \<Rightarrow> nat \<Rightarrow> bool" where
  "past_depth cfg depth = (cb_Depth (cc_budget cfg) > 0 \<and> int depth > cb_Depth (cc_budget cfg))"

lemma take_move_cut:
  assumes "spend (em_Kind m) (cc_budgets cfg) (fr_spent f) = (spent, bound, exceeded)" "past_depth cfg (fr_depth f + 1) \<or> exceeded"
  shows "\<exists>b. take_move cfg sys f m c = Inr (cut_top (hit b c))"
  using assms by (auto simp: take_move_def past_depth_def Let_def)

lemma take_move_eq:
  assumes "spend (em_Kind m) (cc_budgets cfg) (fr_spent f) = (spent, bound, False)" "\<not> past_depth cfg (fr_depth f + 1)"
    "fst (cs_make sys (fr_snap f) (enabledMove.truncate m)) = drawn"
  shows "take_move cfg sys f m c =
    (case move_outcome sys (fr_snap f) m of
       Inl e \<Rightarrow> failed e (fr_depth f + 1) (counted (fr_depth f + 1) m drawn c)
     | Inr s \<Rightarrow> Inr (arrive cfg sys s (reveal m drawn f) m spent (counted (fr_depth f + 1) m drawn c)))"
proof -
  obtain made where mk: "cs_make sys (fr_snap f) (enabledMove.truncate m) = (drawn, made)" using assms(3) by (metis prod.collapse)
  have d: "(cb_Depth (cc_budget cfg) > 0 \<and> int (fr_depth f + 1) > cb_Depth (cc_budget cfg)) = False"
    using assms(2) by (simp add: past_depth_def)
  show ?thesis
    by (cases made; simp only: take_move_def counted_def Let_def assms(1) mk d prod.case if_False sum.case move_outcome_def snd_conv split: sum.split)
qed

lemma search_step_pop: "ck_stack c = f # rest \<Longrightarrow> length (fr_moves f) \<le> fr_next f \<Longrightarrow> search_step cfg sys c = Inr (pop f c)"
  by (simp add: search_step_def Let_def)

lemma search_step_take:
  "ck_stack c = f # rest \<Longrightarrow> fr_next f < length (fr_moves f) \<Longrightarrow>
    search_step cfg sys c = take_move cfg sys (f\<lparr>fr_next := fr_next f + 1\<rparr>) (fr_moves f ! fr_next f)
      (c\<lparr>ck_stack := f\<lparr>fr_next := fr_next f + 1\<rparr> # rest, ck_visited := mark_explored (fr_key f) {sm_name (fr_moves f ! fr_next f)} (ck_visited c)\<rparr>)"
  by (simp add: search_step_def Let_def)

lemma sound_take_move:
  assumes "sound cfg sys S0 c" "ck_stack c = f # rest" "m \<in> set (fr_moves f)" "take_move cfg sys f m c = Inr c'"
  shows "sound cfg sys S0 c'"
proof -
  obtain spent bound exceeded where sp: "spend (em_Kind m) (cc_budgets cfg) (fr_spent f) = (spent, bound, exceeded)" by (metis prod_cases3)
  define drawn where "drawn = fst (cs_make sys (fr_snap f) (enabledMove.truncate m))"
  show ?thesis
  proof (cases "past_depth cfg (fr_depth f + 1) \<or> exceeded")
    case True
    have "sound cfg sys S0 (cut_top (hit b c))" for b by (rule sound_cut_top) (simp add: assms(1))
    then show ?thesis using take_move_cut [OF sp True, of sys c] assms(4) by auto
  next
    case False
    have fr: "sound_frame cfg sys S0 f" using assms(1,2) by (simp add: sound_def)
    then obtain ms where ms: "schedule sys S0 ms (fr_snap f)" "length ms = fr_depth f" "spend_all (cc_budgets cfg) nothing_spent ms = Some (fr_spent f)"
      by (auto simp: sound_frame_def)
    have b: "in_bounds cfg (ms @ [m])" "spend_all (cc_budgets cfg) nothing_spent (ms @ [m]) = Some spent"
      using in_bounds_snoc [OF ms(3)] sp False ms(2) by (auto simp: past_depth_def)
    have av: "\<not> cs_terminal sys (fr_snap f)" "m \<in> available sys (fr_snap f)" using fr assms(3) by (auto simp: sound_frame_def)
    have "set (siblings drawn m) \<subseteq> available sys (fr_snap f)" using available_draw [OF av(2)] by (simp add: drawn_def)
    then have c2: "sound cfg sys S0 (counted (fr_depth f + 1) m drawn c)" unfolding counted_def
      using assms(1,2) False by (auto simp: past_depth_def intro!: sound_on_top sound_counted sound_frame_reveal)
    have t: "take_move cfg sys f m c =
      (case move_outcome sys (fr_snap f) m of
         Inl e \<Rightarrow> failed e (fr_depth f + 1) (counted (fr_depth f + 1) m drawn c)
       | Inr s \<Rightarrow> Inr (arrive cfg sys s (reveal m drawn f) m spent (counted (fr_depth f + 1) m drawn c)))"
      using False sp by (intro take_move_eq) (auto simp: drawn_def)
    show ?thesis
    proof (cases "move_outcome sys (fr_snap f) m")
      case (Inl e)
      then show ?thesis using sound_failed [OF c2 fails_move [OF ms(1) av Inl] b(1)] ms(2) assms(4) t by simp
    next
      case (Inr s)
      then show ?thesis using sound_arrive [OF c2 schedule_move [OF ms(1) av Inr] b(1) _ b(2), of "reveal m drawn f" m] ms(2) assms(4) t by auto
    qed
  qed
qed

lemma sound_search_step:
  assumes "sound cfg sys S0 c" "ck_stack c \<noteq> []" "search_step cfg sys c = Inr c'"
  shows "sound cfg sys S0 c'"
proof -
  obtain f rest where st: "ck_stack c = f # rest" using assms(2) by (cases "ck_stack c") auto
  show ?thesis
  proof (cases "fr_next f < length (fr_moves f)")
    case True
    let ?f = "f\<lparr>fr_next := fr_next f + 1\<rparr>" and ?m = "fr_moves f ! fr_next f"
    have "sound cfg sys S0 (c\<lparr>ck_stack := ?f # rest\<rparr>)" using assms(1) st by (simp add: sound_def sound_frame_def)
    from sound_mark_explored [OF this, of "fr_key f" "{sm_name ?m}"]
    show ?thesis
      by (rule sound_take_move [where f = ?f and m = ?m and rest = rest]) (use assms(3) search_step_take [OF st True] True in simp_all)
  next
    case False
    then have "c' = pop f c" using assms(3) search_step_pop [OF st] by simp
    then show ?thesis using assms(1) by (simp add: sound_pop)
  qed
qed

lemma turn_loop_invariant:
  fixes sys :: "('s, 'o, 'n, 'e, 'f, 'v) checked_system"
  assumes "turn_loop cfg sys c = Some (Inr c')" "P c"
    "\<And>c c'. P c \<Longrightarrow> ck_stack c \<noteq> [] \<Longrightarrow> search_step cfg sys c = Inr c' \<Longrightarrow> P c'"
  shows "P c' \<and> ck_stack c' = []"
proof -
  define Q where "Q cfg' sys' c r = (cfg' = cfg \<longrightarrow> sys' = sys \<longrightarrow> P c \<longrightarrow> (\<forall>c'. r = Inr c' \<longrightarrow> P c' \<and> ck_stack c' = []))" for cfg' and sys' :: "('s, 'o, 'n, 'e, 'f, 'v) checked_system" and c and r :: "'e check_error + ('s, 'o, 'n, 'e, 'f, 'v) checker"
  have "Q cfg sys c (Inr c')"
  proof (rule turn_loop.raw_induct [OF _ assms(1), of Q])
    fix loop cfg' sys' c r
    assume IH: "\<And>cfg sys c y. loop cfg sys c = Some y \<Longrightarrow> Q cfg sys c y"
      and body: "(if ck_stack c = [] then Some (Inr c) else case search_step cfg' sys' c of Inl e \<Rightarrow> Some (Inl e) | Inr x \<Rightarrow> loop cfg' sys' x) = Some r"
    show "Q cfg' sys' c r" unfolding Q_def
    proof (intro impI allI)
      fix c' assume e: "cfg' = cfg" "sys' = sys" and p: "P c" and r: "r = Inr c'"
      show "P c' \<and> ck_stack c' = []"
      proof (cases "ck_stack c = []")
        case True
        then show ?thesis using body p r by simp
      next
        case False
        then obtain x where x: "search_step cfg sys c = Inr x" "loop cfg sys x = Some r"
          using body e r by (auto split: sum.splits)
        have "P x" by (rule assms(3) [OF p False x(1)])
        then show ?thesis using IH [OF x(2)] r by (simp add: Q_def)
      qed
    qed
  qed
  then show ?thesis using assms(2) by (simp add: Q_def)
qed

lemma sound_new: "sound cfg sys S0 new_checker"
  by (simp add: sound_def new_checker_def Mapping.size_def)

lemma sound_root:
  assumes "schedule sys S0 [] s" "\<not> cs_terminal sys s" "enter cfg sys s 0 sleep violated c = (Some f, c')"
  shows "sound_frame cfg sys S0 f"
proof -
  note f = enter_frame [OF assms(3)]
  have "fr_spent f = nothing_spent" using assms(3) by (auto simp: enter_def Let_def split: if_splits prod.splits)
  then show ?thesis using assms(1,2) f movesOf_available [of sys s] by (auto simp: sound_frame_def intro!: exI [of _ "[]"])
qed

lemma sound_search:
  assumes "sound cfg sys S0 c" "Inr s0 \<in> S0" "search cfg sys s0 c = Some (Inr c')"
  shows "sound cfg sys S0 c'"
proof (cases "cs_stabilize sys s0")
  case (Inl e)
  then have "failed e 0 c = Inr c'" using assms(3) by (simp add: search_def)
  then show ?thesis by (rule sound_failed [OF assms(1) fails_start [OF assms(2) Inl], rotated 2]) simp_all
next
  case (Inr s)
  have sc: "schedule sys S0 [] s" using assms(2) Inr by (rule schedule_start)
  then have st: "stands cfg sys S0 s 0" by (auto simp: stands_def intro!: exI [of _ "[]"])
  show ?thesis
  proof (cases "cs_terminal sys s")
    case True
    then show ?thesis using assms Inr sound_complete [OF assms(1) st True] by (auto simp: search_def)
  next
    case False
    obtain child c1 where e: "enter cfg sys s 0 [] [] c = (child, c1)" by force
    have c1: "sound cfg sys S0 c1" by (rule sound_enter [OF assms(1) st e])
    show ?thesis
    proof (cases child)
      case (Some f)
      have "sound_frame cfg sys S0 f" by (rule sound_root [OF sc False e [unfolded Some]])
      then have "sound cfg sys S0 (push f c1)" using c1 by (rule sound_push [rotated])
      moreover have l: "turn_loop cfg sys (push f c1) = Some (Inr c')" using assms(3) Inr False e Some by (simp add: search_def)
      ultimately have "sound cfg sys S0 c' \<and> ck_stack c' = []"
        by (intro turn_loop_invariant [where P = "sound cfg sys S0", OF l]) (assumption, rule sound_search_step)
      then show ?thesis by simp
    qed (use assms(3) Inr False e c1 in \<open>simp add: search_def\<close>)
  qed
qed

end
