(* ===== verification/Check_Ends.thy ===== *)
theory Check_Ends
  imports Check_Sound "HOL-Library.Product_Lexorder"
begin

text \<open>
  The search of the model checker ends: what is left to visit, to visit at a smaller depth, to explore, and to take
  on the stack goes down lexicographically with each turn.
\<close>

section \<open>What is left of the states\<close>

definition depth_at :: "(string, visitedState) mapping \<Rightarrow> string \<Rightarrow> nat" where
  "depth_at vis key = (case Mapping.lookup vis key of None \<Rightarrow> 0 | Some seen \<Rightarrow> vs_depth seen)"

definition unexplored_at :: "string set \<Rightarrow> (string, visitedState) mapping \<Rightarrow> string \<Rightarrow> nat" where
  "unexplored_at N vis key = (case Mapping.lookup vis key of None \<Rightarrow> 0 | Some seen \<Rightarrow> card (N - vs_explored seen))"

definition rank :: "string set \<Rightarrow> string set \<Rightarrow> (string, visitedState) mapping \<Rightarrow> nat \<times> nat \<times> nat" where
  "rank K N vis = (card (K - Mapping.keys vis), \<Sum>k\<in>K. depth_at vis k, \<Sum>k\<in>K. unexplored_at N vis k)"

lemma rank_map_entry:
  assumes "finite N" "\<And>seen. vs_depth (g seen) = vs_depth seen" "\<And>seen. vs_explored seen \<subseteq> vs_explored (g seen)"
  shows "rank K N (Mapping.map_entry key g vis) \<le> rank K N vis"
proof -
  have d: "depth_at (Mapping.map_entry key g vis) k = depth_at vis k" for k
    using assms(2) by (simp add: depth_at_def lookup_map_entry_iff split: option.split)
  have "unexplored_at N (Mapping.map_entry key g vis) k \<le> unexplored_at N vis k" for k
  proof -
    have "card (N - vs_explored (g seen)) \<le> card (N - vs_explored seen)" for seen
      using assms(1,3) by (intro card_mono) auto
    then show ?thesis by (auto simp: unexplored_at_def lookup_map_entry_iff split: option.split)
  qed
  then show ?thesis by (simp add: rank_def d sum_mono)
qed

lemma rank_mark_explored: "finite N \<Longrightarrow> rank K N (mark_explored key names vis) \<le> rank K N vis"
  unfolding mark_explored_def by (rule rank_map_entry) auto

lemma rank_mark_more:
  assumes "finite K" "finite N" "key \<in> K" "Mapping.lookup vis key = Some seen" "n \<in> names" "n \<in> N" "n \<notin> vs_explored seen"
  shows "rank K N (mark_explored key names vis) < rank K N vis"
proof -
  have d: "depth_at (mark_explored key names vis) k = depth_at vis k" for k
    by (simp add: depth_at_def mark_explored_def lookup_map_entry_iff split: option.split)
  have "unexplored_at N (mark_explored key names vis) k \<le> unexplored_at N vis k" for k
    using assms(2) by (auto simp: unexplored_at_def mark_explored_def lookup_map_entry_iff intro!: card_mono split: option.split)
  moreover have "card (N - (vs_explored seen \<union> names)) < card (N - vs_explored seen)"
    using assms(2,5-7) by (intro psubset_card_mono) auto
  then have "unexplored_at N (mark_explored key names vis) key < unexplored_at N vis key"
    using assms(4) by (simp add: unexplored_at_def mark_explored_def lookup_map_entry_iff)
  ultimately have "(\<Sum>k\<in>K. unexplored_at N (mark_explored key names vis) k) < (\<Sum>k\<in>K. unexplored_at N vis k)"
    using assms(1,3) by (intro sum_strict_mono_ex1) auto
  moreover have "Mapping.keys (mark_explored key names vis) = Mapping.keys vis" by (simp add: mark_explored_def)
  ultimately show ?thesis by (simp add: rank_def d)
qed

lemma rank_cut_top: "finite N \<Longrightarrow> rank K N (ck_visited (cut_top c)) \<le> rank K N (ck_visited c)"
  by (auto simp: cut_top_def mark_cut_def intro: rank_map_entry split: list.split)

lemma rank_check_property:
  assumes "finite N"
  shows "rank K N (ck_visited (check_property sys s d vs key p c)) \<le> rank K N (ck_visited c)"
proof -
  have "rank K N (set_violated key p vis) \<le> rank K N vis" for vis
    unfolding set_violated_def by (rule rank_map_entry [OF assms]) auto
  then show ?thesis
    by (rule_tac evaluation_cases [of sys s p]; simp add: check_property_eq Let_def)
qed

lemma rank_check_properties:
  assumes "finite N"
  shows "rank K N (ck_visited (fold (check_property sys s d vs key) ps c)) \<le> rank K N (ck_visited c)"
proof (induction ps arbitrary: c)
  case (Cons p ps)
  then show ?case using rank_check_property [OF assms] order_trans by fastforce
qed simp

lemma rank_visit:
  assumes "finite K" "finite N" "cs_key sys s \<in> K" "visit cfg sys s depth violated c = (kept, visited, c')"
  shows "rank K N (ck_visited c') \<le> rank K N (ck_visited c)" "kept \<Longrightarrow> \<not> visited \<Longrightarrow> rank K N (ck_visited c') < rank K N (ck_visited c)"
    "kept \<Longrightarrow> cs_key sys s \<in> Mapping.keys (ck_visited c')" "ck_stack c' = ck_stack c"
proof -
  let ?k = "cs_key sys s"
  have "rank K N (ck_visited c') \<le> rank K N (ck_visited c) \<and> (kept \<longrightarrow> \<not> visited \<longrightarrow> rank K N (ck_visited c') < rank K N (ck_visited c)) \<and>
    (kept \<longrightarrow> ?k \<in> Mapping.keys (ck_visited c')) \<and> ck_stack c' = ck_stack c"
  proof (cases "Mapping.lookup (ck_visited c) ?k")
    case None
    show ?thesis
    proof (cases "cb_States (cc_budget cfg) > 0 \<and> int (Mapping.size (ck_visited c)) \<ge> cb_States (cc_budget cfg)")
      case True
      then show ?thesis using None assms(4) by (auto simp: visit_def Let_def)
    next
      case False
      let ?seen = "\<lparr>vs_explored = {}, vs_depth = depth, vs_cut = False, vs_violated = []\<rparr>"
      let ?c = "c\<lparr>ck_visited := Mapping.update ?k ?seen (ck_visited c)\<rparr>"
      have c': "c' = fold (check_property sys s depth violated ?k) (cc_props cfg) ?c" "kept" "\<not> visited"
        using False None assms(4) by (auto simp: visit_def Let_def)
      have "?k \<notin> Mapping.keys (ck_visited c)" using None by (simp add: keys_is_none_rep)
      then have "card (K - insert ?k (Mapping.keys (ck_visited c))) < card (K - Mapping.keys (ck_visited c))"
        using assms(1,3) by (intro psubset_card_mono) auto
      then have "rank K N (ck_visited ?c) < rank K N (ck_visited c)" by (simp add: rank_def)
      moreover have "ck_stack (fold (check_property sys s depth violated ?k) ps d) = ck_stack d" for ps d
        by (induction ps arbitrary: d) auto
      moreover have "?k \<in> Mapping.keys (ck_visited c')" by (simp add: c'(1))
      moreover have "rank K N (ck_visited c') \<le> rank K N (ck_visited ?c)"
        unfolding c'(1) by (rule rank_check_properties [OF assms(2)])
      ultimately show ?thesis using c'(1) by auto
    qed
  next
    case (Some seen)
    have in_keys: "?k \<in> Mapping.keys (ck_visited c)" using Some by (simp add: keys_is_none_rep)
    show ?thesis
    proof (cases "depth < vs_depth seen")
      case True
      let ?seen = "(if vs_cut seen then seen\<lparr>vs_explored := {}, vs_cut := False\<rparr> else seen)\<lparr>vs_depth := depth\<rparr>"
      have c': "c' = c\<lparr>ck_visited := Mapping.update ?k ?seen (ck_visited c)\<rparr>" "visited" using True Some assms(4) by (auto simp: visit_def Let_def)
      have "(\<Sum>k\<in>K. depth_at (Mapping.update ?k ?seen (ck_visited c)) k) < (\<Sum>k\<in>K. depth_at (ck_visited c) k)"
        using assms(1,3) True Some by (intro sum_strict_mono_ex1) (auto simp: depth_at_def lookup_update' intro!: bexI [of _ ?k])
      moreover have "insert ?k (Mapping.keys (ck_visited c)) = Mapping.keys (ck_visited c)" using in_keys by auto
      ultimately show ?thesis using in_keys by (simp add: c' rank_def)
    next
      case False
      then show ?thesis using Some assms(4) in_keys by (auto simp: visit_def Let_def)
    qed
  qed
  then show "rank K N (ck_visited c') \<le> rank K N (ck_visited c)" "kept \<Longrightarrow> \<not> visited \<Longrightarrow> rank K N (ck_visited c') < rank K N (ck_visited c)"
    "kept \<Longrightarrow> ?k \<in> Mapping.keys (ck_visited c')" "ck_stack c' = ck_stack c" by blast+
qed

lemma fold_add_final_simps [simp]:
  "ck_visited (fold add_final rs c) = ck_visited c" "ck_stack (fold add_final rs c) = ck_stack c" "ck_bounds (fold add_final rs c) = ck_bounds c"
  "ck_violations (fold add_final rs c) = ck_violations c"
  by (induction rs arbitrary: c) auto

lemma rank_final: "ck_visited (final sys s c) = ck_visited c" "ck_stack (final sys s c) = ck_stack c"
  by (cases "cs_finals sys s"; simp add: final_def Let_def)+

lemma rank_complete:
  assumes "finite K" "finite N" "cs_key sys s \<in> K"
  shows "rank K N (ck_visited (complete cfg sys s depth violated c)) \<le> rank K N (ck_visited c)"
    "ck_stack (complete cfg sys s depth violated c) = ck_stack c"
proof -
  obtain kept visited c' where v: "visit cfg sys s depth violated c = (kept, visited, c')" by (metis prod_cases3)
  show "rank K N (ck_visited (complete cfg sys s depth violated c)) \<le> rank K N (ck_visited c)"
    "ck_stack (complete cfg sys s depth violated c) = ck_stack c"
    using rank_visit [OF assms v] by (simp_all add: complete_def v rank_final)
qed

lemma rank_enter:
  assumes "finite K" "finite N" "cs_key sys s \<in> K" "sm_name ` set (movesOf sys s) \<subseteq> N"
    "enter cfg sys s depth sleep violated c = (child, c')"
  shows "rank K N (ck_visited c') \<le> rank K N (ck_visited c)" "child \<noteq> None \<Longrightarrow> rank K N (ck_visited c') < rank K N (ck_visited c)"
    "ck_stack c' = ck_stack c"
proof -
  let ?k = "cs_key sys s"
  obtain kept visited c1 where v: "visit cfg sys s depth violated c = (kept, visited, c1)" by (metis prod_cases3)
  note r = rank_visit [OF assms(1-3) v]
  define moves where "moves = (if visited then wanted ?k c1 (persistent cfg sys s (movesOf sys s) sleep) else persistent cfg sys s (movesOf sys s) sleep)"
  let ?m = "mark_explored ?k (sm_name ` set moves) (ck_visited c1)"
  show "ck_stack c' = ck_stack c" using assms(5) r(4) by (auto simp: enter_def v Let_def split: if_splits)
  have c': "ck_visited c' = (if kept \<and> \<not> (visited \<and> moves = []) then ?m else ck_visited c1)" "child \<noteq> None \<longleftrightarrow> kept \<and> \<not> (visited \<and> moves = [])"
    using assms(5) by (auto simp: enter_def v Let_def moves_def split: if_splits)
  show "rank K N (ck_visited c') \<le> rank K N (ck_visited c)"
    using r(1) order_trans [OF rank_mark_explored [OF assms(2)] r(1)] by (simp add: c')
  show "rank K N (ck_visited c') < rank K N (ck_visited c)" if ch: "child \<noteq> None"
  proof (cases visited)
    case False
    then have "kept" using ch c'(2) by simp
    then show ?thesis using r(2) False le_less_trans [OF rank_mark_explored [OF assms(2)]] by (simp add: c'(1))
  next
    case True
    then obtain m ms where m: "moves = m # ms" using ch c' by (cases moves) auto
    obtain seen where seen: "Mapping.lookup (ck_visited c1) ?k = Some seen" using r(3) ch c'(2) by (auto simp: keys_is_none_rep Option.is_none_def)
    have "m \<in> set (wanted ?k c1 (persistent cfg sys s (movesOf sys s) sleep))" using m True by (auto simp: moves_def split: if_splits)
    then have "sm_name m \<notin> vs_explored seen" "sm_name m \<in> N"
      using seen assms(4) persistent_subset [of cfg sys s "movesOf sys s" sleep] by (auto simp: wanted_def)
    then have "rank K N ?m < rank K N (ck_visited c1)" using m by (intro rank_mark_more [OF assms(1-3) seen, of "sm_name m"]) auto
    then show ?thesis using less_le_trans [OF _ r(1)] ch c'(2) by (simp add: c'(1))
  qed
qed


section \<open>What is left on the stack\<close>

text \<open>A node of a finite tree weighs more than its children: \<open>n\<close> bounds its height.\<close>

fun tree_weight :: "('a \<Rightarrow> 'a list) \<Rightarrow> nat \<Rightarrow> 'a \<Rightarrow> nat" where
  "tree_weight children 0 x = 1"
| "tree_weight children (Suc n) x = Suc (sum_list (map (tree_weight children n) (children x)))"

lemma tree_weight_positive: "0 < tree_weight children n x"
  by (cases n) simp_all

lemma tree_weight_Suc: "tree_weight children n x \<le> tree_weight children (Suc n) x"
proof (induction n arbitrary: x)
  case (Suc n)
  then have "sum_list (map (tree_weight children n) xs) \<le> sum_list (map (tree_weight children (Suc n)) xs)" for xs by (intro sum_list_mono) simp
  then show ?case by simp
qed simp

lemma tree_weight_mono: "n \<le> k \<Longrightarrow> tree_weight children n x \<le> tree_weight children k x"
  by (rule lift_Suc_mono_le) (rule tree_weight_Suc)

lemma children_weigh_less:
  assumes "\<And>y. y \<in> set (children x) \<Longrightarrow> level x < level y \<and> level y \<le> B"
  shows "sum_list (map (\<lambda>y. tree_weight children (B - level y) y) (children x)) < tree_weight children (B - level x) x"
proof (cases "children x = []")
  case False
  then obtain y0 where "y0 \<in> set (children x)" by (cases "children x") auto
  then have "level x < B" using assms by fastforce
  then obtain k where k: "B - level x = Suc k" by (cases "B - level x") auto
  have "tree_weight children (B - level y) y \<le> tree_weight children k y" if "y \<in> set (children x)" for y
    using assms [OF that] k by (intro tree_weight_mono) linarith
  then have "sum_list (map (\<lambda>y. tree_weight children (B - level y) y) (children x)) \<le> sum_list (map (tree_weight children k) (children x))"
    by (intro sum_list_mono) simp
  then show ?thesis by (simp add: k)
qed (simp add: tree_weight_positive)

definition move_weight :: "nat \<Rightarrow> ('s, 'o, 'n, 'e, 'f, 'v) checked_system \<Rightarrow> 's \<Rightarrow> ('o, 'n, 'e, 'f) searchMove \<Rightarrow> nat" where
  "move_weight B sys s m =
     tree_weight (\<lambda>m. siblings (fst (cs_make sys s (enabledMove.truncate m))) m) (B - length (em_Picks m)) m"

definition frame_weight :: "nat \<Rightarrow> ('s, 'o, 'n, 'e, 'f, 'v) checked_system \<Rightarrow> ('s, 'o, 'n, 'e, 'f) checkFrame \<Rightarrow> nat" where
  "frame_weight B sys f =
     Suc (sum_list (map (move_weight B sys (fr_snap f)) (drop (fr_next f) (fr_moves f))) +
          (if fr_full f then 0
           else sum_list (map (move_weight B sys (fr_snap f)) (filter (\<lambda>m. \<not> containsMove (fr_moves f) m) (fr_all f)))))"

definition stack_weight :: "nat \<Rightarrow> ('s, 'o, 'n, 'e, 'f, 'v) checked_system \<Rightarrow> ('s, 'o, 'n, 'e, 'f, 'v) checker \<Rightarrow> nat" where
  "stack_weight B sys c = sum_list (map (frame_weight B sys) (ck_stack c))"

lemma alternatives_longer: "picks \<in> set (alternatives d) \<Longrightarrow> 0 < length picks"
  by (auto simp: alternatives_def)

lemma siblings_longer: "m' \<in> set (siblings d m) \<Longrightarrow> length (em_Picks m) < length (em_Picks m')"
  using alternatives_longer [of _ d] by (fastforce simp: siblings_def)

lemma siblings_weigh_less:
  assumes "\<And>m'. m' \<in> set (siblings d m) \<Longrightarrow> length (em_Picks m') \<le> B" "d = fst (cs_make sys s (enabledMove.truncate m))"
  shows "sum_list (map (move_weight B sys s) (siblings d m)) < move_weight B sys s m"
  unfolding move_weight_def assms(2)
  by (rule children_weigh_less [of "\<lambda>m. siblings (fst (cs_make sys s (enabledMove.truncate m))) m" m "\<lambda>m. length (em_Picks m)" B])
    (use assms siblings_longer in blast)

lemma same_move_refl [simp]: "same_move m m"
  by (simp add: same_move_def)

lemma containsMove_mono: "set xs \<subseteq> set ys \<Longrightarrow> containsMove xs m \<Longrightarrow> containsMove ys m"
  by (auto simp: containsMove_def list_ex_iff)

lemma containsMove_in [simp]: "m \<in> set xs \<Longrightarrow> containsMove xs m"
  unfolding containsMove_def list_ex_iff by (rule bexI [of _ m]) simp_all

lemma sum_filter_le: "(\<And>x. x \<in> set xs \<Longrightarrow> P x \<Longrightarrow> Q x) \<Longrightarrow> sum_list (map w (filter P xs)) \<le> (sum_list (map w (filter Q xs)) :: nat)"
  by (induction xs) (auto intro: trans_le_add2)

lemma sum_filter_insert_list:
  "sum_list (map w (filter P (insert_list i new xs))) = (sum_list (map w (filter P new)) + sum_list (map w (filter P xs)) :: nat)"
proof -
  have "sum_list (map w (filter P (take i xs))) + sum_list (map w (filter P (drop i xs))) = sum_list (map w (filter P xs))"
    by (metis append_take_drop_id filter_append map_append sum_list_append)
  then show ?thesis by (simp add: insert_list_def)
qed

lemma frame_weight_reveal:
  assumes "fr_next f \<le> length (fr_moves f)"
  shows "frame_weight B sys (reveal m d f) \<le> frame_weight B sys f + sum_list (map (move_weight B sys (fr_snap f)) (siblings d m))"
proof (cases "siblings d m = []")
  case True
  then show ?thesis by (simp add: reveal_def)
next
  case False
  let ?w = "move_weight B sys (fr_snap f)" and ?new = "siblings d m"
  let ?moves = "insert_list (fr_next f) ?new (fr_moves f)" and ?all = "insert_list (index_after m (fr_all f)) ?new (fr_all f)"
  have "drop (fr_next f) ?moves = ?new @ drop (fr_next f) (fr_moves f)"
    using assms by (simp add: insert_list_def)
  moreover have "filter (\<lambda>m. \<not> containsMove ?moves m) ?new = []" by (auto simp: filter_empty_conv)
  then have "sum_list (map ?w (filter (\<lambda>m. \<not> containsMove ?moves m) ?all)) = sum_list (map ?w (filter (\<lambda>m. \<not> containsMove ?moves m) (fr_all f)))"
    by (simp add: sum_filter_insert_list)
  moreover have "sum_list (map ?w (filter (\<lambda>m. \<not> containsMove ?moves m) (fr_all f))) \<le>
      sum_list (map ?w (filter (\<lambda>m. \<not> containsMove (fr_moves f) m) (fr_all f)))"
    by (intro sum_filter_le) (use containsMove_mono [of "fr_moves f" ?moves] in auto)
  ultimately show ?thesis using False by (simp add: frame_weight_def reveal_def Let_def)
qed

lemma add_missing_weight:
  "sum_list (map w (drop n (add_missing all moves))) \<le>
    sum_list (map w (drop n moves)) + (sum_list (map w (filter (\<lambda>m. \<not> containsMove moves m) all)) :: nat)"
proof -
  let ?step = "\<lambda>m moves. if containsMove moves m then moves else moves @ [m]"
  have "sum_list (map w (drop n (fold ?step xs moves))) \<le>
    sum_list (map w (drop n moves)) + sum_list (map w (filter (\<lambda>m. \<not> containsMove moves m) xs))" for xs
  proof (induction xs arbitrary: moves)
    case (Cons x xs)
    show ?case
    proof (cases "containsMove moves x")
      case False
      have "sum_list (map w (filter (\<lambda>m. \<not> containsMove (moves @ [x]) m) xs)) \<le> sum_list (map w (filter (\<lambda>m. \<not> containsMove moves m) xs))"
        by (intro sum_filter_le) (use containsMove_mono [of moves "moves @ [x]"] in auto)
      moreover have "sum_list (map w (drop n (moves @ [x]))) \<le> sum_list (map w (drop n moves)) + w x"
        by (cases "n \<le> length moves") auto
      ultimately show ?thesis using Cons [of "moves @ [x]"] False by simp
    qed (use Cons in simp)
  qed simp
  then show ?thesis by (simp add: add_missing_def)
qed

lemma frame_weight_expand: "frame_weight B sys (expand f) \<le> frame_weight B sys f"
  using add_missing_weight [of "move_weight B sys (fr_snap f)" "fr_next f" "fr_all f" "fr_moves f"]
  by (simp add: frame_weight_def expand_def)

lemma frame_weight_next:
  assumes "fr_next f < length (fr_moves f)"
  shows "frame_weight B sys f = frame_weight B sys (f\<lparr>fr_next := fr_next f + 1\<rparr>) + move_weight B sys (fr_snap f) (fr_moves f ! fr_next f)"
proof -
  have "drop (fr_next f) (fr_moves f) = fr_moves f ! fr_next f # drop (Suc (fr_next f)) (fr_moves f)"
    using assms by (rule Cons_nth_drop_Suc [symmetric])
  then show ?thesis by (simp add: frame_weight_def)
qed

lemma frame_weight_cut [simp]: "frame_weight B sys (f\<lparr>fr_cut := b\<rparr>) = frame_weight B sys f"
  by (simp add: frame_weight_def)

lemma stack_weight_cut_top [simp]: "stack_weight B sys (cut_top c) = stack_weight B sys c"
  by (simp add: stack_weight_def cut_top_stack split: list.split)

lemma stack_weight_on_top:
  assumes "\<And>f rest. ck_stack c = f # rest \<Longrightarrow> frame_weight B sys (g f) \<le> frame_weight B sys f"
  shows "stack_weight B sys (on_top g c) \<le> stack_weight B sys c"
  using assms by (auto simp: stack_weight_def on_top_def split: list.split)

lemma stack_weight_simps [simp]:
  "stack_weight B sys (c\<lparr>ck_visited := vis\<rparr>) = stack_weight B sys c" "stack_weight B sys (hit b c) = stack_weight B sys c"
  "stack_weight B sys (violate v c) = stack_weight B sys c"
  by (simp_all add: stack_weight_def)


section \<open>A turn leaves less\<close>

definition finite_search ::
  "check_config \<Rightarrow> ('s, 'o, 'n, 'e, 'f, 'v) checked_system \<Rightarrow> ('e check_error + 's) set \<Rightarrow> string set \<Rightarrow> string set \<Rightarrow> nat \<Rightarrow> bool" where
  "finite_search cfg sys S0 K N B =
     (finite K \<and> finite N \<and>
      (\<forall>s depth. stands cfg sys S0 s depth \<longrightarrow>
         cs_key sys s \<in> K \<and> sm_name ` available sys s \<subseteq> N \<and> (\<forall>m \<in> available sys s. length (em_Picks m) \<le> B)))"

definition left ::
  "string set \<Rightarrow> string set \<Rightarrow> nat \<Rightarrow> ('s, 'o, 'n, 'e, 'f, 'v) checked_system \<Rightarrow> ('s, 'o, 'n, 'e, 'f, 'v) checker \<Rightarrow>
   (nat \<times> nat \<times> nat) \<times> nat" where
  "left K N B sys c = (rank K N (ck_visited c), stack_weight B sys c)"

lemma left_le: "rank K N (ck_visited c) \<le> r \<Longrightarrow> stack_weight B sys c \<le> w \<Longrightarrow> left K N B sys c \<le> (r, w)"
  by (auto simp: left_def)

lemma left_arrive:
  assumes "finite_search cfg sys S0 K N B" "stands cfg sys S0 s (fr_depth f + 1)"
  shows "left K N B sys (arrive cfg sys s f m spent c) \<le> left K N B sys c"
proof -
  have fin: "finite K" "finite N" "cs_key sys s \<in> K" "sm_name ` set (movesOf sys s) \<subseteq> N"
    using assms movesOf_available [of sys s] unfolding finite_search_def by blast+
  show ?thesis
  proof (cases "cs_terminal sys s")
    case True
    then have "arrive cfg sys s f m spent c = complete cfg sys s (fr_depth f + 1) (fr_violated f) c" by (simp add: arrive_def)
    then show ?thesis using rank_complete [OF fin(1-3), of cfg "fr_depth f + 1" "fr_violated f" c] by (simp add: left_def stack_weight_def)
  next
    case False
    obtain child c1 where e: "enter cfg sys s (fr_depth f + 1) (childSleep cfg sys s f m) (fr_violated f) c = (child, c1)" by force
    note r = rank_enter [OF fin e]
    define c2 where "c2 = (case Mapping.lookup (ck_visited c1) (cs_key sys s) of Some seen \<Rightarrow> if vs_cut seen then cut_top c1 else c1 | None \<Rightarrow> c1)"
    define c3 where "c3 = (if on_stack c2 (cs_key sys s) > 0 then on_top expand c2 else c2)"
    have a: "arrive cfg sys s f m spent c = (case child of None \<Rightarrow> c3 | Some child \<Rightarrow> push (child\<lparr>fr_spent := spent\<rparr>) c3)"
      by (simp only: arrive_def Let_def e prod.case False if_False c2_def c3_def)
    have c2: "rank K N (ck_visited c2) \<le> rank K N (ck_visited c1)" "stack_weight B sys c2 = stack_weight B sys c1"
      using rank_cut_top [OF fin(2), of K c1] by (auto simp: c2_def split: option.split)
    have "ck_visited (on_top expand c2) = ck_visited c2" by (simp add: on_top_def split: list.split)
    then have c3: "ck_visited c3 = ck_visited c2" "stack_weight B sys c3 \<le> stack_weight B sys c2"
      using stack_weight_on_top [of c2 B sys expand] frame_weight_expand by (auto simp: c3_def)
    have w: "stack_weight B sys c1 = stack_weight B sys c" using r(3) by (simp add: stack_weight_def)
    show ?thesis
    proof (cases child)
      case None
      then show ?thesis using c2 c3 r(1) w by (auto simp: a left_def)
    next
      case (Some g)
      then have "rank K N (ck_visited c3) < rank K N (ck_visited c)" using le_less_trans [OF c2(1) r(2)] c3(1) by simp
      then show ?thesis by (simp add: a Some left_def push_def less_prod_def)
    qed
  qed
qed

lemma failed_fields: "failed e depth c = Inr c' \<Longrightarrow> ck_visited c' = ck_visited c \<and> ck_stack c' = ck_stack c"
  by (cases e) (auto simp: failed_def)

lemma left_take_move:
  assumes "finite_search cfg sys S0 K N B" "sound cfg sys S0 c" "ck_stack c = f # rest" "m \<in> set (fr_moves f)" "fr_next f \<le> length (fr_moves f)"
    "take_move cfg sys f m c = Inr c'"
  shows "left K N B sys c' < (rank K N (ck_visited c), stack_weight B sys c + move_weight B sys (fr_snap f) m)"
proof -
  obtain spent bound exceeded where sp: "spend (em_Kind m) (cc_budgets cfg) (fr_spent f) = (spent, bound, exceeded)" by (metis prod_cases3)
  define drawn where "drawn = fst (cs_make sys (fr_snap f) (enabledMove.truncate m))"
  have fin: "finite K" "finite N" using assms(1) by (simp_all add: finite_search_def)
  have lt: "(r, w) < (rank K N (ck_visited c), stack_weight B sys c + move_weight B sys (fr_snap f) m)"
    if "(r, w) \<le> (rank K N (ck_visited c), k)" "k < stack_weight B sys c + move_weight B sys (fr_snap f) m" for r w k
    using that by auto
  show ?thesis
  proof (cases "past_depth cfg (fr_depth f + 1) \<or> exceeded")
    case True
    then obtain b where b: "c' = cut_top (hit b c)" using take_move_cut [OF sp, of sys c] assms(6) by auto
    have "rank K N (ck_visited c') \<le> rank K N (ck_visited c)" using rank_cut_top [OF fin(2), of K "hit b c"] by (simp add: b)
    then have "left K N B sys c' \<le> (rank K N (ck_visited c), stack_weight B sys c)" by (rule left_le) (simp add: b)
    then show ?thesis unfolding left_def by (rule lt) (simp add: move_weight_def tree_weight_positive)
  next
    case False
    have fr: "sound_frame cfg sys S0 f" using assms(2,3) by (simp add: sound_def)
    then obtain ms where ms: "schedule sys S0 ms (fr_snap f)" "length ms = fr_depth f" "in_bounds cfg ms" "spend_all (cc_budgets cfg) nothing_spent ms = Some (fr_spent f)"
      by (auto simp: sound_frame_def)
    have av: "\<not> cs_terminal sys (fr_snap f)" "m \<in> available sys (fr_snap f)" using fr assms(4) by (auto simp: sound_frame_def)
    have st: "stands cfg sys S0 (fr_snap f) (fr_depth f)" using ms by (auto simp: stands_def)
    define c2 where "c2 = counted (fr_depth f + 1) m drawn c"
    have "frame_weight B sys (reveal m drawn f) \<le> frame_weight B sys f + sum_list (map (move_weight B sys (fr_snap f)) (siblings drawn m))"
      by (rule frame_weight_reveal [OF assms(5)])
    moreover have "sum_list (map (move_weight B sys (fr_snap f)) (siblings drawn m)) < move_weight B sys (fr_snap f) m"
    proof (rule siblings_weigh_less)
      fix m' assume "m' \<in> set (siblings drawn m)"
      then have "m' \<in> available sys (fr_snap f)" using available_draw [OF av(2)] by (auto simp: drawn_def)
      then show "length (em_Picks m') \<le> B" using assms(1) st unfolding finite_search_def by blast
    qed (simp add: drawn_def)
    ultimately have w: "stack_weight B sys c2 < stack_weight B sys c + move_weight B sys (fr_snap f) m"
      using assms(3) by (simp add: c2_def counted_def on_top_def stack_weight_def)
    have v: "ck_visited c2 = ck_visited c" by (simp add: c2_def counted_def on_top_def split: list.split)
    have t: "take_move cfg sys f m c =
      (case move_outcome sys (fr_snap f) m of
         Inl e \<Rightarrow> failed e (fr_depth f + 1) c2 | Inr s \<Rightarrow> Inr (arrive cfg sys s (reveal m drawn f) m spent c2))"
      unfolding c2_def using False sp by (intro take_move_eq) (auto simp: drawn_def)
    have "left K N B sys c' \<le> (rank K N (ck_visited c), stack_weight B sys c2)"
    proof (cases "move_outcome sys (fr_snap f) m")
      case (Inl e)
      then have "ck_visited c' = ck_visited c \<and> ck_stack c' = ck_stack c2" using assms(6) t failed_fields v by fastforce
      then show ?thesis by (simp add: left_def stack_weight_def)
    next
      case (Inr s)
      have b: "in_bounds cfg (ms @ [m])" using in_bounds_snoc [OF ms(4)] sp False ms(2) by (auto simp: past_depth_def)
      have "stands cfg sys S0 s (fr_depth (reveal m drawn f) + 1)"
        using schedule_move [OF ms(1) av Inr] b ms(2) by (auto simp: stands_def intro!: exI [of _ "ms @ [m]"])
      from left_arrive [OF assms(1) this, of m spent c2] show ?thesis using assms(6) t Inr v by (simp add: left_def)
    qed
    then show ?thesis using w unfolding left_def by (rule lt)
  qed
qed


lemma left_search_step:
  assumes "finite_search cfg sys S0 K N B" "sound cfg sys S0 c" "ck_stack c \<noteq> []" "search_step cfg sys c = Inr c'"
  shows "left K N B sys c' < left K N B sys c"
proof -
  obtain f rest where st: "ck_stack c = f # rest" using assms(3) by (cases "ck_stack c") auto
  have fin: "finite N" using assms(1) by (simp add: finite_search_def)
  show ?thesis
  proof (cases "fr_next f < length (fr_moves f)")
    case True
    let ?f = "f\<lparr>fr_next := fr_next f + 1\<rparr>" and ?m = "fr_moves f ! fr_next f"
    define c1 where "c1 = c\<lparr>ck_stack := ?f # rest, ck_visited := mark_explored (fr_key f) {sm_name ?m} (ck_visited c)\<rparr>"
    have "sound cfg sys S0 (c\<lparr>ck_stack := ?f # rest\<rparr>)" using assms(2) st by (simp add: sound_def sound_frame_def)
    from sound_mark_explored [OF this, of "fr_key f" "{sm_name ?m}"] have c1: "sound cfg sys S0 c1" by (simp add: c1_def)
    have r: "rank K N (ck_visited c1) \<le> rank K N (ck_visited c)" using rank_mark_explored [OF fin] by (simp add: c1_def)
    have w: "stack_weight B sys c1 + move_weight B sys (fr_snap ?f) ?m = stack_weight B sys c"
      using frame_weight_next [OF True, of B sys] st by (simp add: c1_def stack_weight_def)
    have "left K N B sys c' < (rank K N (ck_visited c1), stack_weight B sys c1 + move_weight B sys (fr_snap ?f) ?m)"
      by (rule left_take_move [OF assms(1) c1, where rest = rest]) (use True assms(4) search_step_take [OF st True] in \<open>simp_all add: c1_def\<close>)
    then show ?thesis using r unfolding w by (auto simp: left_def)
  next
    case False
    then have c': "c' = pop f c" using assms(4) search_step_pop [OF st] by simp
    let ?c = "c\<lparr>ck_stack := tl (ck_stack c), ck_onStack := Mapping.update (fr_key f) (on_stack c (fr_key f) - 1) (ck_onStack c)\<rparr>"
    have "rank K N (ck_visited c') \<le> rank K N (ck_visited c)"
      using rank_cut_top [OF fin, of K ?c] by (simp add: c' pop_def Let_def)
    moreover have "stack_weight B sys c' = stack_weight B sys ?c" by (simp add: c' pop_def Let_def)
    then have "stack_weight B sys c' < stack_weight B sys c" by (simp add: stack_weight_def st frame_weight_def)
    ultimately show ?thesis by (auto simp: left_def)
  qed
qed

lemma turn_loop_ends:
  assumes "finite_search cfg sys S0 K N B" "sound cfg sys S0 c"
  shows "\<exists>r. turn_loop cfg sys c = Some r"
  using assms(2)
proof (induction c rule: measure_induct_rule [where f = "left K N B sys"])
  case (less c)
  show ?case
  proof (cases "ck_stack c = []")
    case False
    show ?thesis
    proof (cases "search_step cfg sys c")
      case (Inr c')
      have "\<exists>r. turn_loop cfg sys c' = Some r"
        by (rule less.IH) (use left_search_step [OF assms(1) less.prems False Inr] sound_search_step [OF less.prems False Inr] in simp_all)
      then show ?thesis using False Inr by (subst turn_loop.simps) simp
    qed (use False in \<open>subst turn_loop.simps, simp\<close>)
  qed (subst turn_loop.simps, simp)
qed

section \<open>Finitely many states\<close>

lemma finite_steps:
  assumes "\<And>ms s. schedule sys S0 ms s \<Longrightarrow> finite (available sys s)" "finite S0"
  shows "finite {s. \<exists>ms. schedule sys S0 ms s \<and> length ms = n}"
proof (induction n)
  case 0
  have "{s. \<exists>ms. schedule sys S0 ms s \<and> length ms = 0} \<subseteq> (\<lambda>x. projr (cs_stabilize sys (projr x))) ` S0"
    by (auto simp: image_iff) (metis sum.sel(2))
  then show ?case by (rule finite_subset) (simp add: assms(2))
next
  case (Suc n)
  have "{s. \<exists>ms. schedule sys S0 ms s \<and> length ms = Suc n} \<subseteq>
    (\<Union>s \<in> {s. \<exists>ms. schedule sys S0 ms s \<and> length ms = n}. (\<lambda>m. projr (move_outcome sys s m)) ` available sys s)"
  proof (rule subsetI, clarify)
    fix t ms assume "schedule sys S0 ms t" "length ms = Suc n"
    then show "t \<in> (\<Union>s \<in> {s. \<exists>ms. schedule sys S0 ms s \<and> length ms = n}. (\<lambda>m. projr (move_outcome sys s m)) ` available sys s)"
    proof cases
      case (schedule_move ms' s m)
      then have "t = projr (move_outcome sys s m)" by simp
      moreover have "s \<in> {s. \<exists>ms. schedule sys S0 ms s \<and> length ms = n}" using schedule_move(1,2) \<open>length ms = Suc n\<close> by auto
      ultimately show ?thesis using schedule_move(4) by blast
    qed simp
  qed
  moreover have "finite (available sys s)" if "s \<in> {s. \<exists>ms. schedule sys S0 ms s \<and> length ms = n}" for s
    using that assms(1) by blast
  ultimately show ?case using Suc by (elim finite_subset) (intro finite_UN_I finite_imageI)
qed

lemma finite_search_exists:
  assumes "\<And>ms s. schedule sys S0 ms s \<Longrightarrow> finite (available sys s)" "finite S0"
    "0 < cb_Depth (cc_budget cfg) \<or> finite {s. \<exists>ms. schedule sys S0 ms s}"
  shows "\<exists>K N B. finite_search cfg sys S0 K N B"
proof -
  define S where "S = {s. \<exists>depth. stands cfg sys S0 s depth}"
  have S: "schedule sys S0 ms s \<Longrightarrow> in_bounds cfg ms \<Longrightarrow> s \<in> S" for ms s by (auto simp: S_def stands_def)
  have "finite S"
  proof (cases "0 < cb_Depth (cc_budget cfg)")
    case True
    have "S \<subseteq> (\<Union>n \<in> {..nat (cb_Depth (cc_budget cfg))}. {s. \<exists>ms. schedule sys S0 ms s \<and> length ms = n})"
      using True by (fastforce simp: S_def stands_def in_bounds_def)
    then show ?thesis by (rule finite_subset) (use finite_steps [OF assms(1,2)] in auto)
  next
    case False
    have "S \<subseteq> {s. \<exists>ms. schedule sys S0 ms s}" by (auto simp: S_def stands_def)
    then show ?thesis using False assms(3) finite_subset by blast
  qed
  moreover have "finite (available sys s)" if "s \<in> S" for s using that assms(1) by (auto simp: S_def stands_def)
  ultimately have A: "finite (\<Union>s \<in> S. available sys s)" by auto
  then obtain B where "\<forall>n \<in> (\<lambda>m. length (em_Picks m)) ` (\<Union>s \<in> S. available sys s). n \<le> B"
    by (metis finite_imageI finite_nat_set_iff_bounded_le)
  then have "finite_search cfg sys S0 (cs_key sys ` S) (sm_name ` (\<Union>s \<in> S. available sys s)) B"
    using \<open>finite S\<close> A by (auto simp: finite_search_def S_def)
  then show ?thesis by blast
qed

lemma search_ends:
  assumes "finite_search cfg sys S0 K N B" "sound cfg sys S0 c" "Inr s0 \<in> S0"
  shows "\<exists>r. search cfg sys s0 c = Some r"
proof (cases "cs_stabilize sys s0")
  case (Inr s)
  have sc: "schedule sys S0 [] s" using assms(3) Inr by (rule schedule_start)
  then have st: "stands cfg sys S0 s 0" by (auto simp: stands_def intro!: exI [of _ "[]"])
  show ?thesis
  proof (cases "cs_terminal sys s")
    case False
    obtain child c1 where e: "enter cfg sys s 0 [] [] c = (child, c1)" by force
    show ?thesis
    proof (cases child)
      case (Some g)
      have "sound cfg sys S0 (push g c1)"
        by (rule sound_push [OF sound_enter [OF assms(2) st e] sound_root [OF sc False e [unfolded Some]]])
      then show ?thesis using turn_loop_ends [OF assms(1)] Inr False e Some by (simp add: search_def)
    qed (use Inr False e in \<open>simp add: search_def\<close>)
  qed (use Inr in \<open>simp add: search_def\<close>)
qed (simp add: search_def)

end
