(* ===== verification/Check_Complete.thy ===== *)
theory Check_Complete
  imports Check_Sound
begin

text \<open>
  An exhaustive search leaves nothing out: when no bound was hit and every schedule was searched, not one of each
  class, every state a schedule reaches was visited, every final recorded, every property false at one reported and
  every failing move reported. States of one key are to be alike (\<open>canonical\<close>): it is what the key is for.
\<close>

section \<open>What is reported, and what only grows\<close>

definition reports_false :: "('s, 'o, 'n, 'e, 'f, 'v) checker \<Rightarrow> string \<Rightarrow> bool" where
  "reports_false c p = (\<exists>v \<in> set (ck_violations c). vi_Kind v = ViolationProperty \<and> vi_Name v = p)"

definition reports_failure :: "('s, 'o, 'n, 'e, 'f, 'v) checker \<Rightarrow> string \<Rightarrow> 'e check_error \<Rightarrow> bool" where
  "reports_failure c name e = (\<exists>v \<in> set (ck_violations c). vi_Kind v \<noteq> ViolationProperty \<and> vi_Name v = name \<and> vi_Err v = Some e)"

definition grows :: "('s, 'o, 'n, 'e, 'f, 'v) checker \<Rightarrow> ('s, 'o, 'n, 'e, 'f, 'v) checker \<Rightarrow> bool" where
  "grows c c' =
     (Mapping.keys (ck_visited c) \<subseteq> Mapping.keys (ck_visited c') \<and> (\<forall>p. reports_false c p \<longrightarrow> reports_false c' p) \<and>
      (\<forall>n e. reports_failure c n e \<longrightarrow> reports_failure c' n e) \<and> fst ` set (ck_results c) \<subseteq> fst ` set (ck_results c') \<and>
      (ck_bounds c' = [] \<longrightarrow> ck_bounds c = []))"

lemma grows_refl [simp]: "grows c c"
  by (simp add: grows_def)

lemma grows_trans: "grows a b \<Longrightarrow> grows b c \<Longrightarrow> grows a c"
  unfolding grows_def by (elim conjE, intro conjI allI impI; (erule (1) subset_trans | simp))

lemma grows_same:
  assumes "Mapping.keys (ck_visited c') = Mapping.keys (ck_visited c)" "ck_violations c' = ck_violations c" "ck_results c' = ck_results c"
    "ck_bounds c' = ck_bounds c"
  shows "grows c c'"
  unfolding grows_def reports_false_def reports_failure_def assms by blast

lemma hit_bounds [simp]: "ck_bounds (hit b c) \<noteq> []"
  by (auto simp: hit_def)

lemma grows_hit [simp]: "grows c (hit b c)"
  by (simp add: grows_def reports_false_def reports_failure_def)

lemma property_at_Some:
  "property_at name vs = Some i \<Longrightarrow> i < length vs \<and> vi_Kind (vs ! i) = ViolationProperty \<and> vi_Name (vs ! i) = name"
  using nth_length_takeWhile [of "\<lambda>v. \<not> (vi_Kind v = ViolationProperty \<and> vi_Name v = name)" vs]
  by (auto simp: property_at_def Let_def split: if_splits)

lemma violate_reports:
  "reports_false (violate v c) p \<longleftrightarrow> reports_false c p \<or> (vi_Kind v = ViolationProperty \<and> vi_Name v = p)"
  "reports_failure (violate v c) n e \<longleftrightarrow> reports_failure c n e \<or> (vi_Kind v \<noteq> ViolationProperty \<and> vi_Name v = n \<and> vi_Err v = Some e)"
proof -
  consider (new) "violate v c = c\<lparr>ck_violations := ck_violations c @ [v]\<rparr>"
    | (kept) i where "violate v c = c" "vi_Kind v = ViolationProperty" "property_at (vi_Name v) (ck_violations c) = Some i"
    | (better) i where "violate v c = c\<lparr>ck_violations := (ck_violations c)[i := v]\<rparr>" "vi_Kind v = ViolationProperty"
      "property_at (vi_Name v) (ck_violations c) = Some i"
  proof (cases "vi_Kind v = ViolationProperty \<and> property_at (vi_Name v) (ck_violations c) \<noteq> None")
    case True
    then obtain i where i: "vi_Kind v = ViolationProperty" "property_at (vi_Name v) (ck_violations c) = Some i" by auto
    show ?thesis
      by (cases "vi_Depth v < vi_Depth (ck_violations c ! i)") (use i that(2,3) in \<open>auto simp: violate_def\<close>)
  next
    case False
    then show ?thesis by (intro that(1)) (auto simp: violate_def)
  qed
  then have "(reports_false (violate v c) p \<longleftrightarrow> reports_false c p \<or> (vi_Kind v = ViolationProperty \<and> vi_Name v = p)) \<and>
    (reports_failure (violate v c) n e \<longleftrightarrow> reports_failure c n e \<or> (vi_Kind v \<noteq> ViolationProperty \<and> vi_Name v = n \<and> vi_Err v = Some e))"
  proof cases
    case new
    then show ?thesis by (auto simp: reports_false_def reports_failure_def)
  next
    case kept
    then show ?thesis using property_at_Some [OF kept(3)] by (auto simp: reports_false_def dest: nth_mem)
  next
    case better
    note i = property_at_Some [OF better(3)]
    have v: "v \<in> set ((ck_violations c)[i := v])" using i by (simp add: set_update_memI)
    have old: "w = ck_violations c ! i \<or> w \<in> set ((ck_violations c)[i := v])" if "w \<in> set (ck_violations c)" for w
      using that by (metis in_set_conv_nth length_list_update nth_list_update_neq)
    have new: "w = v \<or> w \<in> set (ck_violations c)" if "w \<in> set ((ck_violations c)[i := v])" for w
      using that set_update_subset_insert by fastforce
    have b: "ck_violations (violate v c) = (ck_violations c)[i := v]" by (simp add: better(1))
    have "reports_false (violate v c) p \<longleftrightarrow> reports_false c p \<or> vi_Name v = p"
      unfolding reports_false_def b using better(2) i v old new by metis
    moreover have "reports_failure (violate v c) n e \<longleftrightarrow> reports_failure c n e"
      unfolding reports_failure_def b using better(2) i old new by metis
    ultimately show ?thesis using better(2) by simp
  qed
  then show "reports_false (violate v c) p \<longleftrightarrow> reports_false c p \<or> (vi_Kind v = ViolationProperty \<and> vi_Name v = p)"
    "reports_failure (violate v c) n e \<longleftrightarrow> reports_failure c n e \<or> (vi_Kind v \<noteq> ViolationProperty \<and> vi_Name v = n \<and> vi_Err v = Some e)" by blast+
qed

lemma grows_violate [simp]: "grows c (violate v c)"
  by (simp add: grows_def violate_reports)

lemma reports_visited [simp]:
  "reports_false (c\<lparr>ck_visited := vis\<rparr>) p = reports_false c p" "reports_failure (c\<lparr>ck_visited := vis\<rparr>) n e = reports_failure c n e"
  "reports_false (hit b c) p = reports_false c p" "reports_failure (hit b c) n e = reports_failure c n e"
  by (simp_all add: reports_false_def reports_failure_def)

lemma grows_visited: "Mapping.keys (ck_visited c) \<subseteq> Mapping.keys vis \<Longrightarrow> grows c (c\<lparr>ck_visited := vis\<rparr>)"
  by (simp add: grows_def)

section \<open>The properties noted false\<close>

text \<open>A property a state or a path is noted to violate is reported.\<close>

definition noted :: "('s, 'o, 'n, 'e, 'f, 'v) checker \<Rightarrow> bool" where
  "noted c =
     ((\<forall>key seen. Mapping.lookup (ck_visited c) key = Some seen \<longrightarrow> (\<forall>p \<in> set (vs_violated seen). reports_false c p)) \<and>
      (\<forall>f \<in> set (ck_stack c). \<forall>p \<in> set (fr_violated f). reports_false c p))"

lemma noted_map_entry:
  "noted c \<Longrightarrow> (\<And>seen p. p \<in> set (vs_violated (g seen)) \<Longrightarrow> p \<in> set (vs_violated seen) \<or> reports_false c p) \<Longrightarrow>
    noted (c\<lparr>ck_visited := Mapping.map_entry key g (ck_visited c)\<rparr>)"
  by (fastforce simp: noted_def lookup_map_entry_iff split: if_splits)

lemma noted_hit [simp]: "noted (hit b c) = noted c"
  by (simp add: noted_def)

lemma noted_violate: "noted c \<Longrightarrow> noted (violate v c)"
  by (simp add: noted_def violate_reports)

lemma noted_mark_explored: "noted c \<Longrightarrow> noted (c\<lparr>ck_visited := mark_explored key names (ck_visited c)\<rparr>)"
  unfolding mark_explored_def by (rule noted_map_entry) auto

lemma noted_stack:
  assumes "noted c" "\<And>f. f \<in> set fs \<Longrightarrow> \<forall>p \<in> set (fr_violated f). reports_false c p"
  shows "noted (c\<lparr>ck_stack := fs\<rparr>)"
  using assms by (simp add: noted_def reports_false_def)

lemma noted_cut_top:
  assumes "noted c"
  shows "noted (cut_top c)"
proof (cases "ck_stack c")
  case (Cons f rest)
  have "noted (c\<lparr>ck_stack := f\<lparr>fr_cut := True\<rparr> # rest\<rparr>)"
    by (rule noted_stack) (use assms Cons in \<open>auto simp: noted_def\<close>)
  from noted_map_entry [OF this, of "\<lambda>seen. seen\<lparr>vs_cut := True\<rparr>" "fr_key f"]
  show ?thesis by (simp add: cut_top_def Cons mark_cut_def)
qed (use assms in \<open>simp add: cut_top_def\<close>)

lemma grows_cut_top [simp]: "grows c (cut_top c)"
  by (rule grows_same; simp add: cut_top_def mark_cut_def split: list.split)

section \<open>Visiting\<close>

text \<open>The properties are judged at the state.\<close>

definition judged :: "check_config \<Rightarrow> ('s, 'o, 'n, 'e, 'f, 'v) checked_system \<Rightarrow> ('s, 'o, 'n, 'e, 'f, 'v) checker \<Rightarrow> 's \<Rightarrow> string list \<Rightarrow> bool" where
  "judged cfg sys c s ps =
     (\<forall>p \<in> set ps. (false_at sys s p \<longrightarrow> reports_false c p) \<and> (\<forall>e. cs_evaluate sys s p = Evaluation_fails e \<longrightarrow> reports_failure c p e))"

lemma judged_grows: "judged cfg sys c s ps \<Longrightarrow> grows c c' \<Longrightarrow> judged cfg sys c' s ps"
  by (auto simp: judged_def grows_def)

lemma check_property_reports:
  assumes "noted c" "\<forall>p \<in> set violated. reports_false c p"
  shows "grows c (check_property sys s depth violated key p c) \<and> noted (check_property sys s depth violated key p c) \<and>
    judged cfg sys (check_property sys s depth violated key p c) s [p]"
proof -
  let ?v = "\<lparr>vi_Kind = ViolationProperty, vi_Name = p, vi_Err = None, vi_Depth = depth\<rparr>"
  have k: "Mapping.keys (set_violated key p vis) = Mapping.keys vis" for vis by (simp add: set_violated_def)
  have n: "noted (d\<lparr>ck_visited := set_violated key p (ck_visited d)\<rparr>)" if "noted d" "reports_false d p" for d
    unfolding set_violated_def by (rule noted_map_entry [OF that(1)]) (use that(2) in \<open>auto split: if_splits\<close>)
  have swap: "violate ?v (d\<lparr>ck_visited := vis\<rparr>) = (violate ?v d)\<lparr>ck_visited := vis\<rparr>" for d vis
    by (simp add: violate_def split: option.split)
  have f: "grows d (if p \<in> set violated then d\<lparr>ck_visited := set_violated key p (ck_visited d)\<rparr>
         else violate ?v (d\<lparr>ck_visited := set_violated key p (ck_visited d)\<rparr>)) \<and>
       noted (if p \<in> set violated then d\<lparr>ck_visited := set_violated key p (ck_visited d)\<rparr>
         else violate ?v (d\<lparr>ck_visited := set_violated key p (ck_visited d)\<rparr>)) \<and>
       reports_false (if p \<in> set violated then d\<lparr>ck_visited := set_violated key p (ck_visited d)\<rparr>
         else violate ?v (d\<lparr>ck_visited := set_violated key p (ck_visited d)\<rparr>)) p" (is "?ok d") if "noted d" "\<forall>p \<in> set violated. reports_false d p" for d
  proof (cases "p \<in> set violated")
    case True
    then show ?thesis using that n [of d] by (simp add: grows_visited k)
  next
    case False
    have "noted ((violate ?v d)\<lparr>ck_visited := set_violated key p (ck_visited (violate ?v d))\<rparr>)"
      by (rule n) (simp_all add: that noted_violate violate_reports)
    moreover have "grows d ((violate ?v d)\<lparr>ck_visited := set_violated key p (ck_visited d)\<rparr>)"
      by (rule grows_trans [OF grows_violate grows_visited]) (simp add: k)
    ultimately show ?thesis using False by (simp add: swap violate_reports)
  qed
  show ?thesis
    by (rule evaluation_cases [of sys s p])
      (use assms f [OF assms] f [of "hit ''statement orders'' c"] in
        \<open>auto simp: check_property_eq Let_def judged_def false_at_def noted_violate violate_reports intro: grows_trans [OF grows_hit]\<close>)
qed


lemma grows_reports_false: "grows c c' \<Longrightarrow> reports_false c p \<Longrightarrow> reports_false c' p"
  by (simp add: grows_def)

lemma grows_bounds: "grows c c' \<Longrightarrow> ck_bounds c' = [] \<Longrightarrow> ck_bounds c = []"
  by (simp add: grows_def)

lemma check_properties_reports:
  assumes "noted c" "\<forall>p \<in> set violated. reports_false c p"
  shows "grows c (fold (check_property sys s depth violated key) ps c) \<and> noted (fold (check_property sys s depth violated key) ps c) \<and>
    judged cfg sys (fold (check_property sys s depth violated key) ps c) s ps"
  using assms
proof (induction ps arbitrary: c)
  case (Cons p ps)
  let ?c = "check_property sys s depth violated key p c" and ?d = "fold (check_property sys s depth violated key) ps (check_property sys s depth violated key p c)"
  have p: "grows c ?c" "noted ?c" "judged cfg sys ?c s [p]" using check_property_reports [OF Cons.prems] by blast+
  have "\<forall>p \<in> set violated. reports_false ?c p" using Cons.prems(2) grows_reports_false [OF p(1)] by blast
  note IH = Cons.IH [OF p(2) this]
  have "judged cfg sys ?d s [p]" by (rule judged_grows [OF p(3)]) (use IH in blast)
  then have "judged cfg sys ?d s (p # ps)" using IH by (simp add: judged_def)
  moreover have "grows c ?d" by (rule grows_trans [OF p(1)]) (use IH in blast)
  ultimately show ?case using IH by simp
qed (simp add: judged_def)

lemma visit_reports:
  assumes "visit cfg sys s depth violated c = (kept, visited, c')" "noted c" "\<forall>p \<in> set violated. reports_false c p"
  shows "grows c c' \<and> noted c' \<and> ck_stack c' = ck_stack c \<and> (ck_bounds c' = [] \<longrightarrow> kept) \<and>
    Mapping.keys (ck_visited c') = (if kept then insert (cs_key sys s) (Mapping.keys (ck_visited c)) else Mapping.keys (ck_visited c)) \<and>
    (visited \<longleftrightarrow> cs_key sys s \<in> Mapping.keys (ck_visited c)) \<and> (kept \<longrightarrow> \<not> visited \<longrightarrow> judged cfg sys c' s (cc_props cfg)) \<and>
    (visited \<longrightarrow> kept)"
proof (cases "Mapping.lookup (ck_visited c) (cs_key sys s)")
  case None
  let ?k = "cs_key sys s"
  have k: "?k \<notin> Mapping.keys (ck_visited c)" using None by (simp add: keys_is_none_rep)
  show ?thesis
  proof (cases "cb_States (cc_budget cfg) > 0 \<and> int (Mapping.size (ck_visited c)) \<ge> cb_States (cc_budget cfg)")
    case True
    then show ?thesis using None assms k by (auto simp: visit_def Let_def)
  next
    case False
    let ?seen = "\<lparr>vs_explored = {}, vs_depth = depth, vs_cut = False, vs_violated = []\<rparr>"
    let ?c = "c\<lparr>ck_visited := Mapping.update ?k ?seen (ck_visited c)\<rparr>"
    have c': "c' = fold (check_property sys s depth violated ?k) (cc_props cfg) ?c" "kept" "\<not> visited"
      using False None assms(1) by (auto simp: visit_def Let_def)
    have n: "noted ?c" using assms(2) by (auto simp: noted_def lookup_update')
    have g: "grows c ?c" by (rule grows_visited) auto
    have "\<forall>p \<in> set violated. reports_false ?c p" using assms(3) by simp
    note f = check_properties_reports [OF n this, of sys s depth ?k "cc_props cfg" cfg]
    have "Mapping.keys (ck_visited c') = insert ?k (Mapping.keys (ck_visited c))" "ck_stack c' = ck_stack c" by (simp_all add: c'(1))
    moreover have "grows c c'" unfolding c'(1) by (rule grows_trans [OF g]) (use f in blast)
    ultimately show ?thesis using f c' k by simp
  qed
next
  case (Some seen)
  let ?seen = "(if vs_cut seen then seen\<lparr>vs_explored := {}, vs_cut := False\<rparr> else seen)\<lparr>vs_depth := depth\<rparr>"
  have k: "insert (cs_key sys s) (Mapping.keys (ck_visited c)) = Mapping.keys (ck_visited c)" "cs_key sys s \<in> Mapping.keys (ck_visited c)"
    using Some by (auto simp: keys_is_none_rep)
  have "noted (c\<lparr>ck_visited := Mapping.update (cs_key sys s) ?seen (ck_visited c)\<rparr>)"
    using assms(2) Some by (auto simp: noted_def lookup_update')
  moreover have "grows c (c\<lparr>ck_visited := Mapping.update (cs_key sys s) ?seen (ck_visited c)\<rparr>)" by (rule grows_visited) (auto simp: k)
  moreover have "c' = (if depth < vs_depth seen then c\<lparr>ck_visited := Mapping.update (cs_key sys s) ?seen (ck_visited c)\<rparr> else c)" "kept" "visited"
    using Some assms(1) by (auto simp: visit_def Let_def)
  ultimately show ?thesis using assms(2) k by simp
qed

lemma final_reports: "noted (final sys s c) = noted c" "grows c (final sys s c)" "Mapping.keys (ck_visited (final sys s c)) = Mapping.keys (ck_visited c)"
  "ck_stack (final sys s c) = ck_stack c" "fst ` set (snd (cs_finals sys s)) \<subseteq> fst ` set (ck_results (final sys s c))"
proof -
  have f: "ck_visited (fold add_final rs d) = ck_visited d \<and> ck_stack (fold add_final rs d) = ck_stack d \<and> ck_violations (fold add_final rs d) = ck_violations d \<and>
    ck_bounds (fold add_final rs d) = ck_bounds d \<and> fst ` set (ck_results (fold add_final rs d)) = fst ` set rs \<union> fst ` set (ck_results d)" for rs d
    by (induction rs arbitrary: d) (auto simp: add_final_def image_iff)
  obtain limited finals where cf: "cs_finals sys s = (limited, finals)" by force
  show "noted (final sys s c) = noted c" "grows c (final sys s c)" "Mapping.keys (ck_visited (final sys s c)) = Mapping.keys (ck_visited c)"
    "ck_stack (final sys s c) = ck_stack c" "fst ` set (snd (cs_finals sys s)) \<subseteq> fst ` set (ck_results (final sys s c))"
    by (auto simp: final_def cf Let_def noted_def grows_def reports_false_def reports_failure_def f)
qed


section \<open>What is covered\<close>

text \<open>States of one key are alike: what is a terminal, a property or an outcome of one is of the other, and what a move of
  one does, some move of the other does.\<close>

definition canonical :: "('s, 'o, 'n, 'e, 'f, 'v) checked_system \<Rightarrow> ('e check_error + 's) set \<Rightarrow> bool" where
  "canonical sys S0 =
     (\<forall>ms s ms' t. schedule sys S0 ms s \<longrightarrow> schedule sys S0 ms' t \<longrightarrow> cs_key sys s = cs_key sys t \<longrightarrow>
        cs_terminal sys s = cs_terminal sys t \<and> cs_evaluate sys s = cs_evaluate sys t \<and> cs_finals sys s = cs_finals sys t \<and>
        (\<forall>m \<in> available sys t. \<exists>m' \<in> available sys s.
           map_sum id (cs_key sys) (move_outcome sys s m') = map_sum id (cs_key sys) (move_outcome sys t m)))"

definition move_followed ::
  "('s, 'o, 'n, 'e, 'f, 'v) checked_system \<Rightarrow> ('s, 'o, 'n, 'e, 'f, 'v) checker \<Rightarrow> 's \<Rightarrow> ('o, 'n, 'e, 'f) searchMove \<Rightarrow> bool" where
  "move_followed sys c s m =
     (case move_outcome sys s m of Inl e \<Rightarrow> reports_failure c [] e | Inr t \<Rightarrow> cs_key sys t \<in> Mapping.keys (ck_visited c))"

text \<open>The moves a frame has yet to take.\<close>

definition to_take :: "('s, 'o, 'n, 'e, 'f) checkFrame \<Rightarrow> ('o, 'n, 'e, 'f) searchMove set" where
  "to_take f = set (drop (fr_next f) (fr_moves f))"

text \<open>Every state of the keys \<open>K\<close> is covered: judged, its finals recorded if it is terminal, its moves followed otherwise,
  or due on the stack. The move a turn is at is excused (\<open>X\<close>).\<close>

definition covered ::
  "('s \<times> ('o, 'n, 'e, 'f) searchMove) set \<Rightarrow> check_config \<Rightarrow> ('s, 'o, 'n, 'e, 'f, 'v) checked_system \<Rightarrow> ('e check_error + 's) set \<Rightarrow>
   ('s, 'o, 'n, 'e, 'f, 'v) checker \<Rightarrow> string set \<Rightarrow> bool" where
  "covered X cfg sys S0 c K =
     (\<forall>k \<in> K. \<exists>ms s. schedule sys S0 ms s \<and> cs_key sys s = k \<and> judged cfg sys c s (cc_props cfg) \<and>
        (if cs_terminal sys s then fst ` set (snd (cs_finals sys s)) \<subseteq> fst ` set (ck_results c)
         else (\<forall>m \<in> available sys s. (s, m) \<in> X \<or> move_followed sys c s m) \<or>
              (\<exists>f \<in> set (ck_stack c). fr_snap f = s \<and>
                 (\<forall>m \<in> available sys s. (s, m) \<in> X \<or> move_followed sys c s m \<or> m \<in> sprouts sys s (to_take f)))))"

lemma move_followed_grows: "move_followed sys c s m \<Longrightarrow> grows c c' \<Longrightarrow> move_followed sys c' s m"
  by (auto simp: move_followed_def grows_def split: sum.splits)

lemma covered_grows:
  assumes "covered X cfg sys S0 c K" "grows c c'" "X \<subseteq> X'"
    "\<And>f. f \<in> set (ck_stack c) \<Longrightarrow> (\<forall>m \<in> sprouts sys (fr_snap f) (to_take f). (fr_snap f, m) \<in> X') \<or>
      (\<exists>f' \<in> set (ck_stack c'). fr_snap f' = fr_snap f \<and>
        (\<forall>m \<in> sprouts sys (fr_snap f) (to_take f). (fr_snap f, m) \<in> X' \<or> m \<in> sprouts sys (fr_snap f) (to_take f')))"
  shows "covered X' cfg sys S0 c' K"
  unfolding covered_def
proof
  fix k assume "k \<in> K"
  then obtain ms s where s: "schedule sys S0 ms s" "cs_key sys s = k" "judged cfg sys c s (cc_props cfg)" and
    t: "cs_terminal sys s \<Longrightarrow> fst ` set (snd (cs_finals sys s)) \<subseteq> fst ` set (ck_results c)" and
    e: "\<not> cs_terminal sys s \<Longrightarrow> (\<forall>m \<in> available sys s. (s, m) \<in> X \<or> move_followed sys c s m) \<or>
      (\<exists>f \<in> set (ck_stack c). fr_snap f = s \<and> (\<forall>m \<in> available sys s. (s, m) \<in> X \<or> move_followed sys c s m \<or> m \<in> sprouts sys s (to_take f)))"
    using assms(1) unfolding covered_def by metis
  have r: "fst ` set (ck_results c) \<subseteq> fst ` set (ck_results c')" using assms(2) by (simp add: grows_def)
  have x: "(s, m) \<in> X' \<or> move_followed sys c' s m" if "(s, m) \<in> X \<or> move_followed sys c s m" for m
    using that assms(3) move_followed_grows [OF _ assms(2)] by (elim disjE) auto
  show "\<exists>ms s. schedule sys S0 ms s \<and> cs_key sys s = k \<and> judged cfg sys c' s (cc_props cfg) \<and>
        (if cs_terminal sys s then fst ` set (snd (cs_finals sys s)) \<subseteq> fst ` set (ck_results c')
         else (\<forall>m \<in> available sys s. (s, m) \<in> X' \<or> move_followed sys c' s m) \<or>
              (\<exists>f \<in> set (ck_stack c'). fr_snap f = s \<and>
                 (\<forall>m \<in> available sys s. (s, m) \<in> X' \<or> move_followed sys c' s m \<or> m \<in> sprouts sys s (to_take f))))"
  proof (intro exI conjI)
    show "schedule sys S0 ms s" "cs_key sys s = k" by fact+
    show "judged cfg sys c' s (cc_props cfg)" by (rule judged_grows [OF s(3) assms(2)])
    show "if cs_terminal sys s then fst ` set (snd (cs_finals sys s)) \<subseteq> fst ` set (ck_results c')
         else (\<forall>m \<in> available sys s. (s, m) \<in> X' \<or> move_followed sys c' s m) \<or>
              (\<exists>f \<in> set (ck_stack c'). fr_snap f = s \<and>
                 (\<forall>m \<in> available sys s. (s, m) \<in> X' \<or> move_followed sys c' s m \<or> m \<in> sprouts sys s (to_take f)))"
    proof (cases "cs_terminal sys s")
      case True
      then show ?thesis using t r by simp
    next
      case False
      then consider "\<forall>m \<in> available sys s. (s, m) \<in> X \<or> move_followed sys c s m"
        | f where "f \<in> set (ck_stack c)" "fr_snap f = s" "\<forall>m \<in> available sys s. (s, m) \<in> X \<or> move_followed sys c s m \<or> m \<in> sprouts sys s (to_take f)"
        using e by blast
      then show ?thesis
      proof cases
        case 1
        then show ?thesis using False x by simp
      next
        case 2
        then show ?thesis using False x assms(4) [OF 2(1)] by simp metis
      qed
    qed
  qed
qed

lemma covered_cong:
  assumes "covered X cfg sys S0 c K" "grows c c'"
    "\<And>f. f \<in> set (ck_stack c) \<Longrightarrow> \<exists>f' \<in> set (ck_stack c'). fr_snap f' = fr_snap f \<and> to_take f \<subseteq> to_take f'"
  shows "covered X cfg sys S0 c' K"
proof (rule covered_grows [OF assms(1,2) subset_refl])
  fix f assume "f \<in> set (ck_stack c)"
  then obtain f' where f': "f' \<in> set (ck_stack c')" "fr_snap f' = fr_snap f" "to_take f \<subseteq> to_take f'" using assms(3) by blast
  have "sprouts sys (fr_snap f) (to_take f) \<subseteq> sprouts sys (fr_snap f) (to_take f')" by (rule sprouts_mono [OF f'(3)])
  then show "(\<forall>m \<in> sprouts sys (fr_snap f) (to_take f). (fr_snap f, m) \<in> X) \<or>
      (\<exists>f' \<in> set (ck_stack c'). fr_snap f' = fr_snap f \<and>
        (\<forall>m \<in> sprouts sys (fr_snap f) (to_take f). (fr_snap f, m) \<in> X \<or> m \<in> sprouts sys (fr_snap f) (to_take f')))"
    using f'(1,2) by (intro disjI2 bexI [of _ f']) auto
qed

text \<open>The move excused is followed after all.\<close>

lemma covered_followed:
  assumes "covered {(s, m)} cfg sys S0 c K" "move_followed sys c s m"
  shows "covered {} cfg sys S0 c K"
proof -
  have x: "(t, m') \<in> {(s, m)} \<or> move_followed sys c t m' \<longleftrightarrow> (t, m') \<in> {} \<or> move_followed sys c t m'" for t m' using assms(2) by auto
  show ?thesis using assms(1) unfolding covered_def disj_assoc [symmetric] x .
qed


section \<open>Arriving\<close>

text \<open>Every schedule is searched, not one of each class.\<close>

definition unreduced :: "check_config \<Rightarrow> bool" where
  "unreduced cfg = (\<not> cc_Reduce cfg \<or> cc_props cfg \<noteq> [])"

lemma persistent_all: "unreduced cfg \<Longrightarrow> persistent cfg sys s all sleep = all"
  by (auto simp: persistent_def unreduced_def)

lemma to_take_simps [simp]: "to_take (f\<lparr>fr_cut := b\<rparr>) = to_take f" "to_take (f\<lparr>fr_spent := sp\<rparr>) = to_take f"
  by (simp_all add: to_take_def)

lemma cut_top_frames:
  assumes "f \<in> set (ck_stack c)"
  shows "\<exists>f' \<in> set (ck_stack (cut_top c)). fr_snap f' = fr_snap f \<and> to_take f \<subseteq> to_take f'"
proof (cases "ck_stack c")
  case (Cons g rest)
  then have "ck_stack (cut_top c) = g\<lparr>fr_cut := True\<rparr> # rest" by (simp add: cut_top_stack)
  then show ?thesis using assms Cons by auto
qed (use assms in simp)

lemma to_take_expand: "to_take f \<subseteq> to_take (expand f)"
proof -
  have "\<exists>ys. fold (\<lambda>m moves. if containsMove moves m then moves else moves @ [m]) xs moves = moves @ ys" for xs moves
    by (induction xs arbitrary: moves) (simp_all, metis append.assoc)
  then obtain ys where "add_missing (fr_all f) (fr_moves f) = fr_moves f @ ys" by (metis add_missing_def)
  then show ?thesis by (auto simp: to_take_def expand_def)
qed

lemma enter_reports:
  assumes "enter cfg sys s depth sleep violated c = (child, c')" "noted c" "\<forall>p \<in> set violated. reports_false c p" "unreduced cfg"
  shows "grows c c'" "noted c'" "ck_stack c' = ck_stack c"
    "ck_bounds c' = [] \<Longrightarrow> Mapping.keys (ck_visited c') = insert (cs_key sys s) (Mapping.keys (ck_visited c))"
    "ck_bounds c' = [] \<Longrightarrow> cs_key sys s \<notin> Mapping.keys (ck_visited c) \<Longrightarrow>
      judged cfg sys c' s (cc_props cfg) \<and> (\<exists>f. child = Some f \<and> to_take f = set (movesOf sys s))"
    "\<And>f. child = Some f \<Longrightarrow> fr_snap f = s \<and> (\<forall>p \<in> set (fr_violated f). reports_false c' p)"
proof -
  let ?k = "cs_key sys s"
  obtain kept visited c1 where v: "visit cfg sys s depth violated c = (kept, visited, c1)" by (metis prod_cases3)
  note r = visit_reports [OF v assms(2,3)]
  define moves where "moves = (if visited then wanted ?k c1 (movesOf sys s) else movesOf sys s)"
  have g: "grows c1 (c1\<lparr>ck_visited := mark_explored ?k names (ck_visited c1)\<rparr>)" for names
    by (rule grows_visited) (simp add: mark_explored_def)
  have cv: "grows c c1" "noted c1" using r by blast+
  have c': "if kept \<and> \<not> (visited \<and> moves = []) then c' = c1\<lparr>ck_visited := mark_explored ?k (sm_name ` set moves) (ck_visited c1)\<rparr> else c' = c1"
    and ch: "child = (if kept \<and> \<not> (visited \<and> moves = []) then
      Some \<lparr>fr_snap = s, fr_key = ?k, fr_depth = depth, fr_spent = nothing_spent, fr_all = movesOf sys s, fr_moves = moves, fr_next = 0, fr_sleep = sleep,
        fr_full = False, fr_cut = False, fr_violated = violated @ vs_violated (the (Mapping.lookup (ck_visited c1) ?k))\<rparr> else None)"
    using assms(1) by (auto simp: enter_def v Let_def moves_def persistent_all [OF assms(4)] split: if_splits)
  show gr: "grows c c'" using grows_trans [OF cv(1) g] cv(1) c' by (auto split: if_splits)
  show "noted c'" using noted_mark_explored [OF cv(2)] cv(2) c' by (auto split: if_splits)
  show "ck_stack c' = ck_stack c" using r c' by (auto split: if_splits)
  have k: "Mapping.keys (ck_visited c') = Mapping.keys (ck_visited c1)" using c' by (auto simp: mark_explored_def split: if_splits)
  have b: "ck_bounds c' = [] \<Longrightarrow> kept" using r c' by (auto split: if_splits)
  show "ck_bounds c' = [] \<Longrightarrow> Mapping.keys (ck_visited c') = insert ?k (Mapping.keys (ck_visited c))" using r b k by auto
  show "judged cfg sys c' s (cc_props cfg) \<and> (\<exists>f. child = Some f \<and> to_take f = set (movesOf sys s))"
    if "ck_bounds c' = []" "?k \<notin> Mapping.keys (ck_visited c)"
  proof -
    have kv: "kept" "\<not> visited" using b [OF that(1)] that(2) r by auto
    then have "judged cfg sys c1 s (cc_props cfg)" using r by blast
    moreover have "grows c1 c'" using g c' by (auto split: if_splits)
    ultimately have "judged cfg sys c' s (cc_props cfg)" by (rule judged_grows)
    then show ?thesis using kv ch by (simp add: moves_def to_take_def)
  qed
  show "fr_snap f = s \<and> (\<forall>p \<in> set (fr_violated f). reports_false c' p)" if f: "child = Some f" for f
  proof -
    have kept: "kept" using f ch by (auto split: if_splits)
    then have "?k \<in> Mapping.keys (ck_visited c1)" using r by auto
    then obtain seen where seen: "Mapping.lookup (ck_visited c1) ?k = Some seen" by (auto simp: keys_is_none_rep Option.is_none_def)
    have "\<forall>p \<in> set (vs_violated seen). reports_false c1 p" using cv(2) seen by (simp add: noted_def)
    moreover have "\<forall>p \<in> set violated. reports_false c1 p" using assms(3) grows_reports_false [OF cv(1)] by blast
    moreover have "reports_false c' p = reports_false c1 p" for p using c' by (auto split: if_splits)
    ultimately show ?thesis using f ch seen by (auto split: if_splits)
  qed
qed

text \<open>The states of the key arrived at are covered, if it had been visited before: states of a key are alike.\<close>

lemma covered_insert:
  assumes "covered X cfg sys S0 c K" "schedule sys S0 ms s" "judged cfg sys c s (cc_props cfg)"
    "cs_terminal sys s \<Longrightarrow> fst ` set (snd (cs_finals sys s)) \<subseteq> fst ` set (ck_results c)"
    "\<not> cs_terminal sys s \<Longrightarrow> \<exists>f \<in> set (ck_stack c). fr_snap f = s \<and> to_take f = set (movesOf sys s)"
  shows "covered X cfg sys S0 c (insert (cs_key sys s) K)"
proof -
  have "\<exists>f \<in> set (ck_stack c). fr_snap f = s \<and> (\<forall>m \<in> available sys s. (s, m) \<in> X \<or> move_followed sys c s m \<or> m \<in> sprouts sys s (to_take f))"
    if "\<not> cs_terminal sys s"
    using assms(5) [OF that] by (auto simp: available_def)
  then show ?thesis using assms(1-4) unfolding covered_def ball_simps(7) by (intro conjI exI [of _ ms] exI [of _ s]) simp_all
qed

lemma complete_reports:
  assumes "noted c" "\<forall>p \<in> set violated. reports_false c p" "schedule sys S0 ms s" "cs_terminal sys s" "c' = complete cfg sys s d violated c"
  shows "grows c c' \<and> noted c' \<and> ck_stack c' = ck_stack c \<and>
    (ck_bounds c' = [] \<longrightarrow> covered X cfg sys S0 c (Mapping.keys (ck_visited c)) \<longrightarrow>
      covered X cfg sys S0 c' (Mapping.keys (ck_visited c')) \<and> cs_key sys s \<in> Mapping.keys (ck_visited c'))"
proof -
  let ?k = "cs_key sys s"
  obtain kept visited c1 where v: "visit cfg sys s d violated c = (kept, visited, c1)" by (metis prod_cases3)
  note r = visit_reports [OF v assms(1,2)]
  have c': "c' = (if kept then final sys s c1 else c1)" by (simp add: assms(5) complete_def v)
  have g: "grows c1 c'" by (simp add: c' final_reports(2))
  have st: "ck_stack c' = ck_stack c" "Mapping.keys (ck_visited c') = Mapping.keys (ck_visited c1)" using r by (simp_all add: c' final_reports)
  have gc: "grows c c'" using grows_trans [OF _ g] r by blast
  have cov: "covered X cfg sys S0 c' (Mapping.keys (ck_visited c')) \<and> ?k \<in> Mapping.keys (ck_visited c')"
    if b: "ck_bounds c' = []" and c: "covered X cfg sys S0 c (Mapping.keys (ck_visited c))"
  proof -
    have kept: "kept" using r grows_bounds [OF g b] by blast
    have K: "Mapping.keys (ck_visited c') = insert ?k (Mapping.keys (ck_visited c))" using r kept st by simp
    have old: "covered X cfg sys S0 c' (Mapping.keys (ck_visited c))" by (rule covered_cong [OF c gc]) (use st in auto)
    show ?thesis
    proof (cases visited)
      case True
      then have "?k \<in> Mapping.keys (ck_visited c)" using r by blast
      then show ?thesis using K old by (simp add: insert_absorb)
    next
      case False
      have "judged cfg sys c' s (cc_props cfg)" by (rule judged_grows [OF _ g]) (use r kept False in blast)
      then show ?thesis unfolding K using covered_insert [OF old assms(3)] assms(4) final_reports(5) [of sys s c1] kept by (simp add: c')
    qed
  qed
  show ?thesis using gc r cov st final_reports(1) [of sys s c1] by (auto simp: c')
qed

lemma entered_covered:
  assumes "enter cfg sys s d sleep violated c = (child, c1)" "noted c" "\<forall>p \<in> set violated. reports_false c p" "unreduced cfg"
    "schedule sys S0 ms s" "\<not> cs_terminal sys s"
    "grows c1 c'" "Mapping.keys (ck_visited c') = Mapping.keys (ck_visited c1)" "ck_bounds c' = []"
    "\<And>f. f \<in> set (ck_stack c) \<Longrightarrow> \<exists>f' \<in> set (ck_stack c'). fr_snap f' = fr_snap f \<and> to_take f \<subseteq> to_take f'"
    "\<And>g. child = Some g \<Longrightarrow> \<exists>g' \<in> set (ck_stack c'). fr_snap g' = fr_snap g \<and> to_take g' = to_take g"
    "covered X cfg sys S0 c (Mapping.keys (ck_visited c))"
  shows "covered X cfg sys S0 c' (Mapping.keys (ck_visited c')) \<and> cs_key sys s \<in> Mapping.keys (ck_visited c')"
proof -
  note r = enter_reports [OF assms(1-4)]
  have b1: "ck_bounds c1 = []" by (rule grows_bounds [OF assms(7,9)])
  have K: "Mapping.keys (ck_visited c') = insert (cs_key sys s) (Mapping.keys (ck_visited c))" using r(4) [OF b1] assms(8) by simp
  have old: "covered X cfg sys S0 c' (Mapping.keys (ck_visited c))"
    by (rule covered_cong [OF assms(12) grows_trans [OF r(1) assms(7)]]) (rule assms(10))
  show ?thesis
  proof (cases "cs_key sys s \<in> Mapping.keys (ck_visited c)")
    case True
    then show ?thesis using K old by (simp add: insert_absorb)
  next
    case new: False
    obtain g where g: "child = Some g" "to_take g = set (movesOf sys s)" "judged cfg sys c1 s (cc_props cfg)" using r(5) [OF b1 new] by blast
    have "\<exists>f \<in> set (ck_stack c'). fr_snap f = s \<and> to_take f = set (movesOf sys s)"
      using assms(11) [OF g(1)] g(2) r(6) [OF g(1)] by auto
    then show ?thesis unfolding K using covered_insert [OF old assms(5) judged_grows [OF g(3) assms(7)]] assms(6) by simp
  qed
qed

lemma arrive_reports:
  assumes "noted c" "\<forall>p \<in> set (fr_violated f). reports_false c p" "unreduced cfg" "schedule sys S0 ms s" "c' = arrive cfg sys s f m spent c"
  shows "grows c c' \<and> noted c' \<and>
    (ck_bounds c' = [] \<longrightarrow> covered X cfg sys S0 c (Mapping.keys (ck_visited c)) \<longrightarrow>
      covered X cfg sys S0 c' (Mapping.keys (ck_visited c')) \<and> cs_key sys s \<in> Mapping.keys (ck_visited c'))"
proof (cases "cs_terminal sys s")
  case True
  then have c': "c' = complete cfg sys s (fr_depth f + 1) (fr_violated f) c" by (simp add: assms(5) arrive_def)
  show ?thesis using complete_reports [OF assms(1,2,4) True c'] by blast
next
  case False
  obtain child c1 where e: "enter cfg sys s (fr_depth f + 1) (childSleep cfg sys s f m) (fr_violated f) c = (child, c1)" by force
  note r = enter_reports [OF e assms(1-3)]
  define c2 where "c2 = (case Mapping.lookup (ck_visited c1) (cs_key sys s) of Some seen \<Rightarrow> if vs_cut seen then cut_top c1 else c1 | None \<Rightarrow> c1)"
  define c3 where "c3 = (if on_stack c2 (cs_key sys s) > 0 then on_top expand c2 else c2)"
  have a: "c' = (case child of None \<Rightarrow> c3 | Some child \<Rightarrow> push (child\<lparr>fr_spent := spent\<rparr>) c3)"
    by (simp only: assms(5) arrive_def Let_def e prod.case False if_False c2_def c3_def)
  have k: "Mapping.keys (ck_visited (cut_top c1)) = Mapping.keys (ck_visited c1)" by (simp add: cut_top_def mark_cut_def split: list.split)
  have same: "ck_violations (cut_top c1) = ck_violations c1" "ck_results (cut_top c1) = ck_results c1" "ck_bounds (cut_top c1) = ck_bounds c1"
    by (simp_all add: cut_top_def split: list.split)
  have f2: "ck_violations c2 = ck_violations c1" "ck_results c2 = ck_results c1" "ck_bounds c2 = ck_bounds c1"
    "Mapping.keys (ck_visited c2) = Mapping.keys (ck_visited c1)" "noted c2"
    using same k r(2) noted_cut_top by (auto simp: c2_def split: option.split)
  have s2: "\<exists>f' \<in> set (ck_stack c2). fr_snap f' = fr_snap f \<and> to_take f \<subseteq> to_take f'" if "f \<in> set (ck_stack c)" for f
    using that r(3) cut_top_frames [of f c1] by (auto simp: c2_def split: option.split)
  have f3: "ck_violations c3 = ck_violations c2" "ck_results c3 = ck_results c2" "ck_bounds c3 = ck_bounds c2" "ck_visited c3 = ck_visited c2"
    by (simp_all add: c3_def on_top_def split: list.split)
  have n3: "noted c3"
    using f2(5) by (auto simp: c3_def on_top_def noted_def reports_false_def split: list.splits)
  have s3: "\<exists>f' \<in> set (ck_stack c3). fr_snap f' = fr_snap f \<and> to_take f \<subseteq> to_take f'" if "f \<in> set (ck_stack c2)" for f
    using that to_take_expand [of f] by (auto simp: c3_def on_top_def split: list.splits)
  have f': "ck_violations c' = ck_violations c1" "ck_results c' = ck_results c1" "ck_bounds c' = ck_bounds c1"
    "Mapping.keys (ck_visited c') = Mapping.keys (ck_visited c1)"
    using f2 f3 by (simp_all add: a push_def split: option.split)
  have g1: "grows c1 c'" by (rule grows_same) (simp_all add: f')
  have rp: "reports_false c3 p = reports_false c1 p" for p using f2 f3 by (simp add: reports_false_def)
  have n': "noted c'"
    using n3 r(6) by (auto simp: a push_def noted_def reports_false_def rp [unfolded reports_false_def] split: option.split)
  have stk: "\<exists>f' \<in> set (ck_stack c'). fr_snap f' = fr_snap f \<and> to_take f \<subseteq> to_take f'" if fin: "f \<in> set (ck_stack c)" for f
  proof -
    obtain f2 where f2: "f2 \<in> set (ck_stack c2)" "fr_snap f2 = fr_snap f" "to_take f \<subseteq> to_take f2" using s2 [OF fin] by blast
    obtain f3 where f3: "f3 \<in> set (ck_stack c3)" "fr_snap f3 = fr_snap f2" "to_take f2 \<subseteq> to_take f3" using s3 [OF f2(1)] by blast
    have "f3 \<in> set (ck_stack c')" using f3(1) by (simp add: a push_def split: option.split)
    then show ?thesis using f2 f3 by (intro bexI [of _ f3]) auto
  qed
  have "\<exists>g' \<in> set (ck_stack c'). fr_snap g' = fr_snap g \<and> to_take g' = to_take g" if "child = Some g" for g
    using that by (simp add: a push_def)
  then show ?thesis
    using grows_trans [OF r(1) g1] n' entered_covered [OF e assms(1-4) False g1 f'(4) _ stk] by blast
qed

section \<open>A turn, and the search\<close>

definition complete_so_far ::
  "check_config \<Rightarrow> ('s, 'o, 'n, 'e, 'f, 'v) checked_system \<Rightarrow> ('e check_error + 's) set \<Rightarrow> ('s, 'o, 'n, 'e, 'f, 'v) checker \<Rightarrow> bool" where
  "complete_so_far cfg sys S0 c = (noted c \<and> (ck_bounds c = [] \<longrightarrow> covered {} cfg sys S0 c (Mapping.keys (ck_visited c))))"

lemma failed_reports:
  assumes "failed e depth c = Inr c'"
  shows "grows c c' \<and> (noted c \<longrightarrow> noted c') \<and> ck_stack c' = ck_stack c \<and> Mapping.keys (ck_visited c') = Mapping.keys (ck_visited c) \<and>
    (ck_bounds c' = [] \<longrightarrow> reports_failure c' [] e)"
  using assms by (cases e) (auto simp: failed_def violate_reports noted_violate)

lemma to_take_next:
  "fr_next f < length (fr_moves f) \<Longrightarrow> to_take f = insert (fr_moves f ! fr_next f) (to_take (f\<lparr>fr_next := fr_next f + 1\<rparr>))"
  by (simp add: to_take_def Cons_nth_drop_Suc [symmetric])

lemma to_take_reveal:
  "fr_next f \<le> length (fr_moves f) \<Longrightarrow> to_take (reveal m d f) = set (siblings d m) \<union> to_take f"
  by (simp add: to_take_def reveal_def insert_list_def Let_def)

lemma covered_taken:
  assumes "covered {} cfg sys S0 c K" "ck_stack c = f # rest" "fr_next f < length (fr_moves f)" "m = fr_moves f ! fr_next f"
    "d = fst (cs_make sys (fr_snap f) (enabledMove.truncate m))" "grows c c'"
    "ck_stack c' = reveal m d (f\<lparr>fr_next := fr_next f + 1\<rparr>) # rest"
  shows "covered {(fr_snap f, m)} cfg sys S0 c' K"
proof (rule covered_grows [OF assms(1,6)])
  let ?f = "f\<lparr>fr_next := fr_next f + 1\<rparr>"
  fix g assume g: "g \<in> set (ck_stack c)"
  show "(\<forall>m' \<in> sprouts sys (fr_snap g) (to_take g). (fr_snap g, m') \<in> {(fr_snap f, m)}) \<or>
      (\<exists>f' \<in> set (ck_stack c'). fr_snap f' = fr_snap g \<and>
        (\<forall>m' \<in> sprouts sys (fr_snap g) (to_take g). (fr_snap g, m') \<in> {(fr_snap f, m)} \<or> m' \<in> sprouts sys (fr_snap g) (to_take f')))"
  proof (cases "g = f")
    case True
    have t: "to_take (reveal m d ?f) = set (siblings d m) \<union> to_take ?f" by (rule to_take_reveal) (use assms(3) in simp)
    have i: "to_take f = insert m (to_take ?f)" unfolding assms(4) by (rule to_take_next [OF assms(3)])
    have "m' = m \<or> m' \<in> sprouts sys (fr_snap f) (to_take (reveal m d ?f))" if "m' \<in> sprouts sys (fr_snap f) (to_take f)" for m'
      using sprouts_insert [of m' sys "fr_snap f" m "to_take ?f", folded assms(5)] that unfolding i t .
    then show ?thesis unfolding assms(7) True by (intro disjI2 bexI [of _ "reveal m d ?f"]) auto
  next
    case False
    then show ?thesis using g assms(2,7) by (intro disjI2 bexI [of _ g]) auto
  qed
qed simp

lemma complete_take:
  assumes "complete_so_far cfg sys S0 c" "sound cfg sys S0 c" "unreduced cfg" "ck_stack c = f # rest" "fr_next f < length (fr_moves f)"
    "search_step cfg sys c = Inr c'"
  shows "complete_so_far cfg sys S0 c' \<and> grows c c'"
proof -
  define m where "m = fr_moves f ! fr_next f"
  define f1 where "f1 = f\<lparr>fr_next := fr_next f + 1\<rparr>"
  define c1 where "c1 = c\<lparr>ck_stack := f1 # rest, ck_visited := mark_explored (fr_key f) {sm_name m} (ck_visited c)\<rparr>"
  define d where "d = fst (cs_make sys (fr_snap f) (enabledMove.truncate m))"
  have t: "take_move cfg sys f1 m c1 = Inr c'" using assms(6) search_step_take [OF assms(4,5)] by (simp add: f1_def m_def c1_def)
  have n: "noted c" using assms(1) by (simp add: complete_so_far_def)
  have "noted (c\<lparr>ck_stack := f1 # rest\<rparr>)"
    by (rule noted_stack [OF n]) (use n assms(4) in \<open>auto simp: noted_def f1_def\<close>)
  from noted_mark_explored [OF this, of "fr_key f" "{sm_name m}"] have n1: "noted c1" by (simp add: c1_def)
  have g1: "grows c c1"
    by (rule grows_trans [OF grows_visited [of c "mark_explored (fr_key f) {sm_name m} (ck_visited c)"] grows_same])
      (simp_all add: c1_def mark_explored_def)
  obtain spent bound exceeded where sp: "spend (em_Kind m) (cc_budgets cfg) (fr_spent f1) = (spent, bound, exceeded)" by (metis prod_cases3)
  show ?thesis
  proof (cases "past_depth cfg (fr_depth f1 + 1) \<or> exceeded")
    case True
    then obtain b where b: "c' = cut_top (hit b c1)" using take_move_cut [OF sp True, of sys c1] t by auto
    have "ck_bounds (cut_top (hit b c1)) \<noteq> []" by (simp add: cut_top_def split: list.split)
    moreover have "grows c c'" unfolding b by (rule grows_trans [OF g1 grows_trans [OF grows_hit grows_cut_top]])
    ultimately show ?thesis using b noted_cut_top [of "hit b c1"] n1 by (simp add: complete_so_far_def)
  next
    case False
    define c2 where "c2 = counted (fr_depth f1 + 1) m d c1"
    have c2: "ck_stack c2 = reveal m d f1 # rest" "ck_visited c2 = ck_visited c1" "ck_violations c2 = ck_violations c" "ck_results c2 = ck_results c"
      "ck_bounds c2 = ck_bounds c"
      by (simp_all add: c2_def counted_def on_top_def c1_def)
    have g2: "grows c c2" by (rule grows_same) (simp_all add: c2, simp add: c1_def mark_explored_def)
    have n2: "noted c2" using n1 c2 unfolding noted_def by (simp add: c1_def reports_false_def)
    have fv: "\<forall>p \<in> set (fr_violated (reveal m d f1)). reports_false c2 p" using n2 c2(1) by (simp add: noted_def)
    have fr: "sound_frame cfg sys S0 f" using assms(2,4) by (simp add: sound_def)
    then obtain ms where ms: "schedule sys S0 ms (fr_snap f)" by (auto simp: sound_frame_def)
    have av: "\<not> cs_terminal sys (fr_snap f)" "m \<in> available sys (fr_snap f)" using fr assms(5) nth_mem by (auto simp: sound_frame_def m_def)
    have cov2: "covered {(fr_snap f, m)} cfg sys S0 c2 (Mapping.keys (ck_visited c2))" if "ck_bounds c2 = []"
    proof -
      have "Mapping.keys (ck_visited c2) = Mapping.keys (ck_visited c)" by (simp add: c2 c1_def mark_explored_def)
      moreover have "covered {} cfg sys S0 c (Mapping.keys (ck_visited c))" using that assms(1) by (simp add: c2 complete_so_far_def)
      ultimately show ?thesis
        using covered_taken [OF _ assms(4,5) m_def d_def g2, of cfg S0] c2(1) by (simp add: f1_def)
    qed
    have t2: "take_move cfg sys f1 m c1 =
      (case move_outcome sys (fr_snap f) m of
         Inl e \<Rightarrow> failed e (fr_depth f1 + 1) c2 | Inr s \<Rightarrow> Inr (arrive cfg sys s (reveal m d f1) m spent c2))"
    proof -
      have sn: "fr_snap f1 = fr_snap f" by (simp add: f1_def)
      have "spend (em_Kind m) (cc_budgets cfg) (fr_spent f1) = (spent, bound, False)" "\<not> past_depth cfg (fr_depth f1 + 1)" using sp False by auto
      from take_move_eq [OF this, of sys d c1] show ?thesis by (simp only: sn d_def c2_def)
    qed
    show ?thesis
    proof (cases "move_outcome sys (fr_snap f) m")
      case (Inl e)
      then have "failed e (fr_depth f1 + 1) c2 = Inr c'" using t t2 by simp
      note r = failed_reports [OF this]
      have "covered {} cfg sys S0 c' (Mapping.keys (ck_visited c'))" if b: "ck_bounds c' = []"
      proof (rule covered_followed)
        have "ck_bounds c2 = []" using r b grows_bounds by blast
        then show "covered {(fr_snap f, m)} cfg sys S0 c' (Mapping.keys (ck_visited c'))"
          using covered_cong [OF cov2, of c'] r by auto
        show "move_followed sys c' (fr_snap f) m" using r b Inl by (simp add: move_followed_def)
      qed
      moreover have "grows c c'" by (rule grows_trans [OF g2]) (use r in blast)
      ultimately show ?thesis using r n2 by (simp add: complete_so_far_def)
    next
      case (Inr s)
      then have c': "c' = arrive cfg sys s (reveal m d f1) m spent c2" using t t2 by simp
      note r = arrive_reports [OF n2 fv assms(3) schedule_move [OF ms av Inr] c', of "{(fr_snap f, m)}"]
      have "covered {} cfg sys S0 c' (Mapping.keys (ck_visited c'))" if b: "ck_bounds c' = []"
      proof (rule covered_followed)
        have "ck_bounds c2 = []" using r b grows_bounds by blast
        then have k: "covered {(fr_snap f, m)} cfg sys S0 c' (Mapping.keys (ck_visited c')) \<and> cs_key sys s \<in> Mapping.keys (ck_visited c')"
          using r b cov2 by blast
        then show "covered {(fr_snap f, m)} cfg sys S0 c' (Mapping.keys (ck_visited c'))" by blast
        show "move_followed sys c' (fr_snap f) m" using k Inr by (simp add: move_followed_def)
      qed
      moreover have "grows c c'" by (rule grows_trans [OF g2]) (use r in blast)
      ultimately show ?thesis using r by (simp add: complete_so_far_def)
    qed
  qed
qed

lemma complete_pop:
  assumes "complete_so_far cfg sys S0 c" "ck_stack c = f # rest" "length (fr_moves f) \<le> fr_next f"
  shows "complete_so_far cfg sys S0 (pop f c) \<and> grows c (pop f c)"
proof -
  define c1 where "c1 = c\<lparr>ck_stack := tl (ck_stack c), ck_onStack := Mapping.update (fr_key f) (on_stack c (fr_key f) - 1) (ck_onStack c)\<rparr>"
  have p: "pop f c = (if fr_cut f then cut_top c1 else c1)" by (simp add: pop_def c1_def Let_def)
  have n: "noted c1" using assms(1,2) by (auto simp: complete_so_far_def noted_def c1_def reports_false_def)
  have g: "grows c c1" by (rule grows_same) (simp_all add: c1_def)
  have k: "Mapping.keys (ck_visited (cut_top c1)) = Mapping.keys (ck_visited c1)" "ck_bounds (cut_top c1) = ck_bounds c1"
    by (simp_all add: cut_top_def mark_cut_def split: list.split)
  have e: "sprouts sys s {} = {}" for s
    by (auto elim: sprouts.induct)
  have c1: "covered {} cfg sys S0 c1 (Mapping.keys (ck_visited c1))" if "ck_bounds c1 = []"
  proof -
    have "covered {} cfg sys S0 c (Mapping.keys (ck_visited c))" using assms(1) that by (simp add: complete_so_far_def c1_def)
    then have "covered {} cfg sys S0 c1 (Mapping.keys (ck_visited c))"
    proof (rule covered_grows [OF _ g subset_refl])
      fix g assume "g \<in> set (ck_stack c)"
      then consider "g = f" | "g \<in> set (ck_stack c1)" using assms(2) by (auto simp: c1_def)
      then show "(\<forall>m \<in> sprouts sys (fr_snap g) (to_take g). (fr_snap g, m) \<in> {}) \<or>
        (\<exists>f' \<in> set (ck_stack c1). fr_snap f' = fr_snap g \<and>
          (\<forall>m \<in> sprouts sys (fr_snap g) (to_take g). (fr_snap g, m) \<in> {} \<or> m \<in> sprouts sys (fr_snap g) (to_take f')))"
      proof cases
        case 1
        then have "to_take g = {}" using assms(3) by (simp add: to_take_def)
        then show ?thesis by (simp add: e)
      qed auto
    qed
    then show ?thesis by (simp add: c1_def)
  qed
  have "covered {} cfg sys S0 (cut_top c1) (Mapping.keys (ck_visited (cut_top c1)))" if "ck_bounds (cut_top c1) = []"
    unfolding k by (rule covered_cong [OF c1]) (use that k cut_top_frames [of _ c1] in auto)
  moreover have "grows c (pop f c)" using g grows_trans [OF g grows_cut_top] by (simp add: p)
  ultimately show ?thesis using c1 n noted_cut_top [OF n] by (simp add: p complete_so_far_def)
qed

lemma complete_search_step:
  assumes "complete_so_far cfg sys S0 c" "sound cfg sys S0 c" "unreduced cfg" "ck_stack c \<noteq> []" "search_step cfg sys c = Inr c'"
  shows "complete_so_far cfg sys S0 c' \<and> grows c c'"
proof -
  obtain f rest where st: "ck_stack c = f # rest" using assms(4) by (cases "ck_stack c") auto
  show ?thesis
  proof (cases "fr_next f < length (fr_moves f)")
    case False
    then have "c' = pop f c" using assms(5) search_step_pop [OF st] by simp
    then show ?thesis using complete_pop [OF assms(1) st] False by simp
  qed (rule complete_take [OF assms(1-3) st _ assms(5)])
qed


lemma covered_nothing [simp]: "covered X cfg sys S0 c {}"
  by (simp add: covered_def)

lemma complete_search:
  assumes "search cfg sys s0 c = Some (Inr c')" "unreduced cfg" "Inr s0 \<in> S0" "complete_so_far cfg sys S0 c" "sound cfg sys S0 c" "ck_stack c = []"
  shows "complete_so_far cfg sys S0 c' \<and> grows c c' \<and> ck_stack c' = [] \<and>
    (ck_bounds c' = [] \<longrightarrow> (\<forall>s. cs_stabilize sys s0 = Inr s \<longrightarrow> cs_key sys s \<in> Mapping.keys (ck_visited c')) \<and>
      (\<forall>e. cs_stabilize sys s0 = Inl e \<longrightarrow> reports_failure c' [] e))"
proof -
  have n: "noted c" and cov: "ck_bounds c = [] \<Longrightarrow> covered {} cfg sys S0 c (Mapping.keys (ck_visited c))"
    using assms(4) by (simp_all add: complete_so_far_def)
  have bn: "\<forall>p \<in> set []. reports_false c p" by simp
  show ?thesis
  proof (cases "cs_stabilize sys s0")
    case (Inl e)
    then have "failed e 0 c = Inr c'" using assms(1) by (simp add: search_def)
    note r = failed_reports [OF this]
    have "covered {} cfg sys S0 c' (Mapping.keys (ck_visited c'))" if b: "ck_bounds c' = []"
      using covered_cong [OF cov, of c'] r b grows_bounds by auto
    then show ?thesis using r n Inl assms(6) by (simp add: complete_so_far_def)
  next
    case (Inr s)
    have sc: "schedule sys S0 [] s" using assms(3) Inr by (rule schedule_start)
    have st: "stands cfg sys S0 s 0" using sc by (auto simp: stands_def intro!: exI [of _ "[]"])
    show ?thesis
    proof (cases "cs_terminal sys s")
      case True
      then have c': "c' = complete cfg sys s 0 [] c" using assms(1) Inr by (simp add: search_def)
      note r = complete_reports [OF n bn sc True c', of "{}"]
      have "ck_bounds c' = [] \<Longrightarrow> ck_bounds c = []" using r grows_bounds by blast
      then show ?thesis using r cov Inr assms(6) by (simp add: complete_so_far_def)
    next
      case False
      obtain child c1 where e: "enter cfg sys s 0 [] [] c = (child, c1)" by force
      note r = enter_reports [OF e n bn assms(2)]
      have stk: "\<exists>f' \<in> set (ck_stack d). fr_snap f' = fr_snap f \<and> to_take f \<subseteq> to_take f'" if "f \<in> set (ck_stack c)" for f d
        using that assms(6) by simp
      note ec = entered_covered [OF e n bn assms(2) sc False _ _ _ stk]
      show ?thesis
      proof (cases child)
        case None
        then have c': "c' = c1" using assms(1) Inr False e by (simp add: search_def)
        have "covered {} cfg sys S0 c1 (Mapping.keys (ck_visited c1)) \<and> cs_key sys s \<in> Mapping.keys (ck_visited c1)" if b: "ck_bounds c1 = []"
          by (rule ec [OF grows_refl refl b]) (use None cov grows_bounds [OF r(1) b] in auto)
        then show ?thesis using r(1-3) Inr assms(6) by (simp add: c' complete_so_far_def)
      next
        case (Some f)
        have l: "turn_loop cfg sys (push f c1) = Some (Inr c')" using assms(1) Inr False e Some by (simp add: search_def)
        define c2 where "c2 = push f c1"
        have so: "sound cfg sys S0 c2" unfolding c2_def
          by (rule sound_push [OF sound_enter [OF assms(5) st e] sound_root [OF sc False e [unfolded Some]]])
        have c2: "ck_visited c2 = ck_visited c1" "ck_violations c2 = ck_violations c1" "ck_results c2 = ck_results c1" "ck_bounds c2 = ck_bounds c1" "ck_stack c2 = [f]"
          using r(3) assms(6) by (simp_all add: c2_def push_def)
        have g: "grows c1 c2" by (rule grows_same) (simp_all add: c2)
        have gc: "grows c c2" by (rule grows_trans [OF r(1) g])
        have "noted c2" using r(2) r(6) [OF Some] c2 unfolding noted_def reports_false_def by simp
        moreover have k2: "covered {} cfg sys S0 c2 (Mapping.keys (ck_visited c2)) \<and> cs_key sys s \<in> Mapping.keys (ck_visited c2)" if b: "ck_bounds c2 = []"
          by (rule ec [OF g _ b]) (use Some c2 cov grows_bounds [OF gc b] in auto)
        ultimately have co: "complete_so_far cfg sys S0 c2" by (simp add: complete_so_far_def)
        define P where "P d = (complete_so_far cfg sys S0 d \<and> sound cfg sys S0 d \<and> grows c2 d)" for d
        have "P c' \<and> ck_stack c' = []"
        proof (rule turn_loop_invariant [OF l [folded c2_def], of P])
          show "P c2" using co so by (simp add: P_def)
          fix d d' assume d: "P d" "ck_stack d \<noteq> []" "search_step cfg sys d = Inr d'"
          have "complete_so_far cfg sys S0 d' \<and> grows d d'" by (rule complete_search_step [OF _ _ assms(2) d(2,3)]) (use d(1) in \<open>simp_all add: P_def\<close>)
          moreover have "sound cfg sys S0 d'" by (rule sound_search_step [OF _ d(2,3)]) (use d(1) in \<open>simp add: P_def\<close>)
          moreover have "grows c2 d" using d(1) by (simp add: P_def)
          ultimately show "P d'" using grows_trans by (auto simp: P_def)
        qed
        then have P: "complete_so_far cfg sys S0 c'" "grows c2 c'" "ck_stack c' = []" by (simp_all add: P_def)
        have "cs_key sys s \<in> Mapping.keys (ck_visited c')" if "ck_bounds c' = []"
          using k2 [OF grows_bounds [OF P(2) that]] P(2) by (auto simp: grows_def)
        then show ?thesis using P grows_trans [OF gc P(2)] Inr by simp
      qed
    qed
  qed
qed

lemma covered_emptied:
  assumes "covered {} cfg sys S0 c K" "ck_stack c = []" "k \<in> K"
  shows "\<exists>ms s. schedule sys S0 ms s \<and> cs_key sys s = k \<and> judged cfg sys c s (cc_props cfg) \<and>
    (cs_terminal sys s \<longrightarrow> fst ` set (snd (cs_finals sys s)) \<subseteq> fst ` set (ck_results c)) \<and>
    (\<not> cs_terminal sys s \<longrightarrow> (\<forall>m \<in> available sys s. move_followed sys c s m))"
proof -
  obtain ms s where s: "schedule sys S0 ms s" "cs_key sys s = k" "judged cfg sys c s (cc_props cfg)"
    "if cs_terminal sys s then fst ` set (snd (cs_finals sys s)) \<subseteq> fst ` set (ck_results c)
     else (\<forall>m \<in> available sys s. (s, m) \<in> {} \<or> move_followed sys c s m) \<or>
       (\<exists>f \<in> set (ck_stack c). fr_snap f = s \<and> (\<forall>m \<in> available sys s. (s, m) \<in> {} \<or> move_followed sys c s m \<or> m \<in> sprouts sys s (to_take f)))"
    using bspec [OF assms(1) [unfolded covered_def] assms(3)] by (elim exE conjE)
  then show ?thesis using assms(2) by (intro exI [of _ ms] exI [of _ s]) auto
qed

text \<open>With nothing left to do and every start searched, nothing is left out.\<close>

lemma complete_starts:
  assumes "complete_so_far cfg sys S0 c" "ck_stack c = []" "ck_bounds c = []" "canonical sys S0"
    "\<And>s0 s. Inr s0 \<in> S0 \<Longrightarrow> cs_stabilize sys s0 = Inr s \<Longrightarrow> cs_key sys s \<in> Mapping.keys (ck_visited c)"
    "\<And>s0 e. Inr s0 \<in> S0 \<Longrightarrow> cs_stabilize sys s0 = Inl e \<Longrightarrow> reports_failure c [] e"
  shows "(\<forall>ms s. schedule sys S0 ms s \<longrightarrow>
      cs_key sys s \<in> Mapping.keys (ck_visited c) \<and> judged cfg sys c s (cc_props cfg) \<and>
      (cs_terminal sys s \<longrightarrow> fst ` set (snd (cs_finals sys s)) \<subseteq> fst ` set (ck_results c))) \<and>
    (\<forall>ms e. fails_after sys S0 ms e \<longrightarrow> reports_failure c [] e)"
proof -
  have c: "covered {} cfg sys S0 c (Mapping.keys (ck_visited c))" using assms(1,3) by (simp add: complete_so_far_def)
  have rep: "\<exists>t. cs_terminal sys t = cs_terminal sys s \<and> judged cfg sys c t (cc_props cfg) \<and> cs_evaluate sys t = cs_evaluate sys s \<and>
      cs_finals sys t = cs_finals sys s \<and> (cs_terminal sys t \<longrightarrow> fst ` set (snd (cs_finals sys t)) \<subseteq> fst ` set (ck_results c)) \<and>
      (\<not> cs_terminal sys t \<longrightarrow> (\<forall>m \<in> available sys t. move_followed sys c t m)) \<and>
      (\<forall>m \<in> available sys s. \<exists>m' \<in> available sys t. map_sum id (cs_key sys) (move_outcome sys t m') = map_sum id (cs_key sys) (move_outcome sys s m))"
    if s: "schedule sys S0 ms s" "cs_key sys s \<in> Mapping.keys (ck_visited c)" for ms s
  proof -
    obtain ms' t where t: "schedule sys S0 ms' t" "cs_key sys t = cs_key sys s" "judged cfg sys c t (cc_props cfg)"
      "cs_terminal sys t \<longrightarrow> fst ` set (snd (cs_finals sys t)) \<subseteq> fst ` set (ck_results c)"
      "\<not> cs_terminal sys t \<longrightarrow> (\<forall>m \<in> available sys t. move_followed sys c t m)"
      using covered_emptied [OF c assms(2) s(2)] by blast
    have "cs_terminal sys t = cs_terminal sys s \<and> cs_evaluate sys t = cs_evaluate sys s \<and> cs_finals sys t = cs_finals sys s \<and>
      (\<forall>m \<in> available sys s. \<exists>m' \<in> available sys t. map_sum id (cs_key sys) (move_outcome sys t m') = map_sum id (cs_key sys) (move_outcome sys s m))"
      using assms(4) t(1,2) s(1) unfolding canonical_def by blast
    then show ?thesis using t(3-5) by (intro exI [of _ t]) simp
  qed
  have next_move: "case move_outcome sys s m of Inl e \<Rightarrow> reports_failure c [] e | Inr t \<Rightarrow> cs_key sys t \<in> Mapping.keys (ck_visited c)"
    if s: "schedule sys S0 ms s" "cs_key sys s \<in> Mapping.keys (ck_visited c)" "\<not> cs_terminal sys s" "m \<in> available sys s" for ms s m
  proof -
    obtain t m' where "move_followed sys c t m'" "map_sum id (cs_key sys) (move_outcome sys t m') = map_sum id (cs_key sys) (move_outcome sys s m)"
      using rep [OF s(1,2)] s(3,4) by metis
    then show ?thesis by (cases "move_outcome sys t m'"; cases "move_outcome sys s m") (auto simp: move_followed_def)
  qed
  have v: "cs_key sys s \<in> Mapping.keys (ck_visited c)" if "schedule sys S0 ms s" for ms s
    using that
  proof induction
    case (schedule_move ms s m t)
    then show ?case using next_move [of ms s m] by simp
  qed (rule assms(5))
  have "reports_failure c [] e" if "fails_after sys S0 ms e" for ms e
    using that
  proof cases
    case (fails_move ms s m)
    then show ?thesis using next_move [OF _ v] by fastforce
  qed (rule assms(6))
  moreover have "judged cfg sys c s (cc_props cfg) \<and> (cs_terminal sys s \<longrightarrow> fst ` set (snd (cs_finals sys s)) \<subseteq> fst ` set (ck_results c))"
    if s: "schedule sys S0 ms s" for ms s
  proof -
    obtain t where t: "cs_terminal sys t = cs_terminal sys s" "judged cfg sys c t (cc_props cfg)" "cs_evaluate sys t = cs_evaluate sys s"
      "cs_finals sys t = cs_finals sys s" "cs_terminal sys t \<longrightarrow> fst ` set (snd (cs_finals sys t)) \<subseteq> fst ` set (ck_results c)"
      using rep [OF s v [OF s]] by blast
    show ?thesis using t(2,5) unfolding judged_def false_at_def t(1,3,4) by blast
  qed
  ultimately show ?thesis using v by blast
qed

end
