(* ===== verification/Check_Report.thy ===== *)
theory Check_Report
  imports Check_Ends Check_Complete
begin

text \<open>
  \<open>Check\<close>, its report, and what a report means: the search from every state the invocation may start in, one for
  each way of resolving the choices its start draws, and the verdict on what was found.

  The invocation's start is a parameter: from the picks resolving its choices, the number of alternatives of each
  choice it drew past them, and how it began. The horizon, the coverage gaps, the scope, the masses and the
  selection of features a report carries as well are left out.
\<close>

section \<open>Starts\<close>

text \<open>An invocation begins in a state, is refused (the check ends), or fails to begin (a violation).\<close>

datatype ('s, 'e) beginning = Begun 's | Begin_refused "'e check_error" | Begin_fails "'e check_error"

definition start_alternatives :: "nat list \<Rightarrow> nat list \<Rightarrow> nat list list" where
  "start_alternatives picks drawn = map (\<lambda>others. picks @ others) (alternatives drawn)"

definition searchFrom ::
  "check_config \<Rightarrow> ('s, 'o, 'n, 'e, 'f, 'v) checked_system \<Rightarrow> (nat list \<Rightarrow> nat list \<times> ('s, 'e) beginning) \<Rightarrow> nat list \<Rightarrow>
   ('s, 'o, 'n, 'e, 'f, 'v) checker \<Rightarrow> ('e check_error + nat list list \<times> ('s, 'o, 'n, 'e, 'f, 'v) checker) option" where
  "searchFrom cfg sys starter picks c =
     (let (drawn, began) = starter picks; others = start_alternatives picks drawn
      in case began of
           Begin_refused e \<Rightarrow> Some (Inl e)
         | Begin_fails e \<Rightarrow> Some (Inr (others, violate \<lparr>vi_Kind = ViolationFailure, vi_Name = [], vi_Err = Some e, vi_Depth = 0\<rparr> c))
         | Begun s \<Rightarrow>
             (case search cfg sys s c of
                None \<Rightarrow> None | Some (Inl e) \<Rightarrow> Some (Inl e) | Some (Inr c) \<Rightarrow> Some (Inr (others, c))))"

text \<open>The loop of \<open>Check\<close> over the starts.\<close>

partial_function (option) check_starts ::
  "check_config \<Rightarrow> ('s, 'o, 'n, 'e, 'f, 'v) checked_system \<Rightarrow> (nat list \<Rightarrow> nat list \<times> ('s, 'e) beginning) \<Rightarrow> nat list list \<Rightarrow>
   ('s, 'o, 'n, 'e, 'f, 'v) checker \<Rightarrow> ('e check_error + ('s, 'o, 'n, 'e, 'f, 'v) checker) option" where
  "check_starts cfg sys starter pending c =
     (case pending of
        [] \<Rightarrow> Some (Inr c)
      | picks # rest \<Rightarrow>
          (case searchFrom cfg sys starter picks c of
             None \<Rightarrow> None
           | Some (Inl e) \<Rightarrow> Some (Inl e)
           | Some (Inr (others, c)) \<Rightarrow> check_starts cfg sys starter (rest @ others) c))"

declare check_starts.simps [code]

section \<open>The report\<close>

datatype CheckVerdict = CheckExhaustive | CheckWithinBounds | CheckViolation | CheckDivergent

record 'e CheckReport =
  cr_Verdict :: CheckVerdict
  cr_States :: nat
  cr_Moves :: nat
  cr_MaxDepth :: nat
  cr_BoundsHit :: "string list"
  cr_Violations :: "'e Violation list"
  cr_Divergent :: "(string \<times> string list) list"
  cr_Finals :: "(string \<times> (string \<times> string) list) list"

text \<open>A final's values are a map, by feature.\<close>

definition feature_values :: "(string \<times> (string \<times> string) list) list \<Rightarrow> string \<Rightarrow> string list" where
  "feature_values finals feature = sort (remdups (List.map_filter (\<lambda>r. map_of (snd r) feature) finals))"

definition divergences :: "(string \<times> (string \<times> string) list) list \<Rightarrow> (string \<times> string list) list" where
  "divergences finals =
     filter (\<lambda>(feature, values). length values \<ge> 2)
       (map (\<lambda>feature. (feature, feature_values finals feature)) (sort (remdups (concat (map (\<lambda>r. map fst (snd r)) finals)))))"

definition check_result :: "('s, 'o, 'n, 'e, 'f, (string \<times> string) list) checker \<Rightarrow> 'e CheckReport" where
  "check_result c =
     (let finals = sort_key fst (ck_results c); divergent = divergences finals
      in \<lparr>cr_Verdict =
            (if ck_violations c \<noteq> [] then CheckViolation
             else if divergent \<noteq> [] then CheckDivergent
             else if ck_bounds c \<noteq> [] then CheckWithinBounds else CheckExhaustive),
          cr_States = Mapping.size (ck_visited c), cr_Moves = ck_moves c, cr_MaxDepth = ck_maxDepth c, cr_BoundsHit = ck_bounds c,
          cr_Violations = ck_violations c, cr_Divergent = divergent, cr_Finals = finals\<rparr>)"

definition Check ::
  "check_config \<Rightarrow> ('s, 'o, 'n, 'e, 'f, (string \<times> string) list) checked_system \<Rightarrow> (nat list \<Rightarrow> nat list \<times> ('s, 'e) beginning) \<Rightarrow>
   ('e check_error + 'e CheckReport) option" where
  "Check cfg sys starter =
     (case check_starts cfg sys starter [[]] new_checker of
        None \<Rightarrow> None | Some (Inl e) \<Rightarrow> Some (Inl e) | Some (Inr c) \<Rightarrow> Some (Inr (check_result c)))"

section \<open>The starts an invocation has\<close>

inductive_set picks_from :: "(nat list \<Rightarrow> nat list \<times> ('s, 'e) beginning) \<Rightarrow> nat list set \<Rightarrow> nat list set" for starter P where
  picks_base: "p \<in> P \<Longrightarrow> p \<in> picks_from starter P"
| picks_draw: "p \<in> picks_from starter P \<Longrightarrow> q \<in> set (start_alternatives p (fst (starter p))) \<Longrightarrow> q \<in> picks_from starter P"

definition start_picks :: "(nat list \<Rightarrow> nat list \<times> ('s, 'e) beginning) \<Rightarrow> nat list set" where
  "start_picks starter = picks_from starter {[]}"

definition starts :: "(nat list \<Rightarrow> nat list \<times> ('s, 'e) beginning) \<Rightarrow> ('e check_error + 's) set" where
  "starts starter =
     {x. \<exists>p \<in> start_picks starter. (\<exists>s. snd (starter p) = Begun s \<and> x = Inr s) \<or> (\<exists>e. snd (starter p) = Begin_fails e \<and> x = Inl e)}"

lemma starts_Begun: "p \<in> start_picks starter \<Longrightarrow> snd (starter p) = Begun s \<Longrightarrow> Inr s \<in> starts starter"
  by (auto simp: starts_def)

lemma starts_fails: "p \<in> start_picks starter \<Longrightarrow> snd (starter p) = Begin_fails e \<Longrightarrow> Inl e \<in> starts starter"
  by (auto simp: starts_def)

lemma start_picks_draw: "p \<in> start_picks starter \<Longrightarrow> set (start_alternatives p (fst (starter p))) \<subseteq> start_picks starter"
  by (auto simp: start_picks_def intro: picks_draw)

lemma picks_from_insert:
  assumes "q \<in> picks_from starter (insert p P)"
  shows "q = p \<or> q \<in> picks_from starter (set (start_alternatives p (fst (starter p))) \<union> P)"
  using assms by induction (auto intro: picks_from.intros)

lemma searchFrom_cases:
  assumes "searchFrom cfg sys starter p c = Some (Inr (others, c'))"
  obtains e where "snd (starter p) = Begin_fails e" "others = start_alternatives p (fst (starter p))"
      "c' = violate \<lparr>vi_Kind = ViolationFailure, vi_Name = [], vi_Err = Some e, vi_Depth = 0\<rparr> c"
  | s0 where "snd (starter p) = Begun s0" "others = start_alternatives p (fst (starter p))" "search cfg sys s0 c = Some (Inr c')"
  using assms that by (cases "starter p") (auto simp: searchFrom_def Let_def split: beginning.splits option.splits sum.splits)

lemma check_starts_invariant:
  fixes sys :: "('s, 'o, 'n, 'e, 'f, 'v) checked_system"
  assumes "check_starts cfg sys starter pending c = Some (Inr c')" "P (set pending) c"
    "\<And>p Q c others c'. P (insert p Q) c \<Longrightarrow> searchFrom cfg sys starter p c = Some (Inr (others, c')) \<Longrightarrow> P (Q \<union> set others) c'"
  shows "P {} c'"
proof -
  define R where "R cfg' sys' starter' pending c r =
      (cfg' = cfg \<longrightarrow> sys' = sys \<longrightarrow> starter' = starter \<longrightarrow> P (set pending) c \<longrightarrow> (\<forall>c'. r = Inr c' \<longrightarrow> P {} c'))"
    for cfg' and sys' :: "('s, 'o, 'n, 'e, 'f, 'v) checked_system" and starter' pending c and r :: "'e check_error + ('s, 'o, 'n, 'e, 'f, 'v) checker"
  have "R cfg sys starter pending c (Inr c')"
  proof (rule check_starts.raw_induct [OF _ assms(1), of R])
    fix loop cfg' sys' starter' pending c r
    assume IH: "\<And>cfg sys starter pending c y. loop cfg sys starter pending c = Some y \<Longrightarrow> R cfg sys starter pending c y"
      and body: "(case pending of [] \<Rightarrow> Some (Inr c) | picks # rest \<Rightarrow>
          (case searchFrom cfg' sys' starter' picks c of None \<Rightarrow> None | Some (Inl e) \<Rightarrow> Some (Inl e)
           | Some (Inr (others, c)) \<Rightarrow> loop cfg' sys' starter' (rest @ others) c)) = Some r"
    show "R cfg' sys' starter' pending c r" unfolding R_def
    proof (intro impI allI)
      fix c' assume e: "cfg' = cfg" "sys' = sys" "starter' = starter" and p: "P (set pending) c" and r: "r = Inr c'"
      show "P {} c'"
      proof (cases pending)
        case Nil
        then show ?thesis using body p r by simp
      next
        case (Cons picks rest)
        then obtain others c1 where s: "searchFrom cfg sys starter picks c = Some (Inr (others, c1))" "loop cfg sys starter (rest @ others) c1 = Some r"
          using body e r by (auto split: option.splits sum.splits)
        have "P (set rest \<union> set others) c1" by (rule assms(3) [OF _ s(1)]) (use p Cons in simp)
        then show ?thesis using IH [OF s(2)] r by (simp add: R_def)
      qed
    qed
  qed
  then show ?thesis using assms(2) by (simp add: R_def)
qed

section \<open>Finals and divergences\<close>

lemma set_feature_values: "set (feature_values finals feature) = {v. \<exists>r \<in> set finals. map_of (snd r) feature = Some v}"
proof -
  have "set (List.map_filter g xs) = {v. \<exists>r \<in> set xs. g r = Some v}" for g :: "string \<times> (string \<times> string) list \<Rightarrow> string option" and xs
    by (induction xs) (auto simp: List.map_filter_simps split: option.splits)
  then show ?thesis by (simp add: feature_values_def)
qed

lemma distinct_feature_values [simp]: "distinct (feature_values finals feature)"
  by (simp add: feature_values_def)

lemma no_divergences:
  "divergences finals = [] \<longleftrightarrow>
    (\<forall>r \<in> set finals. \<forall>r' \<in> set finals. \<forall>feature v v'. map_of (snd r) feature = Some v \<longrightarrow> map_of (snd r') feature = Some v' \<longrightarrow> v = v')"
  (is "_ \<longleftrightarrow> ?agree")
proof -
  have two: "length (feature_values finals feature) \<ge> 2 \<longleftrightarrow> (\<exists>v \<in> set (feature_values finals feature). \<exists>v' \<in> set (feature_values finals feature). v \<noteq> v')"
    for feature
  proof -
    have "length (feature_values finals feature) = card (set (feature_values finals feature))" by (simp add: distinct_card)
    moreover have "card (set (feature_values finals feature)) \<ge> 2 \<longleftrightarrow>
        \<not> (\<forall>v \<in> set (feature_values finals feature). \<forall>v' \<in> set (feature_values finals feature). v = v')"
      using card_le_Suc0_iff_eq [of "set (feature_values finals feature)"] by (auto simp: not_less_eq_eq numeral_2_eq_2)
    ultimately show ?thesis by auto
  qed
  have "divergences finals = [] \<longleftrightarrow> (\<forall>r \<in> set finals. \<forall>feature \<in> fst ` set (snd r). \<not> length (feature_values finals feature) \<ge> 2)"
    by (auto simp: divergences_def filter_empty_conv image_iff)
  also have "\<dots> \<longleftrightarrow> ?agree"
  proof (intro iffI ballI allI impI)
    fix r r' feature v v'
    assume all: "\<forall>r \<in> set finals. \<forall>feature \<in> fst ` set (snd r). \<not> length (feature_values finals feature) \<ge> 2"
      and r: "r \<in> set finals" "r' \<in> set finals" "map_of (snd r) feature = Some v" "map_of (snd r') feature = Some v'"
    have "feature \<in> fst ` set (snd r)" using map_of_SomeD [OF r(3)] by (metis fst_conv image_eqI)
    then have "\<not> length (feature_values finals feature) \<ge> 2" using all r(1) by blast
    moreover have "v \<in> set (feature_values finals feature)" "v' \<in> set (feature_values finals feature)"
      using r by (auto simp: set_feature_values)
    ultimately show "v = v'" unfolding two by blast
  next
    fix r feature assume "?agree"
    then show "\<not> length (feature_values finals feature) \<ge> 2" unfolding two set_feature_values by blast
  qed
  finally show ?thesis .
qed

section \<open>What a report means\<close>

lemma check_starts_sound:
  assumes "check_starts cfg sys starter [[]] new_checker = Some (Inr c)"
  shows "sound cfg sys (starts starter) c"
proof -
  let ?S = "starts starter"
  define P where "P Q c = (Q \<subseteq> start_picks starter \<and> sound cfg sys ?S c)" for Q c
  have "P {} c"
  proof (rule check_starts_invariant [OF assms, of P])
    show "P (set [[]]) new_checker" by (auto simp: P_def sound_new start_picks_def intro: picks_base)
    fix p Q c others c' assume p: "P (insert p Q) c" and s: "searchFrom cfg sys starter p c = Some (Inr (others, c'))"
    have pp: "p \<in> start_picks starter" "Q \<subseteq> start_picks starter" "sound cfg sys ?S c" using p by (auto simp: P_def)
    show "P (Q \<union> set others) c'"
    proof (rule searchFrom_cases [OF s])
      fix e assume e: "snd (starter p) = Begin_fails e" "others = start_alternatives p (fst (starter p))"
        "c' = violate \<lparr>vi_Kind = ViolationFailure, vi_Name = [], vi_Err = Some e, vi_Depth = 0\<rparr> c"
      have "sound_violation cfg sys ?S \<lparr>vi_Kind = ViolationFailure, vi_Name = [], vi_Err = Some e, vi_Depth = 0\<rparr>"
        using starts_fails [OF pp(1) e(1)] by (auto simp: sound_violation_def)
      then show "P (Q \<union> set others) c'" using pp start_picks_draw [OF pp(1)] by (simp add: P_def e sound_violate)
    next
      fix s0 assume b: "snd (starter p) = Begun s0" "others = start_alternatives p (fst (starter p))" "search cfg sys s0 c = Some (Inr c')"
      then show "P (Q \<union> set others) c'"
        using pp start_picks_draw [OF pp(1)] sound_search [OF pp(3) starts_Begun [OF pp(1) b(1)] b(3)] by (simp add: P_def)
    qed
  qed
  then show ?thesis by (simp add: P_def)
qed

text \<open>A start is done: what it begins in was visited, and how it fails reported.\<close>

definition start_done ::
  "('s, 'o, 'n, 'e, 'f, 'v) checked_system \<Rightarrow> (nat list \<Rightarrow> nat list \<times> ('s, 'e) beginning) \<Rightarrow> ('s, 'o, 'n, 'e, 'f, 'v) checker \<Rightarrow> nat list \<Rightarrow> bool" where
  "start_done sys starter c p =
     (case snd (starter p) of
        Begun s0 \<Rightarrow>
          (case cs_stabilize sys s0 of Inr s \<Rightarrow> cs_key sys s \<in> Mapping.keys (ck_visited c) | Inl e \<Rightarrow> reports_failure c [] e)
      | Begin_fails e \<Rightarrow> reports_failure c [] e
      | Begin_refused e \<Rightarrow> False)"

lemma start_done_grows: "start_done sys starter c p \<Longrightarrow> grows c c' \<Longrightarrow> start_done sys starter c' p"
  by (auto simp: start_done_def grows_def split: beginning.splits sum.splits)

lemma check_starts_complete:
  assumes "check_starts cfg sys starter [[]] new_checker = Some (Inr c)" "unreduced cfg"
  shows "complete_so_far cfg sys (starts starter) c \<and> ck_stack c = [] \<and> (ck_bounds c = [] \<longrightarrow> (\<forall>p \<in> start_picks starter. start_done sys starter c p))"
proof -
  let ?S = "starts starter"
  define P where "P Q c = (Q \<subseteq> start_picks starter \<and> sound cfg sys ?S c \<and> complete_so_far cfg sys ?S c \<and> ck_stack c = [] \<and>
      (ck_bounds c = [] \<longrightarrow> (\<forall>p \<in> start_picks starter. start_done sys starter c p \<or> p \<in> picks_from starter Q)))" for Q c
  have "P {} c"
  proof (rule check_starts_invariant [OF assms(1), of P])
    have "complete_so_far cfg sys ?S new_checker" "ck_stack new_checker = []"
      by (simp_all add: complete_so_far_def noted_def new_checker_def covered_def)
    then show "P (set [[]]) new_checker" by (auto simp: P_def sound_new start_picks_def intro: picks_base)
    fix p Q c others c' assume p: "P (insert p Q) c" and s: "searchFrom cfg sys starter p c = Some (Inr (others, c'))"
    have pp: "p \<in> start_picks starter" "Q \<subseteq> start_picks starter" "sound cfg sys ?S c" "complete_so_far cfg sys ?S c" "ck_stack c = []"
      "ck_bounds c = [] \<Longrightarrow> \<forall>q \<in> start_picks starter. start_done sys starter c q \<or> q \<in> picks_from starter (insert p Q)" using p by (auto simp: P_def)
    have step: "P (Q \<union> set others) c'" if r: "complete_so_far cfg sys ?S c'" "sound cfg sys ?S c'" "grows c c'" "ck_stack c' = []"
      "others = start_alternatives p (fst (starter p))" "ck_bounds c' = [] \<Longrightarrow> start_done sys starter c' p"
    proof -
      have "start_done sys starter c' q \<or> q \<in> picks_from starter (Q \<union> set others)" if b: "ck_bounds c' = []" and q: "q \<in> start_picks starter" for q
      proof -
        consider "start_done sys starter c q" | "q \<in> picks_from starter (insert p Q)" using pp(6) [OF grows_bounds [OF r(3) b]] q by blast
        then show ?thesis
        proof cases
          case 2
          then show ?thesis using picks_from_insert [OF 2] r(5,6) b by (auto simp: Un_commute)
        qed (use start_done_grows r(3) in blast)
      qed
      then show ?thesis using r pp(1,2) start_picks_draw [OF pp(1)] by (simp add: P_def)
    qed
    show "P (Q \<union> set others) c'"
    proof (rule searchFrom_cases [OF s])
      fix e assume e: "snd (starter p) = Begin_fails e" "others = start_alternatives p (fst (starter p))"
        "c' = violate \<lparr>vi_Kind = ViolationFailure, vi_Name = [], vi_Err = Some e, vi_Depth = 0\<rparr> c"
      have "sound_violation cfg sys ?S \<lparr>vi_Kind = ViolationFailure, vi_Name = [], vi_Err = Some e, vi_Depth = 0\<rparr>"
        using starts_fails [OF pp(1) e(1)] by (auto simp: sound_violation_def)
      then have so: "sound cfg sys ?S c'" using pp(3) by (simp add: e sound_violate)
      have g: "grows c c'" by (simp add: e)
      have "covered {} cfg sys ?S c' (Mapping.keys (ck_visited c'))" if b: "ck_bounds c' = []"
        using covered_cong [OF _ g, of "{}" cfg sys ?S "Mapping.keys (ck_visited c)"] pp(4,5) grows_bounds [OF g b]
        by (simp add: complete_so_far_def e)
      then have "complete_so_far cfg sys ?S c'" using pp(4) by (simp add: complete_so_far_def e noted_violate)
      then show "P (Q \<union> set others) c'" by (rule step [OF _ so g _ e(2)]) (use pp(5) e in \<open>simp_all add: start_done_def violate_reports\<close>)
    next
      fix s0 assume b: "snd (starter p) = Begun s0" "others = start_alternatives p (fst (starter p))" "search cfg sys s0 c = Some (Inr c')"
      note i = starts_Begun [OF pp(1) b(1)]
      note r = complete_search [OF b(3) assms(2) i pp(4,3,5)]
      show "P (Q \<union> set others) c'"
        by (rule step [OF _ sound_search [OF pp(3) i b(3)] _ _ b(2)]) (use r b(1) in \<open>auto simp: start_done_def split: sum.split\<close>)
    qed
  qed
  moreover have "picks_from starter {} = {}" by (auto elim: picks_from.induct)
  ultimately show ?thesis by (simp add: P_def)
qed


lemma Check_result:
  assumes "Check cfg sys starter = Some (Inr r)"
  obtains c where "check_starts cfg sys starter [[]] new_checker = Some (Inr c)" "r = check_result c"
  using assms by (auto simp: Check_def split: option.splits sum.splits)

text \<open>C9: What a check reports, a schedule does: each violation is what a schedule inside the bounds ends in, in the moves
  reported (a property false or failing there, a deadlock or a failure its last move raised, a start that fails), each final is an
  outcome of the terminal state of one, the finals are in order without repetition, the states visited and the depth are within the
  bounds, and the verdict is a violation exactly when there is one.\<close>

theorem check_reports_schedules:
  assumes "Check cfg sys starter = Some (Inr r)"
  shows "(\<forall>v \<in> set (cr_Violations r). sound_violation cfg sys (starts starter) v) \<and>
    (\<forall>f \<in> set (cr_Finals r). sound_final cfg sys (starts starter) f) \<and>
    sorted (map fst (cr_Finals r)) \<and> distinct (map fst (cr_Finals r)) \<and>
    (cr_Verdict r = CheckViolation \<longleftrightarrow> cr_Violations r \<noteq> []) \<and>
    (0 < cb_States (cc_budget cfg) \<longrightarrow> int (cr_States r) \<le> cb_States (cc_budget cfg)) \<and>
    (0 < cb_Depth (cc_budget cfg) \<longrightarrow> int (cr_MaxDepth r) \<le> cb_Depth (cc_budget cfg))"
proof -
  obtain c where c: "check_starts cfg sys starter [[]] new_checker = Some (Inr c)" "r = check_result c" using Check_result [OF assms] .
  note s = check_starts_sound [OF c(1), unfolded sound_def]
  have "distinct (map fst (sort_key fst (ck_results c)))"
    using s by (simp add: distinct_map)
  then show ?thesis using s by (simp add: c(2) check_result_def Let_def)
qed

text \<open>C8: An exhaustive verdict on every schedule, rather than one of each class, means what it says: no start fails, no schedule ends in
  an error, no property is false or fails at a state one reaches, the finals of every terminal state one reaches are among those
  reported, and those agree on every feature, states of one key being alike.\<close>

theorem exhaustive_verdict:
  assumes "Check cfg sys starter = Some (Inr r)" "cr_Verdict r = CheckExhaustive" "unreduced cfg" "canonical sys (starts starter)"
  shows "(\<forall>p \<in> start_picks starter. \<exists>s0. snd (starter p) = Begun s0) \<and>
    (\<forall>ms e. \<not> fails_after sys (starts starter) ms e) \<and>
    (\<forall>ms s. schedule sys (starts starter) ms s \<longrightarrow>
      (\<forall>p \<in> set (cc_props cfg). \<not> false_at sys s p \<and> (\<forall>e. cs_evaluate sys s p \<noteq> Evaluation_fails e)) \<and>
      (cs_terminal sys s \<longrightarrow> fst ` set (snd (cs_finals sys s)) \<subseteq> fst ` set (cr_Finals r))) \<and>
    (\<forall>f \<in> set (cr_Finals r). \<forall>f' \<in> set (cr_Finals r). \<forall>feature v v'.
      map_of (snd f) feature = Some v \<longrightarrow> map_of (snd f') feature = Some v' \<longrightarrow> v = v')"
proof -
  obtain c where c: "check_starts cfg sys starter [[]] new_checker = Some (Inr c)" "r = check_result c" using Check_result [OF assms(1)] .
  have v: "ck_violations c = []" "ck_bounds c = []" "divergences (cr_Finals r) = []" "set (cr_Finals r) = set (ck_results c)"
    using assms(2) by (auto simp: c(2) check_result_def Let_def split: if_splits)
  have none: "\<not> reports_failure c n e" "\<not> reports_false c p" for n e p using v(1) by (simp_all add: reports_failure_def reports_false_def)
  note k = check_starts_complete [OF c(1) assms(3)]
  have done_all: "start_done sys starter c p" if "p \<in> start_picks starter" for p using k v(2) that by blast
  have b: "\<exists>s0. snd (starter p) = Begun s0" if "p \<in> start_picks starter" for p
    using done_all [OF that] none by (auto simp: start_done_def split: beginning.splits)
  have r: "case cs_stabilize sys s0 of Inr s \<Rightarrow> cs_key sys s \<in> Mapping.keys (ck_visited c) | Inl e \<Rightarrow> reports_failure c [] e"
    if s0: "Inr s0 \<in> starts starter" for s0
  proof -
    obtain p where "p \<in> start_picks starter" "snd (starter p) = Begun s0" using s0 by (auto simp: starts_def)
    then show ?thesis using done_all [of p] by (simp add: start_done_def)
  qed
  have "(\<forall>ms s. schedule sys (starts starter) ms s \<longrightarrow>
      cs_key sys s \<in> Mapping.keys (ck_visited c) \<and> judged cfg sys c s (cc_props cfg) \<and>
      (cs_terminal sys s \<longrightarrow> fst ` set (snd (cs_finals sys s)) \<subseteq> fst ` set (ck_results c))) \<and>
    (\<forall>ms e. fails_after sys (starts starter) ms e \<longrightarrow> reports_failure c [] e)"
    by (rule complete_starts) (use k v(2) assms(4) r in \<open>fastforce+\<close>)
  then show ?thesis using b none v(3,4) unfolding no_divergences judged_def by simp
qed

section \<open>A check ends\<close>

lemma check_starts_ends:
  assumes "finite_search cfg sys (starts starter) K N B" "sound cfg sys (starts starter) c" "set pending \<subseteq> start_picks starter"
    "\<forall>p \<in> start_picks starter. length p \<le> D"
  shows "\<exists>r. check_starts cfg sys starter pending c = Some r"
  using assms(2,3)
proof (induction pending arbitrary: c taking: "\<lambda>pending. sum_list (map (\<lambda>p. tree_weight (\<lambda>p. start_alternatives p (fst (starter p))) (D - length p) p) pending)"
    rule: measure_induct_rule)
  case (less pending)
  let ?w = "\<lambda>p. tree_weight (\<lambda>p. start_alternatives p (fst (starter p))) (D - length p) p"
  show ?case
  proof (cases pending)
    case Nil
    then show ?thesis by (subst check_starts.simps) simp
  next
    case (Cons p rest)
    have p: "p \<in> start_picks starter" "set rest \<subseteq> start_picks starter" using less.prems(2) Cons by auto
    have ends: "searchFrom cfg sys starter p c \<noteq> None"
    proof (cases "snd (starter p)")
      case (Begun s0)
      then show ?thesis using search_ends [OF assms(1) less.prems(1) starts_Begun [OF p(1) Begun]]
        by (cases "starter p") (auto simp: searchFrom_def Let_def split: sum.split)
    qed (cases "starter p"; simp add: searchFrom_def Let_def)+
    show ?thesis
    proof (cases "searchFrom cfg sys starter p c")
      case None
      then show ?thesis using ends by simp
    next
      case (Some x)
      show ?thesis
      proof (cases x)
        case (Inl e)
        then show ?thesis using Cons Some by (subst check_starts.simps) simp
      next
        case (Inr y)
        obtain others c1 where y: "y = (others, c1)" by force
        have s: "searchFrom cfg sys starter p c = Some (Inr (others, c1))" using Some Inr y by simp
        have o': "others = start_alternatives p (fst (starter p))" by (rule searchFrom_cases [OF s]) auto
        have sub: "set others \<subseteq> start_picks starter" unfolding o' by (rule start_picks_draw [OF p(1)])
        have so: "sound cfg sys (starts starter) c1"
        proof (rule searchFrom_cases [OF s])
          fix e assume e: "snd (starter p) = Begin_fails e" "c1 = violate \<lparr>vi_Kind = ViolationFailure, vi_Name = [], vi_Err = Some e, vi_Depth = 0\<rparr> c"
          have "sound_violation cfg sys (starts starter) \<lparr>vi_Kind = ViolationFailure, vi_Name = [], vi_Err = Some e, vi_Depth = 0\<rparr>"
            using starts_fails [OF p(1) e(1)] by (auto simp: sound_violation_def)
          then show ?thesis using less.prems(1) by (simp add: e sound_violate)
        next
          fix s0 assume "snd (starter p) = Begun s0" "search cfg sys s0 c = Some (Inr c1)"
          then show ?thesis using sound_search [OF less.prems(1) starts_Begun [OF p(1)]] by blast
        qed
        have "sum_list (map ?w others) < ?w p" unfolding o'
        proof (rule children_weigh_less)
          fix q assume q: "q \<in> set (start_alternatives p (fst (starter p)))"
          then have "length p < length q" using alternatives_longer by (fastforce simp: start_alternatives_def)
          moreover have "q \<in> start_picks starter" using start_picks_draw [OF p(1)] q by blast
          ultimately show "length p < length q \<and> length q \<le> D" using assms(4) by blast
        qed
        then have "sum_list (map ?w (rest @ others)) < sum_list (map ?w pending)" by (simp add: Cons)
        then have "\<exists>r. check_starts cfg sys starter (rest @ others) c1 = Some r"
          by (rule less.IH) (use so p(2) sub in auto)
        then show ?thesis using Cons s by (subst check_starts.simps) simp
      qed
    qed
  qed
qed

text \<open>C10: A check ends, in a report or in a refusal, when the start draws finitely many sequences of picks, finitely many moves are available
  in each state schedules reach, and either the depth is bounded or finitely many states are reachable.\<close>

theorem check_ends:
  assumes "finite (start_picks starter)" "\<forall>ms s. schedule sys (starts starter) ms s \<longrightarrow> finite (available sys s)"
    "0 < cb_Depth (cc_budget cfg) \<or> finite {s. \<exists>ms. schedule sys (starts starter) ms s}"
  shows "\<exists>r. Check cfg sys starter = Some r"
proof -
  have "starts starter \<subseteq> (\<lambda>p. case snd (starter p) of Begun s \<Rightarrow> Inr s | Begin_fails e \<Rightarrow> Inl e | Begin_refused e \<Rightarrow> Inl e) ` start_picks starter"
    by (force simp: starts_def)
  then have "finite (starts starter)" using assms(1) finite_subset by blast
  then have "\<exists>K N B. finite_search cfg sys (starts starter) K N B"
    by (intro finite_search_exists) (use assms(2,3) in blast)+
  then obtain K N B where f: "finite_search cfg sys (starts starter) K N B" by blast
  obtain D where "\<forall>n \<in> length ` start_picks starter. n \<le> D" using assms(1) by (metis finite_imageI finite_nat_set_iff_bounded_le)
  then have "\<exists>r. check_starts cfg sys starter [[]] new_checker = Some r"
    by (intro check_starts_ends [OF f sound_new]) (auto simp: start_picks_def intro: picks_base)
  then show ?thesis by (auto simp: Check_def split: sum.split prod.split)
qed

end
