(* ===== verification/Check_Examples.thy ===== *)
theory Check_Examples
  imports Check_Report
begin

text \<open>The results on the model checker at concrete systems, and a schedule the depth bound hides.\<close>

section \<open>A toss\<close>

text \<open>One move, which draws one of two alternatives; the start draws one as well, its second leading past the toss.\<close>

definition coin_system :: "(string, unit, string, unit, unit, (string \<times> string) list) checked_system" where
  "coin_system =
     \<lparr>cs_key = id,
      cs_enabled = (\<lambda>s. if s = ''start'' then [\<lparr>em_Owner = (), em_Token = 1, em_Node = None, em_Picks = [], em_Label = ''toss'', em_Kind = moveDecision, em_Fails = None\<rparr>] else []),
      cs_name = (\<lambda>s m. em_Label m), cs_footprint = (\<lambda>_ _. ()), cs_units = (\<lambda>_. []), cs_dependent = (\<lambda>_ _ _ _ _. True),
      cs_dynamic = (), cs_nothing = (),
      cs_make = (\<lambda>s m. (if em_Picks m = [] then [2] else [], Inr (if em_Picks m = [1] then ''tails'' else ''heads''))),
      cs_stabilize = Inr, cs_terminal = (\<lambda>s. s \<noteq> ''start''), cs_evaluate = (\<lambda>s p. Holds (s \<noteq> ''tails'')),
      cs_finals = (\<lambda>s. (False, [(s, [(''tossed'', ''yes'')])]))\<rparr>"

definition coin_start :: "nat list \<Rightarrow> nat list \<times> (string, unit) beginning" where
  "coin_start picks = (if picks = [] then ([2], Begun ''start'') else ([], Begun ''heads''))"

definition coin_config :: "string list \<Rightarrow> check_config" where
  "coin_config props = \<lparr>cc_budget = \<lparr>cb_Depth = 3, cb_States = 0\<rparr>, cc_Reduce = props \<noteq> [], cc_props = props, cc_budgets = DefaultBudgets\<rparr>"

lemma coin_violated:
  "case Check (coin_config [''no tails'']) coin_system coin_start of
     Some (Inr r) \<Rightarrow> map fst (cr_Finals r) = [''heads'', ''tails''] \<and>
       map (\<lambda>v. (vi_Kind v, vi_Name v, vi_Depth v)) (cr_Violations r) = [(ViolationProperty, ''no tails'', 1)]
   | _ \<Rightarrow> False"
  by code_simp

lemma coin_exhaustive:
  "case Check (coin_config []) coin_system coin_start of Some (Inr r) \<Rightarrow> cr_Verdict r = CheckExhaustive \<and> map fst (cr_Finals r) = [''heads'', ''tails''] | _ \<Rightarrow> False"
  by code_simp

text \<open>Its finals and its violation come from schedules.\<close>

theorem check_reports_schedules_witness:
  "\<exists>r. Check (coin_config [''no tails'']) coin_system coin_start = Some (Inr r) \<and> length (cr_Violations r) = 1 \<and> length (cr_Finals r) = 2 \<and>
    (\<forall>v \<in> set (cr_Violations r). sound_violation (coin_config [''no tails'']) coin_system (starts coin_start) v) \<and>
    (\<forall>f \<in> set (cr_Finals r). sound_final (coin_config [''no tails'']) coin_system (starts coin_start) f)"
proof -
  obtain r where r: "Check (coin_config [''no tails'']) coin_system coin_start = Some (Inr r)" "map fst (cr_Finals r) = [''heads'', ''tails'']"
    "map (\<lambda>v. (vi_Kind v, vi_Name v, vi_Depth v)) (cr_Violations r) = [(ViolationProperty, ''no tails'', 1)]"
    using coin_violated by (auto split: option.splits sum.splits)
  have "length (cr_Violations r) = 1" "length (cr_Finals r) = 2"
    using arg_cong [OF r(2), of length] arg_cong [OF r(3), of length] by simp_all
  then show ?thesis using r(1) check_reports_schedules [OF r(1)] by blast
qed

lemma coin_canonical: "canonical coin_system S"
  unfolding canonical_def by (auto simp: coin_system_def)

theorem exhaustive_verdict_witness:
  "\<exists>r. Check (coin_config []) coin_system coin_start = Some (Inr r) \<and> cr_Verdict r = CheckExhaustive \<and>
    (\<forall>ms s. schedule coin_system (starts coin_start) ms s \<longrightarrow> s \<noteq> ''start'' \<longrightarrow> s \<in> fst ` set (cr_Finals r)) \<and>
    (\<exists>ms. schedule coin_system (starts coin_start) ms ''start'')"
proof -
  obtain r where r: "Check (coin_config []) coin_system coin_start = Some (Inr r)" "cr_Verdict r = CheckExhaustive"
    using coin_exhaustive by (auto split: option.splits sum.splits)
  have u: "unreduced (coin_config [])" by (simp add: unreduced_def coin_config_def)
  have "[] \<in> start_picks coin_start" by (auto simp: start_picks_def intro: picks_base)
  then have "Inr ''start'' \<in> starts coin_start" by (rule starts_Begun) (simp add: coin_start_def)
  then have "schedule coin_system (starts coin_start) [] ''start''" by (rule schedule_start) (simp add: coin_system_def)
  then have "\<exists>ms. schedule coin_system (starts coin_start) ms ''start''" by blast
  moreover have "cs_terminal coin_system s \<longleftrightarrow> s \<noteq> ''start''" "fst ` set (snd (cs_finals coin_system s)) = {s}" for s
    by (simp_all add: coin_system_def)
  ultimately show ?thesis using r exhaustive_verdict [OF r u coin_canonical] by (intro exI [of _ r]) auto
qed

section \<open>A cycle, and a schedule the depth bound hides\<close>

definition graph_succ :: "string \<Rightarrow> string list" where
  "graph_succ s =
     (if s = ''r'' then [''a'', ''u''] else if s = ''a'' then [''b''] else if s = ''b'' then [''v''] else if s = ''v'' then [''u'', ''w'']
      else if s = ''u'' then [''v''] else if s = ''w'' then [''x''] else if s = ''x'' then [''y''] else [])"

definition graph_move :: "string \<Rightarrow> (unit, string, unit) enabledMove" where
  "graph_move t =
     \<lparr>em_Owner = (), em_Token = 1, em_Node = Some t, em_Picks = [], em_Label = t, em_Kind = movePlain, em_Fails = None\<rparr>"

definition graph_system :: "(string, unit, string, unit, unit, (string \<times> string) list) checked_system" where
  "graph_system =
     \<lparr>cs_key = id, cs_enabled = (\<lambda>s. map graph_move (graph_succ s)), cs_name = (\<lambda>s m. em_Label m), cs_footprint = (\<lambda>_ _. ()),
      cs_units = (\<lambda>_. []), cs_dependent = (\<lambda>_ _ _ _ _. True), cs_dynamic = (), cs_nothing = (),
      cs_make = (\<lambda>s m. ([], Inr (em_Label m))), cs_stabilize = Inr, cs_terminal = (\<lambda>s. graph_succ s = []), cs_evaluate = (\<lambda>_ _. Holds True),
      cs_finals = (\<lambda>s. (False, [(s, [])]))\<rparr>"

definition graph_start :: "nat list \<Rightarrow> nat list \<times> (string, unit) beginning" where
  "graph_start picks = ([], Begun ''r'')"

definition depth_5 :: check_config where
  "depth_5 = \<lparr>cc_budget = \<lparr>cb_Depth = 5, cb_States = 0\<rparr>, cc_Reduce = False, cc_props = [], cc_budgets = DefaultBudgets\<rparr>"

lemma graph_check:
  "case Check depth_5 graph_system graph_start of Some (Inr r) \<Rightarrow> cr_Verdict r = CheckWithinBounds \<and> cr_BoundsHit r = [''depth''] \<and> cr_Finals r = [] | _ \<Rightarrow> False"
  by code_simp

definition graph_step :: "string \<Rightarrow> (unit, string, unit, unit) searchMove" where
  "graph_step t = enabledMove.extend (graph_move t) \<lparr>sm_name = t, sm_footprint = ()\<rparr>"

lemma graph_schedule:
  assumes "schedule graph_system S ms s" "t \<in> set (graph_succ s)"
  shows "schedule graph_system S (ms @ [graph_step t]) t"
proof (rule schedule_move [OF assms(1)])
  show "\<not> cs_terminal graph_system s" using assms(2) by (auto simp: graph_system_def)
  have "graph_step t \<in> set (movesOf graph_system s)"
    using assms(2) by (auto simp: movesOf_def named_def graph_system_def graph_step_def graph_move_def image_iff)
  then show "graph_step t \<in> available graph_system s" using movesOf_available [of graph_system s] by blast
  show "move_outcome graph_system s (graph_step t) = Inr t"
    by (simp add: move_outcome_def graph_system_def graph_step_def graph_move_def enabledMove.defs)
qed

lemma graph_schedule_y: "schedule graph_system (starts graph_start) (map graph_step [''u'', ''v'', ''w'', ''x'', ''y'']) ''y''"
proof -
  have "[] \<in> start_picks graph_start" by (auto simp: start_picks_def intro: picks_base)
  then have "Inr ''r'' \<in> starts graph_start" by (rule starts_Begun) (simp add: graph_start_def)
  then have 0: "schedule graph_system (starts graph_start) [] ''r''" by (rule schedule_start) (simp add: graph_system_def)
  note 1 = graph_schedule [OF 0, of "''u''", simplified append_Nil append_Cons]
  note 2 = graph_schedule [OF 1, of "''v''", simplified append_Nil append_Cons]
  note 3 = graph_schedule [OF 2, of "''w''", simplified append_Nil append_Cons]
  note 4 = graph_schedule [OF 3, of "''x''", simplified append_Nil append_Cons]
  note 5 = graph_schedule [OF 4, of "''y''", simplified append_Nil append_Cons]
  show ?thesis using 5 by (simp add: graph_succ_def)
qed

lemma graph_in_bounds: "in_bounds depth_5 (map graph_step [''u'', ''v'', ''w'', ''x'', ''y''])"
  by code_simp

text \<open>C12: The depth bound can hide a final a schedule inside it reaches. Here the search reaches \<open>u\<close> below \<open>v\<close>, which is on the
  stack, so it has nothing to explore from \<open>u\<close>; only later is \<open>v\<close> marked cut by the bound, and \<open>u\<close>, popped before, is not. When the
  search comes to \<open>u\<close> again in one move it finds its only move explored and the state not cut, and leaves it there, though the
  final \<open>y\<close> is four moves from it.\<close>

theorem shorter_schedule_cut:
  "\<exists>r ms. Check depth_5 graph_system graph_start = Some (Inr r) \<and> cr_Finals r = [] \<and>
    schedule graph_system (starts graph_start) ms ''y'' \<and> in_bounds depth_5 ms \<and> cs_terminal graph_system ''y''"
proof -
  obtain r where r: "Check depth_5 graph_system graph_start = Some (Inr r)" "cr_Finals r = []"
    using graph_check by (auto split: option.splits sum.splits)
  have "cs_terminal graph_system ''y''" by (simp add: graph_system_def graph_succ_def)
  then show ?thesis using r graph_schedule_y graph_in_bounds
    by (intro exI [of _ r] exI [of _ "map graph_step [''u'', ''v'', ''w'', ''x'', ''y'']"]) simp
qed

text \<open>Its check ends, by the theorem and without evaluating it.\<close>

lemma graph_finite: "finite (available graph_system s)"
proof -
  have "m \<in> set (movesOf graph_system s)" if "m \<in> sprouts graph_system s (set (movesOf graph_system s))" for m
    using that by induction (simp_all add: siblings_def alternatives_def graph_system_def)
  then show ?thesis unfolding available_def by (intro finite_subset [OF _ finite_set]) auto
qed

lemma graph_picks: "start_picks graph_start = {[]}"
proof -
  have "p = []" if "p \<in> picks_from graph_start {[]}" for p
    using that by induction (simp_all add: start_alternatives_def alternatives_def graph_start_def)
  then show ?thesis by (auto simp: start_picks_def intro: picks_base)
qed

theorem check_ends_witness: "\<exists>r. Check depth_5 graph_system graph_start = Some r"
  by (rule check_ends) (simp_all add: graph_finite graph_picks depth_5_def)

section \<open>Two tokens that meet and one apart\<close>

text \<open>The token at \<open>x\<close> is to be explored with the one whose future touches \<open>x\<close>, and without the one at \<open>z\<close>.\<close>

definition flow_system :: "(unit, unit, string, unit, string list, (string \<times> string) list) checked_system" where
  "flow_system =
     \<lparr>cs_key = (\<lambda>_. []),
      cs_enabled = (\<lambda>_. map (\<lambda>(t, l). \<lparr>em_Owner = (), em_Token = t, em_Node = None, em_Picks = [], em_Label = l, em_Kind = movePlain, em_Fails = None\<rparr>)
        [(1, ''x''), (2, ''y''), (3, ''z'')]),
      cs_name = (\<lambda>s m. em_Label m), cs_footprint = (\<lambda>_ m. [em_Label m]),
      cs_units = (\<lambda>_. [(((), 1), [''x''], []), (((), 2), [''y''], [''x'']), (((), 3), [''z''], [])]),
      cs_dependent = (\<lambda>_ _ _ a b. \<exists>p \<in> set a. p \<in> set b), cs_dynamic = [''x'', ''y'', ''z''], cs_nothing = [],
      cs_make = (\<lambda>s m. ([], Inr s)), cs_stabilize = Inr, cs_terminal = (\<lambda>s. False), cs_evaluate = (\<lambda>s p. Holds True),
      cs_finals = (\<lambda>s. (False, []))\<rparr>"

definition reducing :: check_config where
  "reducing = \<lparr>cc_budget = \<lparr>cb_Depth = 5, cb_States = 0\<rparr>, cc_Reduce = True, cc_props = [], cc_budgets = DefaultBudgets\<rparr>"

lemma flow_moves: "\<exists>first others. filter (\<lambda>m. \<not> list_ex (same_move m) []) (movesOf flow_system ()) = first # others \<and> move_unit first = ((), 1)"
proof -
  have "map move_unit (filter (\<lambda>m. \<not> list_ex (same_move m) []) (movesOf flow_system ())) = [((), 1), ((), 2), ((), 3)]" by code_simp
  then show ?thesis by (cases "filter (\<lambda>m. \<not> list_ex (same_move m) []) (movesOf flow_system ())") auto
qed

theorem persistent_closed_witness:
  "map em_Label (persistent reducing flow_system () (movesOf flow_system ()) []) = [''x'', ''y''] \<and>
    (\<exists>chosen. ((), 1) \<in> chosen \<and>
      (\<forall>u \<in> {((), 1), ((), 2), ((), 3)} - chosen. \<forall>v \<in> chosen. \<not> meets (newPersistentClosure flow_system () (movesOf flow_system ())) u v))"
proof
  show "map em_Label (persistent reducing flow_system () (movesOf flow_system ()) []) = [''x'', ''y'']" by code_simp
  obtain first others where f: "filter (\<lambda>m. \<not> list_ex (same_move m) []) (movesOf flow_system ()) = first # others" "move_unit first = ((), 1)"
    using flow_moves by blast
  have u: "fst ` set (cs_units flow_system ()) = {((), 1), ((), 2), ((), 3)}" by (simp add: flow_system_def)
  show "\<exists>chosen. ((), 1) \<in> chosen \<and>
      (\<forall>u \<in> {((), 1), ((), 2), ((), 3)} - chosen. \<forall>v \<in> chosen. \<not> meets (newPersistentClosure flow_system () (movesOf flow_system ())) u v)"
    using persistent_closed [where cfg = reducing and sys = flow_system and s = "()", OF _ _ f(1)] unfolding u f(2)
    by (fastforce simp: reducing_def)
qed

end
