(* ===== verification/Line_Diff.thy ===== *)
theory Line_Diff
  imports Prelude "HOL-Library.Monad_Syntax"
begin

text \<open>
  The line diff of a workspace edit (\<open>internal/workspace/model/linediff.go\<close>): \<open>DiffLines\<close>, the
  linear-space search of Myers, over the ids of lines. The furthest reaches of a search are two
  lists, indexed as the source indexes its arrays: an index out of range is a panic, \<open>None\<close>. The
  recursion of \<open>differ.diff\<close> ends because its search finds a middle snake, which is a theorem about
  the search, so \<open>diff\<close> is a partial function into an option.
\<close>

record Hunk =
  OldStart :: int
  OldEnd :: int
  NewStart :: int
  NewEnd :: int

text \<open>Indexing, storing and cutting, with Go's panic out of range (a cut beyond the length too, which Go allows up to the capacity).\<close>

definition at_index :: "'a list \<Rightarrow> int \<Rightarrow> 'a option" where
  "at_index xs i = (if 0 \<le> i \<and> i < int (length xs) then Some (xs ! nat i) else None)"

definition store_at :: "'a list \<Rightarrow> int \<Rightarrow> 'a \<Rightarrow> 'a list option" where
  "store_at xs i v = (if 0 \<le> i \<and> i < int (length xs) then Some (xs[nat i := v]) else None)"

definition head_to :: "'a list \<Rightarrow> int \<Rightarrow> 'a list option" where
  "head_to xs i = (if 0 \<le> i \<and> i \<le> int (length xs) then Some (take (nat i) xs) else None)"

definition tail_from :: "'a list \<Rightarrow> int \<Rightarrow> 'a list option" where
  "tail_from xs i = (if 0 \<le> i \<and> i \<le> int (length xs) then Some (drop (nat i) xs) else None)"

definition add_hunk :: "Hunk list \<Rightarrow> Hunk \<Rightarrow> Hunk list" where
  "add_hunk hunks h =
     (if hunks \<noteq> [] \<and> OldEnd (last hunks) = OldStart h \<and> NewEnd (last hunks) = NewStart h
      then butlast hunks @ [(last hunks)\<lparr>OldEnd := OldEnd h, NewEnd := NewEnd h\<rparr>]
      else hunks @ [h])"

text \<open>How far two lists agree from their starts; from their ends, of the reversed lists.\<close>

fun shared_start :: "'a list \<Rightarrow> 'a list \<Rightarrow> nat" where
  "shared_start (x # e) (y # f) = (if x = y then Suc (shared_start e f) else 0)"
| "shared_start e f = 0"

text \<open>The lines a pass compares: pass 0 from the top left, pass 1 from the bottom right.\<close>

definition line_of :: "nat \<Rightarrow> 'a list \<Rightarrow> int \<Rightarrow> 'a option" where
  "line_of pass e x = (if pass = 0 then at_index e x else at_index e (int (length e) - 1 - x))"

function slide :: "nat \<Rightarrow> 'a list \<Rightarrow> 'a list \<Rightarrow> int \<Rightarrow> int \<Rightarrow> (int \<times> int) option" where
  "slide pass e f x y =
     (if x < int (length e) \<and> y < int (length f)
      then (case line_of pass e x of None \<Rightarrow> None
            | Some u \<Rightarrow> (case line_of pass f y of None \<Rightarrow> None
              | Some v \<Rightarrow> if u = v then slide pass e f (x + 1) (y + 1) else Some (x, y)))
      else Some (x, y))"
  by pat_completeness auto
termination by (relation "measure (\<lambda>(pass, e, f, x, y). nat (int (length e) - x))") auto

declare slide.simps [simp del]

text \<open>The middle snake of a shortest path: the length of the path and the ends of the snake.\<close>

record Meet =
  me_steps :: int
  me_headX :: int
  me_headY :: int
  me_tailX :: int
  me_tailY :: int

text \<open>The point a diagonal is entered at: from the diagonal above it or the one below.\<close>

definition enter_diagonal :: "int list \<Rightarrow> int \<Rightarrow> int \<Rightarrow> int \<Rightarrow> int option" where
  "enter_diagonal own off h k =
     (if k = - h then at_index own (k + 1 + off)
      else if k \<noteq> h then do {
        below \<leftarrow> at_index own (k - 1 + off);
        above \<leftarrow> at_index own (k + 1 + off);
        Some (if below < above then above else below + 1) }
      else do {
        below \<leftarrow> at_index own (k - 1 + off);
        Some (below + 1) })"

text \<open>Where the paths overlap on diagonal \<open>k\<close>, the snake just walked is the middle one.\<close>

definition overlaps :: "nat \<Rightarrow> int \<Rightarrow> int \<Rightarrow> int list \<Rightarrow> int \<Rightarrow> int \<Rightarrow> int \<Rightarrow> int \<Rightarrow> bool option" where
  "overlaps pass n m other off h k x =
     (let total = n + m; delta = n - m; odd_pass = (if pass = 1 then 0 else 1); z = delta - k
      in if total mod 2 = odd_pass \<and> - (h - odd_pass) \<le> z \<and> z \<le> h - odd_pass
         then do { reach \<leftarrow> at_index other (z + off); Some (x + reach \<ge> n) }
         else Some False)"

definition meet_at :: "nat \<Rightarrow> int \<Rightarrow> int \<Rightarrow> int \<Rightarrow> int \<Rightarrow> int \<Rightarrow> int \<Rightarrow> int \<Rightarrow> Meet" where
  "meet_at pass n m h snakeX snakeY x y =
     (if pass = 1
      then \<lparr>me_steps = 2 * h, me_headX = n - x, me_headY = m - y, me_tailX = n - snakeX, me_tailY = m - snakeY\<rparr>
      else \<lparr>me_steps = 2 * h - 1, me_headX = snakeX, me_headY = snakeY, me_tailX = x, me_tailY = y\<rparr>)"

text \<open>One pass over the diagonals of a round: a meeting, or the reaches it leaves.\<close>

function diagonals ::
  "nat \<Rightarrow> 'a list \<Rightarrow> 'a list \<Rightarrow> int \<Rightarrow> int \<Rightarrow> int list \<Rightarrow> int list \<Rightarrow> (Meet + int list) option" where
  "diagonals pass e f h k own other =
     (let n = int (length e); m = int (length f); off = m + 1
      in if k \<le> h - 2 * max 0 (h - n)
         then do {
           snakeX \<leftarrow> enter_diagonal own off h k;
           (x, y) \<leftarrow> slide pass e f snakeX (snakeX - k);
           own' \<leftarrow> store_at own (k + off) x;
           hit \<leftarrow> overlaps pass n m other off h k x;
           if hit then Some (Inl (meet_at pass n m h snakeX (snakeX - k) x y))
           else diagonals pass e f h (k + 2) own' other }
         else Some (Inr own))"
  by pat_completeness auto
termination
  by (relation "measure (\<lambda>(pass, e, f, h, k, own, other). nat (h - 2 * max 0 (h - int (length e)) - k + 2))") auto

declare diagonals.simps [simp del]

text \<open>The rounds: both passes over the diagonals, until the paths meet.\<close>

function rounds :: "'a list \<Rightarrow> 'a list \<Rightarrow> int \<Rightarrow> int list \<Rightarrow> int list \<Rightarrow> Meet option option" where
  "rounds e f h forward reverse =
     (let n = int (length e); m = int (length f); total = n + m; low = - (h - 2 * max 0 (h - m))
      in if h \<le> (total + 1) div 2
         then do {
           ahead \<leftarrow> diagonals 0 e f h low forward reverse;
           case ahead of Inl meet \<Rightarrow> Some (Some meet)
           | Inr forward' \<Rightarrow> do {
               back \<leftarrow> diagonals 1 e f h low reverse forward';
               case back of Inl meet \<Rightarrow> Some (Some meet)
               | Inr reverse' \<Rightarrow> rounds e f (h + 1) forward' reverse' } }
         else Some None)"
  by pat_completeness auto
termination
  by (relation "measure (\<lambda>(e, f, h, forward, reverse). nat ((int (length e) + int (length f) + 1) div 2 - h + 1))") auto

declare rounds.simps [simp del]

text \<open>\<open>arrays\<close>: two furthest reaches of zeros, whatever an earlier search left in them.\<close>

definition middle_snake :: "'a list \<Rightarrow> 'a list \<Rightarrow> Meet option option" where
  "middle_snake e f = (let zeros = replicate (length e + length f + 3) 0 in rounds e f 0 zeros zeros)"

partial_function (option) diff ::
  "'a list \<Rightarrow> 'a list \<Rightarrow> int \<Rightarrow> int \<Rightarrow> Hunk list \<Rightarrow> Hunk list option" where
  "diff e0 f0 i0 j0 hunks =
     (let prefix = shared_start e0 f0;
          e1 = drop prefix e0; f1 = drop prefix f0; i = i0 + int prefix; j = j0 + int prefix;
          suffix = shared_start (rev e1) (rev f1);
          e = take (length e1 - suffix) e1; f = take (length f1 - suffix) f1;
          n = int (length e); m = int (length f)
      in if e = [] \<and> f = [] then Some hunks
         else if e = [] then Some (add_hunk hunks \<lparr>OldStart = i, OldEnd = i, NewStart = j, NewEnd = j + m\<rparr>)
         else if f = [] then Some (add_hunk hunks \<lparr>OldStart = i, OldEnd = i + n, NewStart = j, NewEnd = j\<rparr>)
         else do {
           found \<leftarrow> middle_snake e f;
           case found of None \<Rightarrow> Some hunks
           | Some meet \<Rightarrow>
               if me_steps meet > 1 \<or> (me_headX meet \<noteq> me_tailX meet \<and> me_headY meet \<noteq> me_tailY meet)
               then do {
                 eh \<leftarrow> head_to e (me_headX meet);
                 fh \<leftarrow> head_to f (me_headY meet);
                 hunks' \<leftarrow> diff eh fh i j hunks;
                 et \<leftarrow> tail_from e (me_tailX meet);
                 ft \<leftarrow> tail_from f (me_tailY meet);
                 diff et ft (i + me_tailX meet) (j + me_tailY meet) hunks' }
               else if m > n then do { ft \<leftarrow> tail_from f n; diff [] ft (i + n) (j + n) hunks }
               else if m < n then do { et \<leftarrow> tail_from e m; diff et [] (i + m) (j + m) hunks }
               else Some hunks })"

declare diff.simps [code]

definition DiffLines :: "int list \<Rightarrow> int list \<Rightarrow> Hunk list option" where
  "DiffLines a b = diff a b 0 0 []"

lemma DiffLines_example: "DiffLines [1, 2, 3, 1, 2, 2, 1] [3, 2, 1, 2, 1, 3] = Some [
  \<lparr>OldStart = 0, OldEnd = 1, NewStart = 0, NewEnd = 1\<rparr>, \<lparr>OldStart = 2, OldEnd = 3, NewStart = 2, NewEnd = 2\<rparr>,
  \<lparr>OldStart = 5, OldEnd = 6, NewStart = 4, NewEnd = 4\<rparr>, \<lparr>OldStart = 7, OldEnd = 7, NewStart = 5, NewEnd = 6\<rparr>]"
  by code_simp

end
