(* ===== verification/Line_Edits.thy ===== *)
theory Line_Edits
  imports Main
begin

text \<open>
  The reference a line diff is judged by: \<open>edits a b d\<close>, that \<open>d\<close> deletions and insertions of single
  lines turn \<open>a\<close> into \<open>b\<close>, and \<open>edit_dist\<close>, the least such number. The laws of the distance on the grid
  of prefixes, which the search of \<open>Line_Diff\<close> rests on: neighbours differ by at most one, a shared line
  costs nothing, the distance does not fall along a diagonal, and a path may be cut anywhere.
\<close>

inductive edits :: "'a list \<Rightarrow> 'a list \<Rightarrow> nat \<Rightarrow> bool" where
  edits_none: "edits [] [] 0"
| edits_keep: "edits a b d \<Longrightarrow> edits (x # a) (x # b) d"
| edits_delete: "edits a b d \<Longrightarrow> edits (x # a) b (Suc d)"
| edits_insert: "edits a b d \<Longrightarrow> edits a (x # b) (Suc d)"

declare edits.intros [intro]

fun edit_dist :: "'a list \<Rightarrow> 'a list \<Rightarrow> nat" where
  "edit_dist [] b = length b"
| "edit_dist a [] = length a"
| "edit_dist (x # a) (y # b) =
     (if x = y then edit_dist a b else Suc (min (edit_dist a (y # b)) (edit_dist (x # a) b)))"

lemma edit_dist_Nil2 [simp]: "edit_dist a [] = length a"
  by (cases a) simp_all

lemma edits_insert_all: "edits [] b (length b)"
  by (induction b) auto

lemma edits_delete_all: "edits a [] (length a)"
  by (induction a) auto

lemma edits_edit_dist: "edits a b (edit_dist a b)"
proof (induction a b rule: edit_dist.induct)
  case (3 x a y b)
  then show ?case
    by (cases "edit_dist a (y # b) \<le> edit_dist (x # a) b") (auto simp: min_def)
qed (auto intro: edits_insert_all edits_delete_all simp del: length_Cons)

text \<open>Neighbours in the grid differ by at most one.\<close>

lemma edit_dist_neighbours:
  fixes x :: 'a
  shows "edit_dist (x # a) b \<le> Suc (edit_dist a b) \<and> edit_dist a b \<le> Suc (edit_dist (x # a) b) \<and>
   edit_dist b (x # a) \<le> Suc (edit_dist b a) \<and> edit_dist b a \<le> Suc (edit_dist b (x # a))"
proof (induction "length a + length b" arbitrary: x a b rule: less_induct)
  case less
  have shift: "edit_dist c (y # d) \<le> Suc (edit_dist c d) \<and> edit_dist c d \<le> Suc (edit_dist c (y # d)) \<and>
    edit_dist (y # d) c \<le> Suc (edit_dist d c) \<and> edit_dist d c \<le> Suc (edit_dist (y # d) c)"
    if "length c + length d < length a + length b" for c d :: "'a list" and y :: 'a using less [of d c y] that by simp
  show ?case
  proof (cases b)
    case (Cons y b')
    have "edit_dist a (y # b') \<le> Suc (edit_dist a b')" "edit_dist a b' \<le> Suc (edit_dist a (y # b'))"
      "edit_dist (y # b') a \<le> Suc (edit_dist b' a)" "edit_dist b' a \<le> Suc (edit_dist (y # b') a)"
      using shift [of a b' y] Cons by simp_all
    moreover have "edit_dist a b' \<le> Suc (edit_dist (x # a) b')" "edit_dist b' a \<le> Suc (edit_dist b' (x # a))"
      using less [of a b' x] Cons by simp_all
    ultimately show ?thesis using Cons by (auto simp: min_def)
  qed simp
qed

lemma edit_dist_delete: "edit_dist (x # a) b \<le> Suc (edit_dist a b)" "edit_dist a b \<le> Suc (edit_dist (x # a) b)"
  and edit_dist_insert: "edit_dist a (y # b) \<le> Suc (edit_dist a b)" "edit_dist a b \<le> Suc (edit_dist a (y # b))"
  using edit_dist_neighbours [of x a b] edit_dist_neighbours [of y b a] by auto

lemma edit_dist_diagonal: "edit_dist a b \<le> edit_dist (x # a) (y # b)"
  using edit_dist_insert(2) [of a b y] edit_dist_delete(2) [of a b x] by (auto simp: min_def)

lemma edit_dist_least: "edits a b d \<Longrightarrow> edit_dist a b \<le> d"
proof (induction rule: edits.induct)
  case (edits_keep a b d x) then show ?case by simp
next
  case (edits_delete a b d x) then show ?case using edit_dist_delete(1) [of x a b] by linarith
next
  case (edits_insert a b d x) then show ?case using edit_dist_insert(1) [of a x b] by linarith
qed simp

text \<open>Scripts compose, reverse and split.\<close>

lemma edits_append: "edits a b d \<Longrightarrow> edits a' b' d' \<Longrightarrow> edits (a @ a') (b @ b') (d + d')"
  by (induction rule: edits.induct) auto

lemma edits_rev: "edits a b d \<Longrightarrow> edits (rev a) (rev b) d"
proof (induction rule: edits.induct)
  case (edits_keep a b d x)
  then show ?case using edits_append [of "rev a" "rev b" d "[x]" "[x]" 0] by (auto simp: edits.edits_keep edits_none)
next
  case (edits_delete a b d x)
  then show ?case using edits_append [of "rev a" "rev b" d "[x]" "[]" 1] edits_delete_all [of "[x]"] by auto
next
  case (edits_insert a b d x)
  then show ?case using edits_append [of "rev a" "rev b" d "[]" "[x]" 1] edits_insert_all [of "[x]"] by auto
qed auto

lemma edit_dist_rev [simp]: "edit_dist (rev a) (rev b) = edit_dist a b"
proof (rule antisym)
  show "edit_dist (rev a) (rev b) \<le> edit_dist a b" by (rule edit_dist_least [OF edits_rev [OF edits_edit_dist]])
  show "edit_dist a b \<le> edit_dist (rev a) (rev b)"
    using edit_dist_least [OF edits_rev [OF edits_edit_dist [of "rev a" "rev b"]]] by simp
qed

lemma edit_dist_append: "edit_dist (a @ a') (b @ b') \<le> edit_dist a b + edit_dist a' b'"
  by (rule edit_dist_least) (rule edits_append [OF edits_edit_dist edits_edit_dist])

lemma edits_split:
  assumes "edits a b d" "h \<le> d"
  shows "\<exists>i j. i \<le> length a \<and> j \<le> length b \<and> edits (take i a) (take j b) h \<and> edits (drop i a) (drop j b) (d - h)"
  using assms
proof (induction arbitrary: h rule: edits.induct)
  case edits_none
  then show ?case by auto
next
  case (edits_keep a b d x)
  then obtain i j where "i \<le> length a" "j \<le> length b" "edits (take i a) (take j b) h" "edits (drop i a) (drop j b) (d - h)"
    by blast
  then show ?case by (intro exI [of _ "Suc i"] exI [of _ "Suc j"]) auto
next
  case (edits_delete a b d x)
  show ?case
  proof (cases h)
    case 0
    then show ?thesis using edits.edits_delete [OF edits_delete.hyps] by (intro exI [of _ 0]) auto
  next
    case (Suc h')
    then obtain i j where "i \<le> length a" "j \<le> length b" "edits (take i a) (take j b) h'" "edits (drop i a) (drop j b) (d - h')"
      using edits_delete.IH [of h'] edits_delete.prems by auto
    then show ?thesis using Suc by (intro exI [of _ "Suc i"] exI [of _ j]) auto
  qed
next
  case (edits_insert a b d x)
  show ?case
  proof (cases h)
    case 0
    then show ?thesis using edits.edits_insert [OF edits_insert.hyps] by (intro exI [of _ 0]) auto
  next
    case (Suc h')
    then obtain i j where "i \<le> length a" "j \<le> length b" "edits (take i a) (take j b) h'" "edits (drop i a) (drop j b) (d - h')"
      using edits_insert.IH [of h'] edits_insert.prems by auto
    then show ?thesis using Suc by (intro exI [of _ i] exI [of _ "Suc j"]) auto
  qed
qed

text \<open>Bounds.\<close>

lemma edit_dist_lower: "\<bar>int (length a) - int (length b)\<bar> \<le> int (edit_dist a b)"
  by (induction a b rule: edit_dist.induct) (auto simp: min_def)

lemma edit_dist_upper: "edit_dist a b \<le> length a + length b"
  by (induction a b rule: edit_dist.induct) (auto simp: min_def)

lemma edit_dist_parity: "even (edit_dist a b + length a + length b)"
  by (induction a b rule: edit_dist.induct) (auto simp: min_def)

lemma edit_dist_zero: "edit_dist a b = 0 \<longleftrightarrow> a = b"
  by (induction a b rule: edit_dist.induct) auto

lemma edit_dist_shared [simp]: "edit_dist (c @ a) (c @ b) = edit_dist a b"
  by (induction c) auto

lemma edit_dist_shared_end [simp]: "edit_dist (a @ c) (b @ c) = edit_dist a b"
  using edit_dist_shared [of "rev c" "rev a" "rev b"] by (metis edit_dist_rev rev_append)

end
