(* ===== verification/Line_Grid.thy ===== *)
theory Line_Grid
  imports Line_Edits
begin

text \<open>
  The grid of prefixes a diff searches, and its furthest reaches. The locale \<open>edit_grid\<close> has the laws of the
  distance on an \<open>n\<close> by \<open>m\<close> grid; \<open>furthest v h k\<close> says that \<open>v\<close> is how far diagonal \<open>k\<close> is reached within
  \<open>h\<close> edits. A reach may lie past the end of its diagonal, as the source lets it: then the whole distance is
  small enough that an overlap was due before. Entering a diagonal from its neighbours and sliding along the
  lines shared keeps the notion.
\<close>

locale edit_grid =
  fixes n m :: int and D :: "int \<Rightarrow> int \<Rightarrow> int" and same :: "int \<Rightarrow> int \<Rightarrow> bool"
  assumes sizes: "0 \<le> n" "0 \<le> m"
    and D_low: "0 \<le> i \<Longrightarrow> i \<le> n \<Longrightarrow> 0 \<le> j \<Longrightarrow> j \<le> m \<Longrightarrow> \<bar>i - j\<bar> \<le> D i j"
    and D_high: "0 \<le> i \<Longrightarrow> i \<le> n \<Longrightarrow> 0 \<le> j \<Longrightarrow> j \<le> m \<Longrightarrow> D i j \<le> i + j"
    and D_right: "0 \<le> i \<Longrightarrow> i < n \<Longrightarrow> 0 \<le> j \<Longrightarrow> j \<le> m \<Longrightarrow> D (i + 1) j \<le> D i j + 1 \<and> D i j \<le> D (i + 1) j + 1"
    and D_down: "0 \<le> i \<Longrightarrow> i \<le> n \<Longrightarrow> 0 \<le> j \<Longrightarrow> j < m \<Longrightarrow> D i (j + 1) \<le> D i j + 1 \<and> D i j \<le> D i (j + 1) + 1"
    and D_diagonal: "0 \<le> i \<Longrightarrow> i < n \<Longrightarrow> 0 \<le> j \<Longrightarrow> j < m \<Longrightarrow> D i j \<le> D (i + 1) (j + 1)"
    and D_same: "0 \<le> i \<Longrightarrow> i < n \<Longrightarrow> 0 \<le> j \<Longrightarrow> j < m \<Longrightarrow> same i j \<Longrightarrow> D (i + 1) (j + 1) = D i j"
    and D_other: "0 \<le> i \<Longrightarrow> i < n \<Longrightarrow> 0 \<le> j \<Longrightarrow> j < m \<Longrightarrow> \<not> same i j \<Longrightarrow>
      D (i + 1) (j + 1) = 1 + min (D i (j + 1)) (D (i + 1) j)"
begin

definition first_of :: "int \<Rightarrow> int" where
  "first_of k = max 0 k"

definition last_of :: "int \<Rightarrow> int" where
  "last_of k = min n (m + k)"

definition clip :: "int \<Rightarrow> int \<Rightarrow> int" where
  "clip v k = min v (last_of k)"

text \<open>\<open>wasted\<close>: a reach past the end is one that the whole distance undercuts.\<close>

definition sound :: "int \<Rightarrow> int \<Rightarrow> int \<Rightarrow> bool" where
  "sound v h k \<longleftrightarrow> first_of k \<le> v \<and> D (clip v k) (clip v k - k) \<le> h \<and>
     (last_of k < v \<longrightarrow> D n m + 2 \<le> h + \<bar>n - m - k\<bar>)"

definition furthest :: "int \<Rightarrow> int \<Rightarrow> int \<Rightarrow> bool" where
  "furthest v h k \<longleftrightarrow> sound v h k \<and>
     (\<forall>p. first_of k \<le> p \<longrightarrow> p \<le> last_of k \<longrightarrow> D p (p - k) \<le> h \<longrightarrow> p \<le> v)"

definition entered :: "int \<Rightarrow> int \<Rightarrow> int \<Rightarrow> bool" where
  "entered x h k \<longleftrightarrow> sound x h k \<and>
     (\<forall>p. first_of k < p \<longrightarrow> p \<le> last_of k \<longrightarrow> \<not> same (p - 1) (p - 1 - k) \<longrightarrow> D p (p - k) \<le> h \<longrightarrow> p \<le> x)"

lemma furthest_sound: "furthest v h k \<Longrightarrow> sound v h k"
  by (simp add: furthest_def)

lemma furthest_reaches:
  "furthest v h k \<Longrightarrow> first_of k \<le> p \<Longrightarrow> p \<le> last_of k \<Longrightarrow> D p (p - k) \<le> h \<Longrightarrow> p \<le> v"
  by (simp add: furthest_def)

lemma diagonal_nonempty: "- m \<le> k \<Longrightarrow> k \<le> n \<Longrightarrow> first_of k \<le> last_of k"
  using sizes by (auto simp: first_of_def last_of_def)

text \<open>Along the border the distance to the far corner is the number of steps left.\<close>

lemma to_corner_right: "0 \<le> i \<Longrightarrow> i \<le> n \<Longrightarrow> D n m \<le> D i m + (n - i)"
proof (induction "nat (n - i)" arbitrary: i)
  case (Suc d)
  then have "D n m \<le> D (i + 1) m + (n - (i + 1))" by simp
  moreover have "D (i + 1) m \<le> D i m + 1" using Suc D_right [of i m] sizes by auto
  ultimately show ?case by simp
qed simp

lemma to_corner_down: "0 \<le> j \<Longrightarrow> j \<le> m \<Longrightarrow> D n m \<le> D n j + (m - j)"
proof (induction "nat (m - j)" arbitrary: j)
  case (Suc d)
  then have "D n m \<le> D n (j + 1) + (m - (j + 1))" by simp
  moreover have "D n (j + 1) \<le> D n j + 1" using Suc D_down [of n j] sizes by auto
  ultimately show ?case by simp
qed simp

lemma to_corner:
  assumes "- m \<le> k" "k \<le> n"
  shows "D n m \<le> D (last_of k) (last_of k - k) + \<bar>n - m - k\<bar>"
proof (cases "n \<le> m + k")
  case True
  then have "last_of k = n" by (simp add: last_of_def)
  then show ?thesis using to_corner_down [of "n - k"] assms True sizes by simp
next
  case False
  then have "last_of k = m + k" by (simp add: last_of_def)
  then show ?thesis using to_corner_right [of "m + k"] assms False sizes by simp
qed

text \<open>The distance does not fall along a diagonal.\<close>

lemma D_mono_diagonal:
  assumes "first_of k \<le> p" "p \<le> q" "q \<le> last_of k"
  shows "D p (p - k) \<le> D q (q - k)"
  using assms
proof (induction "nat (q - p)" arbitrary: q)
  case (Suc d)
  then have before: "p \<le> q - 1" by simp
  then have "D p (p - k) \<le> D (q - 1) (q - 1 - k)" using Suc by simp
  also have "\<dots> \<le> D q (q - k)"
    using D_diagonal [of "q - 1" "q - 1 - k"] before Suc.prems by (simp add: first_of_def last_of_def algebra_simps)
  finally show ?case .
qed simp

text \<open>Entering a diagonal from the one below or above it is sound.\<close>

lemma enter_from_below:
  assumes w: "sound w (h - 1) (k - 1)" and k: "- m \<le> k - 1" "k \<le> n"
  shows "sound (w + 1) h k"
proof -
  have low: "first_of k \<le> w + 1" using w by (auto simp: sound_def first_of_def)
  have last: "last_of (k - 1) \<le> last_of k" "last_of k \<le> last_of (k - 1) + 1" by (auto simp: last_of_def)
  have past: "D n m + 2 \<le> h + \<bar>n - m - k\<bar>" if "last_of k < w + 1"
  proof (cases "last_of (k - 1) < w")
    case True
    then have "D n m + 2 \<le> (h - 1) + \<bar>n - m - (k - 1)\<bar>" using w by (simp add: sound_def)
    then show ?thesis by linarith
  next
    case False
    then have at_end: "w = last_of (k - 1)" "last_of k = last_of (k - 1)" using that last by auto
    then have "clip w (k - 1) = w" by (simp add: clip_def)
    then have "D w (w - (k - 1)) \<le> h - 1" using w by (simp add: sound_def)
    moreover have "D n m \<le> D w (w - (k - 1)) + \<bar>n - m - (k - 1)\<bar>" using to_corner [of "k - 1"] k at_end by simp
    moreover have "\<bar>n - m - k\<bar> = \<bar>n - m - (k - 1)\<bar> + 1" using at_end(2) by (auto simp: last_of_def min_def split: if_splits)
    ultimately show ?thesis by linarith
  qed
  define c where "c = clip w (k - 1)"
  have c: "D c (c - (k - 1)) \<le> h - 1" "first_of (k - 1) \<le> c" "c \<le> last_of (k - 1)"
    using w diagonal_nonempty [of "k - 1"] k by (auto simp: sound_def c_def clip_def)
  have "D (clip (w + 1) k) (clip (w + 1) k - k) \<le> h"
  proof (cases "c + 1 \<le> last_of k")
    case True
    then have "clip (w + 1) k = c + 1" using last by (auto simp: clip_def c_def)
    moreover have "D (c + 1) (c + 1 - k) \<le> D c (c + 1 - k) + 1"
      using D_right [of c "c + 1 - k"] c True k sizes by (auto simp: first_of_def last_of_def)
    ultimately show ?thesis using c by (simp add: algebra_simps)
  next
    case False
    then have c_end: "c = last_of k" "last_of (k - 1) = last_of k" using c last by auto
    then have "clip (w + 1) k = c" by (auto simp: clip_def c_def)
    moreover have "D c (c - k) \<le> D c (c - k + 1) + 1"
      using D_down [of c "c - k"] c c_end k sizes by (auto simp: first_of_def last_of_def)
    ultimately show ?thesis using c by (simp add: algebra_simps)
  qed
  with low past show ?thesis by (simp add: sound_def)
qed

lemma enter_from_above:
  assumes w: "sound w (h - 1) (k + 1)" and k: "- m \<le> k" "k + 1 \<le> n"
  shows "sound w h k"
proof -
  have low: "first_of k \<le> w" using w by (auto simp: sound_def first_of_def)
  have last: "last_of k \<le> last_of (k + 1)" "last_of (k + 1) \<le> last_of k + 1" by (auto simp: last_of_def)
  have past: "D n m + 2 \<le> h + \<bar>n - m - k\<bar>" if "last_of k < w"
  proof (cases "last_of (k + 1) < w")
    case True
    then have "D n m + 2 \<le> (h - 1) + \<bar>n - m - (k + 1)\<bar>" using w by (simp add: sound_def)
    then show ?thesis by linarith
  next
    case False
    then have at_end: "w = last_of (k + 1)" "last_of (k + 1) = last_of k + 1" using that last by auto
    then have "clip w (k + 1) = w" by (simp add: clip_def)
    then have "D w (w - (k + 1)) \<le> h - 1" using w by (simp add: sound_def)
    moreover have "D n m \<le> D w (w - (k + 1)) + \<bar>n - m - (k + 1)\<bar>" using to_corner [of "k + 1"] k at_end by simp
    moreover have "\<bar>n - m - k\<bar> = \<bar>n - m - (k + 1)\<bar> + 1" using at_end(2) by (auto simp: last_of_def min_def split: if_splits)
    ultimately show ?thesis by linarith
  qed
  define c where "c = clip w (k + 1)"
  have c: "D c (c - (k + 1)) \<le> h - 1" "first_of (k + 1) \<le> c" "c \<le> last_of (k + 1)"
    using w diagonal_nonempty [of "k + 1"] k by (auto simp: sound_def c_def clip_def)
  have "D (clip w k) (clip w k - k) \<le> h"
  proof (cases "c \<le> last_of k")
    case True
    then have "clip w k = c" using last by (auto simp: clip_def c_def)
    moreover have "D c (c - (k + 1) + 1) \<le> D c (c - (k + 1)) + 1"
      using D_down [of c "c - (k + 1)"] c True k sizes by (auto simp: first_of_def last_of_def)
    ultimately show ?thesis using c by (simp add: algebra_simps)
  next
    case False
    then have c_end: "c = last_of k + 1" using c last by auto
    then have clipped: "clip w k = c - 1" by (auto simp: clip_def c_def)
    have "D (c - 1) (c - (k + 1)) \<le> D (c - 1 + 1) (c - (k + 1)) + 1"
      using D_right [of "c - 1" "c - (k + 1)"] c c_end k sizes by (auto simp: first_of_def last_of_def)
    then show ?thesis unfolding clipped using c by (simp add: algebra_simps)
  qed
  with low past show ?thesis by (simp add: sound_def)
qed

text \<open>Sliding along the lines shared keeps a reach sound, and makes it the furthest.\<close>

lemma slide_sound:
  assumes "sound x h k" "x \<le> x'" "x' \<le> last_of k \<or> x' = x" "\<And>p. x \<le> p \<Longrightarrow> p < x' \<Longrightarrow> same p (p - k)"
  shows "sound x' h k"
  using assms(2,3,4)
proof (induction "nat (x' - x)" arbitrary: x')
  case 0
  then show ?case using assms(1) by simp
next
  case (Suc d)
  then have inside: "x \<le> x' - 1" "x' \<le> last_of k" by auto
  then have before: "sound (x' - 1) h k" using Suc by simp
  have "D x' (x' - k) = D (x' - 1) (x' - 1 - k)"
    using D_same [of "x' - 1" "x' - 1 - k"] Suc.prems(3) [of "x' - 1"] inside before
    by (auto simp: sound_def first_of_def last_of_def algebra_simps)
  moreover have "clip (x' - 1) k = x' - 1" "clip x' k = x'" using inside by (auto simp: clip_def)
  ultimately show ?case using before inside by (simp add: sound_def)
qed

lemma slide_furthest:
  assumes x: "entered x h k" and x': "x \<le> x'" "x' \<le> last_of k \<or> x' = x" "\<And>p. x \<le> p \<Longrightarrow> p < x' \<Longrightarrow> same p (p - k)"
    and stop: "x' < last_of k \<Longrightarrow> \<not> same x' (x' - k)"
  shows "furthest x' h k"
proof -
  have "sound x h k" using x by (simp add: entered_def)
  then have "sound x' h k" by (rule slide_sound [OF _ x'])
  moreover have "p \<le> x'" if p: "first_of k \<le> p" "p \<le> last_of k" "D p (p - k) \<le> h" for p
  proof (rule ccontr)
    assume "\<not> p \<le> x'"
    then have beyond: "x' + 1 \<le> p" "x' < last_of k" using p by auto
    have low: "first_of k < x' + 1" using x x'(1) by (auto simp: entered_def sound_def)
    have "D (x' + 1) (x' + 1 - k) \<le> h" using D_mono_diagonal [of k "x' + 1" p] p beyond low by simp
    then have "x' + 1 \<le> x" using x stop [OF beyond(2)] low beyond p by (auto simp: entered_def)
    with x'(1) show False by simp
  qed
  ultimately show ?thesis by (simp add: furthest_def)
qed

text \<open>What the neighbours reach within one edit less is all a diagonal can be entered at.\<close>

lemma enter_least:
  assumes p: "first_of k < p" "p \<le> last_of k" "\<not> same (p - 1) (p - 1 - k)" "D p (p - k) \<le> h"
  shows "D p (p - (k + 1)) \<le> h - 1 \<and> first_of (k + 1) \<le> p \<and> p \<le> last_of (k + 1) \<or>
    D (p - 1) (p - 1 - (k - 1)) \<le> h - 1 \<and> first_of (k - 1) \<le> p - 1 \<and> p - 1 \<le> last_of (k - 1)"
proof -
  have "D p (p - k) = 1 + min (D (p - 1) (p - 1 - (k - 1))) (D p (p - (k + 1)))"
    using D_other [of "p - 1" "p - 1 - k"] p by (auto simp: first_of_def last_of_def algebra_simps)
  then have "D p (p - (k + 1)) \<le> h - 1 \<or> D (p - 1) (p - 1 - (k - 1)) \<le> h - 1" using p(4) by linarith
  then show ?thesis using p by (auto simp: first_of_def last_of_def)
qed

lemma outside_diagonal:
  assumes "first_of k \<le> p" "p \<le> last_of k" "D p (p - k) \<le> h"
  shows "\<bar>k\<bar> \<le> h" "- m \<le> k" "k \<le> n"
  using D_low [of p "p - k"] assms by (auto simp: first_of_def last_of_def)

lemma enter_both:
  assumes "furthest a (h - 1) (k + 1)" "furthest b (h - 1) (k - 1)" "- m \<le> k - 1" "k + 1 \<le> n"
  shows "entered (if b < a then a else b + 1) h k"
proof -
  have "sound a h k" "sound (b + 1) h k"
    using enter_from_above [of a h k] enter_from_below [of b h k] assms furthest_sound by auto
  moreover have "p \<le> (if b < a then a else b + 1)"
    if p: "first_of k < p" "p \<le> last_of k" "\<not> same (p - 1) (p - 1 - k)" "D p (p - k) \<le> h" for p
    using enter_least [OF p] furthest_reaches [OF assms(1), of p] furthest_reaches [OF assms(2), of "p - 1"] by auto
  ultimately show ?thesis by (auto simp: entered_def)
qed

lemma enter_lowest:
  assumes "furthest a (h - 1) (k + 1)" "k = - h" "- m \<le> k" "k + 1 \<le> n"
  shows "entered a h k"
proof -
  have "p \<le> a" if p: "first_of k < p" "p \<le> last_of k" "\<not> same (p - 1) (p - 1 - k)" "D p (p - k) \<le> h" for p
    using enter_least [OF p] furthest_reaches [OF assms(1), of p] outside_diagonal(1) [of "k - 1" "p - 1" "h - 1"] assms(2) by auto
  then show ?thesis using enter_from_above [of a h k] assms furthest_sound by (auto simp: entered_def)
qed

lemma enter_highest:
  assumes "furthest b (h - 1) (k - 1)" "k = h" "- m \<le> k - 1" "k \<le> n"
  shows "entered (b + 1) h k"
proof -
  have "p \<le> b + 1" if p: "first_of k < p" "p \<le> last_of k" "\<not> same (p - 1) (p - 1 - k)" "D p (p - k) \<le> h" for p
    using enter_least [OF p] furthest_reaches [OF assms(1), of "p - 1"] outside_diagonal(1) [of "k + 1" p "h - 1"] assms(2) by auto
  then show ?thesis using enter_from_below [of b h k] assms furthest_sound by (auto simp: entered_def)
qed

lemma enter_origin: "entered 0 0 0"
proof -
  have "False" if p: "first_of 0 < p" "p \<le> last_of 0" "\<not> same (p - 1) (p - 1 - 0)" "D p (p - 0) \<le> 0" for p
    using enter_least [OF p] outside_diagonal(1) [of 1 p "- 1"] outside_diagonal(1) [of "- 1" "p - 1" "- 1"] by auto
  moreover have "D 0 0 \<le> 0" using D_high [of 0 0] sizes by simp
  ultimately show ?thesis using sizes by (auto simp: entered_def sound_def first_of_def last_of_def clip_def)
qed

text \<open>A diagonal the rounds leave out is exhausted: its reach is the furthest for every later round.\<close>

lemma exhausted:
  assumes v: "furthest v h k" and k: "- m \<le> k" "k \<le> n" and h: "2 * n - k \<le> h \<or> 2 * m + k \<le> h" and g: "h \<le> g"
  shows "furthest v g k" "last_of k \<le> v"
proof -
  have "D (last_of k) (last_of k - k) \<le> last_of k + (last_of k - k)"
    by (rule D_high) (use k sizes in \<open>auto simp: last_of_def\<close>)
  moreover have "last_of k \<le> n" "last_of k \<le> m + k" by (simp_all add: last_of_def)
  ultimately have "D (last_of k) (last_of k - k) \<le> h" using h by linarith
  then show "last_of k \<le> v" using furthest_reaches [OF v, of "last_of k"] diagonal_nonempty k by simp
  then show "furthest v g k" using v g by (auto simp: furthest_def sound_def)
qed

end

end
