(* ===== verification/Line_Search.thy ===== *)
theory Line_Search
  imports Line_Diff Line_Grid
begin

text \<open>
  The search for a middle snake: the prefixes of two lists are an instance of the grid, the arrays of the
  search hold the furthest reaches of every round, none of its indexings is out of range, and the first
  overlap is one of a shortest path, inside the grid, cut in two halves.
\<close>

definition prefix_dist :: "'a list \<Rightarrow> 'a list \<Rightarrow> int \<Rightarrow> int \<Rightarrow> int" where
  "prefix_dist e f i j = int (edit_dist (take (nat i) e) (take (nat j) f))"

definition same_line :: "'a list \<Rightarrow> 'a list \<Rightarrow> int \<Rightarrow> int \<Rightarrow> bool" where
  "same_line e f i j \<longleftrightarrow> e ! nat i = f ! nat j"

lemma take_next: "0 \<le> i \<Longrightarrow> i < int (length e) \<Longrightarrow> take (nat (i + 1)) e = take (nat i) e @ [e ! nat i]"
  by (simp add: nat_add_distrib take_Suc_conv_app_nth)

lemma edit_dist_snoc:
  "edit_dist (a @ [x]) b = edit_dist (x # rev a) (rev b)"
  "edit_dist a (b @ [y]) = edit_dist (rev a) (y # rev b)"
  using edit_dist_rev [of "a @ [x]" b] edit_dist_rev [of a "b @ [y]"] by simp_all

interpretation prefixes: edit_grid "int (length e)" "int (length f)" "prefix_dist e f" "same_line e f" for e f
proof
  fix i j :: int
  let ?d = "prefix_dist e f"
  assume i: "0 \<le> i" and j: "0 \<le> j"
  show "\<bar>i - j\<bar> \<le> ?d i j" if "i \<le> int (length e)" "j \<le> int (length f)"
    using edit_dist_lower [of "take (nat i) e" "take (nat j) f"] i j that by (simp add: prefix_dist_def)
  show "?d i j \<le> i + j" if "i \<le> int (length e)" "j \<le> int (length f)"
    using edit_dist_upper [of "take (nat i) e" "take (nat j) f"] i j that by (simp add: prefix_dist_def)
  show "?d (i + 1) j \<le> ?d i j + 1 \<and> ?d i j \<le> ?d (i + 1) j + 1" if "i < int (length e)"
    using edit_dist_delete(1) [of "e ! nat i" "rev (take (nat i) e)" "rev (take (nat j) f)"]
      edit_dist_delete(2) [of "rev (take (nat i) e)" "rev (take (nat j) f)" "e ! nat i"] i that
    by (simp add: prefix_dist_def take_next edit_dist_snoc)
  show "?d i (j + 1) \<le> ?d i j + 1 \<and> ?d i j \<le> ?d i (j + 1) + 1" if "j < int (length f)"
    using edit_dist_insert(1) [of "rev (take (nat i) e)" "f ! nat j" "rev (take (nat j) f)"]
      edit_dist_insert(2) [of "rev (take (nat i) e)" "rev (take (nat j) f)" "f ! nat j"] j that
    by (simp add: prefix_dist_def take_next edit_dist_snoc)
  show "?d i j \<le> ?d (i + 1) (j + 1)" if "i < int (length e)" "j < int (length f)"
    using edit_dist_diagonal [of "rev (take (nat i) e)" "rev (take (nat j) f)" "e ! nat i" "f ! nat j"] i j that
    by (simp add: prefix_dist_def take_next edit_dist_snoc)
  show "?d (i + 1) (j + 1) = ?d i j" if "i < int (length e)" "j < int (length f)" "same_line e f i j"
    using i j that by (simp add: prefix_dist_def take_next edit_dist_snoc same_line_def)
  show "?d (i + 1) (j + 1) = 1 + min (?d i (j + 1)) (?d (i + 1) j)"
    if "i < int (length e)" "j < int (length f)" "\<not> same_line e f i j"
    using i j that by (simp add: prefix_dist_def take_next edit_dist_snoc same_line_def min_def)
qed simp_all

abbreviation far :: "'a list \<Rightarrow> 'a list \<Rightarrow> int \<Rightarrow> int \<Rightarrow> int \<Rightarrow> bool" where
  "far e f \<equiv> edit_grid.furthest (int (length e)) (int (length f)) (prefix_dist e f)"

abbreviation enters :: "'a list \<Rightarrow> 'a list \<Rightarrow> int \<Rightarrow> int \<Rightarrow> int \<Rightarrow> bool" where
  "enters e f \<equiv> edit_grid.entered (int (length e)) (int (length f)) (prefix_dist e f) (same_line e f)"

abbreviation sounds :: "'a list \<Rightarrow> 'a list \<Rightarrow> int \<Rightarrow> int \<Rightarrow> int \<Rightarrow> bool" where
  "sounds e f \<equiv> edit_grid.sound (int (length e)) (int (length f)) (prefix_dist e f)"

abbreviation diag_end :: "'a list \<Rightarrow> 'a list \<Rightarrow> int \<Rightarrow> int" where
  "diag_end e f \<equiv> edit_grid.last_of (int (length e)) (int (length f))"

text \<open>The lists as a pass reads them.\<close>

definition turned :: "nat \<Rightarrow> 'a list \<Rightarrow> 'a list" where
  "turned pass e = (if pass = 0 then e else rev e)"

lemma length_turned [simp]: "length (turned pass e) = length e"
  by (simp add: turned_def)

lemma line_of_turned: "0 \<le> x \<Longrightarrow> x < int (length e) \<Longrightarrow> line_of pass e x = Some (turned pass e ! nat x)"
  by (auto simp: line_of_def turned_def at_index_def rev_nth nat_diff_distrib' intro!: arg_cong [of _ _ "nth e"])

lemma slide_ok:
  assumes "0 \<le> x" "0 \<le> x - k"
  shows "\<exists>x'. slide pass e f x (x - k) = Some (x', x' - k) \<and> x \<le> x' \<and> (x' \<le> diag_end e f k \<or> x' = x) \<and>
    (\<forall>p. x \<le> p \<longrightarrow> p < x' \<longrightarrow> same_line (turned pass e) (turned pass f) p (p - k)) \<and>
    (x' < diag_end e f k \<longrightarrow> \<not> same_line (turned pass e) (turned pass f) x' (x' - k))"
  using assms
proof (induction "nat (int (length e) - x)" arbitrary: x rule: less_induct)
  case less
  let ?same = "same_line (turned pass e) (turned pass f)"
  show ?case
  proof (cases "x < diag_end e f k")
    case False
    then have "slide pass e f x (x - k) = Some (x, x - k)"
      by (subst slide.simps) (auto simp: prefixes.last_of_def)
    then show ?thesis using False by auto
  next
    case True
    then have inside: "x < int (length e)" "x - k < int (length f)" by (auto simp: prefixes.last_of_def)
    then have step: "slide pass e f x (x - k) = (if ?same x (x - k) then slide pass e f (x + 1) (x + 1 - k) else Some (x, x - k))"
      using less.prems by (subst slide.simps) (simp add: line_of_turned same_line_def algebra_simps)
    show ?thesis
    proof (cases "?same x (x - k)")
      case same: True
      obtain x' where x': "slide pass e f (x + 1) (x + 1 - k) = Some (x', x' - k)" "x + 1 \<le> x'"
        "x' \<le> diag_end e f k \<or> x' = x + 1" "\<forall>p. x + 1 \<le> p \<longrightarrow> p < x' \<longrightarrow> ?same p (p - k)"
        "x' < diag_end e f k \<longrightarrow> \<not> ?same x' (x' - k)"
        using less.hyps [of "x + 1"] less.prems inside by auto
      have "?same p (p - k)" if "x \<le> p" "p < x'" for p
        using that same x'(4) by (cases "p = x") auto
      then show ?thesis using x' step same True by (intro exI [of _ x']) auto
    qed (use step True in auto)
  qed
qed

text \<open>A shortest script cut in two, and how its halves look from the far corner.\<close>

definition cut_of :: "'a list \<Rightarrow> 'a list \<Rightarrow> nat \<Rightarrow> nat \<Rightarrow> nat \<Rightarrow> nat \<Rightarrow> bool" where
  "cut_of e f s t i j \<longleftrightarrow> i \<le> length e \<and> j \<le> length f \<and>
     edit_dist (take i e) (take j f) = s \<and> edit_dist (drop i e) (drop j f) = t"

lemma cut_exists:
  assumes "edit_dist e f = s + t"
  shows "\<exists>i j. cut_of e f s t i j"
proof -
  obtain i j where ij: "i \<le> length e" "j \<le> length f" "edits (take i e) (take j f) s" "edits (drop i e) (drop j f) t"
    using edits_split [OF edits_edit_dist, of s e f] assms by auto
  have "s + t \<le> edit_dist (take i e) (take j f) + edit_dist (drop i e) (drop j f)"
    using edit_dist_append [of "take i e" "drop i e" "take j f" "drop j f"] assms by simp
  then have "cut_of e f s t i j" using ij edit_dist_least [OF ij(3)] edit_dist_least [OF ij(4)] by (simp add: cut_of_def)
  then show ?thesis by blast
qed

lemma from_far_corner:
  assumes "0 \<le> i" "i \<le> int (length e)" "0 \<le> j" "j \<le> int (length f)"
  shows "prefix_dist (rev e) (rev f) (int (length e) - i) (int (length f) - j) = int (edit_dist (drop (nat i) e) (drop (nat j) f))"
proof -
  have "take (nat (int (length e) - i)) (rev e) = rev (drop (nat i) e)" "take (nat (int (length f) - j)) (rev f) = rev (drop (nat j) f)"
    using assms by (simp_all add: rev_drop nat_diff_distrib')
  then show ?thesis by (simp add: prefix_dist_def)
qed

lemma whole_dist: "prefix_dist e f (int (length e)) (int (length f)) = int (edit_dist e f)"
  by (simp add: prefix_dist_def)

text \<open>An overlap when none was due before is on a shortest path and inside the grid.\<close>

lemma overlap_meets:
  fixes e f :: "'a list"
  defines "n \<equiv> int (length e)" and "m \<equiv> int (length f)"
  assumes s: "sounds e f s h k" and x: "s \<le> x" "sounds e f x h k" and same: "\<And>p. s \<le> p \<Longrightarrow> p < x \<Longrightarrow> same_line e f p (p - k)"
    and k: "- m \<le> k" "k \<le> n" and r: "sounds (rev e) (rev f) r g (n - m - k)"
    and z: "\<bar>n - m - k\<bar> \<le> g" and over: "n \<le> x + r" and due: "h + g \<le> int (edit_dist e f)"
  shows "x \<le> diag_end e f k" "int (edit_dist e f) = h + g"
    "int (edit_dist (take (nat s) e) (take (nat (s - k)) f)) \<le> h"
    "int (edit_dist (drop (nat x) e) (drop (nat (x - k)) f)) \<le> g"
    "take (nat (x - s)) (drop (nat s) e) = take (nat (x - s)) (drop (nat (s - k)) f)"
proof -
  let ?z = "n - m - k"
  show inside: "x \<le> diag_end e f k"
    using x(2) z due unfolding prefixes.sound_def whole_dist n_def m_def by linarith
  have low: "0 \<le> s" "0 \<le> s - k" using s by (auto simp: prefixes.sound_def prefixes.first_of_def)
  have "prefix_dist e f s (s - k) \<le> h" "prefix_dist e f x (x - k) \<le> h"
    using s x inside by (auto simp: prefixes.sound_def prefixes.clip_def min_absorb1)
  then show head: "int (edit_dist (take (nat s) e) (take (nat (s - k)) f)) \<le> h" by (simp add: prefix_dist_def)
  define c where "c = edit_grid.clip n m r ?z"
  have rev_len: "int (length (rev e)) = n" "int (length (rev f)) = m" by (simp_all add: n_def m_def)
  have first: "edit_grid.first_of ?z \<le> diag_end (rev e) (rev f) ?z"
    using prefixes.diagonal_nonempty [of "rev f" ?z "rev e"] k by (simp add: n_def m_def)
  have c: "prefix_dist (rev e) (rev f) c (c - ?z) \<le> g" "n - x \<le> c" "c \<le> edit_grid.last_of n m ?z"
  proof -
    show "prefix_dist (rev e) (rev f) c (c - ?z) \<le> g"
      using r prefixes.sound_def [of "rev e" "rev f", unfolded length_rev] by (simp add: c_def n_def m_def)
    show "c \<le> edit_grid.last_of n m ?z" using prefixes.clip_def [of e f r ?z] by (simp add: c_def n_def m_def)
    show "n - x \<le> c"
      using prefixes.clip_def [of e f r ?z] prefixes.last_of_def [of e f ?z] over x(1) low k by (simp add: c_def n_def m_def)
  qed
  have inside': "0 \<le> x" "x \<le> n" "0 \<le> x - k" "x - k \<le> m"
    using inside x(1) low by (auto simp: prefixes.last_of_def n_def m_def)
  have "prefix_dist (rev e) (rev f) (n - x) (n - x - ?z) \<le> prefix_dist (rev e) (rev f) c (c - ?z)"
    by (rule prefixes.D_mono_diagonal)
      (use c inside' in \<open>auto simp: prefixes.first_of_def n_def m_def\<close>)
  moreover have same_point: "n - x - ?z = m - (x - k)" by simp
  ultimately have "prefix_dist (rev e) (rev f) (n - x) (m - (x - k)) \<le> g" using c(1) by simp
  then show tail: "int (edit_dist (drop (nat x) e) (drop (nat (x - k)) f)) \<le> g"
    using from_far_corner [of x e "x - k" f] inside' unfolding n_def m_def by linarith
  have "edit_dist e f \<le> edit_dist (take (nat x) e) (take (nat (x - k)) f) + edit_dist (drop (nat x) e) (drop (nat (x - k)) f)"
    using edit_dist_append [of "take (nat x) e" "drop (nat x) e" "take (nat (x - k)) f" "drop (nat (x - k)) f"] by simp
  moreover have "int (edit_dist (take (nat x) e) (take (nat (x - k)) f)) \<le> h"
    using \<open>prefix_dist e f x (x - k) \<le> h\<close> by (simp add: prefix_dist_def)
  ultimately show "int (edit_dist e f) = h + g" using tail due by linarith
  show "take (nat (x - s)) (drop (nat s) e) = take (nat (x - s)) (drop (nat (s - k)) f)"
  proof (rule nth_equalityI)
    show "length (take (nat (x - s)) (drop (nat s) e)) = length (take (nat (x - s)) (drop (nat (s - k)) f))"
      using inside' low x(1) by (auto simp: n_def m_def)
    fix i
    assume "i < length (take (nat (x - s)) (drop (nat s) e))"
    then have i: "int i < x - s" by auto
    then have "same_line e f (s + int i) (s + int i - k)" using same [of "s + int i"] by simp
    moreover have "nat (s + int i) = nat s + i" "nat (s + int i - k) = nat (s - k) + i" using low by auto
    ultimately have "e ! (nat s + i) = f ! (nat (s - k) + i)" by (simp add: same_line_def)
    then show "take (nat (x - s)) (drop (nat s) e) ! i = take (nat (x - s)) (drop (nat (s - k)) f) ! i"
      using i inside' low x(1) by (simp add: n_def m_def)
  qed
qed

text \<open>The array of a direction: the furthest reaches of two rounds, one on the even and one on the odd diagonals.\<close>

definition cell :: "'a list \<Rightarrow> int list \<Rightarrow> int \<Rightarrow> int" where
  "cell f own k = own ! nat (k + (int (length f) + 1))"

definition on_grid :: "'a list \<Rightarrow> 'a list \<Rightarrow> int \<Rightarrow> int \<Rightarrow> bool" where
  "on_grid e f h k \<longleftrightarrow> - int (length f) \<le> k \<and> k \<le> int (length e) \<and> \<bar>k\<bar> \<le> h \<and> even (h - k)"

definition level :: "'a list \<Rightarrow> 'a list \<Rightarrow> int list \<Rightarrow> int \<Rightarrow> bool" where
  "level e f own h \<longleftrightarrow> (\<forall>k. on_grid e f h k \<longrightarrow> far e f (cell f own k) h k)"

definition arrayed :: "'a list \<Rightarrow> 'a list \<Rightarrow> int list \<Rightarrow> int \<Rightarrow> bool" where
  "arrayed e f own h \<longleftrightarrow> length own = length e + length f + 3 \<and> level e f own h \<and> level e f own (h - 1) \<and>
     (h < 0 \<longrightarrow> cell f own 1 = 0)"

text \<open>In the middle of round \<open>h\<close>: the diagonals before \<open>k\<close> are of this round, the others of two rounds before.\<close>

definition partway :: "'a list \<Rightarrow> 'a list \<Rightarrow> int list \<Rightarrow> int \<Rightarrow> int \<Rightarrow> bool" where
  "partway e f own h k \<longleftrightarrow> length own = length e + length f + 3 \<and> level e f own (h - 1) \<and> (h = 0 \<longrightarrow> cell f own 1 = 0) \<and>
     (\<forall>p. on_grid e f h p \<longrightarrow> p < k \<longrightarrow> far e f (cell f own p) h p) \<and>
     (\<forall>p. on_grid e f (h - 2) p \<longrightarrow> k \<le> p \<longrightarrow> far e f (cell f own p) (h - 2) p)"

definition low_diag :: "'a list \<Rightarrow> int \<Rightarrow> int" where
  "low_diag f h = - (h - 2 * max 0 (h - int (length f)))"

definition high_diag :: "'a list \<Rightarrow> int \<Rightarrow> int" where
  "high_diag e h = h - 2 * max 0 (h - int (length e))"

lemma diag_range:
  assumes "0 \<le> h" "low_diag f h \<le> k" "k \<le> high_diag e h" "even (h - k)"
  shows "on_grid e f h k" "k \<noteq> - h \<Longrightarrow> - int (length f) \<le> k - 1" "k \<noteq> h \<Longrightarrow> k + 1 \<le> int (length e)"
  using assms by (auto simp: on_grid_def low_diag_def high_diag_def max_def split: if_splits)

lemma left_out:
  assumes "on_grid e f h k" "k < low_diag f h \<or> high_diag e h < k"
  shows "on_grid e f (h - 2) k" "2 * int (length e) - k \<le> h - 2 \<or> 2 * int (length f) + k \<le> h - 2"
proof -
  have "k < low_diag f h \<Longrightarrow> 2 * int (length f) + k < h" "high_diag e h < k \<Longrightarrow> 2 * int (length e) - k < h"
    using assms by (auto simp: on_grid_def low_diag_def high_diag_def max_def split: if_splits)
  then have less: "2 * int (length e) - k < h \<or> 2 * int (length f) + k < h" using assms(2) by blast
  have "2 * int (length e) - k \<noteq> h - 1" "2 * int (length f) + k \<noteq> h - 1"
    using assms(1) by (auto simp: on_grid_def) presburger+
  then show bound: "2 * int (length e) - k \<le> h - 2 \<or> 2 * int (length f) + k \<le> h - 2" using less by linarith
  then show "on_grid e f (h - 2) k" using assms(1) by (auto simp: on_grid_def)
qed

lemma left_out_far:
  assumes "on_grid e f h k" "k < low_diag f h \<or> high_diag e h < k" "far e f v (h - 2) k"
  shows "far e f v h k" "diag_end e f k \<le> v"
  using prefixes.exhausted [OF assms(3) _ _ left_out(2) [OF assms(1,2)], of h] assms(1) by (auto simp: on_grid_def)

lemma partway_first:
  assumes "arrayed e f own (h - 1)" "0 \<le> h"
  shows "partway e f own h (low_diag f h)"
proof -
  have "far e f (cell f own p) h p" if "on_grid e f h p" "p < low_diag f h" for p
    using left_out_far(1) [OF that(1)] left_out(1) [OF that(1)] that(2) assms(1) by (auto simp: arrayed_def level_def)
  then show ?thesis using assms by (auto simp: partway_def arrayed_def level_def)
qed

lemma partway_last:
  assumes "partway e f own h k" "high_diag e h < k" "0 \<le> h"
  shows "arrayed e f own h"
proof -
  have "far e f (cell f own p) h p" if p: "on_grid e f h p" for p
  proof (cases "p < k")
    case False
    then show ?thesis
      using left_out_far(1) [OF p] left_out(1) [OF p] assms by (auto simp: partway_def)
  qed (use assms p in \<open>auto simp: partway_def\<close>)
  then show ?thesis using assms by (auto simp: arrayed_def level_def partway_def)
qed

text \<open>One diagonal: what it is entered at, and the array after it.\<close>

lemma at_index_cell:
  "length own = length e + length f + 3 \<Longrightarrow> - int (length f) - 1 \<le> k \<Longrightarrow> k \<le> int (length e) + 1 \<Longrightarrow>
     at_index own (k + (int (length f) + 1)) = Some (cell f own k)"
  by (simp add: at_index_def cell_def)

lemma enter_ok:
  assumes own: "partway e f own h k" and k: "low_diag f h \<le> k" "k \<le> high_diag e h" "even (h - k)" "0 \<le> h"
  shows "\<exists>x. enter_diagonal own (int (length f) + 1) h k = Some x \<and> enters e f x h k"
proof -
  note grid = diag_range [OF k(4,1-3)]
  have len: "length own = length e + length f + 3" using own by (simp add: partway_def)
  have inside: "- int (length f) \<le> k" "k \<le> int (length e)" "\<bar>k\<bar> \<le> h" using grid(1) by (auto simp: on_grid_def)
  have above: "at_index own (k + 1 + (int (length f) + 1)) = Some (cell f own (k + 1))"
    and below: "at_index own (k - 1 + (int (length f) + 1)) = Some (cell f own (k - 1))"
    using at_index_cell [OF len, of "k + 1"] at_index_cell [OF len, of "k - 1"] inside by simp_all
  have far_above: "far e f (cell f own (k + 1)) (h - 1) (k + 1)" if "k \<noteq> h"
  proof -
    have "k \<noteq> h - 1" using k(3) by auto
    then have "\<bar>k + 1\<bar> \<le> h - 1" using that inside by linarith
    then have "on_grid e f (h - 1) (k + 1)" using grid(3) [OF that] k(3) inside by (simp add: on_grid_def)
    then show ?thesis using own by (simp add: partway_def level_def)
  qed
  have far_below: "far e f (cell f own (k - 1)) (h - 1) (k - 1)" if "k \<noteq> - h"
  proof -
    have "k \<noteq> 1 - h" using k(3) by presburger
    then have "\<bar>k - 1\<bar> \<le> h - 1" using that inside by linarith
    then have "on_grid e f (h - 1) (k - 1)" using grid(2) [OF that] k(3) inside by (simp add: on_grid_def)
    then show ?thesis using own by (simp add: partway_def level_def)
  qed
  consider "h = 0" | "k = - h" "k \<noteq> h" | "k = h" "k \<noteq> - h" | "k \<noteq> h" "k \<noteq> - h" by linarith
  then show ?thesis
  proof cases
    case 1
    then have "k = 0" using inside by simp
    then have "enter_diagonal own (int (length f) + 1) h k = Some 0"
      using 1 above own by (simp add: enter_diagonal_def partway_def)
    then show ?thesis using prefixes.enter_origin 1 \<open>k = 0\<close> by auto
  next
    case 2
    then show ?thesis using above prefixes.enter_lowest [OF far_above] grid(3) inside by (simp add: enter_diagonal_def)
  next
    case 3
    then show ?thesis using below prefixes.enter_highest [OF far_below] grid(2) inside by (simp add: enter_diagonal_def)
  next
    case 4
    then show ?thesis using above below prefixes.enter_both [OF far_above far_below] grid by (simp add: enter_diagonal_def)
  qed
qed

lemma cell_update:
  assumes "- int (length f) \<le> k" "- int (length f) \<le> p" "k \<le> int (length e)" "length own = length e + length f + 3"
  shows "cell f (own[nat (k + (int (length f) + 1)) := x]) p = (if p = k then x else cell f own p)"
  using assms by (auto simp: nth_list_update cell_def)

lemma store_ok:
  assumes own: "partway e f own h k" and k: "on_grid e f h k" and x: "far e f x h k"
  defines "own' \<equiv> own[nat (k + (int (length f) + 1)) := x]"
  shows "store_at own (k + (int (length f) + 1)) x = Some own'" "partway e f own' h (k + 2)" "cell f own' k = x"
proof -
  have len: "length own = length e + length f + 3" using own by (simp add: partway_def)
  have inside: "- int (length f) \<le> k" "k \<le> int (length e)" "\<bar>k\<bar> \<le> h" "even (h - k)" using k by (auto simp: on_grid_def)
  show "store_at own (k + (int (length f) + 1)) x = Some own'" using len inside by (simp add: store_at_def own'_def)
  have cells: "cell f own' p = (if p = k then x else cell f own p)" if "- int (length f) \<le> p" for p
    unfolding own'_def by (rule cell_update [OF inside(1) that inside(2) len])
  show "cell f own' k = x" using cells [of k] inside by simp
  have "level e f own' (h - 1)" unfolding level_def
  proof (intro allI impI)
    fix p
    assume p: "on_grid e f (h - 1) p"
    then have "p \<noteq> k" using inside(4) by (auto simp: on_grid_def)
    moreover have "far e f (cell f own p) (h - 1) p" using own p by (simp add: partway_def level_def)
    ultimately show "far e f (cell f own' p) (h - 1) p" using cells [of p] p by (simp add: on_grid_def)
  qed
  moreover have "far e f (cell f own' p) h p" if p: "on_grid e f h p" "p < k + 2" for p
  proof (cases "p = k")
    case False
    have "p \<noteq> k + 1" using p(1) inside(4) by (auto simp: on_grid_def)
    then have "far e f (cell f own p) h p" using own p False by (simp add: partway_def)
    then show ?thesis using cells [of p] p(1) False by (simp add: on_grid_def)
  qed (use x cells inside in simp)
  moreover have "far e f (cell f own' p) (h - 2) p" if p: "on_grid e f (h - 2) p" "k + 2 \<le> p" for p
  proof -
    have "far e f (cell f own p) (h - 2) p" using own p by (simp add: partway_def)
    then show ?thesis using cells [of p] p by (simp add: on_grid_def)
  qed
  moreover have "h = 0 \<longrightarrow> cell f own' 1 = 0"
    using cells [of 1] inside own by (auto simp: partway_def)
  ultimately show "partway e f own' h (k + 2)" using len by (simp add: partway_def own'_def)
qed

text \<open>What a search answers: the middle snake of a shortest path, which it cuts in halves.\<close>

definition good_meet :: "'a list \<Rightarrow> 'a list \<Rightarrow> Meet \<Rightarrow> bool" where
  "good_meet e f w \<longleftrightarrow>
     0 \<le> me_headX w \<and> me_headX w \<le> me_tailX w \<and> me_tailX w \<le> int (length e) \<and>
     0 \<le> me_headY w \<and> me_headY w \<le> me_tailY w \<and> me_tailY w \<le> int (length f) \<and>
     me_tailX w - me_headX w = me_tailY w - me_headY w \<and>
     take (nat (me_tailX w - me_headX w)) (drop (nat (me_headX w)) e) =
       take (nat (me_tailX w - me_headX w)) (drop (nat (me_headY w)) f) \<and>
     me_steps w = int (edit_dist e f) \<and>
     2 * edit_dist (take (nat (me_headX w)) e) (take (nat (me_headY w)) f) \<le> edit_dist e f + 1 \<and>
     2 * edit_dist (drop (nat (me_tailX w)) e) (drop (nat (me_tailY w)) f) \<le> edit_dist e f + 1 \<and>
     edit_dist (take (nat (me_headX w)) e) (take (nat (me_headY w)) f) +
       edit_dist (drop (nat (me_tailX w)) e) (drop (nat (me_tailY w)) f) \<le> edit_dist e f"

lemma good_meet_forward:
  assumes s: "sounds e f s h k" and x: "s \<le> x" "x \<le> diag_end e f k" and d: "int (edit_dist e f) = 2 * h - 1"
    and head: "int (edit_dist (take (nat s) e) (take (nat (s - k)) f)) \<le> h"
    and tail: "int (edit_dist (drop (nat x) e) (drop (nat (x - k)) f)) \<le> h - 1"
    and same: "take (nat (x - s)) (drop (nat s) e) = take (nat (x - s)) (drop (nat (s - k)) f)"
  shows "good_meet e f (meet_at 0 (int (length e)) (int (length f)) h s (s - k) x (x - k))"
  using assms by (simp add: good_meet_def meet_at_def prefixes.sound_def prefixes.first_of_def prefixes.last_of_def)

lemma take_rev_len: "0 \<le> x \<Longrightarrow> x \<le> int (length e) \<Longrightarrow> take (nat x) (rev e) = rev (drop (nat (int (length e) - x)) e)"
  by (simp add: take_rev nat_diff_distrib')

lemma drop_rev_len: "0 \<le> x \<Longrightarrow> x \<le> int (length e) \<Longrightarrow> drop (nat x) (rev e) = rev (take (nat (int (length e) - x)) e)"
  by (simp add: drop_rev nat_diff_distrib')

lemma rev_segment:
  assumes "0 \<le> s" "s \<le> x" "x \<le> int (length e)"
  shows "take (nat (x - s)) (drop (nat s) (rev e)) = rev (take (nat (x - s)) (drop (nat (int (length e) - x)) e))"
proof -
  have "drop (nat s) (rev e) = rev (take (nat (int (length e) - s)) e)" using assms by (intro drop_rev_len) auto
  then have "take (nat (x - s)) (drop (nat s) (rev e)) = rev (drop (nat (int (length e) - s) - nat (x - s)) (take (nat (int (length e) - s)) e))"
    using assms by (simp add: take_rev)
  also have "nat (int (length e) - s) - nat (x - s) = nat (int (length e) - x)" using assms by (simp add: nat_diff_distrib')
  also have "drop (nat (int (length e) - x)) (take (nat (int (length e) - s)) e) = take (nat (x - s)) (drop (nat (int (length e) - x)) e)"
  proof -
    have "nat (int (length e) - s) = nat (int (length e) - x) + nat (x - s)" using assms by (simp add: nat_diff_distrib')
    then show ?thesis by (simp add: drop_take)
  qed
  finally show ?thesis .
qed

lemma good_meet_backward:
  assumes s: "sounds (rev e) (rev f) s h k" and x: "s \<le> x" "x \<le> diag_end (rev e) (rev f) k" and d: "int (edit_dist e f) = 2 * h"
    and head: "int (edit_dist (take (nat s) (rev e)) (take (nat (s - k)) (rev f))) \<le> h"
    and tail: "int (edit_dist (drop (nat x) (rev e)) (drop (nat (x - k)) (rev f))) \<le> h"
    and same: "take (nat (x - s)) (drop (nat s) (rev e)) = take (nat (x - s)) (drop (nat (s - k)) (rev f))"
  shows "good_meet e f (meet_at 1 (int (length e)) (int (length f)) h s (s - k) x (x - k))"
proof -
  have range: "0 \<le> s" "0 \<le> s - k" "x \<le> int (length e)" "x - k \<le> int (length f)"
    using s x prefixes.sound_def [of "rev e" "rev f", unfolded length_rev]
    by (auto simp: prefixes.first_of_def prefixes.last_of_def)
  have eqs: "take (nat s) (rev e) = rev (drop (nat (int (length e) - s)) e)"
    "take (nat (s - k)) (rev f) = rev (drop (nat (int (length f) - (s - k))) f)"
    "drop (nat x) (rev e) = rev (take (nat (int (length e) - x)) e)"
    "drop (nat (x - k)) (rev f) = rev (take (nat (int (length f) - (x - k))) f)"
    using range x(1) by (auto intro!: take_rev_len drop_rev_len)
  have "take (nat (x - s)) (drop (nat (int (length e) - x)) e) = take (nat (x - s)) (drop (nat (int (length f) - (x - k))) f)"
    using same rev_segment [of s x e] rev_segment [of "s - k" "x - k" f] range x(1) by simp
  then show ?thesis
    using range x(1) d head tail unfolding eqs edit_dist_rev good_meet_def meet_at_def by simp
qed

text \<open>A cut of a shortest path lies on a diagonal the round visits.\<close>

lemma cut_diag:
  assumes "cut_of e f s t i j"
  shows "on_grid e f (int s) (int i - int j)" "int s \<le> int i + int j" "prefix_dist e f (int i) (int j) = int s"
    "prefix_dist (rev e) (rev f) (int (length e) - int i) (int (length f) - int j) = int t"
    "\<bar>int (length e) - int (length f) - (int i - int j)\<bar> \<le> int t"
proof -
  have c: "i \<le> length e" "j \<le> length f" "edit_dist (take i e) (take j f) = s" "edit_dist (drop i e) (drop j f) = t"
    using assms by (auto simp: cut_of_def)
  have "even (s + i + j)" using edit_dist_parity [of "take i e" "take j f"] c by simp
  then show "on_grid e f (int s) (int i - int j)"
    using edit_dist_lower [of "take i e" "take j f"] c by (auto simp: on_grid_def)
  show "int s \<le> int i + int j" using edit_dist_upper [of "take i e" "take j f"] c by simp
  show "prefix_dist e f (int i) (int j) = int s" using c by (simp add: prefix_dist_def)
  show "prefix_dist (rev e) (rev f) (int (length e) - int i) (int (length f) - int j) = int t"
    using from_far_corner [of "int i" e "int j" f] c by simp
  show "\<bar>int (length e) - int (length f) - (int i - int j)\<bar> \<le> int t"
    using edit_dist_lower [of "drop i e" "drop j f"] c by simp
qed

lemma cut_visited:
  assumes "cut_of e f s t i j"
  shows "low_diag f (int s) \<le> int i - int j" "int i - int j \<le> high_diag e (int s)"
proof -
  have c: "i \<le> length e" "j \<le> length f" using assms by (auto simp: cut_of_def)
  have "\<not> (int i - int j < low_diag f (int s) \<or> high_diag e (int s) < int i - int j)"
    using left_out(2) [OF cut_diag(1) [OF assms]] cut_diag(2) [OF assms] c by linarith
  then show "low_diag f (int s) \<le> int i - int j" "int i - int j \<le> high_diag e (int s)" by auto
qed

text \<open>One pass over the diagonals of round \<open>h\<close>: \<open>g\<close> is how far the other direction has come.\<close>

lemma overlap_read:
  assumes other: "arrayed e' f' other g" "length e' = length e" "length f' = length f" and k: "on_grid e f h k"
    and g: "g = h - (if pass = 1 then 0 else 1)"
  defines "n \<equiv> int (length e)" and "m \<equiv> int (length f)"
  defines "due \<equiv> even (n + m - (h + g)) \<and> \<bar>n - m - k\<bar> \<le> g"
  shows "overlaps pass n m other (m + 1) h k x = Some (due \<and> x + cell f' other (n - m - k) \<ge> n)"
    "due \<Longrightarrow> far e' f' (cell f' other (n - m - k)) g (n - m - k)"
proof -
  have len: "length other = length e' + length f' + 3" using other(1) by (simp add: arrayed_def)
  have odd_pass: "h - (if pass = 1 then 0 else 1) = g" by (simp add: g)
  have "(n + m) mod 2 = (if pass = 1 then 0 else 1) \<longleftrightarrow> even (n + m - (h + g))"
    unfolding g by (cases "pass = 1") (simp_all add: even_iff_mod_2_eq_zero, presburger+)
  then have guard: "(n + m) mod 2 = (if pass = 1 then 0 else 1) \<and> - (h - (if pass = 1 then 0 else 1)) \<le> n - m - k \<and>
      n - m - k \<le> h - (if pass = 1 then 0 else 1) \<longleftrightarrow> due"
    unfolding due_def odd_pass by auto
  have "at_index other (n - m - k + (m + 1)) = Some (cell f' other (n - m - k))"
    using at_index_cell [OF len, of "n - m - k"] k other(2,3) by (simp add: on_grid_def n_def m_def)
  then show "overlaps pass n m other (m + 1) h k x = Some (due \<and> x + cell f' other (n - m - k) \<ge> n)"
    unfolding overlaps_def Let_def using guard by (auto simp: algebra_simps)
  assume due
  then have "on_grid e' f' g (n - m - k)"
    using k other(2,3) g unfolding due_def on_grid_def n_def m_def by (auto split: if_splits)
  then show "far e' f' (cell f' other (n - m - k)) g (n - m - k)" using other(1) by (simp add: arrayed_def level_def)
qed

lemma turned_back: "pass = 0 \<or> pass = 1 \<Longrightarrow> turned (1 - pass) e = rev (turned pass e)"
  by (auto simp: turned_def)

lemma edit_dist_turned [simp]: "edit_dist (turned pass e) (turned pass f) = edit_dist e f"
  by (simp add: turned_def)

lemma enters_low: "enters e f x h k \<Longrightarrow> sounds e f x h k \<and> 0 \<le> x \<and> 0 \<le> x - k"
  by (auto simp: prefixes.entered_def prefixes.sound_def prefixes.first_of_def)

text \<open>One turn of the loop.\<close>

lemma diagonal_step:
  assumes pass: "pass = 0 \<or> pass = 1" and g: "g = h - (if pass = 1 then 0 else 1)" and h: "0 \<le> h"
    and due: "h + g \<le> int (edit_dist e f)"
    and other: "arrayed (turned (1 - pass) e) (turned (1 - pass) f) other g"
    and own: "partway (turned pass e) (turned pass f) own h k"
    and k: "low_diag f h \<le> k" "k \<le> high_diag e h" "even (h - k)"
  shows "(\<exists>w. diagonals pass e f h k own other = Some (Inl w) \<and> good_meet e f w) \<or>
    (\<exists>own'. diagonals pass e f h k own other = diagonals pass e f h (k + 2) own' other \<and>
       partway (turned pass e) (turned pass f) own' h (k + 2) \<and>
       (\<forall>i j. cut_of (turned pass e) (turned pass f) (nat h) (nat g) i j \<longrightarrow> 0 \<le> g \<longrightarrow> int i - int j \<noteq> k))"
proof -
  let ?E = "turned pass e" and ?F = "turned pass f"
  define n where "n = int (length e)"
  define m where "m = int (length f)"
  have k': "low_diag ?F h \<le> k" "k \<le> high_diag ?E h" using k by (simp_all add: low_diag_def high_diag_def)
  have grid: "on_grid ?E ?F h k" by (rule diag_range(1) [OF h k' k(3)])
  have behind: "turned (1 - pass) e = rev ?E" "turned (1 - pass) f = rev ?F" using turned_back pass by auto
  obtain s where s: "enter_diagonal own (m + 1) h k = Some s" "enters ?E ?F s h k"
    using enter_ok [OF own k' k(3) h] by (auto simp: m_def)
  note low = enters_low [OF s(2)]
  obtain x where x: "slide pass e f s (s - k) = Some (x, x - k)" "s \<le> x" "x \<le> diag_end ?E ?F k \<or> x = s"
    "\<And>p. s \<le> p \<Longrightarrow> p < x \<Longrightarrow> same_line ?E ?F p (p - k)" "x < diag_end ?E ?F k \<Longrightarrow> \<not> same_line ?E ?F x (x - k)"
    using slide_ok [of s k pass e f] low by auto
  have far_x: "far ?E ?F x h k" by (rule prefixes.slide_furthest [OF s(2) x(2-5)])
  define own' where "own' = own[nat (k + (int (length ?F) + 1)) := x]"
  note store = store_ok [OF own grid far_x, folded own'_def]
  define r where "r = cell (rev ?F) other (n - m - k)"
  define hit where "hit \<longleftrightarrow> even (n + m - (h + g)) \<and> \<bar>n - m - k\<bar> \<le> g \<and> x + r \<ge> n"
  have other': "arrayed (rev ?E) (rev ?F) other g" using other behind by simp
  have read: "overlaps pass n m other (m + 1) h k x = Some (even (n + m - (h + g)) \<and> \<bar>n - m - k\<bar> \<le> g \<and> x + r \<ge> n)"
    "even (n + m - (h + g)) \<and> \<bar>n - m - k\<bar> \<le> g \<Longrightarrow> far (rev ?E) (rev ?F) r g (n - m - k)"
    using overlap_read(1) [OF other' _ _ grid g, of x] overlap_read(2) [OF other' _ _ grid g] by (simp_all add: n_def m_def r_def)
  have overlap: "overlaps pass n m other (m + 1) h k x = Some hit" using read(1) by (simp add: hit_def)
  have unfold: "diagonals pass e f h k own other =
    (if hit then Some (Inl (meet_at pass n m h s (s - k) x (x - k))) else diagonals pass e f h (k + 2) own' other)"
    using k(2) s(1) x(1) store(1) overlap by (subst diagonals.simps) (simp add: high_diag_def n_def m_def Let_def)
  show ?thesis
  proof (cases hit)
    case True
    then have z: "\<bar>n - m - k\<bar> \<le> g" and over: "n \<le> x + r" and far_r: "far (rev ?E) (rev ?F) r g (n - m - k)"
      using read(2) by (auto simp: hit_def)
    have kr: "- int (length ?F) \<le> k" "k \<le> int (length ?E)" using grid by (auto simp: on_grid_def)
    have sr: "sounds (rev ?E) (rev ?F) r g (int (length ?E) - int (length ?F) - k)"
      using prefixes.furthest_sound [OF far_r] by (simp add: n_def m_def)
    note meets = overlap_meets [OF conjunct1 [OF low] x(2) prefixes.furthest_sound [OF far_x] x(4) kr sr _ _ _]
    have m1: "x \<le> diag_end ?E ?F k" "int (edit_dist ?E ?F) = h + g"
      "int (edit_dist (take (nat s) ?E) (take (nat (s - k)) ?F)) \<le> h"
      "int (edit_dist (drop (nat x) ?E) (drop (nat (x - k)) ?F)) \<le> g"
      "take (nat (x - s)) (drop (nat s) ?E) = take (nat (x - s)) (drop (nat (s - k)) ?F)"
      using meets z over due by (simp_all add: n_def m_def)
    have "good_meet e f (meet_at pass n m h s (s - k) x (x - k))"
    proof (cases "pass = 0")
      case True
      then show ?thesis
        using good_meet_forward [of e f s h k x] low x(2) m1 g by (simp add: turned_def n_def m_def)
    next
      case False
      then show ?thesis
        using good_meet_backward [of e f s h k x] pass low x(2) m1 g by (simp add: turned_def n_def m_def)
    qed
    then show ?thesis using unfold True by simp
  next
    case False
    have "int i - int j \<noteq> k" if cut: "cut_of ?E ?F (nat h) (nat g) i j" and "0 \<le> g" for i j
    proof
      assume ij: "int i - int j = k"
      then have j_is: "int i - k = int j" "n - int i - (n - m - k) = m - int j" by (auto simp: n_def m_def)
      have c: "i \<le> length e" "j \<le> length f" using cut by (auto simp: cut_of_def)
      note cd = cut_diag [OF cut]
      have z: "\<bar>n - m - k\<bar> \<le> g" using cd(5) ij \<open>0 \<le> g\<close> by (simp add: n_def m_def)
      have "even (nat h + nat g + length e + length f)"
        using edit_dist_parity [of "take i ?E" "take j ?F"] edit_dist_parity [of "drop i ?E" "drop j ?F"] cut
        by (auto simp: cut_of_def)
      then have "even (n + m - (h + g))" using h \<open>0 \<le> g\<close> by (auto simp: n_def m_def even_nat_iff)
      then have far_r: "far (rev ?E) (rev ?F) r g (n - m - k)" using read(2) z by simp
      have "int i \<le> x"
        using prefixes.furthest_reaches [OF far_x, of "int i", unfolded j_is] cd(3) ij c h by (simp add: prefixes.first_of_def prefixes.last_of_def)
      moreover have "n - int i \<le> r"
        using prefixes.furthest_reaches [OF far_r, of "n - int i", unfolded j_is] cd(4) ij c \<open>0 \<le> g\<close>
        by (simp add: prefixes.first_of_def prefixes.last_of_def n_def m_def)
      ultimately have "n \<le> x + r" by linarith
      then have hit unfolding hit_def using z \<open>even (n + m - (h + g))\<close> by blast
      then show False using False by blast
    qed
    then show ?thesis using unfold False store(2) by auto
  qed
qed

lemma diagonals_ok:
  assumes pass: "pass = 0 \<or> pass = 1" and g: "g = h - (if pass = 1 then 0 else 1)" and h: "0 \<le> h"
    and due: "h + g \<le> int (edit_dist e f)"
    and other: "arrayed (turned (1 - pass) e) (turned (1 - pass) f) other g"
    and own: "partway (turned pass e) (turned pass f) own h k"
    and k: "low_diag f h \<le> k" "even (h - k)"
    and cuts: "\<And>i j. cut_of (turned pass e) (turned pass f) (nat h) (nat g) i j \<Longrightarrow> 0 \<le> g \<Longrightarrow> k \<le> int i - int j"
  shows "(\<exists>w. diagonals pass e f h k own other = Some (Inl w) \<and> good_meet e f w) \<or>
    (\<exists>own'. diagonals pass e f h k own other = Some (Inr own') \<and> arrayed (turned pass e) (turned pass f) own' h \<and>
       h + g < int (edit_dist e f))"
  using own k cuts
proof (induction "nat (high_diag e h - k + 2)" arbitrary: k own rule: less_induct)
  case less
  show ?case
  proof (cases "k \<le> high_diag e h")
    case False
    then have ended: "diagonals pass e f h k own other = Some (Inr own)"
      by (subst diagonals.simps) (simp add: high_diag_def Let_def)
    have "arrayed (turned pass e) (turned pass f) own h"
      using partway_last [OF less.prems(1) _ h] False by (simp add: high_diag_def)
    moreover have "h + g \<noteq> int (edit_dist e f)"
    proof
      assume eq: "h + g = int (edit_dist e f)"
      then have "0 \<le> g" using g h by (cases "pass = 1"; cases "h = 0") auto
      then have "edit_dist (turned pass e) (turned pass f) = nat h + nat g" using eq h by simp
      from cut_exists [OF this] obtain i j where c: "cut_of (turned pass e) (turned pass f) (nat h) (nat g) i j" by blast
      have "int i - int j \<le> high_diag (turned pass e) h" using cut_visited(2) [OF c] h by simp
      then show False using less.prems(4) [OF c \<open>0 \<le> g\<close>] False by (simp add: high_diag_def)
    qed
    ultimately show ?thesis using ended due by auto
  next
    case True
    from diagonal_step [OF pass g h due other less.prems(1,2) True less.prems(3)]
    consider (met) w where "diagonals pass e f h k own other = Some (Inl w)" "good_meet e f w"
      | (on) own' where "diagonals pass e f h k own other = diagonals pass e f h (k + 2) own' other"
        "partway (turned pass e) (turned pass f) own' h (k + 2)"
        "\<forall>i j. cut_of (turned pass e) (turned pass f) (nat h) (nat g) i j \<longrightarrow> 0 \<le> g \<longrightarrow> int i - int j \<noteq> k"
      by blast
    then show ?thesis
    proof cases
      case on
      have "k + 2 \<le> int i - int j" if c: "cut_of (turned pass e) (turned pass f) (nat h) (nat g) i j" "0 \<le> g" for i j
      proof -
        have "even (h - (int i - int j))" using cut_diag(1) [OF c(1)] h by (simp add: on_grid_def)
        then have "int i - int j \<noteq> k + 1" using less.prems(3) by presburger
        moreover have "int i - int j \<noteq> k" using on(3) c by blast
        ultimately show ?thesis using less.prems(4) [OF c] by linarith
      qed
      then show ?thesis
        using less.hyps [of "k + 2" own'] on(1,2) less.prems(2,3) True by simp
    qed blast
  qed
qed

lemma pass_ok:
  assumes "pass = 0 \<or> pass = 1" "g = h - (if pass = 1 then 0 else 1)" "0 \<le> h" "h + g \<le> int (edit_dist e f)"
    "arrayed (turned (1 - pass) e) (turned (1 - pass) f) other g" "arrayed (turned pass e) (turned pass f) own (h - 1)"
  shows "(\<exists>w. diagonals pass e f h (low_diag f h) own other = Some (Inl w) \<and> good_meet e f w) \<or>
    (\<exists>own'. diagonals pass e f h (low_diag f h) own other = Some (Inr own') \<and> arrayed (turned pass e) (turned pass f) own' h \<and>
       h + g < int (edit_dist e f))"
proof (rule diagonals_ok [OF assms(1-5)])
  have low: "low_diag (turned pass f) h = low_diag f h" by (simp add: low_diag_def)
  show "partway (turned pass e) (turned pass f) own h (low_diag f h)" using partway_first [OF assms(6,3)] low by simp
  show "low_diag f h \<le> int i - int j" if "cut_of (turned pass e) (turned pass f) (nat h) (nat g) i j" for i j
    using cut_visited(1) [OF that] low assms(3) by simp
qed (simp_all add: low_diag_def)

lemma rounds_ok:
  assumes "0 \<le> h" "2 * h - 1 \<le> int (edit_dist e f)" "arrayed e f forward (h - 1)" "arrayed (rev e) (rev f) reverse (h - 1)"
  shows "\<exists>w. rounds e f h forward reverse = Some (Some w) \<and> good_meet e f w"
  using assms
proof (induction "nat (int (length e) + int (length f) + 2 - h)" arbitrary: h forward reverse rule: less_induct)
  case less
  have going: "h \<le> (int (length e) + int (length f) + 1) div 2"
    using less.prems(2) edit_dist_upper [of e f] by linarith
  have low: "- (h - 2 * max 0 (h - int (length f))) = low_diag f h" by (simp add: low_diag_def)
  note unfold = rounds.simps [of e f h forward reverse, unfolded Let_def low]
  show ?case
  proof (cases "\<exists>w. diagonals 0 e f h (low_diag f h) forward reverse = Some (Inl w) \<and> good_meet e f w")
    case True
    then show ?thesis using unfold going by auto
  next
    case False
    then obtain forward' where f': "diagonals 0 e f h (low_diag f h) forward reverse = Some (Inr forward')" "arrayed e f forward' h"
      "2 * h \<le> int (edit_dist e f)"
      using pass_ok [of 0 "h - 1" h e f reverse forward] less.prems by (auto simp: turned_def)
    show ?thesis
    proof (cases "\<exists>w. diagonals 1 e f h (low_diag f h) reverse forward' = Some (Inl w) \<and> good_meet e f w")
      case True
      then show ?thesis using unfold going f'(1) by auto
    next
      case False
      then obtain reverse' where r': "diagonals 1 e f h (low_diag f h) reverse forward' = Some (Inr reverse')"
        "arrayed (rev e) (rev f) reverse' h" "2 * h < int (edit_dist e f)"
        using pass_ok [of 1 h h e f forward' reverse] less.prems f' by (auto simp: turned_def)
      have "\<exists>w. rounds e f (h + 1) forward' reverse' = Some (Some w) \<and> good_meet e f w"
        using less.hyps [of "h + 1" forward' reverse'] going less.prems(1) f' r' by simp
      then show ?thesis using unfold going f'(1) r'(1) by auto
    qed
  qed
qed

theorem middle_snake_ok: "\<exists>w. middle_snake e f = Some (Some w) \<and> good_meet e f w"
proof -
  let ?z = "replicate (length e + length f + 3) (0 :: int)"
  have "arrayed e f ?z (0 - 1)" "arrayed (rev e) (rev f) ?z (0 - 1)"
    by (auto simp: arrayed_def level_def on_grid_def cell_def nth_replicate)
  then show ?thesis using rounds_ok [of 0 e f ?z ?z] by (simp add: middle_snake_def Let_def)
qed

end
