(* ===== verification/Line_Diff_Correct.thy ===== *)
theory Line_Diff_Correct
  imports Line_Search
begin

text \<open>
  What \<open>DiffLines\<close> promises: it answers for all lists of lines, its hunks are in order, apart from one another
  and inside the lists, rewriting the old lines by them gives the new ones, and no hunks that do so rewrite fewer lines.
\<close>

definition slice_of :: "'a list \<Rightarrow> int \<Rightarrow> int \<Rightarrow> 'a list" where
  "slice_of xs i j = take (nat (j - i)) (drop (nat i) xs)"

lemma slice_of_self [simp]: "slice_of xs i i = []"
  by (simp add: slice_of_def)

lemma length_slice_of: "0 \<le> i \<Longrightarrow> i \<le> j \<Longrightarrow> j \<le> int (length xs) \<Longrightarrow> int (length (slice_of xs i j)) = j - i"
  by (simp add: slice_of_def)

lemma slice_of_join: "0 \<le> i \<Longrightarrow> i \<le> j \<Longrightarrow> j \<le> k \<Longrightarrow> slice_of xs i j @ slice_of xs j k = slice_of xs i k"
proof -
  assume "0 \<le> i" "i \<le> j" "j \<le> k"
  then have "nat (k - i) = nat (j - i) + nat (k - j)" "nat j = nat (j - i) + nat i" by auto
  then show ?thesis by (simp add: slice_of_def take_add add.commute)
qed

lemma slice_of_all: "slice_of xs 0 (int (length xs)) = xs"
  by (simp add: slice_of_def)

lemma slice_of_rest: "0 \<le> i \<Longrightarrow> slice_of xs i (int (length xs)) = drop (nat i) xs"
  by (simp add: slice_of_def)

lemma take_slice_of: "0 \<le> x \<Longrightarrow> x \<le> j - i \<Longrightarrow> take (nat x) (slice_of xs i j) = slice_of xs i (i + x)"
  by (simp add: slice_of_def min_absorb1)

lemma drop_slice_of: "0 \<le> x \<Longrightarrow> 0 \<le> i \<Longrightarrow> x \<le> j - i \<Longrightarrow> drop (nat x) (slice_of xs i j) = slice_of xs (i + x) j"
  by (simp add: slice_of_def drop_take nat_add_distrib nat_diff_distrib' diff_diff_eq add.commute)

lemma slice_of_slice: "0 \<le> i \<Longrightarrow> 0 \<le> x \<Longrightarrow> x \<le> y \<Longrightarrow> y \<le> j - i \<Longrightarrow> slice_of (slice_of xs i j) x y = slice_of xs (i + x) (i + y)"
  by (simp add: slice_of_def drop_take nat_add_distrib nat_diff_distrib' add.commute min_absorb1)

text \<open>Hunks as a rewriting of the old lines, and what they cost.\<close>

fun placed :: "Hunk list \<Rightarrow> int \<Rightarrow> int \<Rightarrow> int \<Rightarrow> int \<Rightarrow> bool" where
  "placed [] i j n m \<longleftrightarrow> i \<le> n \<and> n - i = m - j"
| "placed (h # hs) i j n m \<longleftrightarrow> i \<le> OldStart h \<and> OldStart h - i = NewStart h - j \<and>
     OldStart h \<le> OldEnd h \<and> NewStart h \<le> NewEnd h \<and> (OldStart h < OldEnd h \<or> NewStart h < NewEnd h) \<and>
     placed hs (OldEnd h) (NewEnd h) n m"

fun apply_hunks :: "Hunk list \<Rightarrow> 'a list \<Rightarrow> 'a list \<Rightarrow> int \<Rightarrow> 'a list" where
  "apply_hunks [] a b i = drop (nat i) a"
| "apply_hunks (h # hs) a b i = slice_of a i (OldStart h) @ slice_of b (NewStart h) (NewEnd h) @ apply_hunks hs a b (OldEnd h)"

definition hunk_cost :: "Hunk \<Rightarrow> nat" where
  "hunk_cost h = nat (OldEnd h - OldStart h) + nat (NewEnd h - NewStart h)"

definition hunks_cost :: "Hunk list \<Rightarrow> nat" where
  "hunks_cost hs = sum_list (map hunk_cost hs)"

definition apart :: "Hunk list \<Rightarrow> bool" where
  "apart hs = successively (\<lambda>g h. OldEnd g < OldStart h \<and> NewEnd g < NewStart h) hs"

text \<open>\<open>script\<close>: hunks that lead from one point of the grid to another, line by line.\<close>

fun script :: "'a list \<Rightarrow> 'a list \<Rightarrow> Hunk list \<Rightarrow> int \<Rightarrow> int \<Rightarrow> int \<Rightarrow> int \<Rightarrow> bool" where
  "script a b [] i j n m \<longleftrightarrow> i \<le> n \<and> n - i = m - j \<and> slice_of a i n = slice_of b j m"
| "script a b (h # hs) i j n m \<longleftrightarrow> script a b [] i j (OldStart h) (NewStart h) \<and>
     OldStart h \<le> OldEnd h \<and> NewStart h \<le> NewEnd h \<and> (OldStart h < OldEnd h \<or> NewStart h < NewEnd h) \<and>
     script a b hs (OldEnd h) (NewEnd h) n m"

lemma script_snoc:
  "script a b (hs @ [h]) i j n m \<longleftrightarrow> script a b hs i j (OldStart h) (NewStart h) \<and>
     OldStart h \<le> OldEnd h \<and> NewStart h \<le> NewEnd h \<and> (OldStart h < OldEnd h \<or> NewStart h < NewEnd h) \<and>
     script a b [] (OldEnd h) (NewEnd h) n m"
  by (induction hs arbitrary: i j) auto

lemma script_bounds: "script a b hs i j n m \<Longrightarrow> 0 \<le> i \<Longrightarrow> 0 \<le> j \<Longrightarrow> i \<le> n \<and> j \<le> m"
  by (induction hs arbitrary: i j) force+

lemma script_keep:
  assumes "script a b hs i j n m" "0 \<le> i" "0 \<le> j" "n \<le> n'" "n' - n = m' - m" "slice_of a n n' = slice_of b m m'"
  shows "script a b hs i j n' m'"
proof -
  have extend: "script a b [] p q n' m'" if "script a b [] p q n m" "0 \<le> p" "0 \<le> q" for p q
    using that assms(4-6) slice_of_join [of p n n' a] slice_of_join [of q m m' b] by auto
  show ?thesis
    using assms(1-3)
  proof (induction hs arbitrary: i j)
    case Nil
    then show ?case using extend by blast
  next
    case (Cons h hs)
    then show ?case using script_bounds [of a b "[]" i j "OldStart h" "NewStart h"] by auto
  qed
qed

lemma script_placed: "script a b hs i j n m \<Longrightarrow> placed hs i j n m"
  by (induction hs arbitrary: i j) auto

lemma script_apply:
  "script a b hs i j (int (length a)) (int (length b)) \<Longrightarrow> 0 \<le> i \<Longrightarrow> 0 \<le> j \<Longrightarrow> apply_hunks hs a b i = drop (nat j) b"
proof (induction hs arbitrary: i j)
  case Nil
  then show ?case by (simp add: slice_of_rest)
next
  case (Cons h hs)
  let ?m = "int (length b)"
  have h: "i \<le> OldStart h" "OldStart h - i = NewStart h - j" "slice_of a i (OldStart h) = slice_of b j (NewStart h)"
    "OldStart h \<le> OldEnd h" "NewStart h \<le> NewEnd h" "script a b hs (OldEnd h) (NewEnd h) (int (length a)) ?m"
    using Cons.prems(1) by auto
  have points: "0 \<le> OldEnd h" "0 \<le> NewEnd h" "j \<le> NewStart h" using h Cons.prems by auto
  then have "NewEnd h \<le> ?m" using script_bounds [OF h(6)] by simp
  then have "slice_of b j (NewStart h) @ slice_of b (NewStart h) (NewEnd h) @ drop (nat (NewEnd h)) b = drop (nat j) b"
    using slice_of_join [of "NewStart h" "NewEnd h" ?m b] slice_of_join [of j "NewStart h" ?m b] h points Cons.prems(3)
    by (simp add: slice_of_rest)
  then show ?case using Cons.IH [OF h(6) points(1,2)] h(3) by simp
qed

text \<open>Any hunks that rewrite the old lines into the new ones cost what a script of single lines costs.\<close>

lemma placed_bounds: "placed hs i j n m \<Longrightarrow> i \<le> n \<and> j \<le> m"
  by (induction hs arbitrary: i j) force+

lemma placed_edits:
  assumes "placed hs i j (int (length a)) (int (length b))" "apply_hunks hs a b i = drop (nat j) b" "0 \<le> i" "0 \<le> j"
  shows "edits (drop (nat i) a) (drop (nat j) b) (hunks_cost hs)"
  using assms
proof (induction hs arbitrary: i j)
  case Nil
  then show ?case using edits_edit_dist [of "drop (nat i) a" "drop (nat i) a"] edit_dist_zero [of "drop (nat i) a" "drop (nat i) a"]
    by (simp add: hunks_cost_def)
next
  case (Cons h hs)
  let ?n = "int (length a)" and ?m = "int (length b)"
  have h: "i \<le> OldStart h" "OldStart h - i = NewStart h - j" "OldStart h \<le> OldEnd h" "NewStart h \<le> NewEnd h"
    "placed hs (OldEnd h) (NewEnd h) ?n ?m" using Cons.prems(1) by auto
  note ends = placed_bounds [OF h(5)]
  have a_cut: "drop (nat i) a = slice_of a i (OldStart h) @ slice_of a (OldStart h) (OldEnd h) @ drop (nat (OldEnd h)) a"
    using slice_of_join [of i "OldStart h" ?n a] slice_of_join [of "OldStart h" "OldEnd h" ?n a] h ends Cons.prems(3)
    by (simp add: slice_of_rest)
  have b_cut: "drop (nat j) b = slice_of b j (NewStart h) @ slice_of b (NewStart h) (NewEnd h) @ drop (nat (NewEnd h)) b"
    using slice_of_join [of j "NewStart h" ?m b] slice_of_join [of "NewStart h" "NewEnd h" ?m b] h ends Cons.prems(4)
    by (simp add: slice_of_rest)
  have lens: "length (slice_of a i (OldStart h)) = length (slice_of b j (NewStart h))"
    using length_slice_of [of i "OldStart h" a] length_slice_of [of j "NewStart h" b] h ends Cons.prems(3,4) by simp
  have "slice_of a i (OldStart h) @ slice_of b (NewStart h) (NewEnd h) @ apply_hunks hs a b (OldEnd h) =
    slice_of b j (NewStart h) @ slice_of b (NewStart h) (NewEnd h) @ drop (nat (NewEnd h)) b"
    using Cons.prems(2) b_cut by simp
  then have same: "slice_of a i (OldStart h) = slice_of b j (NewStart h)" "apply_hunks hs a b (OldEnd h) = drop (nat (NewEnd h)) b"
    using lens by auto
  have "edits (drop (nat (OldEnd h)) a) (drop (nat (NewEnd h)) b) (hunks_cost hs)"
    using Cons.IH [OF h(5) same(2)] h Cons.prems(3,4) by simp
  moreover have "hunk_cost h = length (slice_of a (OldStart h) (OldEnd h)) + length (slice_of b (NewStart h) (NewEnd h))"
    using length_slice_of [of "OldStart h" "OldEnd h" a] length_slice_of [of "NewStart h" "NewEnd h" b] h ends Cons.prems(3,4)
    by (simp add: hunk_cost_def)
  then have "edits (slice_of a (OldStart h) (OldEnd h) @ []) ([] @ slice_of b (NewStart h) (NewEnd h)) (hunk_cost h)"
    using edits_append [OF edits_delete_all [of "slice_of a (OldStart h) (OldEnd h)"] edits_insert_all [of "slice_of b (NewStart h) (NewEnd h)"]]
    by simp
  moreover have "edits (slice_of a i (OldStart h)) (slice_of b j (NewStart h)) 0"
    using edits_edit_dist [of "slice_of a i (OldStart h)" "slice_of b j (NewStart h)"] same(1) edit_dist_zero by metis
  ultimately have "edits (slice_of a i (OldStart h) @ slice_of a (OldStart h) (OldEnd h) @ drop (nat (OldEnd h)) a)
    (slice_of b j (NewStart h) @ slice_of b (NewStart h) (NewEnd h) @ drop (nat (NewEnd h)) b) (0 + (hunk_cost h + hunks_cost hs))"
    using edits_append by (metis append_Nil append_Nil2)
  then show ?case unfolding a_cut b_cut by (simp add: hunks_cost_def)
qed

text \<open>A script so far: up to the point \<open>(i, j)\<close>, at the cost given.\<close>

definition so_far :: "'a list \<Rightarrow> 'a list \<Rightarrow> Hunk list \<Rightarrow> int \<Rightarrow> int \<Rightarrow> nat \<Rightarrow> bool" where
  "so_far a b hs i j c \<longleftrightarrow> script a b hs 0 0 i j \<and> apart hs \<and> hunks_cost hs = c"

lemma so_far_keep:
  "so_far a b hs i j c \<Longrightarrow> slice_of a i i' = slice_of b j j' \<Longrightarrow> i \<le> i' \<Longrightarrow> i' - i = j' - j \<Longrightarrow> so_far a b hs i' j' c"
  by (auto simp: so_far_def intro!: script_keep [of a b hs 0 0 i j i' j'])

lemma so_far_add:
  assumes hs: "so_far a b hs i j c" and h: "i \<le> i'" "j \<le> j'" "i < i' \<or> j < j'"
  shows "so_far a b (add_hunk hs \<lparr>OldStart = i, OldEnd = i', NewStart = j, NewEnd = j'\<rparr>) i' j' (c + nat (i' - i) + nat (j' - j))"
proof (cases hs rule: rev_cases)
  case Nil
  then show ?thesis using hs h by (auto simp: so_far_def add_hunk_def apart_def hunks_cost_def hunk_cost_def)
next
  case (snoc gs g)
  have g: "script a b gs 0 0 (OldStart g) (NewStart g)" "OldStart g \<le> OldEnd g" "NewStart g \<le> NewEnd g"
    "OldStart g < OldEnd g \<or> NewStart g < NewEnd g" "script a b [] (OldEnd g) (NewEnd g) i j"
    using hs snoc by (auto simp: so_far_def script_snoc)
  show ?thesis
  proof (cases "OldEnd g = i \<and> NewEnd g = j")
    case True
    define g' where "g' = g\<lparr>OldEnd := i', NewEnd := j'\<rparr>"
    have "script a b (gs @ [g']) 0 0 i' j'" using g h True by (auto simp: script_snoc g'_def)
    moreover have "apart (gs @ [g'])" using hs snoc by (auto simp: so_far_def apart_def successively_append_iff g'_def)
    moreover have "hunks_cost (gs @ [g']) = c + nat (i' - i) + nat (j' - j)"
      using hs snoc g h True by (auto simp: so_far_def hunks_cost_def hunk_cost_def g'_def)
    ultimately show ?thesis using snoc True by (simp add: so_far_def add_hunk_def g'_def)
  next
    case False
    define h' where "h' = \<lparr>OldStart = i, OldEnd = i', NewStart = j, NewEnd = j'\<rparr>"
    have "script a b (hs @ [h']) 0 0 i' j'" using hs h by (auto simp: so_far_def script_snoc h'_def)
    moreover have "apart (hs @ [h'])"
      using hs g(5) snoc False by (auto simp: so_far_def apart_def successively_append_iff h'_def)
    moreover have "hunks_cost (hs @ [h']) = c + nat (i' - i) + nat (j' - j)"
      using hs h by (auto simp: so_far_def hunks_cost_def hunk_cost_def h'_def)
    ultimately show ?thesis using snoc False by (auto simp: so_far_def add_hunk_def h'_def)
  qed
qed

text \<open>Stripping the shared ends.\<close>

lemma shared_start_take: "take (shared_start e f) e = take (shared_start e f) f"
  and shared_start_le: "shared_start e f \<le> length e" "shared_start e f \<le> length f"
  and shared_start_stop: "drop (shared_start e f) e = x # e' \<Longrightarrow> drop (shared_start e f) f = y # f' \<Longrightarrow> x \<noteq> y"
  by (induction e f rule: shared_start.induct) (auto split: if_splits)

lemma stripped_dist:
  assumes "e \<noteq> []" "f \<noteq> []" "hd e \<noteq> hd f" "last e \<noteq> last f"
  shows "2 \<le> edit_dist e f"
proof -
  obtain x e' y f' where ef: "e = x # e'" "f = y # f'" "x \<noteq> y" using assms by (cases e; cases f) auto
  have "edit_dist e' f \<noteq> 0" "edit_dist e f' \<noteq> 0"
    using assms(4) ef by (auto simp: edit_dist_zero split: if_splits)
  then show ?thesis using ef by (simp add: min_def)
qed

definition stripped :: "'a list \<Rightarrow> 'a list \<Rightarrow> nat \<times> nat \<times> 'a list \<times> 'a list" where
  "stripped e0 f0 =
     (let prefix = shared_start e0 f0; e1 = drop prefix e0; f1 = drop prefix f0; suffix = shared_start (rev e1) (rev f1)
      in (prefix, suffix, take (length e1 - suffix) e1, take (length f1 - suffix) f1))"

lemma stripped_ok:
  assumes "stripped e0 f0 = (p, s, e, f)"
  shows "e0 = take p e0 @ e @ drop (length e0 - s) e0" "f0 = take p f0 @ f @ drop (length f0 - s) f0"
    "take p e0 = take p f0" "drop (length e0 - s) e0 = drop (length f0 - s) f0"
    "length e0 = p + length e + s" "length f0 = p + length f + s"
    "e \<noteq> [] \<Longrightarrow> f \<noteq> [] \<Longrightarrow> 2 \<le> edit_dist e f"
proof -
  define e1 where "e1 = drop p e0"
  define f1 where "f1 = drop p f0"
  have p: "p = shared_start e0 f0" and s: "s = shared_start (rev e1) (rev f1)"
    and e: "e = take (length e1 - s) e1" and f: "f = take (length f1 - s) f1"
    using assms by (auto simp: stripped_def Let_def e1_def f1_def)
  have le: "p \<le> length e0" "p \<le> length f0" "s \<le> length e1" "s \<le> length f1"
    using shared_start_le [of e0 f0] shared_start_le [of "rev e1" "rev f1"] p s by auto
  show "take p e0 = take p f0" using shared_start_take p by simp
  have tails: "drop (length e1 - s) e1 = drop (length f1 - s) f1"
    using shared_start_take [of "rev e1" "rev f1"] by (simp add: take_rev flip: s)
  show lens: "length e0 = p + length e + s" "length f0 = p + length f + s" using le by (simp_all add: e f e1_def f1_def)
  have ends: "drop (length e1 - s) e1 = drop (length e0 - s) e0" "drop (length f1 - s) f1 = drop (length f0 - s) f0"
    using le by (simp_all add: e1_def f1_def)
  show "drop (length e0 - s) e0 = drop (length f0 - s) f0" using tails ends by simp
  show "e0 = take p e0 @ e @ drop (length e0 - s) e0" "f0 = take p f0 @ f @ drop (length f0 - s) f0"
    using ends e f e1_def f1_def append_take_drop_id by metis+
  show "2 \<le> edit_dist e f" if "e \<noteq> []" "f \<noteq> []"
  proof (rule stripped_dist [OF that])
    have "e1 \<noteq> []" "f1 \<noteq> []" using that e f by auto
    then obtain x xs y ys where "e1 = x # xs" "f1 = y # ys" by (meson list.exhaust)
    then have "hd e1 \<noteq> hd f1" using shared_start_stop [of e0 f0 x xs y ys] p by (simp add: e1_def f1_def)
    then show "hd e \<noteq> hd f" using that e f by simp
    have "rev e1 \<noteq> [] \<and> drop s (rev e1) = rev e" "drop s (rev f1) = rev f" using e f that by (auto simp: drop_rev)
    then have "hd (rev e) \<noteq> hd (rev f)"
      using shared_start_stop [of "rev e1" "rev f1" "hd (rev e)" "tl (rev e)" "hd (rev f)" "tl (rev f)"] that s by simp
    then show "last e \<noteq> last f" using that by (simp add: hd_rev)
  qed
qed

lemma diff_unfold:
  assumes "stripped e0 f0 = (p, s, e, f)"
  shows "diff e0 f0 i0 j0 hunks =
    (let i = i0 + int p; j = j0 + int p; n = int (length e); m = int (length f)
     in if e = [] \<and> f = [] then Some hunks
        else if e = [] then Some (add_hunk hunks \<lparr>OldStart = i, OldEnd = i, NewStart = j, NewEnd = j + m\<rparr>)
        else if f = [] then Some (add_hunk hunks \<lparr>OldStart = i, OldEnd = i + n, NewStart = j, NewEnd = j\<rparr>)
        else do {
          w \<leftarrow> the (middle_snake e f);
          hunks' \<leftarrow> diff (take (nat (me_headX w)) e) (take (nat (me_headY w)) f) i j hunks;
          diff (drop (nat (me_tailX w)) e) (drop (nat (me_tailY w)) f) (i + me_tailX w) (j + me_tailY w) hunks' })"
proof -
  obtain w where w: "middle_snake e f = Some (Some w)" "good_meet e f w" using middle_snake_ok by blast
  have "me_steps w > 1" if "e \<noteq> []" "f \<noteq> []" using stripped_ok(7) [OF assms that] w(2) by (simp add: good_meet_def)
  moreover have "head_to e (me_headX w) = Some (take (nat (me_headX w)) e)" "head_to f (me_headY w) = Some (take (nat (me_headY w)) f)"
    "tail_from e (me_tailX w) = Some (drop (nat (me_tailX w)) e)" "tail_from f (me_tailY w) = Some (drop (nat (me_tailY w)) f)"
    using w(2) by (auto simp: good_meet_def head_to_def tail_from_def)
  moreover have names: "shared_start e0 f0 = p" "shared_start (rev (drop p e0)) (rev (drop p f0)) = s"
    "take (length (drop p e0) - s) (drop p e0) = e" "take (length (drop p f0) - s) (drop p f0) = f"
    using assms by (auto simp: stripped_def Let_def)
  ultimately show ?thesis
    using w(1) by (subst diff.simps, unfold Let_def names) simp
qed

text \<open>The recursion: each half of a path is shorter, and the halves cost what the path does.\<close>

lemma good_meet_shorter:
  assumes "good_meet e f w" "e \<noteq> []" "2 \<le> edit_dist e f"
  shows "length (take (nat (me_headX w)) e) + length (take (nat (me_headY w)) f) < length e + length f"
    "length (drop (nat (me_tailX w)) e) + length (drop (nat (me_tailY w)) f) < length e + length f"
    "edit_dist (take (nat (me_headX w)) e) (take (nat (me_headY w)) f) +
      edit_dist (drop (nat (me_tailX w)) e) (drop (nat (me_tailY w)) f) = edit_dist e f"
proof -
  let ?x = "nat (me_headX w)" and ?y = "nat (me_headY w)" and ?u = "nat (me_tailX w)" and ?v = "nat (me_tailY w)"
  define k where "k = nat (me_tailX w - me_headX w)"
  have range: "0 \<le> me_headX w" "me_headX w \<le> me_tailX w" "0 \<le> me_headY w" "me_headY w \<le> me_tailY w"
    "me_tailX w - me_headX w = me_tailY w - me_headY w" using assms(1) by (simp_all add: good_meet_def)
  have shift: "?u = ?x + k" using range(1,2) unfolding k_def by arith
  have shift': "?v = ?y + k" using range(3-5) unfolding k_def by arith
  have "?x \<le> length e" "?y \<le> length f" "?u \<le> length e" "?v \<le> length f"
    using assms(1) by (auto simp: good_meet_def)
  moreover have "take k (drop ?x e) = take k (drop ?y f)" "2 * edit_dist (take ?x e) (take ?y f) \<le> edit_dist e f + 1"
    "2 * edit_dist (drop ?u e) (drop ?v f) \<le> edit_dist e f + 1"
    "edit_dist (take ?x e) (take ?y f) + edit_dist (drop ?u e) (drop ?v f) \<le> edit_dist e f"
    using assms(1) unfolding good_meet_def k_def by blast+
  ultimately have w: "?x \<le> length e" "?y \<le> length f" "?u \<le> length e" "?v \<le> length f"
    "take k (drop ?x e) = take k (drop ?y f)" "2 * edit_dist (take ?x e) (take ?y f) \<le> edit_dist e f + 1"
    "2 * edit_dist (drop ?u e) (drop ?v f) \<le> edit_dist e f + 1"
    "edit_dist (take ?x e) (take ?y f) + edit_dist (drop ?u e) (drop ?v f) \<le> edit_dist e f" by blast+
  have "?x < length e \<or> ?y < length f" using w(1,2,6) assms(3) by (cases "?x = length e \<and> ?y = length f") auto
  then show "length (take ?x e) + length (take ?y f) < length e + length f" using w(1,2) by auto
  have "0 < ?u \<or> 0 < ?v" using w(7) assms(3) by (cases "?u = 0 \<and> ?v = 0") auto
  then show "length (drop ?u e) + length (drop ?v f) < length e + length f" using w(3,4) by auto
  have "e = take ?x e @ take k (drop ?x e) @ drop ?u e" "f = take ?y f @ take k (drop ?y f) @ drop ?v f"
    unfolding shift shift' by (metis append_take_drop_id drop_drop add.commute)+
  then have "edit_dist e f = edit_dist (take ?x e @ take k (drop ?x e) @ drop ?u e) (take ?y f @ take k (drop ?x e) @ drop ?v f)"
    using w(5) by simp
  also have "\<dots> \<le> edit_dist (take ?x e) (take ?y f) + edit_dist (drop ?u e) (drop ?v f)"
    using edit_dist_append [of "take ?x e" "take k (drop ?x e) @ drop ?u e" "take ?y f" "take k (drop ?x e) @ drop ?v f"] by simp
  finally show "edit_dist (take ?x e) (take ?y f) + edit_dist (drop ?u e) (drop ?v f) = edit_dist e f" using w(8) by simp
qed

lemma diff_ok:
  assumes "so_far a b hunks i0 j0 c" "0 \<le> i0" "0 \<le> j0"
    "e0 = slice_of a i0 i1" "f0 = slice_of b j0 j1" "int (length e0) = i1 - i0" "int (length f0) = j1 - j0"
  shows "\<exists>hunks'. diff e0 f0 i0 j0 hunks = Some hunks' \<and> so_far a b hunks' i1 j1 (c + edit_dist e0 f0)"
  using assms
proof (induction "length e0 + length f0" arbitrary: e0 f0 i0 j0 i1 j1 hunks c rule: less_induct)
  case less
  obtain p s e f where st: "stripped e0 f0 = (p, s, e, f)" by (cases "stripped e0 f0") auto
  note parts = stripped_ok [OF st]
  define i where "i = i0 + int p"
  define j where "j = j0 + int p"
  define n where "n = int (length e)"
  define m where "m = int (length f)"
  have ends: "i1 = i + n + int s" "j1 = j + m + int s" using parts(5,6) less.prems(6,7) by (simp_all add: i_def j_def n_def m_def)
  have at_p: "take p e0 = slice_of a i0 i" "take p f0 = slice_of b j0 j"
    using take_slice_of [of "int p" i1 i0 a] take_slice_of [of "int p" j1 j0 b] less.prems(4,5) ends
    by (simp_all add: i_def j_def n_def m_def)
  have e_is: "e = slice_of a i (i + n)" and f_is: "f = slice_of b j (j + m)"
  proof -
    have "e = take (length e) (drop p e0)" "f = take (length f) (drop p f0)"
      using st by (auto simp: stripped_def Let_def)
    then show "e = slice_of a i (i + n)" "f = slice_of b j (j + m)"
      using drop_slice_of [of "int p" i0 i1 a] drop_slice_of [of "int p" j0 j1 b] take_slice_of [of n i1 i a] take_slice_of [of m j1 j b]
        less.prems(2-5) ends by (simp_all add: i_def j_def n_def m_def)
  qed
  have at_s: "drop (length e0 - s) e0 = slice_of a (i + n) i1" "drop (length f0 - s) f0 = slice_of b (j + m) j1"
    using drop_slice_of [of "int p + n" i0 i1 a] drop_slice_of [of "int p + m" j0 j1 b] less.prems(2-5) ends parts(5,6)
    by (simp_all add: i_def j_def n_def m_def nat_add_distrib algebra_simps)
  define before where "before = take p f0"
  define after where "after = drop (length f0 - s) f0"
  have "e0 = before @ e @ after" using parts(1) unfolding before_def after_def parts(3,4) .
  moreover have "f0 = before @ f @ after" unfolding before_def after_def by (fact parts(2))
  ultimately have dist: "edit_dist e0 f0 = edit_dist e f" by simp
  have here: "so_far a b hunks i j c"
    using so_far_keep [OF less.prems(1), of i j] at_p parts(3) by (simp add: i_def j_def)
  have keep_end: "so_far a b hunks' i1 j1 d" if "so_far a b hunks' (i + n) (j + m) d" for hunks' d
    using so_far_keep [OF that, of i1 j1] at_s parts(4) ends by simp
  note unfold = diff_unfold [OF st, of i0 j0 hunks, unfolded Let_def, folded i_def j_def n_def m_def]
  consider "e = []" "f = []" | "e = []" "f \<noteq> []" | "e \<noteq> []" "f = []" | "e \<noteq> []" "f \<noteq> []" by blast
  then show ?case
  proof cases
    case 1
    then show ?thesis using unfold keep_end [of hunks c] here dist by (simp add: n_def m_def)
  next
    case 2
    then show ?thesis using unfold keep_end so_far_add [OF here, of i "j + m"] dist by (simp add: n_def m_def)
  next
    case 3
    then show ?thesis using unfold keep_end so_far_add [OF here, of "i + n" j] dist by (simp add: n_def m_def)
  next
    case 4
    obtain w where w: "middle_snake e f = Some (Some w)" "good_meet e f w" using middle_snake_ok by blast
    note shorter = good_meet_shorter [OF w(2) 4(1) parts(7) [OF 4]]
    note range = w(2) [unfolded good_meet_def, folded n_def m_def]
    let ?x = "me_headX w" and ?y = "me_headY w" and ?u = "me_tailX w" and ?v = "me_tailY w"
    let ?d1 = "edit_dist (take (nat ?x) e) (take (nat ?y) f)" and ?d2 = "edit_dist (drop (nat ?u) e) (drop (nat ?v) f)"
    have pos: "0 \<le> i" "0 \<le> j" using less.prems(2,3) by (simp_all add: i_def j_def)
    have smaller: "length e + length f \<le> length e0 + length f0" using parts(5,6) by simp
    have bounds: "0 \<le> ?x" "?x \<le> ?u" "?u \<le> n" "0 \<le> ?y" "?y \<le> ?v" "?v \<le> m" "?u - ?x = ?v - ?y" using range by auto
    have cuts: "take (nat ?x) e = slice_of a i (i + ?x)" "take (nat ?y) f = slice_of b j (j + ?y)"
      "drop (nat ?u) e = slice_of a (i + ?u) (i + n)" "drop (nat ?v) f = slice_of b (j + ?v) (j + m)"
      using take_slice_of [of ?x "i + n" i a] take_slice_of [of ?y "j + m" j b] drop_slice_of [of ?u i "i + n" a]
        drop_slice_of [of ?v j "j + m" b] bounds pos unfolding e_is [symmetric] f_is [symmetric] by simp_all
    have lens: "int (length (take (nat ?x) e)) = i + ?x - i" "int (length (take (nat ?y) f)) = j + ?y - j"
      "int (length (drop (nat ?u) e)) = i + n - (i + ?u)" "int (length (drop (nat ?v) f)) = j + m - (j + ?v)"
      using bounds by (simp_all add: n_def m_def)
    have points: "0 \<le> i + ?u" "0 \<le> j + ?v" using bounds pos by simp_all
    obtain h1 where h1: "diff (take (nat ?x) e) (take (nat ?y) f) i j hunks = Some h1" "so_far a b h1 (i + ?x) (j + ?y) (c + ?d1)"
      using less.hyps [OF less_le_trans [OF shorter(1) smaller] here pos cuts(1,2) lens(1,2)] by blast
    have "slice_of e ?x ?u = slice_of f ?y ?v" unfolding slice_of_def bounds(7) [symmetric] using range by blast
    then have "slice_of a (i + ?x) (i + ?u) = slice_of b (j + ?y) (j + ?v)"
      using slice_of_slice [of i ?x ?u "i + n" a] slice_of_slice [of j ?y ?v "j + m" b] pos bounds
      unfolding e_is [symmetric] f_is [symmetric] by simp
    then have h1': "so_far a b h1 (i + ?u) (j + ?v) (c + ?d1)" using so_far_keep [OF h1(2)] bounds by simp
    obtain h2 where h2: "diff (drop (nat ?u) e) (drop (nat ?v) f) (i + ?u) (j + ?v) h1 = Some h2"
      "so_far a b h2 (i + n) (j + m) (c + ?d1 + ?d2)"
      using less.hyps [OF less_le_trans [OF shorter(2) smaller] h1' points cuts(3,4) lens(3,4)] by blast
    have cost: "c + ?d1 + ?d2 = c + edit_dist e0 f0" using shorter(3) dist by simp
    have "diff e0 f0 i0 j0 hunks = Some h2" using unfold 4 w(1) h1(1) h2(1) by simp
    then show ?thesis using keep_end [OF h2(2)] unfolding cost by blast
  qed
qed

theorem diff_whole:
  "\<exists>hs. diff a b 0 0 [] = Some hs \<and> script a b hs 0 0 (int (length a)) (int (length b)) \<and> apart hs \<and> hunks_cost hs = edit_dist a b"
proof -
  have "so_far a b [] 0 0 0" by (simp add: so_far_def apart_def hunks_cost_def)
  then show ?thesis
    using diff_ok [of a b "[]" 0 0 0 a "int (length a)" b "int (length b)"] by (simp add: slice_of_all so_far_def)
qed

text \<open>
  C24: \<open>DiffLines\<close> answers for any two lists of line ids, without a panic and without end to its recursion. Its
  hunks are in order, inside the lists and apart from one another; rewriting the old lines by them gives the new
  ones; and no placed hunks that give the new ones delete and insert fewer lines.
\<close>
theorem DiffLines_minimal:
  "\<exists>hs. DiffLines a b = Some hs \<and> placed hs 0 0 (int (length a)) (int (length b)) \<and> apart hs \<and> apply_hunks hs a b 0 = b \<and>
    (\<forall>hs'. placed hs' 0 0 (int (length a)) (int (length b)) \<longrightarrow> apply_hunks hs' a b 0 = b \<longrightarrow> hunks_cost hs \<le> hunks_cost hs')"
proof -
  obtain hs where hs: "diff a b 0 0 [] = Some hs" "script a b hs 0 0 (int (length a)) (int (length b))" "apart hs"
    "hunks_cost hs = edit_dist a b" using diff_whole by blast
  have "hunks_cost hs \<le> hunks_cost hs'"
    if "placed hs' 0 0 (int (length a)) (int (length b))" "apply_hunks hs' a b 0 = b" for hs'
    using edit_dist_least [OF placed_edits [OF that(1)]] that(2) hs(4) by simp
  then show ?thesis using hs script_placed [OF hs(2)] script_apply [OF hs(2)] by (simp add: DiffLines_def)
qed

lemma DiffLines_minimal_witness:
  "\<exists>hs. DiffLines [1, 2, 3, 4] [1, 3, 5, 4] = Some hs \<and>
     apply_hunks hs [1, 2, 3, 4] [1, 3, 5, 4] 0 = [1, 3, 5, 4 :: int] \<and>
     hunks_cost hs \<le> hunks_cost [\<lparr>OldStart = 1, OldEnd = 3, NewStart = 1, NewEnd = 3\<rparr>]"
proof -
  let ?h = "\<lparr>OldStart = 1, OldEnd = 3, NewStart = 1, NewEnd = 3\<rparr> :: Hunk"
  have "placed [?h] 0 0 (int (length [1, 2, 3, 4 :: int])) (int (length [1, 3, 5, 4 :: int]))" by simp
  moreover have "apply_hunks [?h] [1, 2, 3, 4] [1, 3, 5, 4] 0 = [1, 3, 5, 4 :: int]" by (simp add: slice_of_def)
  ultimately show ?thesis using DiffLines_minimal [of "[1, 2, 3, 4]" "[1, 3, 5, 4]"] by blast
qed

end
