(* ===== verification/Parse_Scanner.thy ===== *)
theory Parse_Scanner
  imports Lexer_Correct
begin

text \<open>
  The tokens the parser reads: \<open>Scanner\<close> of \<open>internal/syntax/parser/scanner.go\<close>, which turns a keyword the
  file's own grammar does not reserve into a name where the tokens after it say so, and \<open>Reserves\<close> of
  \<open>notation.go\<close>. It looks ahead in a queue of raw tokens. The lemmas say that its answers are a function
  of the raw tokens, whatever the queue holds: the stream \<open>cooked\<close>.
\<close>

section \<open>The scanner: scanner.go\<close>

definition Reserves :: "lang_kind \<Rightarrow> string \<Rightarrow> bool" where
  "Reserves kind keywordID \<longleftrightarrow> kind = KindUnknown \<or> IsKeywordIn keywordID kind"

definition wordBinaryOpKeywords :: "string list" where
  "wordBinaryOpKeywords = [''implies'', ''or'', ''xor'', ''and'', ''hastype'', ''istype'', ''as'', ''meta'']"

record Scanner =
  sc_lx :: Lexer
  sc_kind :: lang_kind
  sc_pending :: "Token list"
  sc_head :: nat

definition NewScanner :: "string \<Rightarrow> lang_kind \<Rightarrow> Scanner" where
  "NewScanner src kind = \<lparr>sc_lx = New src, sc_kind = kind, sc_pending = [], sc_head = 0\<rparr>"

definition take_raw :: "Scanner \<Rightarrow> Token \<times> Scanner" where
  "take_raw s =
     (if sc_head s < length (sc_pending s) then
        let tok = sc_pending s ! sc_head s;
            s = s\<lparr>sc_head := sc_head s + 1\<rparr>;
            s = (if sc_head s = length (sc_pending s) then s\<lparr>sc_pending := [], sc_head := 0\<rparr> else s)
        in (tok, s)
      else let (tok, lx) = Next (sc_lx s) in (tok, s\<lparr>sc_lx := lx\<rparr>))"

definition skipped :: "Token \<Rightarrow> bool" where
  "skipped t \<longleftrightarrow> IsTrivia t \<or> tok_Kind t = RegularComment"

text \<open>\<open>ahead\<close>: the loop over the queue from its head, \<open>us\<close> the queued tokens not yet looked at.\<close>

function ahead_from :: "nat \<Rightarrow> nat \<Rightarrow> Token list \<Rightarrow> Scanner \<Rightarrow> Token \<times> Scanner" where
  "ahead_from n seen us s =
     (case us of
        t # us' \<Rightarrow>
          if skipped t then ahead_from n seen us' s
          else if seen = n \<or> tok_Kind t = EOF then (t, s)
          else ahead_from n (seen + 1) us' s
      | [] \<Rightarrow>
          let (t, lx) = Next (sc_lx s);
              s = s\<lparr>sc_lx := lx, sc_pending := sc_pending s @ [t]\<rparr>
          in if skipped t then ahead_from n seen [] s
             else if seen = n \<or> tok_Kind t = EOF then (t, s)
             else ahead_from n (seen + 1) [] s)"
  by pat_completeness auto

lemma Next_progress:
  "Next lx = (t, lx') \<Longrightarrow> tok_Kind t \<noteq> EOF \<Longrightarrow> length (lx_rest lx') < length (lx_rest lx)"
  using lexer.progress [of lx t lx'] lexer.stays [of lx] by (cases "lx_rest lx = []") force+

lemma skipped_EOF [simp]: "tok_Kind t = EOF \<Longrightarrow> \<not> skipped t"
  by (simp add: skipped_def IsTrivia_def)

lemma Next_progress':
  "(t, lx') = Next lx \<Longrightarrow> skipped t \<Longrightarrow> length (lx_rest lx') < length (lx_rest lx)"
  "(t, lx') = Next lx \<Longrightarrow> \<not> (b \<or> tok_Kind t = EOF) \<Longrightarrow> length (lx_rest lx') < length (lx_rest lx)"
  using Next_progress [of lx t lx'] by (cases "tok_Kind t = EOF"; simp)+

termination ahead_from
  by (relation "measure (\<lambda>(n, seen, us, s). 2 * length (lx_rest (sc_lx s)) + length us)") (auto dest: Next_progress')

declare ahead_from.simps [simp del]

definition ahead :: "nat \<Rightarrow> Scanner \<Rightarrow> Token \<times> Scanner" where
  "ahead n s = ahead_from n 0 (drop (sc_head s) (sc_pending s)) s"

definition spellsName :: "Token \<Rightarrow> bool" where
  "spellsName t \<longleftrightarrow> tok_Kind t \<in> {Identifier, UnrestrictedName, Keyword}"

definition continuesDeclaration :: "Token \<Rightarrow> bool" where
  "continuesDeclaration t \<longleftrightarrow> tok_Kind t \<in>
     {Semicolon, Colon, LBracket, LBrace, Eq, ColonEq, ColonGt, ColonGtGt, ColonColonGt, EqGt, Keyword}"

definition readsAsName :: "Scanner \<Rightarrow> bool \<times> Scanner" where
  "readsAsName s =
     (let (next, s) = ahead 0 s
      in case tok_Kind next of
           Identifier \<Rightarrow> (False, s)
         | UnrestrictedName \<Rightarrow> (False, s)
         | Keyword \<Rightarrow> (tok_KeywordID next \<in> List.set wordBinaryOpKeywords \<or> tok_KeywordID next = ''else'', s)
         | Lt \<Rightarrow>
             let (named, s) = ahead 1 s
             in if \<not> spellsName named then (True, s)
                else let (closing, s) = ahead 2 s
                in if tok_Kind closing \<noteq> Gt then (True, s)
                   else let (after, s) = ahead 3 s;
                            (after, s) = (if spellsName after then ahead 4 s else (after, s))
                        in (\<not> continuesDeclaration after, s)
         | Hash \<Rightarrow> let (opening, s) = ahead 1 s in (tok_Kind opening = LParen, s)
         | _ \<Rightarrow> (True, s))"

definition Scanner_Next :: "Scanner \<Rightarrow> Token \<times> Scanner" where
  "Scanner_Next s =
     (let (tok, s) = take_raw s
      in if tok_Kind tok = Keyword \<and> \<not> Reserves (sc_kind s) (tok_KeywordID tok)
         then let (named, s) = readsAsName s
              in (if named then tok\<lparr>tok_Kind := Identifier, tok_KeywordID := ''''\<rparr> else tok, s)
         else (tok, s))"

section \<open>What it answers\<close>

text \<open>The token past the end, and a list of tokens read at an index.\<close>

definition end_token :: "string \<Rightarrow> Token" where
  "end_token src = plain_token EOF \<lparr>Offset = int (length src), Len = 0\<rparr>"

definition tok_nth :: "Token \<Rightarrow> Token list \<Rightarrow> nat \<Rightarrow> Token" where
  "tok_nth e ts n = (if n < length ts then ts ! n else e)"

lemma end_token_kind [simp]: "tok_Kind (end_token src) = EOF"
  by (simp add: end_token_def)

lemma tok_nth_simps [simp]:
  "tok_nth e [] n = e" "tok_nth e (t # ts) 0 = t" "tok_nth e (t # ts) (Suc n) = tok_nth e ts n"
  by (simp_all add: tok_nth_def)

definition significant :: "Token list \<Rightarrow> Token list" where
  "significant = filter (\<lambda>t. \<not> skipped t)"

definition raw_rest :: "Scanner \<Rightarrow> Token list" where
  "raw_rest s = filter (\<lambda>t. tok_Kind t \<noteq> EOF) (drop (sc_head s) (sc_pending s)) @ tokens (sc_lx s)"

definition src_of :: "Scanner \<Rightarrow> string" where
  "src_of s = lx_src (sc_lx s)"

text \<open>The invariant: the queue holds the end only as its last token, once the lexer is there and before it is read.\<close>

definition queue_ok :: "Scanner \<Rightarrow> Token list \<Rightarrow> bool" where
  "queue_ok s ts \<longleftrightarrow> sc_head s \<le> length ts \<and> (\<forall>t \<in> List.set ts. tok_Kind t \<noteq> EOF) \<and>
     (sc_pending s = ts \<or> sc_pending s = ts @ [end_token (src_of s)] \<and> lx_rest (sc_lx s) = [])"

definition wf_scanner :: "Scanner \<Rightarrow> bool" where
  "wf_scanner s \<longleftrightarrow> lx_pos (sc_lx s) \<le> length (src_of s) \<and> (\<exists>ts. queue_ok s ts)"

lemma Next_end: "lx_pos lx \<le> length (lx_src lx) \<Longrightarrow> lx_rest lx = [] \<Longrightarrow> Next lx = (end_token (lx_src lx), lx)"
  by (simp add: Next_def lx_rest_def end_token_def)

lemma Next_inside:
  assumes "lx_rest lx \<noteq> []" "lx_pos lx \<le> length (lx_src lx)"
  obtains t lx' where "Next lx = (t, lx')" "tokens lx = t # tokens lx'" "tok_Kind t \<noteq> EOF" "lx_src lx' = lx_src lx"
    "lx_pos lx' \<le> length (lx_src lx')"
proof -
  obtain t n where t: "takes lx n (t, skip n lx)" "Next lx = (t, skip n lx)" "tokens lx = t # tokens (skip n lx)"
    using tokens_takes [OF assms(1)] by metis
  then show ?thesis using that [of t "skip n lx"] assms by (auto simp: takes_def lx_rest_def)
qed

lemma tokens_end: "lx_rest lx = [] \<Longrightarrow> tokens lx = []"
  by (simp add: tokens.simps [of lx])

lemma tokens_no_EOF: "t \<in> List.set (tokens lx) \<Longrightarrow> lx_pos lx \<le> length (lx_src lx) \<Longrightarrow> tok_Kind t \<noteq> EOF"
proof (induction "length (lx_rest lx)" arbitrary: lx rule: less_induct)
  case less
  then have "lx_rest lx \<noteq> []" using tokens_end by force
  then obtain t' lx' where n: "Next lx = (t', lx')" "tokens lx = t' # tokens lx'" "tok_Kind t' \<noteq> EOF"
    "lx_pos lx' \<le> length (lx_src lx')" using Next_inside [OF _ less.prems(2)] by metis
  then show ?case using less.hyps [of lx'] Next_progress [OF n(1,3)] less.prems(1) by auto
qed

lemma tokens_filter_EOF: "lx_pos lx \<le> length (lx_src lx) \<Longrightarrow> filter (\<lambda>t. tok_Kind t \<noteq> EOF) (tokens lx) = tokens lx"
  using tokens_no_EOF [of _ lx] by (auto simp: filter_id_conv)

lemma wf_NewScanner [simp]: "wf_scanner (NewScanner src kind)"
  by (simp add: wf_scanner_def queue_ok_def NewScanner_def src_of_def New_def)

lemma raw_NewScanner: "raw_rest (NewScanner src kind) = tokens (New src)"
  by (simp add: raw_rest_def NewScanner_def)

lemma filter_drop_all: "\<forall>t \<in> List.set ts. P t \<Longrightarrow> filter P (drop k ts) = drop k ts"
  unfolding filter_id_conv by (meson in_set_dropD)

lemma raw_rest_queue: "queue_ok s ts \<Longrightarrow> raw_rest s = drop (sc_head s) ts @ tokens (sc_lx s)"
  by (auto simp: queue_ok_def raw_rest_def filter_drop_all)

text \<open>Taking a token takes the first of the rest, or the end.\<close>

lemma take_raw_ok:
  assumes "wf_scanner s"
  obtains s' where "take_raw s = (tok_nth (end_token (src_of s)) (raw_rest s) 0, s')" "raw_rest s' = tl (raw_rest s)"
    "wf_scanner s'" "src_of s' = src_of s" "sc_kind s' = sc_kind s"
proof -
  obtain ts where q: "queue_ok s ts" and pos: "lx_pos (sc_lx s) \<le> length (src_of s)" using assms by (auto simp: wf_scanner_def)
  note rest = raw_rest_queue [OF q]
  consider (queued) "sc_head s < length ts" | (at_end) "sc_head s = length ts" "sc_pending s = ts @ [end_token (src_of s)]"
    | (fresh) "sc_head s = length ts" "sc_pending s = ts" using q by (auto simp: queue_ok_def le_eq_less_or_eq)
  then show ?thesis
  proof cases
    case queued
    define s' where "s' = (let s = s\<lparr>sc_head := sc_head s + 1\<rparr> in if sc_head s = length (sc_pending s) then s\<lparr>sc_pending := [], sc_head := 0\<rparr> else s)"
    have taken: "take_raw s = (ts ! sc_head s, s')"
      using queued q by (auto simp: take_raw_def s'_def Let_def queue_ok_def nth_append)
    have "\<exists>ts'. queue_ok s' ts' \<and> drop (sc_head s') ts' @ tokens (sc_lx s') = tl (raw_rest s)"
    proof (cases "sc_head s + 1 = length (sc_pending s)")
      case True
      then show ?thesis
        using queued q rest by (intro exI [of _ "[]"]) (auto simp: s'_def Let_def queue_ok_def drop_eq_Cons_nth)
    next
      case False
      then show ?thesis
        using queued q rest by (intro exI [of _ ts]) (auto simp: s'_def Let_def queue_ok_def src_of_def drop_eq_Cons_nth)
    qed
    then have "wf_scanner s'" "raw_rest s' = tl (raw_rest s)"
      using pos raw_rest_queue by (auto simp: wf_scanner_def s'_def Let_def src_of_def)
    moreover have "tok_nth (end_token (src_of s)) (raw_rest s) 0 = ts ! sc_head s"
      using queued rest by (simp add: drop_eq_Cons_nth)
    moreover have "src_of s' = src_of s" "sc_kind s' = sc_kind s" by (auto simp: s'_def Let_def src_of_def)
    ultimately show ?thesis using that [of s'] taken by simp
  next
    case at_end
    then have "lx_rest (sc_lx s) = []" using q by (auto simp: queue_ok_def)
    then show ?thesis
      using that [of "s\<lparr>sc_pending := [], sc_head := 0\<rparr>"] at_end rest pos tokens_end [of "sc_lx s"]
      by (simp add: take_raw_def raw_rest_def wf_scanner_def queue_ok_def src_of_def Let_def nth_append)
  next
    case fresh
    show ?thesis
    proof (cases "lx_rest (sc_lx s) = []")
      case True
      then show ?thesis
        using that [of s] fresh rest pos tokens_end [OF True] Next_end [OF pos [unfolded src_of_def] True] assms
        by (simp add: take_raw_def src_of_def)
    next
      case False
      obtain t lx' where n: "Next (sc_lx s) = (t, lx')" "tokens (sc_lx s) = t # tokens lx'" "lx_src lx' = lx_src (sc_lx s)"
        "lx_pos lx' \<le> length (lx_src lx')"
        using Next_inside [OF False pos [unfolded src_of_def]] by metis
      have "queue_ok (s\<lparr>sc_lx := lx'\<rparr>) ts" using q fresh by (simp add: queue_ok_def)
      then show ?thesis
        using that [of "s\<lparr>sc_lx := lx'\<rparr>"] fresh rest n by (auto simp: take_raw_def raw_rest_queue wf_scanner_def src_of_def)
    qed
  qed
qed

text \<open>Looking ahead answers the significant token asked for and leaves the rest as it is.\<close>

definition alike_scanner :: "Scanner \<Rightarrow> Scanner \<Rightarrow> bool" where
  "alike_scanner s s' \<longleftrightarrow> wf_scanner s' \<and> raw_rest s' = raw_rest s \<and> src_of s' = src_of s \<and> sc_kind s' = sc_kind s"

lemma alike_scanner_refl: "wf_scanner s \<Longrightarrow> alike_scanner s s"
  by (simp add: alike_scanner_def)

lemma alike_scanner_trans: "alike_scanner s s' \<Longrightarrow> alike_scanner s' s'' \<Longrightarrow> alike_scanner s s''"
  by (simp add: alike_scanner_def)

lemma significant_simps [simp]:
  "significant [] = []" "significant (t # ts) = (if skipped t then significant ts else t # significant ts)"
  "significant (ts @ us) = significant ts @ significant us"
  by (simp_all add: significant_def)

lemma ahead_from_ok:
  assumes "queue_ok s ts" "lx_pos (sc_lx s) \<le> length (src_of s)" "sc_pending s = ps @ us" "length ps \<le> length ts" "seen \<le> n"
  shows "\<exists>s'. ahead_from n seen us s =
      (tok_nth (end_token (src_of s)) (significant (filter (\<lambda>t. tok_Kind t \<noteq> EOF) us @ tokens (sc_lx s))) (n - seen), s') \<and> alike_scanner s s'"
  using assms
proof (induction n seen us s arbitrary: ts ps rule: ahead_from.induct)
  case (1 n seen us s)
  have wf: "wf_scanner s" using "1.prems" by (auto simp: wf_scanner_def)
  show ?case
  proof (cases us)
    case (Cons t us')
    have here: "sc_pending s = (ps @ [t]) @ us'" using "1.prems"(3) Cons by simp
    show ?thesis
    proof (cases "tok_Kind t = EOF")
      case True
      have "t \<notin> List.set ts" using "1.prems"(1) True by (auto simp: queue_ok_def)
      then have at_end: "sc_pending s = ts @ [end_token (src_of s)]" "lx_rest (sc_lx s) = []"
        using "1.prems"(1) here by (auto simp: queue_ok_def)
      then have "length ps = length ts" "t = end_token (src_of s)" "us' = []"
        using here "1.prems"(4) \<open>t \<notin> List.set ts\<close>
        by (auto simp: append_eq_append_conv2 append_eq_Cons_conv Cons_eq_append_conv)
      then show ?thesis
        using Cons True at_end(2) alike_scanner_refl [OF wf] tokens_end by (subst ahead_from.simps) simp
    next
      case False
      then have "length (ps @ [t]) \<le> length ts"
        using here "1.prems"(1,4)
        by (cases "length ps = length ts") (auto simp: queue_ok_def append_eq_append_conv2 append_eq_Cons_conv Cons_eq_append_conv)
      then show ?thesis
        using "1.IH"(3) [OF Cons _ "1.prems"(1,2) here _ "1.prems"(5)] "1.IH"(4) [OF Cons _ _ "1.prems"(1,2) here]
          Cons False "1.prems"(5) alike_scanner_refl [OF wf] le_neq_implies_less [of seen n]
        by (subst ahead_from.simps) (auto simp: Suc_diff_Suc tok_nth_def)
    qed
  next
    case Nil
    have all: "sc_pending s = ts" "ps = ts"
      using "1.prems"(1,3,4) Nil by (auto simp: queue_ok_def)
    show ?thesis
    proof (cases "lx_rest (sc_lx s) = []")
      case True
      define s' where "s' = s\<lparr>sc_pending := ts @ [end_token (src_of s)]\<rparr>"
      have "queue_ok s' ts" using "1.prems"(1) True by (simp add: queue_ok_def s'_def src_of_def)
      then have "alike_scanner s s'"
        using raw_rest_queue [of s' ts] raw_rest_queue [OF "1.prems"(1)] "1.prems"(2)
        by (auto simp: alike_scanner_def wf_scanner_def s'_def src_of_def)
      then show ?thesis
        using Nil True Next_end [of "sc_lx s"] "1.prems"(2) tokens_end all
        by (subst ahead_from.simps) (simp add: s'_def src_of_def)
    next
      case False
      obtain t lx' where n: "Next (sc_lx s) = (t, lx')" "tokens (sc_lx s) = t # tokens lx'" "tok_Kind t \<noteq> EOF"
        "lx_src lx' = lx_src (sc_lx s)" "lx_pos lx' \<le> length (lx_src lx')"
        using Next_inside [OF False "1.prems"(2) [unfolded src_of_def]] by metis
      define s' where "s' = s\<lparr>sc_lx := lx', sc_pending := sc_pending s @ [t]\<rparr>"
      have q: "queue_ok s' (ts @ [t])" using "1.prems"(1) n all by (auto simp: queue_ok_def s'_def)
      have src: "src_of s' = src_of s" using n by (simp add: s'_def src_of_def)
      have pos: "lx_pos (sc_lx s') \<le> length (src_of s')" using n by (simp add: s'_def src_of_def)
      then have "wf_scanner s'" using q by (auto simp: wf_scanner_def)
      moreover have "raw_rest s' = raw_rest s"
        using raw_rest_queue [OF q] raw_rest_queue [OF "1.prems"(1)] n "1.prems"(1) by (auto simp: s'_def queue_ok_def)
      ultimately have rest: "alike_scanner s s'" using src by (simp add: alike_scanner_def s'_def)
      note eqs = n(1) [symmetric] refl s'_def
      have skip: "\<exists>s''. ahead_from n seen [] s' = (tok_nth (end_token (src_of s)) (significant (tokens lx')) (n - seen), s'') \<and> alike_scanner s s''"
        if "skipped t"
        using "1.IH"(1) [OF Nil refl n(1) [symmetric] s'_def that q pos _ _ "1.prems"(5), of "ts @ [t]"] src all alike_scanner_trans [OF rest]
        by (auto simp: s'_def)
      have more: "\<exists>s''. ahead_from n (seen + 1) [] s' = (tok_nth (end_token (src_of s)) (significant (tokens lx')) (n - (seen + 1)), s'') \<and> alike_scanner s s''"
        if "\<not> skipped t" "seen \<noteq> n"
        using "1.IH"(2) [OF Nil refl n(1) [symmetric] s'_def that(1) _ q pos, of "ts @ [t]"] that n(3) "1.prems"(5) src all alike_scanner_trans [OF rest]
        by (auto simp: s'_def)
      have unfold: "ahead_from n seen us s = (if skipped t then ahead_from n seen [] s' else if seen = n then (t, s') else ahead_from n (seen + 1) [] s')"
        using Nil n by (subst ahead_from.simps) (simp add: s'_def)
      show ?thesis
        using unfold skip more rest n Nil "1.prems"(5) by (auto simp: tok_nth_def Suc_diff_Suc)
    qed
  qed
qed

lemma ahead_ok:
  assumes "wf_scanner s"
  shows "\<exists>s'. ahead n s = (tok_nth (end_token (src_of s)) (significant (raw_rest s)) n, s') \<and> alike_scanner s s'"
proof -
  obtain ts where q: "queue_ok s ts" "lx_pos (sc_lx s) \<le> length (src_of s)" using assms by (auto simp: wf_scanner_def)
  have "length (take (sc_head s) (sc_pending s)) \<le> length ts" using q(1) by (auto simp: queue_ok_def)
  then show ?thesis
    using ahead_from_ok [OF q, of "take (sc_head s) (sc_pending s)" "drop (sc_head s) (sc_pending s)" 0 n]
    by (simp add: ahead_def raw_rest_def)
qed

text \<open>The tokens handed on: a word the grammar does not reserve is a name where the tokens after it let it be.\<close>

definition reads_name :: "(nat \<Rightarrow> Token) \<Rightarrow> bool" where
  "reads_name at =
     (case tok_Kind (at 0) of
        Identifier \<Rightarrow> False | UnrestrictedName \<Rightarrow> False
      | Keyword \<Rightarrow> tok_KeywordID (at 0) \<in> List.set wordBinaryOpKeywords \<or> tok_KeywordID (at 0) = ''else''
      | Lt \<Rightarrow> \<not> spellsName (at 1) \<or> tok_Kind (at 2) \<noteq> Gt \<or>
          \<not> continuesDeclaration (if spellsName (at 3) then at 4 else at 3)
      | Hash \<Rightarrow> tok_Kind (at 1) = LParen
      | _ \<Rightarrow> True)"

lemma readsAsName_ok:
  assumes "wf_scanner s"
  shows "\<exists>s'. readsAsName s = (reads_name (tok_nth (end_token (src_of s)) (significant (raw_rest s))), s') \<and> alike_scanner s s'"
proof -
  define at where "at = tok_nth (end_token (src_of s)) (significant (raw_rest s))"
  have look: "\<exists>s''. ahead n s' = (at n, s'') \<and> alike_scanner s s''" if "alike_scanner s s'" for s' n
    using ahead_ok [of s' n] that by (auto simp: alike_scanner_def at_def)
  obtain s0 where s0: "ahead 0 s = (at 0, s0)" "alike_scanner s s0" using look alike_scanner_refl [OF assms] by blast
  obtain s1 where s1: "ahead 1 s0 = (at 1, s1)" "alike_scanner s s1" using look s0(2) by blast
  obtain s2 where s2: "ahead 2 s1 = (at 2, s2)" "alike_scanner s s2" using look s1(2) by blast
  obtain s3 where s3: "ahead 3 s2 = (at 3, s3)" "alike_scanner s s3" using look s2(2) by blast
  obtain s4 where s4: "ahead 4 s3 = (at 4, s4)" "alike_scanner s s4" using look s3(2) by blast
  show ?thesis
    using s0 s1 s2 s3 s4 unfolding at_def [symmetric]
    by (cases "tok_Kind (at 0)") (auto simp: readsAsName_def reads_name_def)
qed

fun cooked :: "lang_kind \<Rightarrow> Token \<Rightarrow> Token list \<Rightarrow> Token list" where
  "cooked kind e [] = []"
| "cooked kind e (t # ts) =
     (if tok_Kind t = Keyword \<and> \<not> Reserves kind (tok_KeywordID t) \<and> reads_name (tok_nth e (significant ts))
      then t\<lparr>tok_Kind := Identifier, tok_KeywordID := ''''\<rparr> else t) # cooked kind e ts"

definition scan_rest :: "Scanner \<Rightarrow> Token list" where
  "scan_rest s = cooked (sc_kind s) (end_token (src_of s)) (raw_rest s)"

theorem Scanner_Next_ok:
  assumes "wf_scanner s"
  shows "\<exists>s'. Scanner_Next s = (tok_nth (end_token (src_of s)) (scan_rest s) 0, s') \<and> scan_rest s' = tl (scan_rest s) \<and>
    wf_scanner s' \<and> src_of s' = src_of s \<and> sc_kind s' = sc_kind s \<and> raw_rest s' = tl (raw_rest s)"
proof -
  obtain s1 where s1: "take_raw s = (tok_nth (end_token (src_of s)) (raw_rest s) 0, s1)" "raw_rest s1 = tl (raw_rest s)"
    "wf_scanner s1" "src_of s1 = src_of s" "sc_kind s1 = sc_kind s" using take_raw_ok [OF assms] by metis
  obtain s2 where s2: "readsAsName s1 = (reads_name (tok_nth (end_token (src_of s1)) (significant (raw_rest s1))), s2)" "alike_scanner s1 s2"
    using readsAsName_ok [OF s1(3)] by blast
  show ?thesis
  proof (cases "raw_rest s")
    case Nil
    then show ?thesis using s1 by (simp add: Scanner_Next_def scan_rest_def)
  next
    case (Cons t ts)
    then show ?thesis using s1 s2 by (auto simp: Scanner_Next_def scan_rest_def alike_scanner_def)
  qed
qed

lemma scan_NewScanner: "scan_rest (NewScanner src kind) = cooked kind (end_token src) (tokens (New src))"
  by (simp add: scan_rest_def raw_NewScanner) (simp add: NewScanner_def src_of_def)

lemma raw_rest_no_EOF: "wf_scanner s \<Longrightarrow> t \<in> List.set (raw_rest s) \<Longrightarrow> tok_Kind t \<noteq> EOF"
  using tokens_no_EOF by (auto simp: raw_rest_def wf_scanner_def src_of_def)

lemma cooked_no_EOF: "t \<in> List.set (cooked kind e ts) \<Longrightarrow> \<forall>u \<in> List.set ts. tok_Kind u \<noteq> EOF \<Longrightarrow> tok_Kind t \<noteq> EOF"
  by (induction ts) (auto split: if_splits)

lemma scan_rest_no_EOF: "wf_scanner s \<Longrightarrow> t \<in> List.set (scan_rest s) \<Longrightarrow> tok_Kind t \<noteq> EOF"
  unfolding scan_rest_def using cooked_no_EOF raw_rest_no_EOF by metis

end
