(* ===== verification/Parse_Window.thy ===== *)
theory Parse_Window
  imports Parse_Scanner "HOL-Library.State_Monad"
begin

text \<open>
  The parser's state and its window on the tokens: \<open>internal/syntax/parser/parser.go\<close>, from \<open>fill\<close> to
  \<open>release\<close>. The window keeps the tokens a checkpoint may rewind to and the one before the cursor, and
  drops the rest. \<open>Parse_Cursor\<close> says that it is a cursor on the significant tokens of the file.
\<close>

section \<open>The state: parser.go\<close>

datatype TriviaKind = TriviaComment | TriviaLineNote | TriviaBlockNote

type_synonym Trivia = "TriviaKind \<times> span"

text \<open>The fixes a diagnostic may suggest are left out: nothing modelled suggests one.\<close>

record Diagnostic =
  dg_Span :: span
  dg_Message :: string
  dg_Code :: string

record pendingComment =
  pc_span :: span
  pc_next :: Token

text \<open>
  The fields of \<open>Parser\<close> the modelled functions read or write; \<open>'n\<close> is the type of expressions. What only the
  declarations' productions use (the bodies being parsed, \<open>indexedEnds\<close>) is left out.
\<close>

record 'n Parser =
  p_src :: string
  p_kind :: lang_kind
  p_lx :: Scanner
  p_buf :: "Token list"
  p_base :: nat
  p_pos :: nat
  p_checkpoints :: nat
  p_triv :: "Trivia list"
  p_trivLog :: "Trivia list"
  p_Diagnostics :: "Diagnostic list"
  p_Warnings :: "Diagnostic list"
  p_undefinedOps :: "'n option list"
  p_typedByCount :: nat
  p_pendingComment :: span
  p_hasPendingComment :: bool
  p_bodyEnd :: int
  p_comments :: "pendingComment list"
  p_memberStarts :: "int list"
  p_commentBodies :: "int list"
  p_attachedStarts :: "int list"
  p_resultEnds :: "int list"

definition NewParser :: "string \<Rightarrow> lang_kind \<Rightarrow> 'n Parser" where
  "NewParser src kind =
     \<lparr>p_src = src, p_kind = kind, p_lx = NewScanner src kind, p_buf = [], p_base = 0, p_pos = 0, p_checkpoints = 0,
      p_triv = [], p_trivLog = [], p_Diagnostics = [], p_Warnings = [], p_undefinedOps = [], p_typedByCount = 0,
      p_pendingComment = \<lparr>Offset = 0, Len = 0\<rparr>, p_hasPendingComment = False, p_bodyEnd = 0, p_comments = [],
      p_memberStarts = [], p_commentBodies = [], p_attachedStarts = [], p_resultEnds = []\<rparr>"

definition tokenWindow :: nat where
  "tokenWindow = 64"

definition add_error :: "span \<Rightarrow> string \<Rightarrow> 'n Parser \<Rightarrow> 'n Parser" where
  "add_error sp msg p = p\<lparr>p_Diagnostics := p_Diagnostics p @ [\<lparr>dg_Span = sp, dg_Message = msg, dg_Code = ''''\<rparr>]\<rparr>"

text \<open>\<open>src.Text\<close> of a span the lexer gave, which is inside the text.\<close>

definition span_text :: "'n Parser \<Rightarrow> span \<Rightarrow> string" where
  "span_text p sp = (case source_Text (p_src p) sp of Some t \<Rightarrow> t | None \<Rightarrow> '''')"

definition triviaOf :: "Token \<Rightarrow> Trivia option" where
  "triviaOf tok =
     (case tok_Kind tok of
        SLNote \<Rightarrow> Some (TriviaLineNote, tok_Span tok)
      | MLNote \<Rightarrow> Some (TriviaBlockNote, tok_Span tok)
      | RegularComment \<Rightarrow> Some (TriviaComment, tok_Span tok)
      | _ \<Rightarrow> None)"

section \<open>The window: fill, compact, peekN and advance\<close>

definition compact :: "'n Parser \<Rightarrow> 'n Parser" where
  "compact p =
     (let drop_count = int (p_pos p) - int (p_base p) - 1
      in if p_checkpoints p > 0 \<or> drop_count < int tokenWindow \<or> drop_count < int (length (p_buf p) div 2) then p
         else p\<lparr>p_buf := drop (nat drop_count) (p_buf p), p_base := p_base p + nat drop_count\<rparr>)"

text \<open>The loop over trivia and comments: what each leaves in the parser.\<close>

definition note_trivia :: "Token \<Rightarrow> 'n Parser \<Rightarrow> 'n Parser" where
  "note_trivia tok p =
     (let p = (case triviaOf tok of
                 Some tr \<Rightarrow> p\<lparr>p_triv := p_triv p @ [tr], p_trivLog := (if p_checkpoints p > 0 then p_trivLog p @ [tr] else p_trivLog p)\<rparr>
               | None \<Rightarrow> p);
          p = (if tok_Unterminated tok then add_error (tok_Span tok) ''unterminated comment: missing */'' p else p)
      in if tok_Kind tok = RegularComment then p\<lparr>p_pendingComment := tok_Span tok, p_hasPendingComment := True\<rparr> else p)"

function skip_trivia :: "Token \<Rightarrow> span list \<Rightarrow> 'n Parser \<Rightarrow> Token \<times> span list \<times> 'n Parser" where
  "skip_trivia tok comments p =
     (if skipped tok then
        let p = note_trivia tok p;
            comments = (if tok_Kind tok = RegularComment then comments @ [tok_Span tok] else comments);
            (tok, lx) = Scanner_Next (p_lx p)
        in skip_trivia tok comments (p\<lparr>p_lx := lx\<rparr>)
      else (tok, comments, p))"
  by pat_completeness auto

definition scanner_left :: "Scanner \<Rightarrow> nat" where
  "scanner_left s = length (lx_rest (sc_lx s)) + (length (sc_pending s) - sc_head s)"

lemma take_raw_left: "take_raw s = (t, s') \<Longrightarrow> skipped t \<Longrightarrow> scanner_left s' < scanner_left s"
  using Next_progress' [of t _ "sc_lx s"]
  by (auto simp: take_raw_def scanner_left_def Let_def split: if_splits prod.splits)

lemma Scanner_Next_left: "Scanner_Next s = (t, s') \<Longrightarrow> skipped t \<Longrightarrow> scanner_left s' < scanner_left s"
  by (auto simp: Scanner_Next_def skipped_def IsTrivia_def Let_def split: if_splits prod.splits intro: take_raw_left [unfolded skipped_def IsTrivia_def])

lemma note_trivia_lx [simp]: "p_lx (note_trivia tok p) = p_lx p"
  by (simp add: note_trivia_def Let_def add_error_def split: option.split)

termination skip_trivia
  by (relation "measure (\<lambda>(tok, comments, p). if skipped tok then 1 + scanner_left (p_lx p) else 0)")
    (auto dest: Scanner_Next_left [OF sym])

declare skip_trivia.simps [simp del]

function fill_loop :: "nat \<Rightarrow> 'n Parser \<Rightarrow> 'n Parser" where
  "fill_loop n p =
     (if length (p_buf p) \<le> p_pos p - p_base p + n then
        let (tok, lx) = Scanner_Next (p_lx p);
            (tok, comments, p') = skip_trivia tok [] (p\<lparr>p_lx := lx\<rparr>);
            p'' = p'\<lparr>p_buf := p_buf p @ [tok], p_pos := p_pos p, p_base := p_base p,
               p_comments := p_comments p' @ map (\<lambda>sp. \<lparr>pc_span = sp, pc_next = tok\<rparr>) comments\<rparr>
        in if tok_Kind tok = EOF then p'' else fill_loop n p''
      else p)"
  by pat_completeness auto
termination by (relation "measure (\<lambda>(n, p). p_pos p - p_base p + n + 1 - length (p_buf p))") auto

declare fill_loop.simps [simp del]

definition fill :: "nat \<Rightarrow> 'n Parser \<Rightarrow> 'n Parser" where
  "fill n p = fill_loop n (compact p)"

definition peekN_at :: "nat \<Rightarrow> 'n Parser \<Rightarrow> Token \<times> 'n Parser" where
  "peekN_at n p =
     (let i = p_pos p - p_base p + n
      in if i < length (p_buf p) then (p_buf p ! i, p)
         else let p = fill n p; i = p_pos p - p_base p + n
              in (if i < length (p_buf p) then p_buf p ! i else last (p_buf p), p))"

definition reportUnterminated :: "Token \<Rightarrow> 'n Parser \<Rightarrow> 'n Parser" where
  "reportUnterminated tok p =
     (if tok_Kind tok = UnrestrictedName then add_error (tok_Span tok) (''unterminated name: missing closing '' @ [ch_apos]) p
      else add_error (tok_Span tok) (''unterminated string literal: missing closing '' @ [ch_quote]) p)"

definition escape_message :: "string \<Rightarrow> string \<Rightarrow> string" where
  "escape_message escape terminal =
     ''invalid escape '' @ [ch_apos] @ escape @ [ch_apos] @ '' in '' @ terminal @ '': only '' @
     concat (map (\<lambda>c. [ch_backslash, c, CHR '' '']) [CHR ''b'', CHR ''t'', CHR ''n'', CHR ''f'', CHR ''r'', ch_quote, ch_apos]) @
     [ch_backslash, ch_backslash] @ '' are admitted''"

definition reportBadEscapes :: "Token \<Rightarrow> 'n Parser \<Rightarrow> 'n Parser" where
  "reportBadEscapes tok p =
     (let terminal = (if tok_Kind tok = UnrestrictedName then ''an unrestricted name'' else ''a string'')
      in fold (\<lambda>sp p. add_error sp (escape_message (span_text p sp) terminal) p)
           (InvalidEscapes (tok_Span tok) (span_text p (tok_Span tok))) p)"

definition advance_at :: "'n Parser \<Rightarrow> Token \<times> 'n Parser" where
  "advance_at p =
     (let p = (if p_pos p - p_base p \<ge> length (p_buf p) then fill 0 p else p);
          tok = p_buf p ! (p_pos p - p_base p)
      in if tok_Kind tok \<noteq> EOF then
           let p = p\<lparr>p_pos := p_pos p + 1\<rparr>;
               p = (if tok_Unterminated tok then reportUnterminated tok p else p);
               p = (if tok_BadEscape tok then reportBadEscapes tok p else p)
           in (tok, p)
         else (tok, p))"

definition lastToken :: "'n Parser \<Rightarrow> Token option" where
  "lastToken p =
     (let i = p_pos p - p_base p in if i > 0 \<and> i \<le> length (p_buf p) then Some (p_buf p ! (i - 1)) else None)"

section \<open>Checkpoints\<close>

record parseCheckpoint =
  cp_pos :: nat
  cp_diagnosticLen :: nat
  cp_warningLen :: nat
  cp_undefinedOpLen :: nat
  cp_typedByCount :: nat
  cp_memberStartLen :: nat
  cp_commentBodyLen :: nat
  cp_attachedLen :: nat
  cp_resultEndLen :: nat
  cp_triv :: "Trivia list"
  cp_trivLogLen :: nat
  cp_pendingSpan :: span
  cp_hadPending :: bool
  cp_bodyEnd :: int

definition checkpoint :: "'n Parser \<Rightarrow> parseCheckpoint \<times> 'n Parser" where
  "checkpoint p =
     (\<lparr>cp_pos = p_pos p, cp_diagnosticLen = length (p_Diagnostics p), cp_warningLen = length (p_Warnings p),
       cp_undefinedOpLen = length (p_undefinedOps p), cp_typedByCount = p_typedByCount p,
       cp_memberStartLen = length (p_memberStarts p), cp_commentBodyLen = length (p_commentBodies p),
       cp_attachedLen = length (p_attachedStarts p), cp_resultEndLen = length (p_resultEnds p),
       cp_triv = p_triv p, cp_trivLogLen = length (p_trivLog p), cp_pendingSpan = p_pendingComment p,
       cp_hadPending = p_hasPendingComment p, cp_bodyEnd = p_bodyEnd p\<rparr>,
      p\<lparr>p_checkpoints := p_checkpoints p + 1\<rparr>)"

definition restore :: "parseCheckpoint \<Rightarrow> 'n Parser \<Rightarrow> 'n Parser" where
  "restore cp p =
     p\<lparr>p_pos := cp_pos cp, p_Diagnostics := take (cp_diagnosticLen cp) (p_Diagnostics p),
       p_Warnings := take (cp_warningLen cp) (p_Warnings p), p_undefinedOps := take (cp_undefinedOpLen cp) (p_undefinedOps p),
       p_typedByCount := cp_typedByCount cp, p_memberStarts := take (cp_memberStartLen cp) (p_memberStarts p),
       p_commentBodies := take (cp_commentBodyLen cp) (p_commentBodies p), p_attachedStarts := take (cp_attachedLen cp) (p_attachedStarts p),
       p_resultEnds := take (cp_resultEndLen cp) (p_resultEnds p), p_pendingComment := cp_pendingSpan cp,
       p_hasPendingComment := cp_hadPending cp, p_bodyEnd := cp_bodyEnd cp,
       p_triv := cp_triv cp @ drop (cp_trivLogLen cp) (p_trivLog p)\<rparr>"

definition release :: "'n Parser \<Rightarrow> 'n Parser" where
  "release p =
     (let p = p\<lparr>p_checkpoints := p_checkpoints p - 1\<rparr>
      in if p_checkpoints p = 0 then p\<lparr>p_trivLog := []\<rparr> else p)"

end
