(* ===== verification/Parse_Cursor.thy ===== *)
theory Parse_Cursor
  imports Parse_Window "HOL-Library.Sublist"
begin

text \<open>
  What the parser's window promises the parsing functions: it is a cursor on the significant tokens of the file,
  whatever it holds. Peeking and advancing answer the tokens at the cursor, a checkpoint rewinds to the cursor it
  was taken at, and looking ahead changes nothing a parsing function reads but the trivia and diagnostics it lexed.
\<close>

section \<open>The window is a cursor\<close>

definition all_tokens :: "'n Parser \<Rightarrow> Token list" where
  "all_tokens p = significant (cooked (p_kind p) (end_token (p_src p)) (tokens (New (p_src p))))"

definition eof_of :: "'n Parser \<Rightarrow> Token" where
  "eof_of p = end_token (p_src p)"

text \<open>No comment left to lex is unterminated: the only diagnostic looking ahead reports.\<close>

definition no_open :: "Token list \<Rightarrow> bool" where
  "no_open ts \<longleftrightarrow> (\<forall>t \<in> List.set ts. skipped t \<longrightarrow> \<not> tok_Unterminated t)"

definition quiet :: "'n Parser \<Rightarrow> bool" where
  "quiet p \<longleftrightarrow> no_open (scan_rest (p_lx p))"

definition buffered :: "'n Parser \<Rightarrow> Token list \<Rightarrow> bool" where
  "buffered p ts \<longleftrightarrow> (\<exists>k. p_buf p = ts @ replicate k (eof_of p) \<and> (0 < k \<longrightarrow> scan_rest (p_lx p) = [])) \<and>
     (\<forall>t \<in> List.set ts. tok_Kind t \<noteq> EOF) \<and> drop (p_base p) (all_tokens p) = ts @ significant (scan_rest (p_lx p)) \<and>
     p_base p \<le> p_pos p \<and> p_pos p \<le> p_base p + length ts"

definition wf_parser :: "'n Parser \<Rightarrow> bool" where
  "wf_parser p \<longleftrightarrow> wf_scanner (p_lx p) \<and> src_of (p_lx p) = p_src p \<and> sc_kind (p_lx p) = p_kind p \<and>
     p_base p \<le> length (all_tokens p) \<and> (p_pos p = 0 \<or> p_base p < p_pos p) \<and> (\<exists>ts. buffered p ts)"

text \<open>The trivia among tokens; what is pending and what is left to lex are together all of it.\<close>

definition trivs :: "Token list \<Rightarrow> Trivia list" where
  "trivs ts = List.map_filter triviaOf ts"

definition trivia_left :: "'n Parser \<Rightarrow> Trivia list" where
  "trivia_left p = trivs (scan_rest (p_lx p))"

definition trivia_grows :: "Trivia list \<Rightarrow> Trivia list \<Rightarrow> 'n Parser \<Rightarrow> 'n Parser \<Rightarrow> bool" where
  "trivia_grows as bs p p' \<longleftrightarrow> (\<exists>trs. as = trs @ bs \<and> p_triv p' = p_triv p @ trs \<and>
     (0 < p_checkpoints p \<longrightarrow> p_trivLog p' = p_trivLog p @ trs))"

text \<open>What looking ahead may change, and what it keeps.\<close>

definition looked :: "'n Parser \<Rightarrow> 'n Parser \<Rightarrow> bool" where
  "looked p p' \<longleftrightarrow> p_src p' = p_src p \<and> p_kind p' = p_kind p \<and> p_pos p' = p_pos p \<and> p_checkpoints p' = p_checkpoints p \<and>
     p_Warnings p' = p_Warnings p \<and> p_undefinedOps p' = p_undefinedOps p \<and> p_typedByCount p' = p_typedByCount p \<and>
     p_bodyEnd p' = p_bodyEnd p \<and> p_memberStarts p' = p_memberStarts p \<and> p_commentBodies p' = p_commentBodies p \<and>
     p_attachedStarts p' = p_attachedStarts p \<and> p_resultEnds p' = p_resultEnds p \<and> lastToken p' = lastToken p \<and>
     (\<exists>ds. p_Diagnostics p' = p_Diagnostics p @ ds) \<and> (quiet p \<longrightarrow> p_Diagnostics p' = p_Diagnostics p \<and> quiet p') \<and>
     (0 < p_checkpoints p \<longrightarrow> p_base p' = p_base p) \<and> trivia_grows (trivia_left p) (trivia_left p') p p'"

lemma trivia_grows_refl: "trivia_grows as as p p"
  by (simp add: trivia_grows_def)

lemma trivia_grows_trans:
  "trivia_grows as bs p q \<Longrightarrow> trivia_grows bs cs q r \<Longrightarrow> p_checkpoints q = p_checkpoints p \<Longrightarrow> trivia_grows as cs p r"
  unfolding trivia_grows_def by fastforce

lemma looked_refl: "looked p p"
  by (simp add: looked_def trivia_grows_refl)

lemma looked_trans: "looked p q \<Longrightarrow> looked q r \<Longrightarrow> looked p r"
  using trivia_grows_trans [of "trivia_left p" "trivia_left q" p q "trivia_left r" r] unfolding looked_def by auto

lemma all_tokens_cong: "p_src p' = p_src p \<Longrightarrow> p_kind p' = p_kind p \<Longrightarrow> all_tokens p' = all_tokens p \<and> eof_of p' = eof_of p"
  by (simp add: all_tokens_def eof_of_def)

lemma wf_NewParser: "wf_parser (NewParser src kind)"
  by (auto simp: wf_parser_def buffered_def NewParser_def all_tokens_def scan_NewScanner src_of_def [of "NewScanner src kind"])
    (auto simp: NewScanner_def)

text \<open>Trivia passes the cursor by.\<close>

lemma note_trivia_fields [simp]:
  "p_src (note_trivia tok p) = p_src p" "p_kind (note_trivia tok p) = p_kind p" "p_buf (note_trivia tok p) = p_buf p"
  "p_base (note_trivia tok p) = p_base p" "p_pos (note_trivia tok p) = p_pos p" "p_checkpoints (note_trivia tok p) = p_checkpoints p"
  "p_Warnings (note_trivia tok p) = p_Warnings p" "p_undefinedOps (note_trivia tok p) = p_undefinedOps p"
  "p_typedByCount (note_trivia tok p) = p_typedByCount p" "p_bodyEnd (note_trivia tok p) = p_bodyEnd p"
  "p_comments (note_trivia tok p) = p_comments p"
  "p_memberStarts (note_trivia tok p) = p_memberStarts p" "p_commentBodies (note_trivia tok p) = p_commentBodies p"
  "p_attachedStarts (note_trivia tok p) = p_attachedStarts p" "p_resultEnds (note_trivia tok p) = p_resultEnds p"
  by (simp_all add: note_trivia_def Let_def add_error_def split: option.split)

lemma trivs_simps [simp]:
  "trivs [] = []" "trivs (t # ts) = (case triviaOf t of None \<Rightarrow> trivs ts | Some tr \<Rightarrow> tr # trivs ts)"
  by (simp_all add: trivs_def List.map_filter_def split: option.split)

lemma triviaOf_kept [simp]: "\<not> skipped t \<Longrightarrow> triviaOf t = None"
  by (auto simp: triviaOf_def skipped_def IsTrivia_def split: Kind.split)

lemma note_trivia_grows:
  "\<exists>ds. p_Diagnostics (note_trivia tok p) = p_Diagnostics p @ ds \<and> (\<not> tok_Unterminated tok \<longrightarrow> ds = [])"
  "trivia_grows (trivs (tok # ts)) (trivs ts) p (note_trivia tok p)"
  by (auto simp: trivia_grows_def note_trivia_def Let_def add_error_def split: option.split)

text \<open>What the loop over trivia does to everything but the scanner.\<close>

definition same_fields :: "'n Parser \<Rightarrow> 'n Parser \<Rightarrow> bool" where
  "same_fields p p' \<longleftrightarrow> p_src p' = p_src p \<and> p_kind p' = p_kind p \<and> p_buf p' = p_buf p \<and> p_base p' = p_base p \<and> p_pos p' = p_pos p \<and>
     p_checkpoints p' = p_checkpoints p \<and> p_Warnings p' = p_Warnings p \<and> p_undefinedOps p' = p_undefinedOps p \<and>
     p_typedByCount p' = p_typedByCount p \<and> p_bodyEnd p' = p_bodyEnd p \<and> p_memberStarts p' = p_memberStarts p \<and>
     p_commentBodies p' = p_commentBodies p \<and> p_attachedStarts p' = p_attachedStarts p \<and> p_resultEnds p' = p_resultEnds p"

definition diags_grow :: "bool \<Rightarrow> 'n Parser \<Rightarrow> 'n Parser \<Rightarrow> bool" where
  "diags_grow none p p' \<longleftrightarrow> (\<exists>ds. p_Diagnostics p' = p_Diagnostics p @ ds \<and> (none \<longrightarrow> ds = []))"

definition noted :: "Token list \<Rightarrow> Token list \<Rightarrow> 'n Parser \<Rightarrow> 'n Parser \<Rightarrow> bool" where
  "noted ts us p p' \<longleftrightarrow> same_fields p p' \<and> diags_grow (no_open ts) p p' \<and> trivia_grows (trivs ts) (trivs us) p p'"

lemma diags_grow_trans: "diags_grow a p q \<Longrightarrow> diags_grow b q r \<Longrightarrow> (c \<Longrightarrow> a \<and> b) \<Longrightarrow> diags_grow c p r"
  unfolding diags_grow_def by fastforce

lemma noted_trans:
  assumes "noted ts us p q" "noted us' vs q r" "no_open ts \<Longrightarrow> no_open us'" "trivs us' = trivs us"
  shows "noted ts vs p r"
proof -
  have "same_fields p r" using assms(1,2) by (simp add: noted_def same_fields_def)
  moreover have "diags_grow (no_open ts) p r"
    using diags_grow_trans [of "no_open ts" p q "no_open us'" r "no_open ts"] assms by (simp add: noted_def)
  moreover have "trivia_grows (trivs ts) (trivs vs) p r"
    using trivia_grows_trans [of "trivs ts" "trivs us" p q "trivs vs" r] assms(1,2,4) by (simp add: noted_def same_fields_def)
  ultimately show ?thesis by (simp add: noted_def)
qed

lemma noted_refl: "trivs us = trivs ts \<Longrightarrow> noted ts us p p"
  by (simp add: noted_def same_fields_def diags_grow_def trivia_grows_refl)

lemma noted_lx [simp]: "noted ts us (p\<lparr>p_lx := lx\<rparr>) q = noted ts us p q"
  by (simp add: noted_def same_fields_def diags_grow_def trivia_grows_def)

lemma noted_trivia: "skipped tok \<Longrightarrow> noted (tok # ts) ts p (note_trivia tok p)"
  using note_trivia_grows(1) [of tok p] note_trivia_grows(2) [of tok ts p]
  unfolding noted_def same_fields_def diags_grow_def no_open_def by auto

lemma skip_trivia_ok:
  assumes "wf_scanner (p_lx p)" "tok_Kind tok = EOF \<Longrightarrow> scan_rest (p_lx p) = [] \<and> tok = end_token (src_of (p_lx p))"
  shows "\<exists>tok' cs p'. skip_trivia tok comments p = (tok', cs, p') \<and>
    tok' = tok_nth (end_token (src_of (p_lx p))) (significant (tok # scan_rest (p_lx p))) 0 \<and>
    significant (scan_rest (p_lx p')) = tl (significant (tok # scan_rest (p_lx p))) \<and>
    (tok_Kind tok' = EOF \<longrightarrow> scan_rest (p_lx p') = []) \<and> wf_scanner (p_lx p') \<and>
    src_of (p_lx p') = src_of (p_lx p) \<and> sc_kind (p_lx p') = sc_kind (p_lx p) \<and>
    List.set (scan_rest (p_lx p')) \<subseteq> List.set (scan_rest (p_lx p)) \<and>
    noted (tok # scan_rest (p_lx p)) (scan_rest (p_lx p')) p p'"
  using assms
proof (induction tok comments p rule: skip_trivia.induct)
  case (1 tok comments p)
  show ?case
  proof (cases "skipped tok")
    case False
    then show ?thesis using "1.prems" by (subst skip_trivia.simps) (auto intro: noted_refl)
  next
    case True
    define q where "q = note_trivia tok p"
    define cs where "cs = (if tok_Kind tok = RegularComment then comments @ [tok_Span tok] else comments)"
    obtain lx where n: "Scanner_Next (p_lx p) = (tok_nth (end_token (src_of (p_lx p))) (scan_rest (p_lx p)) 0, lx)"
      "scan_rest lx = tl (scan_rest (p_lx p))" "wf_scanner lx" "src_of lx = src_of (p_lx p)" "sc_kind lx = sc_kind (p_lx p)"
      using Scanner_Next_ok [OF "1.prems"(1)] by blast
    define t where "t = tok_nth (end_token (src_of (p_lx p))) (scan_rest (p_lx p)) 0"
    define r where "r = q\<lparr>p_lx := lx\<rparr>"
    have at_end: "tok_Kind t = EOF \<Longrightarrow> scan_rest (p_lx r) = [] \<and> t = end_token (src_of (p_lx r))"
    proof -
      assume eof: "tok_Kind t = EOF"
      have "scan_rest (p_lx p) = []"
      proof (rule ccontr)
        assume ne: "scan_rest (p_lx p) \<noteq> []"
        then have "t \<in> List.set (scan_rest (p_lx p))" by (simp add: t_def tok_nth_def)
        then show False using eof scan_rest_no_EOF "1.prems"(1) by blast
      qed
      then show ?thesis using n by (simp add: t_def r_def)
    qed
    have unfold: "skip_trivia tok comments p = skip_trivia t cs r"
      using True n(1) by (subst skip_trivia.simps) (simp add: q_def cs_def r_def t_def)
    have heads: "tok_nth (end_token (src_of (p_lx r))) (significant (t # scan_rest (p_lx r))) 0 =
        tok_nth (end_token (src_of (p_lx p))) (significant (tok # scan_rest (p_lx p))) 0"
      "tl (significant (t # scan_rest (p_lx r))) = tl (significant (tok # scan_rest (p_lx p)))"
      using n(2,4) True by (cases "scan_rest (p_lx p)"; simp add: t_def r_def)+
    have from_q: "noted (tok # scan_rest (p_lx p)) us p p'" if nt: "noted (t # scan_rest (p_lx r)) us r p'" for us p'
    proof (rule noted_trans [OF noted_trivia [OF True] nt [unfolded r_def noted_lx q_def]])
      show "no_open (t # scan_rest (p_lx (note_trivia tok p\<lparr>p_lx := lx\<rparr>)))" if "no_open (tok # scan_rest (p_lx p))"
        using n(2) that by (cases "scan_rest (p_lx p)") (auto simp: t_def no_open_def)
      show "trivs (t # scan_rest (p_lx (note_trivia tok p\<lparr>p_lx := lx\<rparr>))) = trivs (scan_rest (p_lx p))"
        using n(2) by (cases "scan_rest (p_lx p)") (simp_all add: t_def)
    qed
    have fewer: "List.set (scan_rest (p_lx r)) \<subseteq> List.set (scan_rest (p_lx p))"
      using n(2) by (cases "scan_rest (p_lx p)") (auto simp: r_def)
    have r: "src_of (p_lx r) = src_of (p_lx p)" "sc_kind (p_lx r) = sc_kind (p_lx p)" "wf_scanner (p_lx r)"
      using n by (simp_all add: r_def)
    have next_q: "(t, lx) = Scanner_Next (p_lx q)" using n(1) by (simp add: t_def q_def)
    note ih = "1.IH" [OF True q_def cs_def next_q refl, folded r_def, OF r(3) at_end]
    then obtain tok' cs' p' where ih': "skip_trivia t cs r = (tok', cs', p')"
      "tok' = tok_nth (end_token (src_of (p_lx r))) (significant (t # scan_rest (p_lx r))) 0"
      "significant (scan_rest (p_lx p')) = tl (significant (t # scan_rest (p_lx r)))"
      "tok_Kind tok' = EOF \<longrightarrow> scan_rest (p_lx p') = []" "wf_scanner (p_lx p')" "src_of (p_lx p') = src_of (p_lx r)"
      "sc_kind (p_lx p') = sc_kind (p_lx r)" "List.set (scan_rest (p_lx p')) \<subseteq> List.set (scan_rest (p_lx r))"
      "noted (t # scan_rest (p_lx r)) (scan_rest (p_lx p')) r p'" by blast
    then show ?thesis using from_q heads fewer r unfold by auto
  qed
qed

text \<open>What the trivia before a token leaves is what looking ahead may.\<close>

lemma lastToken_append:
  "p_pos p - p_base p \<le> length (p_buf p) \<Longrightarrow> p_buf p' = p_buf p @ us \<Longrightarrow> p_pos p' = p_pos p \<Longrightarrow> p_base p' = p_base p \<Longrightarrow>
   lastToken p' = lastToken p"
  by (auto simp: lastToken_def Let_def nth_append)

lemma looked_noted:
  assumes "noted ts (scan_rest (p_lx p')) p p'" "quiet p \<Longrightarrow> no_open ts \<and> no_open (scan_rest (p_lx p'))"
    "trivs ts = trivia_left p" "p_pos p - p_base p \<le> length (p_buf p)"
  shows "looked p (p'\<lparr>p_buf := p_buf p @ us, p_pos := p_pos p, p_base := p_base p, p_comments := cs\<rparr>)"
proof -
  have "lastToken (p'\<lparr>p_buf := p_buf p @ us, p_pos := p_pos p, p_base := p_base p, p_comments := cs\<rparr>) = lastToken p"
    by (rule lastToken_append [OF assms(4)]) simp_all
  moreover have "same_fields p p'" "diags_grow (no_open ts) p p'" "trivia_grows (trivia_left p) (trivia_left p') p p'"
    using assms(1,3) by (simp_all add: noted_def trivia_left_def)
  ultimately show ?thesis
    using assms(2) unfolding looked_def by (auto simp: same_fields_def diags_grow_def trivia_grows_def quiet_def trivia_left_def)
qed

lemma buffered_room: "buffered p ts \<Longrightarrow> p_pos p - p_base p \<le> length (p_buf p)"
  by (auto simp: buffered_def)

text \<open>One turn of the loop of \<open>fill\<close>.\<close>

lemma fill_turn:
  assumes "wf_parser p"
  obtains tok p' where "wf_parser p'" "looked p p'" "p_base p' = p_base p" "p_buf p' = p_buf p @ [tok]"
    "fill_loop n p = (if length (p_buf p) \<le> p_pos p - p_base p + n then if tok_Kind tok = EOF then p' else fill_loop n p' else p)"
proof -
  obtain ts where buf: "buffered p ts" and wf: "wf_scanner (p_lx p)" "src_of (p_lx p) = p_src p"
    using assms by (auto simp: wf_parser_def)
  define tok0 where "tok0 = tok_nth (eof_of p) (scan_rest (p_lx p)) 0"
  obtain lx where lx: "Scanner_Next (p_lx p) = (tok0, lx)" "scan_rest lx = tl (scan_rest (p_lx p))" "wf_scanner lx"
    "src_of lx = p_src p" "sc_kind lx = sc_kind (p_lx p)"
    using Scanner_Next_ok [OF wf(1)] by (auto simp: tok0_def eof_of_def wf(2))
  have at_end: "scan_rest lx = [] \<and> tok0 = end_token (src_of lx)" if "tok_Kind tok0 = EOF"
  proof -
    have "scan_rest (p_lx p) = []"
    proof (rule ccontr)
      assume "scan_rest (p_lx p) \<noteq> []"
      then have "tok0 \<in> List.set (scan_rest (p_lx p))" by (simp add: tok0_def tok_nth_def)
      then show False using that scan_rest_no_EOF wf(1) by blast
    qed
    then show ?thesis using lx by (simp add: tok0_def eof_of_def)
  qed
  define q where "q = p\<lparr>p_lx := lx\<rparr>"
  obtain tok cs p1 where p1: "skip_trivia tok0 [] q = (tok, cs, p1)"
    "tok = tok_nth (end_token (src_of (p_lx q))) (significant (tok0 # scan_rest (p_lx q))) 0"
    "significant (scan_rest (p_lx p1)) = tl (significant (tok0 # scan_rest (p_lx q)))"
    "tok_Kind tok = EOF \<longrightarrow> scan_rest (p_lx p1) = []" "wf_scanner (p_lx p1)" "src_of (p_lx p1) = src_of (p_lx q)"
    "sc_kind (p_lx p1) = sc_kind (p_lx q)" "List.set (scan_rest (p_lx p1)) \<subseteq> List.set (scan_rest (p_lx q))"
    "noted (tok0 # scan_rest (p_lx q)) (scan_rest (p_lx p1)) q p1"
    using skip_trivia_ok [of q tok0 "[]"] lx(3) at_end by (auto simp: q_def)
  define p' where "p' = p1\<lparr>p_buf := p_buf p @ [tok], p_pos := p_pos p, p_base := p_base p,
    p_comments := p_comments p1 @ map (\<lambda>sp. \<lparr>pc_span = sp, pc_next = tok\<rparr>) cs\<rparr>"
  have same: "same_fields p p1" using p1(9) [unfolded q_def noted_lx] by (simp add: noted_def)
  have rest: "tok = tok_nth (eof_of p) (significant (scan_rest (p_lx p))) 0"
    "significant (scan_rest (p_lx p1)) = tl (significant (scan_rest (p_lx p)))"
    using p1(2,3) lx(2,4) by (cases "scan_rest (p_lx p)"; simp add: q_def tok0_def eof_of_def)+
  have "looked p p'"
    unfolding p'_def
  proof (rule looked_noted)
    show "noted (tok0 # scan_rest (p_lx q)) (scan_rest (p_lx p1)) p p1" using p1(9) by (simp add: q_def)
    show "trivs (tok0 # scan_rest (p_lx q)) = trivia_left p"
      using lx(2) by (cases "scan_rest (p_lx p)") (simp_all add: q_def tok0_def eof_of_def trivia_left_def)
    show "no_open (tok0 # scan_rest (p_lx q)) \<and> no_open (scan_rest (p_lx p1))" if "quiet p"
      using that p1(8) lx(2) by (cases "scan_rest (p_lx p)") (auto simp: quiet_def no_open_def q_def tok0_def eof_of_def)
  qed (rule buffered_room [OF buf])
  moreover have "wf_parser p'"
  proof -
    obtain k where k: "p_buf p = ts @ replicate k (eof_of p)" "0 < k \<longrightarrow> scan_rest (p_lx p) = []"
      "\<forall>t \<in> List.set ts. tok_Kind t \<noteq> EOF" "drop (p_base p) (all_tokens p) = ts @ significant (scan_rest (p_lx p))"
      "p_base p \<le> p_pos p" "p_pos p \<le> p_base p + length ts" using buf by (auto simp: buffered_def)
    have cong: "all_tokens p' = all_tokens p \<and> eof_of p' = eof_of p"
      by (rule all_tokens_cong) (use same in \<open>simp_all add: p'_def same_fields_def\<close>)
    have "buffered p' (if tok_Kind tok = EOF then ts else ts @ [tok])"
    proof (cases "significant (scan_rest (p_lx p))")
      case Nil
      then have eof: "tok = eof_of p" "tok_Kind tok = EOF" using rest by (simp_all add: eof_of_def)
      then have "p_buf p' = ts @ replicate (Suc k) (eof_of p)" using k(1) by (simp add: p'_def replicate_append_same)
      moreover have "scan_rest (p_lx p') = []" using p1(4) eof by (simp add: p'_def)
      ultimately show ?thesis using k Nil cong eof unfolding buffered_def by (auto simp: p'_def intro: exI [of _ "Suc k"])
    next
      case (Cons t us)
      then have "t \<in> List.set (significant (scan_rest (p_lx p)))" by simp
      then have t: "tok = t" "t \<in> List.set (scan_rest (p_lx p))" using rest Cons by (simp_all add: significant_def)
      then have "tok_Kind tok \<noteq> EOF" "k = 0" using scan_rest_no_EOF wf(1) k(2) by force+
      then show ?thesis using k Cons rest t cong unfolding buffered_def by (auto simp: p'_def intro: exI [of _ 0])
    qed
    then show ?thesis
      using assms cong same p1(5,6,7) lx(4,5) by (auto simp: wf_parser_def p'_def same_fields_def q_def)
  qed
  moreover have "fill_loop n p = (if length (p_buf p) \<le> p_pos p - p_base p + n then if tok_Kind tok = EOF then p' else fill_loop n p' else p)"
    using lx(1) p1(1) by (subst fill_loop.simps) (simp add: Let_def p'_def q_def)
  moreover have "p_base p' = p_base p" "p_buf p' = p_buf p @ [tok]" by (simp_all add: p'_def)
  ultimately show ?thesis using that by blast
qed

lemma fill_loop_ok:
  assumes "wf_parser p"
  shows "wf_parser (fill_loop n p) \<and> looked p (fill_loop n p) \<and> p_base (fill_loop n p) = p_base p \<and>
    (p_pos p - p_base p + n < length (p_buf (fill_loop n p)) \<or>
      p_buf (fill_loop n p) \<noteq> [] \<and> tok_Kind (last (p_buf (fill_loop n p))) = EOF)"
  using assms
proof (induction "p_pos p - p_base p + n + 1 - length (p_buf p)" arbitrary: p rule: less_induct)
  case less
  obtain tok p' where p': "wf_parser p'" "looked p p'" "p_base p' = p_base p" "p_buf p' = p_buf p @ [tok]"
    "fill_loop n p = (if length (p_buf p) \<le> p_pos p - p_base p + n then if tok_Kind tok = EOF then p' else fill_loop n p' else p)"
    using fill_turn [OF less.prems] by metis
  have pos: "p_pos p' = p_pos p" using p'(2) by (simp add: looked_def)
  show ?case
  proof (cases "length (p_buf p) \<le> p_pos p - p_base p + n")
    case False
    then show ?thesis using less.prems p'(5) looked_refl by auto
  next
    case turn: True
    show ?thesis
    proof (cases "tok_Kind tok = EOF")
      case True
      then show ?thesis using p' turn by auto
    next
      case False
      have "p_pos p' - p_base p' + n + 1 - length (p_buf p') < p_pos p - p_base p + n + 1 - length (p_buf p)"
        using turn p'(3,4) pos by simp
      from less.hyps [OF this p'(1)] show ?thesis
        using False turn p'(2,3,5) pos looked_trans by auto
    qed
  qed
qed

lemma compact_cases:
  obtains "compact p = p"
  | k where "p_checkpoints p = 0" "p_base p + k + 1 = p_pos p" "compact p = p\<lparr>p_buf := drop k (p_buf p), p_base := p_base p + k\<rparr>"
proof (cases "compact p = p")
  case False
  define k where "k = p_pos p - p_base p - 1"
  have "p_checkpoints p = 0" "int (p_pos p) - int (p_base p) - 1 \<ge> int tokenWindow"
    using False by (auto simp: compact_def Let_def split: if_splits)
  then have k: "int (p_pos p) - int (p_base p) - 1 = int k" "p_base p + k + 1 = p_pos p"
    by (auto simp: k_def tokenWindow_def)
  have "compact p = p\<lparr>p_buf := drop k (p_buf p), p_base := p_base p + k\<rparr>"
    using False unfolding compact_def k(1) by (auto simp: Let_def split: if_splits)
  then show ?thesis using that(2) \<open>p_checkpoints p = 0\<close> k(2) by blast
qed (use that in blast)

lemma compact_ok:
  assumes "wf_parser p"
  shows "wf_parser (compact p) \<and> looked p (compact p)"
  using compact_cases [of p]
proof cases
  case 1
  then show ?thesis using assms looked_refl by simp
next
  case (2 k)
  obtain ts j where ts: "p_buf p = ts @ replicate j (eof_of p)" "0 < j \<longrightarrow> scan_rest (p_lx p) = []"
    "\<forall>t \<in> List.set ts. tok_Kind t \<noteq> EOF" "drop (p_base p) (all_tokens p) = ts @ significant (scan_rest (p_lx p))"
    "p_base p \<le> p_pos p" "p_pos p \<le> p_base p + length ts" using assms by (auto simp: wf_parser_def buffered_def)
  have k: "k < length ts" using 2 ts(6) by simp
  have "length (drop (p_base p) (all_tokens p)) \<ge> length ts" using ts(4) by simp
  then have base: "p_base p + k \<le> length (all_tokens p)" using k by simp
  have cong: "all_tokens (compact p) = all_tokens p" "eof_of (compact p) = eof_of p"
    using all_tokens_cong [of "compact p" p] 2 by simp_all
  have "drop (p_base p + k) (all_tokens p) = drop k ts @ significant (scan_rest (p_lx p))"
    using ts(4) k drop_drop [of k "p_base p" "all_tokens p"] by (simp add: add.commute)
  moreover have "drop k (p_buf p) = drop k ts @ replicate j (eof_of p)" using ts(1) k by simp
  moreover have "\<forall>t \<in> List.set (drop k ts). tok_Kind t \<noteq> EOF" using ts(3) by (meson in_set_dropD)
  ultimately have "buffered (compact p) (drop k ts)"
    using ts(2,5,6) 2(2,3) cong k unfolding buffered_def by (simp add: exI [of _ j])
  then have "wf_parser (compact p)" using assms base 2 cong by (auto simp: wf_parser_def)
  moreover have "lastToken (compact p) = lastToken p"
  proof -
    have "p_pos p - Suc (p_base p) = k" "p_pos p - (p_base p + k) = 1" "p_pos p - p_base p = Suc k" using 2(2) by simp_all
    then show ?thesis using 2 k ts(1) by (simp add: lastToken_def nth_append)
  qed
  ultimately show ?thesis using 2 by (auto simp: looked_def quiet_def trivia_grows_def trivia_left_def)
qed

lemma fill_ok:
  assumes "wf_parser p"
  shows "wf_parser (fill n p) \<and> looked p (fill n p) \<and>
    (p_pos p - p_base (fill n p) + n < length (p_buf (fill n p)) \<or>
      p_buf (fill n p) \<noteq> [] \<and> tok_Kind (last (p_buf (fill n p))) = EOF)"
  using fill_loop_ok [of "compact p" n] compact_ok [OF assms] looked_trans [of p "compact p"]
  by (auto simp: fill_def looked_def)

text \<open>The tokens the window holds are those of the file, at their places.\<close>

lemma window_nth:
  assumes "wf_parser p" "i < length (p_buf p)"
  shows "p_buf p ! i = tok_nth (eof_of p) (all_tokens p) (p_base p + i)"
proof -
  obtain ts j where ts: "p_buf p = ts @ replicate j (eof_of p)" "0 < j \<longrightarrow> scan_rest (p_lx p) = []"
    "drop (p_base p) (all_tokens p) = ts @ significant (scan_rest (p_lx p))" "p_base p \<le> length (all_tokens p)"
    using assms(1) by (auto simp: wf_parser_def buffered_def)
  have all: "all_tokens p = take (p_base p) (all_tokens p) @ ts @ significant (scan_rest (p_lx p))"
    using ts(3) append_take_drop_id [of "p_base p" "all_tokens p"] by simp
  show ?thesis
  proof (cases "i < length ts")
    case True
    then show ?thesis using ts by (subst all) (simp add: tok_nth_def nth_append)
  next
    case False
    then have "0 < j" using assms(2) ts(1) by auto
    then have "length (all_tokens p) = p_base p + length ts" using ts(2-4) all by (metis append_Nil2 length_append length_take min.absorb2 significant_simps(1))
    then show ?thesis using False ts(1) assms(2) by (simp add: tok_nth_def nth_append)
  qed
qed

lemma window_last:
  assumes "wf_parser p" "p_buf p \<noteq> []" "tok_Kind (last (p_buf p)) = EOF"
  shows "last (p_buf p) = eof_of p \<and> length (all_tokens p) < p_base p + length (p_buf p)"
proof -
  have last: "last (p_buf p) = tok_nth (eof_of p) (all_tokens p) (p_base p + (length (p_buf p) - 1))"
    using window_nth [OF assms(1), of "length (p_buf p) - 1"] assms(2) by (simp add: last_conv_nth)
  have "tok_Kind t \<noteq> EOF" if "t \<in> List.set (all_tokens p)" for t
    using that scan_rest_no_EOF [OF wf_NewScanner, of t "p_src p" "p_kind p"]
    by (simp add: all_tokens_def significant_def scan_NewScanner)
  then have "\<not> p_base p + (length (p_buf p) - 1) < length (all_tokens p)"
    using assms(3) last nth_mem by (fastforce simp: tok_nth_def)
  then show ?thesis using last assms(2) by (cases "p_buf p") (auto simp: tok_nth_def)
qed

lemma peekN_ok:
  assumes "wf_parser p"
  obtains p' where "peekN_at n p = (tok_nth (eof_of p) (all_tokens p) (p_pos p + n), p')" "wf_parser p'" "looked p p'"
proof -
  have base: "p_base p \<le> p_pos p" using assms by (auto simp: wf_parser_def buffered_def)
  show ?thesis
  proof (cases "p_pos p - p_base p + n < length (p_buf p)")
    case True
    then show ?thesis
      using that [of p] window_nth [OF assms True] base assms looked_refl [of p] by (simp add: peekN_at_def)
  next
    case False
    let ?p = "fill n p"
    have f: "wf_parser ?p" "looked p ?p" "p_pos p - p_base ?p + n < length (p_buf ?p) \<or>
      p_buf ?p \<noteq> [] \<and> tok_Kind (last (p_buf ?p)) = EOF" using fill_ok [OF assms] by blast+
    have same: "p_pos ?p = p_pos p" "all_tokens ?p = all_tokens p" "eof_of ?p = eof_of p"
      using f(2) all_tokens_cong [of ?p p] by (simp_all add: looked_def)
    have base': "p_base ?p \<le> p_pos p" using f(1) same by (auto simp: wf_parser_def buffered_def)
    have "(if p_pos p - p_base ?p + n < length (p_buf ?p) then p_buf ?p ! (p_pos p - p_base ?p + n) else last (p_buf ?p)) =
      tok_nth (eof_of p) (all_tokens p) (p_pos p + n)"
    proof (cases "p_pos p - p_base ?p + n < length (p_buf ?p)")
      case True
      then show ?thesis using window_nth [OF f(1) True] same base' by simp
    next
      case past: False
      then have end_here: "last (p_buf ?p) = eof_of p \<and> length (all_tokens p) < p_base ?p + length (p_buf ?p)"
        using window_last [OF f(1)] f(3) same by simp
      moreover have "length (p_buf ?p) \<le> p_pos p - p_base ?p + n" using past by simp
      ultimately have "length (all_tokens p) < p_pos p + n" using base' by linarith
      then show ?thesis using past end_here by (simp add: tok_nth_def)
    qed
    then have "peekN_at n p = (tok_nth (eof_of p) (all_tokens p) (p_pos p + n), ?p)"
      using False unfolding peekN_at_def Let_def same(1) by simp
    then show ?thesis using that f(1,2) by blast
  qed
qed

section \<open>Advancing\<close>

lemma wf_pos: "wf_parser p \<Longrightarrow> p_pos p \<le> length (all_tokens p)"
proof -
  assume "wf_parser p"
  then obtain ts where ts: "drop (p_base p) (all_tokens p) = ts @ significant (scan_rest (p_lx p))" "p_pos p \<le> p_base p + length ts"
    "p_base p \<le> length (all_tokens p)" by (auto simp: wf_parser_def buffered_def)
  then have "length (all_tokens p) - p_base p = length ts + length (significant (scan_rest (p_lx p)))"
    by (metis length_append length_drop)
  then show ?thesis using ts(2,3) by linarith
qed

lemma wf_base: "wf_parser p \<Longrightarrow> p_base p \<le> p_pos p"
  by (auto simp: wf_parser_def buffered_def)

lemma lastToken_ok:
  assumes "wf_parser p"
  shows "lastToken p = (if p_pos p = 0 then None else Some (all_tokens p ! (p_pos p - 1)))"
proof (cases "p_pos p = 0")
  case False
  then have base: "p_base p < p_pos p" using assms by (simp add: wf_parser_def)
  have room: "p_pos p - p_base p \<le> length (p_buf p)" using assms buffered_room by (auto simp: wf_parser_def)
  have "p_buf p ! (p_pos p - p_base p - 1) = all_tokens p ! (p_pos p - 1)"
    using window_nth [OF assms, of "p_pos p - p_base p - 1"] room base wf_pos [OF assms] by (simp add: tok_nth_def)
  then show ?thesis using base room False by (simp add: lastToken_def)
qed (simp add: lastToken_def)

text \<open>What a parsing function adds to the parser by itself: findings, notes of places, trivia taken.\<close>

definition recorded :: "'n Parser \<Rightarrow> 'n Parser \<Rightarrow> bool" where
  "recorded p q \<longleftrightarrow> (\<exists>ds ws ops n ms cs as rs trs pc h e. q = p\<lparr>p_Diagnostics := p_Diagnostics p @ ds, p_Warnings := p_Warnings p @ ws,
     p_undefinedOps := p_undefinedOps p @ ops, p_typedByCount := n, p_memberStarts := p_memberStarts p @ ms,
     p_commentBodies := p_commentBodies p @ cs, p_attachedStarts := p_attachedStarts p @ as, p_resultEnds := p_resultEnds p @ rs,
     p_triv := trs, p_pendingComment := pc, p_hasPendingComment := h, p_bodyEnd := e\<rparr>)"

lemma recorded_error:
  "q = p\<lparr>p_Diagnostics := p_Diagnostics p @ ds\<rparr> \<Longrightarrow> recorded p q"
  unfolding recorded_def
  by (rule exI [of _ ds], rule exI [of _ "[]"], rule exI [of _ "[]"], rule exI [of _ "p_typedByCount p"], rule exI [of _ "[]"],
      rule exI [of _ "[]"], rule exI [of _ "[]"], rule exI [of _ "[]"], rule exI [of _ "p_triv p"], rule exI [of _ "p_pendingComment p"],
      rule exI [of _ "p_hasPendingComment p"], rule exI [of _ "p_bodyEnd p"]) simp

definition reported :: "'n Parser \<Rightarrow> 'n Parser \<Rightarrow> bool" where
  "reported p q \<longleftrightarrow> (\<exists>ds. q = p\<lparr>p_Diagnostics := p_Diagnostics p @ ds\<rparr>)"

lemma reported_refl: "reported p p"
  by (auto simp: reported_def intro: exI [of _ "[]"])

lemma reported_trans: "reported p q \<Longrightarrow> reported q r \<Longrightarrow> reported p r"
  by (auto simp: reported_def)

lemma reported_add_error: "reported p (add_error sp m p)"
  by (auto simp: reported_def add_error_def)

lemma reported_fold: "(\<And>x q. reported q (f x q)) \<Longrightarrow> reported p (fold f xs p)"
  by (induction xs arbitrary: p) (auto intro: reported_refl reported_trans)

lemma reported_token: "reported p (reportUnterminated tok p)" "reported p (reportBadEscapes tok p)"
  by (auto simp: reportUnterminated_def reportBadEscapes_def Let_def intro: reported_add_error reported_fold)

lemma advance_ok:
  assumes "wf_parser p"
  obtains p1 p' ds where "advance_at p = (tok_nth (eof_of p) (all_tokens p) (p_pos p), p')" "wf_parser p1" "looked p p1"
    "p' = p1\<lparr>p_pos := (if p_pos p < length (all_tokens p) then p_pos p + 1 else p_pos p), p_Diagnostics := p_Diagnostics p1 @ ds\<rparr>"
    "wf_parser p'"
proof -
  define p1 where "p1 = (if p_pos p - p_base p \<ge> length (p_buf p) then fill 0 p else p)"
  have wf: "wf_parser p1" "looked p p1" using fill_ok [OF assms, of 0] assms looked_refl by (auto simp: p1_def)
  have same: "p_pos p1 = p_pos p" "all_tokens p1 = all_tokens p" "eof_of p1 = eof_of p"
    using wf(2) all_tokens_cong [of p1 p] by (simp_all add: looked_def)
  have inside: "p_pos p1 - p_base p1 < length (p_buf p1)"
  proof (rule ccontr)
    assume past: "\<not> p_pos p1 - p_base p1 < length (p_buf p1)"
    then have filled: "p1 = fill 0 p" using p1_def by (metis leI)
    then have "p_buf p1 \<noteq> [] \<and> tok_Kind (last (p_buf p1)) = EOF" using fill_ok [OF assms, of 0] past same(1) by auto
    then have "length (all_tokens p1) < p_base p1 + length (p_buf p1)" using window_last [OF wf(1)] by blast
    then show False using past wf_pos [OF wf(1)] wf_base [OF wf(1)] by linarith
  qed
  define tok where "tok = p_buf p1 ! (p_pos p - p_base p1)"
  have tok: "tok = tok_nth (eof_of p) (all_tokens p) (p_pos p)"
    using window_nth [OF wf(1) inside] wf_base [OF wf(1)] by (simp add: tok_def same)
  have eof: "tok_Kind tok = EOF \<longleftrightarrow> \<not> p_pos p < length (all_tokens p)"
    using tok scan_rest_no_EOF [OF wf_NewScanner, of _ "p_src p" "p_kind p"] nth_mem [of "p_pos p" "all_tokens p"]
    by (auto simp: tok_nth_def eof_of_def all_tokens_def significant_def scan_NewScanner)
  let ?p2 = "p1\<lparr>p_pos := p_pos p + 1\<rparr>"
  have advance: "advance_at p = (tok, if tok_Kind tok \<noteq> EOF then
      (let p = (if tok_Unterminated tok then reportUnterminated tok ?p2 else ?p2) in if tok_BadEscape tok then reportBadEscapes tok p else p)
    else p1)"
    unfolding advance_at_def p1_def [symmetric] Let_def same(1) tok_def [symmetric] by simp
  let ?p' = "p1\<lparr>p_pos := (if p_pos p < length (all_tokens p) then p_pos p + 1 else p_pos p)\<rparr>"
  have "reported ?p2 (let p = (if tok_Unterminated tok then reportUnterminated tok ?p2 else ?p2) in if tok_BadEscape tok then reportBadEscapes tok p else p)"
    by (auto simp: Let_def intro: reported_token reported_refl reported_trans)
  then have "reported ?p' (snd (advance_at p))"
    using eof reported_refl [of p1] by (auto simp: advance same(1) [symmetric])
  then obtain ds where p': "snd (advance_at p) = p1\<lparr>p_pos := (if p_pos p < length (all_tokens p) then p_pos p + 1 else p_pos p), p_Diagnostics := p_Diagnostics p1 @ ds\<rparr>"
    by (auto simp: reported_def)
  have "wf_parser (snd (advance_at p))"
  proof -
    obtain ts j where ts: "p_buf p1 = ts @ replicate j (eof_of p)" "0 < j \<longrightarrow> scan_rest (p_lx p1) = []"
      "\<forall>t \<in> List.set ts. tok_Kind t \<noteq> EOF" "drop (p_base p1) (all_tokens p) = ts @ significant (scan_rest (p_lx p1))"
      "p_base p1 \<le> p_pos p" "p_pos p \<le> p_base p1 + length ts"
      using wf(1) same by (auto simp: wf_parser_def buffered_def)
    have "p_pos p < p_base p1 + length ts" if "p_pos p < length (all_tokens p)"
    proof (rule ccontr)
      assume at_eof: "\<not> p_pos p < p_base p1 + length ts"
      then have "tok = eof_of p" using inside ts(1) same(1) by (simp add: tok_def nth_append)
      then show False using eof that by (simp add: eof_of_def)
    qed
    moreover have "all_tokens (snd (advance_at p)) = all_tokens p \<and> eof_of (snd (advance_at p)) = eof_of p"
      using all_tokens_cong [of "snd (advance_at p)" p] wf(2) by (simp add: p' looked_def)
    ultimately have "buffered (snd (advance_at p)) ts"
      using ts unfolding buffered_def by (auto simp: p')
    then show ?thesis using wf(1) ts(5) \<open>_ \<and> eof_of (snd (advance_at p)) = _\<close> same by (auto simp: wf_parser_def p')
  qed
  then show ?thesis using that [of "snd (advance_at p)" p1] p' wf advance tok by (metis fst_conv prod.collapse)
qed

section \<open>What parsing functions do to the window\<close>

text \<open>
  The parsers a parsing function passes through: it peeks, advances, records what it found, and may try
  something under a checkpoint, which it then keeps or gives up.
\<close>

inductive reads :: "'n Parser \<Rightarrow> 'n Parser \<Rightarrow> bool" where
  reads_start: "reads p p"
| reads_peek: "reads p q \<Longrightarrow> peekN_at n q = (t, r) \<Longrightarrow> reads p r"
| reads_advance: "reads p q \<Longrightarrow> advance_at q = (t, r) \<Longrightarrow> reads p r"
| reads_record: "reads p q \<Longrightarrow> recorded q r \<Longrightarrow> reads p r"
| reads_keep: "reads p q \<Longrightarrow> checkpoint q = (cp, q1) \<Longrightarrow> reads q1 q2 \<Longrightarrow> reads p (release q2)"
| reads_give_up: "reads p q \<Longrightarrow> checkpoint q = (cp, q1) \<Longrightarrow> reads q1 q2 \<Longrightarrow> reads p (release (restore cp q2))"

definition lists_grow :: "'n Parser \<Rightarrow> 'n Parser \<Rightarrow> bool" where
  "lists_grow p q \<longleftrightarrow> prefix (p_Diagnostics p) (p_Diagnostics q) \<and> prefix (p_Warnings p) (p_Warnings q) \<and>
     prefix (p_undefinedOps p) (p_undefinedOps q) \<and> prefix (p_memberStarts p) (p_memberStarts q) \<and>
     prefix (p_commentBodies p) (p_commentBodies q) \<and> prefix (p_attachedStarts p) (p_attachedStarts q) \<and>
     prefix (p_resultEnds p) (p_resultEnds q)"

text \<open>While a checkpoint is open the window stays where it starts and the log has the trivia lexed.\<close>

definition pinned :: "'n Parser \<Rightarrow> 'n Parser \<Rightarrow> bool" where
  "pinned p q \<longleftrightarrow> (0 < p_checkpoints p \<longrightarrow> p_base q = p_base p \<and>
     (\<exists>trs. trivia_left p = trs @ trivia_left q \<and> p_trivLog q = p_trivLog p @ trs))"

definition later :: "'n Parser \<Rightarrow> 'n Parser \<Rightarrow> bool" where
  "later p q \<longleftrightarrow> wf_parser q \<and> p_src q = p_src p \<and> p_kind q = p_kind p \<and> p_checkpoints q = p_checkpoints p \<and>
     p_pos p \<le> p_pos q \<and> lists_grow p q \<and> pinned p q"

lemma lists_grow_refl: "lists_grow p p"
  by (simp add: lists_grow_def)

lemma lists_grow_trans: "lists_grow p q \<Longrightarrow> lists_grow q r \<Longrightarrow> lists_grow p r"
  unfolding lists_grow_def by (auto intro: prefix_order.trans)

lemma pinned_refl: "pinned p p"
  by (simp add: pinned_def)

lemma pinned_trans: "pinned p q \<Longrightarrow> pinned q r \<Longrightarrow> p_checkpoints q = p_checkpoints p \<Longrightarrow> pinned p r"
  unfolding pinned_def by fastforce

lemma later_refl: "wf_parser p \<Longrightarrow> later p p"
  by (simp add: later_def lists_grow_refl pinned_refl)

lemma later_trans: "later p q \<Longrightarrow> later q r \<Longrightarrow> later p r"
  unfolding later_def using lists_grow_trans pinned_trans by (metis order_trans)

lemma looked_later: "wf_parser q \<Longrightarrow> looked p q \<Longrightarrow> later p q"
  by (auto simp: later_def looked_def lists_grow_def pinned_def trivia_grows_def)

text \<open>Fields the window does not depend on.\<close>

definition same_window :: "'n Parser \<Rightarrow> 'n Parser \<Rightarrow> bool" where
  "same_window p q \<longleftrightarrow> p_src q = p_src p \<and> p_kind q = p_kind p \<and> p_lx q = p_lx p \<and> p_buf q = p_buf p \<and> p_base q = p_base p \<and>
     p_pos q = p_pos p"

lemma same_window_wf: "same_window p q \<Longrightarrow> wf_parser p \<Longrightarrow> wf_parser q"
  using all_tokens_cong [of q p] by (auto simp: same_window_def wf_parser_def buffered_def)

lemma same_window_left: "same_window p q \<Longrightarrow> trivia_left q = trivia_left p"
  by (simp add: same_window_def trivia_left_def)

lemma recorded_later: "recorded p q \<Longrightarrow> wf_parser p \<Longrightarrow> later p q"
proof -
  assume r: "recorded p q" and wf: "wf_parser p"
  then have "same_window p q" by (auto simp: recorded_def same_window_def)
  moreover have "lists_grow p q" "p_checkpoints q = p_checkpoints p" "p_trivLog q = p_trivLog p"
    using r by (auto simp: recorded_def lists_grow_def)
  ultimately show ?thesis
    using same_window_wf [OF _ wf] same_window_left [of p q] by (auto simp: later_def pinned_def same_window_def)
qed

lemma advance_later:
  assumes "wf_parser p" "advance_at p = (t, q)"
  shows "later p q"
proof -
  obtain p1 ds where p1: "wf_parser p1" "looked p p1" "wf_parser q"
    "q = p1\<lparr>p_pos := (if p_pos p < length (all_tokens p) then p_pos p + 1 else p_pos p), p_Diagnostics := p_Diagnostics p1 @ ds\<rparr>"
    using advance_ok [OF assms(1)] assms(2) by (metis snd_conv)
  have l: "later p p1" by (rule looked_later) (use p1 in auto)
  have "lists_grow p1 q" "pinned p1 q" "p_pos p1 \<le> p_pos q"
    using p1(2) by (auto simp: p1(4) lists_grow_def pinned_def looked_def trivia_left_def)
  then show ?thesis using l p1(3) later_trans [of p p1 q] by (auto simp: p1(4) later_def)
qed

text \<open>A checkpoint, and what giving up under it brings back.\<close>

lemma checkpoint_wf: "wf_parser p \<Longrightarrow> checkpoint p = (cp, p1) \<Longrightarrow> wf_parser p1"
  using same_window_wf [of p p1] by (auto simp: checkpoint_def same_window_def)

lemma rewound_wf:
  assumes "wf_parser q" "p_base q \<le> k" "k \<le> p_pos q" "k = 0 \<or> p_base q < k"
  shows "wf_parser (q\<lparr>p_pos := k\<rparr>)"
  using assms all_tokens_cong [of "q\<lparr>p_pos := k\<rparr>" q] by (auto simp: wf_parser_def buffered_def)

definition given_up :: "'n Parser \<Rightarrow> 'n Parser \<Rightarrow> bool" where
  "given_up p r \<longleftrightarrow> p_pos r = p_pos p \<and> p_Diagnostics r = p_Diagnostics p \<and> p_Warnings r = p_Warnings p \<and>
     p_undefinedOps r = p_undefinedOps p \<and> p_typedByCount r = p_typedByCount p \<and> p_memberStarts r = p_memberStarts p \<and>
     p_commentBodies r = p_commentBodies p \<and> p_attachedStarts r = p_attachedStarts p \<and> p_resultEnds r = p_resultEnds p \<and>
     p_pendingComment r = p_pendingComment p \<and> p_hasPendingComment r = p_hasPendingComment p \<and> p_bodyEnd r = p_bodyEnd p \<and>
     p_checkpoints r = p_checkpoints p \<and> p_triv r @ trivia_left r = p_triv p @ trivia_left p"

lemma take_prefix: "prefix xs ys \<Longrightarrow> take (length xs) ys = xs"
  by (auto simp: prefix_def)

lemma give_up_ok:
  assumes "wf_parser p" "checkpoint p = (cp, p1)" "later p1 q"
  shows "given_up p (release (restore cp q)) \<and> later p (release (restore cp q))"
proof -
  have p1: "p1 = p\<lparr>p_checkpoints := p_checkpoints p + 1\<rparr>" using assms(2) by (simp add: checkpoint_def)
  have cp: "cp = fst (checkpoint p)" using assms(2) by simp
  let ?r = "release (restore cp q)"
  obtain trs where trs: "trivia_left p1 = trs @ trivia_left q" "p_trivLog q = p_trivLog p1 @ trs" "p_base q = p_base p1"
    using assms(3) by (auto simp: later_def pinned_def p1)
  have left: "trivia_left p1 = trivia_left p" by (simp add: p1 trivia_left_def)
  have lists: "lists_grow p q" using assms(3) by (simp add: later_def lists_grow_def p1)
  have ck: "p_checkpoints q = p_checkpoints p + 1" using assms(3) by (simp add: later_def p1)
  have r: "p_triv ?r = p_triv p @ trs" "trivia_left ?r = trivia_left q" "p_checkpoints ?r = p_checkpoints p"
    "p_pos ?r = p_pos p" "p_base ?r = p_base p" "0 < p_checkpoints p \<longrightarrow> p_trivLog ?r = p_trivLog p @ trs"
    using trs ck by (simp_all add: restore_def release_def Let_def cp checkpoint_def p1 trivia_left_def)
  have "given_up p ?r"
    using lists r trs(1) left unfolding given_up_def
    by (simp add: lists_grow_def take_prefix) (simp add: restore_def release_def Let_def cp checkpoint_def take_prefix)
  moreover have "wf_parser ?r"
  proof -
    have "wf_parser (q\<lparr>p_pos := p_pos p\<rparr>)"
      using assms(1,3) trs(3) wf_base [OF assms(1)] by (intro rewound_wf) (auto simp: later_def p1 wf_parser_def)
    moreover have "same_window (q\<lparr>p_pos := p_pos p\<rparr>) ?r"
      by (simp add: same_window_def restore_def release_def Let_def cp checkpoint_def)
    ultimately show ?thesis by (rule same_window_wf [rotated])
  qed
  moreover have "p_src ?r = p_src p" "p_kind ?r = p_kind p"
    using assms(3) by (simp_all add: later_def p1 restore_def release_def Let_def)
  moreover have "pinned p ?r" using r trs(1) left by (simp add: pinned_def)
  ultimately show ?thesis using r by (simp add: later_def given_up_def lists_grow_def)
qed

lemma keep_ok:
  assumes "wf_parser p" "checkpoint p = (cp, p1)" "later p1 q"
  shows "later p (release q)"
proof -
  have p1: "p1 = p\<lparr>p_checkpoints := p_checkpoints p + 1\<rparr>" using assms(2) by (simp add: checkpoint_def)
  have "same_window q (release q)" by (simp add: same_window_def release_def Let_def)
  moreover have "p_checkpoints (release q) = p_checkpoints p" "lists_grow p (release q)"
    "0 < p_checkpoints p \<longrightarrow> p_trivLog (release q) = p_trivLog q"
    using assms(3) by (simp_all add: later_def lists_grow_def p1 release_def Let_def)
  moreover have "trivia_left p1 = trivia_left p" by (simp add: p1 trivia_left_def)
  ultimately show ?thesis
    using assms(3) same_window_wf [of q "release q"] same_window_left [of q "release q"]
    by (auto simp: later_def pinned_def same_window_def p1)
qed

lemma reads_later: "reads p q \<Longrightarrow> wf_parser p \<Longrightarrow> later p q"
proof (induction rule: reads.induct)
  case (reads_start p)
  then show ?case by (rule later_refl)
next
  case (reads_peek p q n t r)
  then have l: "later p q" by blast
  then have wf: "wf_parser q" by (simp add: later_def)
  then have "later q r" using peekN_ok [OF wf, of n] reads_peek.hyps(2) looked_later by (metis snd_conv)
  then show ?case using l later_trans by blast
next
  case (reads_advance p q t r)
  then have l: "later p q" by blast
  then show ?case using advance_later [of q t r] reads_advance.hyps(2) later_trans [OF l] by (simp add: later_def [of p q])
next
  case (reads_record p q r)
  then have l: "later p q" by blast
  then show ?case using recorded_later [of q r] reads_record.hyps(2) later_trans [OF l] by (simp add: later_def [of p q])
next
  case (reads_keep p q cp q1 q2)
  then have l: "later p q" by blast
  then have wf: "wf_parser q" by (simp add: later_def)
  then have "later q1 q2" using reads_keep checkpoint_wf by blast
  then show ?case using keep_ok [OF wf reads_keep.hyps(2)] later_trans [OF l] by blast
next
  case (reads_give_up p q cp q1 q2)
  then have l: "later p q" by blast
  then have wf: "wf_parser q" by (simp add: later_def)
  then have "later q1 q2" using reads_give_up checkpoint_wf by blast
  then show ?case using give_up_ok [OF wf reads_give_up.hyps(2)] later_trans [OF l] by blast
qed

text \<open>
  C26: the parser's window is a cursor on the significant tokens of the file. However a parsing function got
  there, peeking answers the token so many places on, advancing the token at the cursor, which it passes
  unless it is the end, and \<open>lastToken\<close> the one before; giving an attempt up rewinds to where the checkpoint was
  taken, with what was reported and noted there, and with every trivia lexed since pending again.
\<close>

theorem window_is_cursor:
  assumes "reads (NewParser src kind) p"
  defines "ts \<equiv> significant (cooked kind (end_token src) (tokens (New src)))"
  shows "fst (peekN_at n p) = tok_nth (end_token src) ts (p_pos p + n) \<and>
    fst (advance_at p) = tok_nth (end_token src) ts (p_pos p) \<and>
    p_pos (snd (peekN_at n p)) = p_pos p \<and>
    p_pos (snd (advance_at p)) = min (p_pos p + 1) (length ts) \<and>
    lastToken p = (if p_pos p = 0 then None else Some (ts ! (p_pos p - 1))) \<and>
    (\<forall>q. reads (snd (checkpoint p)) q \<longrightarrow>
      given_up p (release (restore (fst (checkpoint p)) q)) \<and> reads (NewParser src kind) (release (restore (fst (checkpoint p)) q)))"
proof -
  have l: "later (NewParser src kind) p" using reads_later [OF assms(1)] wf_NewParser by blast
  then have wf: "wf_parser p" by (simp add: later_def)
  have ts: "all_tokens p = ts" "eof_of p = end_token src"
    using l by (simp_all add: later_def all_tokens_def eof_of_def ts_def NewParser_def)
  obtain p1 where p1: "peekN_at n p = (tok_nth (end_token src) ts (p_pos p + n), p1)" "looked p p1"
    using peekN_ok [OF wf, of n] unfolding ts by metis
  obtain p2 p3 ds where p2: "advance_at p = (tok_nth (end_token src) ts (p_pos p), p3)"
    "p3 = p2\<lparr>p_pos := (if p_pos p < length ts then p_pos p + 1 else p_pos p), p_Diagnostics := p_Diagnostics p2 @ ds\<rparr>"
    using advance_ok [OF wf] unfolding ts by metis
  have "given_up p (release (restore (fst (checkpoint p)) q))" if "reads (snd (checkpoint p)) q" for q
    using give_up_ok [OF wf, of "fst (checkpoint p)" "snd (checkpoint p)" q] reads_later [OF that]
      checkpoint_wf [OF wf, of "fst (checkpoint p)"] by simp
  moreover have "reads (NewParser src kind) (release (restore (fst (checkpoint p)) q))" if "reads (snd (checkpoint p)) q" for q
    using reads_give_up [OF assms(1) prod.collapse [symmetric] that] .
  moreover have "p_pos p1 = p_pos p" using p1(2) by (simp add: looked_def)
  moreover have "p_pos p3 = min (p_pos p + 1) (length ts)" using wf_pos [OF wf] by (simp add: p2(2) ts(1) min_def)
  moreover have "lastToken p = (if p_pos p = 0 then None else Some (ts ! (p_pos p - 1)))" using lastToken_ok [OF wf] unfolding ts(1) .
  ultimately show ?thesis using p1(1) p2(1) by simp
qed

lemma window_is_cursor_witness:
  "\<exists>p q. reads (NewParser ''a b'' KindSysML :: unit Parser) p \<and> reads (snd (checkpoint p)) q \<and>
     lastToken p = Some (plain_token Identifier \<lparr>Offset = 0, Len = 1\<rparr>) \<and>
     fst (peekN_at 0 p) = plain_token Identifier \<lparr>Offset = 2, Len = 1\<rparr> \<and> p_pos q = 2 \<and>
     p_pos (release (restore (fst (checkpoint p)) q)) = 1"
proof -
  let ?src = "''a b''" let ?p0 = "NewParser ?src KindSysML :: unit Parser"
  define p where "p = snd (advance_at ?p0)"
  define q where "q = snd (advance_at (snd (checkpoint p)))"
  have ts: "significant (cooked KindSysML (end_token ?src) (tokens (New ?src))) =
    [plain_token Identifier \<lparr>Offset = 0, Len = 1\<rparr>, plain_token Identifier \<lparr>Offset = 2, Len = 1\<rparr>]" by code_simp
  have p: "reads ?p0 p" using reads_advance [OF reads_start prod.collapse [symmetric]] by (simp add: p_def)
  have q: "reads (snd (checkpoint p)) q" using reads_advance [OF reads_start prod.collapse [symmetric]] by (simp add: q_def)
  have pos: "p_pos p = 1" using window_is_cursor [OF reads_start [of ?p0]] unfolding ts p_def [symmetric] by (simp add: NewParser_def)
  have "p_pos q = 2" unfolding q_def by (simp add: p_def) code_simp
  then show ?thesis
    using window_is_cursor [OF p, of 0] p q pos unfolding ts by (auto simp: given_up_def)
qed


end
