(* ===== verification/Spec2Isabelle.thy ===== *)
theory Spec2Isabelle
  imports Source_Text Source_Names Source_Comments Lexer_Correct Lexer_Texts Explore_Run_Correct Explore_Paths Exact_Numbers
    Schedule Budgets Version_Ranges Index_Lookup Check_Examples Line_Diff_Correct Parse_Cursor
begin

text \<open>
  OpenSysML reads models written in SysML v2 and KerML, resolves and checks them, and runs the
  behaviors they describe. Text is scanned (\<open>internal/syntax/lexer\<close>) from source files
  (\<open>internal/syntax/source\<close>), parsed and indexed (\<open>internal/semantic/symbols\<close>), evaluated with exact
  numbers (\<open>internal/semantic/semantics\<close>) and executed under a scheduling policy
  (\<open>internal/exec/runtime\<close>), one of which explores every linearization of a behavior by running it
  again and again, on several jobs at once. This development models the parts below from the Go
  sources and proves what each promises; what lies between them is a parameter or not modelled.

  \<^bold>\<open>Theories, and what they model.\<close>

  \<^item> \<open>Prelude\<close>, \<open>Go_Numbers\<close>, \<open>Go_Int64\<close>, \<open>Go_Space\<close>, \<open>Go_Slices\<close>, \<open>Three_Way\<close>: the conventions of Go the
    sources rely on. A \<open>string\<close> is its bytes; a panic is \<open>None\<close>, an error the left of a sum; an \<open>int64\<close> is a
    word of 64 bits that wraps; an \<open>int\<close> that only counts what is in memory is an integer or a natural
    number. \<open>Go_Slices\<close> has slices over shared arrays, for the code whose point is not to write an array
    it shares. The interfaces \<open>codec\<close>, \<open>scanner\<close>, \<open>coordinates\<close> and \<open>three_way\<close> are locales,
    interpreted by the components that provide them.
  \<^item> \<open>Source_Text\<close>, \<open>Source_Names\<close>, \<open>Source_Comments\<close>: \<open>source.go\<close>, \<open>lineindex.go\<close>, \<open>kind.go\<close>, \<open>keywords.go\<close>,
    \<open>string.go\<close>, \<open>name.go\<close>, \<open>comment.go\<close> of \<open>internal/syntax/source\<close>: spans and line coordinates, reserved
    words, the escaping of strings and names, qualified names, and comment bodies with the
    provenance of each byte. Their lemmas are round trips, the coordinates of walking the text, and
    where writing is refused.
  \<^item> \<open>Lexer\<close>, \<open>Lexer_Correct\<close>, \<open>Lexer_Texts\<close>: the scanner of \<open>internal/syntax/lexer\<close> (\<open>Next\<close> and every branch of
    it). Its tokens tile the text, it ends within as many calls as there are bytes, and what the
    writers of \<open>Source_Names\<close> and \<open>Source_Comments\<close> write scans as one token.
  \<^item> \<open>Parse_Scanner\<close>, \<open>Parse_Window\<close>, \<open>Parse_Cursor\<close>: the tokens of the parser (\<open>scanner.go\<close> and the first part of
    \<open>parser.go\<close> in \<open>internal/syntax/parser\<close>): the words a file's grammar does not reserve, the window on the tokens,
    checkpoints. What the scanner answers is a function of the tokens of the lexer; the window is a cursor on it,
    whatever parsing functions do (the relation \<open>reads\<close>).
  \<^item> \<open>Explore_Run\<close>, \<open>Explore_Run_Correct\<close>, \<open>Explore_Paths\<close>: one run of an exploration (\<open>explore.go\<close>): its slots,
    the steps that hand out tokens, and what it leaves unexplored. Over a tree of choices the
    prefixes are its paths, each exactly once.
  \<^item> \<open>Explore_Queue\<close>, \<open>Explore_Queue_Correct\<close>, \<open>Explore_Jobs\<close>, \<open>Explore_Fold\<close>, \<open>Explore_Steps\<close>, \<open>Explore_Complete\<close>,
    \<open>Explore_Outcomes\<close>: the queue of prefixes and its jobs (\<open>explore_queue.go\<close>), the jobs a step relation in any
    interleaving of their locked sections. The invariant of the queue holds in every reachable
    state; the answer is the one a single job gives, whatever the number of jobs and the
    interleaving; no interleaving is stuck or endless; the budget bounds what is held and thrown away.
  \<^item> \<open>Schedule\<close>, \<open>Budgets\<close>: the scheduling policies and their spellings, the order of a sweep and the pick at
    a choice point (\<open>scheduler.go\<close>), and the bounds of a run (\<open>budget.go\<close>).
  \<^item> \<open>Check_Moves\<close>, \<open>Check_Reduce\<close>, \<open>Check_Search\<close>, \<open>Check_Report\<close>: the model checker (\<open>check.go\<close>, \<open>check_moves.go\<close>, \<open>check_reduce.go\<close>):
    the moves of a state and their siblings, the closure that selects the moves to explore, the depth-first
    search with its bounds, and the search from every start with its verdict. \<open>Check_Schedules\<close> is the step relation
    the search is judged by; \<open>Check_Sound\<close>, \<open>Check_Complete\<close> and \<open>Check_Ends\<close> are the invariants of its loop: what it
    reports some schedule does, an exhaustive search of every schedule leaves nothing out, and it ends.
    \<open>Check_Examples\<close> has concrete systems, one with a final the depth bound hides.
  \<^item> \<open>Exact_Values\<close>, \<open>Exact_Integers\<close>, \<open>Exact_Rationals\<close>, \<open>Exact_Texts\<close>, \<open>Exact_Numbers\<close>: the Integers and
    Rationals of the evaluator (\<open>integer.go\<close>, \<open>rational.go\<close>, parts of \<open>eval.go\<close>), held in a machine word or a
    pair of words where they fit. Every operation agrees with the rational numbers or reports the
    error of the reference, whichever representation it ran in; notation reads back.
  \<^item> \<open>Versions\<close>, \<open>Version_Order\<close>, \<open>Version_Ranges\<close>: the order of versions and the ranges of a dependency
    (\<open>constraint.go\<close> and the version functions of \<open>interchange.go\<close>).
  \<^item> \<open>Line_Diff\<close>, \<open>Line_Edits\<close>, \<open>Line_Grid\<close>, \<open>Line_Search\<close>, \<open>Line_Diff_Correct\<close>: the diff of a workspace edit
    (\<open>DiffLines\<close> of \<open>linediff.go\<close>). \<open>Line_Edits\<close> is the edit distance it is judged by, \<open>Line_Grid\<close> the interface of a
    grid of edits with the furthest reaches of its diagonals, which \<open>Line_Search\<close> instantiates with the lines to show that
    the passes from both ends meet on a middle snake; the hunks of the recursion are then minimal.
  \<^item> \<open>Index_Layers\<close>, \<open>Index_Slices\<close>: the tables of the symbol index (\<open>layer.go\<close>): a table that reads through to the
    table of a frozen index, an instance of the interface \<open>key_table\<close>, and the tables of slices, whose arrays the
    frozen table shares. A layer is the map it stands for; every write of a slice leaves each array of the
    frozen table as it was, keeps sorted entries sorted and the symbols of an overlay in declaration order.
  \<^item> \<open>Symbol_Index\<close>, \<open>Symbol_Index_Correct\<close>, \<open>Index_Reexports\<close>, \<open>Index_Steps\<close>, \<open>Index_Lookup\<close>: the index itself
    (\<open>index.go\<close>, \<open>changes.go\<close>): registering and deregistering names, claiming, dropping and purging the re-exports of
    wildcard imports, and qualified lookups. The writes are steps of a relation, \<open>index_reachable\<close> the indexes they
    bring about, plain, frozen and overlaid; the invariant ties keys, segments, marks and claims together.

  \<^bold>\<open>Bounds and termination.\<close> Loops are recursive functions with a measure (the bytes left, the bits of an
  exponent, the prefixes not yet folded). The closure of the model checker's reduction recurs on fuel one above the number of
  units, which is enough since every call but the first adds a unit (\<open>include_unit_ok\<close>, \<open>grow_all_ok\<close>). The search of the model checker and its
  loop over the starts may run for ever on an infinite system: they are partial functions into an option, and
  \<open>check_ends\<close> says when they answer; so is the recursion of the line diff, which \<open>DiffLines_minimal\<close> says always answers. That the exploration ends is
  proved of its step relation, by a measure of the budget. The only bounds in statements are those of the code: 64-bit
  words, the bounds of \<open>Budgets\<close>, and parts of versions below the largest \<open>int\<close>.

  \<^bold>\<open>Parameters.\<close> What a behavior answers to a list of picks (\<open>exec\<close>); reading a witness file (\<open>load\<close>); the
  draws of the seeded generator; the variables of the environment (\<open>lookup\<close>); the capacity \<open>append\<close> gives a new
  array and the order in which Go ranges over a map. What a theorem needs of one is a hypothesis of it. The executors the model checker moves are the parameter \<open>checked_system\<close> (the moves enabled in a
  state, what making one does, the key of a state, its properties and finals, the footprints), and how an invocation starts the parameter \<open>starter\<close>;
  that states of one key are alike is the hypothesis \<open>canonical\<close>.

  \<^bold>\<open>Not modelled.\<close> Anything that computes with binary64: the clock, random draws, probabilities,
  Reals and unit conversion, since the allowed libraries have no floating point. The productions of the parser and syntax trees, and
  what reads them (building the symbol index from scopes, name resolution, the semantic model,
  the checks, lowering, the evaluator and the executors), is left to later work in this order, the index's own tables
  being the start. Of the model checker, the witnesses it spells, the probability masses, and that its reduction loses no outcome, are not modelled or proved:
  the closure of the set it selects is. Generated code, file and network input and output, rendering, the front ends and the
  translations to outside formats are left aside. The texts of most errors are constructors here, with the values they report.
\<close>

end
